(* ===== verification/Go_Prelude.thy ===== *)
theory Go_Prelude
  imports Main "HOL-Library.AList" "HOL-Library.List_Lexorder" "HOL-Library.Char_ord"
begin

text \<open>
  What the components share: the collections of facts the component proofs are driven by,
  Go maps as association lists, and the pieces of the Go standard library the sources call
  (\<^verbatim>\<open>strconv.ParseInt\<close>, \<^verbatim>\<open>strconv.FormatInt\<close>, \<^verbatim>\<open>strings.Split\<close>, \<^verbatim>\<open>strings.Join\<close>,
  \<^verbatim>\<open>strings.Cut\<close>), with the laws the parsers and printers rely on.

  A Go map is an association list with distinct keys. Its list order stands for the order
  in which \<^verbatim>\<open>range\<close> happens to visit the map, which Go leaves open: a theorem about every
  association list is a theorem about every iteration order. Go's \<^verbatim>\<open>map[string]bool\<close> used
  as a set is a \<open>set\<close>. Strings are byte strings, ordered bytewise.
\<close>

named_theorems go_map \<open>laws of the map operations\<close>
named_theorems go_str \<open>laws of the string operations\<close>

section \<open>Maps\<close>

type_synonym ('k, 'v) gomap = "('k \<times> 'v) list"

abbreviation mget :: "('k, 'v) gomap \<Rightarrow> 'k \<Rightarrow> 'v option" where
  "mget m k \<equiv> map_of m k"

abbreviation mput :: "'k \<Rightarrow> 'v \<Rightarrow> ('k, 'v) gomap \<Rightarrow> ('k, 'v) gomap" where
  "mput k v m \<equiv> AList.update k v m"

abbreviation mdel :: "'k \<Rightarrow> ('k, 'v) gomap \<Rightarrow> ('k, 'v) gomap" where
  "mdel k m \<equiv> AList.delete k m"

abbreviation mkeys :: "('k, 'v) gomap \<Rightarrow> 'k list" where
  "mkeys m \<equiv> map fst m"

abbreviation mwf :: "('k, 'v) gomap \<Rightarrow> bool" where
  "mwf m \<equiv> distinct (map fst m)"

text \<open>Reading an absent key gives the zero value of the element type.\<close>

definition mgetz :: "'v \<Rightarrow> ('k, 'v) gomap \<Rightarrow> 'k \<Rightarrow> 'v" where
  "mgetz z m k = (case mget m k of None \<Rightarrow> z | Some v \<Rightarrow> v)"

lemma mget_mput [go_map, simp]: "mget (mput k v m) k' = (if k' = k then Some v else mget m k')"
  by (simp add: update_conv')

lemma mget_mdel [go_map, simp]: "mget (mdel k m) k' = (if k' = k then None else mget m k')"
  by (simp add: delete_conv')

lemma mwf_mput [go_map, simp, intro]: "mwf m \<Longrightarrow> mwf (mput k v m)"
  by (rule distinct_update)

lemma mwf_mdel [go_map, simp, intro]: "mwf m \<Longrightarrow> mwf (mdel k m)"
  by (rule distinct_delete)

lemma set_mkeys_mput [go_map, simp]: "fst ` set (mput k v m) = insert k (fst ` set m)"
  by (simp add: dom_update)

lemma set_mkeys_mdel [go_map, simp]: "fst ` set (mdel k m) = fst ` set m - {k}"
  by (induction m) auto

lemma mwf_filter: "mwf m \<Longrightarrow> mwf (filter P m)"
  by (simp add: distinct_map_filter)

lemma mget_in_set [go_map]: "mwf m \<Longrightarrow> (mget m k = Some v) = ((k, v) \<in> set m)"
  by simp

lemma mget_None_iff [go_map]: "(mget m k = None) = (k \<notin> fst ` set m)"
  by (rule map_of_eq_None_iff)

lemma mgetz_mput [go_map, simp]: "mgetz z (mput k v m) k' = (if k' = k then v else mgetz z m k')"
  by (simp add: mgetz_def)

lemma mgetz_mdel [go_map, simp]: "mgetz z (mdel k m) k' = (if k' = k then z else mgetz z m k')"
  by (simp add: mgetz_def)

section \<open>Decimal integers\<close>

abbreviation int64_min :: int where "int64_min \<equiv> - 9223372036854775808"
abbreviation int64_max :: int where "int64_max \<equiv> 9223372036854775807"

definition int64 :: "int \<Rightarrow> bool" where
  "int64 n \<longleftrightarrow> int64_min \<le> n \<and> n \<le> int64_max"

text \<open>The value of 64-bit two's complement arithmetic.\<close>

definition wrap64 :: "int \<Rightarrow> int" where
  "wrap64 n = (n + 9223372036854775808) mod 18446744073709551616 - 9223372036854775808"

lemma wrap64_id [simp]: "int64 n \<Longrightarrow> wrap64 n = n"
  by (simp add: wrap64_def int64_def)

lemma int64_wrap64: "int64 (wrap64 n)"
proof -
  have "0 \<le> (n + 9223372036854775808) mod 18446744073709551616" "(n + 9223372036854775808) mod 18446744073709551616 < 18446744073709551616"
    by simp_all
  then show ?thesis unfolding wrap64_def int64_def by linarith
qed

definition digit :: "nat \<Rightarrow> char" where
  "digit d = char_of (48 + d)"

definition digit_val :: "char \<Rightarrow> nat option" where
  "digit_val c = (let n = of_char c in if 48 \<le> n \<and> n \<le> 57 then Some (n - 48) else None)"

fun format_nat :: "nat \<Rightarrow> string" where
  "format_nat n = (if n < 10 then [digit n] else format_nat (n div 10) @ [digit (n mod 10)])"

declare format_nat.simps [simp del]

text \<open>\<^verbatim>\<open>strconv.FormatInt(n, 10)\<close> and \<^verbatim>\<open>strconv.Itoa\<close>.\<close>

definition FormatInt :: "int \<Rightarrow> string" where
  "FormatInt n = (if n < 0 then CHR ''-'' # format_nat (nat (- n)) else format_nat (nat n))"

fun parse_digits :: "nat \<Rightarrow> string \<Rightarrow> nat option" where
  "parse_digits acc [] = Some acc"
| "parse_digits acc (c # cs) =
     (case digit_val c of None \<Rightarrow> None | Some d \<Rightarrow> parse_digits (10 * acc + d) cs)"

text \<open>
  \<^verbatim>\<open>strconv.ParseInt(s, 10, 64)\<close>: an optional sign, one or more decimal digits, and a value
  in the 64-bit range; anything else is an error. \<^verbatim>\<open>strconv.Atoi\<close> is the same function on
  the 64-bit platforms the worker is built for.
\<close>

definition ParseInt :: "string \<Rightarrow> int option" where
  "ParseInt s =
     (let (neg, body) = (case s of c # cs \<Rightarrow>
                           if c = CHR ''+'' then (False, cs)
                           else if c = CHR ''-'' then (True, cs) else (False, s)
                         | [] \<Rightarrow> (False, []))
      in if body = [] then None
         else case parse_digits 0 body of
                None \<Rightarrow> None
              | Some u \<Rightarrow> let n = (if neg then - int u else int u)
                          in if int64 n then Some n else None)"

lemma digit_val_digit [go_str, simp]: "d < 10 \<Longrightarrow> digit_val (digit d) = Some d"
  by (simp add: digit_val_def digit_def)

lemma digit_range [go_str]: "d < 10 \<Longrightarrow> 48 \<le> (of_char (digit d) :: nat) \<and> (of_char (digit d) :: nat) \<le> 57"
  by (simp add: digit_def)

lemma format_nat_ne [go_str, simp]: "format_nat n \<noteq> []"
  by (subst format_nat.simps) simp

lemma format_nat_chars [go_str]:
  "c \<in> set (format_nat n) \<Longrightarrow> 48 \<le> (of_char c :: nat) \<and> (of_char c :: nat) \<le> 57"
proof (induction n rule: format_nat.induct)
  case (1 n)
  show ?case
  proof (cases "n < 10")
    case True
    with "1.prems" show ?thesis by (simp add: format_nat.simps [of n] digit_range)
  next
    case False
    with "1" show ?thesis by (auto simp: format_nat.simps [of n] digit_range)
  qed
qed

lemma parse_digits_append [go_str]:
  "parse_digits acc (xs @ ys) = Option.bind (parse_digits acc xs) (\<lambda>a. parse_digits a ys)"
  by (induction acc xs rule: parse_digits.induct) (auto split: option.splits)

lemma parse_format_nat [go_str, simp]: "parse_digits 0 (format_nat n) = Some n"
proof (induction n rule: format_nat.induct)
  case (1 n)
  show ?case
  proof (cases "n < 10")
    case True
    then show ?thesis by (simp add: format_nat.simps [of n])
  next
    case False
    with "1" show ?thesis by (simp add: format_nat.simps [of n] parse_digits_append)
  qed
qed

lemma format_nat_hd [go_str]: "48 \<le> (of_char (hd (format_nat n)) :: nat) \<and> (of_char (hd (format_nat n)) :: nat) \<le> 57"
  by (rule format_nat_chars) (rule hd_in_set, simp)

lemma format_nat_no_sign [go_str]:
  "format_nat n = c # cs \<Longrightarrow> c \<noteq> CHR ''+'' \<and> c \<noteq> CHR ''-''"
  using format_nat_hd [of n] by auto

lemma ParseInt_FormatInt [go_str]: "int64 n \<Longrightarrow> ParseInt (FormatInt n) = Some n"
proof (cases "n < 0")
  case True
  moreover assume "int64 n"
  ultimately show ?thesis by (simp add: ParseInt_def FormatInt_def Let_def)
next
  case False
  moreover assume "int64 n"
  moreover obtain c cs where cs: "format_nat (nat n) = c # cs"
    by (cases "format_nat (nat n)") auto
  moreover have "parse_digits 0 (c # cs) = Some (nat n)"
    by (metis cs parse_format_nat)
  moreover have "c \<noteq> CHR ''+'' \<and> c \<noteq> CHR ''-''"
    by (rule format_nat_no_sign [OF cs])
  ultimately show ?thesis
    by (simp add: ParseInt_def FormatInt_def Let_def del: parse_digits.simps)
qed

text \<open>What \<^verbatim>\<open>ParseInt\<close> accepts is always a 64-bit value.\<close>

lemma ParseInt_range [go_str]: "ParseInt s = Some n \<Longrightarrow> int64 n"
  by (auto simp: ParseInt_def Let_def split: if_splits option.splits list.splits prod.splits)

text \<open>The only characters \<^verbatim>\<open>FormatInt\<close> emits are digits and a leading minus.\<close>

definition int_char :: "char \<Rightarrow> bool" where
  "int_char c \<longleftrightarrow> c = CHR ''-'' \<or> (48 \<le> (of_char c :: nat) \<and> (of_char c :: nat) \<le> 57)"

lemma FormatInt_chars [go_str]: "c \<in> set (FormatInt n) \<Longrightarrow> int_char c"
  by (auto simp: FormatInt_def int_char_def dest: format_nat_chars split: if_splits)

lemma FormatInt_ne [go_str, simp]: "FormatInt n \<noteq> []"
  by (simp add: FormatInt_def)

lemma FormatInt_nonneg_chars [go_str]: "0 \<le> n \<Longrightarrow> CHR ''-'' \<notin> set (FormatInt n)"
  by (auto simp: FormatInt_def dest: format_nat_chars)

section \<open>Splitting and joining\<close>

text \<open>\<^verbatim>\<open>strings.Split(s, sep)\<close> for a one-byte separator: always at least one field.\<close>

fun split_on :: "char \<Rightarrow> string \<Rightarrow> string list" where
  "split_on c [] = [[]]"
| "split_on c (x # xs) =
     (if x = c then [] # split_on c xs
      else (case split_on c xs of [] \<Rightarrow> [[x]] | f # fs \<Rightarrow> (x # f) # fs))"

text \<open>\<^verbatim>\<open>strings.Join\<close>.\<close>

fun join_with :: "char \<Rightarrow> string list \<Rightarrow> string" where
  "join_with c [] = []"
| "join_with c [f] = f"
| "join_with c (f # fs) = f @ c # join_with c fs"

text \<open>\<^verbatim>\<open>strings.Cut(s, sep)\<close>: the text before and after the first separator.\<close>

fun cut_on :: "char \<Rightarrow> string \<Rightarrow> (string \<times> string) option" where
  "cut_on c [] = None"
| "cut_on c (x # xs) =
     (if x = c then Some ([], xs) else map_option (\<lambda>(a, b). (x # a, b)) (cut_on c xs))"

lemma split_on_ne [go_str, simp]: "split_on c s \<noteq> []"
  by (induction s) (auto split: list.splits)

lemma split_on_plain [go_str]: "c \<notin> set f \<Longrightarrow> split_on c f = [f]"
  by (induction f) auto

lemma split_on_append [go_str]:
  "c \<notin> set f \<Longrightarrow> split_on c (f @ c # s) = f # split_on c s"
  by (induction f) auto

lemma split_join [go_str]:
  "fs \<noteq> [] \<Longrightarrow> \<forall>f \<in> set fs. c \<notin> set f \<Longrightarrow> split_on c (join_with c fs) = fs"
  by (induction c fs rule: join_with.induct) (auto simp: split_on_plain split_on_append)

lemma cut_on_append [go_str]: "c \<notin> set f \<Longrightarrow> cut_on c (f @ c # s) = Some (f, s)"
  by (induction f) auto

lemma cut_on_Some [go_str]: "cut_on c s = Some (a, b) \<Longrightarrow> s = a @ c # b \<and> c \<notin> set a"
  by (induction s arbitrary: a) (auto split: if_splits)

lemma cut_on_None [go_str]: "(cut_on c s = None) = (c \<notin> set s)"
  by (induction s) auto

lemma set_join_with [go_str]: "x \<in> set (join_with c fs) \<Longrightarrow> x = c \<or> (\<exists>f \<in> set fs. x \<in> set f)"
  by (induction c fs rule: join_with.induct) auto

section \<open>Sorted key lists\<close>

text \<open>\<^verbatim>\<open>sort.Strings\<close> over the keys of a set: the ascending list of its elements.\<close>

definition sortedKeys :: "'a::linorder set \<Rightarrow> 'a list" where
  "sortedKeys s = sorted_list_of_set s"

lemma set_sortedKeys [simp]: "finite s \<Longrightarrow> set (sortedKeys s) = s"
  by (simp add: sortedKeys_def)

lemma distinct_sortedKeys [simp]: "distinct (sortedKeys s)"
  by (simp add: sortedKeys_def)

lemma sorted_sortedKeys [simp]: "sorted (sortedKeys s)"
  by (simp add: sortedKeys_def)

lemma length_sortedKeys [simp]: "length (sortedKeys s) = card s"
  by (simp add: sortedKeys_def)

end
