(* ===== verification/Lru.thy ===== *)
theory Lru
  imports Go_Prelude "HOL-Library.Word"
begin

text \<open>
  The bounded cache of \<^verbatim>\<open>internal/lru/lru.go\<close>.

  The Go structure keeps a doubly linked list of entries, most recently used first, and a
  map from keys to list elements. The list is modelled as an association list from element
  identities (the pointers) to entries, so that \<^verbatim>\<open>MoveToFront(elem)\<close> and \<^verbatim>\<open>Remove(elem)\<close>
  act on an element and not on a key; that element and key go together is the invariant
  \<open>lru_inv\<close>, not part of the model. \<open>lru_next\<close> numbers the elements \<^verbatim>\<open>PushFront\<close> allocates.
  A nil receiver, on which every method is defined, is \<open>None\<close>.

  The abstract cache is the recency-ordered association list \<open>lru_abs\<close>; the operations refine
  the three-line operations \<open>spec_touch\<close>, \<open>spec_add\<close> and \<open>AList.delete\<close> on it. The locale
  \<open>sound_cache\<close> is what clients of a cache rely on: it may forget, but it never returns
  anything but the last value written.
\<close>

section \<open>The model\<close>

record ('k, 'v) cache =
  lru_max :: int
  lru_items :: "('k, nat) gomap"
  lru_order :: "(nat, 'k \<times> 'v) gomap"
  lru_disarmed :: bool
  lru_hits :: "64 word"
  lru_misses :: "64 word"
  lru_evictions :: "64 word"
  lru_next :: nat

record stats =
  st_Hits :: "64 word"
  st_Misses :: "64 word"
  st_Evictions :: "64 word"
  st_Entries :: nat
  st_Armed :: bool

definition lru_New :: "int \<Rightarrow> ('k, 'v) cache" where
  "lru_New m = \<lparr>lru_max = m, lru_items = [], lru_order = [], lru_disarmed = False,
     lru_hits = 0, lru_misses = 0, lru_evictions = 0, lru_next = 0\<rparr>"

text \<open>\<^verbatim>\<open>container/list\<close>: an element not in the list is left alone.\<close>

definition MoveToFront :: "nat \<Rightarrow> (nat, 'e) gomap \<Rightarrow> (nat, 'e) gomap" where
  "MoveToFront i es = (case mget es i of None \<Rightarrow> es | Some e \<Rightarrow> (i, e) # mdel i es)"

definition lru_Get :: "('k, 'v) cache option \<Rightarrow> 'k \<Rightarrow> ('k, 'v) cache option \<times> 'v option" where
  "lru_Get p key = (case p of
     None \<Rightarrow> (None, None)
   | Some c \<Rightarrow>
       if lru_max c \<le> 0 then (Some c, None)
       else if lru_disarmed c then (Some (c\<lparr>lru_misses := lru_misses c + 1\<rparr>), None)
       else (case mget (lru_items c) key of
          None \<Rightarrow> (Some (c\<lparr>lru_misses := lru_misses c + 1\<rparr>), None)
        | Some elem \<Rightarrow>
            (Some (c\<lparr>lru_hits := lru_hits c + 1, lru_order := MoveToFront elem (lru_order c)\<rparr>),
             map_option snd (mget (lru_order c) elem))))"

text \<open>The eviction loop of \<^verbatim>\<open>Add\<close>: drop the back of the list until the bound holds.\<close>

function lru_evict :: "('k, 'v) cache \<Rightarrow> ('k, 'v) cache" where
  "lru_evict c =
     (if int (length (lru_order c)) > lru_max c \<and> lru_order c \<noteq> [] then
        let oldest = last (lru_order c) in
        lru_evict (c\<lparr>lru_order := butlast (lru_order c),
                     lru_items := mdel (fst (snd oldest)) (lru_items c),
                     lru_evictions := lru_evictions c + 1\<rparr>)
      else c)"
  by pat_completeness auto
termination
  by (relation "measure (\<lambda>c. length (lru_order c))") auto

declare lru_evict.simps [simp del]

definition lru_Add :: "('k, 'v) cache option \<Rightarrow> 'k \<Rightarrow> 'v \<Rightarrow> ('k, 'v) cache option" where
  "lru_Add p key v = (case p of
     None \<Rightarrow> None
   | Some c \<Rightarrow>
       if lru_max c \<le> 0 then Some c
       else if lru_disarmed c then Some c
       else (case mget (lru_items c) key of
          Some elem \<Rightarrow>
            Some (c\<lparr>lru_order := MoveToFront elem
                     (map (\<lambda>(i, k, w). (i, k, if i = elem then v else w)) (lru_order c))\<rparr>)
        | None \<Rightarrow>
            Some (lru_evict (c\<lparr>lru_items := mput key (lru_next c) (lru_items c),
                               lru_order := (lru_next c, key, v) # lru_order c,
                               lru_next := Suc (lru_next c)\<rparr>))))"

definition lru_Remove :: "('k, 'v) cache option \<Rightarrow> 'k \<Rightarrow> ('k, 'v) cache option" where
  "lru_Remove p key = (case p of
     None \<Rightarrow> None
   | Some c \<Rightarrow> (case mget (lru_items c) key of
       Some elem \<Rightarrow> Some (c\<lparr>lru_order := mdel elem (lru_order c), lru_items := mdel key (lru_items c)\<rparr>)
     | None \<Rightarrow> Some c))"

definition lru_SetArmed :: "('k, 'v) cache option \<Rightarrow> bool \<Rightarrow> ('k, 'v) cache option" where
  "lru_SetArmed p armed = (case p of
     None \<Rightarrow> None
   | Some c \<Rightarrow>
       let c1 = c\<lparr>lru_disarmed := \<not> armed\<rparr>
       in Some (if \<not> armed then c1\<lparr>lru_items := [], lru_order := []\<rparr> else c1))"

definition lru_Purge :: "('k, 'v) cache option \<Rightarrow> ('k, 'v) cache option" where
  "lru_Purge p = map_option (\<lambda>c. c\<lparr>lru_items := [], lru_order := []\<rparr>) p"

definition lru_Stats :: "('k, 'v) cache option \<Rightarrow> stats" where
  "lru_Stats p = (case p of
     None \<Rightarrow> \<lparr>st_Hits = 0, st_Misses = 0, st_Evictions = 0, st_Entries = 0, st_Armed = False\<rparr>
   | Some c \<Rightarrow> \<lparr>st_Hits = lru_hits c, st_Misses = lru_misses c, st_Evictions = lru_evictions c,
               st_Entries = length (lru_order c), st_Armed = \<not> lru_disarmed c\<rparr>)"

definition lru_Len :: "('k, 'v) cache option \<Rightarrow> nat" where
  "lru_Len p = (case p of None \<Rightarrow> 0 | Some c \<Rightarrow> length (lru_order c))"

section \<open>Abstraction and invariant\<close>

definition lru_abs :: "('k, 'v) cache \<Rightarrow> ('k, 'v) gomap" where
  "lru_abs c = map snd (lru_order c)"

definition spec_touch :: "'k \<Rightarrow> ('k, 'v) gomap \<Rightarrow> ('k, 'v) gomap" where
  "spec_touch k m = (case mget m k of None \<Rightarrow> m | Some v \<Rightarrow> (k, v) # mdel k m)"

definition spec_add :: "nat \<Rightarrow> 'k \<Rightarrow> 'v \<Rightarrow> ('k, 'v) gomap \<Rightarrow> ('k, 'v) gomap" where
  "spec_add n k v m = take n ((k, v) # mdel k m)"

text \<open>
  The map and the list agree: a key maps to an element exactly when that element of the list
  holds the key. Elements were allocated before \<open>lru_next\<close>.
\<close>

definition lru_inv :: "('k, 'v) cache \<Rightarrow> bool" where
  "lru_inv c \<longleftrightarrow>
     mwf (lru_order c) \<and> mwf (lru_abs c) \<and>
     (\<forall>k i. mget (lru_items c) k = Some i \<longleftrightarrow> (\<exists>v. (i, k, v) \<in> set (lru_order c))) \<and>
     (\<forall>i \<in> fst ` set (lru_order c). i < lru_next c) \<and>
     (0 < lru_max c \<longrightarrow> int (length (lru_order c)) \<le> lru_max c) \<and>
     (lru_disarmed c \<longrightarrow> lru_order c = [])"

section \<open>Lists of entries by element and by key\<close>

lemma mdel_notin: "k \<notin> fst ` set m \<Longrightarrow> mdel k m = m"
  by (simp add: AList.delete_eq filter_id_conv) force

lemma map_snd_mdel:
  assumes "mwf es" and "mwf (map snd es)" and "(i, k, v) \<in> set es"
  shows "map snd (mdel i es) = mdel k (map snd es)"
  using assms
proof (induction es)
  case Nil
  then show ?case by simp
next
  case (Cons x xs)
  obtain j k' v' where x: "x = (j, k', v')" by (cases x) auto
  show ?case
  proof (cases "j = i")
    case True
    with Cons.prems x have "k' = k" and "i \<notin> fst ` set xs" and "k \<notin> fst ` set (map snd xs)"
      by (force simp: image_iff)+
    with True x show ?thesis by (simp add: mdel_notin)
  next
    case False
    with Cons.prems x have mem: "(i, k, v) \<in> set xs" by auto
    with Cons.prems x have "k' \<noteq> k" by (force simp: image_iff)
    with False x Cons.IH Cons.prems mem show ?thesis by simp
  qed
qed

lemma mget_map_snd:
  assumes "mwf (map snd es)" and "(i, k, v) \<in> set es"
  shows "mget (map snd es) k = Some v"
proof -
  have "(k, v) \<in> set (map snd es)" using assms(2) by force
  then show ?thesis using assms(1) by simp
qed

lemma MoveToFront_mem:
  assumes "mwf es" and "(i, e) \<in> set es"
  shows "MoveToFront i es = (i, e) # mdel i es"
  using assms by (simp add: MoveToFront_def)

lemma set_mdel: "mwf es \<Longrightarrow> set (mdel i es) = {p \<in> set es. fst p \<noteq> i}"
  by (auto simp: AList.delete_eq)

lemma length_mdel: "mwf es \<Longrightarrow> (i, e) \<in> set es \<Longrightarrow> Suc (length (mdel i es)) = length es"
  by (induction es) (force simp: mdel_notin)+

section \<open>Each operation refines the abstract one and keeps the invariant\<close>

lemma lru_inv_New [simp]: "lru_inv (lru_New m)"
  by (simp add: lru_inv_def lru_New_def lru_abs_def)

lemma lru_abs_New [simp]: "lru_abs (lru_New m) = []"
  by (simp add: lru_New_def lru_abs_def)

lemma lru_items_abs:
  assumes "lru_inv c"
  shows "mget (lru_items c) k = None \<longleftrightarrow> k \<notin> fst ` set (lru_abs c)"
proof -
  have "(\<exists>i. mget (lru_items c) k = Some i) \<longleftrightarrow> k \<in> fst ` set (lru_abs c)"
    using assms by (force simp: lru_inv_def lru_abs_def image_iff)
  then show ?thesis by (metis option.exhaust option.distinct(1))
qed

lemma lru_item_entry:
  assumes "lru_inv c" and "mget (lru_items c) k = Some i"
  obtains v where "(i, k, v) \<in> set (lru_order c)" and "mget (lru_order c) i = Some (k, v)"
    and "mget (lru_abs c) k = Some v"
proof -
  obtain v where v: "(i, k, v) \<in> set (lru_order c)"
    using assms by (auto simp: lru_inv_def)
  moreover have "mget (lru_order c) i = Some (k, v)"
    using assms(1) v by (simp add: lru_inv_def)
  moreover have "mget (lru_abs c) k = Some v"
    unfolding lru_abs_def using assms(1) v by (intro mget_map_snd) (auto simp: lru_inv_def lru_abs_def)
  ultimately show ?thesis using that by blast
qed

text \<open>The invariant without the size bound, which \<^verbatim>\<open>Add\<close> breaks before it evicts.\<close>

definition lru_linked :: "('k, 'v) cache \<Rightarrow> bool" where
  "lru_linked c \<longleftrightarrow>
     mwf (lru_order c) \<and> mwf (lru_abs c) \<and>
     (\<forall>k i. mget (lru_items c) k = Some i \<longleftrightarrow> (\<exists>v. (i, k, v) \<in> set (lru_order c))) \<and>
     (\<forall>i \<in> fst ` set (lru_order c). i < lru_next c)"

lemma lru_inv_linked:
  "lru_inv c \<longleftrightarrow> lru_linked c \<and> (0 < lru_max c \<longrightarrow> int (length (lru_order c)) \<le> lru_max c) \<and>
     (lru_disarmed c \<longrightarrow> lru_order c = [])"
  by (auto simp: lru_inv_def lru_linked_def)

lemma lru_linked_reorder:
  assumes "lru_linked c" and "mwf es" and "mwf (map snd es)"
    and "(\<lambda>(i, k, v). (i, k)) ` set es = (\<lambda>(i, k, v). (i, k)) ` set (lru_order c)"
  shows "lru_linked (c\<lparr>lru_order := es\<rparr>)"
proof -
  have mem: "(\<exists>v. (i, k, v) \<in> set es) \<longleftrightarrow> (\<exists>v. (i, k, v) \<in> set (lru_order c))" for i k
  proof -
    have "(\<exists>v. (i, k, v) \<in> set xs) \<longleftrightarrow> (i, k) \<in> (\<lambda>(i, k, v). (i, k)) ` set xs" for xs :: "(nat \<times> 'a \<times> 'b) list"
      by force
    with assms(4) show ?thesis by simp
  qed
  moreover have "i < lru_next c" if "(i, k, v) \<in> set es" for i k v
  proof -
    from that mem obtain w where "(i, k, w) \<in> set (lru_order c)" by blast
    with assms(1) show ?thesis by (force simp: lru_linked_def)
  qed
  ultimately show ?thesis
    using assms(1-3) by (auto simp: lru_linked_def lru_abs_def)
qed

lemma lru_linked_update [simp]:
  "lru_linked (c\<lparr>lru_hits := h\<rparr>) = lru_linked c" "lru_linked (c\<lparr>lru_misses := h\<rparr>) = lru_linked c"
  "lru_linked (c\<lparr>lru_evictions := h\<rparr>) = lru_linked c" "lru_linked (c\<lparr>lru_disarmed := b\<rparr>) = lru_linked c"
  by (auto simp: lru_linked_def lru_abs_def)

lemma lru_linked_remove:
  assumes "lru_linked c" and "(i, k, v) \<in> set (lru_order c)"
    and "es = mdel i (lru_order c)"
  shows "lru_linked (c\<lparr>lru_order := es, lru_items := mdel k (lru_items c)\<rparr>)"
    and "lru_abs (c\<lparr>lru_order := es, lru_items := mdel k (lru_items c)\<rparr>) = mdel k (lru_abs c)"
proof -
  have wf: "mwf (lru_order c)" "mwf (map snd (lru_order c))"
    using assms(1) by (auto simp: lru_linked_def lru_abs_def)
  show abs: "lru_abs (c\<lparr>lru_order := es, lru_items := mdel k (lru_items c)\<rparr>) = mdel k (lru_abs c)"
    using map_snd_mdel [OF wf assms(2)] by (simp add: lru_abs_def assms(3))
  have uniq: "j = i \<longleftrightarrow> k' = k" if "(j, k', w) \<in> set (lru_order c)" for j k' w
  proof -
    have key: "mget (lru_items c) a = Some b \<longleftrightarrow> (\<exists>v. (b, a, v) \<in> set (lru_order c))" for a b
      using assms(1) by (simp add: lru_linked_def)
    have "mget (lru_order c) i = Some (k, v)" and "mget (lru_order c) j = Some (k', w)"
      using wf(1) assms(2) that by simp_all
    moreover have "mget (lru_items c) k = Some i" and "mget (lru_items c) k' = Some j"
      using key assms(2) that by blast+
    ultimately show ?thesis by auto
  qed
  have "set es = {p \<in> set (lru_order c). fst p \<noteq> i}"
    by (simp add: assms(3) set_mdel wf(1))
  then show "lru_linked (c\<lparr>lru_order := es, lru_items := mdel k (lru_items c)\<rparr>)"
    using assms(1,3) abs uniq assms(2)
    by (auto simp: lru_linked_def simp del: set_mkeys_mdel)
qed

lemma mdel_last:
  assumes "mwf es" and "es \<noteq> []"
  shows "mdel (fst (last es)) es = butlast es"
proof -
  obtain ys y where es: "es = ys @ [y]" using assms(2) by (cases es rule: rev_cases) auto
  with assms(1) have "fst y \<notin> fst ` set ys" by auto
  then have "filter (\<lambda>p. fst y \<noteq> fst p) ys = ys" by (intro filter_True ballI) (metis image_eqI)
  with es show ?thesis by (simp add: AList.delete_eq case_prod_unfold)
qed

lemma lru_evict_spec:
  assumes "lru_linked c" and "0 \<le> lru_max c"
  shows "lru_linked (lru_evict c) \<and> lru_order (lru_evict c) = take (nat (lru_max c)) (lru_order c)
     \<and> lru_max (lru_evict c) = lru_max c \<and> lru_disarmed (lru_evict c) = lru_disarmed c"
  using assms
proof (induction c rule: lru_evict.induct)
  case (1 c)
  show ?case
  proof (cases "int (length (lru_order c)) > lru_max c \<and> lru_order c \<noteq> []")
    case False
    with "1.prems" show ?thesis by (subst (1 2 3 4) lru_evict.simps) auto
  next
    case True
    let ?o = "last (lru_order c)"
    let ?c1 = "c\<lparr>lru_order := butlast (lru_order c), lru_items := mdel (fst (snd ?o)) (lru_items c)\<rparr>"
    let ?c2 = "?c1\<lparr>lru_evictions := lru_evictions c + 1\<rparr>"
    obtain i k v where o: "?o = (i, k, v)" by (cases ?o) auto
    have mem: "(i, k, v) \<in> set (lru_order c)" using True o by (metis last_in_set)
    have "mdel i (lru_order c) = butlast (lru_order c)"
      using mdel_last [of "lru_order c"] True o "1.prems"(1) by (simp add: lru_linked_def)
    with lru_linked_remove(1) [OF "1.prems"(1) mem] o have "lru_linked ?c1" by simp
    then have l2: "lru_linked ?c2" by (simp only: lru_linked_update)
    have eq: "lru_evict c = lru_evict ?c2"
      using True by (subst lru_evict.simps) (simp add: Let_def)
    have ih: "lru_linked (lru_evict ?c2) \<and> lru_order (lru_evict ?c2) = take (nat (lru_max c)) (butlast (lru_order c))
       \<and> lru_max (lru_evict ?c2) = lru_max c \<and> lru_disarmed (lru_evict ?c2) = lru_disarmed c"
      using "1.IH" [OF True refl, of] l2 "1.prems"(2) by simp
    have "take (nat (lru_max c)) (butlast (lru_order c)) = take (nat (lru_max c)) (lru_order c)"
      using True "1.prems"(2) by (simp add: take_butlast nat_less_iff)
    with ih eq show ?thesis by simp
  qed
qed

lemma lru_Get_refines:
  assumes "lru_inv c" and "0 < lru_max c" and "\<not> lru_disarmed c"
  obtains c' where "lru_Get (Some c) k = (Some c', mget (lru_abs c) k)"
    and "lru_inv c'" and "lru_abs c' = spec_touch k (lru_abs c)"
    and "lru_max c' = lru_max c" and "\<not> lru_disarmed c'"
proof (cases "mget (lru_items c) k")
  case None
  with assms(1) have "mget (lru_abs c) k = None"
    using None by (metis lru_items_abs mget_None_iff)
  with None assms show ?thesis
    by (intro that [of "c\<lparr>lru_misses := lru_misses c + 1\<rparr>"])
      (auto simp: lru_Get_def spec_touch_def lru_inv_linked lru_abs_def)
next
  case (Some i)
  from lru_item_entry [OF assms(1) Some] obtain v where mem: "(i, k, v) \<in> set (lru_order c)"
    and ord: "mget (lru_order c) i = Some (k, v)" and abs: "mget (lru_abs c) k = Some v" .
  have wf: "mwf (lru_order c)" "mwf (map snd (lru_order c))"
    using assms(1) by (auto simp: lru_inv_def lru_abs_def)
  let ?es = "(i, k, v) # mdel i (lru_order c)"
  let ?c' = "c\<lparr>lru_order := ?es\<rparr>\<lparr>lru_hits := lru_hits c + 1\<rparr>"
  have snd_es: "map snd ?es = (k, v) # mdel k (lru_abs c)"
    using map_snd_mdel [OF wf mem] by (simp add: lru_abs_def)
  have "set ?es = set (lru_order c)"
    using mem wf(1) by (auto simp: set_mdel dest: eq_key_imp_eq_value)
  then have "lru_linked (c\<lparr>lru_order := ?es\<rparr>)"
    using assms(1) snd_es wf by (intro lru_linked_reorder) (auto simp: lru_inv_linked lru_abs_def)
  moreover have "length ?es = length (lru_order c)"
    using length_mdel [OF wf(1) mem] by simp
  ultimately have "lru_inv ?c'"
    using assms by (simp add: lru_inv_linked)
  with Some ord abs assms snd_es show ?thesis
    by (intro that [of ?c']) (simp_all add: lru_Get_def MoveToFront_def spec_touch_def lru_abs_def)
qed

lemma lru_Add_refines:
  assumes "lru_inv c" and "0 < lru_max c" and "\<not> lru_disarmed c"
  obtains c' where "lru_Add (Some c) k v = Some c'" and "lru_inv c'"
    and "lru_abs c' = spec_add (nat (lru_max c)) k v (lru_abs c)"
    and "lru_max c' = lru_max c" and "\<not> lru_disarmed c'"
proof (cases "mget (lru_items c) k")
  case None
  let ?c1 = "c\<lparr>lru_items := mput k (lru_next c) (lru_items c),
                lru_order := (lru_next c, k, v) # lru_order c, lru_next := Suc (lru_next c)\<rparr>"
  have fresh: "k \<notin> fst ` set (lru_abs c)"
    by (rule lru_items_abs [OF assms(1), THEN iffD1, OF None])
  have next_fresh: "lru_next c \<notin> fst ` set (lru_order c)"
    using assms(1) by (auto simp: lru_inv_def)
  have key: "mget (lru_items c) k' = Some i \<longleftrightarrow> (\<exists>v. (i, k', v) \<in> set (lru_order c))" for k' i
    using assms(1) by (simp add: lru_inv_def)
  have no_k: "(i, k, w) \<notin> set (lru_order c)" for i w
    using fresh by (force simp: lru_abs_def image_iff)
  have no_next: "(lru_next c, k', w) \<notin> set (lru_order c)" for k' w
    using next_fresh by (force simp: image_iff)
  have "mget (lru_items ?c1) k' = Some i \<longleftrightarrow> (\<exists>w. (i, k', w) \<in> set (lru_order ?c1))" for k' i
    using key [of k' i] no_k no_next by (cases "k' = k") auto
  moreover have "mwf (lru_order ?c1)" "mwf (lru_abs ?c1)"
    using assms(1) fresh next_fresh by (simp_all add: lru_inv_def lru_abs_def image_image)
  moreover have "\<forall>i \<in> fst ` set (lru_order ?c1). i < lru_next ?c1"
    using assms(1) by (auto simp: lru_inv_def less_Suc_eq)
  ultimately have "lru_linked ?c1" unfolding lru_linked_def by blast
  then have ev: "lru_linked (lru_evict ?c1)" "lru_order (lru_evict ?c1) = take (nat (lru_max c)) (lru_order ?c1)"
    "lru_max (lru_evict ?c1) = lru_max c" "lru_disarmed (lru_evict ?c1) = lru_disarmed c"
    using lru_evict_spec [of ?c1] assms(2) by simp_all
  have "lru_abs (lru_evict ?c1) = spec_add (nat (lru_max c)) k v (lru_abs c)"
    by (simp add: lru_abs_def [of "lru_evict ?c1"] ev(2) take_map [symmetric] spec_add_def mdel_notin [OF fresh])
      (simp add: lru_abs_def)
  moreover have "lru_inv (lru_evict ?c1)"
    using ev assms by (simp add: lru_inv_linked)
  ultimately show ?thesis
    using None assms ev by (intro that [of "lru_evict ?c1"]) (simp_all add: lru_Add_def)
next
  case (Some i)
  from lru_item_entry [OF assms(1) Some] obtain w where mem: "(i, k, w) \<in> set (lru_order c)" .
  let ?u = "\<lambda>(j, k, w). (j, k, if j = i then v else w)"
  let ?es = "map ?u (lru_order c)"
  let ?c' = "c\<lparr>lru_order := (i, k, v) # mdel i ?es\<rparr>"
  have wf: "mwf (lru_order c)" "mwf (map snd (lru_order c))"
    using assms(1) by (auto simp: lru_inv_def lru_abs_def)
  have keys: "map fst ?es = map fst (lru_order c)" "map fst (map snd ?es) = map fst (map snd (lru_order c))"
    by (auto simp: case_prod_unfold)
  then have wf': "mwf ?es" "mwf (map snd ?es)" using wf by metis+
  have mem': "(i, k, v) \<in> set ?es" using mem by force
  have "mdel i (map ?u xs) = mdel i xs" for xs by (induction xs) auto
  then have del: "mdel i ?es = mdel i (lru_order c)" .
  have snd_es: "map snd ((i, k, v) # mdel i ?es) = (k, v) # mdel k (lru_abs c)"
    using map_snd_mdel [OF wf mem] by (simp add: lru_abs_def del)
  have len: "length ((i, k, v) # mdel i ?es) = length (lru_order c)"
    using length_mdel [OF wf(1) mem] by (simp add: del)
  have "lru_linked ?c'"
  proof (rule lru_linked_reorder)
    show "(\<lambda>(i, k, v). (i, k)) ` set ((i, k, v) # mdel i ?es) = (\<lambda>(i, k, v). (i, k)) ` set (lru_order c)"
    proof -
      have eq: "set (lru_order c) = insert (i, k, w) (set (mdel i (lru_order c)))"
        using mem wf(1) by (auto simp: set_mdel dest: eq_key_imp_eq_value)
      show ?thesis unfolding del by (subst eq) simp
    qed
  qed (use assms(1) snd_es wf in \<open>auto simp: lru_inv_linked lru_abs_def del\<close>)
  with assms len have "lru_inv ?c'" by (simp add: lru_inv_linked)
  moreover have "length ((k, v) # mdel k (lru_abs c)) \<le> nat (lru_max c)"
    using arg_cong [OF snd_es, of length] len assms by (simp add: lru_inv_def le_nat_iff)
  then have "lru_abs ?c' = spec_add (nat (lru_max c)) k v (lru_abs c)"
    using snd_es by (simp add: lru_abs_def [of ?c'] spec_add_def del: take_Suc_Cons)
  ultimately show ?thesis
    using Some assms MoveToFront_mem [OF wf'(1) mem']
    by (intro that [of ?c']) (simp_all add: lru_Add_def)
qed

lemma lru_Remove_refines:
  assumes "lru_inv c"
  obtains c' where "lru_Remove (Some c) k = Some c'" and "lru_inv c'"
    and "lru_abs c' = mdel k (lru_abs c)" and "lru_max c' = lru_max c"
    and "lru_disarmed c' = lru_disarmed c"
proof (cases "mget (lru_items c) k")
  case None
  then have "k \<notin> fst ` set (lru_abs c)" by (rule lru_items_abs [OF assms, THEN iffD1])
  with None assms show ?thesis
    by (intro that [of c]) (simp_all add: lru_Remove_def mdel_notin)
next
  case (Some i)
  from lru_item_entry [OF assms Some] obtain v where mem: "(i, k, v) \<in> set (lru_order c)" .
  let ?c' = "c\<lparr>lru_order := mdel i (lru_order c), lru_items := mdel k (lru_items c)\<rparr>"
  have "lru_linked c" using assms by (simp add: lru_inv_linked)
  note del = lru_linked_remove [OF this mem refl]
  have "lru_inv ?c'"
    using assms del(1) length_delete_le [of i "lru_order c"] by (auto simp: lru_inv_linked)
  with Some del(2) show ?thesis
    by (intro that [of ?c']) (simp_all add: lru_Remove_def)
qed

section \<open>Sequences of operations\<close>

datatype ('k, 'v) cache_op = OpGet 'k | OpAdd 'k 'v | OpRemove 'k | OpPurge | OpArm bool

fun lru_step :: "('k, 'v) cache_op \<Rightarrow> ('k, 'v) cache option \<Rightarrow> ('k, 'v) cache option" where
  "lru_step (OpGet k) p = fst (lru_Get p k)"
| "lru_step (OpAdd k v) p = lru_Add p k v"
| "lru_step (OpRemove k) p = lru_Remove p k"
| "lru_step OpPurge p = lru_Purge p"
| "lru_step (OpArm b) p = lru_SetArmed p b"

text \<open>The abstract cache: whether it is armed, and its entries in order of use.\<close>

fun spec_step :: "nat \<Rightarrow> ('k, 'v) cache_op \<Rightarrow> bool \<times> ('k, 'v) gomap \<Rightarrow> bool \<times> ('k, 'v) gomap" where
  "spec_step n (OpGet k) (a, m) = (a, spec_touch k m)"
| "spec_step n (OpAdd k v) (a, m) = (a, if a then spec_add n k v m else m)"
| "spec_step n (OpRemove k) (a, m) = (a, mdel k m)"
| "spec_step n OpPurge (a, m) = (a, [])"
| "spec_step n (OpArm b) (a, m) = (b, if b then m else [])"

definition lru_view :: "('k, 'v) cache \<Rightarrow> bool \<times> ('k, 'v) gomap" where
  "lru_view c = (\<not> lru_disarmed c, lru_abs c)"

lemma lru_inv_cleared [simp]: "lru_inv (c\<lparr>lru_items := [], lru_order := []\<rparr>)"
  by (simp add: lru_inv_def lru_abs_def)

lemma lru_inv_cleared_disarm [simp]:
  "lru_inv (c\<lparr>lru_disarmed := b, lru_items := [], lru_order := []\<rparr>)"
  by (simp add: lru_inv_def lru_abs_def)

lemma lru_disarmed_empty: "lru_inv c \<Longrightarrow> lru_disarmed c \<Longrightarrow> lru_abs c = []"
  by (simp add: lru_inv_def lru_abs_def)

lemma lru_step_refines:
  assumes "lru_inv c" and "0 < lru_max c"
  obtains c' where "lru_step op (Some c) = Some c'" and "lru_inv c'" and "lru_max c' = lru_max c"
    and "lru_view c' = spec_step (nat (lru_max c)) op (lru_view c)"
proof (cases op)
  case (OpGet k)
  show ?thesis
  proof (cases "lru_disarmed c")
    case True
    with OpGet assms show ?thesis
      by (intro that [of "c\<lparr>lru_misses := lru_misses c + 1\<rparr>"])
        (auto simp: lru_Get_def lru_view_def spec_touch_def lru_inv_linked lru_abs_def)
  next
    case False
    from lru_Get_refines [OF assms False, of k] obtain c' where
      "lru_Get (Some c) k = (Some c', mget (lru_abs c) k)" "lru_inv c'"
      "lru_abs c' = spec_touch k (lru_abs c)" "lru_max c' = lru_max c" "\<not> lru_disarmed c'" .
    with OpGet False show ?thesis by (intro that [of c']) (simp_all add: lru_view_def)
  qed
next
  case (OpAdd k v)
  show ?thesis
  proof (cases "lru_disarmed c")
    case True
    with OpAdd assms show ?thesis
      by (intro that [of c]) (simp_all add: lru_Add_def lru_view_def)
  next
    case False
    from lru_Add_refines [OF assms False, of k v] obtain c' where
      "lru_Add (Some c) k v = Some c'" "lru_inv c'"
      "lru_abs c' = spec_add (nat (lru_max c)) k v (lru_abs c)" "lru_max c' = lru_max c" "\<not> lru_disarmed c'" .
    with OpAdd False show ?thesis by (intro that [of c']) (simp_all add: lru_view_def)
  qed
next
  case (OpRemove k)
  from lru_Remove_refines [OF assms(1), of k] obtain c' where
    "lru_Remove (Some c) k = Some c'" "lru_inv c'" "lru_abs c' = mdel k (lru_abs c)"
    "lru_max c' = lru_max c" "lru_disarmed c' = lru_disarmed c" .
  with OpRemove show ?thesis by (intro that [of c']) (simp_all add: lru_view_def)
next
  case OpPurge
  then show ?thesis
    by (intro that [of "c\<lparr>lru_items := [], lru_order := []\<rparr>"])
      (simp_all add: lru_Purge_def lru_view_def lru_abs_def)
next
  case (OpArm b)
  show ?thesis
  proof (cases b)
    case True
    with OpArm assms show ?thesis
      by (intro that [of "c\<lparr>lru_disarmed := False\<rparr>"])
        (auto simp: lru_SetArmed_def lru_view_def lru_abs_def lru_inv_linked)
  next
    case False
    with OpArm show ?thesis
      by (intro that [of "c\<lparr>lru_disarmed := True, lru_items := [], lru_order := []\<rparr>"])
        (simp_all add: lru_SetArmed_def lru_view_def lru_abs_def)
  qed
qed

lemma lru_run_refines:
  assumes "lru_inv c" and "0 < lru_max c"
  shows "\<exists>c'. fold lru_step ops (Some c) = Some c' \<and> lru_inv c' \<and> lru_max c' = lru_max c \<and>
    lru_view c' = fold (spec_step (nat (lru_max c))) ops (lru_view c)"
  using assms
proof (induction ops arbitrary: c)
  case Nil
  then show ?case by simp
next
  case (Cons op ops)
  from lru_step_refines [OF Cons.prems, of op] obtain c1 where c1: "lru_step op (Some c) = Some c1"
    "lru_inv c1" "lru_max c1 = lru_max c" "lru_view c1 = spec_step (nat (lru_max c)) op (lru_view c)" .
  with Cons.IH [of c1] Cons.prems(2) show ?case by simp
qed

section \<open>What a client of a cache relies on\<close>

text \<open>
  A cache may forget, but what it answers is the last value written under that key with
  nothing since that should have removed it.
\<close>

fun written :: "'k \<Rightarrow> ('k, 'v) cache_op \<Rightarrow> 'v option \<Rightarrow> 'v option" where
  "written k (OpGet k') w = w"
| "written k (OpAdd k' v) w = (if k' = k then Some v else w)"
| "written k (OpRemove k') w = (if k' = k then None else w)"
| "written k OpPurge w = None"
| "written k (OpArm b) w = (if b then w else None)"

lemma written_None: "written k op None = Some v \<Longrightarrow> written k op w = Some v"
  by (cases op) (auto split: if_splits)

locale sound_cache =
  fixes lookup :: "'c \<Rightarrow> 'k \<Rightarrow> 'v option"
    and step :: "('k, 'v) cache_op \<Rightarrow> 'c \<Rightarrow> 'c"
    and inv :: "'c \<Rightarrow> bool"
  assumes inv_step: "inv c \<Longrightarrow> inv (step op c)"
    and lookup_step: "inv c \<Longrightarrow> lookup (step op c) k = Some v \<Longrightarrow> written k op (lookup c k) = Some v"
begin

lemma run_sound_from:
  assumes "inv c" and "lookup c k = None \<or> lookup c k = w"
  shows "lookup (fold step ops c) k = None \<or> lookup (fold step ops c) k = fold (written k) ops w"
  using assms
proof (induction ops arbitrary: c w)
  case Nil
  then show ?case by simp
next
  case (Cons op ops)
  have "lookup (step op c) k = None \<or> lookup (step op c) k = written k op w"
  proof (cases "lookup (step op c) k")
    case (Some v)
    with Cons.prems(1) have "written k op (lookup c k) = Some v" by (rule lookup_step)
    with Cons.prems(2) Some written_None show ?thesis by metis
  qed simp
  with Cons.IH [OF inv_step [OF Cons.prems(1)]] show ?case by simp
qed

lemma run_sound:
  assumes "inv c" and "lookup c k = None" and "lookup (fold step ops c) k = Some v"
  shows "fold (written k) ops None = Some v"
  using run_sound_from [OF assms(1), of k None ops] assms(2,3) by simp

end

definition lru_lookup :: "('k, 'v) cache option \<Rightarrow> 'k \<Rightarrow> 'v option" where
  "lru_lookup p k = snd (lru_Get p k)"

definition lru_ok :: "('k, 'v) cache option \<Rightarrow> bool" where
  "lru_ok p = (case p of None \<Rightarrow> True | Some c \<Rightarrow> 0 < lru_max c \<longrightarrow> lru_inv c)"

text \<open>A cache whose bound is not positive is off: it answers nothing and stays off.\<close>

lemma lru_off_step:
  assumes "lru_max c \<le> 0"
  shows "\<exists>c'. lru_step op (Some c) = Some c' \<and> lru_max c' \<le> 0"
  using assms
  by (cases op) (auto simp: lru_Get_def lru_Add_def lru_Remove_def lru_Purge_def lru_SetArmed_def Let_def split: option.split)

lemma lru_off_lookup: "lru_max c \<le> 0 \<Longrightarrow> lru_lookup (Some c) k = None"
  by (simp add: lru_lookup_def lru_Get_def)

lemma lru_lookup_view:
  assumes "lru_inv c" and "0 < lru_max c"
  shows "lru_lookup (Some c) k = mget (snd (lru_view c)) k"
proof (cases "lru_disarmed c")
  case True
  with assms show ?thesis
    by (simp add: lru_lookup_def lru_Get_def lru_view_def lru_disarmed_empty)
next
  case False
  from lru_Get_refines [OF assms False, of k] obtain c' where
    "lru_Get (Some c) k = (Some c', mget (lru_abs c) k)" .
  then show ?thesis by (simp add: lru_lookup_def lru_view_def)
qed

lemma mget_spec_touch [simp]: "mget (spec_touch k m) k' = mget m k'"
  by (auto simp: spec_touch_def split: option.splits)

lemma mget_take: "mget (take n m) k = Some v \<Longrightarrow> mwf m \<Longrightarrow> mget m k = Some v"
  by (meson distinct_take in_set_takeD map_of_SomeD map_of_is_SomeI)

lemma written_spec_step:
  assumes "mwf m" and "\<not> a \<longrightarrow> m = []" and "mget (snd (spec_step n op (a, m))) k = Some v"
  shows "written k op (mget m k) = Some v"
proof (cases op)
  case (OpAdd k' v')
  show ?thesis
  proof (cases a)
    case True
    with OpAdd assms have "mget (take n ((k', v') # mdel k' m)) k = Some v"
      by (simp add: spec_add_def)
    moreover have "mwf ((k', v') # mdel k' m)" using assms(1) by simp
    ultimately have "mget ((k', v') # mdel k' m) k = Some v" by (rule mget_take)
    with OpAdd show ?thesis by (auto split: if_splits)
  next
    case False
    with OpAdd assms show ?thesis by auto
  qed
qed (use assms in \<open>auto split: if_splits\<close>)

interpretation lru: sound_cache lru_lookup lru_step lru_ok
proof
  fix p :: "('k, 'v) cache option" and op :: "('k, 'v) cache_op"
  assume ok: "lru_ok p"
  show "lru_ok (lru_step op p)"
  proof (cases p)
    case None
    then show ?thesis
      by (cases op) (auto simp: lru_ok_def lru_Get_def lru_Add_def lru_Remove_def lru_Purge_def lru_SetArmed_def)
  next
    case (Some c)
    show ?thesis
    proof (cases "0 < lru_max c")
      case False
      with lru_off_step [of c op] Some show ?thesis by (auto simp: lru_ok_def)
    next
      case True
      with ok Some have "lru_inv c" by (simp add: lru_ok_def)
      from lru_step_refines [OF this True, of op] obtain c' where "lru_step op (Some c) = Some c'" "lru_inv c'" .
      with Some show ?thesis by (simp add: lru_ok_def)
    qed
  qed
next
  fix p :: "('k, 'v) cache option" and op :: "('k, 'v) cache_op" and k v
  assume ok: "lru_ok p" and res: "lru_lookup (lru_step op p) k = Some v"
  show "written k op (lru_lookup p k) = Some v"
  proof (cases p)
    case None
    with res show ?thesis
      by (cases op) (auto simp: lru_lookup_def lru_Get_def lru_Add_def lru_Remove_def lru_Purge_def lru_SetArmed_def)
  next
    case (Some c)
    have "0 < lru_max c"
      using res Some lru_off_step [of c op] lru_off_lookup [of _ k] by (cases "0 < lru_max c") force+
    with ok Some have c: "lru_inv c" "0 < lru_max c" by (auto simp: lru_ok_def)
    from lru_step_refines [OF c, of op] obtain c' where c': "lru_step op (Some c) = Some c'" "lru_inv c'"
      "lru_max c' = lru_max c" "lru_view c' = spec_step (nat (lru_max c)) op (lru_view c)" .
    with res Some c have "mget (snd (spec_step (nat (lru_max c)) op (lru_view c))) k = Some v"
      by (simp add: lru_lookup_view)
    moreover have "mwf (lru_abs c)" using c by (simp add: lru_inv_def)
    moreover have "\<not> \<not> lru_disarmed c \<longrightarrow> lru_abs c = []" using c by (simp add: lru_disarmed_empty)
    ultimately show ?thesis
      using written_spec_step [of "lru_abs c" "\<not> lru_disarmed c" _ op k v] Some c
      by (simp add: lru_view_def lru_lookup_view)
  qed
qed

text \<open>What the operations of the bounded cache do to its lookups, from the contract of a cache.\<close>

lemma lookup_Get:
  assumes "lru_ok c"
  shows "lru_ok (fst (lru_Get c k))" and "lru_lookup (fst (lru_Get c k)) k' = Some v \<Longrightarrow> lru_lookup c k' = Some v"
  using lru.inv_step [OF assms, of "OpGet k"] lru.lookup_step [OF assms, of "OpGet k" k' v] by simp_all

lemma lookup_Add:
  assumes "lru_ok c"
  shows "lru_ok (lru_Add c k w)"
    and "lru_lookup (lru_Add c k w) k' = Some v \<Longrightarrow> (k' = k \<and> v = w) \<or> (k' \<noteq> k \<and> lru_lookup c k' = Some v)"
  using lru.inv_step [OF assms, of "OpAdd k w"] lru.lookup_step [OF assms, of "OpAdd k w" k' v]
  by (auto split: if_splits)

lemma lookup_Remove:
  assumes "lru_ok c"
  shows "lru_ok (lru_Remove c k)"
    and "lru_lookup (lru_Remove c k) k' = Some v \<Longrightarrow> k' \<noteq> k \<and> lru_lookup c k' = Some v"
  using lru.inv_step [OF assms, of "OpRemove k"] lru.lookup_step [OF assms, of "OpRemove k" k' v]
  by (auto split: if_splits)

lemma lookup_Purge:
  assumes "lru_ok c"
  shows "lru_ok (lru_Purge c)" and "lru_lookup (lru_Purge c) k = None"
  using lru.inv_step [OF assms, of OpPurge] lru.lookup_step [OF assms, of OpPurge k]
  by (auto, cases "lru_lookup (lru_Purge c) k") auto

lemma lookup_SetArmed:
  assumes "lru_ok c"
  shows "lru_ok (lru_SetArmed c b)" and "lru_lookup (lru_SetArmed c b) k = Some v \<Longrightarrow> b \<and> lru_lookup c k = Some v"
  using lru.inv_step [OF assms, of "OpArm b"] lru.lookup_step [OF assms, of "OpArm b" k v]
  by (auto split: if_splits)

section \<open>Properties\<close>

text \<open>
  C3. Any sequence of operations on a fresh cache of positive size behaves as the abstract
  recency list does: the entries held, their order of use, and whether the cache is armed are
  those of \<open>spec_step\<close>, in which \<^verbatim>\<open>Add\<close> keeps exactly the \<^verbatim>\<open>max\<close> most recently used keys; and
  the element pointers and the key map of the implementation agree throughout.
\<close>

theorem lru_refines_recency_list:
  assumes "0 < n"
  shows "\<exists>c :: ('k, 'v) cache. fold lru_step ops (Some (lru_New n)) = Some c \<and> lru_inv c \<and>
    (\<not> lru_disarmed c, lru_abs c) = fold (spec_step (nat n)) ops (True, []) \<and>
    lru_Len (Some c) \<le> nat n"
proof -
  let ?new = "lru_New n :: ('k, 'v) cache"
  have "lru_max ?new = n" "lru_view ?new = (True, [])"
    by (simp_all add: lru_New_def lru_view_def lru_abs_def)
  with lru_run_refines [of ?new ops] assms obtain c :: "('k, 'v) cache" where
    "fold lru_step ops (Some (lru_New n)) = Some c" "lru_inv c" "lru_max c = n"
    "lru_view c = fold (spec_step (nat n)) ops (True, [])" by auto
  moreover from this assms have "lru_Len (Some c) \<le> nat n"
    by (auto simp: lru_Len_def lru_inv_def)
  ultimately show ?thesis by (auto simp: lru_view_def)
qed

theorem lru_refines_recency_list_witness:
  "\<exists>c. fold lru_step [OpAdd (1::int) ''a'', OpAdd 2 ''b'', OpGet 1, OpAdd 3 ''c''] (Some (lru_New 2)) = Some c
    \<and> lru_abs c = [(3, ''c''), (1, ''a'')]"
  using lru_refines_recency_list [of 2 "[OpAdd (1::int) ''a'', OpAdd 2 ''b'', OpGet 1, OpAdd 3 ''c'']"]
  by (auto simp: spec_add_def spec_touch_def)

text \<open>
  What \<^verbatim>\<open>Get\<close> answers, after any sequence of operations on a fresh cache, is the value of
  the last \<^verbatim>\<open>Add\<close> of that key, with no \<^verbatim>\<open>Remove\<close> of the key, \<^verbatim>\<open>Purge\<close> or disarming since: a stale
  value is never served, whatever was evicted and however often the cache was re-armed.
\<close>

theorem lru_get_is_last_written:
  assumes "snd (lru_Get (fold lru_step ops (Some (lru_New n))) k) = Some v"
  shows "fold (written k) ops None = Some v"
proof (rule lru.run_sound)
  show "lru_ok (Some (lru_New n))" by (simp add: lru_ok_def)
  show "lru_lookup (Some (lru_New n)) k = None" by (simp add: lru_lookup_def lru_Get_def lru_New_def)
  show "lru_lookup (fold lru_step ops (Some (lru_New n))) k = Some v"
    using assms by (simp add: lru_lookup_def)
qed

theorem lru_get_is_last_written_witness:
  "fold (written (1::int)) [OpAdd 1 ''a'', OpArm False, OpArm True, OpAdd 1 ''b''] None = Some ''b''"
proof (rule lru_get_is_last_written [where n = 1])
  show "snd (lru_Get (fold lru_step [OpAdd 1 ''a'', OpArm False, OpArm True, OpAdd 1 ''b''] (Some (lru_New 1))) (1::int))
    = Some ''b''"
    by (simp add: lru_New_def lru_Add_def lru_SetArmed_def lru_Get_def lru_evict.simps)
qed

end
