(* ===== verification/Stream_Token.thy ===== *)
theory Stream_Token
  imports Go_Prelude
begin

text \<open>
  Sync tokens: \<^verbatim>\<open>internal/streamtoken/roomkey.go\<close>, \<^verbatim>\<open>internal/streamtoken/token.go\<close> and the
  sliding sync position \<^verbatim>\<open>internal/slidingsync/pos.go\<close>.

  A token is fourteen underscore-joined positions. The room field has three encodings (live,
  historical, vector clock); three fields are multi-writer clocks; the others are integers.
  The positions are \<^verbatim>\<open>int64\<close>, here \<open>int\<close> with the range checked where a string is parsed: the
  package only compares positions, it never adds to them. An \<^verbatim>\<open>error\<close> is a value of
  \<open>token_error\<close>; its text, which no caller reads, is reduced to what it names.

  The two clock types share the locale \<open>clock_join\<close>: advancing one clock to another takes the
  pointwise maximum over every writer, hence is a least upper bound.
\<close>

section \<open>Data\<close>

record InstancePos =
  ip_ID :: int
  ip_Pos :: int

type_synonym Instances = "InstancePos list"

record RoomKey =
  rk_Topological :: int
  rk_Stream :: int
  rk_Instances :: Instances

record MultiWriter =
  mw_Stream :: int
  mw_Instances :: Instances

record Token =
  tk_Room :: RoomKey
  tk_Presence :: int
  tk_Typing :: int
  tk_Receipt :: MultiWriter
  tk_AccountData :: int
  tk_PushRules :: int
  tk_ToDevice :: int
  tk_DeviceList :: MultiWriter
  tk_Groups :: int
  tk_UnPartialStatedRooms :: int
  tk_ThreadSubscriptions :: int
  tk_StickyEvents :: int
  tk_QuarantinedMedia :: MultiWriter
  tk_ProfileUpdates :: int

datatype token_error =
    EmptyStreamToken | TooManyFields nat | EmptyRoomToken | InvalidRoomToken string
  | InvalidStreamToken string | InvalidPosition string | MalformedClock
  | NoConnectionPosition | BadConnectionPosition | NegativeConnectionPosition

section \<open>Vector clocks\<close>

fun Instances_Get :: "Instances \<Rightarrow> int \<Rightarrow> int option" where
  "Instances_Get [] i = None"
| "Instances_Get (e # es) i = (if ip_ID e = i then Some (ip_Pos e) else Instances_Get es i)"

text \<open>The entries after the base position: an empty part is skipped, an unreadable one fails.\<close>

fun parse_entries :: "string list \<Rightarrow> token_error + Instances" where
  "parse_entries [] = Inr []"
| "parse_entries (part # parts) =
     (if part = [] then parse_entries parts
      else (case cut_on CHR ''.'' part of
         None \<Rightarrow> Inl MalformedClock
       | Some (idStr, posStr) \<Rightarrow> (case ParseInt idStr of
            None \<Rightarrow> Inl MalformedClock
          | Some i \<Rightarrow> (case ParseInt posStr of
               None \<Rightarrow> Inl MalformedClock
             | Some p \<Rightarrow> (case parse_entries parts of
                  Inl e \<Rightarrow> Inl e
                | Inr es \<Rightarrow> Inr (\<lparr>ip_ID = i, ip_Pos = p\<rparr> # es))))))"

definition parseVectorClock :: "string \<Rightarrow> token_error + int \<times> Instances" where
  "parseVectorClock s = (case split_on CHR ''~'' s of
     [] \<Rightarrow> Inl MalformedClock
   | p # parts \<Rightarrow> (case ParseInt p of
        None \<Rightarrow> Inl MalformedClock
      | Some stream \<Rightarrow> (case parse_entries parts of
           Inl e \<Rightarrow> Inl e
         | Inr es \<Rightarrow> Inr (stream, es))))"

text \<open>The builder loop: \<open>b\<close> is what has been written so far.\<close>

fun format_entries :: "string \<Rightarrow> int \<Rightarrow> Instances \<Rightarrow> string" where
  "format_entries b stream [] = b"
| "format_entries b stream (e # es) =
     (if ip_Pos e \<le> stream then format_entries b stream es
      else let b1 = (if length b > 0 then b @ ''~'' else b)
           in format_entries (b1 @ FormatInt (ip_ID e) @ ''.'' @ FormatInt (ip_Pos e)) stream es)"

definition formatVectorClock :: "int \<Rightarrow> Instances \<Rightarrow> string" where
  "formatVectorClock stream es = format_entries [] stream es"

text \<open>\<^verbatim>\<open>advanceVectorClock\<close>: the local closures \<^verbatim>\<open>get\<close> and \<^verbatim>\<open>add\<close>, then the two loops.\<close>

definition clock_get :: "Instances \<Rightarrow> int \<Rightarrow> int \<Rightarrow> int" where
  "clock_get es base i = (case Instances_Get es i of Some pos \<Rightarrow> pos | None \<Rightarrow> base)"

definition clock_add :: "int \<Rightarrow> Instances \<Rightarrow> int \<Rightarrow> Instances \<Rightarrow> int \<Rightarrow> int \<Rightarrow> Instances \<Rightarrow> Instances" where
  "clock_add aStream a bStream b stream i out =
     (case Instances_Get out i of
        Some _ \<Rightarrow> out
      | None \<Rightarrow>
          let pos = clock_get a aStream i;
              other = clock_get b bStream i;
              pos = (if other > pos then other else pos)
          in if pos > stream then out @ [\<lparr>ip_ID = i, ip_Pos = pos\<rparr>] else out)"

definition advanceVectorClock :: "int \<Rightarrow> Instances \<Rightarrow> int \<Rightarrow> Instances \<Rightarrow> int \<times> Instances" where
  "advanceVectorClock aStream a bStream b =
     (let stream = (if bStream > aStream then bStream else aStream);
          add = (\<lambda>e. clock_add aStream a bStream b stream (ip_ID e));
          out = fold add a [];
          out = fold add b out
      in (stream, out))"

section \<open>Room keys and multi-writer positions\<close>

definition NoTopological :: int where
  "NoTopological = - 1"

definition Live :: "int \<Rightarrow> RoomKey" where
  "Live stream = \<lparr>rk_Topological = NoTopological, rk_Stream = stream, rk_Instances = []\<rparr>"

definition Historical :: "int \<Rightarrow> int \<Rightarrow> RoomKey" where
  "Historical topological stream = \<lparr>rk_Topological = topological, rk_Stream = stream, rk_Instances = []\<rparr>"

definition IsHistorical :: "RoomKey \<Rightarrow> bool" where
  "IsHistorical k \<longleftrightarrow> rk_Topological k \<noteq> NoTopological"

definition ParseRoomKey :: "string \<Rightarrow> token_error + RoomKey" where
  "ParseRoomKey s = (case s of
     [] \<Rightarrow> Inl EmptyRoomToken
   | c # rest \<Rightarrow>
       if c = CHR ''s'' then
         (case ParseInt rest of
            None \<Rightarrow> Inl (InvalidRoomToken s)
          | Some n \<Rightarrow> Inr \<lparr>rk_Topological = NoTopological, rk_Stream = n, rk_Instances = []\<rparr>)
       else if c = CHR ''t'' then
         (case cut_on CHR ''-'' rest of
            None \<Rightarrow> Inl (InvalidRoomToken s)
          | Some (topo, stream) \<Rightarrow> (case ParseInt topo of
               None \<Rightarrow> Inl (InvalidRoomToken s)
             | Some t \<Rightarrow> (case ParseInt stream of
                  None \<Rightarrow> Inl (InvalidRoomToken s)
                | Some n \<Rightarrow> Inr \<lparr>rk_Topological = t, rk_Stream = n, rk_Instances = []\<rparr>)))
       else if c = CHR ''m'' then
         (case parseVectorClock rest of
            Inl e \<Rightarrow> Inl (InvalidRoomToken s)
          | Inr (stream, es) \<Rightarrow> Inr \<lparr>rk_Topological = NoTopological, rk_Stream = stream, rk_Instances = es\<rparr>)
       else Inl (InvalidRoomToken s))"

definition RoomKey_String :: "RoomKey \<Rightarrow> string" where
  "RoomKey_String k =
     (if IsHistorical k then ''t'' @ FormatInt (rk_Topological k) @ ''-'' @ FormatInt (rk_Stream k)
      else let entries = formatVectorClock (rk_Stream k) (rk_Instances k)
           in if entries \<noteq> [] then ''m'' @ FormatInt (rk_Stream k) @ ''~'' @ entries
              else ''s'' @ FormatInt (rk_Stream k))"

fun max_pos :: "int \<Rightarrow> Instances \<Rightarrow> int" where
  "max_pos m [] = m"
| "max_pos m (e # es) = max_pos (if ip_Pos e > m then ip_Pos e else m) es"

definition RoomKey_MaxStreamPos :: "RoomKey \<Rightarrow> int" where
  "RoomKey_MaxStreamPos k = max_pos (rk_Stream k) (rk_Instances k)"

definition RoomKey_StreamPosForInstance :: "RoomKey \<Rightarrow> int \<Rightarrow> int" where
  "RoomKey_StreamPosForInstance k i =
     (case Instances_Get (rk_Instances k) i of Some pos \<Rightarrow> pos | None \<Rightarrow> rk_Stream k)"

definition RoomKey_AdvancedTo :: "RoomKey \<Rightarrow> RoomKey \<Rightarrow> RoomKey" where
  "RoomKey_AdvancedTo k other =
     (if IsHistorical k \<or> IsHistorical other then k
      else let (stream, es) = advanceVectorClock (rk_Stream k) (rk_Instances k) (rk_Stream other) (rk_Instances other)
           in \<lparr>rk_Topological = NoTopological, rk_Stream = stream, rk_Instances = es\<rparr>)"

definition ParseMultiWriter :: "string \<Rightarrow> token_error + MultiWriter" where
  "ParseMultiWriter s = (case s of
     [] \<Rightarrow> Inl EmptyStreamToken
   | c # rest \<Rightarrow>
       if c = CHR ''m'' then
         (case parseVectorClock rest of
            Inl e \<Rightarrow> Inl (InvalidStreamToken s)
          | Inr (stream, es) \<Rightarrow> Inr \<lparr>mw_Stream = stream, mw_Instances = es\<rparr>)
       else (case ParseInt s of
            None \<Rightarrow> Inl (InvalidStreamToken s)
          | Some n \<Rightarrow> Inr \<lparr>mw_Stream = n, mw_Instances = []\<rparr>))"

definition MultiWriter_String :: "MultiWriter \<Rightarrow> string" where
  "MultiWriter_String m =
     (let entries = formatVectorClock (mw_Stream m) (mw_Instances m)
      in if entries \<noteq> [] then ''m'' @ FormatInt (mw_Stream m) @ ''~'' @ entries
         else FormatInt (mw_Stream m))"

definition MultiWriter_MaxStreamPos :: "MultiWriter \<Rightarrow> int" where
  "MultiWriter_MaxStreamPos m = max_pos (mw_Stream m) (mw_Instances m)"

definition MultiWriter_StreamPosForInstance :: "MultiWriter \<Rightarrow> int \<Rightarrow> int" where
  "MultiWriter_StreamPosForInstance m i =
     (case Instances_Get (mw_Instances m) i of Some pos \<Rightarrow> pos | None \<Rightarrow> mw_Stream m)"

definition MultiWriter_AdvancedTo :: "MultiWriter \<Rightarrow> MultiWriter \<Rightarrow> MultiWriter" where
  "MultiWriter_AdvancedTo m other =
     (let (stream, es) = advanceVectorClock (mw_Stream m) (mw_Instances m) (mw_Stream other) (mw_Instances other)
      in \<lparr>mw_Stream = stream, mw_Instances = es\<rparr>)"

section \<open>Tokens\<close>

definition fieldCount :: nat where
  "fieldCount = 14"

definition parseInt :: "string \<Rightarrow> string \<Rightarrow> token_error + int" where
  "parseInt s field = (case ParseInt s of None \<Rightarrow> Inl (InvalidPosition field) | Some n \<Rightarrow> Inr n)"

definition parseMulti :: "string \<Rightarrow> string \<Rightarrow> token_error + MultiWriter" where
  "parseMulti s field = (case ParseMultiWriter s of Inl e \<Rightarrow> Inl (InvalidPosition field) | Inr m \<Rightarrow> Inr m)"

definition maxInt64 :: "int \<Rightarrow> int \<Rightarrow> int" where
  "maxInt64 a b = (if a > b then a else b)"

text \<open>\<^verbatim>\<open>if x, err = f(); err != nil { return err }\<close>: the fields are read in order, the first error wins.\<close>

definition andthen :: "token_error + 'a \<Rightarrow> ('a \<Rightarrow> token_error + 'b) \<Rightarrow> token_error + 'b" where
  "andthen r f = (case r of Inl e \<Rightarrow> Inl e | Inr x \<Rightarrow> f x)"

definition Token_Parse :: "string \<Rightarrow> token_error + Token" where
  "Token_Parse s =
     (if s = [] then Inl EmptyStreamToken
      else let parts = split_on CHR ''_'' s in
        if length parts > fieldCount then Inl (TooManyFields (length parts))
        else let parts = parts @ replicate (fieldCount - length parts) ''0'' in
          andthen (ParseRoomKey (parts ! 0)) (\<lambda>room.
          andthen (parseInt (parts ! 1) ''presence'') (\<lambda>presence.
          andthen (parseInt (parts ! 2) ''typing'') (\<lambda>typing.
          andthen (parseMulti (parts ! 3) ''receipt'') (\<lambda>receipt.
          andthen (parseInt (parts ! 4) ''account_data'') (\<lambda>account_data.
          andthen (parseInt (parts ! 5) ''push_rules'') (\<lambda>push_rules.
          andthen (parseInt (parts ! 6) ''to_device'') (\<lambda>to_device.
          andthen (parseMulti (parts ! 7) ''device_list'') (\<lambda>device_list.
          andthen (parseInt (parts ! 8) ''groups'') (\<lambda>groups.
          andthen (parseInt (parts ! 9) ''un_partial_stated_rooms'') (\<lambda>unp.
          andthen (parseInt (parts ! 10) ''thread_subscriptions'') (\<lambda>threads.
          andthen (parseInt (parts ! 11) ''sticky_events'') (\<lambda>sticky.
          andthen (parseMulti (parts ! 12) ''quarantined_media'') (\<lambda>quarantined.
          andthen (parseInt (parts ! 13) ''profile_updates'') (\<lambda>profile.
            Inr \<lparr>tk_Room = room, tk_Presence = presence, tk_Typing = typing, tk_Receipt = receipt,
                 tk_AccountData = account_data, tk_PushRules = push_rules, tk_ToDevice = to_device,
                 tk_DeviceList = device_list, tk_Groups = groups, tk_UnPartialStatedRooms = unp,
                 tk_ThreadSubscriptions = threads, tk_StickyEvents = sticky,
                 tk_QuarantinedMedia = quarantined, tk_ProfileUpdates = profile\<rparr>)))))))))))))))"

definition token_fields :: "Token \<Rightarrow> string list" where
  "token_fields t =
     [RoomKey_String (tk_Room t), FormatInt (tk_Presence t), FormatInt (tk_Typing t),
      MultiWriter_String (tk_Receipt t), FormatInt (tk_AccountData t), FormatInt (tk_PushRules t),
      FormatInt (tk_ToDevice t), MultiWriter_String (tk_DeviceList t), FormatInt (tk_Groups t),
      FormatInt (tk_UnPartialStatedRooms t), FormatInt (tk_ThreadSubscriptions t),
      FormatInt (tk_StickyEvents t), MultiWriter_String (tk_QuarantinedMedia t),
      FormatInt (tk_ProfileUpdates t)]"

definition Token_String :: "Token \<Rightarrow> string" where
  "Token_String t = join_with CHR ''_'' (token_fields t)"

definition WithRoomKey :: "Token \<Rightarrow> RoomKey \<Rightarrow> Token" where
  "WithRoomKey t k = t\<lparr>tk_Room := k\<rparr>"

definition AtLeast :: "Token \<Rightarrow> Token \<Rightarrow> Token" where
  "AtLeast t floor = t\<lparr>
     tk_Room := RoomKey_AdvancedTo (tk_Room t) (tk_Room floor),
     tk_Presence := maxInt64 (tk_Presence t) (tk_Presence floor),
     tk_Receipt := MultiWriter_AdvancedTo (tk_Receipt t) (tk_Receipt floor),
     tk_AccountData := maxInt64 (tk_AccountData t) (tk_AccountData floor),
     tk_PushRules := maxInt64 (tk_PushRules t) (tk_PushRules floor),
     tk_ToDevice := maxInt64 (tk_ToDevice t) (tk_ToDevice floor),
     tk_DeviceList := MultiWriter_AdvancedTo (tk_DeviceList t) (tk_DeviceList floor),
     tk_UnPartialStatedRooms := maxInt64 (tk_UnPartialStatedRooms t) (tk_UnPartialStatedRooms floor),
     tk_ThreadSubscriptions := maxInt64 (tk_ThreadSubscriptions t) (tk_ThreadSubscriptions floor),
     tk_StickyEvents := maxInt64 (tk_StickyEvents t) (tk_StickyEvents floor),
     tk_QuarantinedMedia := MultiWriter_AdvancedTo (tk_QuarantinedMedia t) (tk_QuarantinedMedia floor),
     tk_ProfileUpdates := maxInt64 (tk_ProfileUpdates t) (tk_ProfileUpdates floor)\<rparr>"

section \<open>Sliding sync positions\<close>

record Pos =
  ps_ConnectionPosition :: int
  ps_StreamToken :: Token

definition ParsePos :: "string \<Rightarrow> token_error + Pos" where
  "ParsePos s = (case cut_on CHR ''/'' s of
     None \<Rightarrow> Inl NoConnectionPosition
   | Some (l, r) \<Rightarrow> (case ParseInt l of
        None \<Rightarrow> Inl BadConnectionPosition
      | Some conn \<Rightarrow>
          if conn < 0 then Inl NegativeConnectionPosition
          else andthen (Token_Parse r) (\<lambda>tok.
            Inr \<lparr>ps_ConnectionPosition = conn, ps_StreamToken = tok\<rparr>)))"

definition Pos_String :: "Pos \<Rightarrow> string" where
  "Pos_String p = FormatInt (ps_ConnectionPosition p) @ ''/'' @ Token_String (ps_StreamToken p)"

section \<open>Printing and parsing\<close>

definition entry_str :: "InstancePos \<Rightarrow> string" where
  "entry_str e = FormatInt (ip_ID e) @ ''.'' @ FormatInt (ip_Pos e)"

abbreviation ahead :: "int \<Rightarrow> Instances \<Rightarrow> Instances" where
  "ahead stream es \<equiv> filter (\<lambda>e. ip_Pos e > stream) es"

lemma FormatInt_char [simp]: "\<not> int_char c \<Longrightarrow> c \<notin> set (FormatInt n)"
  using FormatInt_chars by blast

lemma int_char_seps [simp]:
  "\<not> int_char CHR ''_''" "\<not> int_char CHR ''~''" "\<not> int_char CHR ''.''" "\<not> int_char CHR ''/''"
  "\<not> int_char CHR ''m''" "\<not> int_char CHR ''s''" "\<not> int_char CHR ''t''"
  by (simp_all add: int_char_def)

lemma entry_str_ne [simp]: "entry_str e \<noteq> []"
  by (simp add: entry_str_def)

lemma entry_str_chars: "c \<in> set (entry_str e) \<Longrightarrow> int_char c \<or> c = CHR ''.''"
  by (auto simp: entry_str_def dest: FormatInt_chars)

lemma join_with_merge: "join_with c ((a @ c # b) # fs) = join_with c (a # b # fs)"
  by (cases fs) simp_all

lemma format_entries_join:
  "b \<noteq> [] \<Longrightarrow> format_entries b stream es = join_with CHR ''~'' (b # map entry_str (ahead stream es))"
proof (induction es arbitrary: b)
  case (Cons e es)
  then show ?case
    by (simp add: Let_def join_with_merge entry_str_def)
qed simp

lemma formatVectorClock_join:
  "formatVectorClock stream es = join_with CHR ''~'' (map entry_str (ahead stream es))"
proof (induction es)
  case (Cons e es)
  then show ?case
    by (simp add: formatVectorClock_def Let_def format_entries_join) (simp add: entry_str_def)
qed (simp add: formatVectorClock_def)

lemma join_entries_Nil [simp]: "join_with CHR ''~'' (map entry_str es) = [] \<longleftrightarrow> es = []"
proof (cases es)
  case (Cons e es')
  then show ?thesis by (cases es') simp_all
qed simp

definition entries_ok :: "Instances \<Rightarrow> bool" where
  "entries_ok es \<longleftrightarrow> (\<forall>e \<in> set es. int64 (ip_ID e) \<and> int64 (ip_Pos e))"

lemma entries_ok_filter [simp]: "entries_ok es \<Longrightarrow> entries_ok (filter P es)"
  by (simp add: entries_ok_def)

lemma cut_entry: "cut_on CHR ''.'' (entry_str e) = Some (FormatInt (ip_ID e), FormatInt (ip_Pos e))"
  by (simp add: entry_str_def cut_on_append)

lemma parse_entries_str: "entries_ok es \<Longrightarrow> parse_entries (map entry_str es) = Inr es"
  by (induction es) (auto simp: entries_ok_def cut_entry ParseInt_FormatInt)

lemma parseVectorClock_str:
  assumes "int64 stream" and "entries_ok es" and "es \<noteq> []"
  shows "parseVectorClock (FormatInt stream @ CHR ''~'' # join_with CHR ''~'' (map entry_str es)) = Inr (stream, es)"
proof -
  have "\<forall>f \<in> set (map entry_str es). CHR ''~'' \<notin> set f"
    by (auto dest: entry_str_chars)
  then have "split_on CHR ''~'' (join_with CHR ''~'' (map entry_str es)) = map entry_str es"
    using assms(3) by (intro split_join) simp_all
  with assms show ?thesis
    by (simp add: parseVectorClock_def split_on_append ParseInt_FormatInt parse_entries_str)
qed

text \<open>The keys a token may carry, and what is left of a key once it has been printed.\<close>

definition roomkey_ok :: "RoomKey \<Rightarrow> bool" where
  "roomkey_ok k \<longleftrightarrow> int64 (rk_Stream k) \<and> int64 (rk_Topological k) \<and> entries_ok (rk_Instances k) \<and>
     (IsHistorical k \<longrightarrow> 0 \<le> rk_Topological k)"

definition roomkey_norm :: "RoomKey \<Rightarrow> RoomKey" where
  "roomkey_norm k = k\<lparr>rk_Instances := if IsHistorical k then [] else ahead (rk_Stream k) (rk_Instances k)\<rparr>"

definition multi_ok :: "MultiWriter \<Rightarrow> bool" where
  "multi_ok m \<longleftrightarrow> int64 (mw_Stream m) \<and> entries_ok (mw_Instances m)"

definition multi_norm :: "MultiWriter \<Rightarrow> MultiWriter" where
  "multi_norm m = m\<lparr>mw_Instances := ahead (mw_Stream m) (mw_Instances m)\<rparr>"

lemma ParseRoomKey_String: "roomkey_ok k \<Longrightarrow> ParseRoomKey (RoomKey_String k) = Inr (roomkey_norm k)"
proof (cases "IsHistorical k")
  case True
  assume ok: "roomkey_ok k"
  with True have "cut_on CHR ''-'' (FormatInt (rk_Topological k) @ CHR ''-'' # FormatInt (rk_Stream k)) =
      Some (FormatInt (rk_Topological k), FormatInt (rk_Stream k))"
    by (intro cut_on_append FormatInt_nonneg_chars) (simp add: roomkey_ok_def)
  with True ok show ?thesis
    by (simp add: RoomKey_String_def ParseRoomKey_def roomkey_ok_def roomkey_norm_def ParseInt_FormatInt)
next
  case False
  assume ok: "roomkey_ok k"
  have topo: "rk_Topological k = NoTopological" using False by (simp add: IsHistorical_def)
  show ?thesis
  proof (cases "ahead (rk_Stream k) (rk_Instances k) = []")
    case True
    with False ok topo show ?thesis
      by (simp add: RoomKey_String_def ParseRoomKey_def roomkey_ok_def roomkey_norm_def
          formatVectorClock_join ParseInt_FormatInt)
  next
    case ne: False
    have "parseVectorClock (FormatInt (rk_Stream k) @ CHR ''~'' # join_with CHR ''~''
        (map entry_str (ahead (rk_Stream k) (rk_Instances k)))) =
        Inr (rk_Stream k, ahead (rk_Stream k) (rk_Instances k))"
      using ok ne by (intro parseVectorClock_str) (simp_all add: roomkey_ok_def)
    with False ok topo ne show ?thesis
      by (simp add: RoomKey_String_def ParseRoomKey_def roomkey_norm_def formatVectorClock_join)
  qed
qed

lemma FormatInt_not_m: "FormatInt n = c # cs \<Longrightarrow> c \<noteq> CHR ''m''"
  using FormatInt_chars [of c n] by (auto simp: int_char_def)

lemma ParseMultiWriter_String: "multi_ok m \<Longrightarrow> ParseMultiWriter (MultiWriter_String m) = Inr (multi_norm m)"
proof (cases "ahead (mw_Stream m) (mw_Instances m) = []")
  case True
  assume ok: "multi_ok m"
  obtain c cs where cs: "FormatInt (mw_Stream m) = c # cs"
    by (cases "FormatInt (mw_Stream m)") simp_all
  have "ParseInt (c # cs) = Some (mw_Stream m)"
    using ok ParseInt_FormatInt [of "mw_Stream m"] by (simp add: multi_ok_def cs)
  with True ok cs FormatInt_not_m [OF cs] show ?thesis
    by (simp add: MultiWriter_String_def ParseMultiWriter_def multi_norm_def formatVectorClock_join)
next
  case False
  assume ok: "multi_ok m"
  have "parseVectorClock (FormatInt (mw_Stream m) @ CHR ''~'' # join_with CHR ''~''
      (map entry_str (ahead (mw_Stream m) (mw_Instances m)))) =
      Inr (mw_Stream m, ahead (mw_Stream m) (mw_Instances m))"
    using ok False by (intro parseVectorClock_str) (simp_all add: multi_ok_def)
  with False show ?thesis
    by (simp add: MultiWriter_String_def ParseMultiWriter_def multi_norm_def formatVectorClock_join)
qed

text \<open>No field of a token contains the separator of the fields, nor the slash of a \<^verbatim>\<open>pos\<close>.\<close>

lemma clock_chars:
  assumes "c \<in> set (formatVectorClock stream es)"
  shows "int_char c \<or> c = CHR ''.'' \<or> c = CHR ''~''"
  using set_join_with [OF assms [unfolded formatVectorClock_join]] by (auto dest: entry_str_chars)

lemma RoomKey_String_chars:
  "c \<in> set (RoomKey_String k) \<Longrightarrow> int_char c \<or> c \<in> {CHR ''.'', CHR ''~'', CHR ''s'', CHR ''t'', CHR ''m''}"
  by (auto simp: RoomKey_String_def Let_def int_char_def [of "CHR ''-''"]
      dest: FormatInt_chars clock_chars split: if_splits)

lemma MultiWriter_String_chars:
  "c \<in> set (MultiWriter_String m) \<Longrightarrow> int_char c \<or> c \<in> {CHR ''.'', CHR ''~'', CHR ''m''}"
  by (auto simp: MultiWriter_String_def Let_def dest: FormatInt_chars clock_chars split: if_splits)

lemma token_field_seps: "f \<in> set (token_fields t) \<Longrightarrow> CHR ''_'' \<notin> set f"
  by (auto simp: token_fields_def dest: RoomKey_String_chars MultiWriter_String_chars)

definition token_ok :: "Token \<Rightarrow> bool" where
  "token_ok t \<longleftrightarrow> roomkey_ok (tk_Room t) \<and> multi_ok (tk_Receipt t) \<and> multi_ok (tk_DeviceList t) \<and>
     multi_ok (tk_QuarantinedMedia t) \<and>
     list_all int64 [tk_Presence t, tk_Typing t, tk_AccountData t, tk_PushRules t, tk_ToDevice t,
       tk_Groups t, tk_UnPartialStatedRooms t, tk_ThreadSubscriptions t, tk_StickyEvents t,
       tk_ProfileUpdates t]"

definition token_norm :: "Token \<Rightarrow> Token" where
  "token_norm t = t\<lparr>tk_Room := roomkey_norm (tk_Room t), tk_Receipt := multi_norm (tk_Receipt t),
     tk_DeviceList := multi_norm (tk_DeviceList t), tk_QuarantinedMedia := multi_norm (tk_QuarantinedMedia t)\<rparr>"

lemma split_token: "split_on CHR ''_'' (Token_String t) = token_fields t"
  unfolding Token_String_def
  by (rule split_join) (auto simp: token_fields_def dest: RoomKey_String_chars MultiWriter_String_chars)

lemma RoomKey_String_ne [simp]: "RoomKey_String k \<noteq> []"
  by (simp add: RoomKey_String_def Let_def)

lemma Token_String_ne [simp]: "Token_String t \<noteq> []"
  by (simp add: Token_String_def token_fields_def)

lemma Token_Parse_String: "token_ok t \<Longrightarrow> Token_Parse (Token_String t) = Inr (token_norm t)"
  by (simp add: Token_Parse_def split_token fieldCount_def)
    (simp add: token_fields_def andthen_def parseInt_def parseMulti_def token_ok_def ParseInt_FormatInt
      ParseRoomKey_String ParseMultiWriter_String token_norm_def)

text \<open>Whatever the parsers accept is in range, so it prints and parses again.\<close>

lemma parse_digits_nonneg: "parse_digits acc s = Some n \<Longrightarrow> 0 \<le> n"
  by simp

lemma ParseInt_no_minus: "ParseInt s = Some n \<Longrightarrow> CHR ''-'' \<notin> set s \<Longrightarrow> 0 \<le> n"
  by (cases s) (auto simp: ParseInt_def Let_def split: if_splits option.splits)

lemma parse_entries_ok: "parse_entries ps = Inr es \<Longrightarrow> entries_ok es"
proof (induction ps arbitrary: es)
  case (Cons p ps)
  then show ?case
    by (auto simp: entries_ok_def split: if_splits option.splits prod.splits sum.splits
        dest!: ParseInt_range)
qed (simp add: entries_ok_def)

lemma parseVectorClock_ok: "parseVectorClock s = Inr (stream, es) \<Longrightarrow> int64 stream \<and> entries_ok es"
  by (auto simp: parseVectorClock_def split: list.splits option.splits sum.splits
      dest: ParseInt_range parse_entries_ok)

lemma int64_NoTopological [simp]: "int64 NoTopological"
  by (simp add: int64_def NoTopological_def)

lemma ParseRoomKey_ok: "ParseRoomKey s = Inr k \<Longrightarrow> roomkey_ok k"
  by (auto simp: ParseRoomKey_def roomkey_ok_def IsHistorical_def entries_ok_def [of "[]"]
      split: list.splits if_splits option.splits prod.splits sum.splits
      dest: ParseInt_range parseVectorClock_ok ParseInt_no_minus cut_on_Some)

lemma ParseMultiWriter_ok: "ParseMultiWriter s = Inr m \<Longrightarrow> multi_ok m"
  by (auto simp: ParseMultiWriter_def multi_ok_def entries_ok_def [of "[]"]
      split: list.splits if_splits option.splits prod.splits sum.splits
      dest: ParseInt_range parseVectorClock_ok)

lemma parseInt_ok: "parseInt s f = Inr n \<Longrightarrow> int64 n"
  by (auto simp: parseInt_def split: option.splits dest: ParseInt_range)

lemma parseMulti_ok: "parseMulti s f = Inr m \<Longrightarrow> multi_ok m"
  by (auto simp: parseMulti_def split: sum.splits dest: ParseMultiWriter_ok)

lemma andthen_Inr: "andthen r f = Inr y \<longleftrightarrow> (\<exists>x. r = Inr x \<and> f x = Inr y)"
  by (auto simp: andthen_def split: sum.splits)

lemma Token_Parse_ok: "Token_Parse s = Inr t \<Longrightarrow> token_ok t"
  by (auto simp: Token_Parse_def Let_def andthen_Inr token_ok_def split: if_splits
      dest: ParseRoomKey_ok parseInt_ok parseMulti_ok)

lemma IsHistorical_norm [simp]: "IsHistorical (roomkey_norm k) = IsHistorical k"
  by (simp add: IsHistorical_def roomkey_norm_def)

lemma RoomKey_String_norm [simp]: "RoomKey_String (roomkey_norm k) = RoomKey_String k"
  by (simp add: RoomKey_String_def formatVectorClock_join) (simp add: roomkey_norm_def)

lemma MultiWriter_String_norm [simp]: "MultiWriter_String (multi_norm k) = MultiWriter_String k"
  by (simp add: MultiWriter_String_def formatVectorClock_join) (simp add: multi_norm_def)

lemma Token_String_norm [simp]: "Token_String (token_norm t) = Token_String t"
  by (simp add: Token_String_def token_fields_def token_norm_def)

section \<open>The order on clocks\<close>

text \<open>
  A clock has a base every writer has reached and a position per writer. Joining two clocks
  takes the pointwise maximum. A clock is canonical when no writer is listed behind the base;
  among those the join is the least clock at or after both.
\<close>

locale clock_join =
  fixes base :: "'c \<Rightarrow> int"
    and pos :: "'c \<Rightarrow> int \<Rightarrow> int"
    and join :: "'c \<Rightarrow> 'c \<Rightarrow> 'c"
    and live :: "'c \<Rightarrow> bool"
  assumes live_join: "live a \<Longrightarrow> live b \<Longrightarrow> live (join a b)"
    and base_join: "live a \<Longrightarrow> live b \<Longrightarrow> base (join a b) = max (base a) (base b)"
    and pos_join: "live a \<Longrightarrow> live b \<Longrightarrow>
      pos (join a b) i = max (max (base a) (base b)) (max (pos a i) (pos b i))"
begin

definition clock_le :: "'c \<Rightarrow> 'c \<Rightarrow> bool" where
  "clock_le a b \<longleftrightarrow> base a \<le> base b \<and> (\<forall>i. pos a i \<le> pos b i)"

definition canonical :: "'c \<Rightarrow> bool" where
  "canonical a \<longleftrightarrow> (\<forall>i. base a \<le> pos a i)"

lemma join_upper:
  assumes "live a" and "live b"
  shows "clock_le a (join a b) \<and> clock_le b (join a b)"
  using assms by (auto simp: clock_le_def base_join pos_join)

lemma join_canonical: "live a \<Longrightarrow> live b \<Longrightarrow> canonical (join a b)"
  by (auto simp: canonical_def base_join pos_join)

lemma join_least:
  assumes "live a" and "live b" and "canonical c" and "clock_le a c" and "clock_le b c"
  shows "clock_le (join a b) c"
proof -
  have "max (base a) (base b) \<le> pos c i" for i
    using assms(3-5) by (auto simp: clock_le_def canonical_def intro: order_trans)
  with assms show ?thesis by (auto simp: clock_le_def base_join pos_join)
qed

lemma join_same_view:
  assumes "live a" and "live b"
  shows "base (join a b) = base (join b a) \<and> pos (join a b) i = pos (join b a) i"
  using assms by (simp add: base_join pos_join max.commute)

lemma join_idem:
  assumes "live a" and "canonical a"
  shows "base (join a a) = base a \<and> pos (join a a) i = pos a i"
  using assms by (simp add: base_join pos_join canonical_def)

end

subsection \<open>The two clocks of the code are such joins\<close>

lemma StreamPos_clock_get:
  "RoomKey_StreamPosForInstance k i = clock_get (rk_Instances k) (rk_Stream k) i"
  "MultiWriter_StreamPosForInstance m i = clock_get (mw_Instances m) (mw_Stream m) i"
  by (simp_all add: RoomKey_StreamPosForInstance_def MultiWriter_StreamPosForInstance_def clock_get_def
      split: option.splits)

lemma Instances_Get_append:
  "Instances_Get (xs @ ys) i = (case Instances_Get xs i of None \<Rightarrow> Instances_Get ys i | Some p \<Rightarrow> Some p)"
  by (induction xs) auto

lemma Instances_Get_None: "Instances_Get es i = None \<longleftrightarrow> i \<notin> ip_ID ` set es"
  by (induction es) auto

text \<open>What the accumulator of the two loops holds after the writers \<open>ids\<close> have been added.\<close>

definition clock_acc :: "int \<Rightarrow> (int \<Rightarrow> int) \<Rightarrow> int set \<Rightarrow> Instances \<Rightarrow> bool" where
  "clock_acc stream p ids out \<longleftrightarrow> distinct (map ip_ID out) \<and>
     (\<forall>i. Instances_Get out i = (if i \<in> ids \<and> p i > stream then Some (p i) else None))"

lemma clock_acc_add:
  assumes "clock_acc stream p ids out"
    and "p i = max (clock_get a aStream i) (clock_get b bStream i)"
  shows "clock_acc stream p (insert i ids) (clock_add aStream a bStream b stream i out)"
proof (cases "Instances_Get out i")
  case None
  then have "i \<notin> ip_ID ` set out" by (simp add: Instances_Get_None)
  with None assms show ?thesis
    by (auto simp: clock_acc_def clock_add_def Let_def Instances_Get_append max_def split: if_splits)
next
  case (Some q)
  with assms show ?thesis
    by (auto simp: clock_acc_def clock_add_def insert_absorb split: if_splits)
qed

lemma clock_acc_fold:
  assumes "clock_acc stream p ids out"
    and "\<And>i. p i = max (clock_get a aStream i) (clock_get b bStream i)"
  shows "clock_acc stream p (ids \<union> ip_ID ` set es)
    (fold (\<lambda>e. clock_add aStream a bStream b stream (ip_ID e)) es out)"
  using assms(1)
proof (induction es arbitrary: ids out)
  case (Cons e es)
  from Cons.IH [OF clock_acc_add [OF Cons.prems assms(2)]] show ?case by simp
qed simp

lemma advanceVectorClock_view:
  assumes "advanceVectorClock aS a bS b = (s, out)"
  shows "s = max aS bS" and "distinct (map ip_ID out)" and "\<forall>e \<in> set out. ip_Pos e > s"
    and "clock_get out s i = max (max aS bS) (max (clock_get a aS i) (clock_get b bS i))"
proof -
  let ?p = "\<lambda>i. max (clock_get a aS i) (clock_get b bS i)"
  show s: "s = max aS bS" using assms by (auto simp: advanceVectorClock_def Let_def)
  have "clock_acc s ?p {} []" by (simp add: clock_acc_def)
  from clock_acc_fold [OF clock_acc_fold [OF this refl, of a] refl, of b] assms s
  have acc: "clock_acc s ?p (ip_ID ` set a \<union> ip_ID ` set b) out"
    by (simp add: advanceVectorClock_def Let_def max_def split: if_splits)
  then show "distinct (map ip_ID out)" by (simp add: clock_acc_def)
  show "\<forall>e \<in> set out. ip_Pos e > s"
  proof
    fix e
    assume "e \<in> set out"
    then have "Instances_Get out (ip_ID e) = Some (ip_Pos e)"
      using \<open>distinct (map ip_ID out)\<close> by (induction out) (auto simp: rev_image_eqI)
    with acc show "ip_Pos e > s" by (auto simp: clock_acc_def split: if_splits)
  qed
  have out: "i \<notin> ip_ID ` set es \<Longrightarrow> clock_get es st i = st" for es st
    by (simp add: clock_get_def Instances_Get_None [symmetric])
  show "clock_get out s i = max (max aS bS) (max (clock_get a aS i) (clock_get b bS i))"
  proof (cases "i \<in> ip_ID ` set a \<union> ip_ID ` set b")
    case True
    with acc s show ?thesis by (auto simp: clock_acc_def clock_get_def [of out])
  next
    case False
    with acc s show ?thesis by (auto simp: clock_acc_def clock_get_def [of out] out)
  qed
qed

interpretation multi: clock_join mw_Stream MultiWriter_StreamPosForInstance MultiWriter_AdvancedTo "\<lambda>_. True"
proof
  fix a b :: MultiWriter and i
  obtain s out where adv: "advanceVectorClock (mw_Stream a) (mw_Instances a) (mw_Stream b) (mw_Instances b) = (s, out)"
    by fastforce
  note view = advanceVectorClock_view [OF adv]
  show "mw_Stream (MultiWriter_AdvancedTo a b) = max (mw_Stream a) (mw_Stream b)"
    by (simp add: MultiWriter_AdvancedTo_def adv view(1))
  show "MultiWriter_StreamPosForInstance (MultiWriter_AdvancedTo a b) i =
      max (max (mw_Stream a) (mw_Stream b))
        (max (MultiWriter_StreamPosForInstance a i) (MultiWriter_StreamPosForInstance b i))"
    using view(4) [of i]
    by (simp add: MultiWriter_AdvancedTo_def adv StreamPos_clock_get)
qed simp

interpretation room: clock_join rk_Stream RoomKey_StreamPosForInstance RoomKey_AdvancedTo "\<lambda>k. \<not> IsHistorical k"
proof
  fix a b :: RoomKey and i
  assume live: "\<not> IsHistorical a" "\<not> IsHistorical b"
  obtain s out where adv: "advanceVectorClock (rk_Stream a) (rk_Instances a) (rk_Stream b) (rk_Instances b) = (s, out)"
    by fastforce
  note view = advanceVectorClock_view [OF adv]
  show "\<not> IsHistorical (RoomKey_AdvancedTo a b)"
    using live by (simp add: RoomKey_AdvancedTo_def adv) (simp add: IsHistorical_def)
  show "rk_Stream (RoomKey_AdvancedTo a b) = max (rk_Stream a) (rk_Stream b)"
    using live by (simp add: RoomKey_AdvancedTo_def adv view(1))
  show "RoomKey_StreamPosForInstance (RoomKey_AdvancedTo a b) i =
      max (max (rk_Stream a) (rk_Stream b))
        (max (RoomKey_StreamPosForInstance a i) (RoomKey_StreamPosForInstance b i))"
    using view(4) [of i] live
    by (simp add: RoomKey_AdvancedTo_def adv StreamPos_clock_get)
qed

section \<open>The order on tokens\<close>

definition roomkey_le :: "RoomKey \<Rightarrow> RoomKey \<Rightarrow> bool" where
  "roomkey_le a b \<longleftrightarrow> rk_Stream a \<le> rk_Stream b \<and>
     (\<forall>i. RoomKey_StreamPosForInstance a i \<le> RoomKey_StreamPosForInstance b i)"

definition multi_le :: "MultiWriter \<Rightarrow> MultiWriter \<Rightarrow> bool" where
  "multi_le a b \<longleftrightarrow> mw_Stream a \<le> mw_Stream b \<and>
     (\<forall>i. MultiWriter_StreamPosForInstance a i \<le> MultiWriter_StreamPosForInstance b i)"

text \<open>
  One token is at or before another in every stream a client can be behind on. Typing is left
  out because its serial restarts with its writer, and groups because nothing uses it.
\<close>

definition token_le :: "Token \<Rightarrow> Token \<Rightarrow> bool" where
  "token_le t u \<longleftrightarrow> roomkey_le (tk_Room t) (tk_Room u) \<and> tk_Presence t \<le> tk_Presence u \<and>
     multi_le (tk_Receipt t) (tk_Receipt u) \<and> tk_AccountData t \<le> tk_AccountData u \<and>
     tk_PushRules t \<le> tk_PushRules u \<and> tk_ToDevice t \<le> tk_ToDevice u \<and>
     multi_le (tk_DeviceList t) (tk_DeviceList u) \<and>
     tk_UnPartialStatedRooms t \<le> tk_UnPartialStatedRooms u \<and>
     tk_ThreadSubscriptions t \<le> tk_ThreadSubscriptions u \<and> tk_StickyEvents t \<le> tk_StickyEvents u \<and>
     multi_le (tk_QuarantinedMedia t) (tk_QuarantinedMedia u) \<and> tk_ProfileUpdates t \<le> tk_ProfileUpdates u"

definition token_canonical :: "Token \<Rightarrow> bool" where
  "token_canonical t \<longleftrightarrow>
     (\<forall>e \<in> set (rk_Instances (tk_Room t)). rk_Stream (tk_Room t) \<le> ip_Pos e) \<and>
     (\<forall>m \<in> {tk_Receipt t, tk_DeviceList t, tk_QuarantinedMedia t}. \<forall>e \<in> set (mw_Instances m). mw_Stream m \<le> ip_Pos e)"

lemma roomkey_le_clock: "roomkey_le = room.clock_le"
  by (intro ext) (simp add: roomkey_le_def room.clock_le_def)

lemma multi_le_clock: "multi_le = multi.clock_le"
  by (intro ext) (simp add: multi_le_def multi.clock_le_def)

lemma clock_get_ge: "\<forall>e \<in> set es. base \<le> ip_Pos e \<Longrightarrow> base \<le> clock_get es base i"
  by (induction es) (auto simp: clock_get_def)

lemma room_canonicalI: "\<forall>e \<in> set (rk_Instances k). rk_Stream k \<le> ip_Pos e \<Longrightarrow> room.canonical k"
  by (simp add: room.canonical_def StreamPos_clock_get clock_get_ge)

lemma multi_canonicalI: "\<forall>e \<in> set (mw_Instances m). mw_Stream m \<le> ip_Pos e \<Longrightarrow> multi.canonical m"
  by (simp add: multi.canonical_def StreamPos_clock_get clock_get_ge)

lemma maxInt64_max [simp]: "maxInt64 a b = max a b"
  by (simp add: maxInt64_def max_def)

lemma multi_AdvancedTo_lub:
  "multi_le a (MultiWriter_AdvancedTo a b)" "multi_le b (MultiWriter_AdvancedTo a b)"
  "\<forall>e \<in> set (mw_Instances c). mw_Stream c \<le> ip_Pos e \<Longrightarrow> multi_le a c \<Longrightarrow> multi_le b c \<Longrightarrow>
     multi_le (MultiWriter_AdvancedTo a b) c"
  using multi.join_upper multi.join_least [OF _ _ multi_canonicalI]
  by (simp_all add: multi_le_clock)

lemma room_AdvancedTo_lub:
  assumes "\<not> IsHistorical a" and "\<not> IsHistorical b"
  shows "roomkey_le a (RoomKey_AdvancedTo a b)" and "roomkey_le b (RoomKey_AdvancedTo a b)"
    and "\<forall>e \<in> set (rk_Instances c). rk_Stream c \<le> ip_Pos e \<Longrightarrow> roomkey_le a c \<Longrightarrow> roomkey_le b c \<Longrightarrow>
      roomkey_le (RoomKey_AdvancedTo a b) c"
  using room.join_upper [OF assms] room.join_least [OF assms room_canonicalI]
  by (simp_all add: roomkey_le_clock)

section \<open>Properties\<close>

lemma split_on_snoc: "c \<notin> set f \<Longrightarrow> split_on c (s @ c # f) = split_on c s @ [f]"
proof (induction s)
  case Nil
  then show ?case by (simp add: split_on_plain)
next
  case (Cons x s)
  then show ?case by (cases "split_on c s") auto
qed

text \<open>
  C2. Every token the parser accepts is within range, and every token within range prints to a
  string that parses back to the same token, up to the clock entries that are not ahead of
  their base, which are never printed; the parsed-back token prints to the same bytes again.
\<close>

theorem token_roundtrip:
  assumes "Token_Parse s = Inr t \<or> token_ok t"
  shows "token_ok t \<and> Token_Parse (Token_String t) = Inr (token_norm t) \<and>
    Token_String (token_norm t) = Token_String t"
  using assms Token_Parse_ok Token_Parse_String by auto

theorem token_roundtrip_witness:
  "\<exists>t. Token_Parse ''m56~2.58~3.12_17_338_m67~4.70_1_5_-2'' = Inr t \<and>
     Token_Parse (Token_String t) = Inr (token_norm t) \<and>
     Token_String t = ''m56~2.58_17_338_m67~4.70_1_5_-2_0_0_0_0_0_0_0''"
proof -
  define t where "t = (case Token_Parse ''m56~2.58~3.12_17_338_m67~4.70_1_5_-2'' of Inr u \<Rightarrow> u)"
  have p: "Token_Parse ''m56~2.58~3.12_17_338_m67~4.70_1_5_-2'' = Inr t"
    unfolding t_def by code_simp
  have "Token_String t = ''m56~2.58_17_338_m67~4.70_1_5_-2_0_0_0_0_0_0_0''"
    unfolding t_def by code_simp
  then show ?thesis using p token_roundtrip [OF disjI1 [OF p]] by blast
qed

text \<open>
  A token minted by an older server is shorter: each missing trailing field reads as zero.
  A token with more fields than are known is rejected, whatever the fields are.
\<close>

theorem token_padding_and_excess:
  assumes "s \<noteq> []"
  shows "(length (split_on CHR ''_'' s) < fieldCount \<longrightarrow> Token_Parse (s @ ''_0'') = Token_Parse s) \<and>
    (length (split_on CHR ''_'' s) > fieldCount \<longrightarrow>
       Token_Parse s = Inl (TooManyFields (length (split_on CHR ''_'' s))))"
proof (intro conjI impI)
  assume "length (split_on CHR ''_'' s) < fieldCount"
  moreover from this have "[''0''] @ replicate (fieldCount - Suc (length (split_on CHR ''_'' s))) ''0'' =
      replicate (fieldCount - length (split_on CHR ''_'' s)) ''0''"
    by (simp flip: replicate_Suc add: Suc_diff_Suc)
  ultimately show "Token_Parse (s @ ''_0'') = Token_Parse s"
    using assms by (simp add: Token_Parse_def split_on_snoc Let_def)
qed (use assms in \<open>simp add: Token_Parse_def\<close>)

theorem token_padding_and_excess_witness:
  "Token_Parse (''s5_1'' @ ''_0'') = Token_Parse ''s5_1''"
  using token_padding_and_excess [of "''s5_1''"] by (simp add: fieldCount_def)

text \<open>
  C4. Raising a now token to a client's token gives the least token at or after both, in every
  stream and for every writer of a multi-writer stream. The typing serial and the dead groups
  field keep the value of the token being raised.
\<close>

theorem at_least_is_least_upper_bound:
  assumes "\<not> IsHistorical (tk_Room t)" and "\<not> IsHistorical (tk_Room floor)"
  shows "token_le t (AtLeast t floor) \<and> token_le floor (AtLeast t floor) \<and>
    tk_Typing (AtLeast t floor) = tk_Typing t \<and> tk_Groups (AtLeast t floor) = tk_Groups t \<and>
    (\<forall>u. token_canonical u \<and> token_le t u \<and> token_le floor u \<longrightarrow> token_le (AtLeast t floor) u)"
proof (intro conjI allI impI)
  show "token_le t (AtLeast t floor)" "token_le floor (AtLeast t floor)"
    by (simp_all add: token_le_def AtLeast_def multi_AdvancedTo_lub room_AdvancedTo_lub [OF assms])
  show "tk_Typing (AtLeast t floor) = tk_Typing t" "tk_Groups (AtLeast t floor) = tk_Groups t"
    by (simp_all add: AtLeast_def)
  fix u
  assume "token_canonical u \<and> token_le t u \<and> token_le floor u"
  then show "token_le (AtLeast t floor) u"
    by (simp add: token_le_def token_canonical_def AtLeast_def multi_AdvancedTo_lub(3)
        room_AdvancedTo_lub(3) [OF assms])
qed

definition token_example :: "int \<Rightarrow> Instances \<Rightarrow> Token" where
  "token_example n es = \<lparr>tk_Room = \<lparr>rk_Topological = NoTopological, rk_Stream = n, rk_Instances = es\<rparr>,
     tk_Presence = n, tk_Typing = n, tk_Receipt = \<lparr>mw_Stream = n, mw_Instances = es\<rparr>,
     tk_AccountData = n, tk_PushRules = n, tk_ToDevice = n,
     tk_DeviceList = \<lparr>mw_Stream = n, mw_Instances = []\<rparr>, tk_Groups = n,
     tk_UnPartialStatedRooms = n, tk_ThreadSubscriptions = n, tk_StickyEvents = n,
     tk_QuarantinedMedia = \<lparr>mw_Stream = n, mw_Instances = []\<rparr>, tk_ProfileUpdates = n\<rparr>"

theorem at_least_is_least_upper_bound_witness:
  "token_le (token_example 5 [\<lparr>ip_ID = 1, ip_Pos = 9\<rparr>])
     (AtLeast (token_example 5 [\<lparr>ip_ID = 1, ip_Pos = 9\<rparr>]) (token_example 7 [\<lparr>ip_ID = 2, ip_Pos = 8\<rparr>]))
   \<and> rk_Instances (tk_Room (AtLeast (token_example 5 [\<lparr>ip_ID = 1, ip_Pos = 9\<rparr>])
        (token_example 7 [\<lparr>ip_ID = 2, ip_Pos = 8\<rparr>]))) =
     [\<lparr>ip_ID = 1, ip_Pos = 9\<rparr>, \<lparr>ip_ID = 2, ip_Pos = 8\<rparr>]"
proof
  show "token_le (token_example 5 [\<lparr>ip_ID = 1, ip_Pos = 9\<rparr>])
     (AtLeast (token_example 5 [\<lparr>ip_ID = 1, ip_Pos = 9\<rparr>]) (token_example 7 [\<lparr>ip_ID = 2, ip_Pos = 8\<rparr>]))"
    using at_least_is_least_upper_bound [of "token_example 5 [\<lparr>ip_ID = 1, ip_Pos = 9\<rparr>]"
        "token_example 7 [\<lparr>ip_ID = 2, ip_Pos = 8\<rparr>]"]
    by (simp add: token_example_def IsHistorical_def)
qed code_simp

text \<open>
  Replacing the room key of a token changes the first of its fourteen printed fields and
  no other.
\<close>

theorem with_room_key_frame:
  "token_fields (WithRoomKey t k) = RoomKey_String k # tl (token_fields t) \<and>
   length (token_fields (WithRoomKey t k)) = fieldCount \<and> tk_Room (WithRoomKey t k) = k"
  by (simp add: token_fields_def WithRoomKey_def fieldCount_def)

text \<open>
  A sliding sync position prints to a string that parses back to the same position, with a
  connection position of zero allowed; a negative connection position is rejected even though
  it would parse as a number.
\<close>

theorem pos_roundtrip:
  assumes "token_ok (ps_StreamToken p)" and "int64 (ps_ConnectionPosition p)"
  shows "ParsePos (Pos_String p) =
    (if ps_ConnectionPosition p < 0 then Inl NegativeConnectionPosition
     else Inr (p\<lparr>ps_StreamToken := token_norm (ps_StreamToken p)\<rparr>))"
proof -
  have "cut_on CHR ''/'' (Pos_String p) =
      Some (FormatInt (ps_ConnectionPosition p), Token_String (ps_StreamToken p))"
    by (simp add: Pos_String_def cut_on_append)
  with assms show ?thesis
    by (simp add: ParsePos_def ParseInt_FormatInt Token_Parse_String andthen_def)
qed

theorem pos_roundtrip_witness:
  "ParsePos (Pos_String \<lparr>ps_ConnectionPosition = 0, ps_StreamToken = token_example 5 []\<rparr>) =
     Inr \<lparr>ps_ConnectionPosition = 0, ps_StreamToken = token_example 5 []\<rparr>"
proof -
  have "token_ok (token_example 5 [])" by code_simp
  moreover have "token_norm (token_example 5 []) = token_example 5 []" by code_simp
  ultimately show ?thesis
    using pos_roundtrip [of "\<lparr>ps_ConnectionPosition = 0, ps_StreamToken = token_example 5 []\<rparr>"]
    by (simp add: int64_def)
qed

end
