(* ===== verification/Stream_Cache.thy ===== *)
theory Stream_Cache
  imports Go_Prelude "HOL-Library.Word"
begin

text \<open>
  The stream-change cache of \<^verbatim>\<open>internal/streamcache/streamcache.go\<close>, with the query that seeds
  it (\<^verbatim>\<open>CacheDict\<close> of \<^verbatim>\<open>internal/store/cachedict.go\<close>).

  The cache answers "may this entity have changed after that position?". Saying "changed" is
  always safe; saying "unchanged" is a claim, and a wrong claim loses an event. The model is
  the Go structure field by field: entities by position, the ascending list of positions, the
  last position of each entity, the horizon \<open>sc_earliest\<close>, and the counters. \<^verbatim>\<open>sort.Search\<close> is
  the binary search of the standard library.

  What the cache is for is stated against a ghost: the set of all changes that ever happened in
  the stream. \<open>sc_reach\<close> relates the changes that happened to the cache the worker holds, one
  rule for each way either can move; the contract (no false negative, and above the horizon no
  false positive either) is an invariant of that relation.
\<close>

section \<open>The model\<close>

record scache =
  sc_name :: string
  sc_max :: int
  sc_byPos :: "(int, string set) gomap"
  sc_positions :: "int list"
  sc_entityPos :: "(string, int) gomap"
  sc_earliest :: int
  sc_disarmed :: bool
  sc_hits :: "64 word"
  sc_misses :: "64 word"
  sc_evictions :: "64 word"

record sc_stats =
  ss_Hits :: "64 word"
  ss_Misses :: "64 word"
  ss_Evictions :: "64 word"
  ss_Entities :: nat
  ss_Positions :: nat
  ss_Earliest :: int
  ss_Armed :: bool

definition sc_New :: "string \<Rightarrow> int \<Rightarrow> int \<Rightarrow> scache" where
  "sc_New name currentPos m = \<lparr>sc_name = name, sc_max = m, sc_byPos = [], sc_positions = [],
     sc_entityPos = [], sc_earliest = currentPos, sc_disarmed = True,
     sc_hits = 0, sc_misses = 0, sc_evictions = 0\<rparr>"

text \<open>\<^verbatim>\<open>sort.Search(n, f)\<close> is \<open>sort_search f 0 n\<close>.\<close>

function sort_search :: "(nat \<Rightarrow> bool) \<Rightarrow> nat \<Rightarrow> nat \<Rightarrow> nat" where
  "sort_search f i j =
     (if i < j then
        let h = (i + j) div 2
        in if \<not> f h then sort_search f (Suc h) j else sort_search f i h
      else i)"
  by pat_completeness auto
termination
  by (relation "measure (\<lambda>(f, i, j). j - i)") auto

declare sort_search.simps [simp del]

definition insertPosition :: "int \<Rightarrow> int list \<Rightarrow> int list" where
  "insertPosition pos ps =
     (if ps = [] \<or> last ps < pos then ps @ [pos]
      else let i = sort_search (\<lambda>i. ps ! i \<ge> pos) 0 (length ps)
           in take i ps @ pos # drop i ps)"

definition removePosition :: "int \<Rightarrow> int list \<Rightarrow> int list" where
  "removePosition pos ps =
     (let i = sort_search (\<lambda>i. ps ! i \<ge> pos) 0 (length ps)
      in if i < length ps \<and> ps ! i = pos then take i ps @ drop (Suc i) ps else ps)"

definition resetLocked :: "scache \<Rightarrow> int \<Rightarrow> scache" where
  "resetLocked c pos = c\<lparr>sc_byPos := [], sc_entityPos := [], sc_positions := [],
     sc_earliest := (if pos > sc_earliest c then pos else sc_earliest c)\<rparr>"

text \<open>
  The eviction loop. It is only reached with a positive bound, where the list it takes the
  first position from is not empty.
\<close>

function evictLocked :: "scache \<Rightarrow> scache" where
  "evictLocked c =
     (case sc_positions c of
        [] \<Rightarrow> c
      | k # ps \<Rightarrow>
          if int (length (sc_positions c)) > sc_max c then
            evictLocked (c\<lparr>
              sc_positions := ps,
              sc_entityPos := filter (\<lambda>(e, p). \<not> (e \<in> mgetz {} (sc_byPos c) k \<and> p = k)) (sc_entityPos c),
              sc_byPos := mdel k (sc_byPos c),
              sc_earliest := (if k > sc_earliest c then k else sc_earliest c),
              sc_evictions := sc_evictions c + 1\<rparr>)
          else c)"
  by pat_completeness auto
termination
  by (relation "measure (\<lambda>c. length (sc_positions c))") auto

declare evictLocked.simps [simp del]

text \<open>Taking an entity out of the set of its old position, and dropping a set left empty.\<close>

definition forget_old :: "scache \<Rightarrow> string \<Rightarrow> int \<Rightarrow> scache" where
  "forget_old c entity old = (case mget (sc_byPos c) old of
     None \<Rightarrow> c
   | Some s \<Rightarrow>
       let s' = s - {entity} in
       if s' = {} then c\<lparr>sc_byPos := mdel old (sc_byPos c), sc_positions := removePosition old (sc_positions c)\<rparr>
       else c\<lparr>sc_byPos := mput old s' (sc_byPos c)\<rparr>)"

definition entityHasChangedLocked :: "scache \<Rightarrow> string \<Rightarrow> int \<Rightarrow> scache" where
  "entityHasChangedLocked c entity pos =
     (if pos \<le> sc_earliest c then c
      else if (\<exists>old \<in> set_option (mget (sc_entityPos c) entity). old \<ge> pos) then c
      else
        let c1 = (case mget (sc_entityPos c) entity of None \<Rightarrow> c | Some old \<Rightarrow> forget_old c entity old);
            c2 = (case mget (sc_byPos c1) pos of
                    Some s \<Rightarrow> c1\<lparr>sc_byPos := mput pos (insert entity s) (sc_byPos c1)\<rparr>
                  | None \<Rightarrow> c1\<lparr>sc_byPos := mput pos {entity} (sc_byPos c1),
                               sc_positions := insertPosition pos (sc_positions c1)\<rparr>);
            c3 = c2\<lparr>sc_entityPos := mput entity pos (sc_entityPos c2)\<rparr>
        in evictLocked c3)"

definition sc_EntityHasChanged :: "scache option \<Rightarrow> string \<Rightarrow> int \<Rightarrow> scache option" where
  "sc_EntityHasChanged p entity pos = (case p of
     None \<Rightarrow> None
   | Some c \<Rightarrow> if sc_max c \<le> 0 \<or> sc_disarmed c then Some c else Some (entityHasChangedLocked c entity pos))"

definition sc_Prefill :: "scache option \<Rightarrow> (string, int) gomap \<Rightarrow> int \<Rightarrow> scache option" where
  "sc_Prefill p entries minPos = (case p of
     None \<Rightarrow> None
   | Some c \<Rightarrow>
       if sc_max c \<le> 0 \<or> sc_disarmed c then Some c
       else Some (fold (\<lambda>(entity, pos) c. entityHasChangedLocked c entity pos) entries
              (c\<lparr>sc_earliest := (if minPos > sc_earliest c then minPos else sc_earliest c)\<rparr>)))"

definition sc_hit :: "scache \<Rightarrow> scache option" where
  "sc_hit c = Some (c\<lparr>sc_hits := sc_hits c + 1\<rparr>)"

definition sc_miss :: "scache \<Rightarrow> scache option" where
  "sc_miss c = Some (c\<lparr>sc_misses := sc_misses c + 1\<rparr>)"

definition sc_HasEntityChanged :: "scache option \<Rightarrow> string \<Rightarrow> int \<Rightarrow> scache option \<times> bool" where
  "sc_HasEntityChanged p entity pos = (case p of
     None \<Rightarrow> (None, True)
   | Some c \<Rightarrow>
       if sc_max c \<le> 0 then (Some c, True)
       else if sc_disarmed c \<or> pos < sc_earliest c then (sc_miss c, True)
       else (case mget (sc_entityPos c) entity of
          None \<Rightarrow> (sc_hit c, False)
        | Some lastPos \<Rightarrow> if pos < lastPos then (sc_miss c, True) else (sc_hit c, False)))"

definition sc_EntitiesChanged :: "scache option \<Rightarrow> string list \<Rightarrow> int \<Rightarrow> scache option \<times> string list" where
  "sc_EntitiesChanged p entities pos = (case p of
     None \<Rightarrow> (None, entities)
   | Some c \<Rightarrow>
       if sc_max c \<le> 0 then (Some c, entities)
       else if sc_disarmed c \<or> pos < sc_earliest c \<or> sc_byPos c = [] then (sc_miss c, entities)
       else (sc_hit c,
             filter (\<lambda>e. case mget (sc_entityPos c) e of None \<Rightarrow> False | Some lastPos \<Rightarrow> lastPos > pos) entities))"

definition sc_HasAnyEntityChanged :: "scache option \<Rightarrow> int \<Rightarrow> scache option \<times> bool" where
  "sc_HasAnyEntityChanged p pos = (case p of
     None \<Rightarrow> (None, True)
   | Some c \<Rightarrow>
       if sc_max c \<le> 0 then (Some c, True)
       else if sc_disarmed c \<or> pos < sc_earliest c then (sc_miss c, True)
       else if sc_positions c = [] then (sc_miss c, False)
       else (sc_hit c, pos < last (sc_positions c)))"

definition sc_MaxPosOfLastChange :: "scache option \<Rightarrow> string \<Rightarrow> int option" where
  "sc_MaxPosOfLastChange p entity = (case p of
     None \<Rightarrow> None
   | Some c \<Rightarrow> if sc_max c \<le> 0 \<or> sc_disarmed c then None else mget (sc_entityPos c) entity)"

definition sc_EarliestKnownPosition :: "scache option \<Rightarrow> int" where
  "sc_EarliestKnownPosition p = (case p of None \<Rightarrow> 0 | Some c \<Rightarrow> sc_earliest c)"

definition sc_AllEntitiesChanged :: "scache option \<Rightarrow> int \<Rightarrow> scache option" where
  "sc_AllEntitiesChanged p pos = map_option (\<lambda>c. resetLocked c pos) p"

definition sc_Arm :: "scache option \<Rightarrow> int \<Rightarrow> scache option" where
  "sc_Arm p currentPos = map_option (\<lambda>c. (resetLocked c currentPos)\<lparr>sc_disarmed := False\<rparr>) p"

definition sc_Disarm :: "scache option \<Rightarrow> scache option" where
  "sc_Disarm p = map_option (\<lambda>c. let c1 = c\<lparr>sc_disarmed := True\<rparr> in resetLocked c1 (sc_earliest c1)) p"

definition sc_Armed :: "scache option \<Rightarrow> bool" where
  "sc_Armed p = (case p of None \<Rightarrow> False | Some c \<Rightarrow> \<not> sc_disarmed c \<and> sc_max c > 0)"

definition sc_Stats :: "scache option \<Rightarrow> sc_stats" where
  "sc_Stats p = (case p of
     None \<Rightarrow> \<lparr>ss_Hits = 0, ss_Misses = 0, ss_Evictions = 0, ss_Entities = 0, ss_Positions = 0,
              ss_Earliest = 0, ss_Armed = False\<rparr>
   | Some c \<Rightarrow> \<lparr>ss_Hits = sc_hits c, ss_Misses = sc_misses c, ss_Evictions = sc_evictions c,
               ss_Entities = length (sc_entityPos c), ss_Positions = length (sc_positions c),
               ss_Earliest = sc_earliest c, ss_Armed = \<not> sc_disarmed c \<and> sc_max c > 0\<rparr>)"

text \<open>
  The loop of \<^verbatim>\<open>CacheDict\<close> over the rows its query returns, newest position first: the first row
  of an entity is kept, and the smallest position is tracked (\<open>None\<close> while \<^verbatim>\<open>first\<close> holds).
\<close>

fun cache_dict_loop :: "(string \<times> int) list \<Rightarrow> (string, int) gomap \<Rightarrow> int option \<Rightarrow> (string, int) gomap \<times> int option" where
  "cache_dict_loop [] m minVal = (m, minVal)"
| "cache_dict_loop ((entity, pos) # rows) m minVal =
     cache_dict_loop rows
       (case mget m entity of None \<Rightarrow> mput entity pos m | Some _ \<Rightarrow> m)
       (case minVal of None \<Rightarrow> Some pos | Some v \<Rightarrow> if pos < v then Some pos else Some v)"

definition CacheDict :: "(string \<times> int) list \<Rightarrow> int \<Rightarrow> (string, int) gomap \<times> int" where
  "CacheDict rows maxValue = (case cache_dict_loop rows [] None of
     (m, None) \<Rightarrow> (m, maxValue)
   | (m, Some v) \<Rightarrow> (m, v + 1))"

text \<open>
  What PostgreSQL returns for \<^verbatim>\<open>SELECT entity, pos FROM table ORDER BY pos DESC LIMIT n\<close>: the first
  \<^verbatim>\<open>n\<close> of the table's rows in some order that is descending in the position. Rows at the same
  position come in any order, and the limit may cut between them.
\<close>

definition latest_rows :: "nat \<Rightarrow> (string \<times> int) list \<Rightarrow> (string \<times> int) list \<Rightarrow> bool" where
  "latest_rows n table rows \<longleftrightarrow>
     (\<exists>all. set all = set table \<and> sorted_wrt (\<lambda>a b. snd a \<ge> snd b) all \<and> rows = take n all)"

section \<open>Binary search\<close>

lemma sort_search_spec:
  assumes "i \<le> j" and "j \<le> n" and "\<And>a b. a \<le> b \<Longrightarrow> b < n \<Longrightarrow> f a \<Longrightarrow> f b"
    and "\<And>k. k < i \<Longrightarrow> \<not> f k" and "\<And>k. j \<le> k \<Longrightarrow> k < n \<Longrightarrow> f k"
  shows "sort_search f i j \<le> n \<and> (\<forall>k < sort_search f i j. \<not> f k) \<and>
    (\<forall>k. sort_search f i j \<le> k \<and> k < n \<longrightarrow> f k)"
  using assms
proof (induction f i j rule: sort_search.induct)
  case (1 f i j)
  let ?h = "(i + j) div 2"
  show ?case
  proof (cases "i < j")
    case False
    then have "sort_search f i j = i" by (simp add: sort_search.simps [of f i j])
    moreover from False "1.prems"(1) have "j = i" by simp
    ultimately show ?thesis using "1.prems"(2,4,5) by simp
  next
    case True
    then have h: "i \<le> ?h" "?h < j" by auto
    show ?thesis
    proof (cases "f ?h")
      case fh: True
      have "sort_search f i ?h \<le> n \<and> (\<forall>k < sort_search f i ?h. \<not> f k) \<and>
          (\<forall>k. sort_search f i ?h \<le> k \<and> k < n \<longrightarrow> f k)"
      proof (rule "1.IH"(2) [OF True refl])
        show "f k" if "?h \<le> k" "k < n" for k using "1.prems"(3) that fh by blast
      qed (use fh h "1.prems" in \<open>auto\<close>)
      with True fh show ?thesis by (simp add: sort_search.simps [of f i j] Let_def)
    next
      case fh: False
      have "sort_search f (Suc ?h) j \<le> n \<and> (\<forall>k < sort_search f (Suc ?h) j. \<not> f k) \<and>
          (\<forall>k. sort_search f (Suc ?h) j \<le> k \<and> k < n \<longrightarrow> f k)"
      proof (rule "1.IH"(1) [OF True refl])
        show "\<not> f k" if "k < Suc ?h" for k
          using "1.prems"(3) [of k ?h] "1.prems"(2) that fh h by (auto simp: less_Suc_eq_le)
      qed (use fh h "1.prems" in \<open>auto\<close>)
      with True fh show ?thesis by (simp add: sort_search.simps [of f i j] Let_def)
    qed
  qed
qed

lemma search_sorted:
  fixes ps :: "int list"
  assumes "sorted_wrt (<) ps" and "i = sort_search (\<lambda>i. ps ! i \<ge> pos) 0 (length ps)"
  shows "i \<le> length ps" and "\<forall>x \<in> set (take i ps). x < pos" and "\<forall>x \<in> set (drop i ps). pos \<le> x"
proof -
  have mono: "ps ! a \<le> ps ! b" if "a \<le> b" "b < length ps" for a b
    using assms(1) that by (cases "a = b") (auto simp: sorted_wrt_iff_nth_less intro: less_imp_le)
  have "i \<le> length ps \<and> (\<forall>k < i. \<not> ps ! k \<ge> pos) \<and> (\<forall>k. i \<le> k \<and> k < length ps \<longrightarrow> ps ! k \<ge> pos)"
    unfolding assms(2) by (rule sort_search_spec) (auto intro: mono order_trans)
  then show "i \<le> length ps" and "\<forall>x \<in> set (take i ps). x < pos" and "\<forall>x \<in> set (drop i ps). pos \<le> x"
    by (auto simp: in_set_conv_nth not_le)
qed

lemma insertPosition_spec:
  assumes "sorted_wrt (<) ps" and "pos \<notin> set ps"
  shows "sorted_wrt (<) (insertPosition pos ps)" and "set (insertPosition pos ps) = insert pos (set ps)"
    and "length (insertPosition pos ps) = Suc (length ps)"
proof -
  let ?i = "sort_search (\<lambda>i. ps ! i \<ge> pos) 0 (length ps)"
  note s = search_sorted [OF assms(1) refl, of pos]
  have split: "set ps = set (take ?i ps) \<union> set (drop ?i ps)"
    by (metis append_take_drop_id set_append)
  have "sorted_wrt (<) (take ?i ps @ drop ?i ps)" using assms(1) by simp
  then have parts: "sorted_wrt (<) (take ?i ps)" "sorted_wrt (<) (drop ?i ps)"
    "\<forall>x \<in> set (take ?i ps). \<forall>y \<in> set (drop ?i ps). x < y"
    unfolding sorted_wrt_append by blast+
  have "\<forall>x \<in> set (drop ?i ps). pos < x"
    using s(3) assms(2) by (metis in_set_dropD order_le_less)
  with parts s(2) have search: "sorted_wrt (<) (take ?i ps @ pos # drop ?i ps)"
    by (simp add: sorted_wrt_append)
  have tail: "sorted_wrt (<) (ps @ [pos])" if "ps = [] \<or> last ps < pos"
    using assms(1) that by (cases ps rule: rev_cases) (auto simp: sorted_wrt_append)
  show "sorted_wrt (<) (insertPosition pos ps)"
    using search tail by (simp add: insertPosition_def Let_def)
  show "set (insertPosition pos ps) = insert pos (set ps)"
    using split by (auto simp: insertPosition_def Let_def)
  show "length (insertPosition pos ps) = Suc (length ps)"
    using s(1) by (simp add: insertPosition_def Let_def)
qed

lemma removePosition_spec:
  assumes "sorted_wrt (<) ps" and "pos \<in> set ps"
  shows "sorted_wrt (<) (removePosition pos ps)" and "set (removePosition pos ps) = set ps - {pos}"
    and "Suc (length (removePosition pos ps)) = length ps"
proof -
  let ?i = "sort_search (\<lambda>i. ps ! i \<ge> pos) 0 (length ps)"
  note s = search_sorted [OF assms(1) refl, of pos]
  have "set ps = set (take ?i ps) \<union> set (drop ?i ps)"
    by (metis append_take_drop_id set_append)
  with assms(2) s(2) have mem: "pos \<in> set (drop ?i ps)" by (metis Un_iff less_irrefl)
  then have lt: "?i < length ps" by (cases "?i < length ps") auto
  have dr: "drop ?i ps = ps ! ?i # drop (Suc ?i) ps" using lt by (rule Cons_nth_drop_Suc [symmetric])
  have srt: "sorted_wrt (<) (take ?i ps @ ps ! ?i # drop (Suc ?i) ps)"
    using assms(1) id_take_nth_drop [OF lt] by simp
  have after: "\<forall>x \<in> set (drop (Suc ?i) ps). ps ! ?i < x"
    using srt by (simp add: sorted_wrt_append)
  have "pos \<le> ps ! ?i" using s(3) dr by (metis list.set_intros(1))
  moreover have "pos = ps ! ?i \<or> pos \<in> set (drop (Suc ?i) ps)" using mem dr by (metis set_ConsD)
  ultimately have eq: "ps ! ?i = pos" using after by (metis leD)
  have rm: "removePosition pos ps = take ?i ps @ drop (Suc ?i) ps"
    using lt eq by (simp add: removePosition_def Let_def)
  show "sorted_wrt (<) (removePosition pos ps)"
    using srt by (simp add: rm sorted_wrt_append)
  have "set ps = set (take ?i ps) \<union> {pos} \<union> set (drop (Suc ?i) ps)"
    using id_take_nth_drop [OF lt] eq by (metis Un_assoc Un_insert_left list.simps(15) set_append sup_bot_left)
  moreover have "pos \<notin> set (take ?i ps)" "pos \<notin> set (drop (Suc ?i) ps)"
    using s(2) srt eq by (auto simp: sorted_wrt_append)
  ultimately show "set (removePosition pos ps) = set ps - {pos}"
    by (auto simp: rm)
  show "Suc (length (removePosition pos ps)) = length ps"
    using lt by (simp add: rm)
qed


section \<open>The representation invariant\<close>

text \<open>
  \<open>sc_byPos\<close> is the inverse image of the map from entities to positions, and \<open>sc_positions\<close>
  lists its keys in ascending order.
\<close>

definition inverse_at :: "(string \<Rightarrow> int option) \<Rightarrow> int \<Rightarrow> string set option" where
  "inverse_at M p = (let s = {e. M e = Some p} in if s = {} then None else Some s)"

definition indexed :: "scache \<Rightarrow> (string \<Rightarrow> int option) \<Rightarrow> bool" where
  "indexed c M \<longleftrightarrow> mwf (sc_byPos c) \<and> sorted_wrt (<) (sc_positions c) \<and>
     set (sc_positions c) = fst ` set (sc_byPos c) \<and> (\<forall>p. mget (sc_byPos c) p = inverse_at M p)"

definition sc_core :: "scache \<Rightarrow> bool" where
  "sc_core c \<longleftrightarrow> mwf (sc_entityPos c) \<and> indexed c (mget (sc_entityPos c)) \<and>
     (\<forall>e p. mget (sc_entityPos c) e = Some p \<longrightarrow> sc_earliest c < p)"

definition sc_inv :: "scache \<Rightarrow> bool" where
  "sc_inv c \<longleftrightarrow> sc_core c \<and> (0 < sc_max c \<longrightarrow> int (length (sc_positions c)) \<le> sc_max c) \<and>
     (sc_disarmed c \<longrightarrow> sc_entityPos c = [] \<and> sc_byPos c = [] \<and> sc_positions c = [])"

lemma indexed_positions: "indexed c M \<Longrightarrow> (p \<in> set (sc_positions c)) = (\<exists>e. M e = Some p)"
proof -
  assume ix: "indexed c M"
  then have "set (sc_positions c) = fst ` set (sc_byPos c)" by (simp add: indexed_def)
  then have "(p \<in> set (sc_positions c)) = (mget (sc_byPos c) p \<noteq> None)"
    by (simp only: map_of_eq_None_iff not_not)
  also have "\<dots> = (\<exists>e. M e = Some p)"
    using ix by (auto simp: indexed_def inverse_at_def Let_def)
  finally show ?thesis .
qed

lemma indexed_byPos: "indexed c M \<Longrightarrow> mgetz {} (sc_byPos c) p = {e. M e = Some p}"
  by (auto simp: indexed_def mgetz_def inverse_at_def Let_def)

lemma inverse_at_upd: "M e \<noteq> Some p \<Longrightarrow> v \<noteq> Some p \<Longrightarrow> inverse_at (M(e := v)) p = inverse_at M p"
proof -
  assume "M e \<noteq> Some p" "v \<noteq> Some p"
  then have "{x. (M(e := v)) x = Some p} = {x. M x = Some p}" by (auto split: if_splits)
  then show ?thesis by (simp add: inverse_at_def)
qed

lemma forget_old_indexed:
  assumes ix: "indexed c M" and old: "M e = Some old"
  shows "indexed (forget_old c e old) (M(e := None))"
proof -
  let ?s = "{x. M x = Some old}" and ?M = "M(e := None)"
  have get: "mget (sc_byPos c) old = Some ?s"
    using ix old by (auto simp: indexed_def inverse_at_def Let_def)
  have other: "inverse_at ?M p = inverse_at M p" if "p \<noteq> old" for p
    by (rule inverse_at_upd) (use that old in auto)
  have here: "inverse_at ?M old = (if ?s - {e} = {} then None else Some (?s - {e}))"
    by (auto simp: inverse_at_def Let_def)
  have mem: "old \<in> set (sc_positions c)" using indexed_positions [OF ix] old by blast
  have srt: "sorted_wrt (<) (sc_positions c)" using ix by (simp add: indexed_def)
  note rm = removePosition_spec [OF srt mem]
  have keys: "set (sc_positions c) = fst ` set (sc_byPos c)" using ix by (simp add: indexed_def)
  then have keep: "insert old (fst ` set (sc_byPos c)) = fst ` set (sc_byPos c)" using mem by auto
  show ?thesis
  proof (cases "?s - {e} = {}")
    case True
    then have "forget_old c e old = c\<lparr>sc_byPos := mdel old (sc_byPos c),
        sc_positions := removePosition old (sc_positions c)\<rparr>"
      by (simp add: forget_old_def get Let_def)
    with True ix rm(1,2) other here keys show ?thesis by (simp add: indexed_def)
  next
    case False
    then have "forget_old c e old = c\<lparr>sc_byPos := mput old (?s - {e}) (sc_byPos c)\<rparr>"
      by (simp add: forget_old_def get Let_def)
    with False ix other here keys keep show ?thesis by (simp add: indexed_def)
  qed
qed

text \<open>Putting an entity without a position under its new one, as the second half of the update does.\<close>

definition file_under :: "scache \<Rightarrow> string \<Rightarrow> int \<Rightarrow> scache" where
  "file_under c e pos = (case mget (sc_byPos c) pos of
     Some s \<Rightarrow> c\<lparr>sc_byPos := mput pos (insert e s) (sc_byPos c)\<rparr>
   | None \<Rightarrow> c\<lparr>sc_byPos := mput pos {e} (sc_byPos c), sc_positions := insertPosition pos (sc_positions c)\<rparr>)"

lemma file_under_indexed:
  assumes ix: "indexed c M" and new: "M e = None"
  shows "indexed (file_under c e pos) (M(e \<mapsto> pos))"
proof -
  let ?s = "{x. M x = Some pos}" and ?M = "M(e \<mapsto> pos)"
  have here: "inverse_at ?M pos = Some (insert e ?s)"
    by (auto simp: inverse_at_def Let_def)
  have other: "inverse_at ?M p = inverse_at M p" if "p \<noteq> pos" for p
    by (rule inverse_at_upd) (use that new in auto)
  have srt: "sorted_wrt (<) (sc_positions c)" and keys: "set (sc_positions c) = fst ` set (sc_byPos c)"
    using ix by (simp_all add: indexed_def)
  show ?thesis
  proof (cases "?s = {}")
    case True
    then have "mget (sc_byPos c) pos = None" using ix by (simp add: indexed_def inverse_at_def)
    then have "file_under c e pos = c\<lparr>sc_byPos := mput pos {e} (sc_byPos c),
        sc_positions := insertPosition pos (sc_positions c)\<rparr>" by (simp add: file_under_def)
    moreover have "pos \<notin> set (sc_positions c)" using indexed_positions [OF ix] True by blast
    note insertPosition_spec [OF srt this]
    ultimately show ?thesis using True ix other here keys by (simp add: indexed_def)
  next
    case False
    then have "mget (sc_byPos c) pos = Some ?s" using ix by (simp add: indexed_def inverse_at_def)
    then have "file_under c e pos = c\<lparr>sc_byPos := mput pos (insert e ?s) (sc_byPos c)\<rparr>"
      by (simp add: file_under_def)
    moreover have "insert pos (fst ` set (sc_byPos c)) = fst ` set (sc_byPos c)"
      using False indexed_positions [OF ix, of pos] keys by auto
    ultimately show ?thesis using ix other here keys by (simp add: indexed_def)
  qed
qed

section \<open>Truncated histories\<close>

text \<open>
  \<open>bump\<close> is the full record of latest changes, \<open>above h\<close> what is left of it past a horizon:
  recording a change is \<open>bump\<close>, then truncation at the horizon the eviction reached.
\<close>

definition bump :: "(string \<Rightarrow> int option) \<Rightarrow> string \<Rightarrow> int \<Rightarrow> string \<Rightarrow> int option" where
  "bump M e p = M(e \<mapsto> (case M e of None \<Rightarrow> p | Some old \<Rightarrow> max old p))"

definition above :: "int \<Rightarrow> (string \<Rightarrow> int option) \<Rightarrow> string \<Rightarrow> int option" where
  "above h M e = (case M e of None \<Rightarrow> None | Some p \<Rightarrow> if h < p then Some p else None)"

lemma above_Some [simp]: "(above h M e = Some p) = (M e = Some p \<and> h < p)"
  by (auto simp: above_def split: option.splits)

lemma above_above [simp]: "h \<le> h' \<Longrightarrow> above h' (above h M) = above h' M"
  by (auto simp: above_def fun_eq_iff split: option.splits)

lemma above_id: "(\<And>e p. M e = Some p \<Longrightarrow> h < p) \<Longrightarrow> above h M = M"
  by (auto simp: above_def fun_eq_iff split: option.splits)

lemma above_bump_above [simp]: "above h (bump (above h M) e p) = above h (bump M e p)"
  by (auto simp: above_def bump_def fun_eq_iff max_def split: option.splits)

lemma above_bump_below: "p \<le> h \<Longrightarrow> above h (bump M e p) = above h M"
  by (auto simp: above_def bump_def fun_eq_iff max_def split: option.splits)

lemma above_bump_above_le: "h \<le> h' \<Longrightarrow> above h' (bump (above h M) e p) = above h' (bump M e p)"
  by (metis above_above above_bump_above)

lemma sc_core_above: "sc_core c \<Longrightarrow> above (sc_earliest c) (mget (sc_entityPos c)) = mget (sc_entityPos c)"
  by (rule above_id) (auto simp: sc_core_def)

lemma map_of_filter_val:
  "mwf m \<Longrightarrow> mget (filter (\<lambda>(k, v). P k v) m) k = (case mget m k of None \<Rightarrow> None | Some v \<Rightarrow> if P k v then Some v else None)"
  by (induction m) (auto split: option.splits dest: map_of_SomeD intro: map_of_eq_None_iff [THEN iffD2] simp: rev_image_eqI)

lemma evict_one_core:
  assumes core: "sc_core c" and ps: "sc_positions c = k # ps"
    and c': "c' = c\<lparr>sc_positions := ps,
      sc_entityPos := filter (\<lambda>(e, p). \<not> (e \<in> mgetz {} (sc_byPos c) k \<and> p = k)) (sc_entityPos c),
      sc_byPos := mdel k (sc_byPos c),
      sc_earliest := (if k > sc_earliest c then k else sc_earliest c),
      sc_evictions := sc_evictions c + 1\<rparr>"
  shows "sc_core c'" and "sc_earliest c' = k" and "sc_earliest c < k"
    and "mget (sc_entityPos c') = above k (mget (sc_entityPos c))"
proof -
  let ?M = "mget (sc_entityPos c)"
  have ix: "indexed c ?M" and wf: "mwf (sc_entityPos c)" using core by (simp_all add: sc_core_def)
  have in_pos: "p \<in> set (k # ps)" if "?M e = Some p" for e p
    using indexed_positions [OF ix] that ps by auto
  have srt: "sorted_wrt (<) (k # ps)" using ix ps by (simp add: indexed_def)
  have low: "k \<le> p" if "?M e = Some p" for e p
    using in_pos [OF that] srt by auto
  show M': "mget (sc_entityPos c') = above k ?M"
    using low by (force simp: c' fun_eq_iff map_of_filter_val [OF wf] above_def indexed_byPos [OF ix] split: option.splits)
  obtain e0 where "?M e0 = Some k" using indexed_positions [OF ix, of k] ps by auto
  then show hk: "sc_earliest c < k" using core by (auto simp: sc_core_def)
  then show h': "sc_earliest c' = k" by (simp add: c')
  have inv: "inverse_at (above k ?M) p = (if p = k then None else inverse_at ?M p)" for p
  proof (cases "p = k")
    case False
    then have "{e. above k ?M e = Some p} = {e. ?M e = Some p}" using low by fastforce
    with False show ?thesis by (simp add: inverse_at_def)
  qed (simp add: inverse_at_def)
  have "set ps = fst ` set (mdel k (sc_byPos c))"
    using ix ps srt by (auto simp: indexed_def)
  with ix srt ps inv have "indexed c' (above k ?M)" by (simp add: indexed_def c')
  with M' wf h' show "sc_core c'" by (simp add: sc_core_def c' mwf_filter)
qed

lemma evictLocked_frame [simp]:
  "sc_max (evictLocked c) = sc_max c" "sc_disarmed (evictLocked c) = sc_disarmed c"
  "sc_name (evictLocked c) = sc_name c"
proof -
  have "sc_max (evictLocked c) = sc_max c \<and> sc_disarmed (evictLocked c) = sc_disarmed c \<and>
      sc_name (evictLocked c) = sc_name c"
  proof (induction c rule: evictLocked.induct)
    case (1 c)
    show ?case
    proof (cases "sc_positions c")
      case Nil
      then show ?thesis by (simp add: evictLocked.simps [of c])
    next
      case (Cons k ps)
      with "1.IH" [OF Cons] show ?thesis
        by (cases "int (length (sc_positions c)) > sc_max c") (simp_all add: evictLocked.simps [of c])
    qed
  qed
  then show "sc_max (evictLocked c) = sc_max c" "sc_disarmed (evictLocked c) = sc_disarmed c"
    "sc_name (evictLocked c) = sc_name c" by simp_all
qed

lemma evictLocked_spec:
  assumes "sc_core c" and "0 < sc_max c"
  shows "sc_core (evictLocked c) \<and> int (length (sc_positions (evictLocked c))) \<le> sc_max c \<and>
    sc_earliest c \<le> sc_earliest (evictLocked c) \<and>
    mget (sc_entityPos (evictLocked c)) = above (sc_earliest (evictLocked c)) (mget (sc_entityPos c))"
  using assms
proof (induction c rule: evictLocked.induct)
  case (1 c)
  show ?case
  proof (cases "sc_positions c")
    case Nil
    with "1.prems" show ?thesis by (simp add: evictLocked.simps [of c] sc_core_above)
  next
    case (Cons k ps)
    show ?thesis
    proof (cases "int (length (sc_positions c)) > sc_max c")
      case False
      with Cons "1.prems" show ?thesis by (simp add: evictLocked.simps [of c] sc_core_above)
    next
      case True
      let ?c' = "c\<lparr>sc_positions := ps,
        sc_entityPos := filter (\<lambda>(e, p). \<not> (e \<in> mgetz {} (sc_byPos c) k \<and> p = k)) (sc_entityPos c),
        sc_byPos := mdel k (sc_byPos c),
        sc_earliest := (if k > sc_earliest c then k else sc_earliest c),
        sc_evictions := sc_evictions c + 1\<rparr>"
      note one = evict_one_core [OF "1.prems"(1) Cons refl]
      have ev: "evictLocked c = evictLocked ?c'"
        using True Cons by (simp add: evictLocked.simps [of c])
      have ih: "sc_core (evictLocked ?c') \<and> int (length (sc_positions (evictLocked ?c'))) \<le> sc_max ?c' \<and>
          sc_earliest ?c' \<le> sc_earliest (evictLocked ?c') \<and>
          mget (sc_entityPos (evictLocked ?c')) = above (sc_earliest (evictLocked ?c')) (mget (sc_entityPos ?c'))"
        by (rule "1.IH" [OF Cons True]) (use one(1) "1.prems"(2) in simp_all)
      show ?thesis
        unfolding ev using ih one(2-4) by simp
    qed
  qed
qed

lemma entityHasChangedLocked_unfold:
  assumes "sc_earliest c < pos" and "\<And>old. mget (sc_entityPos c) e = Some old \<Longrightarrow> old < pos"
  shows "entityHasChangedLocked c e pos = evictLocked
    ((file_under (case mget (sc_entityPos c) e of None \<Rightarrow> c | Some old \<Rightarrow> forget_old c e old) e pos)
      \<lparr>sc_entityPos := mput e pos (sc_entityPos c)\<rparr>)"
proof (cases "mget (sc_entityPos c) e")
  case None
  with assms show ?thesis
    by (simp add: entityHasChangedLocked_def file_under_def Let_def split: option.split)
next
  case (Some old)
  have "sc_entityPos (forget_old c e old) = sc_entityPos c"
    by (simp add: forget_old_def Let_def split: option.split)
  moreover from assms(2) [OF Some] assms(1) Some have "\<not> old \<ge> pos" by simp
  ultimately show ?thesis
    using assms(1) Some
    by (simp add: entityHasChangedLocked_def file_under_def Let_def split: option.split)
qed

lemma forget_old_frame [simp]:
  "sc_max (forget_old c e old) = sc_max c" "sc_disarmed (forget_old c e old) = sc_disarmed c"
  "sc_name (forget_old c e old) = sc_name c" "sc_earliest (forget_old c e old) = sc_earliest c"
  by (simp_all add: forget_old_def Let_def split: option.split)

lemma file_under_frame [simp]:
  "sc_max (file_under c e p) = sc_max c" "sc_disarmed (file_under c e p) = sc_disarmed c"
  "sc_name (file_under c e p) = sc_name c" "sc_earliest (file_under c e p) = sc_earliest c"
  by (simp_all add: file_under_def split: option.split)

lemma indexed_upd_entityPos [simp]: "indexed (c\<lparr>sc_entityPos := m\<rparr>) M = indexed c M"
  by (simp add: indexed_def)

lemma entityHasChangedLocked_spec:
  assumes core: "sc_core c" and mx: "0 < sc_max c" and len: "int (length (sc_positions c)) \<le> sc_max c"
    and c': "c' = entityHasChangedLocked c e pos"
  shows "sc_core c' \<and> int (length (sc_positions c')) \<le> sc_max c' \<and> sc_earliest c \<le> sc_earliest c' \<and>
    sc_max c' = sc_max c \<and> sc_disarmed c' = sc_disarmed c \<and>
    mget (sc_entityPos c') = above (sc_earliest c') (bump (mget (sc_entityPos c)) e pos)"
proof -
  let ?M = "mget (sc_entityPos c)"
  consider (below) "pos \<le> sc_earliest c"
    | (stale) old where "sc_earliest c < pos" "?M e = Some old" "pos \<le> old"
    | (new) "sc_earliest c < pos" "\<And>old. ?M e = Some old \<Longrightarrow> old < pos"
    by (cases "pos \<le> sc_earliest c"; cases "?M e") force+
  then show ?thesis
  proof cases
    case below
    then have "c' = c" by (simp add: c' entityHasChangedLocked_def)
    with below core len show ?thesis by (simp add: above_bump_below sc_core_above)
  next
    case stale
    then have "c' = c" by (simp add: c' entityHasChangedLocked_def)
    moreover have "bump ?M e pos = ?M" using stale by (auto simp: bump_def max_def)
    ultimately show ?thesis using core len by (simp add: sc_core_above)
  next
    case new
    let ?c1 = "case ?M e of None \<Rightarrow> c | Some old \<Rightarrow> forget_old c e old"
    let ?c3 = "(file_under ?c1 e pos)\<lparr>sc_entityPos := mput e pos (sc_entityPos c)\<rparr>"
    have ix: "indexed c ?M" using core by (simp add: sc_core_def)
    have "indexed ?c1 (?M(e := None))"
      using ix forget_old_indexed [OF ix] by (cases "?M e") (auto simp: fun_upd_idem)
    then have "indexed (file_under ?c1 e pos) ((?M(e := None))(e \<mapsto> pos))"
      by (rule file_under_indexed) simp
    moreover have "mget (sc_entityPos ?c3) = (?M(e := None))(e \<mapsto> pos)" by (rule ext) simp
    ultimately have ix3: "indexed ?c3 (mget (sc_entityPos ?c3))"
      by (simp only: indexed_upd_entityPos)
    have fr: "sc_max ?c3 = sc_max c" "sc_disarmed ?c3 = sc_disarmed c" "sc_earliest ?c3 = sc_earliest c"
      by (simp_all split: option.split)
    have "sc_core ?c3"
      using ix3 core new(1) fr(3) by (auto simp: sc_core_def)
    note ev = evictLocked_spec [OF this]
    have c'': "c' = evictLocked ?c3" unfolding c' by (rule entityHasChangedLocked_unfold [OF new])
    have "mget (sc_entityPos ?c3) = bump ?M e pos"
      using new(2) by (auto simp: bump_def update_conv' max_def split: option.split)
    with ev fr mx show ?thesis unfolding c'' by simp
  qed
qed

lemma sc_inv_reset [simp]: "sc_inv (resetLocked c pos)"
  by (simp add: sc_inv_def resetLocked_def sc_core_def indexed_def inverse_at_def)

lemma sc_inv_arm [simp]: "sc_inv ((resetLocked c pos)\<lparr>sc_disarmed := b\<rparr>)"
  by (simp add: sc_inv_def resetLocked_def sc_core_def indexed_def inverse_at_def)

lemma sc_inv_New [simp]: "sc_inv (sc_New name pos m)"
  by (simp add: sc_inv_def sc_New_def sc_core_def indexed_def inverse_at_def)

lemma resetLocked_frame [simp]:
  "sc_max (resetLocked c pos) = sc_max c" "sc_disarmed (resetLocked c pos) = sc_disarmed c"
  "sc_entityPos (resetLocked c pos) = []" "sc_positions (resetLocked c pos) = []"
  "sc_earliest (resetLocked c pos) = max (sc_earliest c) pos"
  by (simp_all add: resetLocked_def)

lemma sc_inv_counters [simp]:
  "sc_inv (c\<lparr>sc_hits := h\<rparr>) = sc_inv c" "sc_inv (c\<lparr>sc_misses := m\<rparr>) = sc_inv c"
  by (simp_all add: sc_inv_def sc_core_def indexed_def)

lemma above_fold_bump:
  "h0 \<le> h \<Longrightarrow> above h (fold (\<lambda>(e, q) M. bump M e q) es (above h0 M)) =
    above h (fold (\<lambda>(e, q) M. bump M e q) es M)"
proof (induction es arbitrary: M h0)
  case (Cons x es)
  obtain e q where x: "x = (e, q)" by (cases x)
  let ?F = "fold (\<lambda>(e, q) M. bump M e q) es"
  have "above h (?F (bump (above h0 M) e q)) = above h (?F (above h (bump (above h0 M) e q)))"
    by (rule Cons.IH [symmetric]) simp
  also have "above h (bump (above h0 M) e q) = above h (bump M e q)"
    using Cons.prems by (rule above_bump_above_le)
  also have "above h (?F (above h (bump M e q))) = above h (?F (bump M e q))"
    by (rule Cons.IH) simp
  finally show ?case by (simp add: x)
qed simp

lemma prefill_fold:
  assumes "sc_core c" and "0 < sc_max c" and "int (length (sc_positions c)) \<le> sc_max c"
    and "c' = fold (\<lambda>(e, q) c. entityHasChangedLocked c e q) es c"
  shows "sc_core c' \<and> int (length (sc_positions c')) \<le> sc_max c' \<and> sc_earliest c \<le> sc_earliest c' \<and>
    sc_max c' = sc_max c \<and> sc_disarmed c' = sc_disarmed c \<and>
    mget (sc_entityPos c') = above (sc_earliest c') (fold (\<lambda>(e, q) M. bump M e q) es (mget (sc_entityPos c)))"
  using assms
proof (induction es arbitrary: c)
  case Nil
  then show ?case by (simp add: sc_core_above)
next
  case (Cons eq es)
  obtain e q where eq: "eq = (e, q)" by (cases eq)
  let ?c1 = "entityHasChangedLocked c e q"
  note one = entityHasChangedLocked_spec [OF Cons.prems(1-3) refl, of e q]
  have "sc_core c' \<and> int (length (sc_positions c')) \<le> sc_max c' \<and> sc_earliest ?c1 \<le> sc_earliest c' \<and>
    sc_max c' = sc_max ?c1 \<and> sc_disarmed c' = sc_disarmed ?c1 \<and>
    mget (sc_entityPos c') = above (sc_earliest c') (fold (\<lambda>(e, q) M. bump M e q) es (mget (sc_entityPos ?c1)))"
    by (rule Cons.IH) (use one Cons.prems eq in simp_all)
  moreover from one this have "above (sc_earliest c') (fold (\<lambda>(e, q) M. bump M e q) es (mget (sc_entityPos ?c1))) =
      above (sc_earliest c') (fold (\<lambda>(e, q) M. bump M e q) es (bump (mget (sc_entityPos c)) e q))"
    using above_fold_bump [of "sc_earliest ?c1" "sc_earliest c'"] by simp
  ultimately show ?case using one eq by (simp only: fold.simps o_apply case_prod_conv) simp
qed

lemma bump_ge: "(\<exists>p. M e = Some p \<and> q \<le> p) \<Longrightarrow> \<exists>p. bump M e' q' e = Some p \<and> q \<le> p"
  by (auto simp: bump_def)

lemma fold_bump_ge:
  "(e, q) \<in> set es \<or> (\<exists>p. M e = Some p \<and> q \<le> p) \<Longrightarrow>
    \<exists>p. fold (\<lambda>(e, q) M. bump M e q) es M e = Some p \<and> q \<le> p"
proof (induction es arbitrary: M)
  case (Cons x es)
  obtain e' q' where x: "x = (e', q')" by (cases x)
  have "(e, q) \<in> set es \<or> (\<exists>p. bump M e' q' e = Some p \<and> q \<le> p)"
    using Cons.prems x bump_ge [of M e q e' q'] by (auto simp: bump_def split: option.split)
  from Cons.IH [of "bump M e' q'", OF this] x show ?case by simp
qed simp

lemma fold_bump_from:
  "fold (\<lambda>(e, q) M. bump M e q) es M e = Some p \<Longrightarrow> (e, p) \<in> set es \<or> M e = Some p"
proof (induction es arbitrary: M)
  case (Cons x es)
  obtain e' q' where x: "x = (e', q')" by (cases x)
  with Cons.prems have "(e, p) \<in> set es \<or> bump M e' q' e = Some p" by (intro Cons.IH) simp
  then show ?case using x by (auto simp: bump_def max_def split: if_splits option.splits)
qed simp

section \<open>Operations in sequence\<close>

text \<open>
  \<open>ScSeed\<close> is the pair of calls \<^verbatim>\<open>PrefillStreamCaches\<close> makes, \<^verbatim>\<open>Arm(minPos)\<close> and then
  \<^verbatim>\<open>Prefill(entries, minPos)\<close>, with nothing in between.
\<close>

datatype sc_op =
    ScChange string int
  | ScSeed "(string, int) gomap" int
  | ScAll int
  | ScArm int
  | ScDisarm
  | ScAskOne string int
  | ScAskMany "string list" int
  | ScAskAny int

fun sc_step :: "sc_op \<Rightarrow> scache option \<Rightarrow> scache option" where
  "sc_step (ScChange e q) p = sc_EntityHasChanged p e q"
| "sc_step (ScSeed es q) p = sc_Prefill (sc_Arm p q) es q"
| "sc_step (ScAll q) p = sc_AllEntitiesChanged p q"
| "sc_step (ScArm q) p = sc_Arm p q"
| "sc_step ScDisarm p = sc_Disarm p"
| "sc_step (ScAskOne e q) p = fst (sc_HasEntityChanged p e q)"
| "sc_step (ScAskMany es q) p = fst (sc_EntitiesChanged p es q)"
| "sc_step (ScAskAny q) p = fst (sc_HasAnyEntityChanged p q)"

lemma sc_core_raise:
  "sc_core c \<Longrightarrow> (\<And>e p. mget (sc_entityPos c) e = Some p \<Longrightarrow> h < p) \<Longrightarrow> sc_core (c\<lparr>sc_earliest := h\<rparr>)"
  by (auto simp: sc_core_def indexed_def)

lemma sc_change_inv:
  assumes "sc_inv c"
  obtains c' where "sc_EntityHasChanged (Some c) e q = Some c'" and "sc_inv c'"
    and "sc_earliest c \<le> sc_earliest c'" and "sc_max c' = sc_max c" and "sc_disarmed c' = sc_disarmed c"
    and "0 < sc_max c \<Longrightarrow> \<not> sc_disarmed c \<Longrightarrow>
      mget (sc_entityPos c') = above (sc_earliest c') (bump (mget (sc_entityPos c)) e q)"
proof (cases "sc_max c \<le> 0 \<or> sc_disarmed c")
  case True
  with assms show ?thesis by (intro that [of c]) (auto simp: sc_EntityHasChanged_def)
next
  case False
  then have "sc_core c" "0 < sc_max c" "int (length (sc_positions c)) \<le> sc_max c"
    using assms by (auto simp: sc_inv_def)
  note spec = entityHasChangedLocked_spec [OF this refl, of e q]
  with False show ?thesis
    by (intro that [of "entityHasChangedLocked c e q"]) (auto simp: sc_EntityHasChanged_def sc_inv_def)
qed

text \<open>Prefilling a cache whose horizon is already at \<open>minPos\<close>, as it is right after \<^verbatim>\<open>Arm(minPos)\<close>.\<close>

lemma sc_prefill_inv:
  assumes "sc_inv c" and "minPos \<le> sc_earliest c"
  obtains c' where "sc_Prefill (Some c) es minPos = Some c'" and "sc_inv c'"
    and "sc_earliest c \<le> sc_earliest c'" and "sc_max c' = sc_max c" and "sc_disarmed c' = sc_disarmed c"
    and "0 < sc_max c \<Longrightarrow> \<not> sc_disarmed c \<Longrightarrow>
      mget (sc_entityPos c') = above (sc_earliest c') (fold (\<lambda>(e, q) M. bump M e q) es (mget (sc_entityPos c)))"
proof (cases "sc_max c \<le> 0 \<or> sc_disarmed c")
  case True
  with assms show ?thesis by (intro that [of c]) (auto simp: sc_Prefill_def)
next
  case False
  then have c: "sc_core c" "0 < sc_max c" "int (length (sc_positions c)) \<le> sc_max c"
    using assms by (auto simp: sc_inv_def)
  note spec = prefill_fold [OF c refl, of es]
  have "sc_Prefill (Some c) es minPos = Some (fold (\<lambda>(e, q) c. entityHasChangedLocked c e q) es c)"
    using False assms(2) by (simp add: sc_Prefill_def)
  with False spec show ?thesis
    by (intro that [of "fold (\<lambda>(e, q) c. entityHasChangedLocked c e q) es c"]) (auto simp: sc_inv_def)
qed

lemma sc_seed_inv:
  assumes "sc_inv c"
  obtains c' where "sc_Prefill (sc_Arm (Some c) q) es q = Some c'" and "sc_inv c'" and "\<not> sc_disarmed c'"
    and "sc_earliest c \<le> sc_earliest c'" and "q \<le> sc_earliest c'" and "sc_max c' = sc_max c"
    and "0 < sc_max c \<Longrightarrow> mget (sc_entityPos c') = above (sc_earliest c') (fold (\<lambda>(e, q) M. bump M e q) es (\<lambda>_. None))"
proof -
  let ?a = "(resetLocked c q)\<lparr>sc_disarmed := False\<rparr>"
  have inv: "sc_inv ?a" by simp
  have h: "sc_earliest ?a = max (sc_earliest c) q" and m: "sc_max ?a = sc_max c"
    and e: "mget (sc_entityPos ?a) = (\<lambda>_. None)" by (simp_all add: fun_eq_iff)
  have "q \<le> sc_earliest ?a" unfolding h by simp
  with inv obtain c' where c': "sc_Prefill (Some ?a) es q = Some c'" "sc_inv c'"
    "sc_earliest ?a \<le> sc_earliest c'" "sc_max c' = sc_max ?a" "sc_disarmed c' = sc_disarmed ?a"
    "0 < sc_max ?a \<Longrightarrow> \<not> sc_disarmed ?a \<Longrightarrow>
      mget (sc_entityPos c') = above (sc_earliest c') (fold (\<lambda>(e, q) M. bump M e q) es (mget (sc_entityPos ?a)))"
    using sc_prefill_inv [of ?a q es] by blast
  show ?thesis
  proof (rule that [of c'])
    show "sc_Prefill (sc_Arm (Some c) q) es q = Some c'" using c'(1) by (simp add: sc_Arm_def)
    show "sc_earliest c \<le> sc_earliest c'" "q \<le> sc_earliest c'" using c'(3) unfolding h by simp_all
    show "0 < sc_max c \<Longrightarrow> mget (sc_entityPos c') = above (sc_earliest c') (fold (\<lambda>(e, q) M. bump M e q) es (\<lambda>_. None))"
      using c'(6) m e by simp
  qed (use c'(2,4,5) m in simp_all)
qed

definition sc_ok :: "scache option \<Rightarrow> bool" where
  "sc_ok p = (case p of None \<Rightarrow> True | Some c \<Rightarrow> sc_inv c)"

fun sc_is_ask :: "sc_op \<Rightarrow> bool" where
  "sc_is_ask (ScAskOne e q) = True"
| "sc_is_ask (ScAskMany es q) = True"
| "sc_is_ask (ScAskAny q) = True"
| "sc_is_ask _ = False"

text \<open>A question moves at most a counter.\<close>

lemma sc_ask_counts: "sc_is_ask op \<Longrightarrow> sc_step op (Some c) \<in> {Some c, sc_hit c, sc_miss c}"
  by (cases op) (auto simp: sc_HasEntityChanged_def sc_EntitiesChanged_def sc_HasAnyEntityChanged_def split: option.split)

lemma sc_ask_frame:
  assumes "sc_is_ask op"
  obtains c' where "sc_step op (Some c) = Some c'" and "sc_inv c' = sc_inv c" and "sc_earliest c' = sc_earliest c"
    and "sc_max c' = sc_max c" and "sc_disarmed c' = sc_disarmed c" and "sc_entityPos c' = sc_entityPos c"
proof -
  consider "sc_step op (Some c) = Some c" | "sc_step op (Some c) = Some (c\<lparr>sc_hits := sc_hits c + 1\<rparr>)"
    | "sc_step op (Some c) = Some (c\<lparr>sc_misses := sc_misses c + 1\<rparr>)"
    using sc_ask_counts [OF assms, of c] by (auto simp: sc_hit_def sc_miss_def)
  then show ?thesis
  proof cases
    case 1
    then show ?thesis by (rule that) (rule refl)+
  next
    case 2
    then show ?thesis by (rule that) simp_all
  next
    case 3
    then show ?thesis by (rule that) simp_all
  qed
qed

lemma sc_step_inv:
  assumes "sc_inv c"
  obtains c' where "sc_step op (Some c) = Some c'" and "sc_inv c'" and "sc_earliest c \<le> sc_earliest c'"
    and "sc_max c' = sc_max c"
proof (cases op)
  case (ScChange e q)
  from sc_change_inv [OF assms, of e q] obtain c' where "sc_EntityHasChanged (Some c) e q = Some c'"
    "sc_inv c'" "sc_earliest c \<le> sc_earliest c'" "sc_max c' = sc_max c" by blast
  with ScChange show ?thesis by (intro that [of c']) simp_all
next
  case (ScSeed es q)
  from sc_seed_inv [OF assms, of q es] obtain c' where "sc_Prefill (sc_Arm (Some c) q) es q = Some c'"
    "sc_inv c'" "sc_earliest c \<le> sc_earliest c'" "sc_max c' = sc_max c" by blast
  with ScSeed show ?thesis by (intro that [of c']) simp_all
next
  case (ScAll q)
  then show ?thesis by (intro that [of "resetLocked c q"]) (simp_all add: sc_AllEntitiesChanged_def)
next
  case (ScArm q)
  then show ?thesis
    by (intro that [of "(resetLocked c q)\<lparr>sc_disarmed := False\<rparr>"]) (simp_all add: sc_Arm_def)
next
  case ScDisarm
  then show ?thesis
    by (intro that [of "resetLocked (c\<lparr>sc_disarmed := True\<rparr>) (sc_earliest c)"]) (simp_all add: sc_Disarm_def)
next
  case (ScAskOne e q)
  then have "sc_is_ask op" by simp
  from sc_ask_frame [OF this, of c] assms show ?thesis by (metis order_refl that)
next
  case (ScAskMany es q)
  then have "sc_is_ask op" by simp
  from sc_ask_frame [OF this, of c] assms show ?thesis by (metis order_refl that)
next
  case (ScAskAny q)
  then have "sc_is_ask op" by simp
  from sc_ask_frame [OF this, of c] assms show ?thesis by (metis order_refl that)
qed

section \<open>What really happened\<close>

text \<open>
  \<open>sc_reach D p\<close>: the changes in \<open>D\<close> have happened in the stream, and \<open>p\<close> is the cache the
  worker may hold. The rules are the ways either moves: a change that is recorded; changes
  that happen while the cache is not armed (replication is down) and are never recorded; a
  jump of the stream to \<open>pos\<close> over rows not seen, all of them at or below \<open>pos\<close>; seeding from a
  table that still has every entity's latest row; arming at a position no change is above;
  and changes that no longer matter, because they were acknowledged and deleted or because the
  same entity has changed again since.
\<close>

inductive sc_reach :: "(string \<times> int) set \<Rightarrow> scache option \<Rightarrow> bool" where
  init: "sc_reach D (Some (sc_New name pos m))"
| nil: "sc_reach D None"
| change: "sc_reach D p \<Longrightarrow> sc_reach (insert (e, q) D) (sc_step (ScChange e q) p)"
| unseen: "sc_reach D p \<Longrightarrow> \<not> sc_Armed p \<Longrightarrow> sc_reach (D \<union> X) p"
| jump: "sc_reach D p \<Longrightarrow> \<forall>(e, q) \<in> D \<union> X. q \<le> pos \<Longrightarrow> sc_reach (D \<union> X) (sc_step (ScAll pos) p)"
| seed: "sc_reach D p \<Longrightarrow> 0 < n \<Longrightarrow> latest_rows n table rows \<Longrightarrow>
    \<forall>(e, q) \<in> D. \<exists>q' \<ge> q. (e, q') \<in> set table \<Longrightarrow> CacheDict rows maxValue = (entries, minPos) \<Longrightarrow>
    sc_reach D (sc_step (ScSeed entries minPos) p)"
| arm: "sc_reach D p \<Longrightarrow> \<forall>(e, q) \<in> D. q \<le> pos \<Longrightarrow> sc_reach D (sc_step (ScArm pos) p)"
| disarm: "sc_reach D p \<Longrightarrow> sc_reach D (sc_step ScDisarm p)"
| ask: "sc_reach D p \<Longrightarrow> sc_is_ask op \<Longrightarrow> sc_reach D (sc_step op p)"
| settle: "sc_reach D p \<Longrightarrow> \<forall>(e, q) \<in> D'. \<exists>q' \<ge> q. (e, q') \<in> D \<Longrightarrow> sc_reach D' p"

definition sc_covers :: "(string \<times> int) set \<Rightarrow> scache \<Rightarrow> bool" where
  "sc_covers D c \<longleftrightarrow> (0 < sc_max c \<longrightarrow> \<not> sc_disarmed c \<longrightarrow>
     (\<forall>(e, q) \<in> D. sc_earliest c < q \<longrightarrow> (\<exists>p \<ge> q. mget (sc_entityPos c) e = Some p)))"

lemma sc_coversD:
  "sc_covers D c \<Longrightarrow> 0 < sc_max c \<Longrightarrow> \<not> sc_disarmed c \<Longrightarrow> (e, q) \<in> D \<Longrightarrow> sc_earliest c < q \<Longrightarrow>
    \<exists>p \<ge> q. mget (sc_entityPos c) e = Some p"
  by (auto simp: sc_covers_def)

subsection \<open>The seeding query\<close>

lemma cache_dict_loop_map:
  "mget (fst (cache_dict_loop rows m v)) e = (case mget m e of Some p \<Rightarrow> Some p | None \<Rightarrow> map_of rows e)"
  by (induction rows m v rule: cache_dict_loop.induct) (auto split: option.splits)

lemma cache_dict_loop_min:
  "rows \<noteq> [] \<or> v \<noteq> None \<Longrightarrow> \<exists>x. snd (cache_dict_loop rows m v) = Some x \<and>
     (\<forall>r \<in> set rows. x \<le> snd r) \<and> (\<forall>y. v = Some y \<longrightarrow> x \<le> y) \<and> (x \<in> snd ` set rows \<or> v = Some x)"
proof (induction rows m v rule: cache_dict_loop.induct)
  case (2 entity pos rows m v)
  let ?m = "case mget m entity of None \<Rightarrow> mput entity pos m | Some _ \<Rightarrow> m"
  let ?v = "case v of None \<Rightarrow> Some pos | Some v \<Rightarrow> if pos < v then Some pos else Some v"
  have "?v \<noteq> None" by (auto split: option.split)
  with "2.IH" obtain x where x: "snd (cache_dict_loop rows ?m ?v) = Some x" "\<forall>r \<in> set rows. x \<le> snd r"
    "\<forall>y. ?v = Some y \<longrightarrow> x \<le> y" "x \<in> snd ` set rows \<or> ?v = Some x" by blast
  then show ?case by (intro exI [of _ x]) (auto split: option.splits if_splits)
qed auto

lemma map_of_desc:
  "sorted_wrt (\<lambda>a b. snd a \<ge> snd b) rows \<Longrightarrow> (e, q) \<in> set rows \<Longrightarrow> \<exists>p \<ge> q. map_of rows e = Some (p :: int)"
  by (induction rows) auto

lemma CacheDict_rows:
  assumes "CacheDict rows maxValue = (m, minPos)"
  shows "mget m e = map_of rows e" and "rows = [] \<Longrightarrow> minPos = maxValue"
    and "rows \<noteq> [] \<Longrightarrow> \<exists>r \<in> set rows. minPos = snd r + 1"
proof -
  obtain m' v where loop: "cache_dict_loop rows [] None = (m', v)" by (cases "cache_dict_loop rows [] None")
  with assms have m: "m' = m" by (auto simp: CacheDict_def split: option.splits)
  show "mget m e = map_of rows e" using cache_dict_loop_map [of rows "[]" None e] loop m by simp
  show "rows = [] \<Longrightarrow> minPos = maxValue" using assms by (simp add: CacheDict_def)
  show "\<exists>r \<in> set rows. minPos = snd r + 1" if "rows \<noteq> []"
    using cache_dict_loop_min [of rows None "[]"] that loop assms by (force simp: CacheDict_def)
qed

lemma CacheDict_complete:
  assumes "latest_rows n table rows" and "0 < n" and "CacheDict rows maxValue = (m, minPos)"
    and "(e, q) \<in> set table" and "minPos \<le> q"
  shows "\<exists>p \<ge> q. mget m e = Some p"
proof -
  from assms(1) obtain al where al: "set al = set table" "sorted_wrt (\<lambda>a b. snd a \<ge> snd b) al"
    "rows = take n al" by (auto simp: latest_rows_def)
  have srt: "sorted_wrt (\<lambda>a b. snd a \<ge> snd b) (rows @ drop n al)" using al by simp
  have "al \<noteq> []" using al(1) assms(4) by auto
  then have "rows \<noteq> []" using al(3) assms(2) by simp
  then obtain r where r: "r \<in> set rows" "minPos = snd r + 1"
    using CacheDict_rows(3) [OF assms(3)] by blast
  have "(e, q) \<notin> set (drop n al)"
    using srt r assms(5) by (force simp: sorted_wrt_append)
  moreover have "(e, q) \<in> set (rows @ drop n al)" using al assms(4) by simp
  ultimately have "(e, q) \<in> set rows" by simp
  moreover have "sorted_wrt (\<lambda>a b. snd a \<ge> snd b) rows" using srt by (simp add: sorted_wrt_append)
  ultimately show ?thesis using map_of_desc CacheDict_rows(1) [OF assms(3)] by simp
qed

subsection \<open>The contract is an invariant\<close>

lemma sc_covers_change:
  assumes "sc_inv c" and "sc_covers D c" and "sc_EntityHasChanged (Some c) e q = Some c'"
  shows "sc_covers (insert (e, q) D) c'"
proof -
  from sc_change_inv [OF assms(1), of e q] assms(3) have fr: "sc_max c' = sc_max c" "sc_disarmed c' = sc_disarmed c"
    "sc_earliest c \<le> sc_earliest c'"
    and M: "0 < sc_max c \<Longrightarrow> \<not> sc_disarmed c \<Longrightarrow>
      mget (sc_entityPos c') = above (sc_earliest c') (bump (mget (sc_entityPos c)) e q)" by auto
  show ?thesis
    unfolding sc_covers_def
  proof (intro impI ballI, clarify)
    fix x y
    assume on: "0 < sc_max c'" "\<not> sc_disarmed c'" and D: "(x, y) \<in> insert (e, q) D" and h: "sc_earliest c' < y"
    have "\<exists>p \<ge> y. bump (mget (sc_entityPos c)) e q x = Some p"
    proof (cases "(x, y) = (e, q)")
      case True
      then show ?thesis by (auto simp: bump_def split: option.split)
    next
      case False
      with D have "(x, y) \<in> D" by blast
      with sc_coversD [OF assms(2)] on h fr have "\<exists>p. mget (sc_entityPos c) x = Some p \<and> y \<le> p" by force
      from bump_ge [of "mget (sc_entityPos c)" x y e q, OF this] show ?thesis by blast
    qed
    with h show "\<exists>p \<ge> y. mget (sc_entityPos c') x = Some p" using M on fr by force
  qed
qed

lemma seeded_covers:
  assumes "0 < n" and "latest_rows n table rows" and "\<forall>(e, q) \<in> D. \<exists>q' \<ge> q. (e, q') \<in> set table"
    and "CacheDict rows maxValue = (entries, minPos)" and "(e, q) \<in> D" and "minPos \<le> q"
  shows "\<exists>p \<ge> q. fold (\<lambda>(e, q) M. bump M e q) entries (\<lambda>_. None) e = Some p"
proof -
  from assms(3,5) obtain q' where q': "q \<le> q'" "(e, q') \<in> set table" by auto
  with CacheDict_complete [OF assms(2,1,4) q'(2)] assms(6) obtain p where "q' \<le> p" "mget entries e = Some p" by auto
  then have "(e, p) \<in> set entries" by (simp add: map_of_SomeD)
  with fold_bump_ge [of e p entries "\<lambda>_. None"] \<open>q' \<le> p\<close> q'(1) show ?thesis by fastforce
qed

lemma sc_reach_covers: "sc_reach D p \<Longrightarrow> case p of None \<Rightarrow> True | Some c \<Rightarrow> sc_inv c \<and> sc_covers D c"
proof (induction rule: sc_reach.induct)
  case (init D name pos m)
  then show ?case by (simp, simp add: sc_covers_def sc_New_def)
next
  case (change D p e q)
  show ?case
  proof (cases p)
    case None
    then show ?thesis by (simp add: sc_EntityHasChanged_def)
  next
    case (Some c)
    with change.IH have c: "sc_inv c" "sc_covers D c" by simp_all
    from sc_change_inv [OF c(1), of e q] obtain c' where
      c': "sc_EntityHasChanged (Some c) e q = Some c'" "sc_inv c'" by blast
    with Some sc_covers_change [OF c c'(1)] show ?thesis by simp
  qed
next
  case (unseen D p X)
  then show ?case by (cases p) (auto simp: sc_Armed_def sc_covers_def)
next
  case (jump D p X pos)
  then show ?case by (cases p) (force simp: sc_AllEntitiesChanged_def sc_covers_def)+
next
  case (seed D p n table rows maxValue entries minPos)
  show ?case
  proof (cases p)
    case None
    then show ?thesis by (simp add: sc_Prefill_def sc_Arm_def)
  next
    case (Some c)
    with seed.IH have "sc_inv c" by simp
    from sc_seed_inv [OF this, of minPos entries] obtain c' where
      c': "sc_Prefill (sc_Arm (Some c) minPos) entries minPos = Some c'" "sc_inv c'" "minPos \<le> sc_earliest c'"
        "sc_max c' = sc_max c"
      and M: "0 < sc_max c \<Longrightarrow> mget (sc_entityPos c') =
        above (sc_earliest c') (fold (\<lambda>(e, q) M. bump M e q) entries (\<lambda>_. None))" by blast
    note seeded = seeded_covers [OF seed.hyps(2-5)]
    have "sc_covers D c'"
      unfolding sc_covers_def
    proof (intro impI ballI, clarify)
      fix e q
      assume on: "0 < sc_max c'" and "(e, q) \<in> D" and h: "sc_earliest c' < q"
      with seeded [of e q] c'(3) obtain x where "fold (\<lambda>(e, q) M. bump M e q) entries (\<lambda>_. None) e = Some x" "q \<le> x"
        by auto
      with h show "\<exists>x \<ge> q. mget (sc_entityPos c') e = Some x" using M on c'(4) by auto
    qed
    with Some c' show ?thesis by simp
  qed
next
  case (arm D p pos)
  then show ?case by (cases p) (auto simp: sc_Arm_def sc_covers_def)
next
  case (disarm D p)
  then show ?case by (cases p) (auto simp: sc_Disarm_def sc_covers_def)
next
  case (ask D p op)
  show ?case
  proof (cases p)
    case None
    with ask.hyps show ?thesis
      by (cases op) (auto simp: sc_HasEntityChanged_def sc_EntitiesChanged_def sc_HasAnyEntityChanged_def)
  next
    case (Some c)
    from sc_ask_frame [OF ask.hyps(2), of c] obtain c' where "sc_step op (Some c) = Some c'"
      "sc_inv c' = sc_inv c" "sc_earliest c' = sc_earliest c" "sc_max c' = sc_max c"
      "sc_disarmed c' = sc_disarmed c" "sc_entityPos c' = sc_entityPos c" by blast
    with Some ask.IH show ?thesis by (simp add: sc_covers_def)
  qed
next
  case (settle D p D')
  then show ?case
  proof (cases p)
    case (Some c)
    with settle.IH have c: "sc_inv c" "sc_covers D c" by simp_all
    have "\<exists>p \<ge> q. mget (sc_entityPos c) e = Some p"
      if "(e, q) \<in> D'" "sc_earliest c < q" "0 < sc_max c" "\<not> sc_disarmed c" for e q
    proof -
      from settle.hyps(2) that(1) obtain q' where q': "q \<le> q'" "(e, q') \<in> D" by fast
      with that(2) have "sc_earliest c < q'" by simp
      from sc_coversD [OF c(2) that(3,4) q'(2) this] q'(1) show ?thesis by fastforce
    qed
    then show ?thesis using Some c(1) by (auto simp: sc_covers_def)
  qed simp
qed simp

section \<open>The interface of a gate\<close>

text \<open>
  What the queries behind a gate rely on: a change that happened after \<open>pos\<close> makes the gate
  say "changed". Then a query that finds nothing for an entity without changes may be asked
  for the gated entities only, with the same result.
\<close>

locale change_gate =
  fixes happened :: "('e \<times> int) set \<Rightarrow> 'c \<Rightarrow> bool"
    and changed :: "'c \<Rightarrow> 'e \<Rightarrow> int \<Rightarrow> bool"
  assumes no_miss: "happened D c \<Longrightarrow> (e, q) \<in> D \<Longrightarrow> pos < q \<Longrightarrow> changed c e pos"
begin

lemma unchanged_is_true: "happened D c \<Longrightarrow> \<not> changed c e pos \<Longrightarrow> (e, q) \<in> D \<Longrightarrow> q \<le> pos"
  using no_miss [of D c e q pos] by linarith

lemma gated_query:
  assumes "happened D c" and "\<And>e. e \<in> set es \<Longrightarrow> \<forall>q. (e, q) \<in> D \<longrightarrow> q \<le> pos \<Longrightarrow> query e = []"
  shows "concat (map query (filter (\<lambda>e. changed c e pos) es)) = concat (map query es)"
  using assms(2) by (induction es) (auto dest: unchanged_is_true [OF assms(1)])

lemma gate_keeps: "happened D c \<Longrightarrow> {e \<in> set es. \<exists>q > pos. (e, q) \<in> D} \<subseteq> set (filter (\<lambda>e. changed c e pos) es)"
  using no_miss by auto

end

lemma sc_one_no_miss:
  assumes "sc_reach D p" and "(e, q) \<in> D" and "pos < q"
  shows "snd (sc_HasEntityChanged p e pos)"
proof (cases p)
  case None
  then show ?thesis by (simp add: sc_HasEntityChanged_def)
next
  case (Some c)
  with sc_reach_covers [OF assms(1)] have cov: "sc_covers D c" by simp
  show ?thesis
  proof (cases "sc_max c \<le> 0 \<or> sc_disarmed c \<or> pos < sc_earliest c")
    case True
    with Some show ?thesis by (auto simp: sc_HasEntityChanged_def)
  next
    case False
    with sc_coversD [OF cov _ _ assms(2)] assms(3) obtain x where "q \<le> x" "mget (sc_entityPos c) e = Some x" by force
    with False Some assms(3) show ?thesis by (simp add: sc_HasEntityChanged_def)
  qed
qed

lemma sc_many_iff_one:
  assumes "sc_byPos (the p) \<noteq> []"
  shows "snd (sc_EntitiesChanged p es pos) = filter (\<lambda>e. snd (sc_HasEntityChanged p e pos)) es"
proof (cases p)
  case (Some c)
  show ?thesis
  proof (cases "sc_max c \<le> 0 \<or> sc_disarmed c \<or> pos < sc_earliest c")
    case True
    with Some show ?thesis by (auto simp: sc_EntitiesChanged_def sc_HasEntityChanged_def)
  next
    case False
    with Some assms show ?thesis
      by (auto simp: sc_EntitiesChanged_def sc_HasEntityChanged_def intro!: filter_cong split: option.split)
  qed
qed (simp add: sc_EntitiesChanged_def sc_HasEntityChanged_def)

lemma sc_many_keeps_one:
  "e \<in> set es \<Longrightarrow> snd (sc_HasEntityChanged p e pos) \<Longrightarrow> e \<in> set (snd (sc_EntitiesChanged p es pos))"
proof (cases "sc_byPos (the p) = []")
  case True
  assume "e \<in> set es"
  with True show ?thesis by (cases p) (auto simp: sc_EntitiesChanged_def)
next
  case False
  assume "e \<in> set es" "snd (sc_HasEntityChanged p e pos)"
  with sc_many_iff_one [OF False] show ?thesis by simp
qed

lemma sc_any_above_one:
  assumes "sc_ok p" and "snd (sc_HasEntityChanged p e pos)"
  shows "snd (sc_HasAnyEntityChanged p pos)"
proof (cases p)
  case (Some c)
  with assms(1) have ix: "indexed c (mget (sc_entityPos c))" by (simp add: sc_ok_def sc_inv_def sc_core_def)
  show ?thesis
  proof (cases "sc_max c \<le> 0 \<or> sc_disarmed c \<or> pos < sc_earliest c")
    case True
    with Some show ?thesis by (auto simp: sc_HasAnyEntityChanged_def)
  next
    case False
    with Some assms(2) obtain x where x: "mget (sc_entityPos c) e = Some x" "pos < x"
      by (auto simp: sc_HasEntityChanged_def split: option.splits if_splits)
    then have mem: "x \<in> set (sc_positions c)" using indexed_positions [OF ix] by blast
    moreover have "sorted_wrt (<) (sc_positions c)" using ix by (simp add: indexed_def)
    ultimately have "x \<le> last (sc_positions c)"
      by (cases "sc_positions c" rule: rev_cases) (auto simp: sorted_wrt_append)
    with mem x(2) False Some show ?thesis by (auto simp: sc_HasAnyEntityChanged_def)
  qed
qed (simp add: sc_HasAnyEntityChanged_def)

lemma sc_reach_ok: "sc_reach D p \<Longrightarrow> sc_ok p"
  using sc_reach_covers by (fastforce simp: sc_ok_def split: option.splits)

interpretation sc_one: change_gate sc_reach "\<lambda>p e pos. snd (sc_HasEntityChanged p e pos)"
  by unfold_locales (rule sc_one_no_miss)

interpretation sc_many: change_gate sc_reach "\<lambda>p e pos. e \<in> set (snd (sc_EntitiesChanged p [e] pos))"
  by unfold_locales (simp add: sc_many_keeps_one sc_one_no_miss)

interpretation sc_any: change_gate sc_reach "\<lambda>p e pos. snd (sc_HasAnyEntityChanged p pos)"
  by unfold_locales (meson sc_any_above_one sc_one_no_miss sc_reach_ok)

lemma sc_many_filter:
  "snd (sc_EntitiesChanged p es pos) = filter (\<lambda>e. e \<in> set (snd (sc_EntitiesChanged p [e] pos))) es"
  by (cases p) (auto simp: sc_EntitiesChanged_def intro!: filter_cong [OF refl])

lemma sc_change_run:
  assumes "sc_inv c" and "0 < sc_max c" and "\<not> sc_disarmed c"
  shows "fold (\<lambda>(e, q). sc_step (ScChange e q)) xs (Some c) = Some (fold (\<lambda>(e, q) c. entityHasChangedLocked c e q) xs c)"
  using assms
proof (induction xs arbitrary: c)
  case (Cons x xs)
  obtain e q where x: "x = (e, q)" by (cases x)
  from sc_change_inv [OF Cons.prems(1), of e q] obtain c' where
    "sc_EntityHasChanged (Some c) e q = Some c'" "sc_inv c'" "sc_max c' = sc_max c" "sc_disarmed c' = sc_disarmed c" by blast
  moreover from this(1) Cons.prems have "c' = entityHasChangedLocked c e q" by (simp add: sc_EntityHasChanged_def)
  ultimately show ?case using Cons.IH [of c'] Cons.prems x by simp
qed simp

lemma sc_answer_above:
  assumes "0 < sc_max c" and "\<not> sc_disarmed c" and "mget (sc_entityPos c) = above (sc_earliest c) H" and "sc_earliest c \<le> pos"
  shows "snd (sc_HasEntityChanged (Some c) e pos) = (\<exists>x > pos. H e = Some x)"
proof (cases "mget (sc_entityPos c) e")
  case None
  then have "above (sc_earliest c) H e = None" using assms(3) by simp
  then have "\<not> (\<exists>x > pos. H e = Some x)" using assms(4) by (auto simp: above_def split: if_splits)
  with None assms show ?thesis by (simp add: sc_HasEntityChanged_def)
next
  case (Some x)
  then have "H e = Some x" using assms(3) by simp
  with Some assms(1,2,4) show ?thesis by (simp add: sc_HasEntityChanged_def)
qed

section \<open>Properties\<close>



text \<open>
  After arming at \<open>h0\<close> and recording any list of changes, the cache is the history of
  latest changes cut off at a horizon \<open>h \<ge> h0\<close>, and at or above the horizon the answer to
  \<^verbatim>\<open>HasEntityChanged\<close> is exact: true exactly when one of the recorded changes of that entity is
  after \<open>pos\<close>. Eviction never makes an entity look unchanged; it only raises \<open>h\<close>.
\<close>

theorem stream_cache_exact_above_horizon:
  assumes "0 < m"
  shows "\<exists>c. fold (\<lambda>(e, q). sc_step (ScChange e q)) changes (sc_Arm (Some (sc_New name pos0 m)) h0) = Some c \<and>
    h0 \<le> sc_earliest c \<and> int (length (sc_positions c)) \<le> m \<and>
    (\<forall>e pos. sc_earliest c \<le> pos \<longrightarrow>
      snd (sc_HasEntityChanged (Some c) e pos) = (\<exists>q > pos. (e, q) \<in> set changes))"
proof -
  let ?a = "(resetLocked (sc_New name pos0 m) h0)\<lparr>sc_disarmed := False\<rparr>"
  let ?c = "fold (\<lambda>(e, q) c. entityHasChangedLocked c e q) changes ?a"
  let ?H = "fold (\<lambda>(e, q) M. bump M e q) changes (\<lambda>_. None)"
  have mx: "0 < sc_max ?a" and fr: "\<not> sc_disarmed ?a" "sc_positions ?a = []" "h0 \<le> sc_earliest ?a" "sc_max ?a = m"
    and M: "mget (sc_entityPos ?a) = (\<lambda>_. None)"
    using assms by (simp_all add: sc_New_def fun_eq_iff)
  have inv: "sc_inv ?a" by simp
  then have "sc_core ?a" "int (length (sc_positions ?a)) \<le> sc_max ?a" using mx by (simp_all add: sc_inv_def)
  note spec = prefill_fold [OF this(1) mx this(2) refl, of changes]
  have "fold (\<lambda>(e, q). sc_step (ScChange e q)) changes (sc_Arm (Some (sc_New name pos0 m)) h0) = Some ?c"
    using sc_change_run [OF inv mx fr(1)] by (simp add: sc_Arm_def)
  moreover have "snd (sc_HasEntityChanged (Some ?c) e pos) = (\<exists>q > pos. (e, q) \<in> set changes)"
    if h: "sc_earliest ?c \<le> pos" for e pos
  proof -
    have "snd (sc_HasEntityChanged (Some ?c) e pos) = (\<exists>x > pos. ?H e = Some x)"
      by (rule sc_answer_above) (use spec h fr mx M in simp_all)
    also have "\<dots> = (\<exists>q > pos. (e, q) \<in> set changes)"
      using fold_bump_ge [of e _ changes "\<lambda>_. None"] fold_bump_from [of changes "\<lambda>_. None" e]
      by (meson less_le_trans option.distinct(1))
    finally show ?thesis .
  qed
  ultimately show ?thesis using spec fr by (intro exI [of _ ?c]) auto
qed

theorem stream_cache_exact_above_horizon_witness:
  "\<exists>c. fold (\<lambda>(e, q). sc_step (ScChange e q)) [(''a'', 6), (''b'', 7), (''a'', 8), (''c'', 9)]
      (sc_Arm (Some (sc_New ''events'' 0 2)) 5) = Some c \<and> 5 \<le> sc_earliest c"
  using stream_cache_exact_above_horizon [of 2 "[(''a'', 6), (''b'', 7), (''a'', 8), (''c'', 9)]" "''events''" 0 5]
  by auto

text \<open>
  Any sequence of operations keeps the representation consistent (positions ascending and
  exactly the positions of the entities held, all above the horizon, at most \<^verbatim>\<open>max\<close> of them,
  nothing held while disarmed), and the horizon never moves backwards.
\<close>

theorem stream_cache_consistent:
  shows "\<exists>c c'. fold sc_step ops (Some (sc_New name pos m)) = Some c \<and> sc_inv c \<and>
    fold sc_step ops' (Some c) = Some c' \<and> sc_inv c' \<and> sc_earliest c \<le> sc_earliest c' \<and> sc_max c' = m"
proof -
  have run: "\<exists>c'. fold sc_step ops (Some c) = Some c' \<and> sc_inv c' \<and> sc_earliest c \<le> sc_earliest c' \<and> sc_max c' = sc_max c"
    if "sc_inv c" for ops c
    using that
  proof (induction ops arbitrary: c)
    case (Cons op ops)
    from sc_step_inv [OF Cons.prems, of op] obtain c1 where c1: "sc_step op (Some c) = Some c1" "sc_inv c1"
      "sc_earliest c \<le> sc_earliest c1" "sc_max c1 = sc_max c" by blast
    from Cons.IH [OF c1(2)] c1 show ?case by fastforce
  qed simp
  have "sc_max (sc_New name pos m) = m" by (simp add: sc_New_def)
  with run [OF sc_inv_New, of ops name pos m] obtain c where "fold sc_step ops (Some (sc_New name pos m)) = Some c"
    "sc_inv c" "sc_max c = m" by auto
  with run [of c ops'] show ?thesis by auto
qed

text \<open>
  The seeding query claims no more than it saw. With the rows newest first, cut off
  anywhere, every row of the table at or above the returned minimum is reflected in the
  returned map by a position at least as high; the group of rows the limit may have cut
  through lies below the minimum.
\<close>

theorem cache_dict_complete:
  assumes "latest_rows n table rows" and "0 < n" and "CacheDict rows maxValue = (m, minPos)"
    and "(e, q) \<in> set table" and "minPos \<le> q"
  shows "\<exists>p \<ge> q. mget m e = Some p"
  using assms by (rule CacheDict_complete)

theorem cache_dict_complete_witness:
  "\<exists>p \<ge> (9::int). mget [(''b'', 9::int), (''a'', 8)] ''b'' = Some p"
proof (rule cache_dict_complete [of 2 "[(''a'', 8), (''b'', 9), (''c'', 8)]"])
  show "latest_rows 2 [(''a'', 8), (''b'', 9), (''c'', 8)] [(''b'', 9), (''a'', 8)]"
    unfolding latest_rows_def by (rule exI [of _ "[(''b'', 9), (''a'', 8), (''c'', 8)]"]) auto
  show "CacheDict [(''b'', 9), (''a'', 8)] 9 = ([(''b'', 9), (''a'', 8)], 9)"
    by (simp add: CacheDict_def)
qed simp_all

text \<open>
  The one way the contract is lost: \<^verbatim>\<open>AllEntitiesChanged(pos)\<close> with \<open>pos\<close> below a position the
  cache holds. The entry is dropped but the horizon only rises to \<open>pos\<close>, so the change at \<open>q\<close> that
  was answered "changed" before the call is answered "unchanged" after it, for every question
  between the new horizon and \<open>q\<close>.
\<close>

theorem reset_below_held_position_forgets:
  assumes "0 < sc_max c" and "\<not> sc_disarmed c" and "mget (sc_entityPos c) e = Some q"
    and "sc_earliest c \<le> pos'" and "pos \<le> pos'" and "pos' < q"
  shows "snd (sc_HasEntityChanged (Some c) e pos') \<and>
    \<not> snd (sc_HasEntityChanged (sc_AllEntitiesChanged (Some c) pos) e pos')"
  using assms by (simp_all add: sc_HasEntityChanged_def sc_AllEntitiesChanged_def resetLocked_def)

theorem reset_below_held_position_forgets_witness:
  "\<not> snd (sc_HasEntityChanged (sc_AllEntitiesChanged (sc_EntityHasChanged (sc_Arm (Some (sc_New ''events'' 0 2)) 5) ''!r'' 20) 15) ''!r'' 17)"
proof -
  let ?c = "\<lparr>sc_name = ''events'', sc_max = 2, sc_byPos = [(20, {''!r''})], sc_positions = [20],
    sc_entityPos = [(''!r'', 20)], sc_earliest = 5, sc_disarmed = False, sc_hits = 0, sc_misses = 0, sc_evictions = 0\<rparr>"
  have "sc_EntityHasChanged (sc_Arm (Some (sc_New ''events'' 0 2)) 5) ''!r'' 20 = Some ?c"
    by (simp add: sc_EntityHasChanged_def sc_Arm_def sc_New_def resetLocked_def entityHasChangedLocked_def
        insertPosition_def evictLocked.simps Let_def)
  moreover have "\<not> snd (sc_HasEntityChanged (sc_AllEntitiesChanged (Some ?c) 15) ''!r'' 17)"
    using reset_below_held_position_forgets [of ?c "''!r''" 20 17 15] by simp
  ultimately show ?thesis by simp
qed

text \<open>
  Seeding is two calls, and between them the cache is armed, empty, and at the horizon of
  the query: a question asked in that window about a row the query has already returned is
  answered "unchanged", and "changed" once \<^verbatim>\<open>Prefill\<close> has run.
\<close>

theorem arm_then_prefill_window:
  assumes "0 < sc_max c" and "sc_inv c" and "(e, q) \<in> set entries" and "sc_earliest c \<le> pos" and "minPos \<le> pos" and "pos < q"
  shows "\<not> snd (sc_HasEntityChanged (sc_Arm (Some c) minPos) e pos) \<and>
    snd (sc_HasEntityChanged (sc_Prefill (sc_Arm (Some c) minPos) entries minPos) e pos)"
proof
  show "\<not> snd (sc_HasEntityChanged (sc_Arm (Some c) minPos) e pos)"
    using assms by (simp add: sc_HasEntityChanged_def sc_Arm_def)
  from sc_seed_inv [OF assms(2), of minPos entries] obtain c' where c':
    "sc_Prefill (sc_Arm (Some c) minPos) entries minPos = Some c'" "\<not> sc_disarmed c'" "sc_max c' = sc_max c"
    "0 < sc_max c \<Longrightarrow> mget (sc_entityPos c') = above (sc_earliest c') (fold (\<lambda>(e, q) M. bump M e q) entries (\<lambda>_. None))"
    by blast
  obtain x where "fold (\<lambda>(e, q) M. bump M e q) entries (\<lambda>_. None) e = Some x" "q \<le> x"
    using fold_bump_ge [of e q entries "\<lambda>_. None"] assms(3) by auto
  with assms(6) have "\<exists>x > pos. fold (\<lambda>(e, q) M. bump M e q) entries (\<lambda>_. None) e = Some x" by auto
  with c' assms(1) sc_answer_above [of c' "fold (\<lambda>(e, q) M. bump M e q) entries (\<lambda>_. None)" pos e]
  show "snd (sc_HasEntityChanged (sc_Prefill (sc_Arm (Some c) minPos) entries minPos) e pos)"
    by (cases "sc_earliest c' \<le> pos") (simp_all add: sc_HasEntityChanged_def)
qed

theorem arm_then_prefill_window_witness:
  "\<not> snd (sc_HasEntityChanged (sc_Arm (Some (sc_New ''events'' 0 9)) 3) ''!r'' 5) \<and>
    snd (sc_HasEntityChanged (sc_Prefill (sc_Arm (Some (sc_New ''events'' 0 9)) 3) [(''!r'', 7)] 3) ''!r'' 5)"
proof (rule arm_then_prefill_window)
  show "sc_inv (sc_New ''events'' 0 9)" by simp
  show "0 < sc_max (sc_New ''events'' 0 9)" "sc_earliest (sc_New ''events'' 0 9) \<le> 5" by (simp_all add: sc_New_def)
  show "(''!r'', 7) \<in> set [(''!r'', 7::int)]" by simp
qed simp_all

end
