(* ===== verification/Room_Config.thy ===== *)
theory Room_Config
  imports Go_Prelude
begin

text \<open>
  Room sync configs: \<^verbatim>\<open>internal/slidingsync/roomconfig.go\<close>, \<^verbatim>\<open>statefilter.go\<close> and \<^verbatim>\<open>partialstate.go\<close>.

  A \<^verbatim>\<open>required_state\<close> map sends an event type to the set of state keys wanted of it. The type and
  the state key may be the wildcard, and the entries are OR'd. \<^verbatim>\<open>NewRoomSyncConfig\<close> brings the
  entries of a request into a normal form, \<^verbatim>\<open>CombineRoomSyncConfig\<close> joins two of them; both work by
  mutating a map while going through another, in an order that Go leaves open for the second.
  The inner sets are HOL sets, and where a loop ranges over one of them the order is an argument
  (\<open>ord\<close>), so that what is proved holds for every order.

  The normal form has a closed description, \<open>canon\<close>, as a function of the \<^emph>\<open>set\<close> of entries:
  that both functions compute it is what makes the stored configs comparable.
\<close>

section \<open>The model\<close>

type_synonym required_state = "(string, string set) gomap"

definition Wildcard :: string where "Wildcard = ''*''"
definition Lazy :: string where "Lazy = ''$LAZY''"
definition Me :: string where "Me = ''$ME''"
definition memberEventType :: string where "memberEventType = ''m.room.member''"

record CommonRoomParameters =
  cp_RequiredState :: "(string \<times> string) list"
  cp_TimelineLimit :: int

record RoomSyncConfig =
  rc_TimelineLimit :: int
  rc_RequiredState :: required_state

text \<open>\<^verbatim>\<open>m[t][k]\<close>: reading an absent type gives a nil map, reading that gives false.\<close>

abbreviation keys_of :: "required_state \<Rightarrow> string \<Rightarrow> string set" where
  "keys_of m t \<equiv> mgetz {} m t"

definition dropStateKey :: "required_state \<Rightarrow> string \<Rightarrow> required_state" where
  "dropStateKey required stateKey =
     filter (\<lambda>(t, keys). keys \<noteq> {}) (map (\<lambda>(t, keys). (t, keys - {stateKey})) required)"

definition all_config :: required_state where
  "all_config = [(Wildcard, {Wildcard})]"

text \<open>
  The loop of \<^verbatim>\<open>NewRoomSyncConfig\<close>. \<open>Inl\<close> is the early return with the config that subsumes
  everything.
\<close>

fun config_loop :: "(string \<times> string) list \<Rightarrow> required_state \<Rightarrow> required_state + required_state" where
  "config_loop [] required = Inr required"
| "config_loop ((stateType, stateKey) # entries) required =
     (if stateKey \<in> keys_of required Wildcard then config_loop entries required
      else if Wildcard \<in> keys_of required stateType then config_loop entries required
      else if stateType = Wildcard \<and> stateKey = Wildcard then Inl all_config
      else
        let required = (if stateType = Wildcard then dropStateKey required stateKey else required)
        in if stateKey = Wildcard then config_loop entries (mput stateType {Wildcard} required)
           else config_loop entries (mput stateType (insert stateKey (keys_of required stateType)) required))"

definition NewRoomSyncConfig :: "CommonRoomParameters \<Rightarrow> RoomSyncConfig" where
  "NewRoomSyncConfig p = \<lparr>rc_TimelineLimit = cp_TimelineLimit p,
     rc_RequiredState = (case config_loop (cp_RequiredState p) [] of Inl r \<Rightarrow> r | Inr r \<Rightarrow> r)\<rparr>"

text \<open>
  \<^verbatim>\<open>CombineRoomSyncConfig\<close>: the loop over the keys of one type, and the loop over the types, with
  its \<^verbatim>\<open>break\<close>, \<^verbatim>\<open>continue\<close> and early return.
\<close>

fun combine_keys :: "string \<Rightarrow> string list \<Rightarrow> required_state \<Rightarrow> required_state" where
  "combine_keys stateType [] required = required"
| "combine_keys stateType (stateKey # keys) required =
     (if stateKey \<in> keys_of required Wildcard then combine_keys stateType keys required
      else
        let required = (if stateType = Wildcard then dropStateKey required stateKey else required)
        in if stateKey = Wildcard then mput stateType {Wildcard} required
           else combine_keys stateType keys (mput stateType (insert stateKey (keys_of required stateType)) required))"

fun combine_types :: "(string set \<Rightarrow> string list) \<Rightarrow> required_state \<Rightarrow> required_state \<Rightarrow> required_state + required_state" where
  "combine_types ord [] required = Inr required"
| "combine_types ord ((stateType, keys) # rest) required =
     (if Wildcard \<in> keys_of required Wildcard then Inr required
      else if Wildcard \<in> keys_of required stateType then combine_types ord rest required
      else if stateType = Wildcard \<and> Wildcard \<in> keys then Inl all_config
      else combine_types ord rest (combine_keys stateType (ord keys) required))"

definition CombineRoomSyncConfig :: "(string set \<Rightarrow> string list) \<Rightarrow> RoomSyncConfig \<Rightarrow> RoomSyncConfig \<Rightarrow> RoomSyncConfig" where
  "CombineRoomSyncConfig ord a b = \<lparr>
     rc_TimelineLimit = (if rc_TimelineLimit b > rc_TimelineLimit a then rc_TimelineLimit b else rc_TimelineLimit a),
     rc_RequiredState = (case combine_types ord (rc_RequiredState b) (rc_RequiredState a) of Inl r \<Rightarrow> r | Inr r \<Rightarrow> r)\<rparr>"

subsection \<open>State filters\<close>

text \<open>A nil state-key set, meaning every key of the type, is \<open>None\<close>.\<close>

record StateFilter =
  sf_all :: bool
  sf_types :: "(string, string set option) gomap"

record TypeAndKey =
  tk_Type :: string
  tk_StateKey :: "string option"

definition AllState :: StateFilter where
  "AllState = \<lparr>sf_all = True, sf_types = []\<rparr>"

definition NoState :: StateFilter where
  "NoState = \<lparr>sf_all = False, sf_types = []\<rparr>"

fun filter_types_loop :: "TypeAndKey list \<Rightarrow> (string, string set option) gomap \<Rightarrow> (string, string set option) gomap" where
  "filter_types_loop [] types = types"
| "filter_types_loop (e # es) types =
     (case tk_StateKey e of
        None \<Rightarrow> filter_types_loop es (mput (tk_Type e) None types)
      | Some k \<Rightarrow>
          (case mget types (tk_Type e) of
             Some None \<Rightarrow> filter_types_loop es types
           | Some (Some keys) \<Rightarrow> filter_types_loop es (mput (tk_Type e) (Some (insert k keys)) types)
           | None \<Rightarrow> filter_types_loop es (mput (tk_Type e) (Some {k}) types)))"

definition StateFilterFromTypes :: "TypeAndKey list \<Rightarrow> StateFilter" where
  "StateFilterFromTypes entries =
     (if entries = [] then NoState else \<lparr>sf_all = False, sf_types = filter_types_loop entries []\<rparr>)"

definition sf_IsAll :: "StateFilter \<Rightarrow> bool" where
  "sf_IsAll f = sf_all f"

definition sf_IsEmpty :: "StateFilter \<Rightarrow> bool" where
  "sf_IsEmpty f \<longleftrightarrow> \<not> sf_all f \<and> sf_types f = []"

definition Wants :: "StateFilter \<Rightarrow> string \<Rightarrow> string \<Rightarrow> bool" where
  "Wants f eventType stateKey =
     (if sf_all f then True
      else case mget (sf_types f) eventType of
        None \<Rightarrow> False
      | Some None \<Rightarrow> True
      | Some (Some keys) \<Rightarrow> stateKey \<in> keys)"

definition entry_row :: "StateFilter \<Rightarrow> string \<Rightarrow> TypeAndKey list" where
  "entry_row f t = (case mgetz None (sf_types f) t of
     None \<Rightarrow> [\<lparr>tk_Type = t, tk_StateKey = None\<rparr>]
   | Some keys \<Rightarrow> map (\<lambda>k. \<lparr>tk_Type = t, tk_StateKey = Some k\<rparr>) (sortedKeys keys))"

definition Entries :: "StateFilter \<Rightarrow> TypeAndKey list" where
  "Entries f = concat (map (entry_row f) (sortedKeys (set (mkeys (sf_types f)))))"

subsection \<open>Partially stated rooms\<close>

definition HasPrefix :: "string \<Rightarrow> string \<Rightarrow> bool" where
  "HasPrefix s prefix \<longleftrightarrow> take (length prefix) s = prefix"

definition HasSuffix :: "string \<Rightarrow> string \<Rightarrow> bool" where
  "HasSuffix s suffix \<longleftrightarrow> length suffix \<le> length s \<and> drop (length s - length suffix) s = suffix"

definition looksLikeUserID :: "string \<Rightarrow> bool" where
  "looksLikeUserID s \<longleftrightarrow> HasPrefix s ''@'' \<and> CHR '':'' \<in> set s"

definition IsLocalUser :: "string \<Rightarrow> string \<Rightarrow> bool" where
  "IsLocalUser serverName userID = HasSuffix userID (CHR '':'' # serverName)"

fun await_members :: "(string \<Rightarrow> bool) \<Rightarrow> string list \<Rightarrow> bool" where
  "await_members isLocal [] = False"
| "await_members isLocal (userID # rest) =
     (if userID = Me then await_members isLocal rest
      else if userID = Lazy then await_members isLocal rest
      else if userID = Wildcard then False
      else if \<not> isLocal userID then True
      else await_members isLocal rest)"

definition MustAwaitFullState :: "(string set \<Rightarrow> string list) \<Rightarrow> RoomSyncConfig \<Rightarrow> (string \<Rightarrow> bool) \<Rightarrow> bool" where
  "MustAwaitFullState ord cfg isLocal =
     (let wildcard = keys_of (rc_RequiredState cfg) Wildcard in
      if Wildcard \<in> wildcard then True
      else if list_ex (\<lambda>k. looksLikeUserID k \<and> \<not> isLocal k) (ord wildcard) then True
      else case mget (rc_RequiredState cfg) memberEventType of
        None \<Rightarrow> False
      | Some members \<Rightarrow> await_members isLocal (ord members))"

section \<open>The normal form\<close>

text \<open>
  The state keys the normal form of a set of entries has under a type. Everything requested
  is the one entry of \<open>all_config\<close>; otherwise a wildcard key swallows the other keys of its type,
  and a key wanted under every type is not repeated under a single one.
\<close>

definition canon :: "(string \<times> string) set \<Rightarrow> string \<Rightarrow> string set" where
  "canon E t =
     (if (Wildcard, Wildcard) \<in> E then (if t = Wildcard then {Wildcard} else {})
      else if t = Wildcard then {k. (Wildcard, k) \<in> E}
      else if (t, Wildcard) \<in> E then {Wildcard}
      else {k. (t, k) \<in> E \<and> (Wildcard, k) \<notin> E})"

definition nonempty :: "string set \<Rightarrow> string set option" where
  "nonempty s = (if s = {} then None else Some s)"

definition represents :: "required_state \<Rightarrow> (string \<times> string) set \<Rightarrow> bool" where
  "represents m E \<longleftrightarrow> mwf m \<and> (\<forall>t. mget m t = nonempty (canon E t))"

definition entries_of :: "required_state \<Rightarrow> (string \<times> string) set" where
  "entries_of m = {(t, k). k \<in> keys_of m t}"

text \<open>What a config asks for.\<close>

definition covers :: "required_state \<Rightarrow> string \<Rightarrow> string \<Rightarrow> bool" where
  "covers m t k \<longleftrightarrow> k \<in> keys_of m t \<or> Wildcard \<in> keys_of m t \<or> k \<in> keys_of m Wildcard \<or> Wildcard \<in> keys_of m Wildcard"

lemma represents_keys: "represents m E \<Longrightarrow> keys_of m t = canon E t"
  by (simp add: represents_def mgetz_def nonempty_def)

lemma represents_empty [simp]: "represents [] {}"
  by (simp add: represents_def canon_def nonempty_def)

lemma nonempty_insert [simp]: "nonempty (insert k s) = Some (insert k s)"
  by (simp add: nonempty_def)

lemma mwf_dropStateKey: "mwf m \<Longrightarrow> mwf (dropStateKey m k)"
  by (simp add: dropStateKey_def distinct_map_filter comp_def case_prod_beta)

lemma mget_dropStateKey:
  "mwf m \<Longrightarrow> mget (dropStateKey m k) t = (case mget m t of None \<Rightarrow> None | Some s \<Rightarrow> nonempty (s - {k}))"
proof (induction m)
  case (Cons x m)
  obtain t' s where x: "x = (t', s)" by (cases x)
  have d: "dropStateKey ((t', s) # m) k = (if s - {k} = {} then [] else [(t', s - {k})]) @ dropStateKey m k"
    by (auto simp: dropStateKey_def)
  have "mget m t' = None" using Cons.prems by (simp add: x map_of_eq_None_iff)
  with Cons show ?case unfolding x d by (auto simp: nonempty_def)
qed (simp add: dropStateKey_def)

text \<open>One entry more: the cases of the loop bodies.\<close>

lemma canon_covered: "(Wildcard, Wildcard) \<notin> E \<Longrightarrow> (Wildcard, k) \<in> E \<Longrightarrow> canon (insert (t, k) E) = canon E"
  by (rule ext) (auto simp: canon_def)

lemma canon_wild_key: "(t, Wildcard) \<in> E \<Longrightarrow> t \<noteq> Wildcard \<Longrightarrow> canon (insert (t, k) E) = canon E"
  by (rule ext) (auto simp: canon_def)

lemma canon_all: "(Wildcard, Wildcard) \<in> E \<Longrightarrow> (Wildcard, Wildcard) \<in> E' \<Longrightarrow> canon E = canon E'"
  by (rule ext) (auto simp: canon_def)

lemma canon_add_wild_type:
  "(Wildcard, Wildcard) \<notin> E \<Longrightarrow> k \<noteq> Wildcard \<Longrightarrow>
    canon (insert (Wildcard, k) E) t = (if t = Wildcard then insert k (canon E Wildcard) else canon E t - {k})"
  by (auto simp: canon_def)

lemma canon_add_wild_key:
  "(Wildcard, Wildcard) \<notin> E \<Longrightarrow> t \<noteq> Wildcard \<Longrightarrow>
    canon (insert (t, Wildcard) E) t' = (if t' = t then {Wildcard} else canon E t')"
  by (auto simp: canon_def)

lemma canon_add_plain:
  "(Wildcard, Wildcard) \<notin> E \<Longrightarrow> t \<noteq> Wildcard \<Longrightarrow> k \<noteq> Wildcard \<Longrightarrow> (t, Wildcard) \<notin> E \<Longrightarrow> (Wildcard, k) \<notin> E \<Longrightarrow>
    canon (insert (t, k) E) t' = (if t' = t then insert k (canon E t) else canon E t')"
  by (auto simp: canon_def)

lemma represents_all: "(Wildcard, Wildcard) \<in> E \<Longrightarrow> represents all_config E"
  by (simp add: represents_def all_config_def canon_def nonempty_def)

text \<open>The body both loops share, for an entry that is not yet covered.\<close>

definition add_entry :: "string \<Rightarrow> string \<Rightarrow> required_state \<Rightarrow> required_state" where
  "add_entry t k m =
     (let m = (if t = Wildcard then dropStateKey m k else m)
      in if k = Wildcard then mput t {Wildcard} m else mput t (insert k (keys_of m t)) m)"

lemma add_entry_represents:
  assumes r: "represents m E" and no_all: "(Wildcard, Wildcard) \<notin> E" and new: "(Wildcard, k) \<notin> E"
    and plain: "(t, Wildcard) \<notin> E" and not_all: "(t, k) \<noteq> (Wildcard, Wildcard)"
  shows "represents (add_entry t k m) (insert (t, k) E)"
proof -
  have wf: "mwf m" and get: "\<And>t. mget m t = nonempty (canon E t)" using r by (auto simp: represents_def)
  consider (type) "t = Wildcard" "k \<noteq> Wildcard" | (key) "t \<noteq> Wildcard" "k = Wildcard" | (plain) "t \<noteq> Wildcard" "k \<noteq> Wildcard"
    using not_all by auto
  then show ?thesis
  proof cases
    case type
    let ?d = "dropStateKey m k"
    have gd: "mget ?d t' = nonempty (canon E t' - {k})" for t'
      by (simp add: mget_dropStateKey [OF wf] get nonempty_def)
    have "k \<notin> canon E Wildcard" using no_all new by (simp add: canon_def)
    then have kd: "keys_of ?d Wildcard = canon E Wildcard" by (simp add: mgetz_def gd nonempty_def)
    have "add_entry t k m = mput Wildcard (insert k (canon E Wildcard)) ?d"
      using type by (simp add: add_entry_def Let_def kd)
    with type wf gd show ?thesis
      by (simp add: represents_def canon_add_wild_type [OF no_all] mwf_dropStateKey)
  next
    case key
    then show ?thesis using wf get
      by (simp add: represents_def add_entry_def canon_add_wild_key [OF no_all])
  next
    case plain
    then show ?thesis using wf get represents_keys [OF r] new \<open>(t, Wildcard) \<notin> E\<close>
      by (simp add: represents_def add_entry_def canon_add_plain [OF no_all])
  qed
qed

lemma config_loop_represents:
  assumes "represents m E" and "(Wildcard, Wildcard) \<notin> E"
  shows "case config_loop es m of Inl r \<Rightarrow> represents r (E \<union> set es) | Inr r \<Rightarrow> represents r (E \<union> set es)"
  using assms
proof (induction es m arbitrary: E rule: config_loop.induct)
  case (2 t k es m)
  note keys = represents_keys [OF "2.prems"(1)]
  have wild: "(k \<in> keys_of m Wildcard) = ((Wildcard, k) \<in> E)"
    using "2.prems"(2) by (simp add: keys canon_def)
  have wkey: "(Wildcard \<in> keys_of m t) = (t \<noteq> Wildcard \<and> (t, Wildcard) \<in> E)"
    using "2.prems"(2) by (simp add: keys canon_def)
  have un: "E \<union> set ((t, k) # es) = insert (t, k) E \<union> set es" by auto
  consider (covered) "(Wildcard, k) \<in> E" | (wild) "(Wildcard, k) \<notin> E" "t \<noteq> Wildcard" "(t, Wildcard) \<in> E"
    | (all) "(Wildcard, k) \<notin> E" "t = Wildcard" "k = Wildcard"
    | (new) "(Wildcard, k) \<notin> E" "(t, Wildcard) \<notin> E" "(t, k) \<noteq> (Wildcard, Wildcard)"
    using "2.prems"(2) by auto
  then show ?case
  proof cases
    case covered
    then have "represents m (insert (t, k) E)" "(Wildcard, Wildcard) \<notin> insert (t, k) E"
      using "2.prems" canon_covered [OF "2.prems"(2) covered, of t] by (auto simp: represents_def)
    with covered show ?thesis unfolding un using "2.IH"(1) [of "insert (t, k) E"] wild by simp
  next
    case wild': wild
    then have "represents m (insert (t, k) E)" "(Wildcard, Wildcard) \<notin> insert (t, k) E"
      using "2.prems" canon_wild_key [of t E k] by (auto simp: represents_def)
    with wild' show ?thesis unfolding un using "2.IH"(2) [of "insert (t, k) E"] wild wkey by simp
  next
    case all
    then show ?thesis using wild wkey by (simp add: represents_all)
  next
    case new
    let ?m = "if t = Wildcard then dropStateKey m k else m"
    have r: "represents (add_entry t k m) (insert (t, k) E)" "(Wildcard, Wildcard) \<notin> insert (t, k) E"
      using add_entry_represents [OF "2.prems"(1,2) new] new(3) "2.prems"(2) by auto
    have step: "config_loop ((t, k) # es) m = config_loop es (add_entry t k m)"
      using new wild wkey by (auto simp: add_entry_def Let_def)
    have "case config_loop es (add_entry t k m) of Inl r \<Rightarrow> represents r (insert (t, k) E \<union> set es)
        | Inr r \<Rightarrow> represents r (insert (t, k) E \<union> set es)"
    proof (cases "k = Wildcard")
      case True
      then show ?thesis using "2.IH"(3) [OF _ _ _ refl, of "insert (t, k) E"] new wild wkey r
        by (auto simp: add_entry_def Let_def)
    next
      case False
      then show ?thesis using "2.IH"(4) [OF _ _ _ refl, of "insert (t, k) E"] new wild wkey r
        by (auto simp: add_entry_def Let_def)
    qed
    then show ?thesis unfolding un step .
  qed
qed simp

lemma NewRoomSyncConfig_represents: "represents (rc_RequiredState (NewRoomSyncConfig p)) (set (cp_RequiredState p))"
  using config_loop_represents [OF represents_empty, of "cp_RequiredState p"]
  by (simp add: NewRoomSyncConfig_def split: sum.splits)

lemma combine_keys_represents:
  assumes "represents m E" and "(Wildcard, Wildcard) \<notin> E" and "(t, Wildcard) \<notin> E" and "t = Wildcard \<Longrightarrow> Wildcard \<notin> set ks"
  shows "represents (combine_keys t ks m) (E \<union> {t} \<times> set ks) \<and> ((Wildcard, Wildcard) \<in> E \<union> {t} \<times> set ks \<longrightarrow> False)"
  using assms
proof (induction t ks m arbitrary: E rule: combine_keys.induct)
  case (2 t k ks m)
  have wild: "(k \<in> keys_of m Wildcard) = ((Wildcard, k) \<in> E)"
    using "2.prems"(2) by (simp add: represents_keys [OF "2.prems"(1)] canon_def)
  have un: "E \<union> {t} \<times> set (k # ks) = insert (t, k) E \<union> {t} \<times> set ks" by auto
  show ?case
  proof (cases "(Wildcard, k) \<in> E")
    case True
    then have "represents m (insert (t, k) E)" "(Wildcard, Wildcard) \<notin> insert (t, k) E" "(t, Wildcard) \<notin> insert (t, k) E"
      using "2.prems" canon_covered [OF "2.prems"(2) True, of t] by (auto simp: represents_def)
    then show ?thesis unfolding un using True "2.IH"(1) [of "insert (t, k) E"] wild "2.prems"(4) by simp
  next
    case new: False
    have na: "(t, k) \<noteq> (Wildcard, Wildcard)" using "2.prems"(4) by auto
    have r: "represents (add_entry t k m) (insert (t, k) E)"
      by (rule add_entry_represents [OF "2.prems"(1,2) new "2.prems"(3) na])
    show ?thesis
    proof (cases "k = Wildcard")
      case True
      have "combine_keys t (k # ks) m = add_entry t k m"
        using new wild True by (simp add: add_entry_def Let_def)
      moreover have "canon (insert (t, k) E \<union> {t} \<times> A) = canon (insert (t, k) E)" for A
        using True na "2.prems"(2) by (intro ext) (auto simp: canon_def)
      ultimately show ?thesis unfolding un using r na "2.prems"(2,4) by (auto simp: represents_def)
    next
      case False
      then have "combine_keys t (k # ks) m = combine_keys t ks (add_entry t k m)"
        using new wild by (simp add: add_entry_def Let_def)
      moreover have "(Wildcard, Wildcard) \<notin> insert (t, k) E" "(t, Wildcard) \<notin> insert (t, k) E"
        using "2.prems"(2,3) na False by auto
      ultimately show ?thesis
        unfolding un using "2.IH"(2) [OF _ refl False, of "insert (t, k) E"] new wild r "2.prems"(4) False
        by (auto simp: add_entry_def Let_def)
    qed
  qed
qed simp

lemma canon_union_all: "(Wildcard, Wildcard) \<in> E \<Longrightarrow> canon (E \<union> F) = canon E"
  by (rule canon_all) auto

lemma canon_union_wild_key:
  "(Wildcard, Wildcard) \<notin> E \<Longrightarrow> t \<noteq> Wildcard \<Longrightarrow> (t, Wildcard) \<in> E \<Longrightarrow> canon (E \<union> {t} \<times> A) = canon E"
  by (rule ext) (auto simp: canon_def)

lemma combine_types_represents:
  assumes "represents m E" and "\<forall>(t, keys) \<in> set b. set (ord keys) = keys"
  shows "case combine_types ord b m of Inl r \<Rightarrow> represents r (E \<union> (\<Union>(t, keys) \<in> set b. {t} \<times> keys))
    | Inr r \<Rightarrow> represents r (E \<union> (\<Union>(t, keys) \<in> set b. {t} \<times> keys))"
  using assms
proof (induction ord b m arbitrary: E rule: combine_types.induct)
  case (2 ord t keys rest m)
  let ?F = "E \<union> {t} \<times> keys"
  note m = represents_keys [OF "2.prems"(1)]
  have un: "E \<union> (\<Union>(t, keys) \<in> set ((t, keys) # rest). {t} \<times> keys) = ?F \<union> (\<Union>(t, keys) \<in> set rest. {t} \<times> keys)"
    by auto
  have wild: "(Wildcard \<in> keys_of m Wildcard) = ((Wildcard, Wildcard) \<in> E)"
    by (simp add: m canon_def)
  have wkey: "(Wildcard \<in> keys_of m t) = (t \<noteq> Wildcard \<and> (t, Wildcard) \<in> E)" if "(Wildcard, Wildcard) \<notin> E"
    using that by (simp add: m canon_def)
  show ?case
  proof (cases "(Wildcard, Wildcard) \<in> E")
    case True
    then have "canon (E \<union> A) = canon E" for A by (rule canon_union_all)
    with True "2.prems"(1) wild show ?thesis by (simp add: represents_def)
  next
    case no_all: False
    consider (swallowed) "t \<noteq> Wildcard" "(t, Wildcard) \<in> E" | (all) "t = Wildcard" "Wildcard \<in> keys"
      | (new) "(t, Wildcard) \<notin> E" "t = Wildcard \<Longrightarrow> Wildcard \<notin> keys"
      using no_all by auto
    then show ?thesis
    proof cases
      case swallowed
      with "2.prems"(1) have "represents m ?F"
        using canon_union_wild_key [OF no_all swallowed, of keys] by (simp add: represents_def)
      with swallowed show ?thesis
        unfolding un using "2.IH"(1) [of ?F] "2.prems"(2) no_all wild wkey by simp
    next
      case all
      then have "(Wildcard, Wildcard) \<in> ?F \<union> (\<Union>(t, keys) \<in> set rest. {t} \<times> keys)" by auto
      with all show ?thesis
        unfolding un using no_all wild wkey [OF no_all] by (simp add: represents_all)
    next
      case new
      have ord: "set (ord keys) = keys" using "2.prems"(2) by simp
      with combine_keys_represents [OF "2.prems"(1) no_all new(1), of "ord keys"] new(2)
      have r: "represents (combine_keys t (ord keys) m) ?F" by simp
      have "case combine_types ord rest (combine_keys t (ord keys) m) of
          Inl r \<Rightarrow> represents r (?F \<union> (\<Union>(t, keys) \<in> set rest. {t} \<times> keys))
        | Inr r \<Rightarrow> represents r (?F \<union> (\<Union>(t, keys) \<in> set rest. {t} \<times> keys))"
        by (rule "2.IH"(2)) (use no_all new wild wkey [OF no_all] r "2.prems"(2) in auto)
      moreover have "combine_types ord ((t, keys) # rest) m = combine_types ord rest (combine_keys t (ord keys) m)"
        using no_all new wild wkey [OF no_all] by auto
      ultimately show ?thesis unfolding un by simp
    qed
  qed
qed simp

lemma entries_of_list: "mwf b \<Longrightarrow> (\<Union>(t, keys) \<in> set b. {t} \<times> keys) = entries_of b"
  by (auto simp: entries_of_def mgetz_def split: option.splits dest: map_of_SomeD) force

lemma CombineRoomSyncConfig_represents:
  assumes "represents (rc_RequiredState a) E" and "mwf (rc_RequiredState b)"
    and "\<forall>(t, keys) \<in> set (rc_RequiredState b). set (ord keys) = keys"
  shows "represents (rc_RequiredState (CombineRoomSyncConfig ord a b)) (E \<union> entries_of (rc_RequiredState b))"
  using combine_types_represents [OF assms(1,3)]
  by (simp add: CombineRoomSyncConfig_def entries_of_list [OF assms(2)] split: sum.splits)

text \<open>The normal form of a normal form, alone or in a union.\<close>

lemma canon_entries_of:
  assumes "represents b E"
  shows "canon (F \<union> entries_of b) = canon (F \<union> E)"
proof -
  have e: "entries_of b = {(t, k). k \<in> canon E t}" by (simp add: entries_of_def represents_keys [OF assms])
  have all: "((Wildcard, Wildcard) \<in> entries_of b) = ((Wildcard, Wildcard) \<in> E)" by (auto simp: e canon_def)
  show ?thesis
  proof (cases "(Wildcard, Wildcard) \<in> F \<union> E")
    case True
    with all have "(Wildcard, Wildcard) \<in> F \<union> entries_of b" by blast
    with True show ?thesis by (intro canon_all)
  next
    case False
    then have w: "((Wildcard, k) \<in> entries_of b) = ((Wildcard, k) \<in> E)" for k by (auto simp: e canon_def)
    have tw: "((t, Wildcard) \<in> entries_of b) = ((t, Wildcard) \<in> E)" if "t \<noteq> Wildcard" for t
      using False that by (auto simp: e canon_def)
    have tk: "((t, k) \<in> entries_of b) = ((t, k) \<in> E)" if "t \<noteq> Wildcard" "(t, Wildcard) \<notin> E" "(Wildcard, k) \<notin> E" for t k
      using False that by (auto simp: e canon_def)
    have sub: "(t, k) \<in> E" if "(t, k) \<in> entries_of b" for t k
      using that False by (auto simp: e canon_def split: if_splits)
    have no: "(Wildcard, Wildcard) \<notin> F \<union> entries_of b" using False all by blast
    have swallow: "((t, Wildcard) \<in> F \<union> entries_of b) = ((t, Wildcard) \<in> F \<union> E)" if "t \<noteq> Wildcard" for t
      using tw [OF that] by blast
    have plain: "((t, k) \<in> F \<union> entries_of b \<and> (Wildcard, k) \<notin> F \<union> entries_of b) =
        ((t, k) \<in> F \<union> E \<and> (Wildcard, k) \<notin> F \<union> E)" if "t \<noteq> Wildcard" "(t, Wildcard) \<notin> F \<union> E" for t k
      using tk [of t k] that w by blast
    have wild: "((Wildcard, k) \<in> F \<union> entries_of b) = ((Wildcard, k) \<in> F \<union> E)" for k
      using w by blast
    show ?thesis
      using wild swallow plain by (intro ext) (simp add: canon_def [of "F \<union> _"] False no del: Un_iff)
  qed
qed

lemma covers_canon:
  assumes "represents m E"
  shows "covers m t k = (\<exists>(a, b) \<in> E. (a = t \<or> a = Wildcard) \<and> (b = k \<or> b = Wildcard))"
  unfolding covers_def represents_keys [OF assms] canon_def by auto

section \<open>State filters, proved\<close>

lemma filter_types_loop_get:
  "mget (filter_types_loop es types) t =
    (if \<exists>e \<in> set es. tk_Type e = t \<and> tk_StateKey e = None then Some None
     else case mget types t of
       Some None \<Rightarrow> Some None
     | Some (Some s) \<Rightarrow> Some (Some (s \<union> {k. \<exists>e \<in> set es. tk_Type e = t \<and> tk_StateKey e = Some k}))
     | None \<Rightarrow> map_option Some (nonempty {k. \<exists>e \<in> set es. tk_Type e = t \<and> tk_StateKey e = Some k}))"
proof (induction es types rule: filter_types_loop.induct)
  case (1 types)
  then show ?case by (simp add: nonempty_def split: option.split)
next
  case (2 e es types)
  show ?case
  proof (cases "tk_StateKey e")
    case None
    with "2.IH"(1) show ?thesis by (auto split: option.split)
  next
    case (Some k)
    let ?K = "\<lambda>es. {k. \<exists>e \<in> set es. tk_Type e = t \<and> tk_StateKey e = Some k}"
    have K: "?K (e # es) = (if tk_Type e = t then insert k (?K es) else ?K es)" using Some by auto
    consider (none) "mget types (tk_Type e) = None" | (nil) "mget types (tk_Type e) = Some None"
      | (keys) s where "mget types (tk_Type e) = Some (Some s)" by (metis option.exhaust)
    then show ?thesis
    proof cases
      case none
      with Some "2.IH"(2) [OF Some none] show ?thesis unfolding K by (auto split: option.split)
    next
      case nil
      with Some "2.IH"(3) [OF Some nil refl] show ?thesis unfolding K by (auto split: option.split)
    next
      case keys
      with Some "2.IH"(4) [OF Some keys refl] show ?thesis unfolding K by (auto split: option.split)
    qed
  qed
qed

lemma Wants_FromTypes:
  "Wants (StateFilterFromTypes es) t k = (\<exists>e \<in> set es. tk_Type e = t \<and> (tk_StateKey e = None \<or> tk_StateKey e = Some k))"
  by (auto simp: Wants_def StateFilterFromTypes_def NoState_def filter_types_loop_get nonempty_def
      split: option.splits if_splits)

lemma mem_Entries:
  assumes "mwf (sf_types f)" and "\<forall>(t, s) \<in> set (sf_types f). \<forall>keys. s = Some keys \<longrightarrow> finite keys"
  shows "e \<in> set (Entries f) \<longleftrightarrow>
    (case mget (sf_types f) (tk_Type e) of None \<Rightarrow> False | Some None \<Rightarrow> tk_StateKey e = None
      | Some (Some keys) \<Rightarrow> \<exists>k \<in> keys. tk_StateKey e = Some k)"
proof -
  have fin: "finite keys" if "mget (sf_types f) t = Some (Some keys)" for t keys
    using assms(2) that by (auto dest!: map_of_SomeD)
  have row: "e \<in> set (entry_row f t) \<longleftrightarrow> tk_Type e = t \<and> (case s of None \<Rightarrow> tk_StateKey e = None | Some keys \<Rightarrow> \<exists>k \<in> keys. tk_StateKey e = Some k)"
    if "mget (sf_types f) t = Some s" for t s
    using that fin [of t] by (cases e, cases s) (auto simp: entry_row_def mgetz_def)
  have typed: "tk_Type e = t" if "e \<in> set (entry_row f t)" for t
    using that by (auto simp: entry_row_def split: option.splits)
  have "e \<in> set (Entries f) \<longleftrightarrow> (\<exists>t \<in> fst ` set (sf_types f). e \<in> set (entry_row f t))"
    by (simp add: Entries_def)
  also have "\<dots> \<longleftrightarrow> tk_Type e \<in> fst ` set (sf_types f) \<and> e \<in> set (entry_row f (tk_Type e))"
    by (metis typed)
  also have "\<dots> \<longleftrightarrow> (\<exists>s. mget (sf_types f) (tk_Type e) = Some s) \<and> e \<in> set (entry_row f (tk_Type e))"
    by (metis domIff dom_map_of_conv_image_fst not_None_eq)
  also have "\<dots> \<longleftrightarrow> (case mget (sf_types f) (tk_Type e) of None \<Rightarrow> False | Some None \<Rightarrow> tk_StateKey e = None
      | Some (Some keys) \<Rightarrow> \<exists>k \<in> keys. tk_StateKey e = Some k)"
    using row [of "tk_Type e"] by (auto split: option.splits)
  finally show ?thesis .
qed

lemma Wants_Entries:
  assumes "mwf (sf_types f)" and "\<forall>(t, s) \<in> set (sf_types f). \<forall>keys. s = Some keys \<longrightarrow> finite keys" and "\<not> sf_all f"
  shows "(\<exists>e \<in> set (Entries f). tk_Type e = t \<and> (tk_StateKey e = None \<or> tk_StateKey e = Some k)) = Wants f t k"
proof -
  note mem = mem_Entries [OF assms(1,2)]
  consider (none) "mget (sf_types f) t = None" | (nil) "mget (sf_types f) t = Some None"
    | (keys) s where "mget (sf_types f) t = Some (Some s)" by (metis option.exhaust)
  then show ?thesis
  proof cases
    case none
    then show ?thesis using assms(3) by (auto simp: Wants_def mem)
  next
    case nil
    then have "\<lparr>tk_Type = t, tk_StateKey = None\<rparr> \<in> set (Entries f)" by (simp add: mem)
    with nil assms(3) show ?thesis by (force simp: Wants_def)
  next
    case keys
    then have "(\<exists>e \<in> set (Entries f). tk_Type e = t \<and> (tk_StateKey e = None \<or> tk_StateKey e = Some k)) = (k \<in> s)"
    proof (intro iffI)
      assume "k \<in> s"
      with keys have "\<lparr>tk_Type = t, tk_StateKey = Some k\<rparr> \<in> set (Entries f)" by (simp add: mem)
      then show "\<exists>e \<in> set (Entries f). tk_Type e = t \<and> (tk_StateKey e = None \<or> tk_StateKey e = Some k)"
        by (rule bexI [rotated]) simp
    qed (auto simp: mem)
    with keys assms(3) show ?thesis by (simp add: Wants_def)
  qed
qed

section \<open>Partial state, proved\<close>

definition member_keys :: "string set" where
  "member_keys = - {Me, Lazy, Wildcard}"

lemma await_members_iff:
  "Wildcard \<notin> set us \<Longrightarrow> await_members isLocal us = (\<exists>u \<in> set us \<inter> member_keys. \<not> isLocal u)"
  by (induction us) (auto simp: member_keys_def)

lemma await_only_wild: "set us = {Wildcard} \<Longrightarrow> \<not> await_members isLocal us"
  by (cases us) (auto simp: Wildcard_def Me_def Lazy_def)

lemma canon_wild_only: "Wildcard \<in> canon E t \<Longrightarrow> (Wildcard, Wildcard) \<notin> E \<Longrightarrow> canon E t = {Wildcard}"
  by (auto simp: canon_def split: if_splits)

lemma MustAwaitFullState_canon:
  assumes r: "represents (rc_RequiredState cfg) E"
    and ord: "\<forall>t. set (ord (canon E t)) = canon E t"
  shows "MustAwaitFullState ord cfg isLocal \<longleftrightarrow>
    (Wildcard, Wildcard) \<in> E \<or> (\<exists>u. (Wildcard, u) \<in> E \<and> looksLikeUserID u \<and> \<not> isLocal u) \<or>
    ((memberEventType, Wildcard) \<notin> E \<and>
      (\<exists>u \<in> member_keys. (memberEventType, u) \<in> E \<and> (Wildcard, u) \<notin> E \<and> \<not> isLocal u))"
proof (cases "(Wildcard, Wildcard) \<in> E")
  case True
  then show ?thesis by (simp add: MustAwaitFullState_def represents_keys [OF r] canon_def Let_def)
next
  case no_all: False
  let ?W = "canon E Wildcard" and ?M = "canon E memberEventType"
  have mt: "memberEventType \<noteq> Wildcard" by (simp add: memberEventType_def Wildcard_def)
  have W: "?W = {k. (Wildcard, k) \<in> E}" using no_all by (simp add: canon_def)
  have sW: "set (ord ?W) = {k. (Wildcard, k) \<in> E}" using ord [THEN spec, of Wildcard] W by (rule trans)
  have wild: "list_ex (\<lambda>k. looksLikeUserID k \<and> \<not> isLocal k) (ord ?W) = (\<exists>u. (Wildcard, u) \<in> E \<and> looksLikeUserID u \<and> \<not> isLocal u)"
    unfolding list_ex_iff sW by blast
  have members: "await_members isLocal (ord ?M) = ((memberEventType, Wildcard) \<notin> E \<and>
      (\<exists>u \<in> member_keys. (memberEventType, u) \<in> E \<and> (Wildcard, u) \<notin> E \<and> \<not> isLocal u))"
  proof (cases "(memberEventType, Wildcard) \<in> E")
    case True
    then have "?M = {Wildcard}" using no_all mt by (simp add: canon_def)
    with ord [THEN spec, of memberEventType] have "set (ord ?M) = {Wildcard}" by simp
    with True await_only_wild show ?thesis by simp
  next
    case False
    then have M: "?M = {k. (memberEventType, k) \<in> E \<and> (Wildcard, k) \<notin> E}"
      using no_all mt by (simp add: canon_def)
    with ord [THEN spec, of memberEventType] have s: "set (ord ?M) = {k. (memberEventType, k) \<in> E \<and> (Wildcard, k) \<notin> E}"
      by simp
    with False have "Wildcard \<notin> set (ord ?M)" by simp
    from await_members_iff [OF this] False s show ?thesis by auto
  qed
  have nil: "\<not> await_members isLocal (ord ?M)" if "?M = {}"
    using ord that by (metis await_members.simps(1) set_empty)
  have get: "mget (rc_RequiredState cfg) memberEventType = nonempty ?M" using r by (simp add: represents_def)
  have noW: "Wildcard \<notin> ?W" using no_all W by simp
  have "MustAwaitFullState ord cfg isLocal \<longleftrightarrow>
      (\<exists>u. (Wildcard, u) \<in> E \<and> looksLikeUserID u \<and> \<not> isLocal u) \<or> await_members isLocal (ord ?M)"
    using nil noW
    by (simp add: MustAwaitFullState_def represents_keys [OF r] Let_def wild get nonempty_def) blast
  with no_all members show ?thesis by blast
qed

lemma finite_canon: "finite E \<Longrightarrow> finite (canon E t)"
proof -
  assume "finite E"
  then have "finite (insert Wildcard (snd ` E))" by simp
  then show ?thesis by (rule rev_finite_subset) (auto simp: canon_def intro: rev_image_eqI)
qed

text \<open>\<^verbatim>\<open>range\<close> over a finite map visits every key, in some order.\<close>

definition iteration_order :: "(string set \<Rightarrow> string list) \<Rightarrow> bool" where
  "iteration_order ord \<longleftrightarrow> (\<forall>s. finite s \<longrightarrow> set (ord s) = s)"

lemma iteration_order_sorted: "iteration_order sortedKeys"
  by (simp add: iteration_order_def)

lemma combine_represents_params:
  assumes "iteration_order ord" and "represents (rc_RequiredState a) E"
  shows "represents (rc_RequiredState (CombineRoomSyncConfig ord a (NewRoomSyncConfig q))) (E \<union> set (cp_RequiredState q))"
proof -
  let ?b = "rc_RequiredState (NewRoomSyncConfig q)" and ?Q = "set (cp_RequiredState q)"
  have b: "represents ?b ?Q" by (rule NewRoomSyncConfig_represents)
  then have wf: "mwf ?b" by (simp add: represents_def)
  have "\<forall>(t, keys) \<in> set ?b. set (ord keys) = keys"
  proof (intro ballI, clarify)
    fix t keys assume "(t, keys) \<in> set ?b"
    with wf have "mget ?b t = Some keys" by simp
    with b have "keys = canon ?Q t" by (auto simp: represents_def nonempty_def split: if_splits)
    then show "set (ord keys) = keys" using assms(1) finite_canon [of ?Q t] by (simp add: iteration_order_def)
  qed
  from CombineRoomSyncConfig_represents [OF assms(2) wf this] canon_entries_of [OF b, of E]
  show ?thesis by (simp add: represents_def)
qed

section \<open>Properties\<close>

text \<open>
  \<^verbatim>\<open>NewRoomSyncConfig\<close> computes the normal form of the \<^emph>\<open>set\<close> of requested entries: under every
  type it stores exactly the keys \<open>canon\<close> gives, and no type with an empty set. Two requests that
  list the same entries in another order, or repeat some, get equal configs.
\<close>

theorem room_config_is_canonical:
  "mwf (rc_RequiredState (NewRoomSyncConfig p)) \<and>
    (\<forall>t. mget (rc_RequiredState (NewRoomSyncConfig p)) t = nonempty (canon (set (cp_RequiredState p)) t)) \<and>
    rc_TimelineLimit (NewRoomSyncConfig p) = cp_TimelineLimit p"
  using NewRoomSyncConfig_represents [of p] by (simp add: represents_def) (simp add: NewRoomSyncConfig_def)

text \<open>
  Normalising loses nothing and adds nothing: a config asks for a state entry exactly when
  some requested entry does, directly or through a wildcard.
\<close>

theorem room_config_covers_request:
  "covers (rc_RequiredState (NewRoomSyncConfig p)) t k =
    (\<exists>(a, b) \<in> set (cp_RequiredState p). (a = t \<or> a = Wildcard) \<and> (b = k \<or> b = Wildcard))"
  by (rule covers_canon [OF NewRoomSyncConfig_represents])

text \<open>
  A room in several lists gets the union. Combining the configs of any number of lists, in
  any order of the lists and any iteration order of the maps, gives the normal form of all their
  entries together, and the largest of their timeline limits.
\<close>

theorem combined_config_is_union:
  assumes "iteration_order ord"
  shows "let r = foldl (CombineRoomSyncConfig ord) (NewRoomSyncConfig p) (map NewRoomSyncConfig ps) in
    (\<forall>t. mget (rc_RequiredState r) t = nonempty (canon (\<Union>q \<in> set (p # ps). set (cp_RequiredState q)) t)) \<and>
    rc_TimelineLimit r = Max (cp_TimelineLimit ` set (p # ps))"
  unfolding Let_def
proof
  let ?r = "foldl (CombineRoomSyncConfig ord) (NewRoomSyncConfig p) (map NewRoomSyncConfig ps)"
  have "represents (rc_RequiredState (foldl (CombineRoomSyncConfig ord) a (map NewRoomSyncConfig ps)))
      (E \<union> (\<Union>q \<in> set ps. set (cp_RequiredState q)))" if "represents (rc_RequiredState a) E" for a E
    using that
  proof (induction ps arbitrary: a E)
    case (Cons q ps)
    from Cons.IH [OF combine_represents_params [OF assms(1) Cons.prems, of q]] show ?case by (simp add: Un_assoc)
  qed simp
  from this [OF NewRoomSyncConfig_represents [of p]] show "\<forall>t. mget (rc_RequiredState ?r) t =
      nonempty (canon (\<Union>q \<in> set (p # ps). set (cp_RequiredState q)) t)"
    by (simp add: represents_def)
  have "rc_TimelineLimit (foldl (CombineRoomSyncConfig ord) a (map NewRoomSyncConfig ps)) =
      Max (insert (rc_TimelineLimit a) (cp_TimelineLimit ` set ps))" for a
  proof (induction ps arbitrary: a)
    case (Cons q ps)
    have "rc_TimelineLimit (CombineRoomSyncConfig ord a (NewRoomSyncConfig q)) = max (rc_TimelineLimit a) (cp_TimelineLimit q)"
      by (simp add: CombineRoomSyncConfig_def NewRoomSyncConfig_def max_def)
    with Cons show ?case by (cases "ps = []") (simp_all add: max.assoc)
  qed simp
  then show "rc_TimelineLimit ?r = Max (cp_TimelineLimit ` set (p # ps))"
    by (simp add: NewRoomSyncConfig_def)
qed

theorem combined_config_is_union_witness:
  "mget (rc_RequiredState (CombineRoomSyncConfig sortedKeys
      (NewRoomSyncConfig \<lparr>cp_RequiredState = [(''m.room.name'', ''''), (''m.room.member'', ''$ME'')], cp_TimelineLimit = 1\<rparr>)
      (NewRoomSyncConfig \<lparr>cp_RequiredState = [(''*'', '''')], cp_TimelineLimit = 5\<rparr>))) ''m.room.name'' = None"
  using combined_config_is_union [OF iteration_order_sorted,
    of "\<lparr>cp_RequiredState = [(''m.room.name'', ''''), (''m.room.member'', ''$ME'')], cp_TimelineLimit = 1\<rparr>"
       "[\<lparr>cp_RequiredState = [(''*'', '''')], cp_TimelineLimit = 5\<rparr>]"]
  by (simp add: canon_def Wildcard_def nonempty_def Let_def)

text \<open>
  Whether a partially stated room must be held back. For every config the request code
  builds, and whatever the iteration order, \<^verbatim>\<open>MustAwaitFullState\<close> is true exactly when all state is
  wanted, or a remote user's membership is wanted through a wildcard type, or one is wanted by
  name without all memberships being wanted.
\<close>

theorem must_await_full_state_iff:
  assumes "iteration_order ord"
  shows "MustAwaitFullState ord (NewRoomSyncConfig p) isLocal \<longleftrightarrow>
    (Wildcard, Wildcard) \<in> set (cp_RequiredState p) \<or>
    (\<exists>u. (Wildcard, u) \<in> set (cp_RequiredState p) \<and> looksLikeUserID u \<and> \<not> isLocal u) \<or>
    ((memberEventType, Wildcard) \<notin> set (cp_RequiredState p) \<and>
      (\<exists>u \<in> member_keys. (memberEventType, u) \<in> set (cp_RequiredState p) \<and>
        (Wildcard, u) \<notin> set (cp_RequiredState p) \<and> \<not> isLocal u))"
  by (rule MustAwaitFullState_canon [OF NewRoomSyncConfig_represents])
    (use assms finite_canon [of "set (cp_RequiredState p)"] in \<open>simp add: iteration_order_def\<close>)

theorem must_await_full_state_iff_witness:
  "MustAwaitFullState sortedKeys (NewRoomSyncConfig \<lparr>cp_RequiredState =
      [(''m.room.member'', ''$LAZY''), (''m.room.member'', ''@a:far.example'')], cp_TimelineLimit = 1\<rparr>) (IsLocalUser ''here.example'')"
  unfolding must_await_full_state_iff [OF iteration_order_sorted]
  by (simp add: Wildcard_def memberEventType_def member_keys_def Me_def Lazy_def IsLocalUser_def HasSuffix_def)

text \<open>
  A state filter built from entries wants exactly what some entry names, a nil state key
  standing for all keys of its type, whatever the order of the entries; and building a filter
  from the entries it lists gives a filter that wants the same.
\<close>

theorem state_filter_wants:
  "Wants (StateFilterFromTypes es) t k = (\<exists>e \<in> set es. tk_Type e = t \<and> (tk_StateKey e = None \<or> tk_StateKey e = Some k)) \<and>
    Wants (StateFilterFromTypes (Entries (StateFilterFromTypes es))) t k = Wants (StateFilterFromTypes es) t k"
proof -
  let ?f = "StateFilterFromTypes es"
  have wf: "mwf (filter_types_loop es m)" if "mwf m" for m
    using that by (induction es m rule: filter_types_loop.induct) (auto split: option.split)
  then have wf_f: "mwf (sf_types ?f)" by (simp add: StateFilterFromTypes_def NoState_def)
  have "finite {k. \<exists>e \<in> set es. tk_Type e = t \<and> tk_StateKey e = Some k}" for t
    by (rule finite_subset [of _ "(\<lambda>e. the (tk_StateKey e)) ` set es"]) force+
  then have "finite keys" if "mget (sf_types ?f) t = Some (Some keys)" for t keys
    using that by (auto simp: StateFilterFromTypes_def NoState_def filter_types_loop_get nonempty_def split: if_splits)
  then have fin: "\<forall>(t, s) \<in> set (sf_types ?f). \<forall>keys. s = Some keys \<longrightarrow> finite keys"
    using wf_f by (auto simp: map_of_is_SomeI)
  have all: "\<not> sf_all ?f" by (simp add: StateFilterFromTypes_def NoState_def)
  have "Wants (StateFilterFromTypes (Entries ?f)) t k =
      (\<exists>e \<in> set (Entries ?f). tk_Type e = t \<and> (tk_StateKey e = None \<or> tk_StateKey e = Some k))"
    by (rule Wants_FromTypes)
  also have "\<dots> = Wants ?f t k"
    by (rule Wants_Entries [OF wf_f fin all])
  finally show ?thesis by (simp add: Wants_FromTypes)
qed

end
