(* ===== verification/Required_State.thy ===== *)
theory Required_State
  imports Room_Config
begin

text \<open>
  The required-state diff: \<^verbatim>\<open>internal/slidingsync/requiredstate.go\<close>, and the plan and the bookkeeping
  around it in \<^verbatim>\<open>requiredstateresolve.go\<close>.

  The connection remembers, per room, an effective \<^verbatim>\<open>required_state\<close> (\<open>prev\<close>): the state the client
  has been sent and, as long as it does not change, still has. Against the request and the state
  that changed since, \<^verbatim>\<open>ComputeRequiredStateChanges\<close> decides what must be fetched on top of the deltas
  (\<open>rs_Added\<close>) and what the effective config becomes (\<open>rs_Changed\<close>, \<open>None\<close> for Go's nil). The two
  ways it can be wrong are the two groups of theorems: not fetching what the client lacks, and
  remembering what the client no longer has.

  Events are not fetched here: the timeline and the deltas are arguments, as they are in the code.
\<close>

section \<open>The model\<close>

type_synonym state_key = "string \<times> string"

definition MaxRememberedStateKeys :: nat where "MaxRememberedStateKeys = 100"

record RequiredStateChanges =
  rs_Changed :: "required_state option"
  rs_Added :: StateFilter
  rs_ExtraLazyMembers :: "string set"
  rs_InvalidatedLazyMembers :: "string set"

definition sameSet :: "string set \<Rightarrow> string set \<Rightarrow> bool" where
  "sameSet a b \<longleftrightarrow> card a = card b \<and> (\<forall>k \<in> a. k \<in> b)"

definition sameRequiredState :: "required_state \<Rightarrow> required_state \<Rightarrow> bool" where
  "sameRequiredState a b \<longleftrightarrow> length a = length b \<and> (\<forall>(eventType, keys) \<in> set a. sameSet keys (keys_of b eventType))"

definition setDifference :: "string set \<Rightarrow> string set \<Rightarrow> string set" where
  "setDifference a b = {k \<in> a. k \<notin> b}"

definition setIntersection :: "string set \<Rightarrow> string set \<Rightarrow> string set" where
  "setIntersection a b = {k \<in> a. k \<in> b}"

definition setUnion :: "string set \<Rightarrow> string set \<Rightarrow> string set" where
  "setUnion a b = a \<union> b"

definition sortedUnion :: "required_state \<Rightarrow> required_state \<Rightarrow> string list" where
  "sortedUnion a b = sortedKeys (set (mkeys a) \<union> set (mkeys b))"

definition sortedKeys2 :: "required_state \<Rightarrow> string list" where
  "sortedKeys2 m = sortedKeys (set (mkeys m))"

abbreviation exact :: "string \<Rightarrow> string \<Rightarrow> TypeAndKey" where
  "exact t k \<equiv> \<lparr>tk_Type = t, tk_StateKey = Some k\<rparr>"

abbreviation every_key :: "string \<Rightarrow> TypeAndKey" where
  "every_key t \<equiv> \<lparr>tk_Type = t, tk_StateKey = None\<rparr>"

text \<open>Lazily sent members whose membership changed and is not sent now.\<close>

definition invalidated_lazy :: "state_key set \<Rightarrow> string set \<Rightarrow> string set \<Rightarrow> string set" where
  "invalidated_lazy stateDeltas requestLazy previouslyReturnedLazy =
     {k. (memberEventType, k) \<in> stateDeltas \<and> k \<notin> requestLazy \<and> k \<in> previouslyReturnedLazy}"

definition changedByType :: "state_key set \<Rightarrow> string \<Rightarrow> string set" where
  "changedByType stateDeltas eventType = snd ` {d \<in> stateDeltas. fst d = eventType}"

text \<open>The keys the first pass remembers for a type, with the bound on their number.\<close>

definition remembered :: "string set \<Rightarrow> string set \<Rightarrow> string set" where
  "remembered requestKeys inheritable =
     (let union = setUnion requestKeys inheritable in
      if card union > MaxRememberedStateKeys then
        if card requestKeys < MaxRememberedStateKeys then
          requestKeys \<union> set (take (MaxRememberedStateKeys - card requestKeys) (sortedKeys inheritable))
        else requestKeys
      else union)"

text \<open>What one newly requested key of a type adds to the fetch.\<close>

definition added_for_key :: "string \<Rightarrow> string set \<Rightarrow> string \<Rightarrow> string \<Rightarrow> TypeAndKey list" where
  "added_for_key userID previouslyReturnedLazy eventType stateKey =
     (if stateKey = Me then [exact eventType userID]
      else if stateKey = Lazy then []
      else if eventType = memberEventType then
        (if stateKey \<notin> previouslyReturnedLazy then [exact eventType stateKey] else [])
      else [exact eventType stateKey])"

text \<open>First pass, one type: what was added to the request.\<close>

definition first_pass_step ::
  "string \<Rightarrow> required_state \<Rightarrow> required_state \<Rightarrow> string set \<Rightarrow> state_key set \<Rightarrow> string \<Rightarrow>
    required_state \<times> TypeAndKey list \<Rightarrow> required_state \<times> TypeAndKey list" where
  "first_pass_step userID prev request previouslyReturnedLazy stateDeltas eventType acc =
     (let (changes, added) = acc;
          oldKeys = keys_of prev eventType;
          requestKeys = keys_of request eventType;
          changedKeys = changedByType stateDeltas eventType
      in if sameSet oldKeys requestKeys then (changes, added)
         else if setDifference requestKeys oldKeys = {} then (changes, added)
         else if eventType = memberEventType \<and> Lazy \<notin> oldKeys \<and> Lazy \<in> requestKeys then
           (mput eventType requestKeys changes, added)
         else
           let invalidated = setIntersection (setDifference oldKeys requestKeys) changedKeys;
               inheritable = setDifference (setDifference oldKeys {Wildcard, Lazy}) invalidated;
               changes = mput eventType (remembered requestKeys inheritable) changes
           in if Wildcard \<in> oldKeys then (changes, added)
              else if Wildcard \<in> requestKeys then (changes, added @ [every_key eventType])
              else (changes, added @ concat (map (added_for_key userID previouslyReturnedLazy eventType)
                      (sortedKeys (setDifference requestKeys oldKeys)))))"

text \<open>Lazily loaded members the connection has neither been given lazily nor asked for before.\<close>

definition added_lazy :: "string \<Rightarrow> required_state \<Rightarrow> string set \<Rightarrow> string set \<Rightarrow> TypeAndKey list" where
  "added_lazy userID prev previouslyReturnedLazy requestLazy =
     (let explicit = keys_of prev memberEventType;
          explicit = (if Me \<in> explicit then insert userID explicit else explicit)
      in map (exact memberEventType)
           (filter (\<lambda>u. \<not> (u \<in> previouslyReturnedLazy \<or> u \<in> explicit)) (sortedKeys requestLazy)))"

text \<open>Second pass, one type whose state changed: what was removed from the request.\<close>

definition second_pass_step ::
  "string \<Rightarrow> required_state \<Rightarrow> required_state \<Rightarrow> state_key set \<Rightarrow> string \<Rightarrow> required_state \<Rightarrow> required_state" where
  "second_pass_step userID prev request stateDeltas eventType changes =
     (let changedKeys = changedByType stateDeltas eventType;
          oldKeys = keys_of prev eventType;
          requestKeys = keys_of request eventType
      in if sameSet oldKeys requestKeys then changes
         else
           let changedKeys = (if userID \<in> changedKeys then insert Me changedKeys else changedKeys);
               invalidated = setIntersection (setDifference oldKeys requestKeys) changedKeys
           in if setDifference requestKeys oldKeys \<noteq> {} then changes
              else if (Wildcard \<in> oldKeys) \<noteq> (Wildcard \<in> requestKeys) then mput eventType requestKeys changes
              else if eventType = memberEventType \<and> (Lazy \<in> oldKeys) \<noteq> (Lazy \<in> requestKeys) then
                mput eventType requestKeys changes
              else if eventType = memberEventType \<and> (Lazy \<in> oldKeys \<or> Lazy \<in> requestKeys) \<and> invalidated \<noteq> {} then
                mput eventType requestKeys changes
              else if invalidated \<noteq> {} then mput eventType (setDifference oldKeys invalidated) changes
              else changes)"

definition extra_lazy :: "string \<Rightarrow> required_state \<Rightarrow> required_state \<Rightarrow> state_key set \<Rightarrow> required_state \<Rightarrow> string set" where
  "extra_lazy userID prev request stateDeltas changes =
     (if keys_of changes memberEventType \<noteq> {} \<and> Lazy \<in> keys_of request memberEventType then
        {u. \<exists>k \<in> keys_of prev memberEventType. k \<noteq> Wildcard \<and> k \<noteq> Lazy \<and>
              u = (if k = Me then userID else k) \<and> (memberEventType, u) \<notin> stateDeltas}
      else {})"

text \<open>Applying the changed types to a copy of the previous map.\<close>

definition apply_changes :: "required_state \<Rightarrow> required_state \<Rightarrow> required_state" where
  "apply_changes prev changes =
     fold (\<lambda>(eventType, keys) m. if keys \<noteq> {} then mput eventType keys m else mdel eventType m) changes prev"

definition ComputeRequiredStateChanges ::
  "string \<Rightarrow> required_state \<Rightarrow> required_state \<Rightarrow> string set \<Rightarrow> string set \<Rightarrow> state_key set \<Rightarrow> RequiredStateChanges" where
  "ComputeRequiredStateChanges userID prev request previouslyReturnedLazy requestLazy stateDeltas =
     (let invalidatedLazy = invalidated_lazy stateDeltas requestLazy previouslyReturnedLazy;
          quick = (\<lambda>changed added. \<lparr>rs_Changed = changed, rs_Added = added,
            rs_ExtraLazyMembers = {}, rs_InvalidatedLazyMembers = invalidatedLazy\<rparr>);
          prevWildcard = keys_of prev Wildcard;
          requestWildcard = keys_of request Wildcard
      in if sameRequiredState prev request then
           quick None (StateFilterFromTypes (map (exact memberEventType)
             (filter (\<lambda>u. u \<notin> previouslyReturnedLazy) (sortedKeys requestLazy))))
         else if Wildcard \<in> prevWildcard then quick (Some request) NoState
         else if setDifference requestWildcard prevWildcard \<noteq> {} then quick (Some request) AllState
         else if setDifference prevWildcard requestWildcard \<noteq> {} then quick (Some request) NoState
         else
           let (changes, added) = fold (first_pass_step userID prev request previouslyReturnedLazy stateDeltas)
                 (sortedUnion prev request) ([], []);
               added = added @ added_lazy userID prev previouslyReturnedLazy requestLazy;
               changes = fold (second_pass_step userID prev request stateDeltas)
                 (sortedKeys (fst ` stateDeltas)) changes
           in \<lparr>rs_Changed = (if changes \<noteq> [] then Some (apply_changes prev changes) else None),
               rs_Added = StateFilterFromTypes added,
               rs_ExtraLazyMembers = extra_lazy userID prev request stateDeltas changes,
               rs_InvalidatedLazyMembers = invalidatedLazy\<rparr>)"

subsection \<open>The plan\<close>

record TimelineEvent =
  te_EventID :: string
  te_RoomID :: string
  te_Type :: string
  te_JSON :: string
  te_InternalMetadata :: string
  te_RoomVersion :: string
  te_Sender :: string
  te_StreamOrdering :: int
  te_TopologicalOrder :: int
  te_InstanceName :: string
  te_StateKey :: string
  te_IsState :: bool

record requiredStatePlan =
  pl_all :: bool
  pl_keys :: "state_key list"
  pl_wildcardTypes :: "string list"
  pl_lazyLoad :: bool
  pl_lazyUserIDs :: "string set"
  pl_explicitUserIDs :: "string set"

definition empty_plan :: requiredStatePlan where
  "empty_plan = \<lparr>pl_all = False, pl_keys = [], pl_wildcardTypes = [], pl_lazyLoad = False,
     pl_lazyUserIDs = {}, pl_explicitUserIDs = {}\<rparr>"

text \<open>The users a timeline makes relevant: every sender, and the subject of every membership change.\<close>

definition timeline_users :: "TimelineEvent list \<Rightarrow> string set" where
  "timeline_users timeline = te_Sender ` set timeline \<union>
     te_StateKey ` {e \<in> set timeline. te_Type e = memberEventType \<and> te_IsState e}"

definition plan_key ::
  "string \<Rightarrow> TimelineEvent list \<Rightarrow> state_key set \<Rightarrow> bool \<Rightarrow> bool \<Rightarrow> state_key \<Rightarrow> requiredStatePlan \<Rightarrow> requiredStatePlan" where
  "plan_key userID timeline deltas limited initial tk p =
     (let (eventType, stateKey) = tk in
      if stateKey = Wildcard then p\<lparr>pl_wildcardTypes := pl_wildcardTypes p @ [eventType]\<rparr>
      else if eventType = memberEventType \<and> stateKey = Lazy then
        let users = pl_lazyUserIDs p \<union> timeline_users timeline in
        if limited \<or> initial then
          p\<lparr>pl_lazyLoad := True, pl_lazyUserIDs := users,
            pl_keys := pl_keys p @ map (Pair memberEventType) (sortedKeys users)\<rparr>
        else
          p\<lparr>pl_lazyLoad := True,
            pl_lazyUserIDs := users \<union> changedByType deltas memberEventType,
            pl_wildcardTypes := pl_wildcardTypes p @ [memberEventType]\<rparr>
      else if stateKey = Lazy then p
      else
        let normalised = (if stateKey = Me then userID else stateKey) in
        p\<lparr>pl_explicitUserIDs := (if eventType = memberEventType then insert normalised (pl_explicitUserIDs p)
                                  else pl_explicitUserIDs p),
          pl_keys := pl_keys p @ [(eventType, normalised)]\<rparr>)"

definition config_entries :: "required_state \<Rightarrow> state_key list" where
  "config_entries m = concat (map (\<lambda>t. map (Pair t) (sortedKeys (keys_of m t))) (sortedKeys2 m))"

definition planRequiredState ::
  "string \<Rightarrow> RoomSyncConfig \<Rightarrow> TimelineEvent list \<Rightarrow> state_key set \<Rightarrow> bool \<Rightarrow> bool \<Rightarrow> requiredStatePlan" where
  "planRequiredState userID cfg timeline deltas limited initial =
     (if Wildcard \<in> keys_of (rc_RequiredState cfg) Wildcard \<or> mget (rc_RequiredState cfg) Wildcard \<noteq> None
      then empty_plan\<lparr>pl_all := True\<rparr>
      else
        let p = fold (plan_key userID timeline deltas limited initial) (config_entries (rc_RequiredState cfg)) empty_plan
        in p\<lparr>pl_lazyUserIDs := pl_lazyUserIDs p - pl_explicitUserIDs p\<rparr>)"

definition plan_wants :: "requiredStatePlan \<Rightarrow> state_key \<Rightarrow> bool" where
  "plan_wants p k =
     (if pl_all p then True
      else if list_ex (\<lambda>t. fst k = t) (pl_wildcardTypes p) then True
      else list_ex (\<lambda>want. want = k) (pl_keys p))"

definition plan_isEmpty :: "requiredStatePlan \<Rightarrow> bool" where
  "plan_isEmpty p \<longleftrightarrow> \<not> pl_all p \<and> pl_keys p = [] \<and> pl_wildcardTypes p = []"

subsection \<open>What the connection is told\<close>

text \<open>The config \<^verbatim>\<open>resolveRequiredState\<close> records for an incremental room with a stored config.\<close>

definition recorded_config :: "RoomSyncConfig \<Rightarrow> RequiredStateChanges \<Rightarrow> required_state" where
  "recorded_config cfg changes = (case rs_Changed changes of Some m \<Rightarrow> m | None \<Rightarrow> rc_RequiredState cfg)"

record LazyMembers =
  lm_Returned :: "(string, int option) gomap"
  lm_Invalidated :: "string set"

definition recordLazyMembership ::
  "(string, int) gomap \<Rightarrow> requiredStatePlan \<Rightarrow> RequiredStateChanges \<Rightarrow> LazyMembers option" where
  "recordLazyMembership lastSeen plan changes =
     (if \<not> pl_lazyLoad plan then None
      else
        let returned = map (\<lambda>u. (u, mget lastSeen u)) (sortedKeys (pl_lazyUserIDs plan));
            returned = returned @ map (\<lambda>u. (u, None)) (sortedKeys (rs_ExtraLazyMembers changes - pl_lazyUserIDs plan))
        in Some \<lparr>lm_Returned = returned, lm_Invalidated = rs_InvalidatedLazyMembers changes\<rparr>)"

section \<open>The diff in closed form\<close>

definition config_ok :: "required_state \<Rightarrow> bool" where
  "config_ok m \<longleftrightarrow> mwf m \<and> (\<forall>t s. mget m t = Some s \<longrightarrow> finite s \<and> s \<noteq> {})"

lemma config_ok_finite: "config_ok m \<Longrightarrow> finite (keys_of m t)"
  by (auto simp: config_ok_def mgetz_def split: option.splits)

lemma config_ok_types: "config_ok m \<Longrightarrow> t \<in> fst ` set m \<longleftrightarrow> keys_of m t \<noteq> {}"
  by (auto simp: config_ok_def mgetz_def dom_map_of_conv_image_fst [symmetric] split: option.splits)

lemma sameSet_eq: "finite a \<Longrightarrow> finite b \<Longrightarrow> sameSet a b = (a = b)"
  unfolding sameSet_def by (metis card_subset_eq subsetI)

lemma represents_config_ok: "represents m E \<Longrightarrow> finite E \<Longrightarrow> config_ok m"
  using finite_canon by (auto simp: represents_def config_ok_def nonempty_def split: if_splits)

lemma set_ops [simp]:
  "setDifference a b = a - b" "setIntersection a b = a \<inter> b" "setUnion a b = a \<union> b"
  by (auto simp: setDifference_def setIntersection_def setUnion_def)

lemma mem_changedByType [simp]: "k \<in> changedByType D t \<longleftrightarrow> (t, k) \<in> D"
  by (force simp: changedByType_def)

text \<open>What the first pass does for one type.\<close>

definition fp_change :: "required_state \<Rightarrow> required_state \<Rightarrow> state_key set \<Rightarrow> string \<Rightarrow> string set option" where
  "fp_change P R D t =
     (if keys_of R t \<subseteq> keys_of P t then None
      else if t = memberEventType \<and> Lazy \<notin> keys_of P t \<and> Lazy \<in> keys_of R t then Some (keys_of R t)
      else Some (remembered (keys_of R t)
             ((keys_of P t - {Wildcard, Lazy}) - ((keys_of P t - keys_of R t) \<inter> changedByType D t))))"

definition fp_added :: "string \<Rightarrow> required_state \<Rightarrow> required_state \<Rightarrow> string set \<Rightarrow> string \<Rightarrow> TypeAndKey list" where
  "fp_added U P R L t =
     (if keys_of R t \<subseteq> keys_of P t \<or> (t = memberEventType \<and> Lazy \<notin> keys_of P t \<and> Lazy \<in> keys_of R t)
        \<or> Wildcard \<in> keys_of P t then []
      else if Wildcard \<in> keys_of R t then [every_key t]
      else concat (map (added_for_key U L t) (sortedKeys (keys_of R t - keys_of P t))))"

definition upd :: "string \<Rightarrow> string set option \<Rightarrow> required_state \<Rightarrow> required_state" where
  "upd t v m = (case v of None \<Rightarrow> m | Some ks \<Rightarrow> mput t ks m)"

lemma mget_upd [simp]: "mget (upd t v m) t' = (if t' = t \<and> v \<noteq> None then v else mget m t')"
  by (auto simp: upd_def split: option.split)

lemma mwf_upd [simp]: "mwf m \<Longrightarrow> mwf (upd t v m)"
  by (auto simp: upd_def split: option.split)

lemma first_pass_step_eq:
  assumes "config_ok P" and "config_ok R"
  shows "first_pass_step U P R L D t (c, a) = (upd t (fp_change P R D t) c, a @ fp_added U P R L t)"
  using sameSet_eq [OF config_ok_finite [OF assms(1)] config_ok_finite [OF assms(2)], of t t]
  by (auto simp: first_pass_step_def fp_change_def fp_added_def upd_def Let_def)

lemma fold_upd:
  "mget (fold (\<lambda>t. upd t (f t)) ts m) t = (if t \<in> set ts \<and> f t \<noteq> None then f t else mget m t)"
  by (induction ts arbitrary: m) auto

lemma mwf_fold_upd [simp]: "mwf m \<Longrightarrow> mwf (fold (\<lambda>t. upd t (f t)) ts m)"
  by (induction ts arbitrary: m) auto

lemma first_pass_eq:
  assumes "config_ok P" and "config_ok R"
  shows "fold (first_pass_step U P R L D) ts (c, a) =
    (fold (\<lambda>t. upd t (fp_change P R D t)) ts c, a @ concat (map (fp_added U P R L) ts))"
  by (induction ts arbitrary: c a) (simp_all add: first_pass_step_eq [OF assms])

text \<open>And the second pass.\<close>

definition changed_me :: "string \<Rightarrow> state_key set \<Rightarrow> string \<Rightarrow> string set" where
  "changed_me U D t = {k. (t, k) \<in> D \<or> (k = Me \<and> (t, U) \<in> D)}"

definition sp_change :: "string \<Rightarrow> required_state \<Rightarrow> required_state \<Rightarrow> state_key set \<Rightarrow> string \<Rightarrow> string set option" where
  "sp_change U P R D t =
     (let inv = (keys_of P t - keys_of R t) \<inter> changed_me U D t in
      if keys_of P t = keys_of R t \<or> \<not> keys_of R t \<subseteq> keys_of P t then None
      else if (Wildcard \<in> keys_of P t) \<noteq> (Wildcard \<in> keys_of R t) then Some (keys_of R t)
      else if t = memberEventType \<and> ((Lazy \<in> keys_of P t) \<noteq> (Lazy \<in> keys_of R t) \<or>
        (Lazy \<in> keys_of P t \<or> Lazy \<in> keys_of R t) \<and> inv \<noteq> {}) then Some (keys_of R t)
      else if inv \<noteq> {} then Some (keys_of P t - inv) else None)"

lemma second_pass_step_eq:
  assumes "config_ok P" and "config_ok R"
  shows "second_pass_step U P R D t c = upd t (sp_change U P R D t) c"
proof -
  have me: "(if U \<in> changedByType D t then insert Me (changedByType D t) else changedByType D t) = changed_me U D t"
    by (auto simp: changed_me_def)
  have same: "sameSet (keys_of P t) (keys_of R t) = (keys_of P t = keys_of R t)"
    by (rule sameSet_eq [OF config_ok_finite [OF assms(1)] config_ok_finite [OF assms(2)]])
  consider (same) "keys_of P t = keys_of R t" | (more) "keys_of P t \<noteq> keys_of R t" "\<not> keys_of R t \<subseteq> keys_of P t"
    | (fewer) "keys_of P t \<noteq> keys_of R t" "keys_of R t - keys_of P t = {}" by blast
  then show ?thesis
  proof cases
    case fewer
    then show ?thesis
      unfolding second_pass_step_def sp_change_def upd_def Let_def same me set_ops
      by (cases "(Wildcard \<in> keys_of P t) = (Wildcard \<in> keys_of R t)"; cases "t = memberEventType") simp_all
  qed (auto simp: second_pass_step_def sp_change_def upd_def Let_def same)
qed

lemma keys_apply_changes:
  "mwf changes \<Longrightarrow> keys_of (apply_changes prev changes) t = (case mget changes t of None \<Rightarrow> keys_of prev t | Some ks \<Rightarrow> ks)"
proof (induction changes arbitrary: prev)
  case (Cons x changes)
  obtain t' ks where x: "x = (t', ks)" by (cases x)
  with Cons.prems have "mget changes t' = None" by (simp add: map_of_eq_None_iff)
  with Cons x show ?case by (auto simp: apply_changes_def split: option.split)
qed (simp add: apply_changes_def)

text \<open>
  The effective keys of a type after the diff, when no wildcard type moved: \<open>new_keys\<close>. What is
  stored is \<open>rs_Changed\<close>, or the previous map where that is nil.
\<close>

definition new_keys :: "string \<Rightarrow> required_state \<Rightarrow> required_state \<Rightarrow> state_key set \<Rightarrow> string \<Rightarrow> string set" where
  "new_keys U P R D t =
     (case fp_change P R D t of
        Some ks \<Rightarrow> ks
      | None \<Rightarrow> (case (if t \<in> fst ` D then sp_change U P R D t else None) of Some ks \<Rightarrow> ks | None \<Rightarrow> keys_of P t))"

definition effective :: "required_state \<Rightarrow> RequiredStateChanges \<Rightarrow> required_state" where
  "effective prev ch = (case rs_Changed ch of Some m \<Rightarrow> m | None \<Rightarrow> prev)"

lemma sp_fp_exclusive: "sp_change U P R D t \<noteq> None \<Longrightarrow> fp_change P R D t = None"
  by (auto simp: sp_change_def fp_change_def Let_def split: if_splits)

lemma general_branch:
  assumes "config_ok P" and "config_ok R" and "finite D" and "\<not> sameRequiredState P R"
    and "keys_of P Wildcard = keys_of R Wildcard" and "Wildcard \<notin> keys_of P Wildcard"
  shows "keys_of (effective P (ComputeRequiredStateChanges U P R L Q D)) t = new_keys U P R D t" (is ?keys)
    and "rs_Added (ComputeRequiredStateChanges U P R L Q D) =
      StateFilterFromTypes (concat (map (fp_added U P R L) (sortedUnion P R)) @ added_lazy U P L Q)" (is ?added)
proof -
  let ?c1 = "fold (\<lambda>t. upd t (fp_change P R D t)) (sortedUnion P R) []"
  let ?c2 = "fold (\<lambda>t. upd t (sp_change U P R D t)) (sortedKeys (fst ` D)) ?c1"
  let ?ch = "ComputeRequiredStateChanges U P R L Q D"
  have fold2: "fold (second_pass_step U P R D) ts c = fold (\<lambda>t. upd t (sp_change U P R D t)) ts c" for ts c
    by (rule fold_cong) (simp_all add: second_pass_step_eq [OF assms(1,2)] fun_eq_iff)
  have ch: "rs_Changed ?ch = (if ?c2 \<noteq> [] then Some (apply_changes P ?c2) else None)" and added: ?added
    using assms(4,5,6) by (simp_all add: ComputeRequiredStateChanges_def Let_def first_pass_eq [OF assms(1,2)] fold2)
  show ?added by (rule added)
  have types: "fp_change P R D t = None" if "t \<notin> set (sortedUnion P R)" for t
  proof -
    have "keys_of R t = {}" using that config_ok_types [OF assms(2), of t] by (simp add: sortedUnion_def)
    then show ?thesis by (simp add: fp_change_def)
  qed
  have get: "mget ?c2 t = (case fp_change P R D t of Some ks \<Rightarrow> Some ks | None \<Rightarrow> if t \<in> fst ` D then sp_change U P R D t else None)"
    using types [of t] sp_fp_exclusive [of U P R D t] assms(3)
    by (auto simp: fold_upd split: option.split)
  have wf: "mwf ?c2" by simp
  show ?keys
  proof (cases "?c2 = []")
    case True
    then have none: "mget ?c2 t = None" by simp
    from True have "effective P ?ch = P" by (simp add: effective_def ch)
    with none show ?thesis unfolding get by (simp add: new_keys_def split: option.splits if_splits)
  next
    case False
    then have "effective P ?ch = apply_changes P ?c2" by (simp add: effective_def ch)
    then show ?thesis using keys_apply_changes [OF wf, of P t] unfolding get
      by (simp add: new_keys_def split: option.splits)
  qed
qed

lemma remembered_mem: "k \<in> remembered R I \<Longrightarrow> k \<in> R \<or> k \<in> I"
  by (cases "finite I") (auto simp: remembered_def Let_def sortedKeys_def dest: in_set_takeD split: if_splits)

lemma remembered_request: "R \<subseteq> remembered R I"
  by (auto simp: remembered_def Let_def)

lemma remembered_all: "card (R \<union> I) \<le> MaxRememberedStateKeys \<Longrightarrow> remembered R I = R \<union> I"
  by (simp add: remembered_def)

lemma remembered_card: "card (remembered R I) \<le> max MaxRememberedStateKeys (card R)"
proof -
  let ?T = "set (take (MaxRememberedStateKeys - card R) (sortedKeys I))"
  have "card ?T \<le> MaxRememberedStateKeys - card R"
    using card_length [of "take (MaxRememberedStateKeys - card R) (sortedKeys I)"] by simp
  moreover have "card (R \<union> ?T) \<le> card R + card ?T" by (rule card_Un_le)
  ultimately have "card R < MaxRememberedStateKeys \<Longrightarrow> card (R \<union> ?T) \<le> MaxRememberedStateKeys" by simp
  then show ?thesis by (auto simp: remembered_def Let_def)
qed

lemma sameRequiredState_keys:
  assumes P: "config_ok P" and R: "config_ok R" and same: "sameRequiredState P R"
  shows "keys_of P t = keys_of R t"
proof -
  have eq: "keys_of P t = keys_of R t" if "t \<in> fst ` set P" for t
  proof -
    from that obtain s where "(t, s) \<in> set P" by auto
    moreover from this P have "keys_of P t = s" by (simp add: config_ok_def mgetz_def)
    ultimately have "sameSet (keys_of P t) (keys_of R t)" using same by (auto simp: sameRequiredState_def)
    then show ?thesis by (simp add: sameSet_eq [OF config_ok_finite [OF P] config_ok_finite [OF R]])
  qed
  have sub: "fst ` set P \<subseteq> fst ` set R"
  proof
    fix t assume t: "t \<in> fst ` set P"
    with eq [OF t] config_ok_types [OF P, of t] config_ok_types [OF R, of t] show "t \<in> fst ` set R" by simp
  qed
  have "card (fst ` set P) = length P" "card (fst ` set R) = length R"
    using P R distinct_card [of "map fst P"] distinct_card [of "map fst R"] by (simp_all add: config_ok_def)
  then have "fst ` set P = fst ` set R"
    using same sub card_subset_eq [of "fst ` set R" "fst ` set P"] by (simp add: sameRequiredState_def)
  with eq show ?thesis
    using config_ok_types [OF P, of t] config_ok_types [OF R, of t] by (cases "t \<in> fst ` set P") auto
qed

text \<open>The branches of the diff, in terms of the effective config.\<close>

lemma effective_cases:
  assumes "config_ok P" and "config_ok R" and "finite D"
  obtains (same) "\<And>t. keys_of P t = keys_of R t" "effective P (ComputeRequiredStateChanges U P R L Q D) = P"
  | (wild) "effective P (ComputeRequiredStateChanges U P R L Q D) = R"
  | (diff) "\<not> sameRequiredState P R" "keys_of P Wildcard = keys_of R Wildcard" "Wildcard \<notin> keys_of P Wildcard"
      "\<And>t. keys_of (effective P (ComputeRequiredStateChanges U P R L Q D)) t = new_keys U P R D t"
proof (cases "sameRequiredState P R")
  case True
  then show ?thesis
    using sameRequiredState_keys [OF assms(1,2)]
    by (intro same) (auto simp: effective_def ComputeRequiredStateChanges_def)
next
  case False
  show ?thesis
  proof (cases "keys_of P Wildcard = keys_of R Wildcard \<and> Wildcard \<notin> keys_of P Wildcard")
    case True
    with general_branch(1) [OF assms False] False show ?thesis by (intro diff) auto
  next
    case wildcard: False
    with False have "rs_Changed (ComputeRequiredStateChanges U P R L Q D) = Some R"
      by (auto simp: ComputeRequiredStateChanges_def Let_def)
    then show ?thesis by (intro wild) (simp add: effective_def)
  qed
qed

lemma new_keys_sound:
  assumes "k \<in> new_keys U P R D t"
  shows "k \<in> keys_of R t \<or> (k \<in> keys_of P t \<and> (t, k) \<notin> D \<and> (k = Wildcard \<longrightarrow> t \<notin> fst ` D) \<and>
    (k = Me \<and> keys_of R t \<subseteq> keys_of P t \<longrightarrow> (t, U) \<notin> D))"
proof (cases "keys_of R t \<subseteq> keys_of P t")
  case False
  then show ?thesis
    using assms by (auto simp: new_keys_def fp_change_def split: if_splits dest!: remembered_mem)
next
  case True
  then have fp: "fp_change P R D t = None" by (simp add: fp_change_def)
  show ?thesis
  proof (cases "t \<in> fst ` D")
    case False
    with assms fp show ?thesis by (force simp: new_keys_def)
  next
    case changed: True
    let ?inv = "(keys_of P t - keys_of R t) \<inter> changed_me U D t"
    have "k \<in> keys_of R t \<or> (k \<in> keys_of P t \<and> k \<notin> ?inv \<and> (Wildcard \<in> keys_of P t) = (Wildcard \<in> keys_of R t))"
      using assms fp changed True by (auto simp: new_keys_def sp_change_def Let_def split: if_splits option.splits)
    then show ?thesis by (auto simp: changed_me_def)
  qed
qed

lemma new_keys_remembers:
  assumes "k \<in> keys_of P t" and "k \<noteq> Lazy" and "Wildcard \<notin> keys_of P t" and "(t, k) \<notin> D" and "k = Me \<longrightarrow> (t, U) \<notin> D"
    and "t \<noteq> memberEventType" and "card (keys_of R t \<union> keys_of P t) \<le> MaxRememberedStateKeys" and "finite (keys_of R t \<union> keys_of P t)"
  shows "k \<in> new_keys U P R D t"
proof (cases "keys_of R t \<subseteq> keys_of P t")
  case True
  then show ?thesis
    using assms by (auto simp: new_keys_def fp_change_def sp_change_def changed_me_def Let_def split: option.splits if_splits)
next
  case False
  let ?I = "(keys_of P t - {Wildcard, Lazy}) - ((keys_of P t - keys_of R t) \<inter> changedByType D t)"
  have "card (keys_of R t \<union> ?I) \<le> card (keys_of R t \<union> keys_of P t)" by (rule card_mono [OF assms(8)]) auto
  with assms(7) have "remembered (keys_of R t) ?I = keys_of R t \<union> ?I" by (intro remembered_all) simp
  with False assms show ?thesis by (auto simp: new_keys_def fp_change_def)
qed

section \<open>What is fetched\<close>

text \<open>
  The newly requested part: the type was not wanted in full before, lazy loading is not being
  switched on for it, and some key of the request is new.
\<close>

definition newly :: "string \<Rightarrow> required_state \<Rightarrow> required_state \<Rightarrow> string set \<Rightarrow> string \<Rightarrow> string \<Rightarrow> bool" where
  "newly U P R L t x \<longleftrightarrow>
     Wildcard \<notin> keys_of P t \<and> \<not> (t = memberEventType \<and> Lazy \<notin> keys_of P t \<and> Lazy \<in> keys_of R t) \<and>
     (Wildcard \<in> keys_of R t \<or>
      (\<exists>k \<in> keys_of R t - keys_of P t. k = Me \<and> x = U \<or>
        k \<noteq> Me \<and> k \<noteq> Lazy \<and> x = k \<and> (t = memberEventType \<longrightarrow> k \<notin> L)))"

definition newly_lazy :: "string \<Rightarrow> required_state \<Rightarrow> string set \<Rightarrow> string set \<Rightarrow> string \<Rightarrow> string \<Rightarrow> bool" where
  "newly_lazy U P L Q t x \<longleftrightarrow> t = memberEventType \<and> x \<in> Q \<and> x \<notin> L \<and> x \<notin> keys_of P t \<and> \<not> (Me \<in> keys_of P t \<and> x = U)"

definition names :: "TypeAndKey \<Rightarrow> string \<Rightarrow> string \<Rightarrow> bool" where
  "names e t x \<longleftrightarrow> tk_Type e = t \<and> (tk_StateKey e = None \<or> tk_StateKey e = Some x)"

lemma added_for_key_names:
  "(\<exists>e \<in> set (added_for_key U L t' k). names e t x) \<longleftrightarrow>
    t' = t \<and> (k = Me \<and> x = U \<or> k \<noteq> Me \<and> k \<noteq> Lazy \<and> x = k \<and> (t = memberEventType \<longrightarrow> k \<notin> L))"
  by (auto simp: added_for_key_def names_def)

lemma bex_concat_map: "(\<exists>e \<in> set (concat (map f xs)). P e) \<longleftrightarrow> (\<exists>x \<in> set xs. \<exists>e \<in> set (f x). P e)"
  by auto

lemma fp_added_names:
  assumes "finite (keys_of R t')"
  shows "(\<exists>e \<in> set (fp_added U P R L t'). names e t x) \<longleftrightarrow> t' = t \<and> newly U P R L t x"
proof -
  have fin: "finite (keys_of R t' - keys_of P t')" using assms by simp
  consider (none) "keys_of R t' \<subseteq> keys_of P t' \<or> (t' = memberEventType \<and> Lazy \<notin> keys_of P t' \<and> Lazy \<in> keys_of R t') \<or> Wildcard \<in> keys_of P t'"
    | (every) "\<not> (keys_of R t' \<subseteq> keys_of P t' \<or> (t' = memberEventType \<and> Lazy \<notin> keys_of P t' \<and> Lazy \<in> keys_of R t') \<or> Wildcard \<in> keys_of P t')"
        "Wildcard \<in> keys_of R t'"
    | (some) "\<not> (keys_of R t' \<subseteq> keys_of P t' \<or> (t' = memberEventType \<and> Lazy \<notin> keys_of P t' \<and> Lazy \<in> keys_of R t') \<or> Wildcard \<in> keys_of P t')"
        "Wildcard \<notin> keys_of R t'" by blast
  then show ?thesis
  proof cases
    case none
    then show ?thesis by (auto simp: fp_added_def newly_def)
  next
    case every
    then have "fp_added U P R L t' = [every_key t']" by (simp add: fp_added_def)
    with every show ?thesis by (auto simp: newly_def names_def)
  next
    case some
    then have "fp_added U P R L t' = concat (map (added_for_key U L t') (sortedKeys (keys_of R t' - keys_of P t')))"
      unfolding fp_added_def by (simp only: some if_False)
    with some show ?thesis by (auto simp: bex_concat_map added_for_key_names newly_def fin simp del: set_concat)
  qed
qed

lemma added_lazy_names:
  assumes "finite Q"
  shows "(\<exists>e \<in> set (added_lazy U P L Q). names e t x) \<longleftrightarrow> newly_lazy U P L Q t x"
  using assms by (auto simp: added_lazy_def newly_lazy_def names_def Let_def)

lemma general_added:
  assumes "config_ok P" and "config_ok R" and "finite D" and "finite Q" and "\<not> sameRequiredState P R"
    and "keys_of P Wildcard = keys_of R Wildcard" and "Wildcard \<notin> keys_of P Wildcard"
  shows "Wants (rs_Added (ComputeRequiredStateChanges U P R L Q D)) t x \<longleftrightarrow> newly U P R L t x \<or> newly_lazy U P L Q t x"
proof -
  have "t \<in> set (sortedUnion P R)" if "newly U P R L t x"
  proof -
    from that have "keys_of R t \<noteq> {}" by (auto simp: newly_def)
    then show ?thesis using config_ok_types [OF assms(2), of t] by (simp add: sortedUnion_def)
  qed
  then have first: "(\<exists>t' \<in> set (sortedUnion P R). \<exists>e \<in> set (fp_added U P R L t'). names e t x) \<longleftrightarrow> newly U P R L t x"
    using fp_added_names [OF config_ok_finite [OF assms(2)], of U P L _ t x] by auto
  have "Wants (rs_Added (ComputeRequiredStateChanges U P R L Q D)) t x \<longleftrightarrow>
      (\<exists>e \<in> set (concat (map (fp_added U P R L) (sortedUnion P R)) @ added_lazy U P L Q). names e t x)"
    unfolding general_branch(2) [OF assms(1-3,5-7)] Wants_FromTypes names_def by (rule refl)
  also have "\<dots> \<longleftrightarrow> newly U P R L t x \<or> newly_lazy U P L Q t x"
    unfolding set_append bex_Un bex_concat_map first added_lazy_names [OF assms(4)] by (rule refl)
  finally show ?thesis .
qed

section \<open>The plan, in closed form\<close>

lemma finite_timeline_users [simp]: "finite (timeline_users timeline)"
  by (simp add: timeline_users_def)

lemma specials [simp]: "Lazy \<noteq> Wildcard" "Wildcard \<noteq> Lazy" "Me \<noteq> Wildcard" "Wildcard \<noteq> Me" "Me \<noteq> Lazy" "Lazy \<noteq> Me"
  by (simp_all add: Lazy_def Wildcard_def Me_def)

text \<open>What one entry of the config contributes to the plan.\<close>

definition asks_for :: "string \<Rightarrow> state_key \<Rightarrow> state_key \<Rightarrow> bool" where
  "asks_for U = (\<lambda>(t, s) k. s = Wildcard \<and> t = fst k \<or> s \<noteq> Wildcard \<and> s \<noteq> Lazy \<and> k = (t, if s = Me then U else s))"

lemma asks_for_bex:
  "(\<exists>e \<in> A. asks_for U e (t, x)) \<longleftrightarrow> (\<exists>s. (t, s) \<in> A \<and>
    (s = Wildcard \<or> s \<noteq> Wildcard \<and> s \<noteq> Lazy \<and> x = (if s = Me then U else s)))"
proof -
  have "asks_for U (a, s) (t, x) \<longleftrightarrow> a = t \<and> (s = Wildcard \<or> s \<noteq> Wildcard \<and> s \<noteq> Lazy \<and> x = (if s = Me then U else s))" for a s
    unfolding asks_for_def by (simp only: prod.case fst_conv prod.inject) blast
  moreover have "(\<exists>e \<in> A. asks_for U e (t, x)) \<longleftrightarrow> (\<exists>a s. (a, s) \<in> A \<and> asks_for U (a, s) (t, x))" by auto
  ultimately show ?thesis by simp
qed

lemma plan_key_wants:
  assumes "finite (pl_lazyUserIDs p)"
  shows "plan_wants (plan_key U timeline D limited initial e p) k \<longleftrightarrow> plan_wants p k \<or> asks_for U e k \<or>
    (e = (memberEventType, Lazy) \<and> fst k = memberEventType \<and>
      (\<not> (limited \<or> initial) \<or> snd k \<in> pl_lazyUserIDs p \<union> timeline_users timeline))"
proof -
  obtain t s kt ku where e: "e = (t, s)" and k: "k = (kt, ku)" by (metis surj_pair)
  have fin: "finite (pl_lazyUserIDs p \<union> timeline_users timeline)" using assms by simp
  consider "s = Wildcard" | "s = Lazy" "t = memberEventType" "limited \<or> initial" | "s = Lazy" "t = memberEventType" "\<not> (limited \<or> initial)"
    | "s = Lazy" "t \<noteq> memberEventType" | "s \<noteq> Wildcard" "s \<noteq> Lazy" by blast
  then show ?thesis
    unfolding e k
    by cases (use fin in \<open>auto simp: plan_key_def plan_wants_def asks_for_def list_ex_iff Let_def simp del: Un_iff\<close>)
qed

lemma plan_key_users:
  "pl_lazyUserIDs (plan_key U timeline D limited initial e p) = pl_lazyUserIDs p \<union>
     (if e = (memberEventType, Lazy) then timeline_users timeline \<union>
        (if limited \<or> initial then {} else changedByType D memberEventType) else {})"
  "pl_lazyLoad (plan_key U timeline D limited initial e p) = (pl_lazyLoad p \<or> e = (memberEventType, Lazy))"
  "pl_explicitUserIDs (plan_key U timeline D limited initial e p) = pl_explicitUserIDs p \<union>
     {u. asks_for U e (memberEventType, u) \<and> snd e \<noteq> Wildcard}"
proof -
  obtain t s where e: "e = (t, s)" by (cases e)
  consider "s = Wildcard" | "s = Lazy" "t = memberEventType" "limited \<or> initial" | "s = Lazy" "t = memberEventType" "\<not> (limited \<or> initial)"
    | "s = Lazy" "t \<noteq> memberEventType" | "s \<noteq> Wildcard" "s \<noteq> Lazy" "t = memberEventType" | "s \<noteq> Wildcard" "s \<noteq> Lazy" "t \<noteq> memberEventType" by blast
  note cs = this
  show "pl_lazyUserIDs (plan_key U timeline D limited initial e p) = pl_lazyUserIDs p \<union>
     (if e = (memberEventType, Lazy) then timeline_users timeline \<union>
        (if limited \<or> initial then {} else changedByType D memberEventType) else {})"
    unfolding e by (rule cs) (simp_all add: plan_key_def Let_def Un_assoc)
  show "pl_lazyLoad (plan_key U timeline D limited initial e p) = (pl_lazyLoad p \<or> e = (memberEventType, Lazy))"
    unfolding e by (rule cs) (simp_all add: plan_key_def Let_def)
  show "pl_explicitUserIDs (plan_key U timeline D limited initial e p) = pl_explicitUserIDs p \<union>
     {u. asks_for U e (memberEventType, u) \<and> snd e \<noteq> Wildcard}"
    unfolding e by (rule cs) (auto simp: plan_key_def asks_for_def Let_def)
qed

lemma fold_plan_users:
  "pl_lazyUserIDs (fold (plan_key U timeline D limited initial) es p) = pl_lazyUserIDs p \<union>
     (if (memberEventType, Lazy) \<in> set es then timeline_users timeline \<union>
        (if limited \<or> initial then {} else changedByType D memberEventType) else {})"
  "pl_lazyLoad (fold (plan_key U timeline D limited initial) es p) = (pl_lazyLoad p \<or> (memberEventType, Lazy) \<in> set es)"
  "pl_explicitUserIDs (fold (plan_key U timeline D limited initial) es p) = pl_explicitUserIDs p \<union>
     {u. \<exists>e \<in> set es. asks_for U e (memberEventType, u) \<and> snd e \<noteq> Wildcard}"
  by (induction es arbitrary: p) (auto simp: plan_key_users)

lemma fold_plan_wants:
  assumes "finite (pl_lazyUserIDs p)" and "finite D" and "pl_lazyUserIDs p \<subseteq> timeline_users timeline \<or> \<not> (limited \<or> initial)"
  shows "plan_wants (fold (plan_key U timeline D limited initial) es p) k \<longleftrightarrow> plan_wants p k \<or> (\<exists>e \<in> set es. asks_for U e k) \<or>
    ((memberEventType, Lazy) \<in> set es \<and> fst k = memberEventType \<and> (\<not> (limited \<or> initial) \<or> snd k \<in> timeline_users timeline))"
  using assms
proof (induction es arbitrary: p)
  case (Cons e es)
  let ?p = "plan_key U timeline D limited initial e p"
  have fin: "finite (changedByType D memberEventType)" using assms(2) by (simp add: changedByType_def)
  have "finite (pl_lazyUserIDs ?p)" "pl_lazyUserIDs ?p \<subseteq> timeline_users timeline \<or> \<not> (limited \<or> initial)"
    using Cons.prems fin by (auto simp: plan_key_users)
  from Cons.IH [OF this(1) assms(2) this(2)] plan_key_wants [OF Cons.prems(1), of U timeline D limited initial e k] Cons.prems(3)
  show ?case by auto
qed simp

lemma set_config_entries:
  assumes "config_ok m"
  shows "(t, k) \<in> set (config_entries m) \<longleftrightarrow> k \<in> keys_of m t"
proof -
  have "(t, k) \<in> set (config_entries m) \<longleftrightarrow>
      (\<exists>t' \<in> set (sortedKeys2 m). (t, k) \<in> set (map (Pair t') (sortedKeys (keys_of m t'))))"
    by (simp add: config_entries_def)
  also have "\<dots> \<longleftrightarrow> t \<in> set (sortedKeys2 m) \<and> k \<in> set (sortedKeys (keys_of m t))" by auto
  also have "\<dots> \<longleftrightarrow> k \<in> keys_of m t"
    using config_ok_types [OF assms, of t] config_ok_finite [OF assms, of t] by (auto simp: sortedKeys2_def)
  finally show ?thesis .
qed

lemma no_lazy_explicit:
  assumes "config_ok (rc_RequiredState cfg)" and "k \<in> keys_of (rc_RequiredState cfg) memberEventType"
    and "k \<noteq> Lazy" and "k \<noteq> Wildcard"
  shows "(if k = Me then U else k) \<notin> pl_lazyUserIDs (planRequiredState U cfg timeline D limited initial)"
proof -
  let ?es = "config_entries (rc_RequiredState cfg)"
  define u where "u = (if k = Me then U else k)"
  have "(memberEventType, k) \<in> set ?es" using assms(2) by (simp add: set_config_entries [OF assms(1)])
  moreover have "asks_for U (memberEventType, k) (memberEventType, u)" using assms(3,4) by (simp add: asks_for_def u_def)
  ultimately have "u \<in> pl_explicitUserIDs (fold (plan_key U timeline D limited initial) ?es empty_plan)"
    using assms(4) unfolding fold_plan_users(3) by fastforce
  then have "u \<notin> pl_lazyUserIDs (planRequiredState U cfg timeline D limited initial)"
    by (simp add: planRequiredState_def empty_plan_def Let_def)
  then show ?thesis unfolding u_def .
qed

lemma fold_upd_None: "(\<And>t. f t = None) \<Longrightarrow> fold (\<lambda>t. upd t (f t)) ts m = m"
  by (induction ts) (simp_all add: upd_def)

lemma only_removed_unchanged:
  assumes "config_ok P" and "config_ok R" and "\<And>t. keys_of R t \<subseteq> keys_of P t" and "keys_of P Wildcard = {}"
    and "\<not> sameRequiredState P R"
  shows "rs_Changed (ComputeRequiredStateChanges U P R L Q {}) = None"
proof -
  have "fp_change P R {} t = None" for t using assms(3) [of t] by (simp add: fp_change_def)
  moreover have "keys_of R Wildcard = {}" using assms(3) [of Wildcard] assms(4) by simp
  ultimately show ?thesis
    using assms(4,5)
    by (simp add: ComputeRequiredStateChanges_def Let_def first_pass_eq [OF assms(1,2)] fold_upd_None sortedKeys_def)
qed

lemma config_okI: "mwf m \<Longrightarrow> \<forall>(t, s) \<in> set m. finite s \<and> s \<noteq> {} \<Longrightarrow> config_ok m"
  by (auto simp: config_ok_def dest: map_of_SomeD)

definition name_topic :: required_state where
  "name_topic = [(''m.room.name'', {''''}), (''m.room.topic'', {''''})]"

definition name_only :: required_state where
  "name_only = [(''m.room.name'', {''''})]"

lemma example_configs [simp]: "config_ok name_topic" "config_ok name_only"
  "keys_of name_topic Wildcard = {}" "keys_of name_only Wildcard = {}"
  "keys_of name_topic ''m.room.topic'' = {''''}" "keys_of name_only ''m.room.topic'' = {}"
  by (auto intro: config_okI simp: name_topic_def name_only_def mgetz_def Wildcard_def)

section \<open>Properties\<close>





text \<open>
  The rule of the diff: a key is forgotten only when the client removed it and the state
  behind it changed. A key the client had whose state did not change stays in the effective
  config whatever the request does to its type, up to the bound on remembered keys (membership,
  which has the lazy-member tables, and wildcards apart); and the bound is respected.
\<close>

theorem removed_key_is_remembered:
  assumes "config_ok P" and "config_ok R" and "finite D" and "keys_of P Wildcard = {}" and "keys_of R Wildcard = {}"
    and "k \<in> keys_of P t" and "k \<noteq> Lazy" and "Wildcard \<notin> keys_of P t" and "(t, k) \<notin> D" and "(t, U) \<notin> D"
    and "t \<noteq> memberEventType" and "card (keys_of R t \<union> keys_of P t) \<le> MaxRememberedStateKeys"
  shows "k \<in> keys_of (effective P (ComputeRequiredStateChanges U P R L Q D)) t \<and>
    card (keys_of (effective P (ComputeRequiredStateChanges U P R L Q D)) t) \<le> MaxRememberedStateKeys"
proof -
  let ?m = "effective P (ComputeRequiredStateChanges U P R L Q D)"
  have fin: "finite (keys_of R t \<union> keys_of P t)" using config_ok_finite assms(1,2) by blast
  have "k \<in> keys_of ?m t"
  proof (cases "sameRequiredState P R")
    case True
    then show ?thesis using assms(6) by (simp add: effective_def ComputeRequiredStateChanges_def)
  next
    case False
    from new_keys_remembers [OF assms(6-9) _ assms(11,12) fin] assms(10) general_branch(1) [OF assms(1-3) False] assms(4,5)
    show ?thesis by simp
  qed
  moreover have "keys_of ?m t \<subseteq> keys_of R t \<union> keys_of P t"
    using effective_cases [OF assms(1-3), of U L Q] new_keys_sound [of _ U P R D t] by (metis (lifting) Un_iff subsetI)
  then have "card (keys_of ?m t) \<le> card (keys_of R t \<union> keys_of P t)" by (rule card_mono [OF fin])
  ultimately show ?thesis using assms(12) by simp
qed

theorem removed_key_is_remembered_witness:
  "'''' \<in> keys_of (effective name_topic
    (ComputeRequiredStateChanges ''@u:x'' name_topic name_only {} {} {(''m.room.name'', '''')})) ''m.room.topic''"
  using removed_key_is_remembered [of name_topic name_only "{(''m.room.name'', '''')}" "''''" "''m.room.topic''" "''@u:x''" "{}" "{}"]
  by (simp add: Lazy_def memberEventType_def MaxRememberedStateKeys_def)
     (simp add: Wildcard_def)

text \<open>
  What a response sends. With no wildcard type in the config, the plan wants a state entry
  exactly when an entry of the config names it (\<^verbatim>\<open>$ME\<close> resolved to the user, a wildcard key for the
  whole type), or \<^verbatim>\<open>$LAZY\<close> membership is asked for and the entry is a membership that the timeline
  makes relevant (any membership, when the timeline is continuous). Members named outright are
  never counted as lazily loaded.
\<close>

theorem plan_wants_exactly:
  assumes "config_ok (rc_RequiredState cfg)" and "keys_of (rc_RequiredState cfg) Wildcard = {}" and "finite D"
  shows "(plan_wants (planRequiredState U cfg timeline D limited initial) (t, x) \<longleftrightarrow>
      Wildcard \<in> keys_of (rc_RequiredState cfg) t \<or>
      (\<exists>k \<in> keys_of (rc_RequiredState cfg) t. k \<noteq> Wildcard \<and> k \<noteq> Lazy \<and> x = (if k = Me then U else k)) \<or>
      (Lazy \<in> keys_of (rc_RequiredState cfg) t \<and> t = memberEventType \<and> (\<not> (limited \<or> initial) \<or> x \<in> timeline_users timeline))) \<and>
    pl_lazyUserIDs (planRequiredState U cfg timeline D limited initial) \<inter>
      pl_explicitUserIDs (planRequiredState U cfg timeline D limited initial) = {}"
proof
  let ?m = "rc_RequiredState cfg"
  let ?p = "fold (plan_key U timeline D limited initial) (config_entries ?m) empty_plan"
  have none: "mget ?m Wildcard = None"
  proof (cases "mget ?m Wildcard")
    case (Some s)
    with assms(1) have "s \<noteq> {}" unfolding config_ok_def by blast
    with Some assms(2) show ?thesis by (simp add: mgetz_def)
  qed simp
  then have plan: "planRequiredState U cfg timeline D limited initial = ?p\<lparr>pl_lazyUserIDs := pl_lazyUserIDs ?p - pl_explicitUserIDs ?p\<rparr>"
    using assms(2) by (simp add: planRequiredState_def Let_def)
  have "plan_wants ?p (t, x) \<longleftrightarrow> (\<exists>e \<in> set (config_entries ?m). asks_for U e (t, x)) \<or>
      ((memberEventType, Lazy) \<in> set (config_entries ?m) \<and> t = memberEventType \<and> (\<not> (limited \<or> initial) \<or> x \<in> timeline_users timeline))"
    using fold_plan_wants [of empty_plan D timeline limited initial U "config_entries ?m" "(t, x)"] assms(3)
    by (simp add: empty_plan_def plan_wants_def)
  moreover have "(\<exists>e \<in> set (config_entries ?m). asks_for U e (t, x)) \<longleftrightarrow> Wildcard \<in> keys_of ?m t \<or>
      (\<exists>k \<in> keys_of ?m t. k \<noteq> Wildcard \<and> k \<noteq> Lazy \<and> x = (if k = Me then U else k))"
  proof -
    have "(\<exists>e \<in> set (config_entries ?m). asks_for U e (t, x)) \<longleftrightarrow> (\<exists>s. (t, s) \<in> set (config_entries ?m) \<and>
        (s = Wildcard \<or> s \<noteq> Wildcard \<and> s \<noteq> Lazy \<and> x = (if s = Me then U else s)))"
      by (rule asks_for_bex)
    then show ?thesis unfolding set_config_entries [OF assms(1)] by blast
  qed
  moreover have "plan_wants (?p\<lparr>pl_lazyUserIDs := A\<rparr>) = plan_wants ?p" for A by (simp add: plan_wants_def fun_eq_iff)
  ultimately show "plan_wants (planRequiredState U cfg timeline D limited initial) (t, x) \<longleftrightarrow>
      Wildcard \<in> keys_of ?m t \<or>
      (\<exists>k \<in> keys_of ?m t. k \<noteq> Wildcard \<and> k \<noteq> Lazy \<and> x = (if k = Me then U else k)) \<or>
      (Lazy \<in> keys_of ?m t \<and> t = memberEventType \<and> (\<not> (limited \<or> initial) \<or> x \<in> timeline_users timeline))"
    unfolding plan using set_config_entries [OF assms(1), of memberEventType Lazy] by auto
  show "pl_lazyUserIDs (planRequiredState U cfg timeline D limited initial) \<inter>
      pl_explicitUserIDs (planRequiredState U cfg timeline D limited initial) = {}"
    unfolding plan by auto
qed

theorem plan_wants_exactly_witness:
  "plan_wants (planRequiredState ''@u:x'' \<lparr>rc_TimelineLimit = 1, rc_RequiredState = name_topic\<rparr> [] {} True True) (''m.room.name'', '''')"
proof -
  have "plan_wants (planRequiredState ''@u:x'' \<lparr>rc_TimelineLimit = 1, rc_RequiredState = name_topic\<rparr> [] {} True True) (''m.room.name'', '''') \<longleftrightarrow>
      Wildcard \<in> keys_of name_topic ''m.room.name'' \<or>
      (\<exists>k \<in> keys_of name_topic ''m.room.name''. k \<noteq> Wildcard \<and> k \<noteq> Lazy \<and> '''' = (if k = Me then ''@u:x'' else k)) \<or>
      (Lazy \<in> keys_of name_topic ''m.room.name'' \<and> ''m.room.name'' = memberEventType \<and> (\<not> (True \<or> True) \<or> '''' \<in> timeline_users []))"
    using plan_wants_exactly [of "\<lparr>rc_TimelineLimit = 1, rc_RequiredState = name_topic\<rparr>" "{}" "''@u:x''" "[]" True True "''m.room.name''" "''''"]
    by simp
  then show ?thesis by (simp add: name_topic_def mgetz_def Wildcard_def Lazy_def Me_def)
qed

text \<open>
  Where the rule is lost. A client drops a state key whose state does not change: the diff
  says to leave the stored config alone (\<^verbatim>\<open>Changed\<close> is nil), but \<^verbatim>\<open>resolveRequiredState\<close> then records the
  request's own config, so when the client asks for the key again it is fetched and sent again.
  Had the stored config been left alone, nothing would be fetched.
\<close>

theorem remove_then_readd_resends:
  assumes "config_ok P" and "config_ok (rc_RequiredState cfg)" and "keys_of P Wildcard = {}"
    and "\<forall>t. keys_of (rc_RequiredState cfg) t \<subseteq> keys_of P t"
    and "k \<in> keys_of P t" and "k \<notin> keys_of (rc_RequiredState cfg) t" and "k \<noteq> Me" and "k \<noteq> Lazy"
    and "t \<noteq> memberEventType" and "Wildcard \<notin> keys_of (rc_RequiredState cfg) t"
  shows "let ch = ComputeRequiredStateChanges U P (rc_RequiredState cfg) L {} {} in
    rs_Changed ch = None \<and>
    Wants (rs_Added (ComputeRequiredStateChanges U (recorded_config cfg ch) P L {} {})) t k \<and>
    \<not> Wants (rs_Added (ComputeRequiredStateChanges U (effective P ch) P L {} {})) t k"
proof -
  let ?R = "rc_RequiredState cfg"
  let ?ch = "ComputeRequiredStateChanges U P ?R L {} {}"
  have differ: "\<not> sameRequiredState P ?R" "\<not> sameRequiredState ?R P"
    using sameRequiredState_keys [OF assms(1,2), of t] sameRequiredState_keys [OF assms(2,1), of t] assms(5,6) by auto
  have nil: "rs_Changed ?ch = None"
    by (rule only_removed_unchanged) (use assms differ in auto)
  have RW: "keys_of ?R Wildcard = {}" using assms(3,4) by blast
  have W: "keys_of ?R Wildcard = keys_of P Wildcard" "Wildcard \<notin> keys_of ?R Wildcard" using RW assms(3) by simp_all
  have "newly U ?R P L t k" using assms(5-10) by (auto simp: newly_def)
  then have "Wants (rs_Added (ComputeRequiredStateChanges U ?R P L {} {})) t k"
    using general_added [OF assms(2,1) finite.emptyI finite.emptyI differ(2) W, of U L t k] by blast
  moreover have "sameRequiredState P P" using assms(1) config_ok_finite [OF assms(1)]
    by (auto simp: sameRequiredState_def sameSet_def config_ok_def mgetz_def)
  then have "\<not> Wants (rs_Added (ComputeRequiredStateChanges U P P L {} {})) t k"
    by (simp add: ComputeRequiredStateChanges_def StateFilterFromTypes_def NoState_def Wants_def sortedKeys_def)
  ultimately show ?thesis using nil by (simp add: Let_def recorded_config_def effective_def)
qed

theorem remove_then_readd_resends_witness:
  "let ch = ComputeRequiredStateChanges ''@u:x'' name_topic name_only {} {} {} in rs_Changed ch = None \<and>
    Wants (rs_Added (ComputeRequiredStateChanges ''@u:x''
      (recorded_config \<lparr>rc_TimelineLimit = 1, rc_RequiredState = name_only\<rparr> ch) name_topic {} {} {})) ''m.room.topic'' ''''"
proof -
  have "\<forall>t. keys_of name_only t \<subseteq> keys_of name_topic t" by (simp add: name_only_def name_topic_def mgetz_def)
  then show ?thesis
    using remove_then_readd_resends [of name_topic "\<lparr>rc_TimelineLimit = 1, rc_RequiredState = name_only\<rparr>" "''''" "''m.room.topic''" "''@u:x''" "{}"]
    by (simp add: Me_def Lazy_def memberEventType_def Let_def)
qed

text \<open>
  A member named for the first time is not fetched when \<^verbatim>\<open>$LAZY\<close> appears with it. The filter
  does not want the membership (the plan takes named members out of the lazily loaded ones), yet
  the effective config records the key as sent.
\<close>

theorem lazy_hides_new_member:
  assumes "config_ok P" and "config_ok (rc_RequiredState cfg)" and "finite D"
    and "keys_of P Wildcard = {}" and "keys_of (rc_RequiredState cfg) Wildcard = {}"
    and "Lazy \<notin> keys_of P memberEventType" and "Lazy \<in> keys_of (rc_RequiredState cfg) memberEventType"
    and "k \<in> keys_of (rc_RequiredState cfg) memberEventType" and "k \<notin> {Lazy, Wildcard}"
  shows "let ch = ComputeRequiredStateChanges U P (rc_RequiredState cfg) L
      (pl_lazyUserIDs (planRequiredState U cfg timeline D limited initial)) D in
    \<not> Wants (rs_Added ch) memberEventType (if k = Me then U else k) \<and> k \<in> keys_of (effective P ch) memberEventType"
proof -
  let ?R = "rc_RequiredState cfg" and ?Q = "pl_lazyUserIDs (planRequiredState U cfg timeline D limited initial)"
  have differ: "\<not> sameRequiredState P ?R"
    using sameRequiredState_keys [OF assms(1,2), of memberEventType] assms(6,7) by auto
  have W: "keys_of P Wildcard = keys_of ?R Wildcard" "Wildcard \<notin> keys_of P Wildcard" using assms(4,5) by simp_all
  have fin: "finite ?Q"
    using assms(3) by (simp add: planRequiredState_def empty_plan_def Let_def fold_plan_users changedByType_def)
  have "?Q = pl_lazyUserIDs (planRequiredState U cfg timeline D limited initial)" by (rule refl)
  have "\<not> newly U P ?R L memberEventType (if k = Me then U else k)" using assms(6,7) by (simp add: newly_def)
  moreover have "\<not> newly_lazy U P L ?Q memberEventType (if k = Me then U else k)"
    using no_lazy_explicit [OF assms(2,8)] assms(9) by (simp add: newly_lazy_def)
  moreover have "k \<in> new_keys U P ?R D memberEventType"
    using assms(6-8) by (auto simp: new_keys_def fp_change_def)
  ultimately show ?thesis
    unfolding Let_def general_added [OF assms(1-3) fin differ W] general_branch(1) [OF assms(1-3) differ W] by blast
qed

theorem lazy_hides_new_member_witness:
  "let cfg = \<lparr>rc_TimelineLimit = 1, rc_RequiredState = [(''m.room.member'', {''$LAZY'', ''$ME''})]\<rparr>;
       ch = ComputeRequiredStateChanges ''@u:x'' name_only (rc_RequiredState cfg) {}
         (pl_lazyUserIDs (planRequiredState ''@u:x'' cfg [] {} False False)) {} in
    \<not> Wants (rs_Added ch) ''m.room.member'' ''@u:x'' \<and> ''$ME'' \<in> keys_of (effective name_only ch) ''m.room.member''"
proof -
  have ok: "config_ok [(''m.room.member'', {''$LAZY'', ''$ME''})]" by (rule config_okI) auto
  have keys: "keys_of [(''m.room.member'', {''$LAZY'', ''$ME''})] ''m.room.member'' = {''$LAZY'', ''$ME''}"
    "keys_of [(''m.room.member'', {''$LAZY'', ''$ME''})] ''*'' = {}" "keys_of name_only ''*'' = {}" "keys_of name_only ''m.room.member'' = {}"
    by (simp_all add: mgetz_def name_only_def)
  show ?thesis
    using lazy_hides_new_member [of name_only "\<lparr>rc_TimelineLimit = 1, rc_RequiredState = [(''m.room.member'', {''$LAZY'', ''$ME''})]\<rparr>"
      "{}" "''$ME''" "''@u:x''" "{}" "[]" False False] ok keys
    by (simp add: Let_def Lazy_def Wildcard_def Me_def memberEventType_def)
qed

text \<open>
  The user's own membership is remembered although it changed, when \<^verbatim>\<open>$ME\<close> is dropped from a
  type in the same request that adds another key to it: the first pass does not apply the
  \<^verbatim>\<open>$ME\<close> rule that the second one has. The key stays in the effective config, so it is not sent
  when the client asks for it again.
\<close>

theorem own_membership_remembered_stale:
  assumes "config_ok P" and "config_ok R" and "finite D" and "keys_of P Wildcard = {}" and "keys_of R Wildcard = {}"
    and "Me \<in> keys_of P t" and "Me \<notin> keys_of R t" and "(t, U) \<in> D" and "(t, Me) \<notin> D"
    and "\<not> keys_of R t \<subseteq> keys_of P t" and "\<not> (t = memberEventType \<and> Lazy \<notin> keys_of P t \<and> Lazy \<in> keys_of R t)"
    and "card (keys_of R t \<union> keys_of P t) \<le> MaxRememberedStateKeys"
  shows "Me \<in> keys_of (effective P (ComputeRequiredStateChanges U P R L Q D)) t"
proof -
  have differ: "\<not> sameRequiredState P R" using sameRequiredState_keys [OF assms(1,2), of t] assms(6,7) by auto
  let ?I = "(keys_of P t - {Wildcard, Lazy}) - ((keys_of P t - keys_of R t) \<inter> changedByType D t)"
  have "finite (keys_of R t \<union> keys_of P t)" using config_ok_finite assms(1,2) by blast
  then have "card (keys_of R t \<union> ?I) \<le> card (keys_of R t \<union> keys_of P t)" by (rule card_mono) auto
  then have "remembered (keys_of R t) ?I = keys_of R t \<union> ?I" using assms(12) by (intro remembered_all) simp
  moreover have "Me \<in> ?I" using assms(6,7,9) by simp
  moreover have "fp_change P R D t = Some (remembered (keys_of R t) ?I)"
    unfolding fp_change_def by (simp only: assms(10,11) if_False)
  ultimately have "Me \<in> new_keys U P R D t" by (simp add: new_keys_def)
  then show ?thesis using general_branch(1) [OF assms(1-3) differ] assms(4,5) by simp
qed

theorem own_membership_remembered_stale_witness:
  "''$ME'' \<in> keys_of (effective [(''m.room.member'', {''$ME''})] (ComputeRequiredStateChanges ''@u:x''
    [(''m.room.member'', {''$ME''})] [(''m.room.member'', {''@v:x''})] {} {} {(''m.room.member'', ''@u:x'')})) ''m.room.member''"
proof -
  have "config_ok [(''m.room.member'', {''$ME''})]" "config_ok [(''m.room.member'', {''@v:x''})]"
    by (rule config_okI; auto)+
  then show ?thesis
    using own_membership_remembered_stale [of "[(''m.room.member'', {''$ME''})]" "[(''m.room.member'', {''@v:x''})]"
      "{(''m.room.member'', ''@u:x'')}" "''m.room.member''" "''@u:x''" "{}" "{}"]
    by (simp add: mgetz_def Me_def Wildcard_def Lazy_def MaxRememberedStateKeys_def)
qed

end
