(* ===== verification/Gjson.thy ===== *)
theory Gjson
  imports Go_Prelude
begin

text \<open>
  JSON values as the sources read them through \<^verbatim>\<open>gjson\<close>. Parsing a text is an argument of the definitions
  that need it; a parsed value is a \<open>json\<close>, whose compound values carry their raw text, and whose
  numbers carry their raw text, what \<^verbatim>\<open>Int()\<close> reads and whether they differ from zero. \<open>JBad\<close> is the result
  of looking up what is not there, for which \<^verbatim>\<open>Exists()\<close> is false.
\<close>

datatype json =
    JNull
  | JBool bool
  | JNum string int bool
  | JStr string
  | JArr "json list" string
  | JObj "(string \<times> json) list" string
  | JBad

fun gj_String :: "json \<Rightarrow> string" where
  "gj_String JNull = ''''"
| "gj_String (JBool b) = (if b then ''true'' else ''false'')"
| "gj_String (JNum raw n nz) = raw"
| "gj_String (JStr s) = s"
| "gj_String (JArr xs raw) = raw"
| "gj_String (JObj fs raw) = raw"
| "gj_String JBad = ''''"

fun gj_IsArray :: "json \<Rightarrow> bool" where
  "gj_IsArray (JArr xs raw) = True"
| "gj_IsArray _ = False"

fun gj_IsObject :: "json \<Rightarrow> bool" where
  "gj_IsObject (JObj fs raw) = True"
| "gj_IsObject _ = False"

fun gj_Array :: "json \<Rightarrow> json list" where
  "gj_Array (JArr xs raw) = xs"
| "gj_Array JNull = []"
| "gj_Array JBad = []"
| "gj_Array v = [v]"

definition gj_Exists :: "json \<Rightarrow> bool" where
  "gj_Exists v \<longleftrightarrow> v \<noteq> JBad"

text \<open>\<^verbatim>\<open>Get\<close> with a path that is one key; the first field of that name counts. Not an object: nothing.\<close>

fun gj_Get :: "json \<Rightarrow> string \<Rightarrow> json" where
  "gj_Get (JObj fs raw) key = (case map_of fs key of Some v \<Rightarrow> v | None \<Rightarrow> JBad)"
| "gj_Get _ key = JBad"

fun gj_IsString :: "json \<Rightarrow> bool" where
  "gj_IsString (JStr s) = True"
| "gj_IsString _ = False"

fun gj_IsNumber :: "json \<Rightarrow> bool" where
  "gj_IsNumber (JNum raw n nz) = True"
| "gj_IsNumber _ = False"

fun gj_IsBool :: "json \<Rightarrow> bool" where
  "gj_IsBool (JBool b) = True"
| "gj_IsBool _ = False"

text \<open>\<^verbatim>\<open>Int()\<close>, for the numbers it is asked of.\<close>

fun gj_Int :: "json \<Rightarrow> int" where
  "gj_Int (JNum raw n nz) = n"
| "gj_Int _ = 0"

definition lower :: "char \<Rightarrow> char" where
  "lower c = (let n = of_char c :: nat in if 65 \<le> n \<and> n \<le> 90 then char_of (n + 32) else c)"

fun gj_Bool :: "json \<Rightarrow> bool" where
  "gj_Bool (JBool b) = b"
| "gj_Bool (JStr s) = (map lower s \<in> {''1'', ''t'', ''true''})"
| "gj_Bool (JNum raw n nz) = nz"
| "gj_Bool _ = False"

end
