(* ===== verification/Replication.thy ===== *)
theory Replication
  imports Gjson "HOL-Library.Product_Lexorder"
begin

text \<open>
  The replication subscriber: \<^verbatim>\<open>internal/replication/replication.go\<close> and \<^verbatim>\<open>rows.go\<close>.

  The subscriber's state is a record; each method is a function on it. What a method calls on
  others (the stream-change caches, the notifier, the invalidator, the connect and drop
  callbacks) is returned as a list of actions in the order of the calls, with the moment the
  position moves as an action of its own, so that the order the comments insist on is visible
  in the result. The root theory runs these actions on the models of the callees.

  A row is a JSON text. Reading one (\<^verbatim>\<open>gjson.Parse\<close>, a third-party package, and \<^verbatim>\<open>encoding/json\<close>) is
  the argument \<open>parse\<close>; what the code does with the value it reads is modelled on \<open>json\<close>. Metrics and
  logging are left out.
\<close>

section \<open>The model\<close>

record RowDetail =
  rd_RoomIDs :: "string list"
  rd_UserIDs :: "string list"
  rd_Type :: string
  rd_StateKey :: string

definition no_detail :: RowDetail where
  "no_detail = \<lparr>rd_RoomIDs = [], rd_UserIDs = [], rd_Type = '''', rd_StateKey = ''''\<rparr>"

definition json_at :: "json list \<Rightarrow> nat \<Rightarrow> string" where
  "json_at a i = (if i < length a then gj_String (a ! i) else '''')"

text \<open>The three row shapes of the events stream.\<close>

definition event_row :: "json list \<Rightarrow> RowDetail" where
  "event_row a =
     (if length a < 2 then no_detail
      else
        let inner = gj_Array (a ! 1); kind = gj_String (a ! 0) in
        if kind = ''ev'' \<and> length inner \<ge> 2 then
          let t = json_at inner 2; k = json_at inner 3 in
          \<lparr>rd_RoomIDs = [gj_String (inner ! 1)],
           rd_UserIDs = (if t = ''m.room.member'' \<and> k \<noteq> '''' then [k] else []),
           rd_Type = t, rd_StateKey = k\<rparr>
        else if kind = ''state'' \<and> length inner \<ge> 1 then
          \<lparr>rd_RoomIDs = [gj_String (inner ! 0)], rd_UserIDs = [],
           rd_Type = json_at inner 1, rd_StateKey = json_at inner 2\<rparr>
        else if kind = ''state-all'' \<and> length inner \<ge> 1 then
          no_detail\<lparr>rd_RoomIDs := [gj_String (inner ! 0)]\<rparr>
        else no_detail)"

definition rowDetails :: "string \<Rightarrow> json \<Rightarrow> RowDetail" where
  "rowDetails stream r =
     (if \<not> gj_IsArray r then no_detail
      else
        let a = gj_Array r in
        if stream = ''events'' then event_row a
        else if stream = ''typing'' then no_detail\<lparr>rd_RoomIDs := [json_at a 0]\<rparr>
        else if stream = ''receipts'' then no_detail\<lparr>rd_RoomIDs := [json_at a 0], rd_UserIDs := [json_at a 2]\<rparr>
        else if stream = ''presence'' then no_detail\<lparr>rd_UserIDs := [json_at a 0]\<rparr>
        else if stream = ''account_data'' then
          (if json_at a 1 \<noteq> '''' then no_detail\<lparr>rd_RoomIDs := [json_at a 1], rd_UserIDs := [json_at a 0]\<rparr>
           else no_detail\<lparr>rd_UserIDs := [json_at a 0]\<rparr>)
        else if stream \<in> {''to_device'', ''device_lists'', ''push_rules''} then no_detail\<lparr>rd_UserIDs := [json_at a 0]\<rparr>
        else if stream = ''sticky_events'' then no_detail\<lparr>rd_RoomIDs := [json_at a 0]\<rparr>
        else if stream = ''thread_subscriptions'' then no_detail\<lparr>rd_UserIDs := [json_at a 0], rd_RoomIDs := [json_at a 1]\<rparr>
        else if stream = ''un_partial_stated_room'' then no_detail\<lparr>rd_RoomIDs := [json_at a 0]\<rparr>
        else if stream = ''profile_updates'' then no_detail\<lparr>rd_UserIDs := [json_at a 0]\<rparr>
        else no_detail)"

text \<open>\<^verbatim>\<open>json.Unmarshal\<close> into a string and into a slice of strings; \<^verbatim>\<open>null\<close> leaves the zero value.\<close>

fun dec_string :: "json \<Rightarrow> string option" where
  "dec_string (JStr s) = Some s"
| "dec_string JNull = Some ''''"
| "dec_string _ = None"

fun dec_strings :: "json \<Rightarrow> string list option" where
  "dec_strings (JArr xs raw) = those (map dec_string xs)"
| "dec_strings JNull = Some []"
| "dec_strings _ = None"

definition silentStreams :: "string set" where
  "silentStreams = {''caches'', ''presence_federation''}"

definition resettableStreams :: "string set" where
  "resettableStreams = {''typing'', ''federation'', ''presence_federation''}"

definition maxPendingBatch :: nat where "maxPendingBatch = 10000"

record pendingRow =
  pr_row :: json
  pr_detail :: RowDetail

record Subscriber =
  sb_live :: bool
  sb_positions :: "(string, int) gomap"
  sb_typingSerial :: "(string, int) gomap"
  sb_typing :: "(string, string list) gomap"
  sb_lastByInstance :: "(string, (string, int) gomap) gomap"
  sb_pending :: "(string, pendingRow list) gomap"
  sb_abortSession :: bool

text \<open>The calls a method makes.\<close>

datatype action =
    ARecord string int "string list" "string list"
  | AAdvance string
  | AWake string int "string list" "string list"
  | AOnRow string int RowDetail
  | ARoomInvalidated string
  | APurge string
  | ADrop
  | AConnect "(string, int) gomap"
  | ACancel

definition sub_New :: Subscriber where
  "sub_New = \<lparr>sb_live = False, sb_positions = [], sb_typingSerial = [], sb_typing = [],
     sb_lastByInstance = [], sb_pending = [], sb_abortSession = False\<rparr>"

definition Seed :: "Subscriber \<Rightarrow> (string, int) gomap \<Rightarrow> Subscriber" where
  "Seed s positions = s\<lparr>sb_positions := fold (\<lambda>(stream, pos) ps.
     if pos > mgetz 0 ps stream then mput stream pos ps else ps) positions (sb_positions s)\<rparr>"

definition Position :: "Subscriber \<Rightarrow> string \<Rightarrow> int" where
  "Position s stream = mgetz 0 (sb_positions s) stream"

definition TypingIn :: "Subscriber \<Rightarrow> string \<Rightarrow> string list" where
  "TypingIn s roomID = mgetz [] (sb_typing s) roomID"

definition setLive :: "Subscriber \<Rightarrow> bool \<Rightarrow> Subscriber \<times> action list" where
  "setLive s live =
     (let was = sb_live s;
          s1 = (if live then s else s\<lparr>sb_typing := [], sb_typingSerial := [], sb_pending := []\<rparr>);
          s2 = s1\<lparr>sb_live := live\<rparr>
      in (s2, (if was \<and> \<not> live then [ADrop] else []) @
              (if \<not> was \<and> live then [AConnect (sb_positions s2)] else [])))"

definition abort :: "Subscriber \<Rightarrow> Subscriber \<times> action list" where
  "abort s = (let (s1, as) = setLive s False in (s1, as @ (if sb_abortSession s1 then [ACancel] else [])))"

definition dropDerivedStateLocked :: "Subscriber \<Rightarrow> string \<Rightarrow> Subscriber" where
  "dropDerivedStateLocked s stream =
     (if stream \<noteq> ''typing'' then s else s\<lparr>sb_typing := [], sb_typingSerial := []\<rparr>)"

definition advance :: "Subscriber \<Rightarrow> string \<Rightarrow> string \<Rightarrow> int \<Rightarrow> Subscriber" where
  "advance s stream instance pos =
     (let seen = mget (mgetz [] (sb_lastByInstance s) stream) instance;
          last = (case seen of Some p \<Rightarrow> p | None \<Rightarrow> 0);
          backwards = (seen \<noteq> None \<and> pos < last);
          inner = mgetz [] (sb_lastByInstance s) stream;
          inner1 = (if pos > last \<or> seen = None then mput instance pos inner else inner);
          s1 = s\<lparr>sb_lastByInstance := mput stream inner1 (sb_lastByInstance s)\<rparr>
      in if \<not> backwards \<or> stream \<notin> resettableStreams then
           (if pos > mgetz 0 (sb_positions s1) stream then s1\<lparr>sb_positions := mput stream pos (sb_positions s1)\<rparr> else s1)
         else
           let s2 = s1\<lparr>sb_lastByInstance := mput stream (mput instance pos inner1) (sb_lastByInstance s1)\<rparr>;
               s3 = dropDerivedStateLocked s2 stream
           in s3\<lparr>sb_positions := mput stream pos (sb_positions s3)\<rparr>)"

definition bestKnown :: "Subscriber \<Rightarrow> string \<Rightarrow> string \<Rightarrow> int" where
  "bestKnown s stream instance =
     (case mget (mgetz [] (sb_lastByInstance s) stream) instance of
        Some pos \<Rightarrow> pos
      | None \<Rightarrow> mgetz 0 (sb_positions s) stream)"

definition updateTyping :: "Subscriber \<Rightarrow> json \<Rightarrow> int \<Rightarrow> Subscriber" where
  "updateTyping s row pos = (case row of
     JArr (r # u # rest) raw \<Rightarrow>
       (case (dec_string r, dec_strings u) of
          (Some roomID, Some users) \<Rightarrow>
            let serial = (if pos \<le> 0 then mgetz 0 (sb_positions s) ''typing'' else pos);
                s1 = (if serial > mgetz 0 (sb_typingSerial s) roomID
                      then s\<lparr>sb_typingSerial := mput roomID serial (sb_typingSerial s)\<rparr> else s)
            in if users = [] then s1\<lparr>sb_typing := mdel roomID (sb_typing s1)\<rparr>
               else s1\<lparr>sb_typing := mput roomID users (sb_typing s1)\<rparr>
        | _ \<Rightarrow> s)
   | _ \<Rightarrow> s)"

text \<open>
  \<^verbatim>\<open>sort.Slice\<close> by serial and then room: the pairs are distinct, so any sort gives the sorted list.
\<close>

definition TypingChangedSince :: "Subscriber \<Rightarrow> int \<Rightarrow> string list" where
  "TypingChangedSince s pos =
     (if \<not> sb_live s then []
      else map snd (sorted_list_of_set ((\<lambda>(room, serial). (serial, room)) ` {c \<in> set (sb_typingSerial s). snd c > pos})))"

definition handleCacheInvalidation :: "json \<Rightarrow> action list" where
  "handleCacheInvalidation r =
     (if \<not> gj_IsArray r then []
      else
        let a = gj_Array r in
        if a = [] then []
        else
          let name = gj_String (a ! 0) in
          if name = ''ph_cache_fake'' \<or> name = ''dr_cache_fake'' then [APurge name]
          else if name = ''cs_cache_fake'' then
            (if length a \<ge> 2 then map (\<lambda>k. ARoomInvalidated (gj_String k)) (gj_Array (a ! 1)) else [])
          else [])"

text \<open>\<^verbatim>\<open>strings.SplitN\<close> for a one-byte separator, and \<^verbatim>\<open>strings.Fields\<close> on ASCII text.\<close>

fun split_n :: "char \<Rightarrow> nat \<Rightarrow> string \<Rightarrow> string list" where
  "split_n c (Suc (Suc n)) s =
     (case cut_on c s of None \<Rightarrow> [s] | Some (a, b) \<Rightarrow> a # split_n c (Suc n) b)"
| "split_n c (Suc 0) s = [s]"
| "split_n c 0 s = []"

definition is_space :: "char \<Rightarrow> bool" where
  "is_space c \<longleftrightarrow> (of_char c :: nat) \<in> {9, 10, 11, 12, 13, 32}"

fun fields_loop :: "string \<Rightarrow> string \<Rightarrow> string list" where
  "fields_loop acc [] = (if acc = [] then [] else [rev acc])"
| "fields_loop acc (c # cs) =
     (if is_space c then (if acc = [] then fields_loop [] cs else rev acc # fields_loop [] cs)
      else fields_loop (c # acc) cs)"

text \<open>
  The part of \<^verbatim>\<open>handleRDATA\<close> after a position has been parsed: the whole batch is applied at it.
  \<open>hasInv\<close> says whether an invalidator is registered.
\<close>

definition apply_batch :: "bool \<Rightarrow> Subscriber \<Rightarrow> string \<Rightarrow> string \<Rightarrow> int \<Rightarrow> pendingRow list \<Rightarrow> Subscriber \<times> action list" where
  "apply_batch hasInv s stream instance pos batch =
     (let silent = (stream \<in> silentStreams);
          s1 = (if stream = ''typing'' then
                  fold (\<lambda>r s. updateTyping s (pr_row r) pos) batch (advance s stream instance pos)
                else s);
          typed = (if stream = ''typing'' then [AAdvance stream] else []);
          invs = (if hasInv then concat (map (\<lambda>r. if stream = ''caches'' then handleCacheInvalidation (pr_row r)
                                               else [AOnRow stream pos (pr_detail r)]) batch) else []);
          recs = (if silent then [] else
                    map (\<lambda>r. ARecord stream pos (rd_RoomIDs (pr_detail r)) (rd_UserIDs (pr_detail r))) batch);
          s2 = (if pos > 0 \<and> stream \<noteq> ''typing'' then advance s1 stream instance pos else s1);
          adv = (if pos > 0 \<and> stream \<noteq> ''typing'' then [AAdvance stream] else []);
          wakes = (if silent then [] else
                    map (\<lambda>r. AWake stream pos (rd_RoomIDs (pr_detail r)) (rd_UserIDs (pr_detail r))) batch)
      in (s2, typed @ invs @ recs @ adv @ wakes))"

definition rdata_row :: "(string \<Rightarrow> json) \<Rightarrow> string \<Rightarrow> string \<Rightarrow> pendingRow" where
  "rdata_row parse stream rowtext =
     (let row = parse rowtext in \<lparr>pr_row = row, pr_detail = rowDetails stream row\<rparr>)"

definition rdata :: "bool \<Rightarrow> Subscriber \<Rightarrow> string \<Rightarrow> string \<Rightarrow> string \<Rightarrow> pendingRow \<Rightarrow> Subscriber \<times> action list" where
  "rdata hasInv s stream instance token p =
     (if token = ''batch'' then
        let q = mgetz [] (sb_pending s) stream @ [p]
        in if length q > maxPendingBatch then abort (s\<lparr>sb_pending := mdel stream (sb_pending s)\<rparr>)
           else (s\<lparr>sb_pending := mput stream q (sb_pending s)\<rparr>, [])
      else (case ParseInt token of
          None \<Rightarrow> (s, [])
        | Some pos \<Rightarrow>
            apply_batch hasInv (s\<lparr>sb_pending := mdel stream (sb_pending s)\<rparr>) stream instance pos
              (mgetz [] (sb_pending s) stream @ [p])))"

definition handleRDATA :: "bool \<Rightarrow> (string \<Rightarrow> json) \<Rightarrow> Subscriber \<Rightarrow> string \<Rightarrow> Subscriber \<times> action list" where
  "handleRDATA hasInv parse s payload =
     (case split_n (CHR '' '') 5 payload of
        [_, stream, instance, token, rowtext] \<Rightarrow> rdata hasInv s stream instance token (rdata_row parse stream rowtext)
      | _ \<Rightarrow> (s, []))"

definition handlePosition :: "Subscriber \<Rightarrow> string \<Rightarrow> Subscriber \<times> action list" where
  "handlePosition s payload =
     (case fields_loop [] payload of
        _ # stream # instance # prev # new # _ \<Rightarrow>
          (case ParseInt new of
             None \<Rightarrow> (s, [])
           | Some pos \<Rightarrow> (advance s stream instance pos, [ARecord stream pos [] [], AAdvance stream, AWake stream pos [] []]))
      | _ \<Rightarrow> (s, []))"

definition handle :: "bool \<Rightarrow> (string \<Rightarrow> json) \<Rightarrow> Subscriber \<Rightarrow> string \<Rightarrow> Subscriber \<times> action list" where
  "handle hasInv parse s payload =
     (if take 6 payload = ''RDATA '' then handleRDATA hasInv parse s payload
      else if take 9 payload = ''POSITION '' then handlePosition s payload
      else (s, []))"

text \<open>
  What can happen to the subscriber: the database seeds it, a session subscribes, delivers a
  message, or ends, by itself or because it was aborted.
\<close>

datatype sub_event = Seeded "(string, int) gomap" | Subscribed | Message string | SessionEnd

fun sub_step :: "bool \<Rightarrow> (string \<Rightarrow> json) \<Rightarrow> sub_event \<Rightarrow> Subscriber \<Rightarrow> Subscriber \<times> action list" where
  "sub_step hasInv parse (Seeded ps) s = (Seed s ps, [])"
| "sub_step hasInv parse Subscribed s = setLive (s\<lparr>sb_abortSession := True\<rparr>) True"
| "sub_step hasInv parse (Message m) s = handle hasInv parse s m"
| "sub_step hasInv parse SessionEnd s = setLive (s\<lparr>sb_abortSession := False\<rparr>) False"

text \<open>The delay of \<^verbatim>\<open>Run\<close> before the next attempt, in seconds, and the backoff it leaves.\<close>

definition run_backoff :: "nat \<Rightarrow> bool \<Rightarrow> nat \<times> nat" where
  "run_backoff backoff subscribed =
     (let delay = (if subscribed then 1 else backoff)
      in (delay, if delay < 30 then delay * 2 else delay))"

section \<open>Positions\<close>

text \<open>A position is taken backwards only from the writer that set it, on a resettable stream.\<close>

definition restarted :: "Subscriber \<Rightarrow> string \<Rightarrow> string \<Rightarrow> int \<Rightarrow> bool" where
  "restarted s stream instance pos \<longleftrightarrow> stream \<in> resettableStreams \<and>
     (\<exists>last. mget (mgetz [] (sb_lastByInstance s) stream) instance = Some last \<and> pos < last)"

lemma advance_forward:
  assumes "\<not> restarted s stream instance pos"
  obtains l where "advance s stream instance pos = s\<lparr>sb_lastByInstance := l,
    sb_positions := (if pos > mgetz 0 (sb_positions s) stream then mput stream pos (sb_positions s) else sb_positions s)\<rparr>"
proof (cases "mget (mgetz [] (sb_lastByInstance s) stream) instance")
  case None
  then show ?thesis
    by (intro that [of "mput stream (mput instance pos (mgetz [] (sb_lastByInstance s) stream)) (sb_lastByInstance s)"])
      (simp add: advance_def Let_def)
next
  case (Some last)
  with assms have "\<not> pos < last \<or> stream \<notin> resettableStreams" by (auto simp: restarted_def)
  with Some show ?thesis
    by (intro that [of "mput stream (if pos > last then mput instance pos (mgetz [] (sb_lastByInstance s) stream)
        else mgetz [] (sb_lastByInstance s) stream) (sb_lastByInstance s)"]) (simp add: advance_def Let_def)
qed

lemma advance_restart:
  assumes "restarted s stream instance pos"
  obtains l where "advance s stream instance pos =
    (dropDerivedStateLocked s stream)\<lparr>sb_lastByInstance := l, sb_positions := mput stream pos (sb_positions s)\<rparr>"
proof -
  from assms obtain last where "mget (mgetz [] (sb_lastByInstance s) stream) instance = Some last" "pos < last"
    "stream \<in> resettableStreams" by (auto simp: restarted_def)
  then show ?thesis
    by (intro that [of "mput stream (mput instance pos (mgetz [] (sb_lastByInstance s) stream)) (sb_lastByInstance s)"])
      (simp add: advance_def dropDerivedStateLocked_def Let_def)
qed

lemma Position_advance:
  "Position (advance s stream instance pos) stream' =
    (if stream' \<noteq> stream then Position s stream'
     else if restarted s stream instance pos then pos else max (Position s stream) pos)"
proof (cases "restarted s stream instance pos")
  case True
  then obtain l where "advance s stream instance pos =
    (dropDerivedStateLocked s stream)\<lparr>sb_lastByInstance := l, sb_positions := mput stream pos (sb_positions s)\<rparr>"
    by (rule advance_restart)
  with True show ?thesis by (simp add: Position_def)
next
  case False
  then obtain l where "advance s stream instance pos = s\<lparr>sb_lastByInstance := l,
    sb_positions := (if pos > mgetz 0 (sb_positions s) stream then mput stream pos (sb_positions s) else sb_positions s)\<rparr>"
    by (rule advance_forward)
  with False show ?thesis by (auto simp: Position_def)
qed

lemma updateTyping_frame [simp]:
  "sb_positions (updateTyping s row pos) = sb_positions s" "sb_live (updateTyping s row pos) = sb_live s"
  "sb_pending (updateTyping s row pos) = sb_pending s" "sb_lastByInstance (updateTyping s row pos) = sb_lastByInstance s"
  by (simp_all add: updateTyping_def Let_def split: json.split list.split option.split)

lemma fold_updateTyping_frame [simp]:
  "sb_positions (fold (\<lambda>r s. updateTyping s (pr_row r) pos) batch s) = sb_positions s"
  "sb_live (fold (\<lambda>r s. updateTyping s (pr_row r) pos) batch s) = sb_live s"
  by (induction batch arbitrary: s) simp_all

lemma setLive_frame [simp]: "sb_positions (fst (setLive s b)) = sb_positions s" "sb_live (fst (setLive s b)) = b"
  by (simp_all add: setLive_def Let_def)

lemma Position_setLive [simp]: "Position (fst (setLive s b)) stream = Position s stream"
  by (simp add: Position_def)

lemma Position_abort [simp]: "Position (fst (abort s)) stream = Position s stream"
  by (simp add: abort_def case_prod_beta)

lemma Position_simps [simp]:
  "Position (s\<lparr>sb_pending := x\<rparr>) stream = Position s stream" "Position (s\<lparr>sb_abortSession := b\<rparr>) stream = Position s stream"
  by (simp_all add: Position_def)

lemma Position_fold_typing [simp]:
  "Position (fold (\<lambda>r s. updateTyping s (pr_row r) pos) batch s) stream = Position s stream"
  by (simp add: Position_def)

lemma Position_Seed: "Position s stream \<le> Position (Seed s ps) stream"
proof -
  have "mgetz 0 ps0 stream \<le> mgetz 0 (fold (\<lambda>(st, pos) ps. if pos > mgetz 0 ps st then mput st pos ps else ps) ps ps0) stream"
    for ps0 :: "(string, int) gomap"
  proof (induction ps arbitrary: ps0)
    case (Cons x ps)
    obtain st pos where x: "x = (st, pos)" by (cases x)
    have "mgetz 0 ps0 stream \<le> mgetz 0 (if pos > mgetz 0 ps0 st then mput st pos ps0 else ps0) stream" by simp
    also have "\<dots> \<le> mgetz 0 (fold (\<lambda>(st, pos) ps. if pos > mgetz 0 ps st then mput st pos ps else ps) ps
        (if pos > mgetz 0 ps0 st then mput st pos ps0 else ps0)) stream" by (rule Cons.IH)
    finally show ?case by (simp add: x)
  qed simp
  then show ?thesis by (simp add: Position_def Seed_def)
qed

lemma Position_apply_batch:
  "stream' \<notin> resettableStreams \<Longrightarrow> Position s stream' \<le> Position (fst (apply_batch hasInv s stream instance pos batch)) stream'"
  by (auto simp: apply_batch_def Let_def Position_advance restarted_def)

text \<open>What a message does, without the text: nothing, a buffered row, an overflow, a batch, a position.\<close>

lemma handle_cases:
  obtains (ignored) "handle hasInv parse s m = (s, [])"
  | (buffered) stream p where "handle hasInv parse s m =
      (s\<lparr>sb_pending := mput stream (mgetz [] (sb_pending s) stream @ [p]) (sb_pending s)\<rparr>, [])"
  | (overflow) stream where "handle hasInv parse s m = abort (s\<lparr>sb_pending := mdel stream (sb_pending s)\<rparr>)"
  | (batch) stream inst pos p where "handle hasInv parse s m =
      apply_batch hasInv (s\<lparr>sb_pending := mdel stream (sb_pending s)\<rparr>) stream inst pos (mgetz [] (sb_pending s) stream @ [p])"
  | (position) stream inst pos where "handle hasInv parse s m =
      (advance s stream inst pos, [ARecord stream pos [] [], AAdvance stream, AWake stream pos [] []])"
proof -
  consider "take 6 m = ''RDATA ''" | "take 6 m \<noteq> ''RDATA ''" "take 9 m = ''POSITION ''"
    | "take 6 m \<noteq> ''RDATA ''" "take 9 m \<noteq> ''POSITION ''" by blast
  then show ?thesis
  proof cases
    case 1
    then have h: "handle hasInv parse s m = handleRDATA hasInv parse s m" by (simp add: handle_def)
    show ?thesis
    proof (cases "handleRDATA hasInv parse s m = (s, [])")
      case True
      with h show ?thesis by (intro ignored) simp
    next
      case False
      then obtain stream i token p where "handleRDATA hasInv parse s m = rdata hasInv s stream i token p"
        by (auto simp: handleRDATA_def split: list.splits)
      with h have r: "handle hasInv parse s m = rdata hasInv s stream i token p" by simp
      show ?thesis
      proof (cases "token = ''batch''")
        case True
        then show ?thesis
          using buffered [of stream p] overflow [of stream] r by (auto simp: rdata_def Let_def split: if_splits)
      next
        case False
        then show ?thesis
          using ignored batch [of stream i _ p] r by (auto simp: rdata_def split: option.splits)
      qed
    qed
  next
    case 2
    then have h: "handle hasInv parse s m = handlePosition s m" by (simp add: handle_def)
    show ?thesis
    proof (cases "handlePosition s m = (s, [])")
      case True
      with h show ?thesis by (intro ignored) simp
    next
      case False
      then obtain stream i pos where "handlePosition s m =
          (advance s stream i pos, [ARecord stream pos [] [], AAdvance stream, AWake stream pos [] []])"
        by (auto simp: handlePosition_def split: list.splits option.splits)
      with h show ?thesis by (intro position [of stream i pos]) simp
    qed
  next
    case 3
    with ignored show ?thesis by (simp add: handle_def)
  qed
qed

lemma Position_handle:
  assumes "stream \<notin> resettableStreams"
  shows "Position s stream \<le> Position (fst (handle hasInv parse s m)) stream"
proof (cases rule: handle_cases [of hasInv parse s m])
  case (batch stream' inst pos p)
  have "Position s stream = Position (s\<lparr>sb_pending := mdel stream' (sb_pending s)\<rparr>) stream" by simp
  also have "\<dots> \<le> Position (fst (handle hasInv parse s m)) stream"
    unfolding batch by (rule Position_apply_batch [OF assms])
  finally show ?thesis .
next
  case (position stream' inst pos)
  with assms show ?thesis by (auto simp: Position_advance restarted_def)
qed simp_all

lemma Position_step:
  "stream \<notin> resettableStreams \<Longrightarrow> Position s stream \<le> Position (fst (sub_step hasInv parse ev s)) stream"
  by (cases ev) (simp_all add: Position_handle Position_Seed)

section \<open>Typing\<close>

text \<open>No room's typists are recorded as changed after the stream's own position.\<close>

definition typing_inv :: "Subscriber \<Rightarrow> bool" where
  "typing_inv s \<longleftrightarrow> mwf (sb_typingSerial s) \<and>
     (\<forall>room serial. mget (sb_typingSerial s) room = Some serial \<longrightarrow> serial \<le> Position s ''typing'')"

lemma typing_inv_updateTyping:
  assumes "typing_inv s" and "pos \<le> Position s ''typing''"
  shows "typing_inv (updateTyping s row pos)"
proof -
  have up: "typing_inv (s\<lparr>sb_typingSerial := mput room serial (sb_typingSerial s)\<rparr>)" if "serial \<le> Position s ''typing''" for room serial
    using assms(1) that by (auto simp: typing_inv_def Position_def)
  have ty: "typing_inv (s'\<lparr>sb_typing := x\<rparr>) = typing_inv s'" for s' x by (simp add: typing_inv_def Position_def)
  have "(if pos \<le> 0 then mgetz 0 (sb_positions s) ''typing'' else pos) \<le> Position s ''typing''"
    using assms(2) by (simp add: Position_def)
  with assms(1) up ty show ?thesis
    unfolding updateTyping_def Let_def by (auto split: json.split list.split option.split)
qed

lemma typing_inv_fold:
  assumes "typing_inv s" and "pos \<le> Position s ''typing''"
  shows "typing_inv (fold (\<lambda>r s. updateTyping s (pr_row r) pos) batch s)"
  using assms
proof (induction batch arbitrary: s)
  case (Cons r batch)
  have "typing_inv (updateTyping s (pr_row r) pos)" by (rule typing_inv_updateTyping [OF Cons.prems])
  moreover have "pos \<le> Position (updateTyping s (pr_row r) pos) ''typing''" using Cons.prems(2) by (simp add: Position_def)
  ultimately show ?case using Cons.IH by simp
qed simp

lemma typing_inv_advance:
  assumes "typing_inv s"
  shows "typing_inv (advance s stream inst pos)" and "pos \<le> Position (advance s stream inst pos) stream"
proof -
  show "pos \<le> Position (advance s stream inst pos) stream" by (simp add: Position_advance)
  show "typing_inv (advance s stream inst pos)"
  proof (cases "restarted s stream inst pos")
    case True
    then obtain l where "advance s stream inst pos =
      (dropDerivedStateLocked s stream)\<lparr>sb_lastByInstance := l, sb_positions := mput stream pos (sb_positions s)\<rparr>"
      by (rule advance_restart)
    with assms show ?thesis by (auto simp: typing_inv_def Position_def dropDerivedStateLocked_def)
  next
    case False
    then obtain l where "advance s stream inst pos = s\<lparr>sb_lastByInstance := l,
      sb_positions := (if pos > mgetz 0 (sb_positions s) stream then mput stream pos (sb_positions s) else sb_positions s)\<rparr>"
      by (rule advance_forward)
    with assms show ?thesis by (fastforce simp: typing_inv_def Position_def)
  qed
qed

lemma typing_inv_simps [simp]:
  "typing_inv (s\<lparr>sb_pending := x\<rparr>) = typing_inv s" "typing_inv (s\<lparr>sb_abortSession := b\<rparr>) = typing_inv s"
  by (simp_all add: typing_inv_def Position_def)

lemma typing_inv_setLive [simp]: "typing_inv s \<Longrightarrow> typing_inv (fst (setLive s b))"
  by (auto simp: typing_inv_def setLive_def Let_def Position_def)

lemma typing_inv_apply_batch:
  assumes "typing_inv s"
  shows "typing_inv (fst (apply_batch hasInv s stream inst pos batch))"
proof (cases "stream = ''typing''")
  case True
  then show ?thesis
    using typing_inv_fold [OF typing_inv_advance(1) [OF assms], of pos "''typing''" inst pos batch]
      typing_inv_advance(2) [OF assms, of pos "''typing''" inst]
    by (simp add: apply_batch_def Let_def)
next
  case False
  then show ?thesis using assms typing_inv_advance(1) by (simp add: apply_batch_def Let_def)
qed

lemma typing_inv_step: "typing_inv s \<Longrightarrow> typing_inv (fst (sub_step hasInv parse ev s))"
proof (cases ev)
  case (Seeded ps)
  assume "typing_inv s"
  moreover have "sb_typingSerial (Seed s ps) = sb_typingSerial s" by (simp add: Seed_def)
  ultimately show ?thesis
    using Seeded Position_Seed [of s "''typing''" ps] by (fastforce simp: typing_inv_def)
next
  case (Message m)
  assume inv: "typing_inv s"
  show ?thesis
  proof (cases rule: handle_cases [of hasInv parse s m])
    case (batch stream i pos p)
    with Message inv typing_inv_apply_batch [of "s\<lparr>sb_pending := mdel stream (sb_pending s)\<rparr>"] show ?thesis by simp
  next
    case (overflow stream)
    with Message inv show ?thesis by (simp add: abort_def case_prod_beta)
  qed (use Message inv typing_inv_advance(1) in simp_all)
qed simp_all

lemma TypingChangedSince_sorted:
  assumes "typing_inv s" and "sb_live s"
  shows "set (TypingChangedSince s pos) = {room. \<exists>serial > pos. mget (sb_typingSerial s) room = Some serial}"
    and "sorted_wrt (\<lambda>a b. mgetz 0 (sb_typingSerial s) a \<le> mgetz 0 (sb_typingSerial s) b) (TypingChangedSince s pos)"
    and "distinct (TypingChangedSince s pos)"
proof -
  let ?S = "(\<lambda>(room, serial). (serial, room)) ` {c \<in> set (sb_typingSerial s). snd c > pos}"
  let ?l = "sorted_list_of_set ?S"
  have fin: "finite ?S" by simp
  have eq: "TypingChangedSince s pos = map snd ?l" using assms(2) by (simp add: TypingChangedSince_def)
  have wf: "mwf (sb_typingSerial s)" using assms(1) by (simp add: typing_inv_def)
  have mem: "c \<in> ?S \<longleftrightarrow> mget (sb_typingSerial s) (snd c) = Some (fst c) \<and> fst c > pos" for c
    by (cases c) (force simp: wf)
  have "set (TypingChangedSince s pos) = snd ` ?S" using fin by (simp add: eq)
  also have "\<dots> = {room. \<exists>serial > pos. mget (sb_typingSerial s) room = Some serial}"
  proof (intro set_eqI iffI)
    fix room assume "room \<in> {room. \<exists>serial > pos. mget (sb_typingSerial s) room = Some serial}"
    then obtain serial where "(serial, room) \<in> ?S" by (auto simp: mem)
    then show "room \<in> snd ` ?S" by force
  next
    fix room assume "room \<in> snd ` ?S"
    then obtain c where "c \<in> ?S" "room = snd c" by blast
    then show "room \<in> {room. \<exists>serial > pos. mget (sb_typingSerial s) room = Some serial}" by (auto simp: mem)
  qed
  finally show "set (TypingChangedSince s pos) = {room. \<exists>serial > pos. mget (sb_typingSerial s) room = Some serial}" .
  have serial: "mgetz 0 (sb_typingSerial s) (snd c) = fst c" if "c \<in> set ?l" for c
    using that fin mem [of c] by (simp add: mgetz_def del: image_iff)
  have "sorted_wrt (\<lambda>a b. fst a \<le> fst b) ?l"
    by (rule sorted_wrt_mono_rel [of _ "(\<le>)"]) (auto simp: less_eq_prod_def)
  then have "sorted_wrt (\<lambda>a b. mgetz 0 (sb_typingSerial s) (snd a) \<le> mgetz 0 (sb_typingSerial s) (snd b)) ?l"
    by (rule sorted_wrt_mono_rel [rotated]) (simp add: serial)
  then show "sorted_wrt (\<lambda>a b. mgetz 0 (sb_typingSerial s) a \<le> mgetz 0 (sb_typingSerial s) b) (TypingChangedSince s pos)"
    by (simp add: eq sorted_wrt_map)
  have "inj_on snd ?S"
  proof (rule inj_onI)
    fix a b assume "a \<in> ?S" "b \<in> ?S" "snd a = snd b"
    then have "fst a = fst b" unfolding mem by simp
    with \<open>snd a = snd b\<close> show "a = b" by (rule prod_eqI [rotated])
  qed
  then show "distinct (TypingChangedSince s pos)" using fin by (simp add: eq distinct_map)
qed

section \<open>Batches\<close>

definition rdata_payload :: "string \<Rightarrow> string \<Rightarrow> string \<Rightarrow> string \<Rightarrow> string" where
  "rdata_payload stream inst token row = ''RDATA '' @ stream @ '' '' @ inst @ '' '' @ token @ '' '' @ row"

definition one_word :: "string \<Rightarrow> bool" where
  "one_word w \<longleftrightarrow> CHR '' '' \<notin> set w"

lemma split_n_step: "one_word a \<Longrightarrow> split_n (CHR '' '') (Suc (Suc n)) (a @ CHR '' '' # b) = a # split_n (CHR '' '') (Suc n) b"
  by (simp add: one_word_def cut_on_append)

lemma handle_rdata_payload:
  assumes "one_word stream" and "one_word inst" and "one_word token"
  shows "handle hasInv parse s (rdata_payload stream inst token row) = rdata hasInv s stream inst token (rdata_row parse stream row)"
proof -
  have "split_n (CHR '' '') 5 (''RDATA'' @ CHR '' '' # stream @ CHR '' '' # inst @ CHR '' '' # token @ CHR '' '' # row) =
      [''RDATA'', stream, inst, token, row]"
    using assms by (simp add: eval_nat_numeral split_n_step [of "''RDATA''", simplified] split_n_step one_word_def del: split_n.simps(1))
      (simp add: cut_on_append)
  then show ?thesis by (simp add: handle_def handleRDATA_def rdata_payload_def)
qed

fun sub_run :: "bool \<Rightarrow> (string \<Rightarrow> json) \<Rightarrow> sub_event list \<Rightarrow> Subscriber \<Rightarrow> Subscriber \<times> action list" where
  "sub_run hasInv parse [] s = (s, [])"
| "sub_run hasInv parse (ev # evs) s =
     (let (s1, as1) = sub_step hasInv parse ev s; (s2, as2) = sub_run hasInv parse evs s1 in (s2, as1 @ as2))"

lemma fst_sub_run_Cons: "fst (sub_run hasInv parse (ev # evs) s) = fst (sub_run hasInv parse evs (fst (sub_step hasInv parse ev s)))"
  by (simp add: case_prod_beta Let_def)

lemma batch_buffers:
  assumes "one_word stream" and "one_word inst" and "length (mgetz [] (sb_pending s) stream) + length rows \<le> maxPendingBatch"
  shows "sub_run hasInv parse (map (\<lambda>r. Message (rdata_payload stream inst ''batch'' r)) rows) s =
    (if rows = [] then s else s\<lparr>sb_pending := mput stream (mgetz [] (sb_pending s) stream @ map (rdata_row parse stream) rows) (sb_pending s)\<rparr>, [])"
  using assms(3)
proof (induction rows arbitrary: s)
  case (Cons r rows)
  have b: "one_word ''batch''" by (simp add: one_word_def)
  let ?q = "mgetz [] (sb_pending s) stream @ [rdata_row parse stream r]"
  let ?s = "s\<lparr>sb_pending := mput stream ?q (sb_pending s)\<rparr>"
  have "sub_step hasInv parse (Message (rdata_payload stream inst ''batch'' r)) s = (?s, [])"
    using Cons.prems by (simp add: handle_rdata_payload [OF assms(1,2) b] rdata_def Let_def)
  moreover have "sub_run hasInv parse (map (\<lambda>r. Message (rdata_payload stream inst ''batch'' r)) rows) ?s =
      (if rows = [] then ?s else ?s\<lparr>sb_pending := mput stream (mgetz [] (sb_pending ?s) stream @ map (rdata_row parse stream) rows) (sb_pending ?s)\<rparr>, [])"
    using Cons.prems by (intro Cons.IH) simp
  moreover have "mput k v (mput k v' m) = mput k v m" for k :: string and v v' and m :: "(string, pendingRow list) gomap"
    by (induction m) auto
  ultimately show ?case by simp
qed simp

lemma advance_pending [simp]: "sb_pending (advance s stream inst pos) = sb_pending s"
  by (cases "restarted s stream inst pos")
    (auto simp: dropDerivedStateLocked_def elim!: advance_restart [of s stream inst pos] advance_forward [of s stream inst pos])

lemma fold_updateTyping_pending [simp]:
  "sb_pending (fold (\<lambda>r s. updateTyping s (pr_row r) pos) batch s) = sb_pending s"
  by (induction batch arbitrary: s) simp_all

lemma apply_batch_pending [simp]: "sb_pending (fst (apply_batch hasInv s stream inst pos batch)) = sb_pending s"
  by (simp add: apply_batch_def Let_def)

fun is_record :: "action \<Rightarrow> bool" where
  "is_record (ARecord stream pos rooms users) = True"
| "is_record _ = False"

lemma cache_invalidation_no_record: "filter is_record (handleCacheInvalidation r) = []"
  by (auto simp: handleCacheInvalidation_def Let_def filter_empty_conv)

lemma apply_batch_records:
  "filter is_record (snd (apply_batch hasInv s stream inst pos batch)) =
    (if stream \<in> silentStreams then [] else
      map (\<lambda>r. ARecord stream pos (rd_RoomIDs (pr_detail r)) (rd_UserIDs (pr_detail r))) batch)"
proof -
  have "filter is_record (concat (map (\<lambda>r. if stream = ''caches'' then handleCacheInvalidation (pr_row r)
      else [AOnRow stream pos (pr_detail r)]) batch)) = []"
    by (induction batch) (simp_all add: cache_invalidation_no_record)
  moreover have "filter is_record (map (\<lambda>r. ARecord stream pos (rd_RoomIDs (pr_detail r)) (rd_UserIDs (pr_detail r))) batch) =
      map (\<lambda>r. ARecord stream pos (rd_RoomIDs (pr_detail r)) (rd_UserIDs (pr_detail r))) batch"
    by (simp add: filter_id_conv)
  moreover have "filter is_record (map (\<lambda>r. AWake stream pos (rd_RoomIDs (pr_detail r)) (rd_UserIDs (pr_detail r))) batch) = []"
    by (simp add: filter_empty_conv)
  ultimately show ?thesis by (simp add: apply_batch_def Let_def)
qed

lemma FormatInt_word: "one_word (FormatInt pos)" "FormatInt pos \<noteq> ''batch''"
proof -
  show "one_word (FormatInt pos)" using FormatInt_chars [of "CHR '' ''" pos] by (auto simp: one_word_def int_char_def)
  have "CHR ''b'' \<notin> set (FormatInt pos)" using FormatInt_chars [of "CHR ''b''" pos] by (auto simp: int_char_def)
  then show "FormatInt pos \<noteq> ''batch''" by auto
qed

section \<open>Properties\<close>

text \<open>
  C7. Positions never go backwards. Whatever is seeded, delivered, lost and reconnected, the
  position of a stream that is not one of the three in-memory ones never decreases, so no token
  built from it asks a client to replay.
\<close>

theorem positions_never_decrease:
  assumes "stream \<notin> resettableStreams"
  shows "Position s stream \<le> Position (fst (sub_run hasInv parse evs s)) stream"
proof (induction evs arbitrary: s)
  case (Cons ev evs)
  have "Position s stream \<le> Position (fst (sub_step hasInv parse ev s)) stream" by (rule Position_step [OF assms])
  also have "\<dots> \<le> Position (fst (sub_run hasInv parse (ev # evs) s)) stream" unfolding fst_sub_run_Cons by (rule Cons.IH)
  finally show ?case .
qed simp

theorem positions_never_decrease_witness:
  "Position (Seed sub_New [(''events'', 7)]) ''events'' \<le>
    Position (fst (sub_run False (\<lambda>_. JBad) [Subscribed, Message ''POSITION events w1 3 5'', SessionEnd] (Seed sub_New [(''events'', 7)]))) ''events''"
  by (rule positions_never_decrease) (simp add: resettableStreams_def)

text \<open>
  A batch is applied at the position of its last row. Its buffered rows cause no call and
  move no position; when the row with the position arrives, every row of the batch is recorded,
  in arrival order, at that final position, and the buffer is empty again.
\<close>

theorem batch_applied_at_final_position:
  assumes "one_word stream" and "one_word inst" and "one_word inst'" and "length rows \<le> maxPendingBatch"
    and "mget (sb_pending s) stream = None" and "int64 pos"
  shows "let (s1, as1) = sub_run hasInv parse (map (\<lambda>r. Message (rdata_payload stream inst ''batch'' r)) rows) s;
      (s2, as2) = sub_step hasInv parse (Message (rdata_payload stream inst' (FormatInt pos) row)) s1
    in as1 = [] \<and> Position s1 = Position s \<and> mget (sb_pending s2) stream = None \<and>
      filter is_record as2 = (if stream \<in> silentStreams then [] else
        map (\<lambda>r. let d = rowDetails stream (parse r) in ARecord stream pos (rd_RoomIDs d) (rd_UserIDs d)) (rows @ [row]))"
proof -
  have none: "mgetz [] (sb_pending s) stream = []" using assms(5) by (simp add: mgetz_def)
  have "sub_run hasInv parse (map (\<lambda>r. Message (rdata_payload stream inst ''batch'' r)) rows) s =
      (if rows = [] then s else s\<lparr>sb_pending := mput stream (mgetz [] (sb_pending s) stream @ map (rdata_row parse stream) rows) (sb_pending s)\<rparr>, [])"
    by (rule batch_buffers [OF assms(1,2)]) (use assms(4) none in simp)
  then obtain s1 where run: "sub_run hasInv parse (map (\<lambda>r. Message (rdata_payload stream inst ''batch'' r)) rows) s = (s1, [])"
    and rows: "mgetz [] (sb_pending s1) stream = map (rdata_row parse stream) rows" and pos: "Position s1 = Position s"
    using none by (auto simp: Position_def fun_eq_iff)
  have step: "sub_step hasInv parse (Message (rdata_payload stream inst' (FormatInt pos) row)) s1 =
      apply_batch hasInv (s1\<lparr>sb_pending := mdel stream (sb_pending s1)\<rparr>) stream inst' pos (map (rdata_row parse stream) (rows @ [row]))"
    using FormatInt_word [of pos] ParseInt_FormatInt [OF assms(6)] rows
    by (simp add: handle_rdata_payload [OF assms(1,3) FormatInt_word(1)] rdata_def)
  show ?thesis
    unfolding run Let_def prod.case case_prod_beta fst_conv snd_conv step apply_batch_records apply_batch_pending
    using pos by (simp add: rdata_row_def Let_def)
qed

theorem batch_applied_at_final_position_witness:
  "let (s1, as1) = sub_run False (\<lambda>_. JArr [JStr ''@u:x''] []) (map (\<lambda>r. Message (rdata_payload ''presence'' ''w'' ''batch'' r)) [''r1'']) sub_New;
      (s2, as2) = sub_step False (\<lambda>_. JArr [JStr ''@u:x''] []) (Message (rdata_payload ''presence'' ''w'' (FormatInt 5) ''r2'')) s1
    in filter is_record as2 = [ARecord ''presence'' 5 [] [''@u:x''], ARecord ''presence'' 5 [] [''@u:x'']]"
proof -
  have "one_word ''presence''" "one_word ''w''" "mget (sb_pending sub_New) ''presence'' = None"
    by (simp_all add: one_word_def sub_New_def)
  then show ?thesis
    using batch_applied_at_final_position [of "''presence''" "''w''" "''w''" "[''r1'']" sub_New 5 False "\<lambda>_. JArr [JStr ''@u:x''] []" "''r2''"]
    by (simp add: maxPendingBatch_def int64_def case_prod_beta Let_def silentStreams_def rowDetails_def no_detail_def json_at_def
        del: sub_step.simps sub_run.simps)
qed

text \<open>
  A batch that never ends drops the connection. The row that would exceed the bound clears
  the buffers and the typing state and marks the subscription not live, telling the drop
  callback once and cancelling the session so that it can reconnect; the rows it held are not
  applied.
\<close>

theorem endless_batch_aborts:
  assumes "one_word stream" and "one_word inst" and "length (mgetz [] (sb_pending s) stream) = maxPendingBatch"
  shows "let (s1, as1) = handle hasInv parse s (rdata_payload stream inst ''batch'' row)
    in \<not> sb_live s1 \<and> sb_pending s1 = [] \<and> sb_typing s1 = [] \<and> sb_typingSerial s1 = [] \<and> sb_positions s1 = sb_positions s \<and>
      as1 = (if sb_live s then [ADrop] else []) @ (if sb_abortSession s then [ACancel] else [])"
proof -
  have b: "one_word ''batch''" by (simp add: one_word_def)
  show ?thesis
    unfolding handle_rdata_payload [OF assms(1,2) b] using assms(3)
    by (simp add: rdata_def abort_def setLive_def Let_def)
qed

theorem endless_batch_aborts_witness:
  "let s = sub_New\<lparr>sb_live := True, sb_pending := [(''events'', replicate maxPendingBatch \<lparr>pr_row = JNull, pr_detail = no_detail\<rparr>)]\<rparr>
    in \<not> sb_live (fst (handle False (\<lambda>_. JNull) s (rdata_payload ''events'' ''w'' ''batch'' ''x'')))"
  using endless_batch_aborts [of "''events''" "''w''"
    "sub_New\<lparr>sb_live := True, sb_pending := [(''events'', replicate maxPendingBatch \<lparr>pr_row = JNull, pr_detail = no_detail\<rparr>)]\<rparr>"
    False "\<lambda>_. JNull" "''x''"]
  by (simp add: one_word_def mgetz_def Let_def case_prod_beta)

text \<open>
  \<^verbatim>\<open>TypingChangedSince\<close> answers exactly the rooms whose recorded change is after the position, each
  once and oldest change first; and, in every state the subscriber reaches, asking about the
  stream's own position gives no room, so a client that has seen the current token is not told
  of old changes again, not even after a typing writer restarted.
\<close>

theorem typing_changed_since_exact:
  assumes "s = fst (sub_run hasInv parse evs sub_New)" and "sb_live s"
  shows "set (TypingChangedSince s pos) = {room. \<exists>serial > pos. mget (sb_typingSerial s) room = Some serial} \<and>
    sorted_wrt (\<lambda>a b. mgetz 0 (sb_typingSerial s) a \<le> mgetz 0 (sb_typingSerial s) b) (TypingChangedSince s pos) \<and>
    distinct (TypingChangedSince s pos) \<and> TypingChangedSince s (Position s ''typing'') = []"
proof -
  have "typing_inv (fst (sub_run hasInv parse evs s0))" if "typing_inv s0" for s0
    using that
  proof (induction evs arbitrary: s0)
    case (Cons ev evs)
    then show ?case unfolding fst_sub_run_Cons by (intro Cons.IH typing_inv_step)
  qed simp
  moreover have "typing_inv sub_New" by (simp add: typing_inv_def sub_New_def)
  ultimately have inv: "typing_inv s" using assms(1) by blast
  note sorted = TypingChangedSince_sorted [OF inv assms(2)]
  have "set (TypingChangedSince s (Position s ''typing'')) = {}"
    unfolding sorted(1) using inv by (force simp: typing_inv_def)
  then have "TypingChangedSince s (Position s ''typing'') = []" by (simp only: set_empty)
  with sorted [of pos] show ?thesis by blast
qed

theorem typing_changed_since_exact_witness:
  "set (TypingChangedSince (fst (sub_run False (\<lambda>_. JArr [JStr ''!r:x'', JArr [JStr ''@u:x''] ''''] '''')
      [Subscribed, Message ''RDATA typing w 3 x''] sub_New)) 2) = {''!r:x''}"
proof -
  have run: "fst (sub_run False (\<lambda>_. JArr [JStr ''!r:x'', JArr [JStr ''@u:x''] ''''] '''') [Subscribed, Message ''RDATA typing w 3 x''] sub_New)
      = \<lparr>sb_live = True, sb_positions = [(''typing'', 3)], sb_typingSerial = [(''!r:x'', 3)], sb_typing = [(''!r:x'', [''@u:x''])],
         sb_lastByInstance = [(''typing'', [(''w'', 3)])], sb_pending = [], sb_abortSession = True\<rparr>"
    by code_simp
  show ?thesis
    unfolding run using typing_changed_since_exact [OF run [symmetric], of 2] by (auto split: if_splits)
qed

end
