(* ===== verification/Notifier.thy ===== *)
theory Notifier
  imports Go_Prelude "HOL-Library.Word"
begin

text \<open>
  The notifier: \<^verbatim>\<open>internal/notifier/notifier.go\<close>.

  A waiter is a heap object shared by the notifier's map and the handle its caller holds, so
  the model has a heap of waiters (a list, the pointer being the index) beside the map from
  registration ids to pointers. A channel is modelled by whether it has been closed; closing a
  closed channel panics, which is \<open>None\<close>. Each method holds the lock for its whole body and is one
  step; \<^verbatim>\<open>Wait\<close> returns true only once the channel is closed.
\<close>

section \<open>The model\<close>

record waiter =
  wt_rooms :: "string set"
  wt_users :: "string set"
  wt_wake_closed :: bool
  wt_done :: bool

record Notifier =
  nt_nextID :: "64 word"
  nt_waiters :: "(64 word, nat) gomap"
  nt_heap :: "waiter list"

record Handle =
  hd_id :: "64 word"
  hd_w :: nat

definition nt_New :: Notifier where
  "nt_New = \<lparr>nt_nextID = 0, nt_waiters = [], nt_heap = []\<rparr>"

definition toSet :: "string list \<Rightarrow> string set" where
  "toSet xs = set xs"

definition Register :: "Notifier \<Rightarrow> string list \<Rightarrow> string list \<Rightarrow> Notifier \<times> Handle" where
  "Register n rooms users =
     (let w = \<lparr>wt_rooms = toSet rooms, wt_users = toSet users, wt_wake_closed = False, wt_done = False\<rparr>;
          ptr = length (nt_heap n);
          id = nt_nextID n + 1
      in (n\<lparr>nt_nextID := id, nt_waiters := mput id ptr (nt_waiters n), nt_heap := nt_heap n @ [w]\<rparr>,
          \<lparr>hd_id = id, hd_w = ptr\<rparr>))"

definition Close :: "Notifier \<Rightarrow> Handle \<Rightarrow> Notifier" where
  "Close n h = n\<lparr>nt_waiters := mdel (hd_id h) (nt_waiters n)\<rparr>"

text \<open>What \<^verbatim>\<open>Wait\<close> finds: the channel closed, so that it returns true, or not.\<close>

definition woken :: "Notifier \<Rightarrow> Handle \<Rightarrow> bool" where
  "woken n h = wt_wake_closed (nt_heap n ! hd_w h)"

definition interested :: "waiter \<Rightarrow> string list \<Rightarrow> string list \<Rightarrow> bool" where
  "interested w roomIDs userIDs =
     (if wt_rooms w = {} \<and> wt_users w = {} then True
      else if list_ex (\<lambda>r. r \<in> wt_rooms w) roomIDs then True
      else list_ex (\<lambda>u. u \<in> wt_users w) userIDs)"

text \<open>The loop over the waiters: \<open>None\<close> when a channel would be closed twice.\<close>

fun wake_loop :: "string list \<Rightarrow> string list \<Rightarrow> bool \<Rightarrow> nat list \<Rightarrow> waiter list \<times> nat \<Rightarrow> (waiter list \<times> nat) option" where
  "wake_loop roomIDs userIDs global [] acc = Some acc"
| "wake_loop roomIDs userIDs global (ptr # ptrs) (heap, count) =
     (let w = heap ! ptr in
      if wt_done w then wake_loop roomIDs userIDs global ptrs (heap, count)
      else if global \<or> interested w roomIDs userIDs then
        (if wt_wake_closed w then None
         else wake_loop roomIDs userIDs global ptrs (heap[ptr := w\<lparr>wt_done := True, wt_wake_closed := True\<rparr>], count + 1))
      else wake_loop roomIDs userIDs global ptrs (heap, count))"

definition nt_OnStreamAdvance :: "Notifier \<Rightarrow> string list \<Rightarrow> string list \<Rightarrow> (Notifier \<times> nat) option" where
  "nt_OnStreamAdvance n roomIDs userIDs =
     (case wake_loop roomIDs userIDs (roomIDs = [] \<and> userIDs = []) (map snd (nt_waiters n)) (nt_heap n, 0) of
        None \<Rightarrow> None
      | Some (heap, count) \<Rightarrow> Some (n\<lparr>nt_heap := heap\<rparr>, count))"

definition Waiters :: "Notifier \<Rightarrow> nat" where
  "Waiters n = length (nt_waiters n)"

section \<open>Sequences of calls\<close>

text \<open>A handle is known to its caller, so \<^verbatim>\<open>Close\<close> names one that was given out.\<close>

datatype nt_op = NtRegister "string list" "string list" | NtClose Handle | NtAdvance "string list" "string list"

fun nt_step :: "nt_op \<Rightarrow> Notifier \<Rightarrow> Notifier option" where
  "nt_step (NtRegister rooms users) n = Some (fst (Register n rooms users))"
| "nt_step (NtClose h) n = Some (Close n h)"
| "nt_step (NtAdvance rooms users) n = map_option fst (nt_OnStreamAdvance n rooms users)"

fun nt_run :: "nt_op list \<Rightarrow> Notifier \<Rightarrow> Notifier option" where
  "nt_run [] n = Some n"
| "nt_run (op # ops) n = (case nt_step op n of None \<Rightarrow> None | Some n1 \<Rightarrow> nt_run ops n1)"

text \<open>
  Whether a row concerns a waiter with these rooms and users: it names nobody, the waiter
  declared nothing, or they have a room or a user in common.
\<close>

definition concerns :: "string set \<Rightarrow> string set \<Rightarrow> string list \<Rightarrow> string list \<Rightarrow> bool" where
  "concerns rooms users roomIDs userIDs \<longleftrightarrow> (roomIDs = [] \<and> userIDs = []) \<or> (rooms = {} \<and> users = {}) \<or>
     set roomIDs \<inter> rooms \<noteq> {} \<or> set userIDs \<inter> users \<noteq> {}"

definition nt_inv :: "Notifier \<Rightarrow> bool" where
  "nt_inv n \<longleftrightarrow> mwf (nt_waiters n) \<and> distinct (map snd (nt_waiters n)) \<and>
     (\<forall>ptr \<in> snd ` set (nt_waiters n). ptr < length (nt_heap n)) \<and>
     (\<forall>w \<in> set (nt_heap n). wt_done w = wt_wake_closed w)"

definition registrations :: "nt_op list \<Rightarrow> nat" where
  "registrations ops = length (filter (\<lambda>op. case op of NtRegister _ _ \<Rightarrow> True | _ \<Rightarrow> False) ops)"

lemma concerns_interested:
  "(roomIDs = [] \<and> userIDs = []) \<or> interested w roomIDs userIDs \<longleftrightarrow> concerns (wt_rooms w) (wt_users w) roomIDs userIDs"
  by (auto simp: interested_def concerns_def list_ex_iff)

text \<open>One advance: every registered waiter the row concerns is closed, no other waiter changes.\<close>

definition wake_if :: "string list \<Rightarrow> string list \<Rightarrow> waiter \<Rightarrow> waiter" where
  "wake_if roomIDs userIDs w =
     (if wt_done w \<or> \<not> concerns (wt_rooms w) (wt_users w) roomIDs userIDs then w
      else w\<lparr>wt_done := True, wt_wake_closed := True\<rparr>)"

lemma wake_if_consistent: "wt_done w = wt_wake_closed w \<Longrightarrow> wt_done (wake_if rs us w) = wt_wake_closed (wake_if rs us w)"
  by (simp add: wake_if_def)

lemma wake_loop_spec:
  assumes "distinct ptrs" and "\<forall>ptr \<in> set ptrs. ptr < length heap" and "\<forall>w \<in> set heap. wt_done w = wt_wake_closed w"
  shows "\<exists>heap' k'. wake_loop roomIDs userIDs (roomIDs = [] \<and> userIDs = []) ptrs (heap, k) = Some (heap', k') \<and>
    length heap' = length heap \<and>
    (\<forall>i < length heap. heap' ! i = (if i \<in> set ptrs then wake_if roomIDs userIDs (heap ! i) else heap ! i))"
  using assms
proof (induction ptrs arbitrary: heap k)
  case (Cons ptr ptrs)
  let ?w = "heap ! ptr" and ?g = "roomIDs = [] \<and> userIDs = []"
  let ?heap = "heap[ptr := wake_if roomIDs userIDs ?w]"
  have lt: "ptr < length heap" and w: "wt_done ?w = wt_wake_closed ?w"
    using Cons.prems(2,3) by auto
  have step: "\<exists>k1. wake_loop roomIDs userIDs ?g (ptr # ptrs) (heap, k) = wake_loop roomIDs userIDs ?g ptrs (?heap, k1)"
  proof (cases "wt_done ?w \<or> \<not> concerns (wt_rooms ?w) (wt_users ?w) roomIDs userIDs")
    case True
    then have "wake_loop roomIDs userIDs ?g (ptr # ptrs) (heap, k) = wake_loop roomIDs userIDs ?g ptrs (heap, k)"
      using concerns_interested [of roomIDs userIDs ?w] by (auto simp: Let_def)
    moreover have "?heap = heap" using True by (simp add: wake_if_def)
    ultimately show ?thesis by auto
  next
    case False
    then have "?g \<or> interested ?w roomIDs userIDs" "\<not> wt_done ?w" using concerns_interested [of roomIDs userIDs ?w] by auto
    then show ?thesis using False w by (auto simp: Let_def wake_if_def)
  qed
  have "\<forall>w \<in> set ?heap. wt_done w = wt_wake_closed w"
    using Cons.prems(3) w by (auto simp: wake_if_def dest!: set_update_subset_insert [THEN subsetD])
  moreover have "distinct ptrs" "\<forall>ptr \<in> set ptrs. ptr < length ?heap" using Cons.prems(1,2) by simp_all
  ultimately have ih: "\<exists>heap' k'. wake_loop roomIDs userIDs ?g ptrs (?heap, k1) = Some (heap', k') \<and> length heap' = length ?heap \<and>
      (\<forall>i < length ?heap. heap' ! i = (if i \<in> set ptrs then wake_if roomIDs userIDs (?heap ! i) else ?heap ! i))" for k1
    by (intro Cons.IH)
  from step obtain k1 where k1: "wake_loop roomIDs userIDs ?g (ptr # ptrs) (heap, k) = wake_loop roomIDs userIDs ?g ptrs (?heap, k1)" by blast
  from ih [of k1] obtain heap' k' where "wake_loop roomIDs userIDs ?g (ptr # ptrs) (heap, k) = Some (heap', k')"
    "length heap' = length heap" "\<forall>i < length heap. heap' ! i = (if i \<in> set ptrs then wake_if roomIDs userIDs (?heap ! i) else ?heap ! i)"
    unfolding k1 by auto
  moreover from this(3) have "\<forall>i < length heap. heap' ! i = (if i \<in> set (ptr # ptrs) then wake_if roomIDs userIDs (heap ! i) else heap ! i)"
    using Cons.prems(1) lt by (auto simp: nth_list_update)
  ultimately show ?case by blast
qed simp

lemma advance_spec:
  assumes "nt_inv n"
  obtains n' k where "nt_OnStreamAdvance n roomIDs userIDs = Some (n', k)" and "nt_waiters n' = nt_waiters n"
    and "nt_nextID n' = nt_nextID n" and "length (nt_heap n') = length (nt_heap n)"
    and "\<forall>i < length (nt_heap n). nt_heap n' ! i = (if i \<in> snd ` set (nt_waiters n) then wake_if roomIDs userIDs (nt_heap n ! i) else nt_heap n ! i)"
    and "nt_inv n'"
proof -
  have d: "distinct (map snd (nt_waiters n))" and b: "\<forall>ptr \<in> set (map snd (nt_waiters n)). ptr < length (nt_heap n)"
    and w: "\<forall>w \<in> set (nt_heap n). wt_done w = wt_wake_closed w" using assms by (auto simp: nt_inv_def)
  from wake_loop_spec [OF d b w, of roomIDs userIDs 0] obtain heap' k' where loop:
    "wake_loop roomIDs userIDs (roomIDs = [] \<and> userIDs = []) (map snd (nt_waiters n)) (nt_heap n, 0) = Some (heap', k')"
    "length heap' = length (nt_heap n)"
    "\<forall>i < length (nt_heap n). heap' ! i = (if i \<in> snd ` set (nt_waiters n) then wake_if roomIDs userIDs (nt_heap n ! i) else nt_heap n ! i)"
    by auto
  have "wt_done (heap' ! i) = wt_wake_closed (heap' ! i)" if i: "i < length heap'" for i
  proof -
    have "wt_done (nt_heap n ! i) = wt_wake_closed (nt_heap n ! i)" using w i loop(2) by simp
    then show ?thesis using loop(2,3) i wake_if_consistent by simp
  qed
  then have "\<forall>w \<in> set heap'. wt_done w = wt_wake_closed w" by (auto simp: in_set_conv_nth)
  then have "nt_inv (n\<lparr>nt_heap := heap'\<rparr>)" using assms loop(2) by (simp add: nt_inv_def)
  with loop show ?thesis by (intro that [of "n\<lparr>nt_heap := heap'\<rparr>" k']) (simp_all add: nt_OnStreamAdvance_def)
qed

text \<open>Ids count registrations, so a new one is fresh until the counter wraps.\<close>

definition nt_ok :: "Notifier \<Rightarrow> nat \<Rightarrow> bool" where
  "nt_ok n k \<longleftrightarrow> nt_inv n \<and> unat (nt_nextID n) = k \<and> (\<forall>id \<in> fst ` set (nt_waiters n). unat id \<le> k)"

lemma mput_fresh: "k \<notin> fst ` set m \<Longrightarrow> mput k v m = m @ [(k, v)]"
  by (induction m) auto

lemma next_id: "unat (x :: 64 word) = k \<Longrightarrow> k < 2 ^ 64 - 1 \<Longrightarrow> unat (x + 1) = k + 1"
  by (subst unat_add_lem [THEN iffD1]) simp_all

lemma Register_ok:
  assumes ok: "nt_ok n k" and k: "k < 2 ^ 64 - 1" and reg: "Register n rooms users = (n', h)"
  shows "nt_ok n' (k + 1)" and "nt_waiters n' = nt_waiters n @ [(hd_id h, hd_w h)]" and "unat (hd_id h) = k + 1"
    and "hd_w h = length (nt_heap n)"
    and "nt_heap n' = nt_heap n @ [\<lparr>wt_rooms = set rooms, wt_users = set users, wt_wake_closed = False, wt_done = False\<rparr>]"
proof -
  have id: "unat (nt_nextID n + 1) = k + 1" using next_id ok k by (simp add: nt_ok_def)
  have fresh: "nt_nextID n + 1 \<notin> fst ` set (nt_waiters n)"
  proof
    assume "nt_nextID n + 1 \<in> fst ` set (nt_waiters n)"
    with ok have "unat (nt_nextID n + 1) \<le> k" unfolding nt_ok_def by blast
    with id show False by simp
  qed
  have n': "n' = n\<lparr>nt_nextID := nt_nextID n + 1, nt_waiters := nt_waiters n @ [(nt_nextID n + 1, length (nt_heap n))],
      nt_heap := nt_heap n @ [\<lparr>wt_rooms = set rooms, wt_users = set users, wt_wake_closed = False, wt_done = False\<rparr>]\<rparr>"
    and h: "h = \<lparr>hd_id = nt_nextID n + 1, hd_w = length (nt_heap n)\<rparr>"
    using reg mput_fresh [OF fresh] by (auto simp: Register_def Let_def toSet_def)
  show "nt_waiters n' = nt_waiters n @ [(hd_id h, hd_w h)]" "unat (hd_id h) = k + 1" "hd_w h = length (nt_heap n)"
    "nt_heap n' = nt_heap n @ [\<lparr>wt_rooms = set rooms, wt_users = set users, wt_wake_closed = False, wt_done = False\<rparr>]"
    using id by (simp_all add: n' h)
  have "length (nt_heap n) \<notin> snd ` set (nt_waiters n)" using ok by (auto simp: nt_ok_def nt_inv_def)
  then show "nt_ok n' (k + 1)" using ok id fresh by (auto simp: nt_ok_def nt_inv_def n' less_Suc_eq)
qed

lemma Close_ok: "nt_ok n k \<Longrightarrow> nt_ok (Close n h) k"
proof -
  have sub: "set (mdel i m) \<subseteq> set m" for i and m :: "(64 word, nat) gomap" by (induction m) auto
  have "distinct (map snd m) \<Longrightarrow> distinct (map snd (mdel i m))" for i and m :: "(64 word, nat) gomap"
  proof (induction m)
    case (Cons x m)
    then show ?case using sub [of i m] by auto
  qed simp
  then show "nt_ok n k \<Longrightarrow> nt_ok (Close n h) k"
    using sub [of "hd_id h" "nt_waiters n"] by (auto simp: nt_ok_def nt_inv_def Close_def)
qed

text \<open>What the caller of \<^verbatim>\<open>Register\<close> sees of the notifier until it closes its handle.\<close>

definition parked :: "Notifier \<Rightarrow> Handle \<Rightarrow> string set \<Rightarrow> string set \<Rightarrow> bool \<Rightarrow> bool" where
  "parked n h rooms users b \<longleftrightarrow> mget (nt_waiters n) (hd_id h) = Some (hd_w h) \<and> hd_w h < length (nt_heap n) \<and>
     wt_rooms (nt_heap n ! hd_w h) = rooms \<and> wt_users (nt_heap n ! hd_w h) = users \<and> woken n h = b"

fun row_concerns :: "string set \<Rightarrow> string set \<Rightarrow> nt_op \<Rightarrow> bool" where
  "row_concerns rooms users (NtAdvance rs us) = concerns rooms users rs us"
| "row_concerns rooms users _ = False"

lemma parked_step:
  assumes ok: "nt_ok n k" and p: "parked n h rooms users b" and k: "k < 2 ^ 64 - 1" and nc: "\<And>h'. op = NtClose h' \<Longrightarrow> hd_id h' \<noteq> hd_id h"
  obtains n' where "nt_step op n = Some n'" and "nt_ok n' (k + registrations [op])"
    and "parked n' h rooms users (b \<or> row_concerns rooms users op)"
proof (cases op)
  case (NtRegister rs us)
  obtain n' h' where reg: "Register n rs us = (n', h')" by (cases "Register n rs us")
  note r = Register_ok [OF ok k reg]
  have "mget (nt_waiters n) (hd_id h) = Some (hd_w h)" using p by (simp add: parked_def)
  then have "mget (nt_waiters n') (hd_id h) = Some (hd_w h)" by (simp add: r(2) map_add_Some_iff)
  then have "parked n' h rooms users b" using p by (simp add: parked_def r(5) woken_def nth_append)
  with r(1) NtRegister reg show ?thesis by (intro that [of n']) (simp_all add: registrations_def)
next
  case (NtClose h')
  with nc have "parked (Close n h') h rooms users b" using p by (simp add: parked_def Close_def woken_def)
  with NtClose Close_ok [OF ok] show ?thesis by (intro that [of "Close n h'"]) (simp_all add: registrations_def)
next
  case (NtAdvance rs us)
  from ok have "nt_inv n" by (simp add: nt_ok_def)
  from advance_spec [OF this, of rs us] obtain n' c where a: "nt_OnStreamAdvance n rs us = Some (n', c)"
    "nt_waiters n' = nt_waiters n" "nt_nextID n' = nt_nextID n" "length (nt_heap n') = length (nt_heap n)"
    "\<forall>i < length (nt_heap n). nt_heap n' ! i = (if i \<in> snd ` set (nt_waiters n) then wake_if rs us (nt_heap n ! i) else nt_heap n ! i)"
    "nt_inv n'" .
  have "hd_w h \<in> snd ` set (nt_waiters n)" using p by (force simp: parked_def dest: map_of_SomeD)
  then have w: "nt_heap n' ! hd_w h = wake_if rs us (nt_heap n ! hd_w h)" using a(5) p by (simp add: parked_def)
  have "wt_done (nt_heap n ! hd_w h) = wt_wake_closed (nt_heap n ! hd_w h)"
    using ok p by (simp add: nt_ok_def nt_inv_def parked_def)
  then have "parked n' h rooms users (b \<or> concerns rooms users rs us)"
    using p a(2,4) w by (auto simp: parked_def woken_def wake_if_def)
  moreover have "nt_ok n' k" using ok a by (simp add: nt_ok_def)
  ultimately show ?thesis using NtAdvance a(1) by (intro that [of n']) (simp_all add: registrations_def)
qed

lemma registrations_Cons: "registrations (op # ops) = registrations [op] + registrations ops"
  by (simp add: registrations_def)

lemma parked_run:
  assumes "nt_ok n k" and "parked n h rooms users b" and "k + registrations ops < 2 ^ 64 - 1"
    and "\<forall>h'. NtClose h' \<in> set ops \<longrightarrow> hd_id h' \<noteq> hd_id h"
  shows "\<exists>n'. nt_run ops n = Some n' \<and> parked n' h rooms users (b \<or> (\<exists>op \<in> set ops. row_concerns rooms users op))"
  using assms
proof (induction ops arbitrary: n k b)
  case (Cons op ops)
  have small: "k < 2 ^ 64 - 1" using Cons.prems(3) by simp
  have nc: "hd_id h' \<noteq> hd_id h" if "op = NtClose h'" for h' using Cons.prems(4) that by simp
  from parked_step [OF Cons.prems(1,2) small nc] obtain n1 where n1: "nt_step op n = Some n1"
    "nt_ok n1 (k + registrations [op])" "parked n1 h rooms users (b \<or> row_concerns rooms users op)" by blast
  have "k + registrations [op] + registrations ops < 2 ^ 64 - 1" using Cons.prems(3) by (simp add: registrations_Cons [of op ops])
  from Cons.IH [OF n1(2,3) this] Cons.prems(4) n1(1) show ?case by (auto simp: disj_assoc)
qed simp

lemma nt_run_ok:
  "nt_ok n k \<Longrightarrow> k + registrations ops < 2 ^ 64 - 1 \<Longrightarrow> \<exists>n'. nt_run ops n = Some n' \<and> nt_ok n' (k + registrations ops)"
proof (induction ops arbitrary: n k)
  case (Cons op ops)
  have "\<exists>n1. nt_step op n = Some n1 \<and> nt_ok n1 (k + registrations [op])"
  proof (cases op)
    case (NtRegister rs us)
    obtain n' h' where reg: "Register n rs us = (n', h')" by (cases "Register n rs us")
    have "k < 2 ^ 64 - 1" using Cons.prems(2) by simp
    from Register_ok(1) [OF Cons.prems(1) this reg] NtRegister reg show ?thesis by (simp add: registrations_def)
  next
    case (NtClose h)
    with Close_ok [OF Cons.prems(1)] show ?thesis by (simp add: registrations_def)
  next
    case (NtAdvance rs us)
    from Cons.prems(1) have "nt_inv n" by (simp add: nt_ok_def)
    from advance_spec [OF this, of rs us] obtain n' c where "nt_OnStreamAdvance n rs us = Some (n', c)"
      "nt_waiters n' = nt_waiters n" "nt_nextID n' = nt_nextID n" "nt_inv n'" .
    with NtAdvance Cons.prems(1) show ?thesis by (simp add: registrations_def nt_ok_def)
  qed
  then obtain n1 where n1: "nt_step op n = Some n1" "nt_ok n1 (k + registrations [op])" by blast
  have "k + registrations [op] + registrations ops < 2 ^ 64 - 1" using Cons.prems(2) by (simp add: registrations_Cons [of op ops])
  from Cons.IH [OF n1(2) this] n1(1) show ?case by (simp add: registrations_Cons [of op ops] add.assoc)
qed (simp add: registrations_def)

lemma nt_New_ok: "nt_ok nt_New 0"
  by (simp add: nt_ok_def nt_inv_def nt_New_def)

section \<open>Properties\<close>



text \<open>
  \<^verbatim>\<open>Register\<close> promises that an empty room set means any room, but that only holds when no user
  is given either: a caller registered with a user and no rooms is not woken by a row that names
  a room and not that user.
\<close>

theorem empty_room_set_is_not_any_room:
  assumes "users \<noteq> []" and "roomIDs \<noteq> []" and "set userIDs \<inter> set users = {}" and "nt_ok n k" and "k < 2 ^ 64 - 2"
  shows "let (n1, h) = Register n [] users in \<exists>n2. nt_run [NtAdvance roomIDs userIDs] n1 = Some n2 \<and> \<not> woken n2 h"
proof -
  obtain n1 h where reg: "Register n [] users = (n1, h)" by (cases "Register n [] users")
  have k: "k < 2 ^ 64 - 1" using assms(5) by simp
  note r = Register_ok [OF assms(4) k reg]
  have wf: "mwf (nt_waiters n1)" using r(1) by (simp add: nt_ok_def nt_inv_def)
  then have "mget (nt_waiters n1) (hd_id h) = Some (hd_w h)" by (rule map_of_is_SomeI) (simp add: r(2))
  then have p: "parked n1 h {} (set users) False" by (simp add: parked_def woken_def r(4,5))
  have "k + 1 + registrations [NtAdvance roomIDs userIDs] < 2 ^ 64 - 1" using assms(5) by (simp add: registrations_def)
  from parked_run [OF r(1) p this] obtain n2 where "nt_run [NtAdvance roomIDs userIDs] n1 = Some n2"
    "parked n2 h {} (set users) (concerns {} (set users) roomIDs userIDs)" by auto
  moreover have "\<not> concerns {} (set users) roomIDs userIDs" using assms(1-3) by (simp add: concerns_def)
  ultimately show ?thesis using reg by (auto simp: parked_def)
qed

theorem empty_room_set_is_not_any_room_witness:
  "let (n1, h) = Register nt_New [] [''@u''] in \<exists>n2. nt_run [NtAdvance [''!r''] []] n1 = Some n2 \<and> \<not> woken n2 h"
  by (rule empty_room_set_is_not_any_room [OF _ _ _ nt_New_ok]) simp_all

end
