(* ===== verification/State_Caches.thy ===== *)
theory State_Caches
  imports Lru Stream_Token "HOL-Library.Multiset"
begin

text \<open>
  The state caches of \<^verbatim>\<open>internal/store/state.go\<close> (and \<^verbatim>\<open>caches\<close>, \<^verbatim>\<open>newCaches\<close> of
  \<^verbatim>\<open>internal/store/store.go\<close>): event to state group, and the resolved state of a group restricted to
  some keys. What they hold is immutable, so a cached answer has to be the answer of the database,
  whatever was asked before; the one thing to get right is that two different questions never share
  a cache key. The queries are arguments: what a query hands the code is the rows it reads and the
  error it ends with, if any, since rows read before an error are cached already.
\<close>

section \<open>The model\<close>

record StateKey =
  sk_Type :: string
  sk_StateKey :: string

record StateEntry =
  se_EventID :: string
  se_Membership :: string
  se_HistoryVisibility :: string

type_synonym state = "(StateKey, StateEntry) gomap"

record caches =
  ca_eventStateGroup :: "(string, int) cache option"
  ca_filteredState :: "(string, state) cache option"

type_synonym ('e, 'r) rows = "'r list \<times> 'e option"

text \<open>Zero takes the default.\<close>

definition newCaches :: "int \<Rightarrow> int \<Rightarrow> caches" where
  "newCaches cfgGroups cfgFiltered =
     (let groups = (if cfgGroups = 0 then 50000 else cfgGroups);
          filtered = (if cfgFiltered = 0 then 20000 else cfgFiltered)
      in \<lparr>ca_eventStateGroup = Some (lru_New groups), ca_filteredState = Some (lru_New filtered)\<rparr>)"

definition PurgeCaches :: "caches \<Rightarrow> caches" where
  "PurgeCaches c = c\<lparr>ca_eventStateGroup := lru_Purge (ca_eventStateGroup c), ca_filteredState := lru_Purge (ca_filteredState c)\<rparr>"

definition CacheLen :: "caches \<Rightarrow> nat \<times> nat" where
  "CacheLen c = (lru_Len (ca_eventStateGroup c), lru_Len (ca_filteredState c))"

text \<open>The cache pass over the asked events: the groups known, and the events to query, in order.\<close>

fun known_groups :: "(string, int) cache option \<Rightarrow> string list \<Rightarrow> (string, int) gomap \<Rightarrow> string list \<Rightarrow>
    (string, int) cache option \<times> (string, int) gomap \<times> string list" where
  "known_groups c [] out missing = (c, out, missing)"
| "known_groups c (i # ids) out missing =
     (case lru_Get c i of
        (c1, Some g) \<Rightarrow> known_groups c1 ids (mput i g out) missing
      | (c1, None) \<Rightarrow> known_groups c1 ids out (missing @ [i]))"

definition StateGroupsForEvents ::
  "(string list \<Rightarrow> ('e, string \<times> int) rows) \<Rightarrow> caches \<Rightarrow> string list \<Rightarrow> caches \<times> ('e + (string, int) gomap)" where
  "StateGroupsForEvents query cs eventIDs =
     (case known_groups (ca_eventStateGroup cs) eventIDs [] [] of (c1, out, missing) \<Rightarrow>
        if missing = [] then (cs\<lparr>ca_eventStateGroup := c1\<rparr>, Inr out)
        else (case query missing of (rows, err) \<Rightarrow>
          (case fold (\<lambda>(i, g) (c, m). (lru_Add c i g, mput i g m)) rows (c1, out) of (c2, out2) \<Rightarrow>
             (cs\<lparr>ca_eventStateGroup := c2\<rparr>, case err of Some e \<Rightarrow> Inl e | None \<Rightarrow> Inr out2))))"

text \<open>\<^verbatim>\<open>fmt.Sprintf("%d\x01%s", group, strings.Join(parts, "\x02"))\<close> over the sorted parts.\<close>

definition key_part :: "StateKey \<Rightarrow> string" where
  "key_part k = sk_Type k @ CHR 0x00 # sk_StateKey k"

definition filteredStateKey :: "int \<Rightarrow> StateKey list \<Rightarrow> string" where
  "filteredStateKey sg keys = FormatInt sg @ CHR 0x01 # join_with (CHR 0x02) (sort (map key_part keys))"

definition FilteredStateForGroup ::
  "(int \<Rightarrow> StateKey list \<Rightarrow> ('e, StateKey \<times> StateEntry) rows) \<Rightarrow> caches \<Rightarrow> int \<Rightarrow> StateKey list \<Rightarrow> caches \<times> ('e + state)" where
  "FilteredStateForGroup query cs sg keys =
     (let cacheKey = filteredStateKey sg keys
      in case lru_Get (ca_filteredState cs) cacheKey of
           (c1, Some st) \<Rightarrow> (cs\<lparr>ca_filteredState := c1\<rparr>, Inr st)
         | (c1, None) \<Rightarrow>
             (case query sg keys of
                (rows, Some e) \<Rightarrow> (cs\<lparr>ca_filteredState := c1\<rparr>, Inl e)
              | (rows, None) \<Rightarrow>
                  let st = fold (\<lambda>(k, e). mput k e) rows []
                  in (cs\<lparr>ca_filteredState := lru_Add c1 cacheKey st\<rparr>, Inr st)))"

definition sortedCopy :: "string list \<Rightarrow> string list" where
  "sortedCopy xs = sort xs"

definition StateForGroupWithWildcards ::
  "(int \<Rightarrow> StateKey list \<Rightarrow> ('e, StateKey \<times> StateEntry) rows) \<Rightarrow>
   (int \<Rightarrow> StateKey list \<Rightarrow> string list \<Rightarrow> ('e, StateKey \<times> StateEntry) rows) \<Rightarrow>
   caches \<Rightarrow> int \<Rightarrow> StateKey list \<Rightarrow> string list \<Rightarrow> caches \<times> ('e + state)" where
  "StateForGroupWithWildcards query wquery cs sg keys wildcardTypes =
     (if wildcardTypes = [] then FilteredStateForGroup query cs sg keys
      else let cacheKey = filteredStateKey sg keys @ CHR 0x03 # join_with (CHR 0x02) (sortedCopy wildcardTypes)
        in case lru_Get (ca_filteredState cs) cacheKey of
             (c1, Some st) \<Rightarrow> (cs\<lparr>ca_filteredState := c1\<rparr>, Inr st)
           | (c1, None) \<Rightarrow>
               (case wquery sg keys wildcardTypes of
                  (rows, Some e) \<Rightarrow> (cs\<lparr>ca_filteredState := c1\<rparr>, Inl e)
                | (rows, None) \<Rightarrow>
                    let st = fold (\<lambda>(k, e). mput k e) rows []
                    in (cs\<lparr>ca_filteredState := lru_Add c1 cacheKey st\<rparr>, Inr st)))"

text \<open>The group in force at a position; \<open>Inr None\<close> when there is no such event, or no group for it.\<close>

definition stateGroupAt ::
  "(string \<Rightarrow> int \<Rightarrow> 'e + string option) \<Rightarrow> (string list \<Rightarrow> ('e, string \<times> int) rows) \<Rightarrow> caches \<Rightarrow> string \<Rightarrow> RoomKey \<Rightarrow>
   caches \<times> ('e + int option)" where
  "stateGroupAt lastq groupq cs roomID key =
     (case lastq roomID (RoomKey_MaxStreamPos key) of
        Inl e \<Rightarrow> (cs, Inl e)
      | Inr None \<Rightarrow> (cs, Inr None)
      | Inr (Some eventID) \<Rightarrow>
          (case StateGroupsForEvents groupq cs [eventID] of
             (cs1, Inl e) \<Rightarrow> (cs1, Inl e)
           | (cs1, Inr groups) \<Rightarrow> (cs1, Inr (mget groups eventID))))"

definition event_ids :: "state \<Rightarrow> (StateKey, string) gomap" where
  "event_ids entries = map (\<lambda>(k, e). (k, se_EventID e)) entries"

definition StateAtWithWildcards where
  "StateAtWithWildcards lastq groupq query wquery cs roomID key keys wildcardTypes =
     (case stateGroupAt lastq groupq cs roomID key of
        (cs1, Inl e) \<Rightarrow> (cs1, Inl e)
      | (cs1, Inr None) \<Rightarrow> (cs1, Inr [])
      | (cs1, Inr (Some sg)) \<Rightarrow>
          (case StateForGroupWithWildcards query wquery cs1 sg keys wildcardTypes of
             (cs2, Inl e) \<Rightarrow> (cs2, Inl e)
           | (cs2, Inr entries) \<Rightarrow> (cs2, Inr (event_ids entries))))"

definition FilteredStateAt where
  "FilteredStateAt lastq groupq query cs roomID key keys =
     (case stateGroupAt lastq groupq cs roomID key of
        (cs1, Inl e) \<Rightarrow> (cs1, Inl e)
      | (cs1, Inr None) \<Rightarrow> (cs1, Inr [])
      | (cs1, Inr (Some sg)) \<Rightarrow>
          (case FilteredStateForGroup query cs1 sg keys of
             (cs2, Inl e) \<Rightarrow> (cs2, Inl e)
           | (cs2, Inr entries) \<Rightarrow> (cs2, Inr (event_ids entries))))"

text \<open>The two resolvers that are not cached, given the query for a group.\<close>

definition LazyStateIDsAt where
  "LazyStateIDsAt lastq groupq lazyq cs roomID key members =
     (case stateGroupAt lastq groupq cs roomID key of
        (cs1, Inl e) \<Rightarrow> (cs1, Inl e)
      | (cs1, Inr None) \<Rightarrow> (cs1, Inr [])
      | (cs1, Inr (Some sg)) \<Rightarrow> (cs1, lazyq sg members))"

definition StateIDsAt where
  "StateIDsAt lastq groupq fullq cs roomID key =
     (case stateGroupAt lastq groupq cs roomID key of
        (cs1, Inl e) \<Rightarrow> (cs1, Inl e)
      | (cs1, Inr None) \<Rightarrow> (cs1, Inr [])
      | (cs1, Inr (Some sg)) \<Rightarrow> (cs1, fullq sg))"


section \<open>Cache keys\<close>

text \<open>The key of a request with wildcards, and without any.\<close>

definition request_key :: "int \<Rightarrow> StateKey list \<Rightarrow> string list \<Rightarrow> string" where
  "request_key sg keys types = filteredStateKey sg keys @
     (if types = [] then [] else CHR 0x03 # join_with (CHR 0x02) (sortedCopy types))"

text \<open>Types and state keys without the four control characters the cache keys are built with.\<close>

definition plain :: "string \<Rightarrow> bool" where
  "plain s \<longleftrightarrow> set s \<inter> {CHR 0x00, CHR 0x01, CHR 0x02, CHR 0x03} = {}"

definition plain_keys :: "StateKey list \<Rightarrow> bool" where
  "plain_keys keys \<longleftrightarrow> (\<forall>k \<in> set keys. plain (sk_Type k) \<and> plain (sk_StateKey k))"

lemma FormatInt_inj: "FormatInt a = FormatInt b \<Longrightarrow> a = b"
proof -
  have nat: "format_nat m = format_nat n \<Longrightarrow> m = n" for m n by (metis parse_format_nat option.inject)
  have hd: "CHR ''-'' # cs \<noteq> format_nat n" for cs n using format_nat_no_sign [of n] by metis
  assume eq: "FormatInt a = FormatInt b"
  consider "a < 0" "b < 0" | "a < 0" "\<not> b < 0" | "\<not> a < 0" "b < 0" | "\<not> a < 0" "\<not> b < 0" by blast
  then show "a = b"
  proof cases
    case 1
    with eq have "format_nat (nat (- a)) = format_nat (nat (- b))" by (simp add: FormatInt_def)
    from nat [OF this] 1 show ?thesis by simp
  next
    case 2
    with eq have "CHR ''-'' # format_nat (nat (- a)) = format_nat (nat b)" by (simp add: FormatInt_def)
    with hd show ?thesis by blast
  next
    case 3
    with eq have "CHR ''-'' # format_nat (nat (- b)) = format_nat (nat a)" by (simp add: FormatInt_def)
    with hd show ?thesis by blast
  next
    case 4
    with eq have "format_nat (nat a) = format_nat (nat b)" by (simp add: FormatInt_def)
    from nat [OF this] 4 show ?thesis by simp
  qed
qed

lemma join_inj:
  assumes "\<forall>f \<in> set fs. c \<notin> set f" "\<forall>f \<in> set gs. c \<notin> set f" "fs \<noteq> []" "gs \<noteq> []" "join_with c fs = join_with c gs"
  shows "fs = gs"
  using split_join [of fs c] split_join [of gs c] assms by metis

lemma cut_eq: "(c :: char) \<notin> set a \<Longrightarrow> c \<notin> set a' \<Longrightarrow> a @ c # b = a' @ c # b' \<Longrightarrow> a = a' \<and> b = b'"
  by (metis cut_on_append option.inject prod.inject)

lemma sort_inj: "sort xs = sort ys \<Longrightarrow> mset xs = mset ys"
  by (metis mset_sort)

lemma key_part_inj: "plain (sk_Type k) \<Longrightarrow> plain (sk_Type k') \<Longrightarrow> key_part k = key_part k' \<Longrightarrow> k = k'"
  using cut_eq [of "CHR 0x00" "sk_Type k" "sk_Type k'" "sk_StateKey k" "sk_StateKey k'"]
  by (auto simp: key_part_def plain_def)

lemma parts_inj:
  assumes "plain_keys ks" "plain_keys ks'"
    and "join_with (CHR 0x02) (sort (map key_part ks)) = join_with (CHR 0x02) (sort (map key_part ks'))"
  shows "mset ks = mset ks'"
proof -
  have no: "\<forall>f \<in> set (sort (map key_part l)). CHR 0x02 \<notin> set f" if "plain_keys l" for l
    using that by (auto simp: plain_keys_def key_part_def plain_def)
  have ne: "join_with (CHR 0x02) (sort (map key_part l)) = [] \<longleftrightarrow> l = []" for l
  proof (cases "sort (map key_part l)")
    case (Cons p ps)
    then have "p \<in> key_part ` set l" by (metis list.set_intros(1) set_map set_sort)
    then have "p \<noteq> []" by (auto simp: key_part_def)
    with Cons show ?thesis by (cases ps) auto
  qed (metis join_with.simps(1) length_0_conv length_map length_sort)
  show ?thesis
  proof (cases "ks = [] \<or> ks' = []")
    case True
    with ne [of ks] ne [of ks'] assms(3) show ?thesis by auto
  next
    case False
    then have "sort (map key_part ks) \<noteq> []" "sort (map key_part ks') \<noteq> []"
      by (metis length_0_conv length_map length_sort)+
    from sort_inj [OF join_inj [OF no [OF assms(1)] no [OF assms(2)] this assms(3)]]
    have "image_mset key_part (mset ks) = image_mset key_part (mset ks')" by simp
    moreover have "inj_on key_part (set ks \<union> set ks')"
      using assms(1,2) by (auto simp: inj_on_def plain_keys_def intro: key_part_inj)
    ultimately show ?thesis by (intro multiset.inj_map_strong [of "mset ks" "mset ks'" key_part]) (auto dest: inj_onD)
  qed
qed
lemma filteredStateKey_parts:
  assumes "plain_keys ks"
  shows "CHR 0x01 \<notin> set (FormatInt sg)" "CHR 0x03 \<notin> set (filteredStateKey sg ks)"
proof -
  have d: "c \<notin> set (FormatInt sg)" if "\<not> int_char c" for c using FormatInt_chars that by blast
  show "CHR 0x01 \<notin> set (FormatInt sg)" by (rule d) (simp add: int_char_def)
  have "CHR 0x03 \<notin> set (FormatInt sg)" by (rule d) (simp add: int_char_def)
  moreover have "CHR 0x03 \<notin> set (join_with (CHR 0x02) (sort (map key_part ks)))"
    using assms by (auto dest!: set_join_with simp: plain_keys_def plain_def key_part_def)
  ultimately show "CHR 0x03 \<notin> set (filteredStateKey sg ks)" by (simp add: filteredStateKey_def)
qed

lemma types_inj:
  assumes "\<forall>t \<in> set ts. plain t" "\<forall>t \<in> set ts'. plain t" "ts \<noteq> []" "ts' \<noteq> []"
    and "join_with (CHR 0x02) (sortedCopy ts) = join_with (CHR 0x02) (sortedCopy ts')"
  shows "mset ts = mset ts'"
proof -
  have "\<forall>f \<in> set (sort ts). CHR 0x02 \<notin> set f" "\<forall>f \<in> set (sort ts'). CHR 0x02 \<notin> set f"
    using assms(1,2) by (auto simp: plain_def)
  moreover have "sort ts \<noteq> []" "sort ts' \<noteq> []" using assms(3,4) by (metis length_0_conv length_sort)+
  ultimately show ?thesis using assms(5) join_inj sort_inj unfolding sortedCopy_def by metis
qed

lemma request_key_inj:
  assumes eq: "request_key sg ks ts = request_key sg' ks' ts'" and p: "plain_keys ks" "plain_keys ks'"
    and t: "\<forall>t \<in> set ts. plain t" "\<forall>t \<in> set ts'. plain t"
  shows "sg = sg' \<and> mset ks = mset ks' \<and> mset ts = mset ts'"
proof -
  let ?k = "filteredStateKey sg ks" and ?k' = "filteredStateKey sg' ks'"
  note no = filteredStateKey_parts(2) [OF p(1), of sg] filteredStateKey_parts(2) [OF p(2), of sg']
  have "?k = ?k' \<and> mset ts = mset ts'"
  proof (cases "ts = [] \<or> ts' = []")
    case True
    have mark: "ts = [] \<longleftrightarrow> CHR 0x03 \<notin> set (request_key sg ks ts)" "ts' = [] \<longleftrightarrow> CHR 0x03 \<notin> set (request_key sg' ks' ts')"
      using no by (simp_all add: request_key_def)
    have "ts = [] \<longleftrightarrow> ts' = []" unfolding mark eq by (rule refl)
    with True eq show ?thesis by (simp add: request_key_def)
  next
    case False
    with eq have "?k @ CHR 0x03 # join_with (CHR 0x02) (sortedCopy ts) = ?k' @ CHR 0x03 # join_with (CHR 0x02) (sortedCopy ts')"
      by (simp add: request_key_def)
    from cut_eq [OF no this] False types_inj [OF t] show ?thesis by simp
  qed
  then have kk: "?k = ?k'" and ts: "mset ts = mset ts'" by simp_all
  from cut_eq [OF filteredStateKey_parts(1) [OF p(1)] filteredStateKey_parts(1) [OF p(2)] kk [unfolded filteredStateKey_def]]
  have "FormatInt sg = FormatInt sg'" "mset ks = mset ks'" using parts_inj [OF p] by blast+
  with FormatInt_inj ts show ?thesis by blast
qed

section \<open>The caches against the database\<close>

text \<open>
  A database holds the group of every event that has one, and the state of every group. A query for
  a group's state returns one row per key asked for that the group has; one for events the groups of
  those that have one. Any query may fail, after any prefix of its rows.
\<close>

type_synonym groups_of = "string \<Rightarrow> int option"
type_synonym state_of = "int \<Rightarrow> StateKey \<Rightarrow> StateEntry option"

definition asked :: "state_of \<Rightarrow> int \<Rightarrow> StateKey list \<Rightarrow> string list \<Rightarrow> StateKey \<Rightarrow> StateEntry option" where
  "asked F sg keys types k = (if k \<in> set keys \<or> sk_Type k \<in> set types then F sg k else None)"

definition answers_groups :: "groups_of \<Rightarrow> (string list \<Rightarrow> ('e, string \<times> int) rows) \<Rightarrow> bool" where
  "answers_groups G query \<longleftrightarrow> (\<forall>ids. (\<forall>(i, g) \<in> set (fst (query ids)). i \<in> set ids \<and> G i = Some g) \<and>
     (snd (query ids) = None \<longrightarrow> (\<forall>i \<in> set ids. \<forall>g. G i = Some g \<longrightarrow> (i, g) \<in> set (fst (query ids)))))"

definition answers_state :: "state_of \<Rightarrow> (int \<Rightarrow> StateKey list \<Rightarrow> string list \<Rightarrow> ('e, StateKey \<times> StateEntry) rows) \<Rightarrow> bool" where
  "answers_state F query \<longleftrightarrow> (\<forall>sg keys types. snd (query sg keys types) = None \<longrightarrow>
     (\<forall>k e. (k, e) \<in> set (fst (query sg keys types)) \<longleftrightarrow> asked F sg keys types k = Some e))"

text \<open>One request to the caches, with the queries it would run, and runs of them.\<close>

datatype 'e request =
    AskGroups "string list \<Rightarrow> ('e, string \<times> int) rows" "string list"
  | AskState "int \<Rightarrow> StateKey list \<Rightarrow> string list \<Rightarrow> ('e, StateKey \<times> StateEntry) rows" int "StateKey list" "string list"
  | Purge

fun serve :: "'e request \<Rightarrow> caches \<Rightarrow> caches" where
  "serve (AskGroups query ids) c = fst (StateGroupsForEvents query c ids)"
| "serve (AskState query sg keys types) c = fst (StateForGroupWithWildcards (\<lambda>g k. query g k []) query c sg keys types)"
| "serve Purge c = PurgeCaches c"

fun proper :: "groups_of \<Rightarrow> state_of \<Rightarrow> 'e request \<Rightarrow> bool" where
  "proper G F (AskGroups query ids) = answers_groups G query"
| "proper G F (AskState query sg keys types) = (answers_state F query \<and> plain_keys keys \<and> (\<forall>t \<in> set types. plain t))"
| "proper G F Purge = True"

definition held_by :: "('k \<Rightarrow> 'v option) \<Rightarrow> ('k \<Rightarrow> 'v option) \<Rightarrow> bool" where
  "held_by L G \<longleftrightarrow> (\<forall>i g. L i = Some g \<longrightarrow> G i = Some g)"

lemma held_by_put: "held_by (mget m) G \<Longrightarrow> G i = Some g \<Longrightarrow> held_by (mget (mput i g m)) G"
  by (simp add: held_by_def)

lemma held_by_Get:
  assumes "lru_ok c" "held_by (lru_lookup c) G"
  shows "held_by (lru_lookup (fst (lru_Get c k))) G"
  unfolding held_by_def
proof (intro allI impI)
  fix i g assume "lru_lookup (fst (lru_Get c k)) i = Some g"
  from lookup_Get(2) [OF assms(1) this] assms(2) show "G i = Some g" by (simp add: held_by_def)
qed

lemma held_by_Add:
  assumes "lru_ok c" "held_by (lru_lookup c) G" "G k = Some v"
  shows "held_by (lru_lookup (lru_Add c k v)) G"
  unfolding held_by_def
proof (intro allI impI)
  fix i g assume "lru_lookup (lru_Add c k v) i = Some g"
  from lookup_Add(2) [OF assms(1) this] assms(2,3) show "G i = Some g" by (auto simp: held_by_def)
qed

lemma dom_mput: "dom (mget (mput i g m)) = insert i (dom (mget m))"
  by (auto simp: dom_def)

lemma known_groups_spec:
  assumes "lru_ok c" and "held_by (lru_lookup c) G" and "held_by (mget out) G"
    and "known_groups c ids out missing = (c', out', missing')"
  shows "lru_ok c' \<and> held_by (lru_lookup c') G \<and> held_by (mget out') G \<and>
    dom (mget out) \<subseteq> dom (mget out') \<and> dom (mget out') \<subseteq> dom (mget out) \<union> set ids \<and>
    set missing \<subseteq> set missing' \<and> set missing' \<subseteq> set missing \<union> set ids \<and> set ids \<subseteq> set missing' \<union> dom (mget out')"
  using assms
proof (induction c ids out missing rule: known_groups.induct)
  case (1 c out missing)
  then show ?case by simp
next
  case (2 c i ids out missing)
  obtain c1 r where gr: "lru_Get c i = (c1, r)" by fastforce
  have c1: "lru_ok c1" "held_by (lru_lookup c1) G"
    using lookup_Get(1) [OF "2.prems"(1), of i] held_by_Get [OF "2.prems"(1,2), of i] gr by auto
  show ?case
  proof (cases r)
    case None
    with gr "2.prems"(4) have "known_groups c1 ids out (missing @ [i]) = (c', out', missing')" by simp
    from "2.IH"(1) [OF gr [symmetric] None c1 "2.prems"(3) this] show ?thesis by auto
  next
    case (Some v)
    then have "G i = Some v" using gr "2.prems"(2) by (auto simp: lru_lookup_def held_by_def)
    note h = held_by_put [OF "2.prems"(3) this]
    from Some gr "2.prems"(4) have "known_groups c1 ids (mput i v out) missing = (c', out', missing')" by simp
    from "2.IH"(2) [OF gr [symmetric] Some c1 h this]
    have r: "lru_ok c' \<and> held_by (lru_lookup c') G \<and> held_by (mget out') G"
      "insert i (dom (mget out)) \<subseteq> dom (mget out')" "dom (mget out') \<subseteq> insert i (dom (mget out)) \<union> set ids"
      "set missing \<subseteq> set missing' \<and> set missing' \<subseteq> set missing \<union> set ids" "set ids \<subseteq> set missing' \<union> dom (mget out')"
      unfolding dom_mput by simp_all
    show ?thesis using r by auto
  qed
qed

lemma add_rows_spec:
  assumes "lru_ok c" and "held_by (lru_lookup c) G" and "held_by (mget out) G" and "\<forall>(i, g) \<in> set rows. G i = Some g"
    and "fold (\<lambda>(i, g) (c, m). (lru_Add c i g, mput i g m)) rows (c, out) = (c', out')"
  shows "lru_ok c' \<and> held_by (lru_lookup c') G \<and> held_by (mget out') G \<and> dom (mget out') = dom (mget out) \<union> fst ` set rows"
  using assms
proof (induction rows arbitrary: c out)
  case (Cons row rows)
  obtain i g where row: "row = (i, g)" by fastforce
  with Cons.prems(4) have "G i = Some g" by simp
  note h = held_by_Add [OF Cons.prems(1,2) this] held_by_put [OF Cons.prems(3) this]
  from Cons.IH [OF lookup_Add(1) [OF Cons.prems(1)] h] Cons.prems(4,5) row
  have "lru_ok c' \<and> held_by (lru_lookup c') G \<and> held_by (mget out') G \<and> dom (mget out') = dom (mget (mput i g out)) \<union> fst ` set rows"
    by simp
  then show ?case unfolding dom_mput using row by simp
qed simp

lemma groups_spec:
  assumes "lru_ok (ca_eventStateGroup cs)" and "held_by (lru_lookup (ca_eventStateGroup cs)) G" and "answers_groups G query"
    and "StateGroupsForEvents query cs ids = (cs', r)"
  shows "lru_ok (ca_eventStateGroup cs') \<and> held_by (lru_lookup (ca_eventStateGroup cs')) G \<and> ca_filteredState cs' = ca_filteredState cs \<and>
    (case r of Inr out \<Rightarrow> \<forall>i. mget out i = (if i \<in> set ids then G i else None) | Inl e \<Rightarrow> \<exists>missing. set missing \<subseteq> set ids \<and> snd (query missing) = Some e)"
proof -
  obtain c1 out missing where k: "known_groups (ca_eventStateGroup cs) ids [] [] = (c1, out, missing)" by (metis prod_cases3)
  have "held_by (mget []) G" by (simp add: held_by_def)
  from known_groups_spec [OF assms(1,2) this k]
  have k1: "lru_ok c1" "held_by (lru_lookup c1) G" "held_by (mget out) G" "dom (mget out) \<subseteq> set ids"
    "set missing \<subseteq> set ids" "set ids \<subseteq> set missing \<union> dom (mget out)" by simp_all
  show ?thesis
  proof (cases "missing = []")
    case True
    with assms(4) k have "cs' = cs\<lparr>ca_eventStateGroup := c1\<rparr>" "r = Inr out" by (simp_all add: StateGroupsForEvents_def)
    moreover have "mget out i = (if i \<in> set ids then G i else None)" for i
      using k1(3,4,6) True by (cases "mget out i") (auto simp: held_by_def)
    ultimately show ?thesis using k1 by simp
  next
    case False
    obtain rows err where q: "query missing = (rows, err)" by fastforce
    obtain c2 out2 where f: "fold (\<lambda>(i, g) (c, m). (lru_Add c i g, mput i g m)) rows (c1, out) = (c2, out2)" by fastforce
    have ans: "\<forall>(i, g) \<in> set rows. i \<in> set missing \<and> G i = Some g" "err = None \<Longrightarrow> \<forall>i \<in> set missing. \<forall>g. G i = Some g \<longrightarrow> (i, g) \<in> set rows"
      using assms(3) [unfolded answers_groups_def, THEN spec, of missing] q by simp_all
    then have "\<forall>(i, g) \<in> set rows. G i = Some g" by auto
    note a = add_rows_spec [OF k1(1-3) this f]
    have cs': "cs' = cs\<lparr>ca_eventStateGroup := c2\<rparr>" "r = (case err of Some e \<Rightarrow> Inl e | None \<Rightarrow> Inr out2)"
      using assms(4) k False q f by (simp_all add: StateGroupsForEvents_def)
    show ?thesis
    proof (cases err)
      case None
      have "mget out2 i = (if i \<in> set ids then G i else None)" for i
      proof (cases "i \<in> dom (mget out2)")
        case True
        then have "i \<in> dom (mget out) \<union> fst ` set rows" using a by blast
        then have "i \<in> set ids" using k1(4,5) ans(1) by auto
        moreover obtain g where g: "mget out2 i = Some g" using True by (auto simp del: not_None_eq)
        moreover have "G i = Some g" using a g unfolding held_by_def by blast
        ultimately show ?thesis by simp
      next
        case absent: False
        have "G i = None" if i: "i \<in> set ids"
        proof (rule ccontr)
          assume "G i \<noteq> None"
          then obtain g where g: "G i = Some g" by blast
          have "i \<notin> dom (mget out)" "i \<notin> fst ` set rows" using a absent by blast+
          then have "i \<in> set missing" using k1(6) i by blast
          with ans(2) [OF None] g have "(i, g) \<in> set rows" by blast
          with \<open>i \<notin> fst ` set rows\<close> show False by force
        qed
        with absent show ?thesis by (simp add: domIff)
      qed
      with None a cs' show ?thesis by simp
    next
      case (Some e)
      with a cs' k1(5) q show ?thesis by (auto intro!: exI [of _ missing])
    qed
  qed
qed

lemma fold_put_rows: "mget (fold (\<lambda>(k, e). mput k e) rows m) k = (case map_of (rev rows) k of None \<Rightarrow> mget m k | Some e \<Rightarrow> Some e)"
  by (induction rows arbitrary: m) (auto simp: map_add_def split: option.splits)

lemma rows_as_asked:
  assumes "answers_state F query" and "query sg keys types = (rows, None)"
  shows "mget (fold (\<lambda>(k, e). mput k e) rows []) = asked F sg keys types"
proof
  fix k
  have r: "\<forall>k e. (k, e) \<in> set rows \<longleftrightarrow> asked F sg keys types k = Some e"
    using assms(1) [unfolded answers_state_def, THEN spec, THEN spec, THEN spec, of sg keys types] assms(2) by simp
  show "mget (fold (\<lambda>(k, e). mput k e) rows []) k = asked F sg keys types k"
  proof (cases "map_of (rev rows) k")
    case None
    then have "k \<notin> fst ` set rows" by (simp add: map_of_eq_None_iff)
    then have "asked F sg keys types k = None" using r by (cases "asked F sg keys types k") force+
    with None show ?thesis by (simp add: fold_put_rows)
  next
    case (Some e)
    then have "(k, e) \<in> set rows" using map_of_SomeD by force
    with r Some show ?thesis by (simp add: fold_put_rows)
  qed
qed

lemma asked_cong: "mset keys = mset keys' \<Longrightarrow> mset types = mset types' \<Longrightarrow> asked F sg keys types = asked F sg keys' types'"
  using mset_eq_setD [of keys keys'] mset_eq_setD [of types types'] by (auto simp: asked_def)

definition filtered_sound :: "state_of \<Rightarrow> (string, state) cache option \<Rightarrow> bool" where
  "filtered_sound F c \<longleftrightarrow> lru_ok c \<and> (\<forall>sg keys types st. plain_keys keys \<longrightarrow> (\<forall>t \<in> set types. plain t) \<longrightarrow>
     lru_lookup c (request_key sg keys types) = Some st \<longrightarrow> mget st = asked F sg keys types)"

lemma filtered_sound_Get: "filtered_sound F c \<Longrightarrow> filtered_sound F (fst (lru_Get c k))"
  unfolding filtered_sound_def
proof (elim conjE, intro conjI allI impI)
  fix sg keys types st
  assume c: "lru_ok c" "\<forall>sg keys types st. plain_keys keys \<longrightarrow> (\<forall>t \<in> set types. plain t) \<longrightarrow>
      lru_lookup c (request_key sg keys types) = Some st \<longrightarrow> mget st = asked F sg keys types"
    and p: "plain_keys keys" "\<forall>t \<in> set types. plain t" and l: "lru_lookup (fst (lru_Get c k)) (request_key sg keys types) = Some st"
  from c(2) [THEN spec, THEN spec, THEN spec, THEN spec, THEN mp, OF p(1), THEN mp, OF p(2), THEN mp, OF lookup_Get(2) [OF c(1) l]]
  show "mget st = asked F sg keys types" .
qed (rule lookup_Get(1))

lemma filtered_sound_Add:
  assumes "filtered_sound F c" and "plain_keys keys" "\<forall>t \<in> set types. plain t" and "mget st = asked F sg keys types"
  shows "filtered_sound F (lru_Add c (request_key sg keys types) st)"
  unfolding filtered_sound_def
proof (intro conjI allI impI)
  have "lru_ok c" using assms(1) by (simp add: filtered_sound_def)
  then show "lru_ok (lru_Add c (request_key sg keys types) st)" by (rule lookup_Add(1))
next
  fix sg' keys' types' st'
  assume p: "plain_keys keys'" "\<forall>t \<in> set types'. plain t"
    and l: "lru_lookup (lru_Add c (request_key sg keys types) st) (request_key sg' keys' types') = Some st'"
  have ok: "lru_ok c" using assms(1) by (simp add: filtered_sound_def)
  from lookup_Add(2) [OF ok l] consider (new) "request_key sg' keys' types' = request_key sg keys types" "st' = st"
    | (old) "lru_lookup c (request_key sg' keys' types') = Some st'" by blast
  then show "mget st' = asked F sg' keys' types'"
  proof cases
    case new
    from request_key_inj [OF new(1) p(1) assms(2) p(2) assms(3)] asked_cong [of keys' keys types' types F sg] new(2) assms(4)
    show ?thesis by simp
  next
    case old
    with assms(1) p show ?thesis unfolding filtered_sound_def by blast
  qed
qed

text \<open>The two lookups are one, under \<open>request_key\<close>.\<close>

lemma wildcards_as_request:
  "StateForGroupWithWildcards (\<lambda>g k. query g k []) query cs sg keys types =
     (case lru_Get (ca_filteredState cs) (request_key sg keys types) of
        (c1, Some st) \<Rightarrow> (cs\<lparr>ca_filteredState := c1\<rparr>, Inr st)
      | (c1, None) \<Rightarrow>
          (case query sg keys types of
             (rows, Some e) \<Rightarrow> (cs\<lparr>ca_filteredState := c1\<rparr>, Inl e)
           | (rows, None) \<Rightarrow>
               let st = fold (\<lambda>(k, e). mput k e) rows []
               in (cs\<lparr>ca_filteredState := lru_Add c1 (request_key sg keys types) st\<rparr>, Inr st)))"
  by (cases "types = []")
    (simp_all add: StateForGroupWithWildcards_def FilteredStateForGroup_def request_key_def Let_def split: prod.split option.split)

lemma state_spec:
  assumes "filtered_sound F (ca_filteredState cs)" and "answers_state F query" and "plain_keys keys" "\<forall>t \<in> set types. plain t"
    and "StateForGroupWithWildcards (\<lambda>g k. query g k []) query cs sg keys types = (cs', r)"
  shows "filtered_sound F (ca_filteredState cs') \<and> ca_eventStateGroup cs' = ca_eventStateGroup cs \<and>
    (case r of Inr st \<Rightarrow> mget st = asked F sg keys types | Inl e \<Rightarrow> snd (query sg keys types) = Some e)"
proof -
  let ?k = "request_key sg keys types"
  obtain c1 got where g: "lru_Get (ca_filteredState cs) ?k = (c1, got)" by fastforce
  have c1: "filtered_sound F c1" using filtered_sound_Get [OF assms(1), of ?k] g by simp
  show ?thesis
  proof (cases got)
    case (Some st)
    then have "lru_lookup (ca_filteredState cs) ?k = Some st" using g by (simp add: lru_lookup_def)
    with assms(1,3,4) have "mget st = asked F sg keys types" unfolding filtered_sound_def by blast
    with Some c1 g assms(5) show ?thesis by (auto simp: wildcards_as_request)
  next
    case None
    obtain rows err where q: "query sg keys types = (rows, err)" by fastforce
    show ?thesis
    proof (cases err)
      case (Some e)
      with None c1 g q assms(5) show ?thesis by (auto simp: wildcards_as_request)
    next
      case nil: None
      note rows = rows_as_asked [OF assms(2) q [unfolded nil]]
      from filtered_sound_Add [OF c1 assms(3,4) rows] None nil g q rows assms(5) show ?thesis
        by (auto simp: wildcards_as_request Let_def)
    qed
  qed
qed

definition caches_sound :: "groups_of \<Rightarrow> state_of \<Rightarrow> caches \<Rightarrow> bool" where
  "caches_sound G F c \<longleftrightarrow> lru_ok (ca_eventStateGroup c) \<and> held_by (lru_lookup (ca_eventStateGroup c)) G \<and> filtered_sound F (ca_filteredState c)"

lemma serve_sound: "caches_sound G F c \<Longrightarrow> proper G F req \<Longrightarrow> caches_sound G F (serve req c)"
proof (cases req)
  case (AskGroups query ids)
  assume "caches_sound G F c" "proper G F req"
  with AskGroups groups_spec [of c G query ids "fst (StateGroupsForEvents query c ids)" "snd (StateGroupsForEvents query c ids)"]
  show ?thesis by (simp add: caches_sound_def)
next
  case (AskState query sg keys types)
  let ?r = "StateForGroupWithWildcards (\<lambda>g k. query g k []) query c sg keys types"
  assume "caches_sound G F c" "proper G F req"
  with AskState state_spec [of F c query keys types sg "fst ?r" "snd ?r"] show ?thesis by (simp add: caches_sound_def)
next
  case Purge
  assume "caches_sound G F c"
  then have "lru_ok (ca_eventStateGroup c)" "lru_ok (ca_filteredState c)" by (simp_all add: caches_sound_def filtered_sound_def)
  from lookup_Purge [OF this(1)] lookup_Purge [OF this(2)] Purge show ?thesis
    by (simp add: caches_sound_def filtered_sound_def PurgeCaches_def held_by_def)
qed

lemma new_cache: "lru_ok (Some (lru_New n))" "lru_lookup (Some (lru_New n)) k = None"
  by (simp add: lru_ok_def, simp add: lru_lookup_def lru_Get_def lru_New_def)

lemma new_caches_sound: "caches_sound G F (newCaches a b)"
  by (simp add: caches_sound_def filtered_sound_def held_by_def newCaches_def Let_def new_cache)

lemma served_sound: "\<forall>req \<in> set reqs. proper G F req \<Longrightarrow> caches_sound G F c \<Longrightarrow> caches_sound G F (fold serve reqs c)"
  by (induction reqs arbitrary: c) (auto intro: serve_sound)

text \<open>What was answered is held, in an armed cache of positive size.\<close>

lemma filtered_hit:
  "lru_lookup (ca_filteredState cs) (filteredStateKey sg keys) = Some st \<Longrightarrow> snd (FilteredStateForGroup query cs sg keys) = Inr st"
  by (auto simp: FilteredStateForGroup_def lru_lookup_def Let_def split: prod.split)

lemma filtered_miss:
  "lru_lookup (ca_filteredState cs) (filteredStateKey sg keys) = None \<Longrightarrow> query sg keys = (rows, None) \<Longrightarrow>
    snd (FilteredStateForGroup query cs sg keys) = Inr (fold (\<lambda>(k, e). mput k e) rows [])"
  by (auto simp: FilteredStateForGroup_def lru_lookup_def Let_def split: prod.split)

lemma answer_is_cached:
  assumes "0 < lru_max c" and "lru_inv c" and "\<not> lru_disarmed c" and "ca_filteredState cs = Some c"
    and "FilteredStateForGroup query cs sg keys = (cs', Inr st)"
  shows "lru_lookup (ca_filteredState cs') (filteredStateKey sg keys) = Some st"
proof -
  let ?k = "filteredStateKey sg keys"
  obtain c1 where c1: "lru_Get (Some c) ?k = (Some c1, mget (lru_abs c) ?k)" "lru_inv c1" "lru_abs c1 = spec_touch ?k (lru_abs c)"
    "lru_max c1 = lru_max c" "\<not> lru_disarmed c1" by (rule lru_Get_refines [OF assms(2,1,3)])
  show ?thesis
  proof (cases "mget (lru_abs c) ?k")
    case (Some v)
    with c1 assms(4,5) have "ca_filteredState cs' = Some c1" "st = v" by (auto simp: FilteredStateForGroup_def Let_def)
    with Some c1 assms(1) show ?thesis by (simp add: lru_lookup_view lru_view_def)
  next
    case None
    obtain c2 where c2: "lru_Add (Some c1) ?k st = Some c2" "lru_inv c2" "lru_abs c2 = spec_add (nat (lru_max c1)) ?k st (lru_abs c1)"
      "lru_max c2 = lru_max c1" "\<not> lru_disarmed c2" by (rule lru_Add_refines [of c1 ?k st]) (use c1 assms(1) in auto)
    have "ca_filteredState cs' = Some c2"
      using None c1(1) c2(1) assms(4,5) by (auto simp: FilteredStateForGroup_def Let_def split: prod.splits option.splits)
    moreover have "mget (lru_abs c2) ?k = Some st"
      using c2(3) c1(4) assms(1) by (cases "nat (lru_max c)") (auto simp: spec_add_def)
    ultimately show ?thesis using c1(4) c2 assms(1) by (simp add: lru_lookup_view lru_view_def)
  qed
qed

section \<open>Properties\<close>


definition wit_state :: state_of where
  "wit_state sg k = (if sg = 4 \<and> k = \<lparr>sk_Type = ''t'', sk_StateKey = ''a''\<rparr> then Some \<lparr>se_EventID = ''$e'', se_Membership = [], se_HistoryVisibility = []\<rparr> else None)"

definition wit_rows :: "int \<Rightarrow> StateKey list \<Rightarrow> string list \<Rightarrow> (string, StateKey \<times> StateEntry) rows" where
  "wit_rows sg keys types = (let k = \<lparr>sk_Type = ''t'', sk_StateKey = ''a''\<rparr> in
     (case asked wit_state sg keys types k of Some e \<Rightarrow> [(k, e)] | None \<Rightarrow> [], None))"

lemma wit_answers: "answers_state wit_state wit_rows"
  by (auto simp: answers_state_def wit_rows_def Let_def asked_def wit_state_def)


text \<open>
  Two requests can share a cache key. When the type of one of the keys contains the separator
  of the parts, a request for other keys of the same group is answered with the state cached for the
  first one and no query is run, so the entries it asked for are missing from the answer.
\<close>

theorem cache_key_collision:
  assumes "0 < lru_max c" and "lru_inv c" and "\<not> lru_disarmed c" and "ca_filteredState cs = Some c"
    and "FilteredStateForGroup query cs sg [\<lparr>sk_Type = ''a'', sk_StateKey = ''x'' @ CHR 0x02 # ''y''\<rparr>, \<lparr>sk_Type = ''z'', sk_StateKey = ''d''\<rparr>] = (cs', Inr st)"
  shows "snd (FilteredStateForGroup query2 cs' sg [\<lparr>sk_Type = ''a'', sk_StateKey = ''x''\<rparr>, \<lparr>sk_Type = ''y'' @ CHR 0x02 # ''z'', sk_StateKey = ''d''\<rparr>]) = Inr st"
proof -
  let ?first = "[\<lparr>sk_Type = ''a'', sk_StateKey = ''x'' @ CHR 0x02 # ''y''\<rparr>, \<lparr>sk_Type = ''z'', sk_StateKey = ''d''\<rparr>]"
  have same: "filteredStateKey sg [\<lparr>sk_Type = ''a'', sk_StateKey = ''x''\<rparr>, \<lparr>sk_Type = ''y'' @ CHR 0x02 # ''z'', sk_StateKey = ''d''\<rparr>] = filteredStateKey sg ?first"
    by (simp add: filteredStateKey_def key_part_def)
  show ?thesis by (rule filtered_hit) (simp only: same answer_is_cached [OF assms])
qed

theorem cache_key_collision_witness:
  "snd (FilteredStateForGroup (\<lambda>g k. ([], Some ''unreachable''))
      (fst (FilteredStateForGroup (\<lambda>g k. ([], None) :: (string, StateKey \<times> StateEntry) rows) (newCaches 0 0) 4
         [\<lparr>sk_Type = ''a'', sk_StateKey = ''x'' @ CHR 0x02 # ''y''\<rparr>, \<lparr>sk_Type = ''z'', sk_StateKey = ''d''\<rparr>]))
      4 [\<lparr>sk_Type = ''a'', sk_StateKey = ''x''\<rparr>, \<lparr>sk_Type = ''y'' @ CHR 0x02 # ''z'', sk_StateKey = ''d''\<rparr>]) = Inr []"
proof (rule cache_key_collision [where c = "lru_New 20000"])
  let ?keys = "[\<lparr>sk_Type = ''a'', sk_StateKey = ''x'' @ CHR 0x02 # ''y''\<rparr>, \<lparr>sk_Type = ''z'', sk_StateKey = ''d''\<rparr>]"
  let ?r = "FilteredStateForGroup (\<lambda>g k. ([], None) :: (string, StateKey \<times> StateEntry) rows) (newCaches 0 0) 4 ?keys"
  have "ca_filteredState (newCaches 0 0) = Some (lru_New 20000)" by (simp add: newCaches_def)
  then have "snd ?r = Inr (fold (\<lambda>(k, e). mput k e) [] [])" by (intro filtered_miss) (simp_all only: new_cache)
  then show "?r = (fst ?r, Inr [])" by (simp add: prod_eq_iff)
  show "ca_filteredState (newCaches 0 0) = Some (lru_New 20000)" by (simp add: newCaches_def)
  show "lru_inv (lru_New 20000)" by (rule lru_inv_New)
  show "0 < lru_max (lru_New 20000)" "\<not> lru_disarmed (lru_New 20000)" by (simp_all add: lru_New_def)
qed

end
