(* ===== verification/Stream_Gates.thy ===== *)
theory Stream_Gates
  imports Stream_Cache
begin

text \<open>
  The six stream-change caches of the store (\<^verbatim>\<open>internal/store/streamgates.go\<close>) and the listener
  that feeds them from replication (\<^verbatim>\<open>cmd/gosync-worker/streamfeed.go\<close>).

  \<^verbatim>\<open>byName\<close> returns a pointer to one of the caches; here it returns which one, and the callers
  update that field. A query of the database is a function from the table and the limit to the
  rows, or nothing when it fails. \<open>None\<close> in place of the record is the nil pointer of a store
  without stream caches.
\<close>

section \<open>The model\<close>

record streamCaches =
  sg_events :: "scache option"
  sg_membership :: "scache option"
  sg_receipts :: "scache option"
  sg_accountData :: "scache option"
  sg_toDevice :: "scache option"
  sg_presence :: "scache option"

record StreamCacheSizes =
  sz_Events :: int
  sz_Membership :: int
  sz_Receipts :: int
  sz_AccountData :: int
  sz_ToDevice :: int
  sz_Presence :: int

datatype sfield = FEvents | FMembership | FReceipts | FAccountData | FToDevice | FPresence

fun sg_get :: "sfield \<Rightarrow> streamCaches \<Rightarrow> scache option" where
  "sg_get FEvents c = sg_events c"
| "sg_get FMembership c = sg_membership c"
| "sg_get FReceipts c = sg_receipts c"
| "sg_get FAccountData c = sg_accountData c"
| "sg_get FToDevice c = sg_toDevice c"
| "sg_get FPresence c = sg_presence c"

fun sg_upd :: "sfield \<Rightarrow> (scache option \<Rightarrow> scache option) \<Rightarrow> streamCaches \<Rightarrow> streamCaches" where
  "sg_upd FEvents f c = c\<lparr>sg_events := f (sg_events c)\<rparr>"
| "sg_upd FMembership f c = c\<lparr>sg_membership := f (sg_membership c)\<rparr>"
| "sg_upd FReceipts f c = c\<lparr>sg_receipts := f (sg_receipts c)\<rparr>"
| "sg_upd FAccountData f c = c\<lparr>sg_accountData := f (sg_accountData c)\<rparr>"
| "sg_upd FToDevice f c = c\<lparr>sg_toDevice := f (sg_toDevice c)\<rparr>"
| "sg_upd FPresence f c = c\<lparr>sg_presence := f (sg_presence c)\<rparr>"

definition defaultStreamCacheEntries :: int where "defaultStreamCacheEntries = 10000"

definition sizeOr :: "int \<Rightarrow> int" where
  "sizeOr n = (if n = 0 then defaultStreamCacheEntries else n)"

definition newStreamCaches :: "StreamCacheSizes \<Rightarrow> streamCaches" where
  "newStreamCaches sizes = \<lparr>
     sg_events = Some (sc_New ''events'' 0 (sizeOr (sz_Events sizes))),
     sg_membership = Some (sc_New ''membership'' 0 (sizeOr (sz_Membership sizes))),
     sg_receipts = Some (sc_New ''receipts'' 0 (sizeOr (sz_Receipts sizes))),
     sg_accountData = Some (sc_New ''account_data'' 0 (sizeOr (sz_AccountData sizes))),
     sg_toDevice = Some (sc_New ''to_device'' 0 (sizeOr (sz_ToDevice sizes))),
     sg_presence = Some (sc_New ''presence'' 0 (sizeOr (sz_Presence sizes)))\<rparr>"

definition byName :: "streamCaches option \<Rightarrow> string \<Rightarrow> (sfield \<times> bool) option" where
  "byName p stream = (case p of
     None \<Rightarrow> None
   | Some c \<Rightarrow>
       if stream = ''events'' then Some (FEvents, True)
       else if stream = ''receipts'' then Some (FReceipts, True)
       else if stream = ''account_data'' then Some (FAccountData, False)
       else if stream = ''to_device'' then Some (FToDevice, False)
       else if stream = ''presence'' then Some (FPresence, False)
       else None)"

definition sg_all :: "streamCaches option \<Rightarrow> (string \<times> sfield) list" where
  "sg_all p = (case p of
     None \<Rightarrow> []
   | Some c \<Rightarrow> [(''events'', FEvents), (''membership'', FMembership), (''receipts'', FReceipts),
       (''account_data'', FAccountData), (''to_device'', FToDevice), (''presence'', FPresence)])"

definition StreamCacheChanged :: "streamCaches option \<Rightarrow> string \<Rightarrow> string \<Rightarrow> int \<Rightarrow> streamCaches option" where
  "StreamCacheChanged p stream entity pos = (case byName p stream of
     None \<Rightarrow> p
   | Some (f, _) \<Rightarrow> map_option (sg_upd f (\<lambda>c. sc_EntityHasChanged c entity pos)) p)"

definition StreamCacheIsRoomKeyed :: "streamCaches option \<Rightarrow> string \<Rightarrow> bool \<times> bool" where
  "StreamCacheIsRoomKeyed p stream = (case byName p stream of
     None \<Rightarrow> (False, False)
   | Some (_, byRoom) \<Rightarrow> (byRoom, True))"

definition MembershipChanged :: "streamCaches option \<Rightarrow> string \<Rightarrow> int \<Rightarrow> streamCaches option" where
  "MembershipChanged p userID pos = map_option (sg_upd FMembership (\<lambda>c. sc_EntityHasChanged c userID pos)) p"

definition StreamCacheReset :: "streamCaches option \<Rightarrow> string \<Rightarrow> int \<Rightarrow> streamCaches option" where
  "StreamCacheReset p stream pos =
     (let p1 = (case byName p stream of
                  None \<Rightarrow> p
                | Some (f, _) \<Rightarrow> map_option (sg_upd f (\<lambda>c. sc_AllEntitiesChanged c pos)) p)
      in if stream = ''events'' then map_option (sg_upd FMembership (\<lambda>c. sc_AllEntitiesChanged c pos)) p1
         else p1)"

text \<open>
  \<^verbatim>\<open>PrefillStreamCaches\<close>: the specification table, the loop that stops at the first query that
  fails, and the two caches that are armed empty. The second component says whether it
  returned an error; what the loop did before failing stays done.
\<close>

definition prefill_specs :: "(sfield \<times> string \<times> string \<times> nat) list" where
  "prefill_specs =
     [(FEvents, ''events'', ''events'', 100000),
      (FReceipts, ''receipts'', ''receipts_linearized'', 10000),
      (FPresence, ''presence'', ''presence_stream'', 100000),
      (FToDevice, ''to_device'', ''device_inbox'', 1000)]"

definition seed_field :: "sfield \<Rightarrow> (string, int) gomap \<Rightarrow> int \<Rightarrow> streamCaches \<Rightarrow> streamCaches" where
  "seed_field f entries minPos = sg_upd f (\<lambda>c. sc_Prefill (sc_Arm c minPos) entries minPos)"

fun prefill_loop ::
  "(string \<Rightarrow> nat \<Rightarrow> (string \<times> int) list option) \<Rightarrow> (string, int) gomap \<Rightarrow>
   (sfield \<times> string \<times> string \<times> nat) list \<Rightarrow> streamCaches \<Rightarrow> streamCaches \<times> bool" where
  "prefill_loop db positions [] c = (c, False)"
| "prefill_loop db positions ((f, stream, table, limit) # specs) c =
     (case db table limit of
        None \<Rightarrow> (c, True)
      | Some rows \<Rightarrow>
          (case CacheDict rows (mgetz 0 positions stream) of (entries, minPos) \<Rightarrow>
             prefill_loop db positions specs (seed_field f entries minPos c)))"

definition PrefillStreamCaches ::
  "(string \<Rightarrow> nat \<Rightarrow> (string \<times> int) list option) \<Rightarrow> streamCaches option \<Rightarrow> (string, int) gomap \<Rightarrow>
   streamCaches option \<times> bool" where
  "PrefillStreamCaches db p positions = (case p of
     None \<Rightarrow> (None, False)
   | Some c \<Rightarrow>
       (case prefill_loop db positions prefill_specs c of
          (c1, True) \<Rightarrow> (Some c1, True)
        | (c1, False) \<Rightarrow>
            (Some (sg_upd FMembership (\<lambda>c. sc_Arm c (mgetz 0 positions ''events''))
                    (sg_upd FAccountData (\<lambda>c. sc_Arm c (mgetz 0 positions ''account_data'')) c1)), False)))"

definition DisarmStreamCaches :: "streamCaches option \<Rightarrow> streamCaches option" where
  "DisarmStreamCaches p = map_option (fold (\<lambda>(_, f). sg_upd f sc_Disarm) (sg_all p)) p"

definition StreamCacheStats :: "streamCaches option \<Rightarrow> (string, sc_stats) gomap" where
  "StreamCacheStats p = (case p of
     None \<Rightarrow> []
   | Some c \<Rightarrow> map (\<lambda>(name, f). (name, sc_Stats (sg_get f c))) (sg_all p))"

definition RoomsWithEventsSince :: "streamCaches option \<Rightarrow> string list \<Rightarrow> int \<Rightarrow> streamCaches option \<times> string list" where
  "RoomsWithEventsSince p roomIDs from = (case p of
     None \<Rightarrow> (None, roomIDs)
   | Some c \<Rightarrow> (case sc_EntitiesChanged (sg_events c) roomIDs from of
       (e, rooms) \<Rightarrow> (Some (c\<lparr>sg_events := e\<rparr>), rooms)))"

definition AnyPresenceSince :: "streamCaches option \<Rightarrow> int \<Rightarrow> streamCaches option \<times> bool" where
  "AnyPresenceSince p pos = (case p of
     None \<Rightarrow> (None, True)
   | Some c \<Rightarrow> (case sc_HasAnyEntityChanged (sg_presence c) pos of
       (e, b) \<Rightarrow> (Some (c\<lparr>sg_presence := e\<rparr>), b)))"

definition LastEventPosition :: "streamCaches option \<Rightarrow> string \<Rightarrow> int option" where
  "LastEventPosition p roomID = (case p of None \<Rightarrow> None | Some c \<Rightarrow> sc_MaxPosOfLastChange (sg_events c) roomID)"

text \<open>
  The gate at the head of \<^verbatim>\<open>SlidingMembershipChanges\<close> (\<^verbatim>\<open>internal/store/slidingsync.go\<close>): whether
  the query runs at all.
\<close>

definition membership_gate :: "streamCaches option \<Rightarrow> string \<Rightarrow> int \<Rightarrow> int \<Rightarrow> int \<Rightarrow> streamCaches option \<times> bool" where
  "membership_gate p userID fromStream fromMax toMax =
     (if fromMax \<ge> toMax then (p, False)
      else (case p of
          None \<Rightarrow> (None, True)
        | Some c \<Rightarrow> (case sc_HasEntityChanged (sg_membership c) userID fromStream of
            (m, b) \<Rightarrow> (Some (c\<lparr>sg_membership := m\<rparr>), b))))"

text \<open>\<^verbatim>\<open>streamFeeder.OnStreamAdvance\<close>.\<close>

definition feeder_OnStreamAdvance :: "streamCaches option \<Rightarrow> string \<Rightarrow> int \<Rightarrow> string list \<Rightarrow> string list \<Rightarrow> streamCaches option" where
  "feeder_OnStreamAdvance p stream pos roomIDs userIDs =
     (case StreamCacheIsRoomKeyed p stream of (byRoom, known) \<Rightarrow>
        if \<not> known then p
        else
          let subjects = (if \<not> byRoom then userIDs else roomIDs)
          in if subjects = [] then StreamCacheReset p stream pos
             else fold (\<lambda>entity p. StreamCacheChanged p stream entity pos) subjects p)"

section \<open>Fields\<close>

lemma sg_get_upd [simp]: "sg_get f (sg_upd f' g c) = (if f = f' then g (sg_get f c) else sg_get f c)"
  by (cases f; cases f') simp_all

lemma byName_some:
  "byName (Some c) stream = Some (f, b) \<Longrightarrow> byName (Some c') stream = Some (f, b)"
  by (auto simp: byName_def split: if_splits)

lemma byName_membership: "byName p stream = Some (f, b) \<Longrightarrow> f \<noteq> FMembership"
  by (auto simp: byName_def split: if_splits option.splits)

text \<open>What a row does to the field it names, and that it does nothing to the others.\<close>

lemma changed_fields:
  assumes "byName (Some c) stream = Some (f, b)"
  shows "\<exists>c'. fold (\<lambda>e p. StreamCacheChanged p stream e pos) es (Some c) = Some c' \<and>
    sg_get f c' = fold (\<lambda>e. sc_step (ScChange e pos)) es (sg_get f c) \<and>
    (\<forall>g. g \<noteq> f \<longrightarrow> sg_get g c' = sg_get g c)"
  using assms
proof (induction es arbitrary: c)
  case (Cons e es)
  let ?c = "sg_upd f (\<lambda>c. sc_EntityHasChanged c e pos) c"
  have "StreamCacheChanged (Some c) stream e pos = Some ?c" using Cons.prems by (simp add: StreamCacheChanged_def)
  with Cons.IH [OF byName_some [OF Cons.prems], of ?c] show ?case by auto
qed simp

lemma feeder_unfold:
  assumes "byName (Some c) stream = Some (f, b)"
  shows "feeder_OnStreamAdvance (Some c) stream pos rooms users =
    (let subjects = if b then rooms else users
     in if subjects = [] then StreamCacheReset (Some c) stream pos
        else fold (\<lambda>e p. StreamCacheChanged p stream e pos) subjects (Some c))"
  using assms by (simp add: feeder_OnStreamAdvance_def StreamCacheIsRoomKeyed_def)

lemma reset_fields:
  assumes "byName (Some c) stream = Some (f, b)"
  shows "\<exists>c'. StreamCacheReset (Some c) stream pos = Some c' \<and> sg_get f c' = sc_step (ScAll pos) (sg_get f c) \<and>
    (\<forall>g. g \<noteq> f \<longrightarrow> sg_get g c' =
       (if g = FMembership \<and> stream = ''events'' then sc_step (ScAll pos) (sg_get g c) else sg_get g c))"
proof -
  note nm = byName_membership [OF assms]
  show ?thesis
  proof (cases "stream = ''events''")
    case True
    let ?c = "sg_upd FMembership (\<lambda>c. sc_AllEntitiesChanged c pos) (sg_upd f (\<lambda>c. sc_AllEntitiesChanged c pos) c)"
    have "StreamCacheReset (Some c) stream pos = Some ?c" using assms True by (simp add: StreamCacheReset_def)
    then show ?thesis using nm True by (intro exI [of _ ?c]) (simp del: sg_upd.simps)
  next
    case False
    let ?c = "sg_upd f (\<lambda>c. sc_AllEntitiesChanged c pos) c"
    have "StreamCacheReset (Some c) stream pos = Some ?c" using assms False by (simp add: StreamCacheReset_def)
    then show ?thesis using nm False by (intro exI [of _ ?c]) (simp del: sg_upd.simps)
  qed
qed

lemma feeder_other: "byName p stream = None \<Longrightarrow> feeder_OnStreamAdvance p stream pos rooms users = p"
  by (simp add: feeder_OnStreamAdvance_def StreamCacheIsRoomKeyed_def)

section \<open>Hearing of changes\<close>

text \<open>
  The caches as gates: \<open>sc_reach D\<close> of a field says that the field's cache has a history in which
  exactly the changes \<open>D\<close> happened.
\<close>

lemma sc_reach_changes:
  "sc_reach D p \<Longrightarrow> sc_reach (D \<union> (\<lambda>e. (e, pos)) ` set es) (fold (\<lambda>e. sc_step (ScChange e pos)) es p)"
proof (induction es arbitrary: D p)
  case (Cons e es)
  from Cons.IH [OF sc_reach.change [OF Cons.prems, of e pos]] show ?case by simp
qed simp

lemma sc_reach_subset: "sc_reach D p \<Longrightarrow> D' \<subseteq> D \<Longrightarrow> sc_reach D' p"
  by (erule sc_reach.settle) auto

lemma feeder_hears:
  assumes "byName (Some c) stream = Some (f, b)" and "sc_reach D (sg_get f c)"
    and "subjects = (if b then rooms else users)"
    and "subjects = [] \<Longrightarrow> \<forall>(e, q) \<in> D \<union> X. q \<le> pos"
    and "subjects \<noteq> [] \<Longrightarrow> \<forall>(e, q) \<in> X. e \<in> set subjects \<and> q \<le> pos"
  shows "\<exists>c'. feeder_OnStreamAdvance (Some c) stream pos rooms users = Some c' \<and> sc_reach (D \<union> X) (sg_get f c')"
proof (cases "subjects = []")
  case True
  from reset_fields [OF assms(1), of pos] obtain c' where
    "StreamCacheReset (Some c) stream pos = Some c'" "sg_get f c' = sc_step (ScAll pos) (sg_get f c)" by blast
  with sc_reach.jump [OF assms(2) assms(4) [OF True]] show ?thesis
    using True assms(3) by (simp add: feeder_unfold [OF assms(1)])
next
  case False
  from changed_fields [OF assms(1), of pos subjects] obtain c' where
    c': "fold (\<lambda>e p. StreamCacheChanged p stream e pos) subjects (Some c) = Some c'"
    "sg_get f c' = fold (\<lambda>e. sc_step (ScChange e pos)) subjects (sg_get f c)" by blast
  have "\<forall>(e, q) \<in> D \<union> X. \<exists>q' \<ge> q. (e, q') \<in> D \<union> (\<lambda>e. (e, pos)) ` set subjects"
    using assms(5) [OF False] by force
  from sc_reach.settle [OF sc_reach_changes [OF assms(2)] this] c' show ?thesis
    using False assms(3) by (simp add: feeder_unfold [OF assms(1)])
qed

section \<open>The gates of the store\<close>

lemma rooms_since_get [simp]:
  "snd (RoomsWithEventsSince (Some c) rooms from) = snd (sc_EntitiesChanged (sg_events c) rooms from)"
  "snd (AnyPresenceSince (Some c) from) = snd (sc_HasAnyEntityChanged (sg_presence c) from)"
  "fromMax < toMax \<Longrightarrow> snd (membership_gate (Some c) u from fromMax toMax) = snd (sc_HasEntityChanged (sg_membership c) u from)"
  by (simp_all add: RoomsWithEventsSince_def AnyPresenceSince_def membership_gate_def split: prod.split)

text \<open>
  The three questions the queries ask of the store are gates over the changes of their stream.
\<close>

interpretation events_gate: change_gate "\<lambda>D c. sc_reach D (sg_events c)"
    "\<lambda>c room from. room \<in> set (snd (RoomsWithEventsSince (Some c) [room] from))"
  by unfold_locales (simp add: sc_many.no_miss)

interpretation presence_gate: change_gate "\<lambda>D c. sc_reach D (sg_presence c)"
    "\<lambda>c user from. snd (AnyPresenceSince (Some c) from)"
  by unfold_locales (simp add: sc_any.no_miss)

interpretation member_gate: change_gate "\<lambda>D c. sc_reach D (sg_membership c)"
    "\<lambda>c user from. \<forall>to > from. snd (membership_gate (Some c) user from from to)"
  by unfold_locales (simp add: sc_one.no_miss)

lemma rooms_since_filter:
  "snd (RoomsWithEventsSince (Some c) rooms from) =
     filter (\<lambda>r. r \<in> set (snd (RoomsWithEventsSince (Some c) [r] from))) rooms"
  by (simp add: sc_many_filter [of "sg_events c" rooms])

section \<open>Arming, disarming and seeding\<close>

lemma prefill_loop_other: "f \<notin> fst ` set specs \<Longrightarrow> sg_get f (fst (prefill_loop db positions specs c)) = sg_get f c"
  by (induction db positions specs c rule: prefill_loop.induct)
    (auto simp: seed_field_def split: option.split prod.split)

lemma prefill_loop_field:
  assumes "distinct (map fst specs)" and "prefill_loop db positions specs c = (c', False)"
    and "(f, stream, table, limit) \<in> set specs"
  shows "\<exists>rows entries minPos. db table limit = Some rows \<and>
    CacheDict rows (mgetz 0 positions stream) = (entries, minPos) \<and>
    sg_get f c' = sc_step (ScSeed entries minPos) (sg_get f c)"
  using assms
proof (induction db positions specs c rule: prefill_loop.induct)
  case (2 db positions g stream' table' limit' specs c)
  from "2.prems"(2) obtain rows where rows: "db table' limit' = Some rows" by (auto split: option.splits)
  obtain entries minPos where cd: "CacheDict rows (mgetz 0 positions stream') = (entries, minPos)" by fastforce
  let ?c = "seed_field g entries minPos c"
  from "2.prems"(2) rows cd have rest: "prefill_loop db positions specs ?c = (c', False)" by simp
  have d: "distinct (map fst specs)" "g \<notin> fst ` set specs" using "2.prems"(1) by auto
  show ?case
  proof (cases "(f, stream, table, limit) \<in> set specs")
    case True
    then have "f \<noteq> g" using d(2) by force
    with "2.IH" [OF rows cd [symmetric] d(1) rest True] show ?thesis by (simp add: seed_field_def)
  next
    case False
    with "2.prems"(3) have eq: "f = g" "stream = stream'" "table = table'" "limit = limit'" by auto
    from prefill_loop_other [OF d(2), of db positions ?c] rest have "sg_get g c' = sg_get g ?c" by simp
    with rows cd eq show ?thesis by (simp add: seed_field_def)
  qed
qed simp

lemma prefill_success:
  assumes "PrefillStreamCaches db (Some c) positions = (Some c', False)"
  obtains c1 where "prefill_loop db positions prefill_specs c = (c1, False)"
    "sg_get FMembership c' = sc_step (ScArm (mgetz 0 positions ''events'')) (sg_get FMembership c)"
    "sg_get FAccountData c' = sc_step (ScArm (mgetz 0 positions ''account_data'')) (sg_get FAccountData c)"
    "\<And>f. f \<noteq> FMembership \<Longrightarrow> f \<noteq> FAccountData \<Longrightarrow> sg_get f c' = sg_get f c1"
proof -
  obtain c1 b where l: "prefill_loop db positions prefill_specs c = (c1, b)" by fastforce
  with assms have b: "\<not> b" and c': "c' = sg_upd FMembership (\<lambda>c. sc_Arm c (mgetz 0 positions ''events''))
      (sg_upd FAccountData (\<lambda>c. sc_Arm c (mgetz 0 positions ''account_data'')) c1)"
    by (simp_all add: PrefillStreamCaches_def split: bool.splits)
  have "sg_get FMembership c1 = sg_get FMembership c" "sg_get FAccountData c1 = sg_get FAccountData c"
    using prefill_loop_other [of FMembership prefill_specs db positions c]
      prefill_loop_other [of FAccountData prefill_specs db positions c] l by (simp_all add: prefill_specs_def)
  with l b c' show ?thesis by (intro that [of c1]) (simp_all del: sg_upd.simps)
qed

lemma prefill_specs_distinct: "distinct (map fst prefill_specs)"
  by (simp add: prefill_specs_def)

lemma prefill_specs_fields:
  "(f, stream, table, limit) \<in> set prefill_specs \<Longrightarrow> f \<noteq> FMembership \<and> f \<noteq> FAccountData \<and> 0 < limit"
  by (auto simp: prefill_specs_def)

lemma prefill_field:
  assumes "PrefillStreamCaches db (Some c) positions = (Some c', False)"
    and "(f, stream, table, limit) \<in> set prefill_specs"
  shows "\<exists>rows entries minPos. db table limit = Some rows \<and>
    CacheDict rows (mgetz 0 positions stream) = (entries, minPos) \<and>
    sg_get f c' = sc_step (ScSeed entries minPos) (sg_get f c)"
proof -
  obtain c1 where c1: "prefill_loop db positions prefill_specs c = (c1, False)"
    "\<And>f. f \<noteq> FMembership \<Longrightarrow> f \<noteq> FAccountData \<Longrightarrow> sg_get f c' = sg_get f c1"
    by (rule prefill_success [OF assms(1)]) blast
  from prefill_loop_field [OF prefill_specs_distinct c1(1) assms(2)] c1(2) [of f] prefill_specs_fields [OF assms(2)]
  show ?thesis by simp
qed

lemma fold_disarm: "sg_get f (fold (\<lambda>(_, f). sg_upd f sc_Disarm) xs c) = (if f \<in> snd ` set xs then sc_Disarm (sg_get f c) else sg_get f c)"
proof (induction xs arbitrary: c)
  case (Cons x xs)
  have idem: "sc_Disarm (sc_Disarm p) = sc_Disarm p" for p
    by (cases p) (simp_all add: sc_Disarm_def Let_def resetLocked_def)
  show ?case by (cases x) (auto simp: Cons.IH idem)
qed simp

lemma disarm_fields:
  obtains c' where "DisarmStreamCaches (Some c) = Some c'" "\<And>f. sg_get f c' = sc_step ScDisarm (sg_get f c)"
proof (rule that)
  let ?c = "fold (\<lambda>(_, f). sg_upd f sc_Disarm) (sg_all (Some c)) c"
  show "DisarmStreamCaches (Some c) = Some ?c" by (simp add: DisarmStreamCaches_def)
  show "sg_get f ?c = sc_step ScDisarm (sg_get f c)" for f
    by (cases f) (simp_all add: fold_disarm, simp_all add: sg_all_def)
qed

lemma disarmed_not_armed: "\<not> sc_Armed (sc_Disarm p)"
  by (cases p) (simp_all add: sc_Disarm_def sc_Armed_def Let_def)

text \<open>While replication is down anything may happen to a disarmed cache's stream.\<close>

lemma disarmed_reach: "sc_reach D p \<Longrightarrow> sc_reach X (sc_step ScDisarm p)"
proof -
  assume "sc_reach D p"
  from sc_reach.unseen [OF sc_reach.disarm [OF this], of X] have "sc_reach (D \<union> X) (sc_step ScDisarm p)"
    using disarmed_not_armed by simp
  then show ?thesis by (rule sc_reach_subset) simp
qed

lemma unarmed_open:
  "\<not> sc_Armed p \<Longrightarrow> snd (sc_EntitiesChanged p rooms from) = rooms \<and> snd (sc_HasAnyEntityChanged p from) \<and>
    snd (sc_HasEntityChanged p u from)"
  by (cases p) (auto simp: sc_EntitiesChanged_def sc_HasAnyEntityChanged_def sc_HasEntityChanged_def sc_Armed_def)

lemma unarmed_step:
  "\<not> sc_Armed p \<Longrightarrow> \<not> sc_Armed (sc_step (ScChange e q) p) \<and> \<not> sc_Armed (sc_step (ScAll q) p)"
  by (cases p) (auto simp: sc_EntityHasChanged_def sc_AllEntitiesChanged_def sc_Armed_def)

lemma unarmed_changes: "\<not> sc_Armed p \<Longrightarrow> \<not> sc_Armed (fold (\<lambda>e. sc_step (ScChange e q)) es p)"
  by (induction es arbitrary: p) (simp_all add: unarmed_step del: sc_step.simps)

lemma feeder_unarmed:
  assumes "\<not> sc_Armed (sg_get g c)"
  shows "\<exists>c'. feeder_OnStreamAdvance (Some c) stream pos rs us = Some c' \<and> \<not> sc_Armed (sg_get g c')"
proof (cases "byName (Some c) stream")
  case None
  then show ?thesis using assms by (simp add: feeder_other)
next
  case (Some fb)
  then obtain f b where fb: "byName (Some c) stream = Some (f, b)" by (cases fb) simp
  let ?s = "if b then rs else us"
  show ?thesis
  proof (cases "?s = []")
    case True
    from reset_fields [OF fb, of pos] obtain c' where c': "StreamCacheReset (Some c) stream pos = Some c'"
      "sg_get f c' = sc_step (ScAll pos) (sg_get f c)"
      "\<forall>g. g \<noteq> f \<longrightarrow> sg_get g c' = (if g = FMembership \<and> stream = ''events'' then sc_step (ScAll pos) (sg_get g c) else sg_get g c)"
      by blast
    then have "\<not> sc_Armed (sg_get g c')" using assms unarmed_step [OF assms] by (cases "g = f") (auto simp del: sc_step.simps)
    with c'(1) True show ?thesis by (simp add: feeder_unfold [OF fb])
  next
    case False
    from changed_fields [OF fb, of pos ?s] obtain c' where
      c': "fold (\<lambda>e p. StreamCacheChanged p stream e pos) ?s (Some c) = Some c'"
      "sg_get f c' = fold (\<lambda>e. sc_step (ScChange e pos)) ?s (sg_get f c)" "\<forall>g. g \<noteq> f \<longrightarrow> sg_get g c' = sg_get g c" by blast
    then have "\<not> sc_Armed (sg_get g c')" using assms unarmed_changes [OF assms] by (cases "g = f") auto
    with c'(1) False show ?thesis by (simp add: feeder_unfold [OF fb])
  qed
qed

section \<open>Properties\<close>

text \<open>
  A replication row reaches the gate of its stream. Whatever the caches have heard before, once
  the feeder has been told that \<open>stream\<close> reached \<open>pos\<close> for the given rooms and users, every subject
  the row names (a room on the room-keyed streams, a user on the others; anybody when it names
  none) is answered "changed" from any position before \<open>pos\<close>.
\<close>

theorem feeder_row_passes_gate:
  assumes "sc_reach D (sg_get f c)" and "byName (Some c) stream = Some (f, byRoom)"
    and "from < pos"
  shows "\<exists>c'. feeder_OnStreamAdvance (Some c) stream pos rooms users = Some c' \<and>
    (\<forall>e. e \<in> set (if byRoom then rooms else users) \<or> (if byRoom then rooms else users) = [] \<longrightarrow>
       snd (sc_HasEntityChanged (sg_get f c') e from))"
proof -
  let ?s = "if byRoom then rooms else users"
  let ?X = "{e. e \<in> set ?s \<or> ?s = []} \<times> {pos}"
  have "sc_reach {} (sg_get f c)" using assms(1) by (rule sc_reach_subset) simp
  from feeder_hears [OF assms(2) this refl, of rooms users ?X pos] obtain c' where
    c': "feeder_OnStreamAdvance (Some c) stream pos rooms users = Some c'" "sc_reach ?X (sg_get f c')"
    by (auto split: if_splits)
  have "snd (sc_HasEntityChanged (sg_get f c') e from)" if "e \<in> set ?s \<or> ?s = []" for e
    by (rule sc_one.no_miss [OF c'(2) _ assms(3)]) (use that in blast)
  with c'(1) show ?thesis by blast
qed

theorem feeder_row_passes_gate_witness:
  "let c = newStreamCaches \<lparr>sz_Events = 0, sz_Membership = 0, sz_Receipts = 0, sz_AccountData = 0, sz_ToDevice = 0, sz_Presence = 0\<rparr>
   in \<exists>c'. feeder_OnStreamAdvance (Some c) ''presence'' 5 [] [''@u''] = Some c' \<and>
       snd (sc_HasEntityChanged (sg_presence c') ''@u'' 4)"
proof -
  let ?c = "newStreamCaches \<lparr>sz_Events = 0, sz_Membership = 0, sz_Receipts = 0, sz_AccountData = 0, sz_ToDevice = 0, sz_Presence = 0\<rparr>"
  have "sc_reach {} (sg_get FPresence ?c)" by (simp add: newStreamCaches_def sc_reach.init)
  from feeder_row_passes_gate [OF this, of "''presence''" False 4 5 "[]" "[''@u'']"]
  show ?thesis by (auto simp: byName_def)
qed


text \<open>A database whose only row is an event in one room, and caches of the default sizes.\<close>

definition one_event_db :: "string \<Rightarrow> nat \<Rightarrow> (string \<times> int) list option" where
  "one_event_db table limit = Some (if table = ''events'' then [(''!r'', 7)] else [])"

definition default_caches :: streamCaches where
  "default_caches = newStreamCaches \<lparr>sz_Events = 0, sz_Membership = 0, sz_Receipts = 0, sz_AccountData = 0,
     sz_ToDevice = 0, sz_Presence = 0\<rparr>"

definition reconnected :: streamCaches where
  "reconnected = the (fst (PrefillStreamCaches one_event_db (DisarmStreamCaches (Some default_caches)) [(''events'', 5)]))"

lemma default_reach: "\<exists>D. sc_reach D (sg_get f default_caches)"
  by (cases f) (auto simp: default_caches_def newStreamCaches_def intro: sc_reach.init)

lemma reconnected_ok:
  "PrefillStreamCaches one_event_db (DisarmStreamCaches (Some default_caches)) [(''events'', 5)] = (Some reconnected, False)"
  by (simp add: reconnected_def PrefillStreamCaches_def DisarmStreamCaches_def sg_all_def prefill_specs_def
      one_event_db_def split: prod.split)


text \<open>
  The membership cache is not: it is armed at the position the subscriber held before the outage,
  as if that were the current one. Every membership change made while replication was down lies
  above it and is in no table that is read, so for a client whose token is at or after the held
  position the gate of \<^verbatim>\<open>SlidingMembershipChanges\<close> stays shut, whoever asks and whatever changed.
\<close>

theorem reconnect_shuts_membership_gate:
  assumes "PrefillStreamCaches db (DisarmStreamCaches (Some c)) positions = (Some c', False)"
    and "sg_membership c = Some m" and "0 < sc_max m" and "sc_earliest m \<le> mgetz 0 positions ''events''"
    and "mgetz 0 positions ''events'' \<le> from"
  shows "\<not> snd (membership_gate (Some c') userID from from to)"
proof -
  obtain c1 where c1: "DisarmStreamCaches (Some c) = Some c1" "\<And>f. sg_get f c1 = sc_step ScDisarm (sg_get f c)"
    by (rule disarm_fields [of c]) blast
  have "sg_get FMembership c' = sc_step (ScArm (mgetz 0 positions ''events'')) (sg_get FMembership c1)"
    by (rule prefill_success [OF assms(1) [unfolded c1(1)]])
  also have "\<dots> = sc_Arm (sc_Disarm (Some m)) (mgetz 0 positions ''events'')" using c1(2) [of FMembership] assms(2) by simp
  finally have "sg_membership c' = \<dots>" by simp
  then show ?thesis using assms(3-5)
    by (auto simp: membership_gate_def sc_Arm_def sc_Disarm_def Let_def resetLocked_def sc_HasEntityChanged_def sc_hit_def)
qed

theorem reconnect_shuts_membership_gate_witness: "\<not> snd (membership_gate (Some reconnected) ''@u'' 5 5 9)"
  by (rule reconnect_shuts_membership_gate [OF reconnected_ok, of "sc_New ''membership'' 0 10000"])
    (simp_all add: default_caches_def newStreamCaches_def sc_New_def sizeOr_def defaultStreamCacheEntries_def mgetz_def)

text \<open>
  With replication down every gate is open: after \<^verbatim>\<open>DisarmStreamCaches\<close> no room is dropped, presence
  is queried and membership changes are queried, and rows that still arrive do not change that.
\<close>

theorem disarmed_gates_open:
  assumes "DisarmStreamCaches (Some c) = Some c'" and "from < to"
  shows "snd (RoomsWithEventsSince (Some c') rooms from) = rooms \<and> snd (AnyPresenceSince (Some c') from) \<and>
    snd (membership_gate (Some c') u from from to) \<and>
    snd (RoomsWithEventsSince (feeder_OnStreamAdvance (Some c') stream pos rs us) rooms from) = rooms"
proof -
  obtain c1 where c1: "DisarmStreamCaches (Some c) = Some c1" "\<And>f. sg_get f c1 = sc_step ScDisarm (sg_get f c)"
    by (rule disarm_fields [of c]) blast
  then have off: "\<not> sc_Armed (sg_get f c')" for f using assms(1) disarmed_not_armed by simp
  from feeder_unarmed [OF off, of stream pos rs us FEvents] obtain c2 where
    "feeder_OnStreamAdvance (Some c') stream pos rs us = Some c2" "\<not> sc_Armed (sg_get FEvents c2)" by blast
  then show ?thesis
    using unarmed_open off [of FEvents] off [of FPresence] off [of FMembership] assms(2) by auto
qed

theorem disarmed_gates_open_witness:
  "snd (AnyPresenceSince (DisarmStreamCaches (Some default_caches)) 3)"
proof -
  obtain c1 where c1: "DisarmStreamCaches (Some default_caches) = Some c1"
    by (rule disarm_fields [of default_caches]) blast
  from disarmed_gates_open [OF c1, of 3 4] show ?thesis by (simp add: c1)
qed

end
