(* ===== verification/Derived_Caches.thy ===== *)
theory Derived_Caches
  imports Lru State_Caches Stream_Gates Replication
begin

text \<open>
  The derived caches of the store (\<^verbatim>\<open>internal/store/derived.go\<close>), the lookups they sit in front of
  (\<^verbatim>\<open>RoomSummary\<close>, \<^verbatim>\<open>HistoryVisibility\<close>, \<^verbatim>\<open>IgnoredUsers\<close>, \<^verbatim>\<open>RoomsForUser\<close>, \<^verbatim>\<open>RoomInfo\<close>, \<^verbatim>\<open>UserFilter\<close> and
  \<^verbatim>\<open>AccessTokenID\<close>), and the invalidator that drops entries on replication rows
  (\<^verbatim>\<open>cmd/gosync-worker/invalidate.go\<close>).

  A lookup that misses asks the database; the query behind it is an argument. It is not one
  atomic step in the code: the cache is asked, the query runs, and the answer is added. The two
  halves are \<open>guarded_begin\<close> and \<open>guarded_end\<close>, and the lookup is their composition, so that what
  happens between them can be put there. The copies made on the way out are the identity here.

  What a guarded cache is for is stated against the history of the database: the value an
  uncached query returns at every stream position. The invariant \<open>as_of\<close> says that every entry
  held is the value at a position no older than the one the invalidations have reached.
\<close>

section \<open>The model\<close>

record SummaryMember =
  sm_UserID :: string
  sm_Membership :: string
  sm_EventID :: string

record MemberSummary =
  ms_Counts :: "(string, int) gomap"
  ms_Members :: "SummaryMember list"

record RoomForUser =
  rfu_RoomID :: string
  rfu_RoomVersion :: string
  rfu_Membership :: string
  rfu_EventID :: string
  rfu_Sender :: string
  rfu_StreamOrdering :: int
  rfu_IsPublic :: bool

record RoomInfo =
  ri_RoomVersion :: string
  ri_Blocked :: bool

record Horizon =
  hz_Events :: int
  hz_AccountData :: int

text \<open>A nil map of ignored users is \<open>None\<close>.\<close>

record derivedCaches =
  dc_userFilter :: "(string, string) cache option"
  dc_roomInfo :: "(string, RoomInfo) cache option"
  dc_accessToken :: "(string, int) cache option"
  dc_roomSummary :: "(string, MemberSummary) cache option"
  dc_historyVis :: "(string, string) cache option"
  dc_ignoredUsers :: "(string, string set option) cache option"
  dc_roomsForUser :: "(string, (string, RoomForUser list) gomap) cache option"
  dc_applied :: "(string, int) gomap"
  dc_armed :: bool

text \<open>The sizes of \<^verbatim>\<open>store.Config\<close> that the caches read.\<close>

record CacheEntries =
  ce_EventStateGroup :: int
  ce_FilteredState :: int
  ce_UserFilter :: int
  ce_RoomInfo :: int
  ce_AccessToken :: int
  ce_RoomSummary :: int
  ce_HistoryVisibility :: int
  ce_IgnoredUsers :: int
  ce_RoomsForUser :: int

definition size_or :: "int \<Rightarrow> int \<Rightarrow> int" where
  "size_or n dflt = (if n = 0 then dflt else n)"

definition newDerivedCaches :: "CacheEntries \<Rightarrow> derivedCaches" where
  "newDerivedCaches cfg = \<lparr>
     dc_userFilter = Some (lru_New (size_or (ce_UserFilter cfg) 5000)),
     dc_roomInfo = Some (lru_New (size_or (ce_RoomInfo cfg) 20000)),
     dc_accessToken = Some (lru_New (size_or (ce_AccessToken cfg) 20000)),
     dc_roomSummary = Some (lru_New (size_or (ce_RoomSummary cfg) 20000)),
     dc_historyVis = Some (lru_New (size_or (ce_HistoryVisibility cfg) 20000)),
     dc_ignoredUsers = Some (lru_New (size_or (ce_IgnoredUsers cfg) 5000)),
     dc_roomsForUser = Some (lru_New (size_or (ce_RoomsForUser cfg) 1000)),
     dc_applied = [], dc_armed = False\<rparr>"

definition fresh :: "derivedCaches option \<Rightarrow> Horizon option \<Rightarrow> string \<Rightarrow> bool" where
  "fresh p ctx stream = (case (p, ctx) of
     (Some d, Some h) \<Rightarrow>
       (if stream = ''events'' then dc_armed d \<and> mgetz 0 (dc_applied d) stream \<ge> hz_Events h
        else if stream = ''account_data'' then dc_armed d \<and> mgetz 0 (dc_applied d) stream \<ge> hz_AccountData h
        else False)
   | _ \<Rightarrow> False)"

definition Applied :: "derivedCaches option \<Rightarrow> string \<Rightarrow> int \<Rightarrow> derivedCaches option" where
  "Applied p stream pos = (case p of
     None \<Rightarrow> None
   | Some d \<Rightarrow>
       if pos \<le> 0 then Some d
       else if pos > mgetz 0 (dc_applied d) stream then Some (d\<lparr>dc_applied := mput stream pos (dc_applied d)\<rparr>)
       else Some d)"

definition dc_setArmed :: "derivedCaches \<Rightarrow> bool \<Rightarrow> derivedCaches" where
  "dc_setArmed d b = d\<lparr>
     dc_userFilter := lru_SetArmed (dc_userFilter d) b,
     dc_roomInfo := lru_SetArmed (dc_roomInfo d) b,
     dc_accessToken := lru_SetArmed (dc_accessToken d) b,
     dc_roomSummary := lru_SetArmed (dc_roomSummary d) b,
     dc_historyVis := lru_SetArmed (dc_historyVis d) b,
     dc_ignoredUsers := lru_SetArmed (dc_ignoredUsers d) b,
     dc_roomsForUser := lru_SetArmed (dc_roomsForUser d) b\<rparr>"

definition ArmDerivedCaches :: "derivedCaches option \<Rightarrow> (string, int) gomap \<Rightarrow> derivedCaches option" where
  "ArmDerivedCaches p positions =
     map_option (\<lambda>d. dc_setArmed (d\<lparr>dc_applied := fold (\<lambda>(stream, pos). mput stream pos) positions [], dc_armed := True\<rparr>) True) p"

definition DisarmDerivedCaches :: "derivedCaches option \<Rightarrow> derivedCaches option" where
  "DisarmDerivedCaches p = map_option (\<lambda>d. dc_setArmed (d\<lparr>dc_armed := False, dc_applied := []\<rparr>) False) p"

definition InvalidateRoom :: "derivedCaches option \<Rightarrow> string \<Rightarrow> derivedCaches option" where
  "InvalidateRoom p roomID = (case p of
     None \<Rightarrow> None
   | Some d \<Rightarrow>
       if roomID = [] then Some d
       else Some (d\<lparr>dc_roomSummary := lru_Remove (dc_roomSummary d) roomID,
                    dc_historyVis := lru_Remove (dc_historyVis d) roomID\<rparr>))"

definition InvalidateUserMembership :: "derivedCaches option \<Rightarrow> string \<Rightarrow> derivedCaches option" where
  "InvalidateUserMembership p userID = (case p of
     None \<Rightarrow> None
   | Some d \<Rightarrow> if userID = [] then Some d else Some (d\<lparr>dc_roomsForUser := lru_Remove (dc_roomsForUser d) userID\<rparr>))"

definition InvalidateUserAccountData :: "derivedCaches option \<Rightarrow> string \<Rightarrow> derivedCaches option" where
  "InvalidateUserAccountData p userID = (case p of
     None \<Rightarrow> None
   | Some d \<Rightarrow> if userID = [] then Some d else Some (d\<lparr>dc_ignoredUsers := lru_Remove (dc_ignoredUsers d) userID\<rparr>))"

definition PurgeDerivedCaches :: "derivedCaches option \<Rightarrow> derivedCaches option" where
  "PurgeDerivedCaches p = map_option (\<lambda>d. d\<lparr>
     dc_userFilter := lru_Purge (dc_userFilter d),
     dc_roomInfo := lru_Purge (dc_roomInfo d),
     dc_accessToken := lru_Purge (dc_accessToken d),
     dc_roomSummary := lru_Purge (dc_roomSummary d),
     dc_historyVis := lru_Purge (dc_historyVis d),
     dc_ignoredUsers := lru_Purge (dc_ignoredUsers d),
     dc_roomsForUser := lru_Purge (dc_roomsForUser d)\<rparr>) p"

definition DerivedCacheStats :: "derivedCaches option \<Rightarrow> (string, stats) gomap" where
  "DerivedCacheStats p = (case p of
     None \<Rightarrow> []
   | Some d \<Rightarrow> [(''user_filter'', lru_Stats (dc_userFilter d)), (''room_info'', lru_Stats (dc_roomInfo d)),
       (''access_token'', lru_Stats (dc_accessToken d)), (''room_summary'', lru_Stats (dc_roomSummary d)),
       (''history_visibility'', lru_Stats (dc_historyVis d)), (''ignored_users'', lru_Stats (dc_ignoredUsers d)),
       (''rooms_for_user'', lru_Stats (dc_roomsForUser d))])"

subsection \<open>Lookups\<close>

text \<open>
  The shape three guarded lookups share, for the field with the given selector and update:
  whether the cache may be used and what it answers; and adding the answer of the query.
\<close>

definition guarded_begin ::
  "(derivedCaches \<Rightarrow> (string, 'v) cache option) \<Rightarrow>
   (((string, 'v) cache option \<Rightarrow> (string, 'v) cache option) \<Rightarrow> derivedCaches \<Rightarrow> derivedCaches) \<Rightarrow>
   derivedCaches option \<Rightarrow> Horizon option \<Rightarrow> string \<Rightarrow> string \<Rightarrow> derivedCaches option \<times> bool \<times> 'v option" where
  "guarded_begin get upd p ctx stream key =
     (if fresh p ctx stream then
        (case p of
           None \<Rightarrow> (None, True, None)
         | Some d \<Rightarrow> (case lru_Get (get d) key of (c, v) \<Rightarrow> (Some (upd (\<lambda>_. c) d), True, v)))
      else (p, False, None))"

definition guarded_end ::
  "(((string, 'v) cache option \<Rightarrow> (string, 'v) cache option) \<Rightarrow> derivedCaches \<Rightarrow> derivedCaches) \<Rightarrow>
   derivedCaches option \<Rightarrow> bool \<Rightarrow> string \<Rightarrow> 'v \<Rightarrow> derivedCaches option" where
  "guarded_end upd p use key v = (if use then map_option (upd (\<lambda>c. lru_Add c key v)) p else p)"

definition guarded_lookup ::
  "(derivedCaches \<Rightarrow> (string, 'v) cache option) \<Rightarrow>
   (((string, 'v) cache option \<Rightarrow> (string, 'v) cache option) \<Rightarrow> derivedCaches \<Rightarrow> derivedCaches) \<Rightarrow>
   derivedCaches option \<Rightarrow> Horizon option \<Rightarrow> string \<Rightarrow> (string \<Rightarrow> 'e + 'v) \<Rightarrow> string \<Rightarrow>
   derivedCaches option \<times> ('e + 'v)" where
  "guarded_lookup get upd p ctx stream query key =
     (case guarded_begin get upd p ctx stream key of
        (p1, use, Some v) \<Rightarrow> (p1, Inr v)
      | (p1, use, None) \<Rightarrow> (case query key of
            Inl err \<Rightarrow> (p1, Inl err)
          | Inr v \<Rightarrow> (guarded_end upd p1 use key v, Inr v)))"

definition RoomSummary where
  "RoomSummary p ctx query roomID =
     guarded_lookup dc_roomSummary dc_roomSummary_update p ctx ''events'' query roomID"

definition HistoryVisibility where
  "HistoryVisibility p ctx query roomID =
     guarded_lookup dc_historyVis dc_historyVis_update p ctx ''events'' query roomID"

definition IgnoredUsers where
  "IgnoredUsers p ctx query userID =
     guarded_lookup dc_ignoredUsers dc_ignoredUsers_update p ctx ''account_data'' query userID"

definition addRoomsForUser :: "derivedCaches \<Rightarrow> string \<Rightarrow> string \<Rightarrow> RoomForUser list \<Rightarrow> derivedCaches" where
  "addRoomsForUser d userID s rooms =
     (case lru_Get (dc_roomsForUser d) userID of (c, existing) \<Rightarrow>
        let bySet = mput s rooms (case existing of Some m \<Rightarrow> m | None \<Rightarrow> [])
        in d\<lparr>dc_roomsForUser := lru_Add c userID bySet\<rparr>)"

definition membership_set :: "string list \<Rightarrow> string" where
  "membership_set memberships = join_with (CHR 0x01) memberships"

definition RoomsForUser ::
  "derivedCaches option \<Rightarrow> Horizon option \<Rightarrow> (string \<Rightarrow> string list \<Rightarrow> 'e + RoomForUser list) \<Rightarrow> string \<Rightarrow> string list \<Rightarrow>
   derivedCaches option \<times> ('e + RoomForUser list)" where
  "RoomsForUser p ctx query userID memberships =
     (case guarded_begin dc_roomsForUser dc_roomsForUser_update p ctx ''events'' userID of (p1, use, found) \<Rightarrow>
        (case Option.bind found (\<lambda>bySet. mget bySet (membership_set memberships)) of
           Some rooms \<Rightarrow> (p1, Inr rooms)
         | None \<Rightarrow> (case query userID memberships of
               Inl err \<Rightarrow> (p1, Inl err)
             | Inr rooms \<Rightarrow>
                 (if use then map_option (\<lambda>d. addRoomsForUser d userID (membership_set memberships) rooms) p1 else p1,
                  Inr rooms))))"

text \<open>The unguarded lookups, on a store whose caches exist. \<^verbatim>\<open>AccessTokenID\<close> never fails: a failed query is id 0.\<close>

definition plain_lookup ::
  "(derivedCaches \<Rightarrow> (string, 'v) cache option) \<Rightarrow>
   (((string, 'v) cache option \<Rightarrow> (string, 'v) cache option) \<Rightarrow> derivedCaches \<Rightarrow> derivedCaches) \<Rightarrow>
   derivedCaches \<Rightarrow> 'e + 'v \<Rightarrow> string \<Rightarrow> derivedCaches \<times> ('e + 'v)" where
  "plain_lookup get upd d queried key =
     (case lru_Get (get d) key of
        (c, Some v) \<Rightarrow> (upd (\<lambda>_. c) d, Inr v)
      | (c, None) \<Rightarrow> (case queried of
            Inl err \<Rightarrow> (upd (\<lambda>_. c) d, Inl err)
          | Inr v \<Rightarrow> (upd (\<lambda>_. lru_Add c key v) d, Inr v)))"

definition Store_RoomInfo where
  "Store_RoomInfo d query roomID = plain_lookup dc_roomInfo dc_roomInfo_update d (query roomID) roomID"

definition UserFilter where
  "UserFilter d query userID filterID =
     plain_lookup dc_userFilter dc_userFilter_update d (query userID filterID) (userID @ [CHR 0x00] @ FormatInt filterID)"

definition accessTokenID :: "(string \<Rightarrow> 'e + int) \<Rightarrow> string \<Rightarrow> 'e + int" where
  "accessTokenID query token = (case query token of Inl err \<Rightarrow> Inr 0 | Inr i \<Rightarrow> Inr i)"

definition AccessTokenID where
  "AccessTokenID d query token = plain_lookup dc_accessToken dc_accessToken_update d (accessTokenID query token) token"

subsection \<open>The invalidator\<close>

text \<open>The store as the invalidator sees it: the three groups of caches.\<close>

record store =
  db_caches :: caches
  db_derived :: "derivedCaches option"
  db_streams :: "streamCaches option"

definition OnRow :: "store \<Rightarrow> string \<Rightarrow> int \<Rightarrow> RowDetail \<Rightarrow> store" where
  "OnRow db stream pos d =
     (if stream = ''events'' then
        let db1 = db\<lparr>db_derived := fold (\<lambda>r p. InvalidateRoom p r) (rd_RoomIDs d) (db_derived db)\<rparr>;
            db2 = (if rd_Type d = ''m.room.member'' \<and> rd_StateKey d \<noteq> [] then
                     db1\<lparr>db_derived := InvalidateUserMembership (db_derived db1) (rd_StateKey d),
                         db_streams := MembershipChanged (db_streams db1) (rd_StateKey d) pos\<rparr>
                   else db1)
        in db2\<lparr>db_derived := Applied (db_derived db2) stream pos\<rparr>
      else if stream = ''account_data'' then
        let db1 = db\<lparr>db_derived := fold (\<lambda>u p. InvalidateUserAccountData p u) (rd_UserIDs d) (db_derived db)\<rparr>
        in db1\<lparr>db_derived := Applied (db_derived db1) stream pos\<rparr>
      else db)"

definition OnRoomInvalidated :: "store \<Rightarrow> string \<Rightarrow> store" where
  "OnRoomInvalidated db roomID = db\<lparr>db_derived := InvalidateRoom (db_derived db) roomID\<rparr>"

definition OnPurge :: "store \<Rightarrow> store" where
  "OnPurge db = db\<lparr>db_caches := PurgeCaches (db_caches db), db_derived := PurgeDerivedCaches (db_derived db)\<rparr>"

section \<open>Entries no older than a position\<close>

text \<open>
  \<open>as_of val lo hi L\<close>: everything the lookup \<open>L\<close> answers is the value the database had at some
  position between \<open>lo\<close> and \<open>hi\<close>. \<open>steady val K lo hi\<close>: outside the keys \<open>K\<close> the value does not
  change between the two positions.
\<close>

definition as_of :: "('k \<Rightarrow> int \<Rightarrow> 'v) \<Rightarrow> int \<Rightarrow> int \<Rightarrow> ('k \<Rightarrow> 'v option) \<Rightarrow> bool" where
  "as_of val lo hi L \<longleftrightarrow> (\<forall>k v. L k = Some v \<longrightarrow> (\<exists>t. lo \<le> t \<and> t \<le> hi \<and> v = val k t))"

definition steady :: "('k \<Rightarrow> int \<Rightarrow> 'v) \<Rightarrow> 'k set \<Rightarrow> int \<Rightarrow> int \<Rightarrow> bool" where
  "steady val K lo hi \<longleftrightarrow> (\<forall>k t. k \<notin> K \<longrightarrow> lo \<le> t \<longrightarrow> t \<le> hi \<longrightarrow> val k t = val k hi)"

lemma steadyD: "steady val K lo hi \<Longrightarrow> k \<notin> K \<Longrightarrow> lo \<le> t \<Longrightarrow> t \<le> hi \<Longrightarrow> val k t = val k hi"
  unfolding steady_def by blast

lemma as_of_empty: "(\<And>k. L k = None) \<Longrightarrow> as_of val lo hi L"
  by (simp add: as_of_def)

lemma as_of_later: "as_of val lo hi L \<Longrightarrow> hi \<le> hi' \<Longrightarrow> as_of val lo hi' L"
  by (fastforce simp: as_of_def)

lemma as_of_shrink: "as_of val lo hi L \<Longrightarrow> (\<And>k v. L' k = Some v \<Longrightarrow> L k = Some v) \<Longrightarrow> as_of val lo hi L'"
  by (force simp: as_of_def)

lemma as_of_fill:
  assumes "as_of val lo hi L" and "lo \<le> hi" and "\<And>k v. L' k = Some v \<Longrightarrow> L k = Some v \<or> v = val k hi"
  shows "as_of val lo hi L'"
  using assms by (fastforce simp: as_of_def)

lemma as_of_raise:
  assumes "as_of val lo hi L" and "steady val K lo lo'" and "lo' \<le> hi"
    and "\<And>k v. L' k = Some v \<Longrightarrow> L k = Some v \<and> k \<notin> K"
  shows "as_of val lo' hi L'"
  unfolding as_of_def
proof (intro allI impI)
  fix k v
  assume "L' k = Some v"
  with assms(4) have kv: "L k = Some v" "k \<notin> K" by auto
  with assms(1) obtain t where t: "lo \<le> t" "t \<le> hi" "v = val k t" by (auto simp: as_of_def)
  show "\<exists>t. lo' \<le> t \<and> t \<le> hi \<and> v = val k t"
  proof (cases "lo' \<le> t")
    case True
    with t show ?thesis by blast
  next
    case False
    then have "t \<le> lo'" by simp
    from steadyD [OF assms(2) kv(2) t(1) this] t(3) assms(3) show ?thesis by auto
  qed
qed

section \<open>The invariant of the guarded caches\<close>

text \<open>What uncached queries return, by stream position: of the events stream for the first three,
  of the account data stream for the last. A room list is asked for with a set of memberships.\<close>

record history =
  hs_summary :: "string \<Rightarrow> int \<Rightarrow> MemberSummary"
  hs_vis :: "string \<Rightarrow> int \<Rightarrow> string"
  hs_rooms :: "string \<times> string \<Rightarrow> int \<Rightarrow> RoomForUser list"
  hs_ignored :: "string \<Rightarrow> int \<Rightarrow> string set option"

definition rfu_lookup :: "derivedCaches \<Rightarrow> string \<times> string \<Rightarrow> RoomForUser list option" where
  "rfu_lookup d us = Option.bind (lru_lookup (dc_roomsForUser d) (fst us)) (\<lambda>m. mget m (snd us))"

abbreviation dc_at :: "derivedCaches \<Rightarrow> string \<Rightarrow> int" where
  "dc_at d stream \<equiv> mgetz 0 (dc_applied d) stream"

definition dc_fine :: "derivedCaches \<Rightarrow> bool" where
  "dc_fine d \<longleftrightarrow> lru_ok (dc_roomSummary d) \<and> lru_ok (dc_historyVis d) \<and> lru_ok (dc_roomsForUser d) \<and> lru_ok (dc_ignoredUsers d)"

text \<open>
  \<open>drops R U A d d'\<close>: \<open>d'\<close> answers no more than \<open>d\<close>, nothing about the rooms \<open>R\<close>, no room list of the
  users \<open>U\<close> and no ignore list of the users \<open>A\<close>.
\<close>

definition drops :: "string set \<Rightarrow> string set \<Rightarrow> string set \<Rightarrow> derivedCaches \<Rightarrow> derivedCaches \<Rightarrow> bool" where
  "drops R U A d d' \<longleftrightarrow> dc_armed d' = dc_armed d \<and> (dc_fine d \<longrightarrow> dc_fine d' \<and>
     (\<forall>k v. lru_lookup (dc_roomSummary d') k = Some v \<longrightarrow> lru_lookup (dc_roomSummary d) k = Some v \<and> k \<notin> R) \<and>
     (\<forall>k v. lru_lookup (dc_historyVis d') k = Some v \<longrightarrow> lru_lookup (dc_historyVis d) k = Some v \<and> k \<notin> R) \<and>
     (\<forall>k v. lru_lookup (dc_roomsForUser d') k = Some v \<longrightarrow> lru_lookup (dc_roomsForUser d) k = Some v \<and> k \<notin> U) \<and>
     (\<forall>k v. lru_lookup (dc_ignoredUsers d') k = Some v \<longrightarrow> lru_lookup (dc_ignoredUsers d) k = Some v \<and> k \<notin> A))"

lemma drops_refl: "drops {} {} {} d d"
  by (simp add: drops_def)

lemma drops_trans: "drops R U A d d' \<Longrightarrow> drops R' U' A' d' d'' \<Longrightarrow> drops (R \<union> R') (U \<union> U') (A \<union> A') d d''"
  by (auto simp: drops_def)

lemma drops_applied: "drops {} {} {} d (d\<lparr>dc_applied := a\<rparr>)"
  by (simp add: drops_def dc_fine_def)

lemma drops_InvalidateRoom:
  "\<exists>d'. InvalidateRoom (Some d) r = Some d' \<and> dc_applied d' = dc_applied d \<and> drops ({r} - {[]}) {} {} d d'"
  by (auto simp: InvalidateRoom_def drops_def dc_fine_def lookup_Remove(1) dest: lookup_Remove(2))

lemma drops_InvalidateUserMembership:
  "\<exists>d'. InvalidateUserMembership (Some d) u = Some d' \<and> dc_applied d' = dc_applied d \<and> drops {} ({u} - {[]}) {} d d'"
  by (auto simp: InvalidateUserMembership_def drops_def dc_fine_def lookup_Remove(1) dest: lookup_Remove(2))

lemma drops_InvalidateUserAccountData:
  "\<exists>d'. InvalidateUserAccountData (Some d) u = Some d' \<and> dc_applied d' = dc_applied d \<and> drops {} {} ({u} - {[]}) d d'"
  by (auto simp: InvalidateUserAccountData_def drops_def dc_fine_def lookup_Remove(1) dest: lookup_Remove(2))

lemma drops_Purge:
  "\<exists>d'. PurgeDerivedCaches (Some d) = Some d' \<and> dc_applied d' = dc_applied d \<and> drops UNIV UNIV UNIV d d'"
  by (simp add: PurgeDerivedCaches_def drops_def dc_fine_def lookup_Purge)

lemma drops_Applied:
  "\<exists>d'. Applied (Some d) stream pos = Some d' \<and> drops {} {} {} d d' \<and> dc_at d' stream = (if 0 < pos then max pos (dc_at d stream) else dc_at d stream) \<and>
     (\<forall>s. s \<noteq> stream \<longrightarrow> dc_at d' s = dc_at d s)"
  by (auto simp: Applied_def drops_refl drops_applied)

lemma drops_fold:
  assumes "\<And>d k. \<exists>d'. f k (Some d) = Some d' \<and> dc_applied d' = dc_applied d \<and> drops (R k) (U k) (A k) d d'"
  shows "\<exists>d'. fold f ks (Some d) = Some d' \<and> dc_applied d' = dc_applied d \<and>
    drops (\<Union> (R ` set ks)) (\<Union> (U ` set ks)) (\<Union> (A ` set ks)) d d'"
proof (induction ks arbitrary: d)
  case Nil
  then show ?case by (simp add: drops_refl)
next
  case (Cons k ks)
  from assms [of k d] obtain d1 where d1: "f k (Some d) = Some d1" "dc_applied d1 = dc_applied d" "drops (R k) (U k) (A k) d d1" by blast
  from Cons.IH [of d1] obtain d2 where d2: "fold f ks (Some d1) = Some d2" "dc_applied d2 = dc_applied d1"
    "drops (\<Union> (R ` set ks)) (\<Union> (U ` set ks)) (\<Union> (A ` set ks)) d1 d2" by blast
  from drops_trans [OF d1(3) d2(3)] d1 d2 show ?case by simp
qed

subsection \<open>Rows\<close>

definition row_rooms :: "RowDetail \<Rightarrow> string set" where
  "row_rooms r = set (rd_RoomIDs r) - {[]}"

definition row_members :: "RowDetail \<Rightarrow> string set" where
  "row_members r = (if rd_Type r = ''m.room.member'' then {rd_StateKey r} - {[]} else {})"

definition row_users :: "RowDetail \<Rightarrow> string set" where
  "row_users r = set (rd_UserIDs r) - {[]}"

lemma events_row:
  assumes "db_derived db = Some d"
  shows "\<exists>d'. db_derived (OnRow db ''events'' pos r) = Some d' \<and> drops (row_rooms r) (row_members r) {} d d' \<and>
    dc_at d' ''events'' = (if 0 < pos then max pos (dc_at d ''events'') else dc_at d ''events'') \<and>
    dc_at d' ''account_data'' = dc_at d ''account_data''"
proof -
  from drops_fold [of "\<lambda>r p. InvalidateRoom p r" "\<lambda>r. {r} - {[]}" "\<lambda>_. {}" "\<lambda>_. {}" "rd_RoomIDs r" d, OF drops_InvalidateRoom]
  obtain d1 where d1: "fold (\<lambda>r p. InvalidateRoom p r) (rd_RoomIDs r) (Some d) = Some d1" "dc_applied d1 = dc_applied d"
    "drops (row_rooms r) {} {} d d1" by (auto simp: row_rooms_def image_UN UN_extend_simps)
  obtain d2 where d2: "(if rd_Type r = ''m.room.member'' \<and> rd_StateKey r \<noteq> [] then InvalidateUserMembership (Some d1) (rd_StateKey r) else Some d1) = Some d2"
    "dc_applied d2 = dc_applied d1" "drops {} (row_members r) {} d1 d2"
    using drops_InvalidateUserMembership [of d1 "rd_StateKey r"] drops_refl [of d1]
    by (cases "rd_Type r = ''m.room.member'' \<and> rd_StateKey r \<noteq> []") (auto simp: row_members_def)
  from drops_Applied [of d2 "''events''" pos] obtain d3 where d3: "Applied (Some d2) ''events'' pos = Some d3"
    "drops {} {} {} d2 d3" "dc_at d3 ''events'' = (if 0 < pos then max pos (dc_at d2 ''events'') else dc_at d2 ''events'')"
    "\<forall>s. s \<noteq> ''events'' \<longrightarrow> dc_at d3 s = dc_at d2 s" by blast
  have "db_derived (OnRow db ''events'' pos r) = Some d3"
    using assms d1(1) d2(1) d3(1) by (auto simp: OnRow_def Let_def split: if_splits)
  with drops_trans [OF d1(3) drops_trans [OF d2(3) d3(2)]] d3(3,4) d1(2) d2(2) show ?thesis by simp
qed

lemma account_row:
  assumes "db_derived db = Some d"
  shows "\<exists>d'. db_derived (OnRow db ''account_data'' pos r) = Some d' \<and> drops {} {} (row_users r) d d' \<and>
    dc_at d' ''account_data'' = (if 0 < pos then max pos (dc_at d ''account_data'') else dc_at d ''account_data'') \<and>
    dc_at d' ''events'' = dc_at d ''events''"
proof -
  from drops_fold [of "\<lambda>u p. InvalidateUserAccountData p u" "\<lambda>_. {}" "\<lambda>_. {}" "\<lambda>u. {u} - {[]}" "rd_UserIDs r" d, OF drops_InvalidateUserAccountData]
  obtain d1 where d1: "fold (\<lambda>u p. InvalidateUserAccountData p u) (rd_UserIDs r) (Some d) = Some d1" "dc_applied d1 = dc_applied d"
    "drops {} {} (row_users r) d d1" by (auto simp: row_users_def image_UN UN_extend_simps)
  from drops_Applied [of d1 "''account_data''" pos] obtain d3 where d3: "Applied (Some d1) ''account_data'' pos = Some d3"
    "drops {} {} {} d1 d3" "dc_at d3 ''account_data'' = (if 0 < pos then max pos (dc_at d1 ''account_data'') else dc_at d1 ''account_data'')"
    "\<forall>s. s \<noteq> ''account_data'' \<longrightarrow> dc_at d3 s = dc_at d1 s" by blast
  have "db_derived (OnRow db ''account_data'' pos r) = Some d3"
    using assms d1(1) d3(1) by (simp add: OnRow_def Let_def)
  with drops_trans [OF d1(3) d3(2)] d3(3,4) d1(2) show ?thesis by simp
qed

lemma events_rows:
  assumes "db_derived db = Some d"
  shows "\<exists>d'. db_derived (fold (\<lambda>r db. OnRow db ''events'' pos r) rows db) = Some d' \<and>
    drops (\<Union> (row_rooms ` set rows)) (\<Union> (row_members ` set rows)) {} d d' \<and>
    dc_at d' ''events'' = (if rows \<noteq> [] \<and> 0 < pos then max pos (dc_at d ''events'') else dc_at d ''events'') \<and>
    dc_at d' ''account_data'' = dc_at d ''account_data''"
  using assms
proof (induction rows arbitrary: db d)
  case Nil
  then show ?case by (simp add: drops_refl)
next
  case (Cons r rows)
  from events_row [OF Cons.prems, of pos r] obtain d1 where d1: "db_derived (OnRow db ''events'' pos r) = Some d1"
    "drops (row_rooms r) (row_members r) {} d d1"
    "dc_at d1 ''events'' = (if 0 < pos then max pos (dc_at d ''events'') else dc_at d ''events'')"
    "dc_at d1 ''account_data'' = dc_at d ''account_data''" by blast
  from Cons.IH [OF d1(1)] obtain d2 where d2: "db_derived (fold (\<lambda>r db. OnRow db ''events'' pos r) rows (OnRow db ''events'' pos r)) = Some d2"
    "drops (\<Union> (row_rooms ` set rows)) (\<Union> (row_members ` set rows)) {} d1 d2"
    "dc_at d2 ''events'' = (if rows \<noteq> [] \<and> 0 < pos then max pos (dc_at d1 ''events'') else dc_at d1 ''events'')"
    "dc_at d2 ''account_data'' = dc_at d1 ''account_data''" by blast
  from drops_trans [OF d1(2) d2(2)] d1 d2 show ?case by auto
qed

lemma account_rows:
  assumes "db_derived db = Some d"
  shows "\<exists>d'. db_derived (fold (\<lambda>r db. OnRow db ''account_data'' pos r) rows db) = Some d' \<and>
    drops {} {} (\<Union> (row_users ` set rows)) d d' \<and>
    dc_at d' ''account_data'' = (if rows \<noteq> [] \<and> 0 < pos then max pos (dc_at d ''account_data'') else dc_at d ''account_data'') \<and>
    dc_at d' ''events'' = dc_at d ''events''"
  using assms
proof (induction rows arbitrary: db d)
  case Nil
  then show ?case by (simp add: drops_refl)
next
  case (Cons r rows)
  from account_row [OF Cons.prems, of pos r] obtain d1 where d1: "db_derived (OnRow db ''account_data'' pos r) = Some d1"
    "drops {} {} (row_users r) d d1"
    "dc_at d1 ''account_data'' = (if 0 < pos then max pos (dc_at d ''account_data'') else dc_at d ''account_data'')"
    "dc_at d1 ''events'' = dc_at d ''events''" by blast
  from Cons.IH [OF d1(1)] obtain d2 where d2: "db_derived (fold (\<lambda>r db. OnRow db ''account_data'' pos r) rows (OnRow db ''account_data'' pos r)) = Some d2"
    "drops {} {} (\<Union> (row_users ` set rows)) d1 d2"
    "dc_at d2 ''account_data'' = (if rows \<noteq> [] \<and> 0 < pos then max pos (dc_at d1 ''account_data'') else dc_at d1 ''account_data'')"
    "dc_at d2 ''events'' = dc_at d1 ''events''" by blast
  from drops_trans [OF d1(2) d2(2)] d1 d2 show ?case by auto
qed

subsection \<open>Lookups\<close>

text \<open>Selector and update of one field.\<close>

definition is_field :: "(derivedCaches \<Rightarrow> 'c) \<Rightarrow> (('c \<Rightarrow> 'c) \<Rightarrow> derivedCaches \<Rightarrow> derivedCaches) \<Rightarrow> bool" where
  "is_field get upd \<longleftrightarrow> (\<forall>f d. get (upd f d) = f (get d)) \<and> (\<forall>f g d. upd f (upd g d) = upd (f \<circ> g) d) \<and>
     (\<forall>f d. upd f d = upd (\<lambda>_. f (get d)) d) \<and> (\<forall>d. upd (\<lambda>_. get d) d = d)"

lemma is_field_fields:
  "is_field dc_roomSummary dc_roomSummary_update" "is_field dc_historyVis dc_historyVis_update"
  "is_field dc_ignoredUsers dc_ignoredUsers_update" "is_field dc_roomsForUser dc_roomsForUser_update"
  by (simp_all add: is_field_def)

lemma guarded_begin_field:
  assumes "is_field get upd" and "lru_ok (get d)"
  shows "\<exists>c'. guarded_begin get upd (Some d) ctx stream key =
      (Some (upd (\<lambda>_. c') d), fresh (Some d) ctx stream, if fresh (Some d) ctx stream then lru_lookup (get d) key else None) \<and>
    lru_ok c' \<and> (\<forall>k v. lru_lookup c' k = Some v \<longrightarrow> lru_lookup (get d) k = Some v)"
proof (cases "fresh (Some d) ctx stream")
  case True
  have "guarded_begin get upd (Some d) ctx stream key = (Some (upd (\<lambda>_. fst (lru_Get (get d) key)) d), True, lru_lookup (get d) key)"
    using True by (simp add: guarded_begin_def lru_lookup_def split: prod.split)
  with True lookup_Get [OF assms(2)] show ?thesis by auto
next
  case False
  moreover have "upd (\<lambda>_. get d) d = d" using assms(1) by (simp add: is_field_def)
  ultimately show ?thesis using assms(2) by (intro exI [of _ "get d"]) (simp add: guarded_begin_def)
qed

lemma guarded_lookup_field:
  assumes "is_field get upd" and "lru_ok (get d)"
  shows "\<exists>c'. guarded_lookup get upd (Some d) ctx stream query key = (Some (upd (\<lambda>_. c') d),
      case (if fresh (Some d) ctx stream then lru_lookup (get d) key else None) of Some v \<Rightarrow> Inr v | None \<Rightarrow> query key) \<and>
    lru_ok c' \<and> (\<forall>k v. lru_lookup c' k = Some v \<longrightarrow>
      lru_lookup (get d) k = Some v \<or> (fresh (Some d) ctx stream \<and> k = key \<and> query key = Inr v))"
proof -
  from guarded_begin_field [OF assms, of ctx stream key] obtain c1 where
    c1: "guarded_begin get upd (Some d) ctx stream key =
      (Some (upd (\<lambda>_. c1) d), fresh (Some d) ctx stream, if fresh (Some d) ctx stream then lru_lookup (get d) key else None)"
    "lru_ok c1" "\<forall>k v. lru_lookup c1 k = Some v \<longrightarrow> lru_lookup (get d) k = Some v" by blast
  show ?thesis
  proof (cases "if fresh (Some d) ctx stream then lru_lookup (get d) key else None")
    case (Some v)
    with c1 show ?thesis by (intro exI [of _ c1]) (simp add: guarded_lookup_def)
  next
    case None
    show ?thesis
    proof (cases "query key")
      case (Inl e)
      with c1 None show ?thesis by (intro exI [of _ c1]) (simp add: guarded_lookup_def)
    next
      case (Inr v)
      let ?c = "if fresh (Some d) ctx stream then lru_Add c1 key v else c1"
      have "upd (\<lambda>c. lru_Add c key v) (upd (\<lambda>_. c1) d) = upd (\<lambda>_. lru_Add c1 key v) d"
        using assms(1) by (auto simp: is_field_def comp_def)
      with c1(1) None Inr have "guarded_lookup get upd (Some d) ctx stream query key = (Some (upd (\<lambda>_. ?c) d), Inr v)"
        by (simp add: guarded_lookup_def guarded_end_def)
      moreover have "lru_ok ?c" using c1(2) by (simp add: lookup_Add(1))
      ultimately show ?thesis using None Inr c1(3) lookup_Add(2) [OF c1(2), of key v]
        by (intro exI [of _ ?c]) (fastforce split: if_splits)
    qed
  qed
qed

lemma addRoomsForUser_field:
  assumes "lru_ok (dc_roomsForUser d)"
  shows "\<exists>c'. addRoomsForUser d u s rooms = d\<lparr>dc_roomsForUser := c'\<rparr> \<and> lru_ok c' \<and>
    (\<forall>k v. rfu_lookup (d\<lparr>dc_roomsForUser := c'\<rparr>) k = Some v \<longrightarrow> rfu_lookup d k = Some v \<or> (k = (u, s) \<and> v = rooms))"
proof -
  let ?g = "lru_Get (dc_roomsForUser d) u"
  let ?old = "case snd ?g of Some m \<Rightarrow> m | None \<Rightarrow> []"
  let ?c = "lru_Add (fst ?g) u (mput s rooms ?old)"
  note get = lookup_Get [OF assms, of u]
  have "addRoomsForUser d u s rooms = d\<lparr>dc_roomsForUser := ?c\<rparr>"
    by (simp add: addRoomsForUser_def Let_def split: prod.split)
  moreover have "lru_ok ?c" using get(1) by (rule lookup_Add(1))
  moreover have "rfu_lookup d k = Some v \<or> (k = (u, s) \<and> v = rooms)"
    if new: "rfu_lookup (d\<lparr>dc_roomsForUser := ?c\<rparr>) k = Some v" for k v
  proof -
    obtain u' s' where k: "k = (u', s')" by fastforce
    from new k obtain m where m: "lru_lookup ?c u' = Some m" "mget m s' = Some v"
      by (auto simp: rfu_lookup_def bind_eq_Some_conv)
    from lookup_Add(2) [OF get(1) m(1)] consider (new) "u' = u" "m = mput s rooms ?old"
      | (old) "lru_lookup (fst ?g) u' = Some m" by blast
    then show ?thesis
    proof cases
      case new
      show ?thesis
      proof (cases "s' = s")
        case True
        with new m(2) k show ?thesis by simp
      next
        case False
        with new m(2) have "mget ?old s' = Some v" by simp
        then have "\<exists>m. snd ?g = Some m \<and> mget m s' = Some v" by (cases "snd ?g") auto
        with new k show ?thesis by (auto simp: rfu_lookup_def lru_lookup_def)
      qed
    next
      case old
      with get(2) m(2) k show ?thesis by (auto simp: rfu_lookup_def)
    qed
  qed
  ultimately show ?thesis by blast
qed

lemma RoomsForUser_field:
  assumes "lru_ok (dc_roomsForUser d)"
  shows "\<exists>c'. RoomsForUser (Some d) ctx query u ms = (Some (d\<lparr>dc_roomsForUser := c'\<rparr>),
      case (if fresh (Some d) ctx ''events'' then rfu_lookup d (u, membership_set ms) else None) of
        Some v \<Rightarrow> Inr v | None \<Rightarrow> query u ms) \<and>
    lru_ok c' \<and> (\<forall>k v. rfu_lookup (d\<lparr>dc_roomsForUser := c'\<rparr>) k = Some v \<longrightarrow>
      rfu_lookup d k = Some v \<or> (fresh (Some d) ctx ''events'' \<and> k = (u, membership_set ms) \<and> query u ms = Inr v))"
proof -
  let ?s = "membership_set ms" and ?fresh = "fresh (Some d) ctx ''events''"
  from guarded_begin_field [OF is_field_fields(4) assms, of ctx "''events''" u] obtain c1 where
    c1: "guarded_begin dc_roomsForUser dc_roomsForUser_update (Some d) ctx ''events'' u =
      (Some (d\<lparr>dc_roomsForUser := c1\<rparr>), ?fresh, if ?fresh then lru_lookup (dc_roomsForUser d) u else None)"
    "lru_ok c1" "\<forall>k v. lru_lookup c1 k = Some v \<longrightarrow> lru_lookup (dc_roomsForUser d) k = Some v" by blast
  let ?d = "d\<lparr>dc_roomsForUser := c1\<rparr>"
  have less: "rfu_lookup ?d k = Some v \<Longrightarrow> rfu_lookup d k = Some v" for k v
    using c1(3) by (auto simp: rfu_lookup_def bind_eq_Some_conv)
  have found: "Option.bind (if ?fresh then lru_lookup (dc_roomsForUser d) u else None) (\<lambda>m. mget m ?s)
      = (if ?fresh then rfu_lookup d (u, ?s) else None)"
    by (simp add: rfu_lookup_def)
  show ?thesis
  proof (cases "if ?fresh then rfu_lookup d (u, ?s) else None")
    case (Some v)
    with c1 found less show ?thesis by (intro exI [of _ c1]) (simp add: RoomsForUser_def)
  next
    case None
    show ?thesis
    proof (cases "query u ms")
      case (Inl e)
      with c1 found None less show ?thesis by (intro exI [of _ c1]) (simp add: RoomsForUser_def)
    next
      case (Inr rooms)
      from addRoomsForUser_field [of ?d u ?s rooms] c1(2) obtain c2 where
        c2: "addRoomsForUser ?d u ?s rooms = d\<lparr>dc_roomsForUser := c2\<rparr>" "lru_ok c2"
        "\<forall>k v. rfu_lookup (d\<lparr>dc_roomsForUser := c2\<rparr>) k = Some v \<longrightarrow> rfu_lookup ?d k = Some v \<or> (k = (u, ?s) \<and> v = rooms)"
        by auto
      let ?c = "if ?fresh then c2 else c1"
      have "RoomsForUser (Some d) ctx query u ms = (Some (d\<lparr>dc_roomsForUser := ?c\<rparr>), Inr rooms)"
        using c1(1) found None Inr c2(1) by (simp add: RoomsForUser_def)
      moreover have "\<forall>k v. rfu_lookup (d\<lparr>dc_roomsForUser := ?c\<rparr>) k = Some v \<longrightarrow>
          rfu_lookup d k = Some v \<or> (?fresh \<and> k = (u, ?s) \<and> rooms = v)"
        using c2(3) less by (cases ?fresh) (simp, blast, simp)
      ultimately show ?thesis using None Inr c1(2) c2(2) by (intro exI [of _ ?c]) (cases ?fresh; simp)
    qed
  qed
qed

subsection \<open>The invariant\<close>

definition dc_current :: "history \<Rightarrow> int \<Rightarrow> int \<Rightarrow> derivedCaches \<Rightarrow> bool" where
  "dc_current H cur curA d \<longleftrightarrow> dc_at d ''events'' \<le> cur \<and> dc_at d ''account_data'' \<le> curA \<and>
     as_of (hs_summary H) (dc_at d ''events'') cur (lru_lookup (dc_roomSummary d)) \<and>
     as_of (hs_vis H) (dc_at d ''events'') cur (lru_lookup (dc_historyVis d)) \<and>
     as_of (hs_rooms H) (dc_at d ''events'') cur (rfu_lookup d) \<and>
     as_of (hs_ignored H) (dc_at d ''account_data'') curA (lru_lookup (dc_ignoredUsers d))"

definition dc_silent :: "derivedCaches \<Rightarrow> bool" where
  "dc_silent d \<longleftrightarrow> (\<forall>k. lru_lookup (dc_roomSummary d) k = None) \<and> (\<forall>k. lru_lookup (dc_historyVis d) k = None) \<and>
     (\<forall>k. rfu_lookup d k = None) \<and> (\<forall>k. lru_lookup (dc_ignoredUsers d) k = None)"

definition dc_inv :: "history \<Rightarrow> int \<Rightarrow> int \<Rightarrow> derivedCaches \<Rightarrow> bool" where
  "dc_inv H cur curA d \<longleftrightarrow> dc_fine d \<and> (if dc_armed d then dc_current H cur curA d else dc_silent d)"

lemma steady_refl: "steady val K lo lo"
  by (auto simp: steady_def dest: order.antisym)

lemma dc_inv_drops:
  assumes "dc_inv H cur curA d" and "drops R U A d d'"
    and "dc_at d' ''events'' \<le> cur" and "dc_at d' ''account_data'' \<le> curA"
    and "steady (hs_summary H) R (dc_at d ''events'') (dc_at d' ''events'')"
    and "steady (hs_vis H) R (dc_at d ''events'') (dc_at d' ''events'')"
    and "steady (hs_rooms H) (U \<times> UNIV) (dc_at d ''events'') (dc_at d' ''events'')"
    and "steady (hs_ignored H) A (dc_at d ''account_data'') (dc_at d' ''account_data'')"
  shows "dc_inv H cur curA d'"
proof -
  have fine: "dc_fine d" using assms(1) by (simp add: dc_inv_def)
  from assms(2) fine have dr: "dc_armed d' = dc_armed d" "dc_fine d'"
    "\<And>k v. lru_lookup (dc_roomSummary d') k = Some v \<Longrightarrow> lru_lookup (dc_roomSummary d) k = Some v \<and> k \<notin> R"
    "\<And>k v. lru_lookup (dc_historyVis d') k = Some v \<Longrightarrow> lru_lookup (dc_historyVis d) k = Some v \<and> k \<notin> R"
    "\<And>k v. lru_lookup (dc_roomsForUser d') k = Some v \<Longrightarrow> lru_lookup (dc_roomsForUser d) k = Some v \<and> k \<notin> U"
    "\<And>k v. lru_lookup (dc_ignoredUsers d') k = Some v \<Longrightarrow> lru_lookup (dc_ignoredUsers d) k = Some v \<and> k \<notin> A"
    by (simp_all add: drops_def)
  have rfu: "rfu_lookup d' k = Some v \<Longrightarrow> rfu_lookup d k = Some v \<and> k \<notin> U \<times> UNIV" for k v
    using dr(5) by (fastforce simp: rfu_lookup_def bind_eq_Some_conv)
  show ?thesis
  proof (cases "dc_armed d")
    case True
    with assms(1) have cur: "dc_current H cur curA d" by (simp add: dc_inv_def)
    have "dc_current H cur curA d'"
      using cur assms(3,4) as_of_raise [OF _ assms(5) assms(3) dr(3)] as_of_raise [OF _ assms(6) assms(3) dr(4)]
        as_of_raise [OF _ assms(7) assms(3) rfu] as_of_raise [OF _ assms(8) assms(4) dr(6)]
      unfolding dc_current_def by blast
    with True dr(1,2) show ?thesis by (simp add: dc_inv_def)
  next
    case False
    with assms(1) have "dc_silent d" by (simp add: dc_inv_def)
    then have "dc_silent d'" using dr(3,4,6) rfu unfolding dc_silent_def by (metis not_None_eq)
    with False dr(1,2) show ?thesis by (simp add: dc_inv_def)
  qed
qed

lemma fresh_armed: "fresh (Some d) ctx stream \<Longrightarrow> dc_armed d"
  by (auto simp: fresh_def split: option.splits if_splits)

text \<open>A field that only gained the current value, and only while armed.\<close>

definition gains :: "('k \<Rightarrow> int \<Rightarrow> 'v) \<Rightarrow> int \<Rightarrow> bool \<Rightarrow> ('k \<Rightarrow> 'v option) \<Rightarrow> ('k \<Rightarrow> 'v option) \<Rightarrow> bool" where
  "gains val hi on L L' \<longleftrightarrow> (\<forall>k v. L' k = Some v \<longrightarrow> L k = Some v \<or> (on \<and> v = val k hi))"

lemma gains_current: "gains val hi on L L' \<Longrightarrow> as_of val lo hi L \<Longrightarrow> lo \<le> hi \<Longrightarrow> as_of val lo hi L'"
  unfolding gains_def as_of_def by blast

lemma gains_silent: "gains val hi False L L' \<Longrightarrow> (\<And>k. L k = None) \<Longrightarrow> L' k = None"
  unfolding gains_def by (metis not_None_eq)

lemmas dc_inv_fields = dc_inv_def dc_current_def dc_silent_def dc_fine_def rfu_lookup_def [abs_def]

lemma dc_inv_fill_summary:
  "dc_inv H cur curA d \<Longrightarrow> lru_ok c \<Longrightarrow>
    gains (hs_summary H) cur (dc_armed d) (lru_lookup (dc_roomSummary d)) (lru_lookup c) \<Longrightarrow> dc_inv H cur curA (d\<lparr>dc_roomSummary := c\<rparr>)"
  using gains_current [of "hs_summary H" cur True _ "lru_lookup c"] gains_silent [of "hs_summary H" cur _ "lru_lookup c"]
  by (cases "dc_armed d") (auto simp: dc_inv_fields)

lemma dc_inv_fill_vis:
  "dc_inv H cur curA d \<Longrightarrow> lru_ok c \<Longrightarrow>
    gains (hs_vis H) cur (dc_armed d) (lru_lookup (dc_historyVis d)) (lru_lookup c) \<Longrightarrow> dc_inv H cur curA (d\<lparr>dc_historyVis := c\<rparr>)"
  using gains_current [of "hs_vis H" cur True _ "lru_lookup c"] gains_silent [of "hs_vis H" cur _ "lru_lookup c"]
  by (cases "dc_armed d") (auto simp: dc_inv_fields)

lemma dc_inv_fill_ignored:
  "dc_inv H cur curA d \<Longrightarrow> lru_ok c \<Longrightarrow>
    gains (hs_ignored H) curA (dc_armed d) (lru_lookup (dc_ignoredUsers d)) (lru_lookup c) \<Longrightarrow> dc_inv H cur curA (d\<lparr>dc_ignoredUsers := c\<rparr>)"
  using gains_current [of "hs_ignored H" curA True _ "lru_lookup c"] gains_silent [of "hs_ignored H" curA _ "lru_lookup c"]
  by (cases "dc_armed d") (auto simp: dc_inv_fields)

lemma dc_inv_fill_rooms:
  "dc_inv H cur curA d \<Longrightarrow> lru_ok c \<Longrightarrow>
    gains (hs_rooms H) cur (dc_armed d) (rfu_lookup d) (rfu_lookup (d\<lparr>dc_roomsForUser := c\<rparr>)) \<Longrightarrow>
    dc_inv H cur curA (d\<lparr>dc_roomsForUser := c\<rparr>)"
  using gains_current [of "hs_rooms H" cur True "rfu_lookup d" "rfu_lookup (d\<lparr>dc_roomsForUser := c\<rparr>)"]
    gains_silent [of "hs_rooms H" cur "rfu_lookup d" "rfu_lookup (d\<lparr>dc_roomsForUser := c\<rparr>)"]
  by (cases "dc_armed d") (simp_all add: dc_inv_def dc_current_def dc_silent_def dc_fine_def del: split_paired_All)

subsection \<open>Histories of the store\<close>

text \<open>
  \<open>dc_reach H cur curA db\<close>: the store \<open>db\<close> can be what the worker holds when the database has
  reached the positions \<open>cur\<close> and \<open>curA\<close> and its past is \<open>H\<close>. Rows name what changed: a batch applied
  at \<open>pos\<close> names every room, member and user whose answer moved since the applied position. A
  lookup is one step here; arming happens on a store that is not armed, at positions the
  database has reached.
\<close>

definition names_event_changes :: "history \<Rightarrow> RowDetail list \<Rightarrow> int \<Rightarrow> int \<Rightarrow> bool" where
  "names_event_changes H rows lo hi \<longleftrightarrow>
     steady (hs_summary H) (\<Union> (row_rooms ` set rows)) lo hi \<and> steady (hs_vis H) (\<Union> (row_rooms ` set rows)) lo hi \<and>
     steady (hs_rooms H) (\<Union> (row_members ` set rows) \<times> UNIV) lo hi"

definition answers :: "('k \<Rightarrow> int \<Rightarrow> 'v) \<Rightarrow> int \<Rightarrow> ('k \<Rightarrow> string + 'v) \<Rightarrow> bool" where
  "answers val cur q \<longleftrightarrow> (\<forall>k v. q k = Inr v \<longrightarrow> v = val k cur)"

inductive dc_reach :: "history \<Rightarrow> int \<Rightarrow> int \<Rightarrow> store \<Rightarrow> bool" for H where
  new: "dc_reach H cur curA \<lparr>db_caches = cs, db_derived = Some (newDerivedCaches cfg), db_streams = s\<rparr>"
| commit: "dc_reach H cur curA db \<Longrightarrow> cur \<le> cur' \<Longrightarrow> curA \<le> curA' \<Longrightarrow> dc_reach H cur' curA' db"
| events: "dc_reach H cur curA db \<Longrightarrow> pos \<le> cur \<Longrightarrow> rows \<noteq> [] \<Longrightarrow> db_derived db = Some d \<Longrightarrow>
    names_event_changes H rows (dc_at d ''events'') pos \<Longrightarrow>
    dc_reach H cur curA (fold (\<lambda>r db. OnRow db ''events'' pos r) rows db)"
| account: "dc_reach H cur curA db \<Longrightarrow> pos \<le> curA \<Longrightarrow> rows \<noteq> [] \<Longrightarrow> db_derived db = Some d \<Longrightarrow>
    steady (hs_ignored H) (\<Union> (row_users ` set rows)) (dc_at d ''account_data'') pos \<Longrightarrow>
    dc_reach H cur curA (fold (\<lambda>r db. OnRow db ''account_data'' pos r) rows db)"
| room: "dc_reach H cur curA db \<Longrightarrow> dc_reach H cur curA (OnRoomInvalidated db roomID)"
| purge: "dc_reach H cur curA db \<Longrightarrow> dc_reach H cur curA (OnPurge db)"
| disarm: "dc_reach H cur curA db \<Longrightarrow> dc_reach H cur curA (db\<lparr>db_derived := DisarmDerivedCaches (db_derived db)\<rparr>)"
| arm: "dc_reach H cur curA db \<Longrightarrow> db_derived db = Some d \<Longrightarrow> \<not> dc_armed d \<Longrightarrow>
    ArmDerivedCaches (Some d) positions = Some d' \<Longrightarrow> dc_at d' ''events'' \<le> cur \<Longrightarrow> dc_at d' ''account_data'' \<le> curA \<Longrightarrow>
    dc_reach H cur curA (db\<lparr>db_derived := Some d'\<rparr>)"
| summary: "dc_reach H cur curA db \<Longrightarrow> answers (hs_summary H) cur q \<Longrightarrow>
    dc_reach H cur curA (db\<lparr>db_derived := fst (RoomSummary (db_derived db) ctx q roomID)\<rparr>)"
| vis: "dc_reach H cur curA db \<Longrightarrow> answers (hs_vis H) cur q \<Longrightarrow>
    dc_reach H cur curA (db\<lparr>db_derived := fst (HistoryVisibility (db_derived db) ctx q roomID)\<rparr>)"
| ignored: "dc_reach H cur curA db \<Longrightarrow> answers (hs_ignored H) curA q \<Longrightarrow>
    dc_reach H cur curA (db\<lparr>db_derived := fst (IgnoredUsers (db_derived db) ctx q userID)\<rparr>)"
| rooms: "dc_reach H cur curA db \<Longrightarrow> answers (\<lambda>(u, ms). hs_rooms H (u, membership_set ms)) cur (\<lambda>(u, ms). q u ms) \<Longrightarrow>
    dc_reach H cur curA (db\<lparr>db_derived := fst (RoomsForUser (db_derived db) ctx q userID memberships)\<rparr>)"
| streams: "dc_reach H cur curA db \<Longrightarrow> dc_reach H cur curA (db\<lparr>db_streams := s\<rparr>)"

lemma dc_inv_still: "dc_inv H cur curA d \<Longrightarrow> drops R U A d d' \<Longrightarrow> dc_applied d' = dc_applied d \<Longrightarrow> dc_inv H cur curA d'"
proof (cases "dc_armed d")
  case True
  assume *: "dc_inv H cur curA d" "drops R U A d d'" "dc_applied d' = dc_applied d"
  with True have "dc_at d' ''events'' \<le> cur" "dc_at d' ''account_data'' \<le> curA" by (simp_all add: dc_inv_def dc_current_def)
  with * show ?thesis using dc_inv_drops [OF *(1,2)] by (simp add: steady_refl)
next
  case False
  assume *: "dc_inv H cur curA d" "drops R U A d d'" "dc_applied d' = dc_applied d"
  have "dc_inv H (max cur (dc_at d ''events'')) (max curA (dc_at d ''account_data'')) d" using *(1) False by (simp add: dc_inv_def)
  from dc_inv_drops [OF this *(2)] *(3) have "dc_inv H (max cur (dc_at d ''events'')) (max curA (dc_at d ''account_data'')) d'"
    by (simp add: steady_refl)
  moreover have "\<not> dc_armed d'" using False *(2) by (simp add: drops_def)
  ultimately show ?thesis by (simp add: dc_inv_def)
qed

lemma dc_inv_silent_cur: "\<not> dc_armed d \<Longrightarrow> dc_inv H cur curA d = dc_inv H cur' curA' d"
  by (simp add: dc_inv_def)

lemma dc_inv_new: "dc_inv H cur curA (newDerivedCaches cfg)"
  by (simp add: dc_inv_fields newDerivedCaches_def lru_ok_def lru_lookup_def lru_Get_def) (simp add: lru_New_def)

lemma dc_inv_commit: "dc_inv H cur curA d \<Longrightarrow> cur \<le> cur' \<Longrightarrow> curA \<le> curA' \<Longrightarrow> dc_inv H cur' curA' d"
  by (auto simp: dc_inv_def dc_current_def intro: as_of_later)

lemma dc_inv_setArmed:
  assumes "dc_inv H cur curA d" and "\<not> dc_armed d \<or> \<not> b"
    and "dc_at d' ''events'' \<le> cur" and "dc_at d' ''account_data'' \<le> curA" and "d' = dc_setArmed (d\<lparr>dc_applied := a, dc_armed := b\<rparr>) b"
  shows "dc_inv H cur curA d'"
proof -
  have fine: "dc_fine d" using assms(1) by (simp add: dc_inv_def)
  then have "dc_fine d'" using assms(5) by (simp add: dc_fine_def dc_setArmed_def lookup_SetArmed(1))
  moreover have "dc_silent d'"
  proof -
    have was: "b \<Longrightarrow> dc_silent d" using assms(1,2) by (simp add: dc_inv_def)
    have gone: "lru_lookup (lru_SetArmed c b) k = None" if "lru_ok c" "b \<Longrightarrow> \<forall>k. lru_lookup c k = None" for c k
      using lookup_SetArmed(2) [OF that(1), of b k] that(2) by (cases "lru_lookup (lru_SetArmed c b) k") auto
    have "rfu_lookup d' k = None" for k
    proof (cases "rfu_lookup d' k")
      case (Some v)
      then obtain m where "lru_lookup (lru_SetArmed (dc_roomsForUser d) b) (fst k) = Some m" "mget m (snd k) = Some v"
        using assms(5) by (auto simp: rfu_lookup_def dc_setArmed_def bind_eq_Some_conv)
      with lookup_SetArmed(2) fine have "b" "rfu_lookup d k = Some v"
        unfolding dc_fine_def rfu_lookup_def by fastforce+
      with was show ?thesis by (simp add: dc_silent_def del: split_paired_All)
    qed simp
    moreover have "lru_lookup (dc_roomSummary d') k = None" "lru_lookup (dc_historyVis d') k = None"
      "lru_lookup (dc_ignoredUsers d') k = None" for k
      using fine was assms(5) by (simp_all add: dc_setArmed_def dc_fine_def dc_silent_def gone)
    ultimately show ?thesis by (simp add: dc_silent_def)
  qed
  ultimately show ?thesis using assms(3,4)
    by (auto simp: dc_inv_def dc_silent_def dc_current_def intro: as_of_empty)
qed

lemma dc_inv_rows_events:
  assumes "dc_inv H cur curA d" and "db_derived db = Some d" and "pos \<le> cur" and "rows \<noteq> []"
    and "names_event_changes H rows (dc_at d ''events'') pos"
  shows "\<exists>d'. db_derived (fold (\<lambda>r db. OnRow db ''events'' pos r) rows db) = Some d' \<and> dc_inv H cur curA d'"
proof -
  from events_rows [OF assms(2), of pos rows] obtain d' where
    d': "db_derived (fold (\<lambda>r db. OnRow db ''events'' pos r) rows db) = Some d'"
    "drops (\<Union> (row_rooms ` set rows)) (\<Union> (row_members ` set rows)) {} d d'"
    "dc_at d' ''events'' = (if 0 < pos then max pos (dc_at d ''events'') else dc_at d ''events'')"
    "dc_at d' ''account_data'' = dc_at d ''account_data''" using assms(4) by auto
  have "dc_inv H cur curA d'"
  proof (cases "dc_armed d")
    case False
    let ?c = "max cur (max (dc_at d ''events'') (dc_at d' ''events''))" and ?a = "max curA (dc_at d ''account_data'')"
    have "dc_inv H ?c ?a (d'\<lparr>dc_applied := dc_applied d\<rparr>)"
    proof (rule dc_inv_still [OF _ drops_trans [OF d'(2) drops_applied]])
      show "dc_inv H ?c ?a d" using assms(1) False dc_inv_silent_cur by blast
    qed simp
    moreover have "\<not> dc_armed d'" using False d'(2) by (simp add: drops_def)
    ultimately show ?thesis by (simp add: dc_inv_fields)
  next
    case True
    with assms(1) have cur: "dc_at d ''events'' \<le> cur" "dc_at d ''account_data'' \<le> curA"
      by (simp_all add: dc_inv_def dc_current_def)
    have "names_event_changes H rows (dc_at d ''events'') (dc_at d' ''events'')"
      using assms(5) d'(3) by (auto simp: names_event_changes_def steady_refl max_def)
    then show ?thesis using dc_inv_drops [OF assms(1) d'(2)] cur d'(3,4) assms(3)
      by (auto simp: names_event_changes_def steady_refl)
  qed
  with d'(1) show ?thesis by blast
qed

lemma dc_inv_rows_account:
  assumes "dc_inv H cur curA d" and "db_derived db = Some d" and "pos \<le> curA" and "rows \<noteq> []"
    and "steady (hs_ignored H) (\<Union> (row_users ` set rows)) (dc_at d ''account_data'') pos"
  shows "\<exists>d'. db_derived (fold (\<lambda>r db. OnRow db ''account_data'' pos r) rows db) = Some d' \<and> dc_inv H cur curA d'"
proof -
  from account_rows [OF assms(2), of pos rows] obtain d' where
    d': "db_derived (fold (\<lambda>r db. OnRow db ''account_data'' pos r) rows db) = Some d'"
    "drops {} {} (\<Union> (row_users ` set rows)) d d'"
    "dc_at d' ''account_data'' = (if 0 < pos then max pos (dc_at d ''account_data'') else dc_at d ''account_data'')"
    "dc_at d' ''events'' = dc_at d ''events''" using assms(4) by auto
  have "dc_inv H cur curA d'"
  proof (cases "dc_armed d")
    case False
    let ?c = "max cur (dc_at d ''events'')" and ?a = "max curA (max (dc_at d ''account_data'') (dc_at d' ''account_data''))"
    have "dc_inv H ?c ?a (d'\<lparr>dc_applied := dc_applied d\<rparr>)"
    proof (rule dc_inv_still [OF _ drops_trans [OF d'(2) drops_applied]])
      show "dc_inv H ?c ?a d" using assms(1) False dc_inv_silent_cur by blast
    qed simp
    moreover have "\<not> dc_armed d'" using False d'(2) by (simp add: drops_def)
    ultimately show ?thesis by (simp add: dc_inv_fields)
  next
    case True
    with assms(1) have cur: "dc_at d ''events'' \<le> cur" "dc_at d ''account_data'' \<le> curA"
      by (simp_all add: dc_inv_def dc_current_def)
    have "steady (hs_ignored H) (\<Union> (row_users ` set rows)) (dc_at d ''account_data'') (dc_at d' ''account_data'')"
      using assms(5) d'(3) by (auto simp: steady_refl max_def)
    then show ?thesis using dc_inv_drops [OF assms(1) d'(2)] cur d'(3,4) assms(3) by (auto simp: steady_refl)
  qed
  with d'(1) show ?thesis by blast
qed

lemma dc_reach_inv: "dc_reach H cur curA db \<Longrightarrow> \<exists>d. db_derived db = Some d \<and> dc_inv H cur curA d"
proof (induction rule: dc_reach.induct)
  case (new cur curA cfg s)
  then show ?case by (simp add: dc_inv_new)
next
  case (commit cur curA db cur' curA')
  then show ?case using dc_inv_commit by blast
next
  case (events cur curA db pos rows d)
  then show ?case using dc_inv_rows_events [of H cur curA d db pos rows] by auto
next
  case (account cur curA db pos rows d)
  then show ?case using dc_inv_rows_account [of H cur curA d db pos rows] by auto
next
  case (room cur curA db roomID)
  then obtain d where "db_derived db = Some d" "dc_inv H cur curA d" by blast
  then show ?case using drops_InvalidateRoom [of d roomID] dc_inv_still [of H cur curA d]
    by (auto simp: OnRoomInvalidated_def)
next
  case (purge cur curA db)
  then obtain d where "db_derived db = Some d" "dc_inv H cur curA d" by blast
  then show ?case using drops_Purge [of d] dc_inv_still [of H cur curA d] by (auto simp: OnPurge_def)
next
  case (disarm cur curA db)
  then obtain d where d: "db_derived db = Some d" "dc_inv H cur curA d" by blast
  let ?d = "dc_setArmed (d\<lparr>dc_applied := [], dc_armed := False\<rparr>) False"
  have "dc_inv H (max cur 0) (max curA 0) d" using d(2) by (rule dc_inv_commit) simp_all
  then have "dc_inv H (max cur 0) (max curA 0) ?d"
    by (rule dc_inv_setArmed [OF _ _ _ _ refl]) (simp_all add: dc_setArmed_def mgetz_def)
  moreover have "\<not> dc_armed ?d" by (simp add: dc_setArmed_def)
  ultimately have "dc_inv H cur curA ?d" using dc_inv_silent_cur by blast
  moreover have "?d = dc_setArmed (d\<lparr>dc_armed := False, dc_applied := []\<rparr>) False" by (simp add: dc_setArmed_def)
  ultimately show ?case using d(1) by (simp add: DisarmDerivedCaches_def)
next
  case (arm cur curA db d positions d')
  then have inv: "dc_inv H cur curA d" by simp
  have "d' = dc_setArmed (d\<lparr>dc_applied := fold (\<lambda>(stream, pos). mput stream pos) positions [], dc_armed := True\<rparr>) True"
    using arm.hyps(4) by (simp add: ArmDerivedCaches_def)
  from dc_inv_setArmed [OF inv _ arm.hyps(5,6) this] arm.hyps(3) show ?case by simp
next
  case (summary cur curA db q ctx roomID)
  then obtain d where d: "db_derived db = Some d" "dc_inv H cur curA d" by blast
  from guarded_lookup_field [OF is_field_fields(1), of d ctx "''events''" q roomID] d(2) obtain c where
    c: "fst (RoomSummary (Some d) ctx q roomID) = Some (d\<lparr>dc_roomSummary := c\<rparr>)" "lru_ok c"
    "\<forall>k v. lru_lookup c k = Some v \<longrightarrow> lru_lookup (dc_roomSummary d) k = Some v \<or> (fresh (Some d) ctx ''events'' \<and> k = roomID \<and> q roomID = Inr v)"
    by (auto simp: RoomSummary_def dc_inv_def dc_fine_def)
  then have "gains (hs_summary H) cur (dc_armed d) (lru_lookup (dc_roomSummary d)) (lru_lookup c)"
    using summary.hyps(2) fresh_armed [of d ctx] unfolding gains_def answers_def by blast
  with dc_inv_fill_summary [OF d(2) c(2)] c(1) d(1) show ?case by simp
next
  case (vis cur curA db q ctx roomID)
  then obtain d where d: "db_derived db = Some d" "dc_inv H cur curA d" by blast
  from guarded_lookup_field [OF is_field_fields(2), of d ctx "''events''" q roomID] d(2) obtain c where
    c: "fst (HistoryVisibility (Some d) ctx q roomID) = Some (d\<lparr>dc_historyVis := c\<rparr>)" "lru_ok c"
    "\<forall>k v. lru_lookup c k = Some v \<longrightarrow> lru_lookup (dc_historyVis d) k = Some v \<or> (fresh (Some d) ctx ''events'' \<and> k = roomID \<and> q roomID = Inr v)"
    by (auto simp: HistoryVisibility_def dc_inv_def dc_fine_def)
  then have "gains (hs_vis H) cur (dc_armed d) (lru_lookup (dc_historyVis d)) (lru_lookup c)"
    using vis.hyps(2) fresh_armed [of d ctx] unfolding gains_def answers_def by blast
  with dc_inv_fill_vis [OF d(2) c(2)] c(1) d(1) show ?case by simp
next
  case (ignored cur curA db q ctx userID)
  then obtain d where d: "db_derived db = Some d" "dc_inv H cur curA d" by blast
  from guarded_lookup_field [OF is_field_fields(3), of d ctx "''account_data''" q userID] d(2) obtain c where
    c: "fst (IgnoredUsers (Some d) ctx q userID) = Some (d\<lparr>dc_ignoredUsers := c\<rparr>)" "lru_ok c"
    "\<forall>k v. lru_lookup c k = Some v \<longrightarrow> lru_lookup (dc_ignoredUsers d) k = Some v \<or> (fresh (Some d) ctx ''account_data'' \<and> k = userID \<and> q userID = Inr v)"
    by (auto simp: IgnoredUsers_def dc_inv_def dc_fine_def)
  then have "gains (hs_ignored H) curA (dc_armed d) (lru_lookup (dc_ignoredUsers d)) (lru_lookup c)"
    using ignored.hyps(2) fresh_armed [of d ctx] unfolding gains_def answers_def by blast
  with dc_inv_fill_ignored [OF d(2) c(2)] c(1) d(1) show ?case by simp
next
  case (rooms cur curA db q ctx userID memberships)
  then obtain d where d: "db_derived db = Some d" "dc_inv H cur curA d" by blast
  from RoomsForUser_field [of d ctx q userID memberships] d(2) obtain c where
    c: "fst (RoomsForUser (Some d) ctx q userID memberships) = Some (d\<lparr>dc_roomsForUser := c\<rparr>)" "lru_ok c"
    "\<forall>k v. rfu_lookup (d\<lparr>dc_roomsForUser := c\<rparr>) k = Some v \<longrightarrow>
      rfu_lookup d k = Some v \<or> (fresh (Some d) ctx ''events'' \<and> k = (userID, membership_set memberships) \<and> q userID memberships = Inr v)"
    by (auto simp: dc_inv_def dc_fine_def simp del: split_paired_All)
  have "q userID memberships = Inr v \<Longrightarrow> v = hs_rooms H (userID, membership_set memberships) cur" for v
    using rooms.hyps(2) unfolding answers_def by force
  with c(3) have "gains (hs_rooms H) cur (dc_armed d) (rfu_lookup d) (rfu_lookup (d\<lparr>dc_roomsForUser := c\<rparr>))"
    using fresh_armed [of d ctx] unfolding gains_def by blast
  with dc_inv_fill_rooms [OF d(2) c(2)] c(1) d(1) show ?case by simp
next
  case (streams cur curA db s)
  then show ?case by simp
qed

text \<open>What a reachable store answers, in terms of the positions it has applied.\<close>

lemma fresh_horizon:
  "fresh (Some d) (Some h) ''events'' \<Longrightarrow> hz_Events h \<le> dc_at d ''events''"
  "fresh (Some d) (Some h) ''account_data'' \<Longrightarrow> hz_AccountData h \<le> dc_at d ''account_data''"
  by (auto simp: fresh_def)

lemma guarded_answer:
  fixes val :: "string \<Rightarrow> int \<Rightarrow> 'v"
  assumes "is_field get upd" and "lru_ok (get d)" and "h \<le> cur"
    and "fresh (Some d) ctx stream \<Longrightarrow> h \<le> lo \<and> as_of val lo cur (lru_lookup (get d))"
  shows "\<exists>t. h \<le> t \<and> t \<le> cur \<and> snd (guarded_lookup get upd (Some d) ctx stream (\<lambda>k. Inr (val k cur) :: string + 'v) key) = Inr (val key t)"
proof -
  from guarded_lookup_field [OF assms(1,2), of ctx stream "\<lambda>k. Inr (val k cur) :: string + 'v" key]
  have res: "snd (guarded_lookup get upd (Some d) ctx stream (\<lambda>k. Inr (val k cur) :: string + 'v) key) =
      (case (if fresh (Some d) ctx stream then lru_lookup (get d) key else None) of Some v \<Rightarrow> Inr v | None \<Rightarrow> Inr (val key cur))"
    by auto
  show ?thesis
  proof (cases "if fresh (Some d) ctx stream then lru_lookup (get d) key else None")
    case None
    with res assms(3) show ?thesis by auto
  next
    case (Some v)
    then have "fresh (Some d) ctx stream" "lru_lookup (get d) key = Some v" by (auto split: if_splits)
    with assms(4) obtain t where "h \<le> lo" "lo \<le> t" "t \<le> cur" "v = val key t" by (auto simp: as_of_def)
    with res Some show ?thesis by (intro exI [of _ t]) simp
  qed
qed

lemma rooms_answer:
  fixes H cur
  defines "q \<equiv> \<lambda>u ms. Inr (hs_rooms H (u, membership_set ms) cur) :: string + RoomForUser list"
  assumes "lru_ok (dc_roomsForUser d)" and "h \<le> cur"
    and "fresh (Some d) ctx ''events'' \<Longrightarrow> h \<le> lo \<and> as_of (hs_rooms H) lo cur (rfu_lookup d)"
  shows "\<exists>t. h \<le> t \<and> t \<le> cur \<and> snd (RoomsForUser (Some d) ctx q u ms) = Inr (hs_rooms H (u, membership_set ms) t)"
proof -
  let ?k = "(u, membership_set ms)"
  from RoomsForUser_field [OF assms(2), of ctx q u ms]
  have res: "snd (RoomsForUser (Some d) ctx q u ms) =
      (case (if fresh (Some d) ctx ''events'' then rfu_lookup d ?k else None) of Some v \<Rightarrow> Inr v | None \<Rightarrow> Inr (hs_rooms H ?k cur))"
    by (auto simp: q_def split: option.split)
  show ?thesis
  proof (cases "if fresh (Some d) ctx ''events'' then rfu_lookup d ?k else None")
    case None
    with res assms(3) show ?thesis by auto
  next
    case (Some v)
    then have "fresh (Some d) ctx ''events''" "rfu_lookup d ?k = Some v" by (auto split: if_splits)
    with assms(4) obtain t where "lo \<le> t" "t \<le> cur" "v = hs_rooms H ?k t" "h \<le> lo" unfolding as_of_def by blast
    with res Some show ?thesis by (intro exI [of _ t]) simp
  qed
qed

section \<open>Properties\<close>


text \<open>A database that has not moved, and a store that has just been armed at position 5.\<close>

definition quiet_history :: history where
  "quiet_history = \<lparr>hs_summary = \<lambda>r t. \<lparr>ms_Counts = [(''join'', 1)], ms_Members = []\<rparr>, hs_vis = \<lambda>r t. ''shared'',
     hs_rooms = \<lambda>us t. [], hs_ignored = \<lambda>u t. None\<rparr>"

definition new_store :: store where
  "new_store = \<lparr>db_caches = newCaches 0 0, db_derived = Some (newDerivedCaches \<lparr>ce_EventStateGroup = 0, ce_FilteredState = 0, ce_UserFilter = 0, ce_RoomInfo = 0, ce_AccessToken = 0,
     ce_RoomSummary = 0, ce_HistoryVisibility = 0, ce_IgnoredUsers = 0, ce_RoomsForUser = 0\<rparr>), db_streams = None\<rparr>"


section \<open>Between the query and the cache\<close>

text \<open>What a cache answers right after a value has been added.\<close>

lemma lookup_Add_self:
  assumes "lru_inv c" and "0 < lru_max c" and "\<not> lru_disarmed c"
  shows "lru_lookup (lru_Add (Some c) k v) k = Some v"
proof -
  from lru_Add_refines [OF assms, of k v] obtain c' where
    c': "lru_Add (Some c) k v = Some c'" "lru_inv c'" "lru_abs c' = spec_add (nat (lru_max c)) k v (lru_abs c)"
    "lru_max c' = lru_max c" by metis
  obtain n where "nat (lru_max c) = Suc n" using assms(2) by (metis gr0_implies_Suc zero_less_nat_eq)
  with c' assms(2) show ?thesis by (simp add: lru_lookup_view lru_view_def spec_add_def)
qed

text \<open>The summary cache is switched on: it exists, has room and is armed.\<close>

definition summary_on :: "derivedCaches \<Rightarrow> bool" where
  "summary_on d \<longleftrightarrow> dc_armed d \<and> (\<exists>c. dc_roomSummary d = Some c \<and> lru_inv c \<and> 0 < lru_max c \<and> \<not> lru_disarmed c)"

lemma summary_on_room:
  assumes "summary_on d"
  shows "\<exists>d'. InvalidateRoom (Some d) k = Some d' \<and> summary_on d'"
proof -
  from assms obtain c where c: "dc_armed d" "dc_roomSummary d = Some c" "lru_inv c" "0 < lru_max c" "\<not> lru_disarmed c"
    by (auto simp: summary_on_def)
  obtain c' where "lru_Remove (Some c) k = Some c'" "lru_inv c'" "lru_max c' = lru_max c" "lru_disarmed c' = lru_disarmed c"
    by (rule lru_Remove_refines [OF c(3), of k]) blast
  with c show ?thesis by (auto simp: InvalidateRoom_def summary_on_def)
qed

lemma summary_on_rooms: "summary_on d \<Longrightarrow> \<exists>d'. fold (\<lambda>r p. InvalidateRoom p r) ks (Some d) = Some d' \<and> summary_on d'"
proof (induction ks arbitrary: d)
  case (Cons k ks)
  from summary_on_room [OF Cons.prems, of k] Cons.IH show ?case by auto
qed simp

lemma summary_on_row:
  assumes "summary_on d" and "0 < pos"
  shows "\<exists>d'. db_derived (OnRow \<lparr>db_caches = cs, db_derived = Some d, db_streams = s\<rparr> ''events'' pos r) = Some d' \<and> summary_on d' \<and>
    pos \<le> dc_at d' ''events''"
proof -
  from summary_on_rooms [OF assms(1), of "rd_RoomIDs r"] obtain d2 where
    "fold (\<lambda>r p. InvalidateRoom p r) (rd_RoomIDs r) (Some d) = Some d2" "summary_on d2" by blast
  then show ?thesis using assms(2)
    by (auto simp: OnRow_def Let_def InvalidateUserMembership_def Applied_def summary_on_def)
qed

lemma summary_on_served:
  assumes "summary_on d" and "hz_Events h \<le> dc_at d ''events''" and "lru_lookup (dc_roomSummary d) room = Some v"
  shows "snd (RoomSummary (Some d) (Some h) query room) = Inr v"
  using assms by (cases "lru_Get (dc_roomSummary d) room")
    (auto simp: RoomSummary_def guarded_lookup_def guarded_begin_def lru_lookup_def fresh_def summary_on_def)

text \<open>
  C14. A lookup is not one step, and the guard does not cover the gap. When a sync has asked the cache,
  missed and read \<open>old\<close> from the database, and the row that changes the room arrives before the sync
  adds what it read, the invalidation finds nothing to remove and the old value is stored after it.
  A later sync whose token covers the change is then answered \<open>old\<close>, whatever the database says.
\<close>

theorem fill_after_invalidation_is_stale:
  assumes "summary_on d" and "fresh (Some d) (Some h0) ''events''" and "lru_lookup (dc_roomSummary d) room = None"
    and "0 < pos" and "hz_Events h \<le> pos"
  shows "let (p1, use, found) = guarded_begin dc_roomSummary dc_roomSummary_update (Some d) (Some h0) ''events'' room;
             db = OnRow \<lparr>db_caches = cs, db_derived = p1, db_streams = s\<rparr> ''events'' pos r;
             p3 = guarded_end dc_roomSummary_update (db_derived db) use room old
         in found = None \<and> snd (RoomSummary p3 (Some h) query room) = Inr old"
proof -
  from assms(1) obtain c where c: "dc_armed d" "dc_roomSummary d = Some c" "lru_inv c" "0 < lru_max c" "\<not> lru_disarmed c"
    by (auto simp: summary_on_def)
  obtain c1 where c1: "fst (lru_Get (Some c) room) = Some c1" "lru_inv c1" "lru_max c1 = lru_max c" "\<not> lru_disarmed c1"
    by (rule lru_Get_refines [OF c(3-5), of room]) simp
  let ?d1 = "d\<lparr>dc_roomSummary := Some c1\<rparr>"
  have first: "guarded_begin dc_roomSummary dc_roomSummary_update (Some d) (Some h0) ''events'' room = (Some ?d1, True, None)"
    using assms(2,3) c(2) c1(1) by (cases "lru_Get (Some c) room") (simp add: guarded_begin_def lru_lookup_def)
  have "summary_on ?d1" using c c1 by (simp add: summary_on_def)
  from summary_on_row [OF this assms(4)] obtain d2 c2 where
    d2: "db_derived (OnRow \<lparr>db_caches = cs, db_derived = Some ?d1, db_streams = s\<rparr> ''events'' pos r) = Some d2" "dc_armed d2"
      "pos \<le> dc_at d2 ''events''" and c2: "dc_roomSummary d2 = Some c2" "lru_inv c2" "0 < lru_max c2" "\<not> lru_disarmed c2"
    by (fastforce simp: summary_on_def)
  let ?d3 = "d2\<lparr>dc_roomSummary := lru_Add (Some c2) room old\<rparr>"
  obtain c3 where "lru_Add (Some c2) room old = Some c3" "lru_inv c3" "lru_max c3 = lru_max c2" "\<not> lru_disarmed c3"
    by (rule lru_Add_refines [OF c2(2-4), of room old]) blast
  with c2 d2(2) have "summary_on ?d3" by (simp add: summary_on_def)
  from summary_on_served [OF this, of h room old query] lookup_Add_self [OF c2(2-4)] d2(3) assms(5)
  have "snd (RoomSummary (Some ?d3) (Some h) query room) = Inr old" by simp
  moreover have "dc_roomSummary_update (\<lambda>c. lru_Add c room old) d2 = ?d3" using c2(1) by (cases d2) simp
  ultimately show ?thesis using first d2(1) by (simp add: guarded_end_def)
qed

lemma lru_ok_New [simp]: "lru_ok (Some (lru_New n))"
  by (simp add: lru_ok_def)

definition armed_caches :: derivedCaches where
  "armed_caches = the (ArmDerivedCaches (db_derived new_store) [(''events'', 5)])"

lemma armed_caches_on: "summary_on armed_caches" "dc_fine armed_caches" "dc_at armed_caches ''events'' = 5"
    "lru_lookup (dc_roomSummary armed_caches) k = None" "dc_roomSummary armed_caches = Some (lru_New 20000)"
proof -
  have sum: "dc_roomSummary armed_caches = Some (lru_New 20000)"
    by (simp add: armed_caches_def ArmDerivedCaches_def new_store_def dc_setArmed_def newDerivedCaches_def lru_SetArmed_def size_or_def lru_New_def)
  then show "dc_roomSummary armed_caches = Some (lru_New 20000)" .
  show "dc_at armed_caches ''events'' = 5"
    by (simp add: armed_caches_def ArmDerivedCaches_def new_store_def dc_setArmed_def mgetz_def)
  have "dc_armed armed_caches" by (simp add: armed_caches_def ArmDerivedCaches_def new_store_def dc_setArmed_def)
  with sum show "summary_on armed_caches" by (simp add: summary_on_def) (simp add: lru_New_def)
  show "lru_lookup (dc_roomSummary armed_caches) k = None" using sum by (simp add: lru_lookup_def lru_Get_def lru_New_def)
  show "dc_fine armed_caches" by (simp add: dc_fine_def armed_caches_def ArmDerivedCaches_def new_store_def dc_setArmed_def
        newDerivedCaches_def lookup_SetArmed(1))
qed

definition one_room_row :: "string \<Rightarrow> RowDetail" where
  "one_room_row r = \<lparr>rd_RoomIDs = [r], rd_UserIDs = [], rd_Type = ''m.room.name'', rd_StateKey = []\<rparr>"

definition empty_summary :: MemberSummary where
  "empty_summary = \<lparr>ms_Counts = [], ms_Members = []\<rparr>"

theorem fill_after_invalidation_is_stale_witness:
  "let (p1, use, found) = guarded_begin dc_roomSummary dc_roomSummary_update (Some armed_caches)
           (Some \<lparr>hz_Events = 5, hz_AccountData = 0\<rparr>) ''events'' ''!r'';
       db = OnRow \<lparr>db_caches = newCaches 0 0, db_derived = p1, db_streams = None\<rparr> ''events'' 6 (one_room_row ''!r'');
       p3 = guarded_end dc_roomSummary_update (db_derived db) use ''!r'' empty_summary
   in found = None \<and> snd (RoomSummary p3 (Some \<lparr>hz_Events = 6, hz_AccountData = 0\<rparr>)
        (\<lambda>_. Inr (hs_summary quiet_history ''!r'' 6) :: string + MemberSummary) ''!r'') = Inr empty_summary"
proof (rule fill_after_invalidation_is_stale [OF armed_caches_on(1)])
  show "fresh (Some armed_caches) (Some \<lparr>hz_Events = 5, hz_AccountData = 0\<rparr>) ''events''"
    using armed_caches_on(1,3) by (simp add: fresh_def summary_on_def)
qed (simp_all add: armed_caches_on(3,4))

text \<open>
  The applied position runs ahead inside a batch. Each row of a batch is followed by \<^verbatim>\<open>Applied\<close> at the
  position of the whole batch, so after the first row the caches claim every invalidation up to
  that position although the rows behind it are still to come: a sync whose token already covers
  the batch (its since came from another worker) is served the summary of a room that a later row
  of the same batch is about to drop.
\<close>

theorem applied_before_batch_is_done:
  assumes "summary_on d" and "lru_lookup (dc_roomSummary d) room = Some old" and "0 < pos" and "hz_Events h \<le> pos"
    and "rd_RoomIDs r1 = [other]" and "other \<noteq> room" and "room \<in> set (rd_RoomIDs r2)" and "room \<noteq> []"
    and "dc_fine d"
  shows "let db1 = OnRow \<lparr>db_caches = cs, db_derived = Some d, db_streams = s\<rparr> ''events'' pos r1; db2 = OnRow db1 ''events'' pos r2
    in snd (RoomSummary (db_derived db1) (Some h) query room) = Inr old \<and> lru_lookup (dc_roomSummary (the (db_derived db2))) room = None"
proof -
  let ?db1 = "OnRow \<lparr>db_caches = cs, db_derived = Some d, db_streams = s\<rparr> ''events'' pos r1"
  from assms(1) obtain c where c: "dc_armed d" "dc_roomSummary d = Some c" "lru_inv c" "0 < lru_max c" "\<not> lru_disarmed c"
    by (auto simp: summary_on_def)
  obtain c1 where c1: "lru_Remove (Some c) other = Some c1" "lru_inv c1" "lru_abs c1 = mdel other (lru_abs c)" "lru_max c1 = lru_max c"
    by (rule lru_Remove_refines [OF c(3), of other]) blast
  from summary_on_row [OF assms(1,3), of cs s r1] obtain d1 where d1: "db_derived ?db1 = Some d1" "summary_on d1" "pos \<le> dc_at d1 ''events''"
    by blast
  have "dc_roomSummary d1 = (if other = [] then Some c else Some c1)"
    using d1(1) c(2) c1(1) assms(5) by (auto simp: OnRow_def Let_def InvalidateRoom_def InvalidateUserMembership_def Applied_def split: if_splits)
  moreover have "lru_lookup (Some c1) room = Some old"
    using assms(2,6) c(2-4) c1 by (simp add: lru_lookup_view lru_view_def)
  ultimately have still: "lru_lookup (dc_roomSummary d1) room = Some old" using assms(2) c(2) by simp
  have "dc_fine d1"
    using events_row [of "\<lparr>db_caches = cs, db_derived = Some d, db_streams = s\<rparr>" d pos r1] d1(1) assms(9) by (auto simp: drops_def)
  moreover obtain d2 where d2: "db_derived (OnRow ?db1 ''events'' pos r2) = Some d2" "drops (row_rooms r2) (row_members r2) {} d1 d2"
    using events_row [OF d1(1), of pos r2] by blast
  moreover have "room \<in> row_rooms r2" using assms(7,8) by (simp add: row_rooms_def)
  ultimately have "lru_lookup (dc_roomSummary d2) room = None" unfolding drops_def by (metis not_None_eq)
  then show ?thesis using summary_on_served [OF d1(2) _ still, of h query] d1(1,3) d2(1) assms(4) by simp
qed

theorem applied_before_batch_is_done_witness:
  "let d = armed_caches\<lparr>dc_roomSummary := lru_Add (Some (lru_New 20000)) ''!b'' empty_summary\<rparr>;
       db1 = OnRow \<lparr>db_caches = newCaches 0 0, db_derived = Some d, db_streams = None\<rparr> ''events'' 6 (one_room_row ''!a'')
   in snd (RoomSummary (db_derived db1) (Some \<lparr>hz_Events = 6, hz_AccountData = 0\<rparr>)
        (\<lambda>_. Inr (hs_summary quiet_history ''!b'' 6) :: string + MemberSummary) ''!b'') = Inr empty_summary"
proof -
  let ?n = "lru_New 20000 :: (string, MemberSummary) cache"
  let ?d = "armed_caches\<lparr>dc_roomSummary := lru_Add (Some ?n) ''!b'' empty_summary\<rparr>"
  have n: "lru_inv ?n" "0 < lru_max ?n" "\<not> lru_disarmed ?n" by (simp, simp_all add: lru_New_def)
  obtain c where c: "lru_Add (Some ?n) ''!b'' empty_summary = Some c" "lru_inv c" "lru_max c = lru_max ?n" "\<not> lru_disarmed c"
    by (rule lru_Add_refines [OF n, of "''!b''" empty_summary]) blast
  have on: "summary_on ?d" using armed_caches_on(1) c n(2) by (simp add: summary_on_def)
  have fine: "dc_fine ?d" using armed_caches_on(2) c by (simp add: dc_fine_def lru_ok_def)
  have held: "lru_lookup (dc_roomSummary ?d) ''!b'' = Some empty_summary" using lookup_Add_self [OF n] by simp
  from applied_before_batch_is_done [OF on held, of 6 "\<lparr>hz_Events = 6, hz_AccountData = 0\<rparr>" "one_room_row ''!a''" "''!a''" "one_room_row ''!b''"
      "newCaches 0 0" None "\<lambda>_. Inr (hs_summary quiet_history ''!b'' 6) :: string + MemberSummary"]
    fine show ?thesis by (simp add: one_room_row_def Let_def)
qed

text \<open>
  A failed token query is remembered. \<^verbatim>\<open>accessTokenID\<close> reports any query error as id 0 without an
  error, and \<^verbatim>\<open>AccessTokenID\<close> caches what it is given: after one failure every later request with
  that token gets 0 from the cache, although the database would answer.
\<close>

theorem access_token_error_is_cached:
  assumes "dc_accessToken d = Some c" and "lru_inv c" and "0 < lru_max c" and "\<not> lru_disarmed c"
    and "lru_lookup (Some c) token = None" and "q1 token = Inl err"
  shows "snd (AccessTokenID (fst (AccessTokenID d q1 token)) q2 token) = Inr 0"
proof -
  obtain c1 where c1: "lru_Get (Some c) token = (Some c1, None)" "lru_inv c1" "lru_max c1 = lru_max c" "\<not> lru_disarmed c1"
    using assms(5) by (auto simp: lru_lookup_def intro: lru_Get_refines [OF assms(2-4), of token])
  then have "fst (AccessTokenID d q1 token) = d\<lparr>dc_accessToken := lru_Add (Some c1) token 0\<rparr>"
    using assms(1,6) by (simp add: AccessTokenID_def plain_lookup_def accessTokenID_def)
  moreover have "snd (lru_Get (lru_Add (Some c1) token 0) token) = Some 0"
    using lookup_Add_self [of c1 token 0] c1 assms(3) by (simp add: lru_lookup_def)
  ultimately show ?thesis
    by (cases "lru_Get (lru_Add (Some c1) token 0) token") (simp add: AccessTokenID_def plain_lookup_def)
qed

theorem access_token_error_is_cached_witness:
  "snd (AccessTokenID (fst (AccessTokenID (the (db_derived new_store)) (\<lambda>_. Inl ''timeout'') ''t'')) (\<lambda>_. Inr 7) ''t'') = (Inr 0 :: string + int)"
  by (rule access_token_error_is_cached [of _ "lru_New 20000", where err = "''timeout''"])
    (simp_all add: new_store_def newDerivedCaches_def size_or_def, simp_all add: lru_New_def lru_lookup_def lru_Get_def)

end
