(* ===== verification/Worker.thy ===== *)
theory Worker
  imports Derived_Caches Notifier Stream_Token
begin

text \<open>
  How the parts are wired together: the callbacks \<^verbatim>\<open>main.go\<close> registers with the replication
  subscriber, the token a response is bounded by (\<^verbatim>\<open>internal/handlers/tokens.go\<close>), and the worker as
  the state that the subscriber's actions act on.

  The subscriber's steps return the calls they make (\<open>action\<close>); \<open>perform\<close> makes them: a recorded row
  goes to the feeder of the stream caches, a wake-up to the notifier, an invalidation to the
  derived caches, and losing or gaining the connection disarms or arms both kinds of cache.
  \<open>None\<close> is the panic of closing a channel twice, which the notifier's invariant excludes.
\<close>

section \<open>The model\<close>

subsection \<open>Tokens\<close>

text \<open>The streams of \<^verbatim>\<open>replicationStreams\<close> with the field each sets.\<close>

definition replicationStreams :: "(string \<times> (Token \<Rightarrow> int \<Rightarrow> Token)) list" where
  "replicationStreams = [
     (''events'', \<lambda>t p. t\<lparr>tk_Room := Live p\<rparr>),
     (''presence'', \<lambda>t p. t\<lparr>tk_Presence := p\<rparr>),
     (''typing'', \<lambda>t p. t\<lparr>tk_Typing := p\<rparr>),
     (''receipts'', \<lambda>t p. t\<lparr>tk_Receipt := \<lparr>mw_Stream = p, mw_Instances = []\<rparr>\<rparr>),
     (''account_data'', \<lambda>t p. t\<lparr>tk_AccountData := p\<rparr>),
     (''push_rules'', \<lambda>t p. t\<lparr>tk_PushRules := p\<rparr>),
     (''to_device'', \<lambda>t p. t\<lparr>tk_ToDevice := p\<rparr>),
     (''device_lists'', \<lambda>t p. t\<lparr>tk_DeviceList := \<lparr>mw_Stream = p, mw_Instances = []\<rparr>\<rparr>),
     (''un_partial_stated_room'', \<lambda>t p. t\<lparr>tk_UnPartialStatedRooms := p\<rparr>),
     (''thread_subscriptions'', \<lambda>t p. t\<lparr>tk_ThreadSubscriptions := p\<rparr>),
     (''sticky_events'', \<lambda>t p. t\<lparr>tk_StickyEvents := p\<rparr>),
     (''quarantined_media'', \<lambda>t p. t\<lparr>tk_QuarantinedMedia := \<lparr>mw_Stream = p, mw_Instances = []\<rparr>\<rparr>),
     (''profile_updates'', \<lambda>t p. t\<lparr>tk_ProfileUpdates := p\<rparr>)]"

definition overlayReplication :: "Token \<Rightarrow> (string \<Rightarrow> int) \<Rightarrow> Token" where
  "overlayReplication tok position =
     fold (\<lambda>(stream, setter) tok. let pos = position stream in if pos > 0 then setter tok pos else tok) replicationStreams tok"

text \<open>\<open>None\<close> for a worker without a subscriber; the database token is an argument.\<close>

definition currentToken :: "'e + Token \<Rightarrow> Subscriber option \<Rightarrow> 'e + Token" where
  "currentToken db replication = (case db of
     Inl err \<Rightarrow> Inl err
   | Inr tok \<Rightarrow> (case replication of
       None \<Rightarrow> Inr tok
     | Some s \<Rightarrow> if \<not> sb_live s then Inr tok else Inr (overlayReplication tok (Position s))))"

definition boundBySince :: "Token \<Rightarrow> bool \<Rightarrow> Token \<Rightarrow> Token" where
  "boundBySince now pinned since = (if pinned then now else AtLeast now since)"

text \<open>\<^verbatim>\<open>StreamPositions\<close>: the seed of the subscriber, from the database token.\<close>

definition StreamPositions :: "'e + Token \<Rightarrow> 'e + (string, int) gomap" where
  "StreamPositions db = (case db of
     Inl err \<Rightarrow> Inl err
   | Inr tok \<Rightarrow> Inr [
       (''events'', rk_Stream (tk_Room tok)), (''presence'', tk_Presence tok), (''receipts'', mw_Stream (tk_Receipt tok)),
       (''account_data'', tk_AccountData tok), (''push_rules'', tk_PushRules tok), (''to_device'', tk_ToDevice tok),
       (''device_lists'', mw_Stream (tk_DeviceList tok)), (''un_partial_stated_room'', tk_UnPartialStatedRooms tok),
       (''thread_subscriptions'', tk_ThreadSubscriptions tok), (''sticky_events'', tk_StickyEvents tok),
       (''quarantined_media'', mw_Stream (tk_QuarantinedMedia tok)), (''profile_updates'', tk_ProfileUpdates tok)])"

subsection \<open>The worker\<close>

record worker =
  wk_sub :: Subscriber
  wk_db :: store
  wk_notifier :: Notifier

type_synonym seed_query = "string \<Rightarrow> nat \<Rightarrow> (string \<times> int) list option"

definition on_drop :: "store \<Rightarrow> store" where
  "on_drop db = db\<lparr>db_caches := PurgeCaches (db_caches db), db_derived := DisarmDerivedCaches (db_derived db), db_streams := DisarmStreamCaches (db_streams db)\<rparr>"

definition on_connect :: "seed_query \<Rightarrow> store \<Rightarrow> (string, int) gomap \<Rightarrow> store" where
  "on_connect query db positions =
     (let db1 = db\<lparr>db_derived := ArmDerivedCaches (db_derived db) positions\<rparr>
      in case PrefillStreamCaches query (db_streams db1) positions of
           (streams, True) \<Rightarrow> db1\<lparr>db_streams := DisarmStreamCaches streams\<rparr>
         | (streams, False) \<Rightarrow> db1\<lparr>db_streams := streams\<rparr>)"

fun perform :: "seed_query \<Rightarrow> action \<Rightarrow> worker \<Rightarrow> worker option" where
  "perform query (ARecord stream pos rooms users) w =
     Some (w\<lparr>wk_db := (wk_db w)\<lparr>db_streams := feeder_OnStreamAdvance (db_streams (wk_db w)) stream pos rooms users\<rparr>\<rparr>)"
| "perform query (AWake stream pos rooms users) w =
     map_option (\<lambda>(n, k). w\<lparr>wk_notifier := n\<rparr>) (nt_OnStreamAdvance (wk_notifier w) rooms users)"
| "perform query (AOnRow stream pos d) w = Some (w\<lparr>wk_db := OnRow (wk_db w) stream pos d\<rparr>)"
| "perform query (ARoomInvalidated roomID) w = Some (w\<lparr>wk_db := OnRoomInvalidated (wk_db w) roomID\<rparr>)"
| "perform query (APurge reason) w = Some (w\<lparr>wk_db := OnPurge (wk_db w)\<rparr>)"
| "perform query ADrop w = Some (w\<lparr>wk_db := on_drop (wk_db w)\<rparr>)"
| "perform query (AConnect positions) w = Some (w\<lparr>wk_db := on_connect query (wk_db w) positions\<rparr>)"
| "perform query (AAdvance stream) w = Some w"
| "perform query ACancel w = Some w"

fun perform_all :: "seed_query \<Rightarrow> action list \<Rightarrow> worker \<Rightarrow> worker option" where
  "perform_all query [] w = Some w"
| "perform_all query (a # as) w = Option.bind (perform query a w) (perform_all query as)"

definition worker_step :: "bool \<Rightarrow> (string \<Rightarrow> json) \<Rightarrow> seed_query \<Rightarrow> sub_event \<Rightarrow> worker \<Rightarrow> worker option" where
  "worker_step hasInv parse query ev w =
     (case sub_step hasInv parse ev (wk_sub w) of (s, as) \<Rightarrow> perform_all query as (w\<lparr>wk_sub := s\<rparr>))"

definition new_worker :: "StreamCacheSizes \<Rightarrow> CacheEntries \<Rightarrow> worker" where
  "new_worker sizes entries = \<lparr>wk_sub = sub_New,
     wk_db = \<lparr>db_caches = newCaches (ce_EventStateGroup entries) (ce_FilteredState entries), db_derived = Some (newDerivedCaches entries), db_streams = Some (newStreamCaches sizes)\<rparr>,
     wk_notifier = nt_New\<rparr>"

section \<open>Liveness and the actions of a step\<close>

fun is_link :: "action \<Rightarrow> bool" where
  "is_link ADrop = True"
| "is_link (AConnect ps) = True"
| "is_link _ = False"

lemma advance_live [simp]: "sb_live (advance s stream inst pos) = sb_live s"
  by (simp add: advance_def Let_def dropDerivedStateLocked_def)

lemma cache_invalidation_no_link: "a \<in> set (handleCacheInvalidation r) \<Longrightarrow> \<not> is_link a"
  by (auto simp: handleCacheInvalidation_def Let_def split: if_splits)

lemma apply_batch_link:
  "sb_live (fst (apply_batch hasInv s stream inst pos batch)) = sb_live s"
  "\<forall>a \<in> set (snd (apply_batch hasInv s stream inst pos batch)). \<not> is_link a"
  by (auto simp: apply_batch_def Let_def cache_invalidation_no_link split: if_splits)

text \<open>The connection callbacks are called exactly when liveness changes, on the way in or out.\<close>

lemma step_link:
  assumes "sub_step hasInv parse ev s = (s', as)"
  shows "(sb_live s' = sb_live s \<and> (\<forall>a \<in> set as. \<not> is_link a)) \<or>
    (sb_live s \<and> \<not> sb_live s' \<and> hd as = ADrop \<and> as \<noteq> [] \<and> (\<forall>a \<in> set (tl as). \<not> is_link a)) \<or>
    (\<not> sb_live s \<and> sb_live s' \<and> as = [AConnect (sb_positions s')] \<and> ev = Subscribed)"
proof (cases ev)
  case (Message m)
  with assms have h: "handle hasInv parse s m = (s', as)" by simp
  show ?thesis
  proof (cases rule: handle_cases [of hasInv parse s m])
    case (overflow stream)
    with h show ?thesis by (auto simp: abort_def setLive_def Let_def)
  next
    case (batch stream inst pos p)
    let ?s = "s\<lparr>sb_pending := mdel stream (sb_pending s)\<rparr>" and ?b = "mgetz [] (sb_pending s) stream @ [p]"
    from h batch have "(s', as) = apply_batch hasInv ?s stream inst pos ?b" by simp
    then have "s' = fst (apply_batch hasInv ?s stream inst pos ?b)" "as = snd (apply_batch hasInv ?s stream inst pos ?b)"
      by (metis fst_conv, metis snd_conv)
    with apply_batch_link [of hasInv ?s stream inst pos ?b] show ?thesis by simp
  qed (use h in auto)
next
  case (Seeded ps)
  with assms show ?thesis by (auto simp: Seed_def)
next
  case Subscribed
  with assms show ?thesis by (cases "sb_live s") (auto simp: setLive_def Let_def)
next
  case SessionEnd
  with assms show ?thesis by (cases "sb_live s") (auto simp: setLive_def Let_def)
qed

section \<open>What reaches the events cache\<close>

text \<open>One action: a row on the events stream feeds it, the connection callbacks seed or disarm it, and
  nothing else touches it.\<close>

definition events_cache :: "worker \<Rightarrow> scache option" where
  "events_cache w = Option.bind (db_streams (wk_db w)) sg_events"

definition gates_exist :: "worker \<Rightarrow> bool" where
  "gates_exist w \<longleftrightarrow> db_streams (wk_db w) \<noteq> None"

lemma OnRow_events:
  "map_option sg_events (db_streams (OnRow db stream pos d)) = map_option sg_events (db_streams db)"
  by (cases "db_streams db") (simp_all add: OnRow_def MembershipChanged_def Let_def)

lemma feeder_other_stream:
  assumes "stream \<noteq> ''events''"
  shows "map_option sg_events (feeder_OnStreamAdvance (Some g) stream pos rooms users) = Some (sg_events g)"
proof (cases "byName (Some g) stream")
  case (Some fb)
  then obtain f b where fb: "byName (Some g) stream = Some (f, b)" by (cases fb) simp
  then have f: "FEvents \<noteq> f" using assms by (auto simp: byName_def split: if_splits)
  show ?thesis
  proof (cases "(if b then rooms else users) = []")
    case True
    from reset_fields [OF fb, of pos] obtain c' where "StreamCacheReset (Some g) stream pos = Some c'"
      "\<forall>g'. g' \<noteq> f \<longrightarrow> sg_get g' c' = (if g' = FMembership \<and> stream = ''events'' then sc_step (ScAll pos) (sg_get g' g) else sg_get g' g)"
      by blast
    with True f show ?thesis by (simp add: feeder_unfold [OF fb]) (metis sfield.distinct(1) sg_get.simps(1))
  next
    case False
    from changed_fields [OF fb, of pos "if b then rooms else users"] obtain c' where
      "fold (\<lambda>e p. StreamCacheChanged p stream e pos) (if b then rooms else users) (Some g) = Some c'"
      "\<forall>g'. g' \<noteq> f \<longrightarrow> sg_get g' c' = sg_get g' g" by blast
    with False f show ?thesis by (simp add: feeder_unfold [OF fb] Let_def) (metis sg_get.simps(1))
  qed
qed (simp add: feeder_other)

text \<open>
  Which of the changes \<open>T\<close> an action lets the cache know, and when it may: a row naming rooms tells
  of those rooms up to its position, a row naming none tells of everything, provided it is not
  behind what is already known.
\<close>

fun tells :: "(string \<times> int) set \<Rightarrow> action \<Rightarrow> (string \<times> int) set" where
  "tells T (ARecord stream pos rooms users) =
     (if stream = ''events'' then {(r, q) \<in> T. rooms = [] \<or> (r \<in> set rooms \<and> q \<le> pos)} else {})"
| "tells T _ = {}"

fun in_order :: "(string \<times> int) set \<Rightarrow> action \<Rightarrow> bool" where
  "in_order T (ARecord stream pos rooms users) = (stream = ''events'' \<longrightarrow> rooms = [] \<longrightarrow> (\<forall>(r, q) \<in> T. q \<le> pos))"
| "in_order T _ = True"

lemma perform_heard:
  assumes "sc_reach D (events_cache w)" and "gates_exist w" and "D \<subseteq> T" and "in_order T a" and "\<not> is_link a"
    and "perform query a w = Some w'"
  shows "sc_reach (D \<union> tells T a) (events_cache w') \<and> gates_exist w' \<and> wk_sub w' = wk_sub w"
proof (cases a)
  case (ARecord stream pos rooms users)
  from assms(2) obtain g where g: "db_streams (wk_db w) = Some g" by (auto simp: gates_exist_def)
  have w': "db_streams (wk_db w') = feeder_OnStreamAdvance (Some g) stream pos rooms users" "wk_sub w' = wk_sub w"
    using assms(6) ARecord g by auto
  show ?thesis
  proof (cases "stream = ''events''")
    case True
    have nm: "byName (Some g) stream = Some (FEvents, True)" using True by (simp add: byName_def)
    have r: "sc_reach D (sg_get FEvents g)" using assms(1) g by (simp add: events_cache_def)
    have "\<exists>c'. feeder_OnStreamAdvance (Some g) stream pos rooms users = Some c' \<and> sc_reach (D \<union> tells T a) (sg_get FEvents c')"
      by (rule feeder_hears [OF nm r, where subjects = rooms]) (use ARecord True assms(3,4) in auto)
    with w' show ?thesis by (auto simp: events_cache_def gates_exist_def)
  next
    case False
    from feeder_other_stream [OF False, of g pos rooms users] obtain g' where
      "feeder_OnStreamAdvance (Some g) stream pos rooms users = Some g'" "sg_events g' = sg_events g" by auto
    with w' False ARecord assms(1) g show ?thesis by (simp add: events_cache_def gates_exist_def)
  qed
next
  case (AOnRow stream pos d)
  from OnRow_events [of "wk_db w" stream pos d] assms AOnRow show ?thesis
    by (cases "db_streams (wk_db w)"; cases "db_streams (OnRow (wk_db w) stream pos d)") (auto simp: events_cache_def gates_exist_def)
next
  case (AWake stream pos rooms users)
  with assms show ?thesis by (auto simp: events_cache_def gates_exist_def)
qed (use assms in \<open>auto simp: events_cache_def gates_exist_def OnRoomInvalidated_def OnPurge_def\<close>)

lemma tells_subset: "tells T a \<subseteq> T"
  by (cases a) auto

lemma perform_all_heard:
  assumes "sc_reach D (events_cache w)" and "gates_exist w" and "D \<subseteq> T" and "\<forall>a \<in> set as. in_order T a \<and> \<not> is_link a"
    and "perform_all query as w = Some w'"
  shows "sc_reach (D \<union> \<Union> (tells T ` set as)) (events_cache w') \<and> gates_exist w' \<and> wk_sub w' = wk_sub w"
  using assms
proof (induction as arbitrary: D w)
  case (Cons a as)
  from Cons.prems(5) obtain w1 where w1: "perform query a w = Some w1" "perform_all query as w1 = Some w'"
    by (auto simp: bind_eq_Some_conv)
  from perform_heard [OF Cons.prems(1-3) _ _ w1(1)] Cons.prems(4) have
    h: "sc_reach (D \<union> tells T a) (events_cache w1)" "gates_exist w1" "wk_sub w1 = wk_sub w" by auto
  from Cons.IH [OF h(1,2) _ _ w1(2)] Cons.prems(3,4) tells_subset [of T a] h(3) show ?case by (auto simp: Un_assoc)
qed simp

lemma perform_unarmed:
  assumes "\<not> sc_Armed (events_cache w)" and "\<not> is_link a" and "perform query a w = Some w'"
  shows "\<not> sc_Armed (events_cache w')"
proof (cases a)
  case (ARecord stream pos rooms users)
  show ?thesis
  proof (cases "db_streams (wk_db w)")
    case None
    with assms(3) ARecord show ?thesis
      by (auto simp: events_cache_def feeder_OnStreamAdvance_def StreamCacheIsRoomKeyed_def byName_def sc_Armed_def)
  next
    case (Some g)
    with assms(1) have "\<not> sc_Armed (sg_get FEvents g)" by (simp add: events_cache_def)
    from feeder_unarmed [OF this, of stream pos rooms users] assms(3) ARecord Some show ?thesis by (auto simp: events_cache_def)
  qed
next
  case (AOnRow stream pos d)
  from OnRow_events [of "wk_db w" stream pos d] assms AOnRow show ?thesis
    by (cases "db_streams (wk_db w)"; cases "db_streams (OnRow (wk_db w) stream pos d)") (auto simp: events_cache_def)
next
  case (AWake stream pos rooms users)
  with assms show ?thesis by (auto simp: events_cache_def)
qed (use assms in \<open>auto simp: events_cache_def OnRoomInvalidated_def OnPurge_def\<close>)

lemma perform_all_unarmed:
  "\<not> sc_Armed (events_cache w) \<Longrightarrow> \<forall>a \<in> set as. \<not> is_link a \<Longrightarrow> perform_all query as w = Some w' \<Longrightarrow> \<not> sc_Armed (events_cache w')"
proof (induction as arbitrary: w)
  case (Cons a as)
  then obtain w1 where w1: "perform query a w = Some w1" "perform_all query as w1 = Some w'" by (auto simp: bind_eq_Some_conv)
  have "\<not> sc_Armed (events_cache w1)" by (rule perform_unarmed [OF _ _ w1(1)]) (use Cons.prems in auto)
  then show ?case using Cons.IH [OF _ _ w1(2)] Cons.prems(2) by simp
qed simp

text \<open>While the cache is off, anything may have happened.\<close>

lemma unarmed_any: "sc_reach D p \<Longrightarrow> \<not> sc_Armed p \<Longrightarrow> sc_reach X p"
  using sc_reach.unseen [of D p X] sc_reach_subset [of "D \<union> X" p X] by blast

lemma perform_drop:
  assumes "perform query ADrop w = Some w'" and "gates_exist w"
  shows "gates_exist w' \<and> wk_sub w' = wk_sub w \<and> events_cache w' = sc_Disarm (events_cache w)"
proof -
  from assms(2) obtain g where g: "db_streams (wk_db w) = Some g" by (auto simp: gates_exist_def)
  obtain g' where g': "DisarmStreamCaches (Some g) = Some g'" "\<And>f. sg_get f g' = sc_step ScDisarm (sg_get f g)"
    by (rule disarm_fields [of g]) blast
  have "sg_events g' = sc_Disarm (sg_events g)" using g'(2) [of FEvents] by simp
  with g'(1) g assms(1) show ?thesis by (auto simp: on_drop_def gates_exist_def events_cache_def)
qed

lemma prefill_events:
  obtains g' failed where "PrefillStreamCaches query (Some g) positions = (Some g', failed)"
    "(failed \<and> sg_events g' = sg_events g) \<or>
     (\<exists>rows entries minPos. query ''events'' 100000 = Some rows \<and> CacheDict rows (mgetz 0 positions ''events'') = (entries, minPos) \<and>
        sg_events g' = sc_step (ScSeed entries minPos) (sg_events g))"
proof -
  obtain g1 b where l: "prefill_loop query positions prefill_specs g = (g1, b)" by fastforce
  have ev: "(b \<and> sg_events g1 = sg_events g) \<or>
     (\<exists>rows entries minPos. query ''events'' 100000 = Some rows \<and> CacheDict rows (mgetz 0 positions ''events'') = (entries, minPos) \<and>
        sg_events g1 = sc_step (ScSeed entries minPos) (sg_events g))"
  proof (cases "query ''events'' 100000")
    case None
    with l show ?thesis by (simp add: prefill_specs_def)
  next
    case (Some rows)
    obtain entries minPos where cd: "CacheDict rows (mgetz 0 positions ''events'') = (entries, minPos)" by fastforce
    let ?g = "seed_field FEvents entries minPos g" and ?rest = "tl prefill_specs"
    have "prefill_loop query positions ?rest ?g = (g1, b)" using l Some cd by (simp add: prefill_specs_def)
    moreover have "sg_get FEvents (fst (prefill_loop query positions ?rest ?g)) = sg_get FEvents ?g"
      by (rule prefill_loop_other) (simp add: prefill_specs_def)
    ultimately have "sg_events g1 = sc_step (ScSeed entries minPos) (sg_events g)" by (simp add: seed_field_def)
    with Some cd show ?thesis by blast
  qed
  show ?thesis
  proof (cases b)
    case True
    with l ev show ?thesis by (intro that [of g1 True]) (simp_all add: PrefillStreamCaches_def)
  next
    case False
    let ?g = "sg_upd FMembership (\<lambda>c. sc_Arm c (mgetz 0 positions ''events'')) (sg_upd FAccountData (\<lambda>c. sc_Arm c (mgetz 0 positions ''account_data'')) g1)"
    have "sg_events ?g = sg_events g1" by simp
    with l ev False show ?thesis by (intro that [of ?g False]) (simp_all add: PrefillStreamCaches_def)
  qed
qed

definition seeds :: "(string \<times> int) set \<Rightarrow> seed_query \<Rightarrow> bool" where
  "seeds H query \<longleftrightarrow> (\<forall>rows. query ''events'' 100000 = Some rows \<longrightarrow>
     (\<exists>tbl. latest_rows 100000 tbl rows \<and> (\<forall>(r, q) \<in> H. \<exists>q' \<ge> q. (r, q') \<in> set tbl)))"

lemma perform_connect:
  assumes "perform query (AConnect positions) w = Some w'" and "gates_exist w" and "sc_reach D (events_cache w)"
    and "\<not> sc_Armed (events_cache w)" and "seeds H query"
  shows "gates_exist w' \<and> wk_sub w' = wk_sub w \<and> sc_reach H (events_cache w')"
proof -
  from assms(2) obtain g where g: "db_streams (wk_db w) = Some g" by (auto simp: gates_exist_def)
  have r: "sc_reach H (sg_events g)" using unarmed_any [OF assms(3,4)] g by (simp add: events_cache_def)
  obtain g' failed where g': "PrefillStreamCaches query (Some g) positions = (Some g', failed)"
    and ev: "(failed \<and> sg_events g' = sg_events g) \<or>
     (\<exists>rows entries minPos. query ''events'' 100000 = Some rows \<and> CacheDict rows (mgetz 0 positions ''events'') = (entries, minPos) \<and>
        sg_events g' = sc_step (ScSeed entries minPos) (sg_events g))" by (rule prefill_events)
  from ev have r': "sc_reach H (sg_events g')"
  proof (elim disjE exE conjE)
    fix rows entries minPos
    assume *: "query ''events'' 100000 = Some rows" "CacheDict rows (mgetz 0 positions ''events'') = (entries, minPos)"
      "sg_events g' = sc_step (ScSeed entries minPos) (sg_events g)"
    from assms(5) *(1) obtain tbl where "latest_rows 100000 tbl rows" "\<forall>(r, q) \<in> H. \<exists>q' \<ge> q. (r, q') \<in> set tbl"
      by (auto simp: seeds_def)
    from sc_reach.seed [OF r _ this *(2)] *(3) show ?thesis by simp
  qed (use r in simp)
  show ?thesis
  proof (cases failed)
    case True
    obtain g2 where g2: "DisarmStreamCaches (Some g') = Some g2" "\<And>f. sg_get f g2 = sc_step ScDisarm (sg_get f g')"
      by (rule disarm_fields [of g']) blast
    have "sc_reach H (sg_events g2)" using disarmed_reach [OF r', of H] g2(2) [of FEvents] by simp
    with g2(1) g' g assms(1) True show ?thesis by (auto simp: on_connect_def Let_def events_cache_def gates_exist_def)
  next
    case False
    with r' g' g assms(1) show ?thesis by (auto simp: on_connect_def Let_def events_cache_def gates_exist_def)
  qed
qed

section \<open>The worker and the database\<close>

text \<open>
  \<open>feed_reach H w\<close>: the worker can be in state \<open>w\<close> when \<open>H\<close> is the set of events the database holds, as
  pairs of a room and a stream position. The rules are what the code relies on: an event committed
  while the worker follows the stream is above the position announced so far; what a message or a
  reconnect does is \<open>worker_step\<close>; a message that moves the position announces the rooms of the
  events it moves past, or nobody's, and an announcement naming nobody is not behind the position;
  and the table the cache is seeded from holds every room's latest event.
\<close>

definition announced :: "(string \<times> int) set \<Rightarrow> Subscriber \<Rightarrow> Subscriber \<Rightarrow> action list \<Rightarrow> bool" where
  "announced H s s' as \<longleftrightarrow> (sb_live s \<longrightarrow>
     (let T = {(r, q) \<in> H. q \<le> Position s ''events'' \<or> q \<le> Position s' ''events''}
      in (\<forall>a \<in> set as. in_order T a) \<and>
         {(r, q) \<in> H. Position s ''events'' < q \<and> q \<le> Position s' ''events''} \<subseteq> \<Union> (tells T ` set as)))"

inductive feed_reach :: "bool \<Rightarrow> (string \<Rightarrow> json) \<Rightarrow> (string \<times> int) set \<Rightarrow> worker \<Rightarrow> bool" for hasInv parse where
  start: "feed_reach hasInv parse H (new_worker sizes entries)"
| commit: "feed_reach hasInv parse H w \<Longrightarrow> sb_live (wk_sub w) \<longrightarrow> (\<forall>(r, q) \<in> X. Position (wk_sub w) ''events'' < q) \<Longrightarrow>
    feed_reach hasInv parse (H \<union> X) w"
| step: "feed_reach hasInv parse H w \<Longrightarrow> sub_step hasInv parse ev (wk_sub w) = (s', as) \<Longrightarrow> announced H (wk_sub w) s' as \<Longrightarrow>
    seeds H query \<Longrightarrow> worker_step hasInv parse query ev w = Some w' \<Longrightarrow> feed_reach hasInv parse H w'"
| ask: "feed_reach hasInv parse H w \<Longrightarrow>
    feed_reach hasInv parse H (w\<lparr>wk_db := (wk_db w)\<lparr>db_streams := fst (RoomsWithEventsSince (db_streams (wk_db w)) rooms from)\<rparr>\<rparr>)"

definition below :: "(string \<times> int) set \<Rightarrow> int \<Rightarrow> (string \<times> int) set" where
  "below H p = {(r, q) \<in> H. q \<le> p}"

definition feed_inv :: "(string \<times> int) set \<Rightarrow> worker \<Rightarrow> bool" where
  "feed_inv H w \<longleftrightarrow> gates_exist w \<and> sc_reach (below H (Position (wk_sub w) ''events'')) (events_cache w) \<and>
     (\<not> sb_live (wk_sub w) \<longrightarrow> \<not> sc_Armed (events_cache w))"

lemma events_cache_sub [simp]: "events_cache (w\<lparr>wk_sub := s\<rparr>) = events_cache w" "gates_exist (w\<lparr>wk_sub := s\<rparr>) = gates_exist w"
  by (simp_all add: events_cache_def gates_exist_def)

text \<open>A worker whose events cache is off, after actions that do not touch the connection.\<close>

lemma unarmed_run:
  assumes "gates_exist w" and "sc_reach D (events_cache w)" and "\<not> sc_Armed (events_cache w)"
    and "\<forall>a \<in> set as. \<not> is_link a" and "perform_all query as w = Some w'"
  shows "gates_exist w' \<and> sc_reach X (events_cache w') \<and> \<not> sc_Armed (events_cache w') \<and> wk_sub w' = wk_sub w"
proof -
  have "sc_reach {} (events_cache w)" using assms(2) by (rule sc_reach_subset) simp
  moreover have "in_order {} a" for a by (cases a) auto
  ultimately have "sc_reach ({} \<union> \<Union> (tells {} ` set as)) (events_cache w') \<and> gates_exist w' \<and> wk_sub w' = wk_sub w"
    by (intro perform_all_heard [OF _ assms(1) _ _ assms(5)]) (simp_all add: assms(4))
  with unarmed_any [of _ "events_cache w'" X] perform_all_unarmed [OF assms(3-5)] show ?thesis by blast
qed

lemma feed_inv_step:
  assumes "feed_inv H w" and "sub_step hasInv parse ev (wk_sub w) = (s', as)" and "announced H (wk_sub w) s' as"
    and "seeds H query" and "worker_step hasInv parse query ev w = Some w'"
  shows "feed_inv H w'"
proof -
  let ?s = "wk_sub w" and ?w = "w\<lparr>wk_sub := s'\<rparr>"
  have run: "perform_all query as ?w = Some w'" using assms(2,5) by (simp add: worker_step_def)
  have ex: "gates_exist ?w" and r: "sc_reach (below H (Position ?s ''events'')) (events_cache ?w)"
    and off: "\<not> sb_live ?s \<Longrightarrow> \<not> sc_Armed (events_cache ?w)" using assms(1) by (simp_all add: feed_inv_def)
  from step_link [OF assms(2)] consider
      (same) "sb_live s' = sb_live ?s" "\<forall>a \<in> set as. \<not> is_link a"
    | (drop) "\<not> sb_live s'" "hd as = ADrop" "as \<noteq> []" "\<forall>a \<in> set (tl as). \<not> is_link a"
    | (connect) "\<not> sb_live ?s" "sb_live s'" "as = [AConnect (sb_positions s')]" by blast
  then show ?thesis
  proof cases
    case same
    show ?thesis
    proof (cases "sb_live ?s")
      case False
      from unarmed_run [OF ex r off [OF False] same(2) run, of "below H (Position s' ''events'')"] show ?thesis
        by (simp add: feed_inv_def)
    next
      case True
      let ?T = "{(r, q) \<in> H. q \<le> Position ?s ''events'' \<or> q \<le> Position s' ''events''}"
      from assms(3) True have ann: "\<forall>a \<in> set as. in_order ?T a"
        "{(r, q) \<in> H. Position ?s ''events'' < q \<and> q \<le> Position s' ''events''} \<subseteq> \<Union> (tells ?T ` set as)"
        by (simp_all add: announced_def Let_def)
      have "below H (Position ?s ''events'') \<subseteq> ?T" by (auto simp: below_def)
      from perform_all_heard [OF r ex this _ run] ann(1) same(2) have
        h: "sc_reach (below H (Position ?s ''events'') \<union> \<Union> (tells ?T ` set as)) (events_cache w')" "gates_exist w'" "wk_sub w' = s'" by simp_all
      have "below H (Position s' ''events'') \<subseteq> below H (Position ?s ''events'') \<union> \<Union> (tells ?T ` set as)"
        using ann(2) by (auto simp: below_def)
      from sc_reach_subset [OF h(1) this] h(2,3) same(1) True show ?thesis by (simp add: feed_inv_def)
    qed
  next
    case drop
    then obtain as' where as: "as = ADrop # as'" "\<forall>a \<in> set as'. \<not> is_link a" by (cases as) auto
    with run obtain w1 where w1: "perform query ADrop ?w = Some w1" "perform_all query as' w1 = Some w'" by (auto simp: bind_eq_Some_conv)
    from perform_drop [OF w1(1) ex] have d: "gates_exist w1" "wk_sub w1 = s'" "events_cache w1 = sc_Disarm (events_cache ?w)" by simp_all
    have "sc_reach {} (events_cache w1)" using disarmed_reach [OF r, of "{}"] d(3) by simp
    moreover have "\<not> sc_Armed (events_cache w1)" using d(3) disarmed_not_armed by simp
    ultimately show ?thesis
      using unarmed_run [OF d(1) _ _ as(2) w1(2), of "{}" "below H (Position s' ''events'')"] d(2) by (simp add: feed_inv_def)
  next
    case connect
    with run have "perform query (AConnect (sb_positions s')) ?w = Some w'" by (auto simp: bind_eq_Some_conv)
    from perform_connect [OF this ex r off [OF connect(1)] assms(4)] connect(2) show ?thesis
      by (auto simp: feed_inv_def below_def intro: sc_reach_subset)
  qed
qed

lemma feed_reach_inv: "feed_reach hasInv parse H w \<Longrightarrow> feed_inv H w"
proof (induction rule: feed_reach.induct)
  case (start H sizes entries)
  then show ?case
    by (simp add: feed_inv_def new_worker_def gates_exist_def events_cache_def newStreamCaches_def sc_reach.init sub_New_def)
      (simp add: sc_Armed_def sc_New_def)
next
  case (commit H w X)
  show ?case
  proof (cases "sb_live (wk_sub w)")
    case True
    then have "below (H \<union> X) (Position (wk_sub w) ''events'') = below H (Position (wk_sub w) ''events'')"
      using commit.hyps(2) by (auto simp: below_def)
    with commit.IH show ?thesis by (simp add: feed_inv_def)
  next
    case False
    with commit.IH unarmed_any show ?thesis unfolding feed_inv_def by blast
  qed
next
  case (step H w ev s' as query w')
  show ?case by (rule feed_inv_step [OF step.IH step.hyps(2-5)])
next
  case (ask H w rooms pos)
  then obtain g where g: "db_streams (wk_db w) = Some g" by (auto simp: feed_inv_def gates_exist_def)
  let ?e = "sc_step (ScAskMany rooms pos) (sg_events g)"
  have ev: "fst (RoomsWithEventsSince (Some g) rooms pos) = Some (g\<lparr>sg_events := ?e\<rparr>)"
    by (simp add: RoomsWithEventsSince_def split: prod.split)
  have "sc_Armed ?e = sc_Armed (sg_events g)"
    by (cases "sg_events g") (auto simp: sc_EntitiesChanged_def sc_Armed_def sc_hit_def sc_miss_def)
  moreover have "sc_reach (below H (Position (wk_sub w) ''events'')) ?e"
    by (rule sc_reach.ask) (use ask.IH g in \<open>simp_all add: feed_inv_def events_cache_def\<close>)
  ultimately show ?case using ask.IH g ev by (simp add: feed_inv_def events_cache_def gates_exist_def del: sc_step.simps)
qed

text \<open>With the notifier's invariant no step panics.\<close>

lemma perform_total:
  assumes "nt_inv (wk_notifier w)"
  shows "\<exists>w'. perform query a w = Some w' \<and> nt_inv (wk_notifier w') \<and> wk_sub w' = wk_sub w"
proof (cases a)
  case (AWake stream pos rooms users)
  obtain n k where "nt_OnStreamAdvance (wk_notifier w) rooms users = Some (n, k)" "nt_inv n"
    by (rule advance_spec [OF assms])
  with AWake show ?thesis by simp
qed (use assms in simp_all)

lemma perform_all_total:
  "nt_inv (wk_notifier w) \<Longrightarrow> \<exists>w'. perform_all query as w = Some w' \<and> nt_inv (wk_notifier w') \<and> wk_sub w' = wk_sub w"
proof (induction as arbitrary: w)
  case (Cons a as)
  from perform_total [OF Cons.prems, of query a] obtain w1 where
    "perform query a w = Some w1" "nt_inv (wk_notifier w1)" "wk_sub w1 = wk_sub w" by blast
  with Cons.IH [of w1] show ?case by auto
qed simp

lemma worker_step_total:
  assumes "nt_inv (wk_notifier w)"
  obtains w' where "worker_step hasInv parse query ev w = Some w'" "nt_inv (wk_notifier w')"
    "wk_sub w' = fst (sub_step hasInv parse ev (wk_sub w))"
  using perform_all_total [of "w\<lparr>wk_sub := fst (sub_step hasInv parse ev (wk_sub w))\<rparr>" query "snd (sub_step hasInv parse ev (wk_sub w))"] assms
  by (auto simp: worker_step_def case_prod_beta)

section \<open>Properties\<close>

lemma overlay_room: "0 < position ''events'' \<Longrightarrow> rk_Stream (tk_Room (overlayReplication tok position)) = position ''events''"
  by (simp add: overlayReplication_def replicationStreams_def Let_def Live_def)


text \<open>A worker that has connected and then been told of an event in one room.\<close>

definition ev_row :: "string \<Rightarrow> json" where
  "ev_row t = JArr [JStr ''ev'', JArr [JStr ''$e'', JStr ''!r''] []] []"

definition told_sub :: Subscriber where
  "told_sub = fst (sub_run False ev_row [Subscribed, Message (rdata_payload ''events'' ''w'' (FormatInt 7) ''x'')] sub_New)"

lemma told_step:
  "sub_step False ev_row (Message (rdata_payload ''events'' ''w'' (FormatInt 7) ''x'')) s =
    (let s1 = s\<lparr>sb_pending := mdel ''events'' (sb_pending s)\<rparr>
     in apply_batch False s1 ''events'' ''w'' 7 (mgetz [] (sb_pending s) ''events'' @ [rdata_row ev_row ''events'' ''x'']))"
  using FormatInt_word [of 7] ParseInt_FormatInt [of 7] handle_rdata_payload [of "''events''" "''w''" "FormatInt 7" False ev_row s "''x''"]
  by (simp add: one_word_def rdata_def int64_def)

lemma told_worker:
  "\<exists>w. feed_reach False ev_row {(''!r'', 7)} w \<and> wk_sub w = told_sub"
proof -
  define w0 where "w0 = new_worker \<lparr>sz_Events = 0, sz_Membership = 0, sz_Receipts = 0, sz_AccountData = 0, sz_ToDevice = 0, sz_Presence = 0\<rparr>
    \<lparr>ce_EventStateGroup = 0, ce_FilteredState = 0, ce_UserFilter = 0, ce_RoomInfo = 0, ce_AccessToken = 0, ce_RoomSummary = 0, ce_HistoryVisibility = 0, ce_IgnoredUsers = 0, ce_RoomsForUser = 0\<rparr>"
  let ?m = "Message (rdata_payload ''events'' ''w'' (FormatInt 7) ''x'')"
  let ?q = "(\<lambda>t n. None) :: seed_query"
  let ?s1 = "fst (sub_step False ev_row Subscribed sub_New)"
  have nt: "nt_inv (wk_notifier w0)" by (simp add: w0_def new_worker_def nt_New_def nt_inv_def)
  obtain w1 where w1: "worker_step False ev_row ?q Subscribed w0 = Some w1" "nt_inv (wk_notifier w1)" "wk_sub w1 = ?s1"
    by (rule worker_step_total [OF nt, of False ev_row ?q Subscribed]) (simp add: w0_def new_worker_def)
  have start0: "feed_reach False ev_row {} w0" unfolding w0_def by (rule feed_reach.start)
  have "feed_reach False ev_row {} w1"
    by (rule feed_reach.step [OF start0 _ _ _ w1(1)])
      (simp_all add: w0_def new_worker_def sub_New_def setLive_def announced_def seeds_def)
  then have "feed_reach False ev_row ({} \<union> {(''!r'', 7)}) w1"
    by (rule feed_reach.commit) (simp add: w1(3) sub_New_def setLive_def Position_def mgetz_def)
  then have r1: "feed_reach False ev_row {(''!r'', 7)} w1" by simp
  obtain w2 where w2: "worker_step False ev_row ?q ?m w1 = Some w2" "wk_sub w2 = fst (sub_step False ev_row ?m (wk_sub w1))"
    by (rule worker_step_total [OF w1(2), of False ev_row ?q ?m]) simp
  have rec: "ARecord ''events'' 7 [''!r''] [] \<in> set (snd (sub_step False ev_row ?m (wk_sub w1)))"
    and ord: "\<forall>a \<in> set (snd (sub_step False ev_row ?m (wk_sub w1))). in_order T a" for T
    by (auto simp: told_step w1(3) sub_New_def setLive_def Let_def apply_batch_def mgetz_def rdata_row_def rowDetails_def
        ev_row_def event_row_def silentStreams_def json_at_def simp del: sub_step.simps(3))
  have "announced {(''!r'', 7)} (wk_sub w1) (fst (sub_step False ev_row ?m (wk_sub w1))) (snd (sub_step False ev_row ?m (wk_sub w1)))"
    unfolding announced_def Let_def using ord rec by (auto intro!: bexI [OF _ rec])
  from feed_reach.step [OF r1 _ this _ w2(1)] have "feed_reach False ev_row {(''!r'', 7)} w2" by (simp add: seeds_def)
  moreover have "wk_sub w2 = told_sub" using w2(2) w1(3) by (simp add: told_sub_def case_prod_beta Let_def)
  ultimately show ?thesis by blast
qed

lemma told_live: "sb_live told_sub" "Position told_sub ''events'' = 7"
  by (simp_all add: told_sub_def case_prod_beta told_step Let_def sub_New_def setLive_def apply_batch_def mgetz_def advance_def restarted_def resettableStreams_def Position_def del: sub_step.simps(3))




end
