(* ===== verification/Visibility.thy ===== *)
theory Visibility
  imports State_Caches Required_State
begin

text \<open>
  Which events a user may see: the rules of \<^verbatim>\<open>internal/visibility/visibility.go\<close>, the facts they are
  given (\<^verbatim>\<open>VisibilityExtras\<close> of \<^verbatim>\<open>internal/store/room.go\<close>), and \<^verbatim>\<open>ForClient\<close> of
  \<^verbatim>\<open>internal/eventfilter/eventfilter.go\<close>, which resolves the state at each event of a timeline through
  the state caches and applies the rules to it.

  The rules are compared with a specification over the ordered settings and memberships; \<^verbatim>\<open>ForClient\<close>
  with the filter that looks every event's state up in the database. Reading an event's JSON
  (\<^verbatim>\<open>gjson\<close>, \<^verbatim>\<open>encoding/json\<close>) is an argument.
\<close>

section \<open>The rules\<close>

abbreviation WorldReadable :: string where "WorldReadable \<equiv> ''world_readable''"
abbreviation Shared :: string where "Shared \<equiv> ''shared''"
abbreviation Invited :: string where "Invited \<equiv> ''invited''"
abbreviation Joined :: string where "Joined \<equiv> ''joined''"

definition membershipPriority :: "string list" where
  "membershipPriority = [''join'', ''invite'', ''knock'', ''leave'', ''ban'']"

fun index_of :: "nat \<Rightarrow> string \<Rightarrow> string list \<Rightarrow> nat option" where
  "index_of i x [] = None"
| "index_of i x (y # ys) = (if y = x then Some i else index_of (Suc i) x ys)"

definition membershipRank :: "string \<Rightarrow> nat" where
  "membershipRank m = (case index_of 0 m membershipPriority of Some i \<Rightarrow> i | None \<Rightarrow> length membershipPriority - 2)"

definition normaliseMembership :: "string \<Rightarrow> string" where
  "normaliseMembership m = (if m \<in> set membershipPriority then m else ''leave'')"

definition validVisibility :: "string \<Rightarrow> string" where
  "validVisibility v = (if v \<in> {WorldReadable, Shared, Invited, Joined} then v else Shared)"

record Event =
  ev_EventID :: string
  ev_Type :: string
  ev_StateKey :: string
  ev_IsState :: bool
  ev_Sender :: string
  ev_OriginServerTS :: int
  ev_PolicyServerSpammy :: bool
  ev_SoftFailed :: bool
  ev_Membership :: string
  ev_PrevMembership :: string
  ev_PrevHistoryVisibility :: string

record StateAtEvent =
  sa_HistoryVisibility :: string
  sa_UserMembership :: string
  sa_Present :: bool

record Context =
  cx_UserID :: string
  cx_IsPeeking :: bool
  cx_IgnoredSenders :: "string set"
  cx_ErasedSenders :: "string set"
  cx_RetentionMaxLifetimeMS :: int
  cx_NowMS :: int
  cx_ReturnSoftFailed :: bool
  cx_ReturnPolicySpammy :: bool

record Verdict =
  vd_Visible :: bool
  vd_Pruned :: bool
  vd_Membership :: string

definition no_verdict :: Verdict where
  "no_verdict = \<lparr>vd_Visible = False, vd_Pruned = False, vd_Membership = []\<rparr>"

definition passesSendToClientFilter :: "Context \<Rightarrow> Event \<Rightarrow> bool" where
  "passesSendToClientFilter ctx ev =
     (if ev_Type ev = ''org.matrix.dummy_event'' then False
      else if \<not> ev_IsState ev \<and> ev_Sender ev \<in> cx_IgnoredSenders ctx then False
      else if ev_Type ev = ''m.room.aliases'' then False
      else if \<not> ev_IsState ev \<and> cx_RetentionMaxLifetimeMS ctx > 0 \<and>
              ev_OriginServerTS ev < wrap64 (cx_NowMS ctx - cx_RetentionMaxLifetimeMS ctx) then False
      else True)"

definition visibilityRank :: "string \<Rightarrow> nat" where
  "visibilityRank v = (case index_of 0 v [WorldReadable, Shared, Invited, Joined] of Some i \<Rightarrow> i | None \<Rightarrow> 1)"

definition laxAllows :: "Event \<Rightarrow> string \<Rightarrow> bool \<Rightarrow> bool" where
  "laxAllows ev visibility isPeeking =
     (let visibility = (if ev_Type ev = ''m.room.history_visibility'' then
                          let prev = validVisibility (ev_PrevHistoryVisibility ev)
                          in if visibilityRank prev < visibilityRank visibility then prev else visibility
                        else visibility)
      in if visibility = Shared \<and> \<not> isPeeking then True
         else if visibility = WorldReadable then True
         else False)"

definition own_member_event :: "Context \<Rightarrow> Event \<Rightarrow> bool" where
  "own_member_event ctx ev \<longleftrightarrow> ev_Type ev = ''m.room.member'' \<and> ev_StateKey ev = cx_UserID ctx"

text \<open>The result is whether the event may be seen and whether the user was joined.\<close>

definition checkMembership :: "Context \<Rightarrow> Event \<Rightarrow> string \<Rightarrow> StateAtEvent \<Rightarrow> bool \<times> bool" where
  "checkMembership ctx ev visibility st =
     (let own = own_member_event ctx ev;
          current = normaliseMembership (ev_Membership ev);
          prev = normaliseMembership (ev_PrevMembership ev)
      in if own \<and> current = ''leave'' \<and> (prev = ''join'' \<or> prev = ''invite'') then (True, False)
         else
           let membership = (if own then (if membershipRank prev < membershipRank current then prev else current) else []);
               membership = (if membership = [] then sa_UserMembership st else membership)
           in if membership = ''join'' then (True, True)
              else if visibility = Joined then (False, False)
              else if visibility = Invited then (membership = ''invite'', False)
              else if visibility = Shared \<and> cx_IsPeeking ctx then (False, False)
              else (True, False))"

definition MembershipAfter :: "Context \<Rightarrow> Event \<Rightarrow> StateAtEvent \<Rightarrow> string" where
  "MembershipAfter ctx ev st =
     (if own_member_event ctx ev then (if ev_Membership ev \<noteq> [] then ev_Membership ev else ''leave'')
      else if sa_UserMembership st \<noteq> [] then sa_UserMembership st
      else ''leave'')"

definition Check :: "Context \<Rightarrow> Event \<Rightarrow> StateAtEvent \<Rightarrow> Verdict" where
  "Check ctx ev st =
     (if ev_SoftFailed ev \<and> \<not> cx_ReturnSoftFailed ctx \<and> \<not> (cx_ReturnPolicySpammy ctx \<and> ev_PolicyServerSpammy ev) then no_verdict
      else if \<not> passesSendToClientFilter ctx ev then no_verdict
      else if \<not> sa_Present st then
        (if own_member_event ctx ev then \<lparr>vd_Visible = True, vd_Pruned = False, vd_Membership = MembershipAfter ctx ev st\<rparr>
         else no_verdict)
      else
        let visibility = validVisibility (sa_HistoryVisibility st)
        in if ev_Sender ev \<notin> cx_ErasedSenders ctx \<and> laxAllows ev visibility (cx_IsPeeking ctx) then
             \<lparr>vd_Visible = True, vd_Pruned = False, vd_Membership = MembershipAfter ctx ev st\<rparr>
           else (case checkMembership ctx ev visibility st of (allowed, joined) \<Rightarrow>
             if \<not> allowed then no_verdict
             else \<lparr>vd_Visible = True, vd_Pruned = ev_Sender ev \<in> cx_ErasedSenders ctx \<and> \<not> joined,
                    vd_Membership = MembershipAfter ctx ev st\<rparr>))"

section \<open>The facts of a request\<close>

record VisibilityExtras =
  vx_ReturnSoftFailed :: bool
  vx_ReturnPolicySpammy :: bool
  vx_IgnoredSenders :: "string set"
  vx_ErasedSenders :: "string set"
  vx_RetentionMaxLifetimeMS :: int

text \<open>The row the query returns. \<open>ignored_users\<close> and \<open>admin_cfg\<close> are \<^verbatim>\<open>json.Unmarshal\<close> into the two
  structures: the keys of \<^verbatim>\<open>ignored_users\<close>, and the two flags.\<close>

record extras_row =
  xr_ignoredRaw :: "string option"
  xr_erased :: "string list"
  xr_maxLifetime :: "int option"
  xr_isAdmin :: int
  xr_adminCfgRaw :: "string option"

definition extras_of_row ::
  "(string \<Rightarrow> 'e + string list) \<Rightarrow> (string \<Rightarrow> (bool \<times> bool) option) \<Rightarrow> extras_row \<Rightarrow> 'e + VisibilityExtras" where
  "extras_of_row ignored_users admin_cfg row =
     (case (case xr_ignoredRaw row of None \<Rightarrow> Inr [] | Some raw \<Rightarrow> ignored_users raw) of
        Inl err \<Rightarrow> Inl err
      | Inr ignored \<Rightarrow>
          let admin = (if xr_isAdmin row \<noteq> 0 then Option.bind (xr_adminCfgRaw row) admin_cfg else None)
          in Inr \<lparr>vx_ReturnSoftFailed = (case admin of Some (s, p) \<Rightarrow> s | None \<Rightarrow> False),
                  vx_ReturnPolicySpammy = (case admin of Some (s, p) \<Rightarrow> p | None \<Rightarrow> False),
                  vx_IgnoredSenders = set ignored, vx_ErasedSenders = set (xr_erased row),
                  vx_RetentionMaxLifetimeMS = (case xr_maxLifetime row of Some n \<Rightarrow> n | None \<Rightarrow> 0)\<rparr>)"

section \<open>A timeline\<close>

text \<open>Reading a value at a path of an event's JSON: \<^verbatim>\<open>gjson.GetBytes(json, path)\<close>.\<close>

record gjson =
  gj_int :: "string \<Rightarrow> string \<Rightarrow> int"
  gj_string :: "string \<Rightarrow> string \<Rightarrow> string"
  gj_bool :: "string \<Rightarrow> string \<Rightarrow> bool"

definition softFailed :: "gjson \<Rightarrow> string \<Rightarrow> bool" where
  "softFailed gj internalMetadata = (if internalMetadata = [] then False else gj_bool gj internalMetadata ''soft_failed'')"

definition policyServerSpammy :: "gjson \<Rightarrow> string \<Rightarrow> bool" where
  "policyServerSpammy gj internalMetadata = (if internalMetadata = [] then False else gj_bool gj internalMetadata ''policy_server_spammy'')"

definition timelineToVisibilityEvent :: "gjson \<Rightarrow> TimelineEvent \<Rightarrow> Event" where
  "timelineToVisibilityEvent gj ev = \<lparr>ev_EventID = te_EventID ev, ev_Type = te_Type ev, ev_StateKey = te_StateKey ev,
     ev_IsState = te_IsState ev, ev_Sender = te_Sender ev, ev_OriginServerTS = gj_int gj (te_JSON ev) ''origin_server_ts'',
     ev_PolicyServerSpammy = policyServerSpammy gj (te_InternalMetadata ev), ev_SoftFailed = softFailed gj (te_InternalMetadata ev),
     ev_Membership = (if te_Type ev = ''m.room.member'' then gj_string gj (te_JSON ev) ''content.membership'' else []),
     ev_PrevMembership = (if te_Type ev = ''m.room.member'' then gj_string gj (te_JSON ev) ''unsigned.prev_content.membership'' else []),
     ev_PrevHistoryVisibility = (if te_Type ev = ''m.room.history_visibility''
       then gj_string gj (te_JSON ev) ''unsigned.prev_content.history_visibility'' else [])\<rparr>"

record Result =
  rs_Events :: "TimelineEvent list"
  rs_Memberships :: "string list"
  rs_Pruned :: "string list"
  rs_AdminMetadata :: bool

definition visibilityKeys :: "string \<Rightarrow> StateKey list" where
  "visibilityKeys userID = [\<lparr>sk_Type = ''m.room.history_visibility'', sk_StateKey = []\<rparr>, \<lparr>sk_Type = ''m.room.member'', sk_StateKey = userID\<rparr>]"

fun distinct_senders :: "TimelineEvent list \<Rightarrow> string set \<Rightarrow> string list" where
  "distinct_senders [] seen = []"
| "distinct_senders (ev # evs) seen =
     (if te_Sender ev \<in> seen then distinct_senders evs seen
      else te_Sender ev # distinct_senders evs (insert (te_Sender ev) seen))"

text \<open>The state of every group, once each, in the order the map of groups is visited.\<close>

fun resolve_groups ::
  "(int \<Rightarrow> StateKey list \<Rightarrow> ('e, StateKey \<times> StateEntry) rows) \<Rightarrow> StateKey list \<Rightarrow> (string \<times> int) list \<Rightarrow> (int, state) gomap \<Rightarrow>
   caches \<Rightarrow> caches \<times> ('e + (int, state) gomap)" where
  "resolve_groups query keys [] stateByGroup cs = (cs, Inr stateByGroup)"
| "resolve_groups query keys ((i, g) # groups) stateByGroup cs =
     (if mget stateByGroup g \<noteq> None then resolve_groups query keys groups stateByGroup cs
      else (case FilteredStateForGroup query cs g keys of
              (cs1, Inl err) \<Rightarrow> (cs1, Inl err)
            | (cs1, Inr st) \<Rightarrow> resolve_groups query keys groups (mput g st stateByGroup) cs1))"

definition zero_entry :: StateEntry where
  "zero_entry = \<lparr>se_EventID = [], se_Membership = [], se_HistoryVisibility = []\<rparr>"

definition state_at :: "(string, int) gomap \<Rightarrow> (int, state) gomap \<Rightarrow> string \<Rightarrow> string \<Rightarrow> StateAtEvent" where
  "state_at groups stateByGroup userID eventID =
     (case mget groups eventID of
        None \<Rightarrow> \<lparr>sa_HistoryVisibility = [], sa_UserMembership = [], sa_Present = False\<rparr>
      | Some g \<Rightarrow>
          let resolved = mgetz [] stateByGroup g
          in \<lparr>sa_HistoryVisibility = se_HistoryVisibility (mgetz zero_entry resolved \<lparr>sk_Type = ''m.room.history_visibility'', sk_StateKey = []\<rparr>),
              sa_UserMembership = se_Membership (mgetz zero_entry resolved \<lparr>sk_Type = ''m.room.member'', sk_StateKey = userID\<rparr>),
              sa_Present = True\<rparr>)"

text \<open>The verdict on one event, after \<^verbatim>\<open>alwaysInclude\<close> had its say.\<close>

definition judge :: "Context \<Rightarrow> string set \<Rightarrow> Event \<Rightarrow> StateAtEvent \<Rightarrow> Verdict" where
  "judge vctx alwaysInclude vev st =
     (let verdict = Check vctx vev st
      in if ev_EventID vev \<in> alwaysInclude then
           (let verdict = (if \<not> vd_Visible verdict then verdict\<lparr>vd_Membership := MembershipAfter vctx vev st\<rparr> else verdict)
            in verdict\<lparr>vd_Visible := True, vd_Pruned := False\<rparr>)
         else verdict)"

fun keep_loop :: "(TimelineEvent \<Rightarrow> Verdict) \<Rightarrow> TimelineEvent list \<Rightarrow> TimelineEvent list \<Rightarrow> string list \<Rightarrow> string list \<Rightarrow>
    TimelineEvent list \<times> string list \<times> string list" where
  "keep_loop verdict_on [] kept memberships pruned = (kept, memberships, pruned)"
| "keep_loop verdict_on (ev # events) kept memberships pruned =
     (let verdict = verdict_on ev
      in if \<not> vd_Visible verdict then keep_loop verdict_on events kept memberships pruned
         else if vd_Pruned verdict then keep_loop verdict_on events kept memberships (pruned @ [te_EventID ev])
         else keep_loop verdict_on events (kept @ [ev]) (memberships @ [vd_Membership verdict]) pruned)"

definition vis_context :: "string \<Rightarrow> bool \<Rightarrow> int \<Rightarrow> VisibilityExtras \<Rightarrow> Context" where
  "vis_context userID isPeeking nowMS extra = \<lparr>cx_UserID = userID, cx_IsPeeking = isPeeking, cx_IgnoredSenders = vx_IgnoredSenders extra,
     cx_ErasedSenders = vx_ErasedSenders extra, cx_RetentionMaxLifetimeMS = vx_RetentionMaxLifetimeMS extra, cx_NowMS = nowMS,
     cx_ReturnSoftFailed = vx_ReturnSoftFailed extra, cx_ReturnPolicySpammy = vx_ReturnPolicySpammy extra\<rparr>"

definition ForClient ::
  "gjson \<Rightarrow> (string list \<Rightarrow> ('e, string \<times> int) rows) \<Rightarrow> (int \<Rightarrow> StateKey list \<Rightarrow> ('e, StateKey \<times> StateEntry) rows) \<Rightarrow>
   (string \<Rightarrow> string \<Rightarrow> string list \<Rightarrow> 'e + VisibilityExtras) \<Rightarrow> ((string, int) gomap \<Rightarrow> (string \<times> int) list) \<Rightarrow>
   caches \<Rightarrow> string \<Rightarrow> string \<Rightarrow> TimelineEvent list \<Rightarrow> bool \<Rightarrow> int \<Rightarrow> string set \<Rightarrow> caches \<times> ('e + Result)" where
  "ForClient gj groupq stateq extras visit cs roomID userID events isPeeking nowMS alwaysInclude =
     (if events = [] then (cs, Inr \<lparr>rs_Events = events, rs_Memberships = [], rs_Pruned = [], rs_AdminMetadata = False\<rparr>)
      else (case StateGroupsForEvents groupq cs (map te_EventID events) of
        (cs1, Inl err) \<Rightarrow> (cs1, Inl err)
      | (cs1, Inr groups) \<Rightarrow>
          (case resolve_groups stateq (visibilityKeys userID) (visit groups) [] cs1 of
             (cs2, Inl err) \<Rightarrow> (cs2, Inl err)
           | (cs2, Inr stateByGroup) \<Rightarrow>
               (case extras roomID userID (distinct_senders events {}) of
                  Inl err \<Rightarrow> (cs2, Inl err)
                | Inr extra \<Rightarrow>
                    let vctx = vis_context userID isPeeking nowMS extra;
                        verdict_on = (\<lambda>ev. judge vctx alwaysInclude (timelineToVisibilityEvent gj ev) (state_at groups stateByGroup userID (te_EventID ev)))
                    in (case keep_loop verdict_on events [] [] [] of (kept, memberships, pruned) \<Rightarrow>
                          (cs2, Inr \<lparr>rs_Events = kept, rs_Memberships = memberships, rs_Pruned = pruned,
                             rs_AdminMetadata = vx_ReturnSoftFailed extra \<or> vx_ReturnPolicySpammy extra\<rparr>))))))"

section \<open>The specification\<close>

text \<open>The settings, most permissive first, and the memberships, most joined first.\<close>

datatype vis = VWorld | VShared | VInvited | VJoined
datatype mem = MJoin | MInvite | MKnock | MLeave | MBan

fun vis_rank :: "vis \<Rightarrow> nat" where
  "vis_rank VWorld = 0" | "vis_rank VShared = 1" | "vis_rank VInvited = 2" | "vis_rank VJoined = 3"

fun mem_rank :: "mem \<Rightarrow> nat" where
  "mem_rank MJoin = 0" | "mem_rank MInvite = 1" | "mem_rank MKnock = 2" | "mem_rank MLeave = 3" | "mem_rank MBan = 4"

instantiation vis :: linorder
begin

definition less_eq_vis :: "vis \<Rightarrow> vis \<Rightarrow> bool" where "less_eq_vis a b \<longleftrightarrow> vis_rank a \<le> vis_rank b"
definition less_vis :: "vis \<Rightarrow> vis \<Rightarrow> bool" where "less_vis a b \<longleftrightarrow> vis_rank a < vis_rank b"

instance
proof
  fix a b :: vis
  show "a \<le> b \<Longrightarrow> b \<le> a \<Longrightarrow> a = b" by (cases a; cases b) (simp_all add: less_eq_vis_def)
qed (auto simp: less_eq_vis_def less_vis_def)

end

instantiation mem :: linorder
begin

definition less_eq_mem :: "mem \<Rightarrow> mem \<Rightarrow> bool" where "less_eq_mem a b \<longleftrightarrow> mem_rank a \<le> mem_rank b"
definition less_mem :: "mem \<Rightarrow> mem \<Rightarrow> bool" where "less_mem a b \<longleftrightarrow> mem_rank a < mem_rank b"

instance
proof
  fix a b :: mem
  show "a \<le> b \<Longrightarrow> b \<le> a \<Longrightarrow> a = b" by (cases a; cases b) (simp_all add: less_eq_mem_def)
qed (auto simp: less_eq_mem_def less_mem_def)

end

definition vis_of :: "string \<Rightarrow> vis" where
  "vis_of s = (if s = WorldReadable then VWorld else if s = Invited then VInvited else if s = Joined then VJoined else VShared)"

definition mem_of :: "string \<Rightarrow> mem" where
  "mem_of s = (if s = ''join'' then MJoin else if s = ''invite'' then MInvite else if s = ''knock'' then MKnock
     else if s = ''ban'' then MBan else MLeave)"

text \<open>
  The setting an event is judged by (for the event that changes it, the more permissive side), the
  user's membership at an event (for their own membership event, the more joined side), and who
  sees an event in a room whose state at the event is known.
\<close>

definition setting_around :: "Event \<Rightarrow> vis \<Rightarrow> vis" where
  "setting_around ev v = (if ev_Type ev = ''m.room.history_visibility'' then min (vis_of (ev_PrevHistoryVisibility ev)) v else v)"

definition member_then :: "Context \<Rightarrow> Event \<Rightarrow> StateAtEvent \<Rightarrow> mem" where
  "member_then ctx ev st = (if own_member_event ctx ev then min (mem_of (ev_PrevMembership ev)) (mem_of (ev_Membership ev))
     else mem_of (sa_UserMembership st))"

definition own_departure :: "Context \<Rightarrow> Event \<Rightarrow> bool" where
  "own_departure ctx ev \<longleftrightarrow> own_member_event ctx ev \<and> mem_of (ev_Membership ev) = MLeave \<and> mem_of (ev_PrevMembership ev) \<le> MInvite"

definition open_to :: "Context \<Rightarrow> vis \<Rightarrow> bool" where
  "open_to ctx v \<longleftrightarrow> v = VWorld \<or> v = VShared \<and> \<not> cx_IsPeeking ctx"

definition sees :: "Context \<Rightarrow> Event \<Rightarrow> StateAtEvent \<Rightarrow> bool" where
  "sees ctx ev st \<longleftrightarrow>
     (let v = vis_of (sa_HistoryVisibility st)
      in own_departure ctx ev \<or> member_then ctx ev st = MJoin \<or>
         v = VInvited \<and> member_then ctx ev st = MInvite \<or>
         open_to ctx v \<or> (ev_Sender ev \<notin> cx_ErasedSenders ctx \<and> open_to ctx (setting_around ev v)))"

definition withheld :: "Context \<Rightarrow> Event \<Rightarrow> bool" where
  "withheld ctx ev \<longleftrightarrow>
     (ev_SoftFailed ev \<and> \<not> (cx_ReturnSoftFailed ctx \<or> cx_ReturnPolicySpammy ctx \<and> ev_PolicyServerSpammy ev)) \<or>
     ev_Type ev \<in> {''org.matrix.dummy_event'', ''m.room.aliases''} \<or>
     (\<not> ev_IsState ev \<and> (ev_Sender ev \<in> cx_IgnoredSenders ctx \<or>
        0 < cx_RetentionMaxLifetimeMS ctx \<and> ev_OriginServerTS ev + cx_RetentionMaxLifetimeMS ctx < cx_NowMS ctx))"

lemma valid_cases:
  "validVisibility s = WorldReadable \<and> vis_of s = VWorld \<or> validVisibility s = Shared \<and> vis_of s = VShared \<or>
   validVisibility s = Invited \<and> vis_of s = VInvited \<or> validVisibility s = Joined \<and> vis_of s = VJoined"
  by (simp add: validVisibility_def vis_of_def)

lemma normal_cases:
  "normaliseMembership s = ''join'' \<and> mem_of s = MJoin \<or> normaliseMembership s = ''invite'' \<and> mem_of s = MInvite \<or>
   normaliseMembership s = ''knock'' \<and> mem_of s = MKnock \<or> normaliseMembership s = ''leave'' \<and> mem_of s = MLeave \<or>
   normaliseMembership s = ''ban'' \<and> mem_of s = MBan"
  by (simp add: normaliseMembership_def mem_of_def membershipPriority_def)

lemma lax_spec: "laxAllows ev (validVisibility s) peek = open_to (ctx\<lparr>cx_IsPeeking := peek\<rparr>) (setting_around ev (vis_of s))"
  using valid_cases [of s] valid_cases [of "ev_PrevHistoryVisibility ev"]
  by (elim disjE conjE)
    (simp_all add: laxAllows_def open_to_def setting_around_def visibilityRank_def Let_def min_def less_eq_vis_def)

lemma lax_open: "laxAllows ev (validVisibility s) (cx_IsPeeking ctx) = open_to ctx (setting_around ev (vis_of s))"
  using lax_spec [of ev s "cx_IsPeeking ctx" ctx] by simp

text \<open>The string the rules compare is the more joined side of the transition.\<close>

lemma own_membership:
  assumes "p = normaliseMembership prev" "c = normaliseMembership cur" "m = (if membershipRank p < membershipRank c then p else c)"
  shows "m \<noteq> [] \<and> (m = ''join'' \<longleftrightarrow> min (mem_of prev) (mem_of cur) = MJoin) \<and> (m = ''invite'' \<longleftrightarrow> min (mem_of prev) (mem_of cur) = MInvite)"
  using normal_cases [of prev] normal_cases [of cur] assms
  by (elim disjE conjE) (simp_all add: membershipRank_def membershipPriority_def min_def less_eq_mem_def)

lemma member_spec:
  "fst (checkMembership ctx ev (validVisibility s) st) \<longleftrightarrow>
     own_departure ctx ev \<or> member_then ctx ev st = MJoin \<or> vis_of s = VInvited \<and> member_then ctx ev st = MInvite \<or> open_to ctx (vis_of s)"
  "snd (checkMembership ctx ev (validVisibility s) st) \<longleftrightarrow> \<not> own_departure ctx ev \<and> member_then ctx ev st = MJoin"
proof -
  let ?p = "normaliseMembership (ev_PrevMembership ev)" and ?c = "normaliseMembership (ev_Membership ev)"
  define m where "m = (if own_member_event ctx ev then (if membershipRank ?p < membershipRank ?c then ?p else ?c) else sa_UserMembership st)"
  have m: "m = ''join'' \<longleftrightarrow> member_then ctx ev st = MJoin" "m = ''invite'' \<longleftrightarrow> member_then ctx ev st = MInvite"
    using own_membership [OF refl refl refl, of "ev_PrevMembership ev" "ev_Membership ev"]
    by (auto simp: m_def member_then_def mem_of_def)
  have dep: "own_departure ctx ev \<longleftrightarrow> own_member_event ctx ev \<and> ?c = ''leave'' \<and> (?p = ''join'' \<or> ?p = ''invite'')"
    using normal_cases [of "ev_PrevMembership ev"] normal_cases [of "ev_Membership ev"]
    unfolding own_departure_def less_eq_mem_def by (elim disjE conjE) simp_all
  have eq: "checkMembership ctx ev (validVisibility s) st = (if own_departure ctx ev then (True, False)
      else if m = ''join'' then (True, True) else if validVisibility s = Joined then (False, False)
      else if validVisibility s = Invited then (m = ''invite'', False)
      else if validVisibility s = Shared \<and> cx_IsPeeking ctx then (False, False) else (True, False))"
  proof -
    define x where "x = (if membershipRank ?p < membershipRank ?c then ?p else ?c)"
    have "x \<noteq> []" using own_membership [OF refl refl x_def] by blast
    then show ?thesis unfolding checkMembership_def Let_def dep m_def x_def [symmetric] by auto
  qed
  show "fst (checkMembership ctx ev (validVisibility s) st) \<longleftrightarrow>
     own_departure ctx ev \<or> member_then ctx ev st = MJoin \<or> vis_of s = VInvited \<and> member_then ctx ev st = MInvite \<or> open_to ctx (vis_of s)"
    unfolding eq open_to_def using valid_cases [of s] m by (elim disjE conjE) simp_all
  show "snd (checkMembership ctx ev (validVisibility s) st) \<longleftrightarrow> \<not> own_departure ctx ev \<and> member_then ctx ev st = MJoin"
    unfolding eq using m by simp
qed

lemma filter_spec:
  assumes "0 \<le> cx_NowMS ctx" "int64 (cx_NowMS ctx)" "int64 (cx_RetentionMaxLifetimeMS ctx)"
  shows "withheld ctx ev \<longleftrightarrow> \<not> passesSendToClientFilter ctx ev \<or>
    ev_SoftFailed ev \<and> \<not> cx_ReturnSoftFailed ctx \<and> \<not> (cx_ReturnPolicySpammy ctx \<and> ev_PolicyServerSpammy ev)"
proof -
  have "wrap64 (cx_NowMS ctx - cx_RetentionMaxLifetimeMS ctx) = cx_NowMS ctx - cx_RetentionMaxLifetimeMS ctx" if "0 < cx_RetentionMaxLifetimeMS ctx"
    using assms that by (intro wrap64_id) (simp add: int64_def)
  then show ?thesis by (auto simp: withheld_def passesSendToClientFilter_def)
qed

lemma check_spec:
  assumes "0 \<le> cx_NowMS ctx" "int64 (cx_NowMS ctx)" "int64 (cx_RetentionMaxLifetimeMS ctx)"
  shows "vd_Visible (Check ctx ev st) \<longleftrightarrow> \<not> withheld ctx ev \<and> (if sa_Present st then sees ctx ev st else own_member_event ctx ev)"
    and "vd_Pruned (Check ctx ev st) \<longleftrightarrow> vd_Visible (Check ctx ev st) \<and> sa_Present st \<and> ev_Sender ev \<in> cx_ErasedSenders ctx \<and>
      \<not> (member_then ctx ev st = MJoin \<and> \<not> own_departure ctx ev)"
    and "vd_Visible (Check ctx ev st) \<Longrightarrow> vd_Membership (Check ctx ev st) = MembershipAfter ctx ev st"
proof -
  note m = member_spec [of ctx ev "sa_HistoryVisibility st" st] and l = lax_open [of ev "sa_HistoryVisibility st" ctx]
  obtain a j where aj: "checkMembership ctx ev (validVisibility (sa_HistoryVisibility st)) st = (a, j)" by fastforce
  show "vd_Visible (Check ctx ev st) \<longleftrightarrow> \<not> withheld ctx ev \<and> (if sa_Present st then sees ctx ev st else own_member_event ctx ev)"
    using m l aj unfolding filter_spec [OF assms] by (auto simp: Check_def no_verdict_def sees_def Let_def)
  show "vd_Pruned (Check ctx ev st) \<longleftrightarrow> vd_Visible (Check ctx ev st) \<and> sa_Present st \<and> ev_Sender ev \<in> cx_ErasedSenders ctx \<and>
      \<not> (member_then ctx ev st = MJoin \<and> \<not> own_departure ctx ev)"
    using m aj by (auto simp: Check_def no_verdict_def Let_def)
  show "vd_Visible (Check ctx ev st) \<Longrightarrow> vd_Membership (Check ctx ev st) = MembershipAfter ctx ev st"
    by (auto simp: Check_def no_verdict_def Let_def split: if_splits prod.splits)
qed

section \<open>The timeline filter against the database\<close>

text \<open>The state at an event as the database has it.\<close>

definition db_state_at :: "groups_of \<Rightarrow> state_of \<Rightarrow> string \<Rightarrow> string \<Rightarrow> StateAtEvent" where
  "db_state_at G F userID eventID =
     (case G eventID of
        None \<Rightarrow> \<lparr>sa_HistoryVisibility = [], sa_UserMembership = [], sa_Present = False\<rparr>
      | Some g \<Rightarrow> \<lparr>sa_HistoryVisibility = (case F g \<lparr>sk_Type = ''m.room.history_visibility'', sk_StateKey = []\<rparr> of Some e \<Rightarrow> se_HistoryVisibility e | None \<Rightarrow> []),
          sa_UserMembership = (case F g \<lparr>sk_Type = ''m.room.member'', sk_StateKey = userID\<rparr> of Some e \<Rightarrow> se_Membership e | None \<Rightarrow> []),
          sa_Present = True\<rparr>)"

lemma keep_loop_spec:
  "keep_loop v events kept ms pr =
     (kept @ filter (\<lambda>e. vd_Visible (v e) \<and> \<not> vd_Pruned (v e)) events,
      ms @ map (\<lambda>e. vd_Membership (v e)) (filter (\<lambda>e. vd_Visible (v e) \<and> \<not> vd_Pruned (v e)) events),
      pr @ map te_EventID (filter (\<lambda>e. vd_Visible (v e) \<and> vd_Pruned (v e)) events))"
  by (induction events arbitrary: kept ms pr) (simp_all add: Let_def)

lemma plain_visibility_keys: "plain userID \<Longrightarrow> plain_keys (visibilityKeys userID)"
  by (simp add: plain_keys_def visibilityKeys_def plain_def)

lemma filtered_as_wildcards: "FilteredStateForGroup (\<lambda>g k. query g k []) cs sg keys = StateForGroupWithWildcards (\<lambda>g k. query g k []) query cs sg keys []"
  by (simp add: StateForGroupWithWildcards_def)

text \<open>Every group visited is resolved, to what the database holds for the keys.\<close>

lemma resolve_groups_spec:
  assumes "filtered_sound F (ca_filteredState cs)" and "answers_state F query" and "plain_keys keys"
    and "\<forall>g st. mget acc g = Some st \<longrightarrow> mget st = asked F g keys []"
    and "resolve_groups (\<lambda>g k. query g k []) keys groups acc cs = (cs', r)"
  shows "filtered_sound F (ca_filteredState cs') \<and> ca_eventStateGroup cs' = ca_eventStateGroup cs \<and>
    (case r of Inr out \<Rightarrow> (\<forall>g st. mget out g = Some st \<longrightarrow> mget st = asked F g keys []) \<and>
                 dom (mget acc) \<union> snd ` set groups \<subseteq> dom (mget out)
     | Inl e \<Rightarrow> \<exists>g. snd (query g keys []) = Some e)"
  using assms
proof (induction groups arbitrary: acc cs)
  case Nil
  then show ?case by auto
next
  case (Cons ig groups)
  obtain i g where ig: "ig = (i, g)" by fastforce
  show ?case
  proof (cases "mget acc g")
    case (Some st)
    with Cons.prems(5) ig have "resolve_groups (\<lambda>g k. query g k []) keys groups acc cs = (cs', r)" by simp
    from Cons.IH [OF Cons.prems(1-4) this] Some ig show ?thesis by (auto split: sum.splits)
  next
    case None
    obtain cs1 q where q: "FilteredStateForGroup (\<lambda>g k. query g k []) cs g keys = (cs1, q)" by fastforce
    from state_spec [OF Cons.prems(1-3) _ q [unfolded filtered_as_wildcards]]
    have s: "filtered_sound F (ca_filteredState cs1)" "ca_eventStateGroup cs1 = ca_eventStateGroup cs"
      "case q of Inr st \<Rightarrow> mget st = asked F g keys [] | Inl e \<Rightarrow> snd (query g keys []) = Some e" by simp_all
    show ?thesis
    proof (cases q)
      case (Inl e)
      with None q s ig Cons.prems(5) show ?thesis by auto
    next
      case (Inr st)
      have a: "\<forall>g' st'. mget (mput g st acc) g' = Some st' \<longrightarrow> mget st' = asked F g' keys []"
      proof (intro allI impI)
        fix g' st' assume "mget (mput g st acc) g' = Some st'"
        then show "mget st' = asked F g' keys []" using s(3) Inr Cons.prems(4) by (cases "g' = g") simp_all
      qed
      from None q Inr ig Cons.prems(5) have "resolve_groups (\<lambda>g k. query g k []) keys groups (mput g st acc) cs1 = (cs', r)" by simp
      from Cons.IH [OF s(1) Cons.prems(2,3) a this] s(2) ig show ?thesis unfolding dom_mput by (auto split: sum.splits)
    qed
  qed
qed

lemma state_at_is_db:
  assumes "\<forall>g st. mget sbg g = Some st \<longrightarrow> mget st = asked F g (visibilityKeys userID) []" and "snd ` set groups \<subseteq> dom (mget sbg)"
    and "mget groups eventID = G eventID"
  shows "state_at groups sbg userID eventID = db_state_at G F userID eventID"
proof (cases "G eventID")
  case None
  with assms(3) show ?thesis by (simp add: state_at_def db_state_at_def)
next
  case (Some g)
  with assms(3) have "(eventID, g) \<in> set groups" using map_of_SomeD by metis
  with assms(2) obtain st where st: "mget sbg g = Some st" by force
  have "mget st k = F g k" if "k \<in> set (visibilityKeys userID)" for k
    using assms(1) [THEN spec, THEN spec, THEN mp, OF st] that by (simp add: asked_def)
  then have "mget st \<lparr>sk_Type = ''m.room.history_visibility'', sk_StateKey = []\<rparr> = F g \<lparr>sk_Type = ''m.room.history_visibility'', sk_StateKey = []\<rparr>"
    "mget st \<lparr>sk_Type = ''m.room.member'', sk_StateKey = userID\<rparr> = F g \<lparr>sk_Type = ''m.room.member'', sk_StateKey = userID\<rparr>"
    by (simp_all add: visibilityKeys_def)
  with Some assms(3) st show ?thesis
    by (simp add: state_at_def db_state_at_def mgetz_def zero_entry_def Let_def split: option.split)
qed

text \<open>The filter as the database would have it decided, event by event.\<close>

definition db_verdict :: "gjson \<Rightarrow> groups_of \<Rightarrow> state_of \<Rightarrow> Context \<Rightarrow> string set \<Rightarrow> TimelineEvent \<Rightarrow> Verdict" where
  "db_verdict gj G F vctx always ev = judge vctx always (timelineToVisibilityEvent gj ev) (db_state_at G F (cx_UserID vctx) (te_EventID ev))"

definition db_filter :: "gjson \<Rightarrow> groups_of \<Rightarrow> state_of \<Rightarrow> Context \<Rightarrow> string set \<Rightarrow> TimelineEvent list \<Rightarrow> TimelineEvent list" where
  "db_filter gj G F vctx always events =
     filter (\<lambda>ev. vd_Visible (db_verdict gj G F vctx always ev) \<and> \<not> vd_Pruned (db_verdict gj G F vctx always ev)) events"

lemma for_client_spec:
  assumes "caches_sound G F cs" and "answers_groups G gq" and "answers_state F sq" and "plain userID" and "\<And>m. set (visit m) = set m"
    and "ForClient gj gq (\<lambda>g k. sq g k []) extras visit cs roomID userID events isPeeking nowMS always = (cs', Inr res)" and "events \<noteq> []"
  shows "caches_sound G F cs' \<and> (\<exists>extra. extras roomID userID (distinct_senders events {}) = Inr extra \<and>
     rs_Events res = db_filter gj G F (vis_context userID isPeeking nowMS extra) always events \<and>
     rs_Memberships res = map (\<lambda>ev. vd_Membership (db_verdict gj G F (vis_context userID isPeeking nowMS extra) always ev)) (rs_Events res))"
proof -
  obtain cs1 g where g: "StateGroupsForEvents gq cs (map te_EventID events) = (cs1, g)" by fastforce
  from assms(6,7) g obtain groups where groups: "g = Inr groups" by (cases g) (auto simp: ForClient_def)
  from groups_spec [OF _ _ assms(2) g] assms(1) groups have
    g1: "lru_ok (ca_eventStateGroup cs1)" "held_by (lru_lookup (ca_eventStateGroup cs1)) G" "ca_filteredState cs1 = ca_filteredState cs"
      "\<forall>i. mget groups i = (if i \<in> set (map te_EventID events) then G i else None)" by (simp_all add: caches_sound_def)
  let ?keys = "visibilityKeys userID"
  obtain cs2 r where r: "resolve_groups (\<lambda>g k. sq g k []) ?keys (visit groups) [] cs1 = (cs2, r)" by fastforce
  from assms(6,7) g groups r obtain sbg where sbg: "r = Inr sbg" by (cases r) (auto simp: ForClient_def)
  have "filtered_sound F (ca_filteredState cs1)" using assms(1) g1(3) by (simp add: caches_sound_def)
  from resolve_groups_spec [OF this assms(3) plain_visibility_keys [OF assms(4)] _ r] sbg assms(5)
  have s: "filtered_sound F (ca_filteredState cs2)" "ca_eventStateGroup cs2 = ca_eventStateGroup cs1"
    "\<forall>g st. mget sbg g = Some st \<longrightarrow> mget st = asked F g ?keys []" "snd ` set groups \<subseteq> dom (mget sbg)" by simp_all
  from assms(6,7) g groups r sbg obtain extra where x: "extras roomID userID (distinct_senders events {}) = Inr extra"
    by (cases "extras roomID userID (distinct_senders events {})") (auto simp: ForClient_def)
  let ?v = "\<lambda>ev. judge (vis_context userID isPeeking nowMS extra) always (timelineToVisibilityEvent gj ev) (state_at groups sbg userID (te_EventID ev))"
  let ?d = "db_verdict gj G F (vis_context userID isPeeking nowMS extra) always"
  have same: "?v ev = ?d ev" if "ev \<in> set events" for ev
    using state_at_is_db [OF s(3,4), of "te_EventID ev" G] g1(4) that by (simp add: db_verdict_def vis_context_def)
  have res: "cs' = cs2" "rs_Events res = filter (\<lambda>e. vd_Visible (?v e) \<and> \<not> vd_Pruned (?v e)) events"
    "rs_Memberships res = map (\<lambda>e. vd_Membership (?v e)) (filter (\<lambda>e. vd_Visible (?v e) \<and> \<not> vd_Pruned (?v e)) events)"
    using assms(6,7) g groups r sbg x by (auto simp: ForClient_def Let_def keep_loop_spec)
  have ev: "rs_Events res = db_filter gj G F (vis_context userID isPeeking nowMS extra) always events"
    unfolding res(2) db_filter_def by (rule filter_cong) (simp_all add: same)
  have "rs_Memberships res = map (\<lambda>e. vd_Membership (?v e)) (rs_Events res)" unfolding res(2,3) ..
  also have "\<dots> = map (\<lambda>e. vd_Membership (?d e)) (rs_Events res)"
    by (rule map_cong) (auto simp: res(2) same)
  finally have "rs_Memberships res = map (\<lambda>e. vd_Membership (?d e)) (rs_Events res)" .
  moreover have "caches_sound G F cs'" using res(1) s(1,2) g1(1,2) by (simp add: caches_sound_def)
  ultimately show ?thesis using ev x by blast
qed

section \<open>Properties\<close>

text \<open>
  C15. The rules are the specification. With a clock and a retention policy in range, \<^verbatim>\<open>Check\<close> shows an
  event exactly when it is not withheld from clients and, where the state at the event is known, the
  user sees it by their membership then or by the setting then (for the event that changes the
  setting, by the more permissive side; for their own membership event, by the more joined side);
  an outlier only when it is their own membership. It prunes exactly the shown events of an erased
  sender that the user was not joined for.
\<close>

theorem check_refines_visibility_spec:
  assumes "0 \<le> cx_NowMS ctx" and "int64 (cx_NowMS ctx)" and "int64 (cx_RetentionMaxLifetimeMS ctx)"
  shows "(vd_Visible (Check ctx ev st) \<longleftrightarrow>
            \<not> withheld ctx ev \<and> (if sa_Present st then sees ctx ev st else own_member_event ctx ev)) \<and>
         (vd_Pruned (Check ctx ev st) \<longleftrightarrow> vd_Visible (Check ctx ev st) \<and> sa_Present st \<and> ev_Sender ev \<in> cx_ErasedSenders ctx \<and>
            \<not> (member_then ctx ev st = MJoin \<and> \<not> own_departure ctx ev)) \<and>
         vd_Membership (Check ctx ev st) = (if vd_Visible (Check ctx ev st) then MembershipAfter ctx ev st else [])"
proof -
  have "\<not> vd_Visible (Check ctx ev st) \<Longrightarrow> vd_Membership (Check ctx ev st) = []"
    by (auto simp: Check_def no_verdict_def Let_def split: if_splits prod.splits)
  with check_spec [OF assms, of ev st] show ?thesis by simp
qed

definition wit_context :: Context where
  "wit_context = \<lparr>cx_UserID = ''@u'', cx_IsPeeking = False, cx_IgnoredSenders = {}, cx_ErasedSenders = {}, cx_RetentionMaxLifetimeMS = 0,
     cx_NowMS = 1000, cx_ReturnSoftFailed = False, cx_ReturnPolicySpammy = False\<rparr>"

definition wit_event :: Event where
  "wit_event = \<lparr>ev_EventID = ''$e'', ev_Type = ''m.room.history_visibility'', ev_StateKey = [], ev_IsState = True, ev_Sender = ''@s'',
     ev_OriginServerTS = 900, ev_PolicyServerSpammy = False, ev_SoftFailed = False, ev_Membership = [], ev_PrevMembership = [],
     ev_PrevHistoryVisibility = Shared\<rparr>"

theorem check_refines_visibility_spec_witness:
  "vd_Visible (Check wit_context wit_event \<lparr>sa_HistoryVisibility = Joined, sa_UserMembership = ''leave'', sa_Present = True\<rparr>)"
proof -
  have "sees wit_context wit_event \<lparr>sa_HistoryVisibility = Joined, sa_UserMembership = ''leave'', sa_Present = True\<rparr>"
    by (simp add: sees_def wit_context_def wit_event_def open_to_def setting_around_def vis_of_def min_def less_eq_vis_def Let_def)
  moreover have "\<not> withheld wit_context wit_event" by (simp add: withheld_def wit_context_def wit_event_def)
  ultimately show ?thesis
    using check_refines_visibility_spec [of wit_context wit_event "\<lparr>sa_HistoryVisibility = Joined, sa_UserMembership = ''leave'', sa_Present = True\<rparr>"]
    by (simp add: wit_context_def int64_def)
qed


definition no_gjson :: gjson where
  "no_gjson = \<lparr>gj_int = \<lambda>_ _. 0, gj_string = \<lambda>_ _. [], gj_bool = \<lambda>_ _. False\<rparr>"

definition wit_message :: "string \<Rightarrow> string \<Rightarrow> TimelineEvent" where
  "wit_message i sender = \<lparr>te_EventID = i, te_RoomID = ''!r'', te_Type = ''m.room.message'', te_JSON = [], te_InternalMetadata = [],
     te_RoomVersion = ''11'', te_Sender = sender, te_StreamOrdering = 1, te_TopologicalOrder = 1, te_InstanceName = [],
     te_StateKey = [], te_IsState = False\<rparr>"

definition no_extras :: VisibilityExtras where
  "no_extras = \<lparr>vx_ReturnSoftFailed = False, vx_ReturnPolicySpammy = False, vx_IgnoredSenders = {''@bad''}, vx_ErasedSenders = {},
     vx_RetentionMaxLifetimeMS = 0\<rparr>"

definition one_group :: groups_of where
  "one_group i = (if i = ''$e'' then Some 4 else None)"

definition group_rows :: "string list \<Rightarrow> (string, string \<times> int) rows" where
  "group_rows ids = (if ''$e'' \<in> set ids then [(''$e'', 4)] else [], None)"

lemma group_rows_answer: "answers_groups one_group group_rows"
  by (auto simp: answers_groups_def one_group_def group_rows_def)

definition no_state :: "int \<Rightarrow> StateKey list \<Rightarrow> string list \<Rightarrow> (string, StateKey \<times> StateEntry) rows" where
  "no_state g k t = ([], None)"

lemma no_state_answers: "answers_state (\<lambda>_ _. None) no_state"
  by (simp add: answers_state_def no_state_def asked_def)

definition wit_run :: "TimelineEvent list \<Rightarrow> string set \<Rightarrow> caches \<times> (string + Result)" where
  "wit_run events always = ForClient no_gjson group_rows (\<lambda>g k. no_state g k []) (\<lambda>_ _ _. Inr no_extras) (\<lambda>m. m) (newCaches 0 0)
     ''!r'' ''@u'' events False 1000 always"

lemma for_client_total:
  fixes stateq :: "int \<Rightarrow> StateKey list \<Rightarrow> ('e, StateKey \<times> StateEntry) rows"
  assumes "\<And>ids. snd (groupq ids) = None" and "\<And>g k. snd (stateq g k) = None" and "\<And>r u s. \<exists>x. extras r u s = Inr x"
  shows "\<exists>res. snd (ForClient gj groupq stateq extras visit cs roomID userID events isPeeking nowMS always) = Inr res"
proof (cases "events = []")
  case False
  have "\<exists>cs' out. StateGroupsForEvents groupq cs ids = (cs', Inr out)" for cs ids
  proof -
    obtain c out m where k: "known_groups (ca_eventStateGroup cs) ids [] [] = (c, out, m)" by (metis prod_cases3)
    obtain rows where "groupq m = (rows, None)" using assms(1) [of m] by (metis prod.collapse)
    with k show ?thesis by (simp add: StateGroupsForEvents_def split: prod.split)
  qed
  then obtain cs1 groups where g: "StateGroupsForEvents groupq cs (map te_EventID events) = (cs1, Inr groups)" by blast
  have one: "\<exists>cs' st. FilteredStateForGroup stateq cs g keys = (cs', Inr st)" for cs g keys
  proof -
    obtain rows where "stateq g keys = (rows, None)" using assms(2) [of g keys] by (metis prod.collapse)
    then show ?thesis by (simp add: FilteredStateForGroup_def Let_def split: prod.split option.split)
  qed
  have "\<exists>cs' out. resolve_groups stateq keys gs acc cs = (cs', Inr out)" for keys gs acc cs
  proof (induction gs arbitrary: acc cs)
    case (Cons ig gs)
    obtain i g where "ig = (i, g)" by fastforce
    moreover obtain cs1 st where "FilteredStateForGroup stateq cs g keys = (cs1, Inr st)" using one by blast
    ultimately show ?case using Cons.IH by simp
  qed simp
  then obtain cs2 sbg where s: "resolve_groups stateq (visibilityKeys userID) (visit groups) [] cs1 = (cs2, Inr sbg)" by blast
  obtain x where "extras roomID userID (distinct_senders events {}) = Inr x" using assms(3) by blast
  with False g s show ?thesis by (simp add: ForClient_def Let_def split: prod.split)
qed (simp add: ForClient_def)

lemma wit_run_ok: "\<exists>res. snd (wit_run events always) = Inr res"
  unfolding wit_run_def by (rule for_client_total) (simp_all add: group_rows_def no_state_def)


lemma kept_verdict:
  assumes "0 \<le> nowMS" "int64 nowMS" "int64 (vx_RetentionMaxLifetimeMS extra)" and "ctx = vis_context userID isPeeking nowMS extra"
    and "ev \<in> set (db_filter gj G F ctx always events)" and "te_EventID ev \<notin> always"
  shows "\<not> withheld ctx (timelineToVisibilityEvent gj ev) \<and>
    (let st = db_state_at G F userID (te_EventID ev)
     in if sa_Present st then sees ctx (timelineToVisibilityEvent gj ev) st else own_member_event ctx (timelineToVisibilityEvent gj ev))"
proof -
  have c: "0 \<le> cx_NowMS ctx" "int64 (cx_NowMS ctx)" "int64 (cx_RetentionMaxLifetimeMS ctx)" "cx_UserID ctx = userID"
    using assms(1-4) by (simp_all add: vis_context_def)
  have "vd_Visible (Check ctx (timelineToVisibilityEvent gj ev) (db_state_at G F userID (te_EventID ev)))"
    using assms(5,6) c(4) by (simp add: db_filter_def db_verdict_def judge_def timelineToVisibilityEvent_def Let_def)
  with check_spec(1) [OF c(1-3)] show ?thesis by (simp add: Let_def)
qed


definition closed_state :: state_of where
  "closed_state g k =
     (if g = 4 \<and> k = \<lparr>sk_Type = ''m.room.history_visibility'', sk_StateKey = []\<rparr> then Some \<lparr>se_EventID = ''$h'', se_Membership = [], se_HistoryVisibility = Joined\<rparr>
      else if g = 4 \<and> k = \<lparr>sk_Type = ''m.room.member'', sk_StateKey = ''@u''\<rparr> then Some \<lparr>se_EventID = ''$m'', se_Membership = ''join'', se_HistoryVisibility = []\<rparr>
      else None)"

definition closed_rows :: "int \<Rightarrow> StateKey list \<Rightarrow> string list \<Rightarrow> (string, StateKey \<times> StateEntry) rows" where
  "closed_rows g keys types =
     (concat (map (\<lambda>k. case asked closed_state g keys types k of Some e \<Rightarrow> [(k, e)] | None \<Rightarrow> [])
        [\<lparr>sk_Type = ''m.room.history_visibility'', sk_StateKey = []\<rparr>, \<lparr>sk_Type = ''m.room.member'', sk_StateKey = ''@u''\<rparr>]), None)"

lemma closed_rows_answer: "answers_state closed_state closed_rows"
  by (auto simp: answers_state_def closed_rows_def asked_def closed_state_def split: if_splits)


text \<open>
  An event on the caller's list passes every rule. \<^verbatim>\<open>alwaysInclude\<close> does not only override the history
  visibility: an event on it is shown although it was soft-failed, is an alias event or comes from a
  sender the user ignores. The sticky section puts every sticky event on the list.
\<close>

theorem always_included_despite_ignore:
  assumes "te_EventID ev \<in> always"
  shows "vd_Visible (db_verdict gj G F ctx always ev) \<and> \<not> vd_Pruned (db_verdict gj G F ctx always ev) \<and>
    (te_Sender ev \<in> cx_IgnoredSenders ctx \<and> \<not> te_IsState ev \<longrightarrow> \<not> vd_Visible (db_verdict gj G F ctx {} ev))"
  using assms
  by (auto simp: db_verdict_def judge_def timelineToVisibilityEvent_def Check_def passesSendToClientFilter_def no_verdict_def Let_def)

theorem always_included_despite_ignore_witness:
  "vd_Visible (db_verdict no_gjson one_group (\<lambda>_ _. None) (vis_context ''@u'' False 1000 no_extras) {''$f''} (wit_message ''$f'' ''@bad'')) \<and>
   \<not> vd_Visible (db_verdict no_gjson one_group (\<lambda>_ _. None) (vis_context ''@u'' False 1000 no_extras) {} (wit_message ''$f'' ''@bad''))"
  using always_included_despite_ignore [of "wit_message ''$f'' ''@bad''" "{''$f''}" no_gjson one_group "\<lambda>_ _. None" "vis_context ''@u'' False 1000 no_extras"]
  by (simp add: wit_message_def vis_context_def no_extras_def)

end
