(* ===== verification/Sync_Filter.thy ===== *)
theory Sync_Filter
  imports Gjson
begin

text \<open>
  Client filters: \<^verbatim>\<open>internal/filter/filter.go\<close> and \<^verbatim>\<open>ids.go\<close>. A list of a filter is an \<open>option\<close>: a nil
  slice says nothing, an empty one matches nothing, and the parser has to keep the two apart. A
  filter from the query string is validated, a stored one is not; that is the argument \<open>validateIDs\<close>.
  Parse errors are values of \<open>filter_error\<close>.
\<close>

section \<open>Identifiers\<close>

definition has_prefix :: "string \<Rightarrow> string \<Rightarrow> bool" where
  "has_prefix p s \<longleftrightarrow> take (length p) s = p"

definition has_suffix :: "string \<Rightarrow> string \<Rightarrow> bool" where
  "has_suffix p s \<longleftrightarrow> length p \<le> length s \<and> drop (length s - length p) s = p"

definition trim_suffix :: "string \<Rightarrow> string \<Rightarrow> string" where
  "trim_suffix p s = (if has_suffix p s then take (length s - length p) s else s)"

definition is_digit :: "char \<Rightarrow> bool" where
  "is_digit c \<longleftrightarrow> digit_val c \<noteq> None"

definition allDigits :: "string \<Rightarrow> bool" where
  "allDigits s = list_all is_digit s"

definition validServerName :: "string \<Rightarrow> bool" where
  "validServerName domain =
     (if domain = [] then False
      else if has_prefix ''['' domain then
        (case cut_on (CHR '']'') domain of
           None \<Rightarrow> False
         | Some (before, rest) \<Rightarrow>
             let host = tl before
             in if host = [] then False else rest = [] \<or> (has_prefix '':'' rest \<and> allDigits (tl rest)))
      else (case cut_on (CHR '':'') domain of
              Some (host, port) \<Rightarrow> host \<noteq> [] \<and> allDigits port \<and> port \<noteq> []
            | None \<Rightarrow> \<not> list_ex (\<lambda>c. c \<in> {CHR '' '', CHR 0x09, CHR 0x0A, CHR ''/''}) domain))"

definition ValidUserID :: "string \<Rightarrow> bool" where
  "ValidUserID s =
     (if \<not> has_prefix ''@'' s then False
      else (case cut_on (CHR '':'') (tl s) of None \<Rightarrow> False | Some (local, domain) \<Rightarrow> validServerName domain))"

definition base64_url :: "char \<Rightarrow> bool" where
  "base64_url c \<longleftrightarrow> (let n = of_char c :: nat in
     97 \<le> n \<and> n \<le> 122 \<or> 65 \<le> n \<and> n \<le> 90 \<or> 48 \<le> n \<and> n \<le> 57 \<or> c = CHR ''-'' \<or> c = CHR ''_'')"

definition ValidRoomID :: "string \<Rightarrow> bool" where
  "ValidRoomID s =
     (if \<not> has_prefix ''!'' s then False
      else if CHR '':'' \<in> set s then
        (case cut_on (CHR '':'') (tl s) of Some (local, domain) \<Rightarrow> validServerName domain | None \<Rightarrow> False)
      else if tl s = [] then False
      else list_all base64_url (tl s))"

section \<open>One filter\<close>

record FilterEvent =
  fe_Type :: string
  fe_Sender :: string
  fe_RoomID :: string
  fe_Content :: json
  fe_EventID :: string
  fe_IsPDU :: bool
  fe_IsPresence :: bool

record Filter =
  fl_Limit :: int
  fl_LazyLoadMembers :: bool
  fl_IncludeRedundantMembers :: bool
  fl_UnreadThreadNotifications :: bool
  fl_Types :: "string list option"
  fl_NotTypes :: "string list option"
  fl_Rooms :: "string list option"
  fl_NotRooms :: "string list option"
  fl_Senders :: "string list option"
  fl_NotSenders :: "string list option"
  fl_ContainsURL :: "bool option"
  fl_Labels :: "string list option"
  fl_NotLabels :: "string list option"
  fl_RelatedBySenders :: "string list option"
  fl_RelatedByRelTypes :: "string list option"
  fl_RelTypes :: "string list option"
  fl_NotRelTypes :: "string list option"

text \<open>Ranging over a nil slice does nothing.\<close>

definition elems :: "string list option \<Rightarrow> string list" where
  "elems xs = (case xs of None \<Rightarrow> [] | Some l \<Rightarrow> l)"

fun contains :: "string list \<Rightarrow> string \<Rightarrow> bool" where
  "contains [] want = False"
| "contains (x # xs) want = (if x = want then True else contains xs want)"

definition FiltersAllTypes :: "Filter \<Rightarrow> bool" where
  "FiltersAllTypes f \<longleftrightarrow> fl_Types f = Some [] \<or> contains (elems (fl_NotTypes f)) ''*''"

definition FiltersAllSenders :: "Filter \<Rightarrow> bool" where
  "FiltersAllSenders f \<longleftrightarrow> fl_Senders f = Some [] \<or> contains (elems (fl_NotSenders f)) ''*''"

definition FiltersAllRooms :: "Filter \<Rightarrow> bool" where
  "FiltersAllRooms f \<longleftrightarrow> fl_Rooms f = Some [] \<or> contains (elems (fl_NotRooms f)) ''*''"

definition HasRelationConstraint :: "Filter \<Rightarrow> bool" where
  "HasRelationConstraint f \<longleftrightarrow> elems (fl_RelatedBySenders f) \<noteq> [] \<or> elems (fl_RelatedByRelTypes f) \<noteq> []"

fun any_match :: "(string \<Rightarrow> bool) \<Rightarrow> string list \<Rightarrow> bool" where
  "any_match match [] = False"
| "any_match match (v # vs) = (if match v then True else any_match match vs)"

definition matchField :: "string list option \<Rightarrow> string list option \<Rightarrow> (string \<Rightarrow> bool) \<Rightarrow> bool" where
  "matchField allowed disallowed match =
     (if any_match match (elems disallowed) then False
      else (case allowed of None \<Rightarrow> True | Some vs \<Rightarrow> any_match match vs))"

definition matchesWildcard :: "string \<Rightarrow> string \<Rightarrow> bool" where
  "matchesWildcard actual want = (if has_suffix ''*'' want then has_prefix (trim_suffix ''*'' want) actual else actual = want)"

definition labelsField :: string where "labelsField = ''org.matrix.labels''"

definition event_labels :: "json \<Rightarrow> string list" where
  "event_labels content = (if gj_IsObject content then map gj_String (gj_Array (gj_Get content labelsField)) else [])"

definition event_sender :: "FilterEvent \<Rightarrow> string" where
  "event_sender ev = (if fe_Sender ev = [] \<and> gj_IsObject (fe_Content ev) then gj_String (gj_Get (fe_Content ev) ''user_id'') else fe_Sender ev)"

definition event_rel_type :: "FilterEvent \<Rightarrow> string" where
  "event_rel_type ev = (if fe_IsPDU ev \<and> gj_IsObject (fe_Content ev)
     then gj_String (gj_Get (gj_Get (fe_Content ev) ''m.relates_to'') ''rel_type'') else [])"

definition filter_Check :: "Filter \<Rightarrow> FilterEvent \<Rightarrow> bool" where
  "filter_Check f ev =
     (if fe_IsPresence ev then
        matchField (fl_Senders f) (fl_NotSenders f) (\<lambda>v. fe_Sender ev = v) \<and>
        matchField (fl_Types f) (fl_NotTypes f) (\<lambda>v. matchesWildcard (fe_Type ev) v)
      else
        let content = fe_Content ev; labels = event_labels content; sender = event_sender ev; relType = event_rel_type ev
        in if \<not> matchField (fl_Rooms f) (fl_NotRooms f) (\<lambda>v. fe_RoomID ev = v) then False
           else if \<not> matchField (fl_Senders f) (fl_NotSenders f) (\<lambda>v. sender = v) then False
           else if \<not> matchField (fl_Types f) (fl_NotTypes f) (\<lambda>v. matchesWildcard (fe_Type ev) v) then False
           else if \<not> matchField (fl_Labels f) (fl_NotLabels f) (\<lambda>v. contains labels v) then False
           else if \<not> matchField (fl_RelTypes f) (fl_NotRelTypes f) (\<lambda>v. relType = v) then False
           else (case fl_ContainsURL f of
                   None \<Rightarrow> True
                 | Some want \<Rightarrow>
                     let hasURL = (gj_IsObject content \<and> gj_IsString (gj_Get content ''url''))
                     in want = hasURL))"

fun FilterRooms_loop :: "Filter \<Rightarrow> string list \<Rightarrow> string list" where
  "FilterRooms_loop f [] = []"
| "FilterRooms_loop f (i # ids) =
     (if contains (elems (fl_NotRooms f)) i then FilterRooms_loop f ids
      else if fl_Rooms f \<noteq> None \<and> \<not> contains (elems (fl_Rooms f)) i then FilterRooms_loop f ids
      else i # FilterRooms_loop f ids)"

definition FilterRooms :: "Filter \<Rightarrow> string list \<Rightarrow> string list" where
  "FilterRooms f roomIDs = FilterRooms_loop f roomIDs"

section \<open>A collection\<close>

record Collection =
  cl_room :: Filter
  cl_roomTimeline :: Filter
  cl_roomState :: Filter
  cl_roomEphemeral :: Filter
  cl_roomAccountData :: Filter
  cl_presence :: Filter
  cl_globalAccountData :: Filter
  cl_IncludeLeave :: bool
  cl_EventFields :: "string list option"
  cl_EventFormat :: string
  cl_raw :: string

definition TimelineLimit :: "Collection \<Rightarrow> int" where "TimelineLimit c = fl_Limit (cl_roomTimeline c)"

definition BlocksAllRooms :: "Collection \<Rightarrow> bool" where "BlocksAllRooms c = FiltersAllRooms (cl_room c)"

definition BlocksAllPresence :: "Collection \<Rightarrow> bool" where
  "BlocksAllPresence c \<longleftrightarrow> FiltersAllTypes (cl_presence c) \<or> FiltersAllSenders (cl_presence c)"

definition BlocksAllGlobalAccountData :: "Collection \<Rightarrow> bool" where
  "BlocksAllGlobalAccountData c \<longleftrightarrow> FiltersAllTypes (cl_globalAccountData c) \<or> FiltersAllSenders (cl_globalAccountData c)"

definition BlocksAllRoomEphemeral :: "Collection \<Rightarrow> bool" where
  "BlocksAllRoomEphemeral c \<longleftrightarrow> FiltersAllTypes (cl_roomEphemeral c) \<or> FiltersAllSenders (cl_roomEphemeral c) \<or> FiltersAllRooms (cl_roomEphemeral c)"

definition BlocksAllRoomAccountData :: "Collection \<Rightarrow> bool" where
  "BlocksAllRoomAccountData c \<longleftrightarrow> FiltersAllTypes (cl_roomAccountData c) \<or> FiltersAllSenders (cl_roomAccountData c) \<or> FiltersAllRooms (cl_roomAccountData c)"

definition BlocksAllRoomTimeline :: "Collection \<Rightarrow> bool" where
  "BlocksAllRoomTimeline c \<longleftrightarrow> FiltersAllTypes (cl_roomTimeline c) \<or> FiltersAllSenders (cl_roomTimeline c) \<or> FiltersAllRooms (cl_roomTimeline c)"

definition CheckRoomTimeline :: "Collection \<Rightarrow> FilterEvent \<Rightarrow> bool" where
  "CheckRoomTimeline c ev \<longleftrightarrow> filter_Check (cl_room c) ev \<and> filter_Check (cl_roomTimeline c) ev"

definition CheckRoomState :: "Collection \<Rightarrow> FilterEvent \<Rightarrow> bool" where
  "CheckRoomState c ev \<longleftrightarrow> filter_Check (cl_room c) ev \<and> filter_Check (cl_roomState c) ev"

definition CheckRoomEphemeral :: "Collection \<Rightarrow> FilterEvent \<Rightarrow> bool" where
  "CheckRoomEphemeral c ev \<longleftrightarrow> filter_Check (cl_room c) ev \<and> filter_Check (cl_roomEphemeral c) ev"

definition CheckRoomAccountData :: "Collection \<Rightarrow> FilterEvent \<Rightarrow> bool" where
  "CheckRoomAccountData c ev \<longleftrightarrow> filter_Check (cl_room c) ev \<and> filter_Check (cl_roomAccountData c) ev"

definition CheckPresence :: "Collection \<Rightarrow> FilterEvent \<Rightarrow> bool" where "CheckPresence c ev = filter_Check (cl_presence c) ev"

definition CheckGlobalAccountData :: "Collection \<Rightarrow> FilterEvent \<Rightarrow> bool" where
  "CheckGlobalAccountData c ev = filter_Check (cl_globalAccountData c) ev"

section \<open>Parsing\<close>

record Features =
  ft_MSC3773 :: bool
  ft_MSC3874 :: bool
  ft_MSC4429 :: bool

record parseOpts =
  po_feat :: Features
  po_validateIDs :: bool
  po_schemaHasRoomIDs :: bool

datatype filter_error =
    NotJSON
  | NotObject
  | MustBe string string
  | NotUserID string string
  | NotRoomID string string
  | BadEventFormat

type_synonym 'a parsed = "filter_error + 'a"

text \<open>The decoders write through a pointer: the result is the new value of the destination.\<close>

fun string_items :: "json list \<Rightarrow> string \<Rightarrow> string list parsed" where
  "string_items [] path = Inr []"
| "string_items (v # vs) path =
     (if \<not> gj_IsString v then Inl (MustBe path ''an array of strings'')
      else (case string_items vs path of Inl e \<Rightarrow> Inl e | Inr xs \<Rightarrow> Inr (gj_String v # xs)))"

definition parseStringList :: "json \<Rightarrow> string \<Rightarrow> string list option \<Rightarrow> string list option parsed" where
  "parseStringList v path dst =
     (if \<not> gj_Exists v \<or> v = JNull then Inr dst
      else if \<not> gj_IsArray v then Inl (MustBe path ''an array'')
      else (case string_items (gj_Array v) path of Inl e \<Rightarrow> Inl e | Inr xs \<Rightarrow> Inr (Some xs)))"

fun first_invalid :: "(string \<Rightarrow> bool) \<Rightarrow> string list \<Rightarrow> string option" where
  "first_invalid valid [] = None"
| "first_invalid valid (x # xs) = (if \<not> valid x then Some x else first_invalid valid xs)"

definition parseUserIDList :: "json \<Rightarrow> string \<Rightarrow> string list option \<Rightarrow> parseOpts \<Rightarrow> string list option parsed" where
  "parseUserIDList v path dst opts =
     (case parseStringList v path dst of
        Inl e \<Rightarrow> Inl e
      | Inr xs \<Rightarrow>
          if \<not> po_validateIDs opts then Inr xs
          else (case first_invalid ValidUserID (elems xs) of Some i \<Rightarrow> Inl (NotUserID i path) | None \<Rightarrow> Inr xs))"

definition parseRoomIDList :: "json \<Rightarrow> string \<Rightarrow> string list option \<Rightarrow> parseOpts \<Rightarrow> string list option parsed" where
  "parseRoomIDList v path dst opts =
     (case parseStringList v path dst of
        Inl e \<Rightarrow> Inl e
      | Inr xs \<Rightarrow>
          if \<not> po_validateIDs opts \<or> \<not> po_schemaHasRoomIDs opts then Inr xs
          else (case first_invalid ValidRoomID (elems xs) of Some i \<Rightarrow> Inl (NotRoomID i path) | None \<Rightarrow> Inr xs))"

definition empty_filter :: "int \<Rightarrow> Filter" where
  "empty_filter limit = \<lparr>fl_Limit = limit, fl_LazyLoadMembers = False, fl_IncludeRedundantMembers = False, fl_UnreadThreadNotifications = False,
     fl_Types = None, fl_NotTypes = None, fl_Rooms = None, fl_NotRooms = None, fl_Senders = None, fl_NotSenders = None, fl_ContainsURL = None,
     fl_Labels = None, fl_NotLabels = None, fl_RelatedBySenders = None, fl_RelatedByRelTypes = None, fl_RelTypes = None, fl_NotRelTypes = None\<rparr>"

definition parse_bool :: "json \<Rightarrow> string \<Rightarrow> string \<Rightarrow> bool \<Rightarrow> bool parsed" where
  "parse_bool v path key dst =
     (let bv = gj_Get v key
      in if \<not> gj_Exists bv then Inr dst
         else if \<not> gj_IsBool bv then Inl (MustBe (path @ ''.'' @ key) ''a boolean'')
         else Inr (gj_Bool bv))"

text \<open>Sequencing of steps that may fail.\<close>

definition andThen :: "'a parsed \<Rightarrow> ('a \<Rightarrow> 'b parsed) \<Rightarrow> 'b parsed" where
  "andThen r f = (case r of Inl e \<Rightarrow> Inl e | Inr x \<Rightarrow> f x)"

definition parse_limit :: "json \<Rightarrow> string \<Rightarrow> int parsed" where
  "parse_limit v path =
     (let l = gj_Get v ''limit''
      in if gj_Exists l then (if \<not> gj_IsNumber l then Inl (MustBe (path @ ''.limit'') ''a number'') else Inr (gj_Int l)) else Inr 10)"

definition parse_contains_url :: "json \<Rightarrow> string \<Rightarrow> bool option parsed" where
  "parse_contains_url v path =
     (let u = gj_Get v ''contains_url''
      in if gj_Exists u then (if \<not> gj_IsBool u then Inl (MustBe (path @ ''.contains_url'') ''a boolean'') else Inr (Some (gj_Bool u))) else Inr None)"

definition parseFilter :: "json \<Rightarrow> string \<Rightarrow> parseOpts \<Rightarrow> Filter parsed" where
  "parseFilter v path opts =
     (if \<not> gj_Exists v then Inr (empty_filter 10)
      else if \<not> gj_IsObject v then Inl (MustBe path ''an object'')
      else
        andThen (parse_limit v path) (\<lambda>limit.
        andThen (parse_bool v path ''lazy_load_members'' False) (\<lambda>lazy.
        andThen (parse_bool v path ''include_redundant_members'' False) (\<lambda>redundant.
        andThen (parse_bool v path ''unread_thread_notifications'' False) (\<lambda>unread0.
        let unread = (if \<not> unread0 \<and> ft_MSC3773 (po_feat opts)
                      then gj_Bool (gj_Get v ''org.matrix.msc3773.unread_thread_notifications'') else unread0) in
        andThen (parseStringList (gj_Get v ''types'') (path @ ''.types'') None) (\<lambda>types.
        andThen (parseStringList (gj_Get v ''not_types'') (path @ ''.not_types'') None) (\<lambda>notTypes.
        andThen (parseStringList (gj_Get v ''related_by_senders'') (path @ ''.related_by_senders'') None) (\<lambda>relSenders.
        andThen (parseStringList (gj_Get v ''related_by_rel_types'') (path @ ''.related_by_rel_types'') None) (\<lambda>relByTypes.
        andThen (parseStringList (gj_Get v ''org.matrix.labels'') (path @ ''.org.matrix.labels'') None) (\<lambda>labels.
        andThen (parseStringList (gj_Get v ''org.matrix.not_labels'') (path @ ''.org.matrix.not_labels'') None) (\<lambda>notLabels.
        andThen (parseUserIDList (gj_Get v ''senders'') (path @ ''.senders'') None opts) (\<lambda>senders.
        andThen (parseUserIDList (gj_Get v ''not_senders'') (path @ ''.not_senders'') None opts) (\<lambda>notSenders.
        andThen (parseRoomIDList (gj_Get v ''rooms'') (path @ ''.rooms'') None opts) (\<lambda>rooms.
        andThen (parseRoomIDList (gj_Get v ''not_rooms'') (path @ ''.not_rooms'') None opts) (\<lambda>notRooms.
        andThen (parse_contains_url v path) (\<lambda>url.
        andThen (if ft_MSC3874 (po_feat opts) then
                   parseStringList (gj_Get v ''org.matrix.msc3874.rel_types'') (path @ ''.org.matrix.msc3874.rel_types'') None
                 else Inr None) (\<lambda>relTypes.
        andThen (if ft_MSC3874 (po_feat opts) then
                   parseStringList (gj_Get v ''org.matrix.msc3874.not_rel_types'') (path @ ''.org.matrix.msc3874.not_rel_types'') None
                 else Inr None) (\<lambda>notRelTypes.
        Inr \<lparr>fl_Limit = limit, fl_LazyLoadMembers = lazy, fl_IncludeRedundantMembers = redundant, fl_UnreadThreadNotifications = unread,
          fl_Types = types, fl_NotTypes = notTypes, fl_Rooms = rooms, fl_NotRooms = notRooms, fl_Senders = senders, fl_NotSenders = notSenders,
          fl_ContainsURL = url, fl_Labels = labels, fl_NotLabels = notLabels, fl_RelatedBySenders = relSenders,
          fl_RelatedByRelTypes = relByTypes, fl_RelTypes = relTypes, fl_NotRelTypes = notRelTypes\<rparr>))))))))))))))))))"

definition parse_include_leave :: "json \<Rightarrow> bool parsed" where
  "parse_include_leave room =
     (let v = gj_Get room ''include_leave''
      in if gj_Exists v then (if \<not> gj_IsBool v then Inl (MustBe ''room.include_leave'' ''a boolean'') else Inr (gj_Bool v)) else Inr False)"

definition parse_event_format :: "json \<Rightarrow> string parsed" where
  "parse_event_format root =
     (let v = gj_Get root ''event_format''
      in if gj_Exists v then
           (if \<not> gj_IsString v \<or> (gj_String v \<noteq> ''client'' \<and> gj_String v \<noteq> ''federation'') then Inl BadEventFormat else Inr (gj_String v))
         else Inr ''client'')"

text \<open>\<open>parse\<close> is \<^verbatim>\<open>gjson.ValidBytes\<close> and \<^verbatim>\<open>ParseBytes\<close>: \<open>None\<close> for a text that is not JSON.\<close>

definition parseCollection :: "(string \<Rightarrow> json option) \<Rightarrow> string \<Rightarrow> Features \<Rightarrow> bool \<Rightarrow> Collection parsed" where
  "parseCollection parse doc0 feat validateIDs =
     (let doc = (if doc0 = [] then ''{}'' else doc0)
      in case parse doc of
           None \<Rightarrow> Inl NotJSON
         | Some root \<Rightarrow>
             if \<not> gj_IsObject root then Inl NotObject
             else
               let room = gj_Get root ''room'';
                   roomOpts = \<lparr>po_feat = feat, po_validateIDs = validateIDs, po_schemaHasRoomIDs = True\<rparr>;
                   plainOpts = \<lparr>po_feat = feat, po_validateIDs = validateIDs, po_schemaHasRoomIDs = False\<rparr>
               in andThen (parseRoomIDList (gj_Get room ''rooms'') ''room.rooms'' None roomOpts) (\<lambda>rooms.
                  andThen (parseRoomIDList (gj_Get room ''not_rooms'') ''room.not_rooms'' None roomOpts) (\<lambda>notRooms.
                  andThen (parseFilter (gj_Get room ''timeline'') ''room.timeline'' roomOpts) (\<lambda>timeline.
                  andThen (parseFilter (gj_Get room ''state'') ''room.state'' roomOpts) (\<lambda>rstate.
                  andThen (parseFilter (gj_Get room ''ephemeral'') ''room.ephemeral'' roomOpts) (\<lambda>ephemeral.
                  andThen (parseFilter (gj_Get room ''account_data'') ''room.account_data'' roomOpts) (\<lambda>accountData.
                  andThen (parseFilter (gj_Get root ''presence'') ''presence'' plainOpts) (\<lambda>presence.
                  andThen (parseFilter (gj_Get root ''account_data'') ''account_data'' plainOpts) (\<lambda>globalData.
                  andThen (parse_include_leave room) (\<lambda>leave.
                  andThen (parse_event_format root) (\<lambda>format.
                  andThen (if gj_Exists (gj_Get root ''event_fields'')
                           then parseStringList (gj_Get root ''event_fields'') ''event_fields'' None else Inr None) (\<lambda>fields.
                  Inr \<lparr>cl_room = (empty_filter 0)\<lparr>fl_Rooms := rooms, fl_NotRooms := notRooms\<rparr>, cl_roomTimeline = timeline, cl_roomState = rstate,
                    cl_roomEphemeral = ephemeral, cl_roomAccountData = accountData, cl_presence = presence, cl_globalAccountData = globalData,
                    cl_IncludeLeave = leave, cl_EventFields = fields, cl_EventFormat = format, cl_raw = doc\<rparr>))))))))))))"

definition NewWithFeatures :: "(string \<Rightarrow> json option) \<Rightarrow> string \<Rightarrow> Features \<Rightarrow> Collection parsed" where
  "NewWithFeatures parse doc feat = parseCollection parse doc feat False"

definition NewInline :: "(string \<Rightarrow> json option) \<Rightarrow> string \<Rightarrow> Features \<Rightarrow> Collection parsed" where
  "NewInline parse doc feat = parseCollection parse doc feat True"

text \<open>\<^verbatim>\<open>DefaultWithFeatures\<close> panics (\<open>None\<close>) when the empty filter does not parse.\<close>

definition DefaultWithFeatures :: "(string \<Rightarrow> json option) \<Rightarrow> Features \<Rightarrow> Collection option" where
  "DefaultWithFeatures parse feat = (case NewWithFeatures parse [] feat of Inr c \<Rightarrow> Some c | Inl e \<Rightarrow> None)"

section \<open>Laws\<close>

lemma contains_iff [simp]: "contains xs x \<longleftrightarrow> x \<in> set xs"
  by (induction xs) auto

lemma any_match_iff [simp]: "any_match match vs \<longleftrightarrow> (\<exists>v \<in> set vs. match v)"
  by (induction vs) auto

lemma matchField_iff:
  "matchField allowed disallowed match \<longleftrightarrow>
     (\<forall>v \<in> set (elems disallowed). \<not> match v) \<and> (case allowed of None \<Rightarrow> True | Some vs \<Rightarrow> \<exists>v \<in> set vs. match v)"
  by (auto simp: matchField_def split: option.splits)

lemma star_matches: "matchesWildcard t ''*''"
  by (simp add: matchesWildcard_def has_suffix_def trim_suffix_def has_prefix_def)

lemma FilterRooms_filter:
  "FilterRooms f ids = filter (\<lambda>i. matchField (fl_Rooms f) (fl_NotRooms f) (\<lambda>v. i = v)) ids"
proof -
  have "FilterRooms_loop f ids = filter (\<lambda>i. matchField (fl_Rooms f) (fl_NotRooms f) (\<lambda>v. i = v)) ids"
    by (induction ids) (auto simp: matchField_iff elems_def split: option.splits)
  then show ?thesis by (simp add: FilterRooms_def)
qed

text \<open>Two decoders that agree whenever the first accepts, and what a decoder guarantees of its result.\<close>

definition accepts_like :: "'a parsed \<Rightarrow> 'a parsed \<Rightarrow> bool" where
  "accepts_like r r' \<longleftrightarrow> (\<forall>x. r = Inr x \<longrightarrow> r' = Inr x)"

definition yields :: "'a parsed \<Rightarrow> ('a \<Rightarrow> bool) \<Rightarrow> bool" where
  "yields r P \<longleftrightarrow> (\<forall>x. r = Inr x \<longrightarrow> P x)"

lemma accepts_like_refl: "accepts_like r r"
  by (simp add: accepts_like_def)

lemma accepts_like_andThen:
  "accepts_like r r' \<Longrightarrow> (\<And>x. accepts_like (f x) (f' x)) \<Longrightarrow> accepts_like (andThen r f) (andThen r' f')"
  by (cases r) (auto simp: accepts_like_def andThen_def)

lemma yields_andThen: "yields r P \<Longrightarrow> (\<And>x. P x \<Longrightarrow> yields (f x) Q) \<Longrightarrow> yields (andThen r f) Q"
  by (cases r) (auto simp: yields_def andThen_def)

lemma yields_any: "yields r (\<lambda>_. True)"
  by (simp add: yields_def)

lemma yields_Inr: "P x \<Longrightarrow> yields (Inr x) P"
  by (simp add: yields_def)

lemma first_invalid_None: "first_invalid valid xs = None \<longleftrightarrow> (\<forall>x \<in> set xs. valid x)"
  by (induction xs) auto

lemma string_items_Inr: "string_items vs path = Inr xs \<longleftrightarrow> (\<forall>v \<in> set vs. gj_IsString v) \<and> xs = map gj_String vs"
proof (induction vs arbitrary: xs)
  case (Cons v vs)
  then show ?case by (cases "string_items vs path") auto
qed auto

definition json_list :: "json \<Rightarrow> string list option" where
  "json_list v = (if \<not> gj_Exists v \<or> v = JNull then None else Some (map gj_String (gj_Array v)))"

lemma parseStringList_yields: "yields (parseStringList v path None) (\<lambda>xs. xs = json_list v)"
  by (auto simp: yields_def parseStringList_def json_list_def string_items_Inr split: if_splits sum.splits)

lemma parseUserIDList_yields:
  "yields (parseUserIDList v path None opts) (\<lambda>xs. xs = json_list v \<and> (po_validateIDs opts \<longrightarrow> list_all ValidUserID (elems xs)))"
  using parseStringList_yields [of v path]
  by (auto simp: yields_def parseUserIDList_def list_all_iff first_invalid_None split: if_splits sum.splits option.splits)

lemma parseRoomIDList_yields:
  "yields (parseRoomIDList v path None opts)
     (\<lambda>xs. xs = json_list v \<and> (po_validateIDs opts \<and> po_schemaHasRoomIDs opts \<longrightarrow> list_all ValidRoomID (elems xs)))"
  using parseStringList_yields [of v path]
  by (auto simp: yields_def parseRoomIDList_def list_all_iff first_invalid_None split: if_splits sum.splits option.splits)

lemma lists_accept_like:
  "accepts_like (parseUserIDList v path dst opts) (parseUserIDList v path dst (opts\<lparr>po_validateIDs := False\<rparr>))"
  "accepts_like (parseRoomIDList v path dst opts) (parseRoomIDList v path dst (opts\<lparr>po_validateIDs := False\<rparr>))"
  by (auto simp: accepts_like_def parseUserIDList_def parseRoomIDList_def split: if_splits sum.splits option.splits)

text \<open>What a section's filter has been read from, and that its identifiers are valid when they are checked.\<close>

definition reads_lists :: "json \<Rightarrow> parseOpts \<Rightarrow> Filter \<Rightarrow> bool" where
  "reads_lists v opts f \<longleftrightarrow>
     fl_Types f = json_list (gj_Get v ''types'') \<and> fl_NotTypes f = json_list (gj_Get v ''not_types'') \<and>
     fl_Senders f = json_list (gj_Get v ''senders'') \<and> fl_NotSenders f = json_list (gj_Get v ''not_senders'') \<and>
     fl_Rooms f = json_list (gj_Get v ''rooms'') \<and> fl_NotRooms f = json_list (gj_Get v ''not_rooms'') \<and>
     fl_Labels f = json_list (gj_Get v ''org.matrix.labels'') \<and> fl_NotLabels f = json_list (gj_Get v ''org.matrix.not_labels'') \<and>
     fl_RelatedBySenders f = json_list (gj_Get v ''related_by_senders'') \<and> fl_RelatedByRelTypes f = json_list (gj_Get v ''related_by_rel_types'')"

definition ids_valid :: "parseOpts \<Rightarrow> Filter \<Rightarrow> bool" where
  "ids_valid opts f \<longleftrightarrow>
     (po_validateIDs opts \<longrightarrow> list_all ValidUserID (elems (fl_Senders f)) \<and> list_all ValidUserID (elems (fl_NotSenders f))) \<and>
     (po_validateIDs opts \<and> po_schemaHasRoomIDs opts \<longrightarrow> list_all ValidRoomID (elems (fl_Rooms f)) \<and> list_all ValidRoomID (elems (fl_NotRooms f)))"

lemma json_list_absent: "\<not> gj_Exists v \<Longrightarrow> json_list (gj_Get v k) = None"
  by (cases v) (auto simp: gj_Exists_def json_list_def)

lemma parseFilter_yields: "yields (parseFilter v path opts) (\<lambda>f. reads_lists v opts f \<and> ids_valid opts f)"
proof (cases "gj_Exists v \<and> gj_IsObject v")
  case False
  then show ?thesis
    by (auto simp: yields_def parseFilter_def reads_lists_def ids_valid_def json_list_absent empty_filter_def elems_def)
next
  case True
  show ?thesis
    unfolding parseFilter_def Let_def
    by (simp only: True simp_thms if_False, intro yields_andThen [OF parseStringList_yields] yields_andThen [OF parseUserIDList_yields]
        yields_andThen [OF parseRoomIDList_yields] yields_andThen [OF yields_any] yields_Inr)
      (simp add: reads_lists_def ids_valid_def)
qed

lemma parseFilter_accepts_like: "accepts_like (parseFilter v path opts) (parseFilter v path (opts\<lparr>po_validateIDs := False\<rparr>))"
proof (cases "gj_Exists v \<and> gj_IsObject v")
  case False
  then show ?thesis by (auto simp: accepts_like_def parseFilter_def)
next
  case True
  show ?thesis
    unfolding parseFilter_def Let_def
    by (simp only: True simp_thms if_False, intro accepts_like_andThen lists_accept_like) (simp_all add: accepts_like_refl)
qed

section \<open>Properties\<close>

text \<open>The sections of a collection with the part of the document each is read from.\<close>

definition sections :: "json \<Rightarrow> Collection \<Rightarrow> (json \<times> bool \<times> Filter) list" where
  "sections root c =
     [(gj_Get (gj_Get root ''room'') ''timeline'', True, cl_roomTimeline c), (gj_Get (gj_Get root ''room'') ''state'', True, cl_roomState c),
      (gj_Get (gj_Get root ''room'') ''ephemeral'', True, cl_roomEphemeral c), (gj_Get (gj_Get root ''room'') ''account_data'', True, cl_roomAccountData c),
      (gj_Get root ''presence'', False, cl_presence c), (gj_Get root ''account_data'', False, cl_globalAccountData c)]"

lemma parseCollection_yields:
  assumes "parse (if doc = [] then ''{}'' else doc) = Some root" and "gj_IsObject root"
  shows "yields (parseCollection parse doc feat validateIDs) (\<lambda>c.
    (\<forall>(v, hasRooms, f) \<in> set (sections root c). reads_lists v \<lparr>po_feat = feat, po_validateIDs = validateIDs, po_schemaHasRoomIDs = hasRooms\<rparr> f \<and>
       ids_valid \<lparr>po_feat = feat, po_validateIDs = validateIDs, po_schemaHasRoomIDs = hasRooms\<rparr> f) \<and>
    cl_room c = (empty_filter 0)\<lparr>fl_Rooms := json_list (gj_Get (gj_Get root ''room'') ''rooms''),
                                 fl_NotRooms := json_list (gj_Get (gj_Get root ''room'') ''not_rooms'')\<rparr> \<and>
    (validateIDs \<longrightarrow> list_all ValidRoomID (elems (fl_Rooms (cl_room c))) \<and> list_all ValidRoomID (elems (fl_NotRooms (cl_room c)))))"
  unfolding parseCollection_def Let_def
  by (simp only: assms option.case simp_thms if_False, intro yields_andThen [OF parseRoomIDList_yields] yields_andThen [OF parseFilter_yields]
      yields_andThen [OF yields_any] yields_Inr)
    (simp add: sections_def)

lemma parseCollection_accepts_like: "accepts_like (parseCollection parse doc feat True) (parseCollection parse doc feat False)"
proof (cases "parse (if doc = [] then ''{}'' else doc)")
  case (Some root)
  have f: "accepts_like (parseFilter v path \<lparr>po_feat = feat, po_validateIDs = True, po_schemaHasRoomIDs = h\<rparr>)
      (parseFilter v path \<lparr>po_feat = feat, po_validateIDs = False, po_schemaHasRoomIDs = h\<rparr>)" for v path h
    using parseFilter_accepts_like [of v path "\<lparr>po_feat = feat, po_validateIDs = True, po_schemaHasRoomIDs = h\<rparr>"] by simp
  have r: "accepts_like (parseRoomIDList v path dst \<lparr>po_feat = feat, po_validateIDs = True, po_schemaHasRoomIDs = h\<rparr>)
      (parseRoomIDList v path dst \<lparr>po_feat = feat, po_validateIDs = False, po_schemaHasRoomIDs = h\<rparr>)" for v path dst h
    using lists_accept_like(2) [of v path dst "\<lparr>po_feat = feat, po_validateIDs = True, po_schemaHasRoomIDs = h\<rparr>"] by simp
  show ?thesis
  proof (cases "gj_IsObject root")
    case True
    show ?thesis
      unfolding parseCollection_def Let_def
      by (simp only: Some True option.case simp_thms if_False, intro accepts_like_andThen f r) (simp_all add: accepts_like_refl)
  next
    case False
    with Some show ?thesis by (simp add: parseCollection_def accepts_like_def Let_def)
  qed
qed (simp add: parseCollection_def accepts_like_def Let_def)

text \<open>
  Validation only rejects. A document accepted from the query string is accepted from the database
  too, and read as the same filter; and in what was accepted every listed sender is a valid user id
  and every room listed where the schema declares rooms is a valid room id.
\<close>

theorem inline_filter_is_valid_stored_filter:
  assumes "NewInline parse doc feat = Inr c"
  shows "NewWithFeatures parse doc feat = Inr c \<and>
    (\<forall>f \<in> {cl_roomTimeline c, cl_roomState c, cl_roomEphemeral c, cl_roomAccountData c, cl_presence c, cl_globalAccountData c}.
       list_all ValidUserID (elems (fl_Senders f)) \<and> list_all ValidUserID (elems (fl_NotSenders f))) \<and>
    (\<forall>f \<in> {cl_room c, cl_roomTimeline c, cl_roomState c, cl_roomEphemeral c, cl_roomAccountData c}.
       list_all ValidRoomID (elems (fl_Rooms f)) \<and> list_all ValidRoomID (elems (fl_NotRooms f)))"
proof -
  have "NewWithFeatures parse doc feat = Inr c"
    using assms parseCollection_accepts_like [of parse doc feat] by (simp add: NewInline_def NewWithFeatures_def accepts_like_def)
  moreover obtain root where "parse (if doc = [] then ''{}'' else doc) = Some root" "gj_IsObject root"
    using assms by (auto simp: NewInline_def parseCollection_def Let_def split: option.splits if_splits)
  from parseCollection_yields [of parse, OF this, of feat True] assms have
    "(\<forall>(v, hasRooms, f) \<in> set (sections root c). ids_valid \<lparr>po_feat = feat, po_validateIDs = True, po_schemaHasRoomIDs = hasRooms\<rparr> f) \<and>
     list_all ValidRoomID (elems (fl_Rooms (cl_room c))) \<and> list_all ValidRoomID (elems (fl_NotRooms (cl_room c)))"
    by (auto simp: yields_def NewInline_def)
  ultimately show ?thesis by (simp add: sections_def ids_valid_def)
qed

definition wit_parse :: "string \<Rightarrow> json option" where
  "wit_parse s = (if s = ''{}'' then Some (JObj [] ''{}'')
     else if s = ''doc'' then Some (JObj [(''presence'', JObj [(''senders'', JArr [JStr ''@a:b''] []), (''not_types'', JArr [JStr ''*''] [])] [])] []) else None)"

definition no_features :: Features where
  "no_features = \<lparr>ft_MSC3773 = False, ft_MSC3874 = False, ft_MSC4429 = False\<rparr>"

lemmas parse_simps = parseCollection_def parseRoomIDList_def parseUserIDList_def parseStringList_def parseFilter_def parse_limit_def
  parse_bool_def parse_contains_url_def parse_include_leave_def parse_event_format_def andThen_def gj_Exists_def Let_def

theorem inline_filter_is_valid_stored_filter_witness:
  "\<exists>c. NewInline wit_parse ''doc'' no_features = Inr c \<and> NewWithFeatures wit_parse ''doc'' no_features = Inr c \<and>
     list_all ValidUserID (elems (fl_Senders (cl_presence c)))"
proof -
  have "\<exists>c. NewInline wit_parse ''doc'' no_features = Inr c"
    by (simp add: NewInline_def parse_simps wit_parse_def elems_def ValidUserID_def has_prefix_def validServerName_def)
  then obtain c where "NewInline wit_parse ''doc'' no_features = Inr c" ..
  with inline_filter_is_valid_stored_filter [OF this] show ?thesis by simp
qed

text \<open>
  The parser keeps absent and empty apart. In every section of an accepted filter each list is
  nil exactly when the document has no such field (or null), and otherwise holds the strings of the
  document in order: \<^verbatim>\<open>"types": []\<close> is a filter that matches nothing, a missing \<^verbatim>\<open>types\<close> one that matches
  everything.
\<close>

theorem parsed_lists_are_the_documents:
  assumes "NewWithFeatures parse doc feat = Inr c" and "parse (if doc = [] then ''{}'' else doc) = Some root"
  shows "(\<forall>(v, f) \<in> {(gj_Get (gj_Get root ''room'') ''timeline'', cl_roomTimeline c), (gj_Get (gj_Get root ''room'') ''state'', cl_roomState c),
        (gj_Get (gj_Get root ''room'') ''ephemeral'', cl_roomEphemeral c), (gj_Get (gj_Get root ''room'') ''account_data'', cl_roomAccountData c),
        (gj_Get root ''presence'', cl_presence c), (gj_Get root ''account_data'', cl_globalAccountData c)}.
      fl_Types f = json_list (gj_Get v ''types'') \<and> fl_NotTypes f = json_list (gj_Get v ''not_types'') \<and>
      fl_Senders f = json_list (gj_Get v ''senders'') \<and> fl_NotSenders f = json_list (gj_Get v ''not_senders'') \<and>
      fl_Rooms f = json_list (gj_Get v ''rooms'') \<and> fl_NotRooms f = json_list (gj_Get v ''not_rooms'')) \<and>
    fl_Rooms (cl_room c) = json_list (gj_Get (gj_Get root ''room'') ''rooms'') \<and>
    fl_NotRooms (cl_room c) = json_list (gj_Get (gj_Get root ''room'') ''not_rooms'')"
proof -
  have "gj_IsObject root" using assms by (auto simp: NewWithFeatures_def parseCollection_def Let_def split: if_splits)
  from parseCollection_yields [of parse, OF assms(2) this, of feat False] assms(1) show ?thesis
    by (simp add: yields_def NewWithFeatures_def sections_def reads_lists_def)
qed

theorem parsed_lists_are_the_documents_witness:
  "\<exists>c. NewWithFeatures wit_parse ''doc'' no_features = Inr c \<and> fl_NotTypes (cl_presence c) = Some [''*''] \<and> fl_Types (cl_presence c) = None"
proof -
  have "\<exists>c. NewWithFeatures wit_parse ''doc'' no_features = Inr c"
    by (simp add: NewWithFeatures_def parse_simps wit_parse_def elems_def)
  then obtain c where c: "NewWithFeatures wit_parse ''doc'' no_features = Inr c" ..
  with parsed_lists_are_the_documents [OF c, of "the (wit_parse ''doc'')"] show ?thesis
    by (simp add: wit_parse_def json_list_def gj_Exists_def)
qed

text \<open>
  The shortcuts agree with the filter. When a sync skips the timeline because the filter is said to
  block all of it, no event would have passed, unless the client wrote a bare star under \<^verbatim>\<open>not_senders\<close>
  or \<^verbatim>\<open>not_rooms\<close>, which the shortcut takes as a wildcard and the filter as a literal name; and
  narrowing a room list with \<^verbatim>\<open>FilterRooms\<close> keeps exactly the rooms whose events pass the room-level filter.
\<close>

theorem blocked_timeline_matches_nothing:
  assumes "BlocksAllRoomTimeline c \<or> BlocksAllRooms c" and "\<not> fe_IsPresence ev"
    and "''*'' \<notin> set (elems (fl_NotSenders (cl_roomTimeline c)))"
    and "''*'' \<notin> set (elems (fl_NotRooms (cl_roomTimeline c)))" and "''*'' \<notin> set (elems (fl_NotRooms (cl_room c)))"
    and "cl_room c = (empty_filter 0)\<lparr>fl_Rooms := rs, fl_NotRooms := nrs\<rparr>"
  shows "\<not> CheckRoomTimeline c ev \<and> FilterRooms (cl_room c) rooms = filter (\<lambda>r. filter_Check (cl_room c) (ev\<lparr>fe_RoomID := r\<rparr>)) rooms"
proof
  have "FiltersAllTypes (cl_roomTimeline c) \<or> fl_Senders (cl_roomTimeline c) = Some [] \<or> fl_Rooms (cl_roomTimeline c) = Some [] \<or>
      fl_Rooms (cl_room c) = Some []"
    using assms(1,3-5) by (auto simp: BlocksAllRoomTimeline_def BlocksAllRooms_def FiltersAllSenders_def FiltersAllRooms_def)
  then show "\<not> CheckRoomTimeline c ev"
    using assms(2) star_matches by (auto simp: CheckRoomTimeline_def filter_Check_def matchField_iff FiltersAllTypes_def Let_def)
  show "FilterRooms (cl_room c) rooms = filter (\<lambda>r. filter_Check (cl_room c) (ev\<lparr>fe_RoomID := r\<rparr>)) rooms"
    unfolding FilterRooms_filter using assms(2,6)
    by (intro filter_cong refl) (auto simp: filter_Check_def matchField_iff empty_filter_def elems_def Let_def)
qed

definition wit_collection :: Collection where
  "wit_collection = \<lparr>cl_room = empty_filter 0, cl_roomTimeline = (empty_filter 10)\<lparr>fl_NotTypes := Some [''*'']\<rparr>, cl_roomState = empty_filter 10,
     cl_roomEphemeral = empty_filter 10, cl_roomAccountData = empty_filter 10, cl_presence = empty_filter 10, cl_globalAccountData = empty_filter 10,
     cl_IncludeLeave = False, cl_EventFields = None, cl_EventFormat = ''client'', cl_raw = []\<rparr>"

theorem blocked_timeline_matches_nothing_witness:
  "\<not> CheckRoomTimeline wit_collection \<lparr>fe_Type = ''m.room.message'', fe_Sender = ''@a:b'', fe_RoomID = ''!r'', fe_Content = JBad, fe_EventID = ''$e'',
       fe_IsPDU = True, fe_IsPresence = False\<rparr>"
  using blocked_timeline_matches_nothing [of wit_collection "\<lparr>fe_Type = ''m.room.message'', fe_Sender = ''@a:b'', fe_RoomID = ''!r'', fe_Content = JBad,
      fe_EventID = ''$e'', fe_IsPDU = True, fe_IsPresence = False\<rparr>" None None "[]"]
  by (simp add: wit_collection_def BlocksAllRoomTimeline_def FiltersAllTypes_def empty_filter_def elems_def)

text \<open>The default filter lets everything through, with a limit of ten.\<close>

theorem default_filter_passes_everything:
  assumes "parse ''{}'' = Some (JObj [] raw)"
  shows "\<exists>c. DefaultWithFeatures parse feat = Some c \<and> TimelineLimit c = 10 \<and>
    (\<forall>ev. CheckRoomTimeline c ev \<and> CheckRoomState c ev \<and> CheckRoomEphemeral c ev \<and> CheckRoomAccountData c ev \<and>
          CheckPresence c ev \<and> CheckGlobalAccountData c ev)"
  by (simp add: DefaultWithFeatures_def NewWithFeatures_def parse_simps assms TimelineLimit_def empty_filter_def CheckRoomTimeline_def CheckRoomState_def
      CheckRoomEphemeral_def CheckRoomAccountData_def CheckPresence_def CheckGlobalAccountData_def filter_Check_def matchField_iff elems_def)

end
