(* ===== verification/Timeline.thy ===== *)
theory Timeline
  imports Visibility Sync_Filter Derived_Caches
begin

text \<open>
  A room's timeline: the two backward walks of \<^verbatim>\<open>internal/store/sync.go\<close>, and from \<^verbatim>\<open>internal/handlers\<close> the
  filters applied to a page (\<^verbatim>\<open>filterapply.go\<close>, \<^verbatim>\<open>filters.go\<close>) and \<^verbatim>\<open>loadFilteredRecents\<close>, which pages
  back until the timeline is full, the room is exhausted or it has tried five times.

  The queries are the fields of \<open>deps\<close>; the page sizes are 64-bit, as the client chooses the limit they
  are computed from.
\<close>

section \<open>The model\<close>

text \<open>What a page starts from: the topological walk compares both orderings when the token has both.\<close>

datatype page_bound = ByTopology int int | ByStream int

record 'e deps =
  dp_gj :: gjson
  dp_content :: "string \<Rightarrow> json"
  dp_groups :: "string list \<Rightarrow> ('e, string \<times> int) rows"
  dp_state :: "int \<Rightarrow> StateKey list \<Rightarrow> string list \<Rightarrow> ('e, StateKey \<times> StateEntry) rows"
  dp_extras :: "string \<Rightarrow> string \<Rightarrow> string list \<Rightarrow> 'e + VisibilityExtras"
  dp_visit :: "(string, int) gomap \<Rightarrow> (string \<times> int) list"
  dp_current :: "string list \<Rightarrow> 'e + string set"
  dp_relations :: "string list \<Rightarrow> string list option \<Rightarrow> string list option \<Rightarrow> 'e + string set"
  dp_topology :: "string \<Rightarrow> page_bound \<Rightarrow> int \<Rightarrow> ('e, TimelineEvent \<times> bool) rows"
  dp_stream :: "string \<Rightarrow> int \<Rightarrow> int \<Rightarrow> int \<Rightarrow> ('e, TimelineEvent \<times> bool) rows"
  dp_gap :: "string \<Rightarrow> RoomKey option \<Rightarrow> RoomKey \<Rightarrow> 'e + int option"

subsection \<open>Pages\<close>

text \<open>The rows scanned, newest first, each with whether the event was accepted.\<close>

definition scan_rows :: "string \<Rightarrow> string \<Rightarrow> (TimelineEvent \<times> bool) list \<Rightarrow> (TimelineEvent \<times> bool) list" where
  "scan_rows roomID roomVersion rows = map (\<lambda>(ev, ok). (ev\<lparr>te_RoomID := roomID, te_RoomVersion := roomVersion\<rparr>, ok)) rows"

definition trim_page :: "int \<Rightarrow> int \<Rightarrow> (TimelineEvent \<times> bool) list \<Rightarrow> (TimelineEvent \<times> bool) list \<times> bool" where
  "trim_page limit requested descending =
     (let limited = int (length descending) \<ge> requested
      in if int (length descending) > limit then (take (nat limit) descending, True) else (descending, limited))"

definition ascending :: "(TimelineEvent \<times> bool) list \<Rightarrow> TimelineEvent list" where
  "ascending descending = map fst (filter snd (rev descending))"

definition PaginateBackwards ::
  "'e deps \<Rightarrow> string \<Rightarrow> string \<Rightarrow> int \<Rightarrow> RoomKey \<Rightarrow> 'e + TimelineEvent list \<times> RoomKey \<times> bool" where
  "PaginateBackwards d roomID roomVersion limit fromKey =
     (if limit \<le> 0 then Inr ([], fromKey, False)
      else
        let requested = wrap64 (limit * 2);
            bound = (if IsHistorical fromKey then ByTopology (rk_Topological fromKey) (rk_Stream fromKey)
                     else ByStream (RoomKey_MaxStreamPos fromKey))
        in case dp_topology d roomID bound requested of
             (rows, Some err) \<Rightarrow> Inl err
           | (rows, None) \<Rightarrow>
               (case trim_page limit requested (scan_rows roomID roomVersion rows) of (descending, limited) \<Rightarrow>
                  if descending = [] then Inr ([], fromKey, limited)
                  else
                    let oldest = fst (last descending);
                        nxt = Historical (te_TopologicalOrder oldest) (wrap64 (te_StreamOrdering oldest - 1))
                    in Inr (ascending descending, nxt, limited)))"

definition PaginateBackwardsStream ::
  "'e deps \<Rightarrow> string \<Rightarrow> string \<Rightarrow> int \<Rightarrow> RoomKey \<Rightarrow> RoomKey \<Rightarrow> 'e + TimelineEvent list \<times> RoomKey \<times> bool" where
  "PaginateBackwardsStream d roomID roomVersion limit fromKey toKey =
     (if limit \<le> 0 then Inr ([], fromKey, False)
      else if RoomKey_MaxStreamPos fromKey \<le> RoomKey_MaxStreamPos toKey then Inr ([], toKey, False)
      else
        let requested = wrap64 (limit * 2)
        in case dp_stream d roomID (RoomKey_MaxStreamPos fromKey) (RoomKey_MaxStreamPos toKey) requested of
             (rows, Some err) \<Rightarrow> Inl err
           | (rows, None) \<Rightarrow>
               (case trim_page limit requested (scan_rows roomID roomVersion rows) of (descending, limited) \<Rightarrow>
                  if descending = [] then Inr ([], toKey, limited)
                  else
                    let oldest = fst (last descending); nxt = Live (wrap64 (te_StreamOrdering oldest - 1))
                    in Inr (ascending descending, nxt, limited)))"

subsection \<open>The filters of a page\<close>

definition timelineFilterEvent :: "'e deps \<Rightarrow> string \<Rightarrow> TimelineEvent \<Rightarrow> FilterEvent" where
  "timelineFilterEvent d roomID ev = \<lparr>fe_Type = te_Type ev, fe_Sender = te_Sender ev, fe_RoomID = roomID,
     fe_Content = dp_content d (te_JSON ev), fe_EventID = te_EventID ev, fe_IsPDU = True, fe_IsPresence = False\<rparr>"

fun filterTimeline :: "'e deps \<Rightarrow> Collection \<Rightarrow> string \<Rightarrow> TimelineEvent list \<Rightarrow> TimelineEvent list" where
  "filterTimeline d f roomID [] = []"
| "filterTimeline d f roomID (ev # events) =
     (if CheckRoomTimeline f (timelineFilterEvent d roomID ev) then ev # filterTimeline d f roomID events else filterTimeline d f roomID events)"

definition applyRelationFilter :: "'e deps \<Rightarrow> Filter \<Rightarrow> TimelineEvent list \<Rightarrow> 'e + TimelineEvent list" where
  "applyRelationFilter d f events =
     (if \<not> HasRelationConstraint f \<or> events = [] then Inr events
      else (case dp_relations d (map te_EventID events) (fl_RelatedBySenders f) (fl_RelatedByRelTypes f) of
              Inl err \<Rightarrow> Inl err
            | Inr keep \<Rightarrow> Inr (filter (\<lambda>ev. te_EventID ev \<in> keep) events)))"

definition stateEventIDsInCurrentState :: "'e deps \<Rightarrow> TimelineEvent list \<Rightarrow> 'e + string set" where
  "stateEventIDsInCurrentState d messages =
     (let ids = map te_EventID (filter te_IsState messages)
      in if ids = [] then Inr {} else dp_current d ids)"

definition filterVisibleAlways ::
  "'e deps \<Rightarrow> caches \<Rightarrow> string \<Rightarrow> string \<Rightarrow> TimelineEvent list \<Rightarrow> bool \<Rightarrow> int \<Rightarrow> string set \<Rightarrow>
   caches \<times> ('e + TimelineEvent list \<times> string list)" where
  "filterVisibleAlways d cs roomID userID events isPeeking nowMS alwaysInclude =
     (case ForClient (dp_gj d) (dp_groups d) (\<lambda>g k. dp_state d g k []) (dp_extras d) (dp_visit d) cs roomID userID events isPeeking nowMS alwaysInclude of
        (cs1, Inl err) \<Rightarrow> (cs1, Inl err)
      | (cs1, Inr res) \<Rightarrow> (cs1, Inr (rs_Events res, rs_Memberships res)))"

definition filterAndVisible ::
  "'e deps \<Rightarrow> caches \<Rightarrow> string \<Rightarrow> string \<Rightarrow> TimelineEvent list \<Rightarrow> int \<Rightarrow> Collection \<Rightarrow> caches \<times> ('e + TimelineEvent list \<times> string list)" where
  "filterAndVisible d cs roomID userID events0 timeNow f =
     (if events0 = [] then (cs, Inr ([], []))
      else (case applyRelationFilter d (cl_roomTimeline f) (filterTimeline d f roomID events0) of
              Inl err \<Rightarrow> (cs, Inl err)
            | Inr events \<Rightarrow>
                (case stateEventIDsInCurrentState d events of
                   Inl err \<Rightarrow> (cs, Inl err)
                 | Inr alwaysInclude \<Rightarrow> filterVisibleAlways d cs roomID userID events False timeNow alwaysInclude)))"

subsection \<open>Gaps\<close>

record gapSet =
  gs_byRoom :: "(string, int) gomap"
  gs_hasFrom :: bool
  gs_from :: string
  gs_to :: string

definition newGapSet :: "(string, int) gomap \<Rightarrow> RoomKey option \<Rightarrow> RoomKey \<Rightarrow> gapSet" where
  "newGapSet byRoom fromKey toKey =
     (case fromKey of
        None \<Rightarrow> \<lparr>gs_byRoom = byRoom, gs_hasFrom = False, gs_from = [], gs_to = RoomKey_String toKey\<rparr>
      | Some k \<Rightarrow> \<lparr>gs_byRoom = byRoom, gs_hasFrom = True, gs_from = RoomKey_String k, gs_to = RoomKey_String toKey\<rparr>)"

definition gapSet_covers :: "gapSet \<Rightarrow> RoomKey option \<Rightarrow> RoomKey \<Rightarrow> bool" where
  "gapSet_covers g fromKey toKey =
     (if gs_to g \<noteq> RoomKey_String toKey then False
      else (case fromKey of None \<Rightarrow> \<not> gs_hasFrom g | Some k \<Rightarrow> gs_hasFrom g \<and> gs_from g = RoomKey_String k))"

definition gap_lookup :: "'e deps \<Rightarrow> gapSet option \<Rightarrow> string \<Rightarrow> RoomKey option \<Rightarrow> RoomKey \<Rightarrow> 'e + int option" where
  "gap_lookup d g roomID fromKey toKey =
     (case g of
        None \<Rightarrow> dp_gap d roomID fromKey toKey
      | Some gs \<Rightarrow> if \<not> gapSet_covers gs fromKey toKey then dp_gap d roomID fromKey toKey else Inr (mget (gs_byRoom gs) roomID))"

subsection \<open>The timeline\<close>

definition maxTimelineRepeats :: nat where "maxTimelineRepeats = 5"

text \<open>The loop, with the repeats that are left.\<close>

fun recents_loop ::
  "'e deps \<Rightarrow> RoomForUser \<Rightarrow> string \<Rightarrow> RoomKey option \<Rightarrow> int \<Rightarrow> Collection \<Rightarrow> int \<Rightarrow> int \<Rightarrow> nat \<Rightarrow>
   caches \<Rightarrow> RoomKey \<Rightarrow> bool \<Rightarrow> TimelineEvent list \<Rightarrow> string list \<Rightarrow>
   caches \<times> ('e + RoomKey \<times> bool \<times> TimelineEvent list \<times> string list)" where
  "recents_loop d room userID sinceKey timeNow f timelineLimit loadLimit 0 cs fromKey limited messages memberships =
     (cs, Inr (fromKey, limited, messages, memberships))"
| "recents_loop d room userID sinceKey timeNow f timelineLimit loadLimit (Suc n) cs fromKey limited messages memberships =
     (if \<not> (limited \<and> int (length messages) < timelineLimit) then (cs, Inr (fromKey, limited, messages, memberships))
      else (case (case sinceKey of
                    Some k \<Rightarrow> PaginateBackwardsStream d (rfu_RoomID room) (rfu_RoomVersion room) loadLimit fromKey k
                  | None \<Rightarrow> PaginateBackwards d (rfu_RoomID room) (rfu_RoomVersion room) loadLimit fromKey) of
              Inl err \<Rightarrow> (cs, Inl err)
            | Inr (loaded, nxt, further) \<Rightarrow>
                (case filterAndVisible d cs (rfu_RoomID room) userID loaded timeNow f of
                   (cs1, Inl err) \<Rightarrow> (cs1, Inl err)
                 | (cs1, Inr (visible, ms)) \<Rightarrow>
                     recents_loop d room userID sinceKey timeNow f timelineLimit loadLimit n cs1 nxt further (visible @ messages) (ms @ memberships))))"

definition load_limit :: "int \<Rightarrow> int" where
  "load_limit timelineLimit = (let l = wrap64 (timelineLimit * 2) in if l < 10 then 10 else l)"

definition loadFilteredRecents ::
  "'e deps \<Rightarrow> caches \<Rightarrow> RoomForUser \<Rightarrow> string \<Rightarrow> Token \<Rightarrow> Token \<Rightarrow> RoomKey option \<Rightarrow> TimelineEvent list \<Rightarrow> bool \<Rightarrow> bool \<Rightarrow>
   int \<Rightarrow> Collection \<Rightarrow> gapSet option \<Rightarrow> caches \<times> ('e + TimelineEvent list \<times> string list \<times> Token \<times> bool)" where
  "loadFilteredRecents d cs room userID now upto0 sinceKey0 potential0 hasPotential0 newlyJoined timeNow f gaps =
     (let timelineLimit = TimelineLimit f;
          limited0 = (\<not> hasPotential0 \<or> newlyJoined \<or> timelineLimit < int (length potential0))
      in case gap_lookup d gaps (rfu_RoomID room) sinceKey0 (tk_Room now) of
           Inl err \<Rightarrow> (cs, Inl err)
         | Inr gapStream \<Rightarrow>
             let gap = (gapStream \<noteq> None);
                 potential = (if gap then [] else potential0);
                 upto = (if gap then now else upto0);
                 limited = (gap \<or> limited0);
                 sinceKey = (case gapStream of Some g \<Rightarrow> map_option (\<lambda>_. Live g) sinceKey0 | None \<Rightarrow> sinceKey0)
             in if BlocksAllRoomTimeline f \<or> BlocksAllRooms f \<or> timelineLimit \<le> 0 then (cs, Inr ([], [], upto, False))
                else (case filterAndVisible d cs (rfu_RoomID room) userID potential timeNow f of
                        (cs1, Inl err) \<Rightarrow> (cs1, Inl err)
                      | (cs1, Inr (messages, memberships)) \<Rightarrow>
                          if \<not> limited then
                            let prev = (if messages \<noteq> [] then WithRoomKey upto (Live (wrap64 (te_StreamOrdering (hd messages) - 1))) else upto)
                            in (cs1, Inr (messages, memberships, prev, False))
                          else
                            (case recents_loop d room userID sinceKey timeNow f timelineLimit (load_limit timelineLimit) maxTimelineRepeats
                                    cs1 (tk_Room upto) limited messages memberships of
                               (cs2, Inl err) \<Rightarrow> (cs2, Inl err)
                             | (cs2, Inr (fromKey, limited1, ms, mems)) \<Rightarrow>
                                 if int (length ms) > timelineLimit then
                                   let ms' = drop (length ms - nat timelineLimit) ms
                                   in (cs2, Inr (ms', drop (length mems - nat timelineLimit) mems,
                                         WithRoomKey upto (Live (wrap64 (te_StreamOrdering (hd ms') - 1))), True))
                                 else (cs2, Inr (ms, mems, WithRoomKey upto (tk_Room upto), limited1 \<or> newlyJoined \<or> gap)))))"

section \<open>What a page shows\<close>

text \<open>The database the queries answer from. Any query may fail; an answer is what the database holds.\<close>

record room_db =
  rdb_groups :: groups_of
  rdb_state :: state_of
  rdb_current :: "string set"
  rdb_related :: "string list option \<Rightarrow> string list option \<Rightarrow> string set"
  rdb_extras :: VisibilityExtras
  rdb_isState :: "string \<Rightarrow> bool"

definition answers_db :: "'e deps \<Rightarrow> room_db \<Rightarrow> bool" where
  "answers_db d db \<longleftrightarrow>
     answers_groups (rdb_groups db) (dp_groups d) \<and> answers_state (rdb_state db) (dp_state d) \<and> (\<forall>m. set (dp_visit d m) = set m) \<and>
     (\<forall>ids s. dp_current d ids = Inr s \<longrightarrow> s = set ids \<inter> rdb_current db) \<and>
     (\<forall>ids a b s. dp_relations d ids a b = Inr s \<longrightarrow> s = set ids \<inter> rdb_related db a b) \<and>
     (\<forall>r u senders x. dp_extras d r u senders = Inr x \<longrightarrow>
        x = (rdb_extras db)\<lparr>vx_ErasedSenders := vx_ErasedSenders (rdb_extras db) \<inter> set senders\<rparr>) \<and>
     (\<forall>r b n. \<forall>(ev, ok) \<in> set (fst (dp_topology d r b n)). te_IsState ev = rdb_isState db (te_EventID ev)) \<and>
     (\<forall>r a b n. \<forall>(ev, ok) \<in> set (fst (dp_stream d r a b n)). te_IsState ev = rdb_isState db (te_EventID ev))"

text \<open>Whether one event belongs in the timeline: the client's filter, its relations, and the visibility rules,
  which an event of the current state is exempt from.\<close>

definition exempt :: "room_db \<Rightarrow> string set" where
  "exempt db = {i \<in> rdb_current db. rdb_isState db i}"

definition event_verdict :: "'e deps \<Rightarrow> room_db \<Rightarrow> string \<Rightarrow> int \<Rightarrow> TimelineEvent \<Rightarrow> Verdict" where
  "event_verdict d db userID timeNow ev =
     db_verdict (dp_gj d) (rdb_groups db) (rdb_state db) (vis_context userID False timeNow (rdb_extras db)) (exempt db) ev"

definition shown :: "'e deps \<Rightarrow> room_db \<Rightarrow> Collection \<Rightarrow> string \<Rightarrow> string \<Rightarrow> int \<Rightarrow> TimelineEvent \<Rightarrow> bool" where
  "shown d db f roomID userID timeNow ev \<longleftrightarrow>
     CheckRoomTimeline f (timelineFilterEvent d roomID ev) \<and>
     (HasRelationConstraint (cl_roomTimeline f) \<longrightarrow>
        te_EventID ev \<in> rdb_related db (fl_RelatedBySenders (cl_roomTimeline f)) (fl_RelatedByRelTypes (cl_roomTimeline f))) \<and>
     vd_Visible (event_verdict d db userID timeNow ev) \<and> \<not> vd_Pruned (event_verdict d db userID timeNow ev)"

lemma filterTimeline_filter: "filterTimeline d f roomID events = filter (\<lambda>ev. CheckRoomTimeline f (timelineFilterEvent d roomID ev)) events"
  by (induction events) simp_all

lemma set_distinct_senders: "set (distinct_senders events seen) = te_Sender ` set events - seen"
  by (induction events arbitrary: seen) auto

text \<open>The rules look at the sender's erasure and the event's exemption, and at nothing else of the two sets.\<close>

lemma verdict_cong:
  assumes "te_Sender ev \<in> E \<longleftrightarrow> te_Sender ev \<in> vx_ErasedSenders x" and "te_EventID ev \<in> A \<longleftrightarrow> te_EventID ev \<in> B"
  shows "db_verdict gj G F (vis_context userID p now (x\<lparr>vx_ErasedSenders := E\<rparr>)) A ev = db_verdict gj G F (vis_context userID p now x) B ev"
proof -
  let ?v = "timelineToVisibilityEvent gj ev"
  let ?c = "vis_context userID p now (x\<lparr>vx_ErasedSenders := E\<rparr>)" and ?c' = "vis_context userID p now x"
  have ids: "ev_Sender ?v = te_Sender ev" "ev_EventID ?v = te_EventID ev" by (simp_all add: timelineToVisibilityEvent_def)
  have own: "own_member_event ?c ?v = own_member_event ?c' ?v" by (simp add: own_member_event_def vis_context_def)
  have peek: "cx_IsPeeking ?c = cx_IsPeeking ?c'" by (simp add: vis_context_def)
  have after: "MembershipAfter ?c ?v st = MembershipAfter ?c' ?v st" for st by (simp add: MembershipAfter_def own)
  have memb: "checkMembership ?c ?v w st = checkMembership ?c' ?v w st" for w st
    unfolding checkMembership_def own peek ..
  have pass: "passesSendToClientFilter ?c ?v = passesSendToClientFilter ?c' ?v" by (simp add: passesSendToClientFilter_def vis_context_def)
  have era: "ev_Sender ?v \<in> cx_ErasedSenders ?c \<longleftrightarrow> ev_Sender ?v \<in> cx_ErasedSenders ?c'" using assms(1) by (simp add: vis_context_def ids)
  have flags: "cx_ReturnSoftFailed ?c = cx_ReturnSoftFailed ?c'" "cx_ReturnPolicySpammy ?c = cx_ReturnPolicySpammy ?c'"
    "cx_UserID ?c = cx_UserID ?c'" by (simp_all add: vis_context_def)
  have "Check ?c ?v st = Check ?c' ?v st" for st unfolding Check_def own peek after memb pass era flags ..
  then show ?thesis unfolding db_verdict_def judge_def ids(2) assms(2) after flags by simp
qed

lemma filterAndVisible_spec:
  assumes "answers_db d db" and "caches_sound (rdb_groups db) (rdb_state db) cs" and "plain userID"
    and "\<forall>ev \<in> set events. te_IsState ev = rdb_isState db (te_EventID ev)"
    and "filterAndVisible d cs roomID userID events timeNow f = (cs', Inr (ms, mems))"
  shows "caches_sound (rdb_groups db) (rdb_state db) cs' \<and> ms = filter (shown d db f roomID userID timeNow) events \<and>
    mems = map (\<lambda>ev. vd_Membership (event_verdict d db userID timeNow ev)) ms"
proof (cases "events = []")
  case True
  with assms show ?thesis by (simp add: filterAndVisible_def)
next
  case False
  let ?e1 = "filter (\<lambda>ev. CheckRoomTimeline f (timelineFilterEvent d roomID ev)) events" and ?tl = "cl_roomTimeline f"
  from False assms(5) obtain e2 where e2: "applyRelationFilter d ?tl ?e1 = Inr e2"
    by (auto simp: filterAndVisible_def filterTimeline_filter split: sum.splits)
  let ?rel = "\<lambda>ev. HasRelationConstraint ?tl \<longrightarrow> te_EventID ev \<in> rdb_related db (fl_RelatedBySenders ?tl) (fl_RelatedByRelTypes ?tl)"
  have e2_eq: "e2 = filter ?rel ?e1"
  proof (cases "HasRelationConstraint ?tl \<and> ?e1 \<noteq> []")
    case True
    with e2 obtain keep where k: "dp_relations d (map te_EventID ?e1) (fl_RelatedBySenders ?tl) (fl_RelatedByRelTypes ?tl) = Inr keep"
      "e2 = filter (\<lambda>ev. te_EventID ev \<in> keep) ?e1" by (auto simp: applyRelationFilter_def split: sum.splits)
    from assms(1) k(1) have "keep = set (map te_EventID ?e1) \<inter> rdb_related db (fl_RelatedBySenders ?tl) (fl_RelatedByRelTypes ?tl)"
      unfolding answers_db_def by blast
    with k(2) True show ?thesis by (auto intro!: filter_cong)
  next
    case False
    with e2 have e: "e2 = ?e1" by (auto simp: applyRelationFilter_def split: if_splits)
    show ?thesis
    proof (cases "?e1 = []")
      case True
      show ?thesis unfolding e unfolding True by simp
    next
      case ne: False
      with False have "\<not> HasRelationConstraint ?tl" by blast
      with e show ?thesis by simp
    qed
  qed
  from False assms(5) e2 obtain always where al: "stateEventIDsInCurrentState d e2 = Inr always"
    by (auto simp: filterAndVisible_def filterTimeline_filter split: sum.splits)
  have always: "always = te_EventID ` {ev \<in> set e2. te_IsState ev} \<inter> rdb_current db"
  proof (cases "filter te_IsState e2 = []")
    case True
    with al have "always = {}" by (simp add: stateEventIDsInCurrentState_def)
    moreover have "{ev \<in> set e2. te_IsState ev} = {}" using True by (auto simp: filter_empty_conv)
    ultimately show ?thesis by (simp only: image_empty Int_empty_left)
  next
    case False
    with al have "dp_current d (map te_EventID (filter te_IsState e2)) = Inr always" by (simp add: stateEventIDsInCurrentState_def Let_def)
    with assms(1) have "always = set (map te_EventID (filter te_IsState e2)) \<inter> rdb_current db" unfolding answers_db_def by blast
    then show ?thesis by auto
  qed
  from False assms(5) e2 al obtain res where res: "ForClient (dp_gj d) (dp_groups d) (\<lambda>g k. dp_state d g k []) (dp_extras d) (dp_visit d) cs roomID userID e2 False timeNow always
      = (cs', Inr res)" "ms = rs_Events res" "mems = rs_Memberships res"
    by (auto simp: filterAndVisible_def filterTimeline_filter filterVisibleAlways_def split: sum.splits prod.splits)
  let ?ctx = "vis_context userID False timeNow (rdb_extras db)"
  show ?thesis
  proof (cases "e2 = []")
    case True
    with res have "ms = []" "mems = []" "cs' = cs" by (auto simp: ForClient_def)
    moreover have "filter (shown d db f roomID userID timeNow) events = []"
      using True e2_eq by (auto simp: filter_empty_conv shown_def)
    ultimately show ?thesis using assms(2) by simp
  next
    case ne: False
    have db: "answers_groups (rdb_groups db) (dp_groups d)" "answers_state (rdb_state db) (dp_state d)" "\<And>m. set (dp_visit d m) = set m"
      using assms(1) by (simp_all add: answers_db_def)
    from for_client_spec [OF assms(2) db(1,2) assms(3) db(3) res(1) ne] obtain x where x:
      "caches_sound (rdb_groups db) (rdb_state db) cs'" "dp_extras d roomID userID (distinct_senders e2 {}) = Inr x"
      "ms = db_filter (dp_gj d) (rdb_groups db) (rdb_state db) (vis_context userID False timeNow x) always e2"
      "mems = map (\<lambda>ev. vd_Membership (db_verdict (dp_gj d) (rdb_groups db) (rdb_state db) (vis_context userID False timeNow x) always ev)) ms"
      using res(2,3) by auto
    have xe: "x = (rdb_extras db)\<lparr>vx_ErasedSenders := vx_ErasedSenders (rdb_extras db) \<inter> set (distinct_senders e2 {})\<rparr>"
      using assms(1) x(2) unfolding answers_db_def by blast
    have same: "db_verdict (dp_gj d) (rdb_groups db) (rdb_state db) (vis_context userID False timeNow x) always ev = event_verdict d db userID timeNow ev"
      if ev: "ev \<in> set e2" for ev
    proof -
      have "te_EventID ev \<in> always \<longleftrightarrow> te_EventID ev \<in> exempt db"
      proof -
        have st: "te_IsState ev' = rdb_isState db (te_EventID ev')" if "ev' \<in> set e2" for ev'
          using that assms(4) unfolding e2_eq by simp
        have "te_EventID ev \<in> te_EventID ` {ev' \<in> set e2. te_IsState ev'} \<longleftrightarrow> rdb_isState db (te_EventID ev)"
          using ev st by force
        then show ?thesis unfolding always exempt_def by blast
      qed
      then show ?thesis unfolding xe event_verdict_def by (intro verdict_cong) (use ev in \<open>auto simp: set_distinct_senders\<close>)
    qed
    have "ms = filter (\<lambda>ev. vd_Visible (event_verdict d db userID timeNow ev) \<and> \<not> vd_Pruned (event_verdict d db userID timeNow ev)) e2"
      unfolding x(3) db_filter_def by (rule filter_cong) (simp_all add: same)
    then have ms: "ms = filter (shown d db f roomID userID timeNow) events"
      unfolding e2_eq by (auto simp: shown_def intro!: filter_cong)
    have "set ms \<subseteq> set e2" unfolding x(3) by (auto simp: db_filter_def)
    then have "mems = map (\<lambda>ev. vd_Membership (event_verdict d db userID timeNow ev)) ms"
      unfolding x(4) by (intro map_cong) (auto simp: same)
    with ms x(1) show ?thesis by blast
  qed
qed

section \<open>What a timeline shows\<close>

lemma trim_page_subset: "trim_page limit requested rows = (d, lim) \<Longrightarrow> set d \<subseteq> set rows"
  by (auto simp: trim_page_def Let_def split: if_splits dest: in_set_takeD)

lemma page_events:
  assumes "answers_db d db"
  shows "PaginateBackwards d r v n k = Inr (loaded, k', more') \<Longrightarrow> \<forall>ev \<in> set loaded. te_IsState ev = rdb_isState db (te_EventID ev)"
    and "PaginateBackwardsStream d r v n k t = Inr (loaded, k', more') \<Longrightarrow> \<forall>ev \<in> set loaded. te_IsState ev = rdb_isState db (te_EventID ev)"
proof -
  have scan: "\<forall>ev \<in> set (ascending ds). te_IsState ev = rdb_isState db (te_EventID ev)"
    if "trim_page n m (scan_rows r v rows) = (ds, lim)" "\<forall>(ev, ok) \<in> set rows. te_IsState ev = rdb_isState db (te_EventID ev)" for ds m rows lim
    using trim_page_subset [OF that(1)] that(2) by (fastforce simp: ascending_def scan_rows_def)
  { fix bound
    obtain rows err where q: "dp_topology d r bound (wrap64 (n * 2)) = (rows, err)" by fastforce
    have "\<forall>r b n. \<forall>(ev, ok) \<in> set (fst (dp_topology d r b n)). te_IsState ev = rdb_isState db (te_EventID ev)"
      using assms by (simp add: answers_db_def)
    from this [THEN spec, THEN spec, THEN spec, of r bound "wrap64 (n * 2)"] q
    have "\<exists>rows err. dp_topology d r bound (wrap64 (n * 2)) = (rows, err) \<and> (\<forall>(ev, ok) \<in> set rows. te_IsState ev = rdb_isState db (te_EventID ev))"
      by simp }
  note topo = this
  show "PaginateBackwards d r v n k = Inr (loaded, k', more') \<Longrightarrow> \<forall>ev \<in> set loaded. te_IsState ev = rdb_isState db (te_EventID ev)"
    using topo [of "if IsHistorical k then ByTopology (rk_Topological k) (rk_Stream k) else ByStream (RoomKey_MaxStreamPos k)"] scan
    by (fastforce simp: PaginateBackwards_def Let_def split: if_splits option.splits prod.splits)
  { fix a b
    obtain rows err where q: "dp_stream d r a b (wrap64 (n * 2)) = (rows, err)" by fastforce
    have "\<forall>r a b n. \<forall>(ev, ok) \<in> set (fst (dp_stream d r a b n)). te_IsState ev = rdb_isState db (te_EventID ev)"
      using assms by (simp add: answers_db_def)
    from this [THEN spec, THEN spec, THEN spec, THEN spec, of r a b "wrap64 (n * 2)"] q
    have "\<exists>rows err. dp_stream d r a b (wrap64 (n * 2)) = (rows, err) \<and> (\<forall>(ev, ok) \<in> set rows. te_IsState ev = rdb_isState db (te_EventID ev))"
      by simp }
  note stream = this
  show "PaginateBackwardsStream d r v n k t = Inr (loaded, k', more') \<Longrightarrow> \<forall>ev \<in> set loaded. te_IsState ev = rdb_isState db (te_EventID ev)"
    using stream [of "RoomKey_MaxStreamPos k" "RoomKey_MaxStreamPos t"] scan
    by (fastforce simp: PaginateBackwardsStream_def Let_def split: if_splits option.splits prod.splits)
qed

text \<open>One more page: what the loop does when it goes round.\<close>

lemma recents_step:
  assumes "recents_loop d room userID since now f tlim ll (Suc n) cs k lim ms mems = (cs', Inr res)" and "lim \<and> int (length ms) < tlim"
  obtains loaded k1 lim1 cs1 vis mvis where
    "(case since of Some t \<Rightarrow> PaginateBackwardsStream d (rfu_RoomID room) (rfu_RoomVersion room) ll k t
      | None \<Rightarrow> PaginateBackwards d (rfu_RoomID room) (rfu_RoomVersion room) ll k) = Inr (loaded, k1, lim1)"
    "filterAndVisible d cs (rfu_RoomID room) userID loaded now f = (cs1, Inr (vis, mvis))"
    "recents_loop d room userID since now f tlim ll n cs1 k1 lim1 (vis @ ms) (mvis @ mems) = (cs', Inr res)"
  using assms by (auto split: sum.splits prod.splits option.splits)

definition annotated :: "'e deps \<Rightarrow> room_db \<Rightarrow> Collection \<Rightarrow> string \<Rightarrow> string \<Rightarrow> int \<Rightarrow> TimelineEvent list \<Rightarrow> string list \<Rightarrow> bool" where
  "annotated d db f roomID userID now ms mems \<longleftrightarrow> (\<forall>ev \<in> set ms. shown d db f roomID userID now ev) \<and>
     mems = map (\<lambda>ev. vd_Membership (event_verdict d db userID now ev)) ms"

lemma recents_loop_annotated:
  assumes "answers_db d db" and "plain userID"
  shows "caches_sound (rdb_groups db) (rdb_state db) cs \<Longrightarrow> annotated d db f (rfu_RoomID room) userID now ms mems \<Longrightarrow>
    recents_loop d room userID since now f tlim ll n cs k lim ms mems = (cs', Inr (k', lim', ms', mems')) \<Longrightarrow>
    caches_sound (rdb_groups db) (rdb_state db) cs' \<and> annotated d db f (rfu_RoomID room) userID now ms' mems'"
proof (induction n arbitrary: cs k lim ms mems)
  case (Suc n)
  show ?case
  proof (cases "lim \<and> int (length ms) < tlim")
    case False
    with Suc.prems show ?thesis by auto
  next
    case True
    from recents_step [OF Suc.prems(3) True] obtain loaded k1 lim1 cs1 vis mvis where
      p: "(case since of Some t \<Rightarrow> PaginateBackwardsStream d (rfu_RoomID room) (rfu_RoomVersion room) ll k t
          | None \<Rightarrow> PaginateBackwards d (rfu_RoomID room) (rfu_RoomVersion room) ll k) = Inr (loaded, k1, lim1)"
        "filterAndVisible d cs (rfu_RoomID room) userID loaded now f = (cs1, Inr (vis, mvis))"
        "recents_loop d room userID since now f tlim ll n cs1 k1 lim1 (vis @ ms) (mvis @ mems) = (cs', Inr (k', lim', ms', mems'))" .
    have "\<forall>ev \<in> set loaded. te_IsState ev = rdb_isState db (te_EventID ev)"
      using p(1) page_events [OF assms(1)] by (cases since) auto
    from filterAndVisible_spec [OF assms(1) Suc.prems(1) assms(2) this p(2)] Suc.prems(2)
    have "caches_sound (rdb_groups db) (rdb_state db) cs1" "annotated d db f (rfu_RoomID room) userID now (vis @ ms) (mvis @ mems)"
      by (auto simp: annotated_def)
    from Suc.IH [OF this p(3)] show ?thesis .
  qed
qed auto

lemma WithRoomKey_room: "tk_Room (WithRoomKey t k) = k"
  by (simp add: WithRoomKey_def)

text \<open>The three ways \<^verbatim>\<open>loadFilteredRecents\<close> returns a timeline.\<close>

lemma recents_cases:
  assumes "loadFilteredRecents d cs room userID now upto0 since0 pot0 has fresh_join timeNow f gaps = (cs', Inr (ms, mems, tok, lim))"
  obtains (blocked) "ms = []" "mems = []" "\<not> lim" "BlocksAllRoomTimeline f \<or> BlocksAllRooms f \<or> TimelineLimit f \<le> 0"
  | (whole) pot where "pot = pot0" "int (length pot0) \<le> TimelineLimit f" "filterAndVisible d cs (rfu_RoomID room) userID pot timeNow f = (cs', Inr (ms, mems))" "\<not> lim"
      "gap_lookup d gaps (rfu_RoomID room) since0 (tk_Room now) = Inr None" "0 < TimelineLimit f" "has" "\<not> fresh_join"
      "ms \<noteq> [] \<longrightarrow> rk_Stream (tk_Room tok) = wrap64 (te_StreamOrdering (hd ms) - 1)"
  | (walked) gapStream pot upto since cs1 m0 mm0 k' l' ms1 mems1 where
      "gap_lookup d gaps (rfu_RoomID room) since0 (tk_Room now) = Inr gapStream"
      "pot = (if gapStream \<noteq> None then [] else pot0)" "upto = (if gapStream \<noteq> None then now else upto0)"
      "since = (case gapStream of Some g \<Rightarrow> map_option (\<lambda>_. Live g) since0 | None \<Rightarrow> since0)"
      "filterAndVisible d cs (rfu_RoomID room) userID pot timeNow f = (cs1, Inr (m0, mm0))"
      "recents_loop d room userID since timeNow f (TimelineLimit f) (load_limit (TimelineLimit f)) maxTimelineRepeats cs1 (tk_Room upto) True m0 mm0
         = (cs', Inr (k', l', ms1, mems1))"
      "ms = drop (length ms1 - nat (TimelineLimit f)) ms1" "length mems1 = length ms1 \<longrightarrow> mems = drop (length mems1 - nat (TimelineLimit f)) mems1" "0 < TimelineLimit f"
      "lim = (int (length ms1) > TimelineLimit f \<or> l' \<or> fresh_join \<or> gapStream \<noteq> None)"
proof -
  from assms obtain gapStream where g: "gap_lookup d gaps (rfu_RoomID room) since0 (tk_Room now) = Inr gapStream"
    by (auto simp: loadFilteredRecents_def Let_def split: sum.splits)
  let ?pot = "if gapStream \<noteq> None then [] else pot0" and ?upto = "if gapStream \<noteq> None then now else upto0"
  let ?lim = "gapStream \<noteq> None \<or> \<not> has \<or> fresh_join \<or> TimelineLimit f < int (length pot0)"
  show thesis
  proof (cases "BlocksAllRoomTimeline f \<or> BlocksAllRooms f \<or> TimelineLimit f \<le> 0")
    case True
    with assms g have "ms = []" "mems = []" "\<not> lim" by (auto simp: loadFilteredRecents_def Let_def)
    then show thesis using True by (rule blocked)
  next
    case False
    obtain cs1 r where r: "filterAndVisible d cs (rfu_RoomID room) userID ?pot timeNow f = (cs1, r)" by fastforce
    from assms g False r obtain m0 mm0 where m0: "r = Inr (m0, mm0)"
      by (cases r) (auto simp: loadFilteredRecents_def Let_def)
    show thesis
    proof (cases ?lim)
      case lim: False
      then have pot: "?pot = pot0" "int (length pot0) \<le> TimelineLimit f" "gapStream = None" by auto
      from assms g False r m0 lim have "cs' = cs1" "ms = m0" "mems = mm0" "\<not> lim"
        "ms \<noteq> [] \<longrightarrow> rk_Stream (tk_Room tok) = wrap64 (te_StreamOrdering (hd ms) - 1)"
        by (auto simp: loadFilteredRecents_def Let_def WithRoomKey_room Live_def)
      with whole [of pot0] r m0 pot g False lim show thesis by simp
    next
      case lim: True
      let ?since = "case gapStream of Some g \<Rightarrow> map_option (\<lambda>_. Live g) since0 | None \<Rightarrow> since0"
      obtain cs2 l where l: "recents_loop d room userID ?since timeNow f (TimelineLimit f) (load_limit (TimelineLimit f)) maxTimelineRepeats cs1 (tk_Room ?upto) True m0 mm0 = (cs2, l)"
        by fastforce
      let ?run = "loadFilteredRecents d cs room userID now upto0 since0 pot0 has fresh_join timeNow f gaps"
      have run: "?run = (case l of
            Inl err \<Rightarrow> (cs2, Inl err)
          | Inr (fromKey, limited1, ms, mems) \<Rightarrow>
              if int (length ms) > TimelineLimit f then
                let ms' = drop (length ms - nat (TimelineLimit f)) ms
                in (cs2, Inr (ms', drop (length mems - nat (TimelineLimit f)) mems,
                      WithRoomKey ?upto (Live (wrap64 (te_StreamOrdering (hd ms') - 1))), True))
              else (cs2, Inr (ms, mems, WithRoomKey ?upto (tk_Room ?upto), limited1 \<or> fresh_join \<or> gapStream \<noteq> None)))"
        using g False r m0 lim l by (cases gapStream; cases l) (auto simp: loadFilteredRecents_def Let_def)
      from assms run obtain k' l' ms1 mems1 where i: "l = Inr (k', l', ms1, mems1)" by (cases l) auto
      show thesis
      proof (rule walked [OF g refl refl refl r [unfolded m0]])
        show "recents_loop d room userID ?since timeNow f (TimelineLimit f) (load_limit (TimelineLimit f)) maxTimelineRepeats cs1 (tk_Room ?upto) True m0 mm0
            = (cs', Inr (k', l', ms1, mems1))"
          using assms l i run by (auto simp: Let_def split: if_splits)
      next
        show "ms = drop (length ms1 - nat (TimelineLimit f)) ms1" using assms i run False by (auto simp: Let_def split: if_splits)
      qed (use assms i run False in \<open>auto simp: Let_def split: if_splits\<close>)
    qed
  qed
qed

section \<open>No hole in the timeline\<close>

text \<open>The events of a room as the database has them, newest first, and the part of them a walk covers:
  after \<open>b\<close>, up to and including \<open>a\<close>.\<close>

type_synonym history = "(TimelineEvent \<times> bool) list"

abbreviation so :: "TimelineEvent \<times> bool \<Rightarrow> int" where "so row \<equiv> te_StreamOrdering (fst row)"

definition window :: "history \<Rightarrow> int \<Rightarrow> int \<Rightarrow> history" where
  "window hist a b = filter (\<lambda>row. b < so row \<and> so row \<le> a) hist"

definition newest_first :: "history \<Rightarrow> bool" where
  "newest_first hist \<longleftrightarrow> sorted_wrt (\<lambda>x y. so y < so x) hist \<and> (\<forall>row \<in> set hist. 0 < so row \<and> int64 (so row))"

text \<open>The stream query: the window, newest first, at most as many rows as asked for.\<close>

definition answers_stream :: "'e deps \<Rightarrow> string \<Rightarrow> history \<Rightarrow> bool" where
  "answers_stream d roomID hist \<longleftrightarrow>
     (\<forall>a b n rows. 0 \<le> n \<longrightarrow> dp_stream d roomID a b n = (rows, None) \<longrightarrow> rows = take (nat n) (window hist a b))"

lemma older_part:
  assumes "sorted_wrt (\<lambda>x y. so y < so x) (w1 @ w2)" and "w1 \<noteq> []"
  shows "filter (\<lambda>row. so row \<le> so (last w1) - 1) (w1 @ w2) = w2"
proof -
  have "w1 = butlast w1 @ [last w1]" using assms(2) by simp
  with assms(1) have s: "sorted_wrt (\<lambda>x y. so y < so x) (butlast w1 @ [last w1] @ w2)" by (metis append.assoc)
  have "\<forall>x \<in> set w1. so (last w1) \<le> so x"
  proof
    fix x assume "x \<in> set w1"
    then have "x \<in> set (butlast w1) \<or> x = last w1" using \<open>w1 = _\<close> by (metis Un_iff in_set_conv_decomp set_append set_ConsD empty_iff list.set(1))
    with s show "so (last w1) \<le> so x" by (auto simp: sorted_wrt_append)
  qed
  then have "filter (\<lambda>row. so row \<le> so (last w1) - 1) w1 = []" by (fastforce simp: filter_empty_conv)
  moreover have "filter (\<lambda>row. so row \<le> so (last w1) - 1) w2 = w2" using s by (fastforce simp: sorted_wrt_append filter_id_conv)
  ultimately show ?thesis by simp
qed

lemma window_sorted: "newest_first hist \<Longrightarrow> sorted_wrt (\<lambda>x y. so y < so x) (window hist a b)"
  by (simp add: newest_first_def window_def sorted_wrt_filter)

lemma window_empty: "a \<le> b \<Longrightarrow> window hist a b = []"
  by (auto simp: window_def filter_empty_conv)

text \<open>The rest of a window, from just below the oldest row of its first part.\<close>

lemma window_rest:
  assumes "newest_first hist" and "window hist a b = w1 @ w2" and "w1 \<noteq> []"
  shows "window hist (so (last w1) - 1) b = w2"
proof -
  have "last w1 \<in> set (window hist a b)" using assms(2,3) by simp
  then have "so (last w1) \<le> a" by (simp add: window_def)
  then have "window hist (so (last w1) - 1) b = filter (\<lambda>row. so row \<le> so (last w1) - 1) (window hist a b)"
    by (auto simp: window_def intro!: filter_cong)
  also have "\<dots> = w2" unfolding assms(2) by (rule older_part) (use window_sorted [OF assms(1), of a b] assms(2,3) in simp_all)
  finally show ?thesis .
qed

lemma so_scan [simp]: "so (case row of (ev, ok) \<Rightarrow> (ev\<lparr>te_RoomID := r, te_RoomVersion := v\<rparr>, ok)) = so row"
  by (cases row) simp

lemma Live_max [simp]: "RoomKey_MaxStreamPos (Live n) = n"
  by (simp add: RoomKey_MaxStreamPos_def Live_def)

text \<open>One page of the stream walk: the newest part of the window, and a key from which the rest of the window
  is what is left; the walk goes on exactly when something is.\<close>

lemma stream_page:
  assumes "newest_first hist" and "answers_stream d r hist" and "0 < n" and "int64 (n * 2)"
    and "PaginateBackwardsStream d r v n k t = Inr (loaded, k', further)"
  shows "\<exists>w1 w2. window hist (RoomKey_MaxStreamPos k) (RoomKey_MaxStreamPos t) = w1 @ w2 \<and> loaded = ascending (scan_rows r v w1) \<and>
    (further \<longrightarrow> window hist (RoomKey_MaxStreamPos k') (RoomKey_MaxStreamPos t) = w2) \<and> (\<not> further \<longrightarrow> w2 = [])"
proof (cases "RoomKey_MaxStreamPos k \<le> RoomKey_MaxStreamPos t")
  case True
  with assms(3,5) show ?thesis by (auto simp: PaginateBackwardsStream_def window_empty ascending_def scan_rows_def)
next
  case False
  let ?w = "window hist (RoomKey_MaxStreamPos k) (RoomKey_MaxStreamPos t)"
  obtain rows err where q: "dp_stream d r (RoomKey_MaxStreamPos k) (RoomKey_MaxStreamPos t) (n * 2) = (rows, err)" by fastforce
  have err: "err = None" using assms(3-5) False q by (cases err) (auto simp: PaginateBackwardsStream_def Let_def)
  have rows: "rows = take (nat (n * 2)) ?w" using assms(2,3) q err by (simp add: answers_stream_def)
  let ?ds = "scan_rows r v (take (nat n) ?w)"
  have trim: "trim_page n (n * 2) (scan_rows r v rows) = (?ds, nat n < length ?w)"
    using assms(3) unfolding rows trim_page_def scan_rows_def by (auto simp: Let_def take_map min_def)
  have run: "PaginateBackwardsStream d r v n k t =
      (if ?ds = [] then Inr ([], t, nat n < length ?w)
       else Inr (ascending ?ds, Live (wrap64 (te_StreamOrdering (fst (last ?ds)) - 1)), nat n < length ?w))"
    using assms(3,4) False q err trim by (cases "?ds = []") (simp_all add: PaginateBackwardsStream_def Let_def)
  show ?thesis
  proof (cases "?w = []")
    case True
    with run assms(5) show ?thesis by (simp add: scan_rows_def ascending_def)
  next
    case ne: False
    then have w1: "take (nat n) ?w \<noteq> []" using assms(3) by simp
    then have ds: "?ds \<noteq> []" by (simp add: scan_rows_def)
    have l: "te_StreamOrdering (fst (last ?ds)) = so (last (take (nat n) ?w))" using w1 by (simp add: scan_rows_def last_map)
    have "last (take (nat n) ?w) \<in> set ?w" using last_in_set [OF w1] by (rule in_set_takeD)
    then have "0 < so (last (take (nat n) ?w))" "int64 (so (last (take (nat n) ?w)))"
      using assms(1) by (auto simp: newest_first_def window_def)
    then have "int64 (so (last (take (nat n) ?w)) - 1)" by (simp add: int64_def)
    with run assms(5) ds l have *: "loaded = ascending ?ds" "k' = Live (so (last (take (nat n) ?w)) - 1)" "further = (nat n < length ?w)" by simp_all
    have "window hist (so (last (take (nat n) ?w)) - 1) (RoomKey_MaxStreamPos t) = drop (nat n) ?w"
      by (rule window_rest [OF assms(1) _ w1]) simp
    with * show ?thesis by (intro exI [of _ "take (nat n) ?w"] exI [of _ "drop (nat n) ?w"]) simp
  qed
qed

text \<open>The events of a window that belong in the timeline, oldest first.\<close>

definition shown_of :: "'e deps \<Rightarrow> room_db \<Rightarrow> Collection \<Rightarrow> RoomForUser \<Rightarrow> string \<Rightarrow> int \<Rightarrow> history \<Rightarrow> TimelineEvent list" where
  "shown_of d db f room userID now w =
     filter (shown d db f (rfu_RoomID room) userID now) (ascending (scan_rows (rfu_RoomID room) (rfu_RoomVersion room) w))"

lemma shown_of_append: "shown_of d db f room userID now (w1 @ w2) = shown_of d db f room userID now w2 @ shown_of d db f room userID now w1"
  by (simp add: shown_of_def ascending_def scan_rows_def)

lemma shown_of_Nil [simp]: "shown_of d db f room userID now [] = []"
  by (simp add: shown_of_def ascending_def scan_rows_def)

lemma recents_loop_no_hole:
  assumes "answers_db d db" and "plain userID" and "newest_first hist" and "answers_stream d (rfu_RoomID room) hist"
    and "0 < ll" and "int64 (ll * 2)"
  shows "caches_sound (rdb_groups db) (rdb_state db) cs \<Longrightarrow>
    recents_loop d room userID (Some t) now f tlim ll n cs k lim ms mems = (cs', Inr (k', lim', ms', mems')) \<Longrightarrow>
    (if lim then shown_of d db f room userID now (window hist (RoomKey_MaxStreamPos k) (RoomKey_MaxStreamPos t)) @ ms = full else ms = full) \<Longrightarrow>
    \<exists>older. full = older @ ms' \<and> (\<not> lim' \<longrightarrow> older = [])"
proof (induction n arbitrary: cs k lim ms mems)
  case (Suc n)
  show ?case
  proof (cases "lim \<and> int (length ms) < tlim")
    case False
    with Suc.prems show ?thesis by (auto split: if_splits)
  next
    case True
    from recents_step [OF Suc.prems(2) True, unfolded option.case] obtain loaded k1 lim1 cs1 vis mvis where
      p: "PaginateBackwardsStream d (rfu_RoomID room) (rfu_RoomVersion room) ll k t = Inr (loaded, k1, lim1)"
        "filterAndVisible d cs (rfu_RoomID room) userID loaded now f = (cs1, Inr (vis, mvis))"
        "recents_loop d room userID (Some t) now f tlim ll n cs1 k1 lim1 (vis @ ms) (mvis @ mems) = (cs', Inr (k', lim', ms', mems'))" .
    from filterAndVisible_spec [OF assms(1) Suc.prems(1) assms(2) page_events(2) [OF assms(1) p(1)] p(2)]
    have v: "caches_sound (rdb_groups db) (rdb_state db) cs1" "vis = filter (shown d db f (rfu_RoomID room) userID now) loaded" by simp_all
    from stream_page [OF assms(3-6) p(1)] obtain w1 w2 where w:
      "window hist (RoomKey_MaxStreamPos k) (RoomKey_MaxStreamPos t) = w1 @ w2"
      "loaded = ascending (scan_rows (rfu_RoomID room) (rfu_RoomVersion room) w1)"
      "lim1 \<longrightarrow> window hist (RoomKey_MaxStreamPos k1) (RoomKey_MaxStreamPos t) = w2" "\<not> lim1 \<longrightarrow> w2 = []" by blast
    have "full = shown_of d db f room userID now w2 @ vis @ ms"
      using Suc.prems(3) True w(1) unfolding v(2) w(2) by (simp add: shown_of_append) (simp add: shown_of_def)
    with w(3,4) have "if lim1 then shown_of d db f room userID now (window hist (RoomKey_MaxStreamPos k1) (RoomKey_MaxStreamPos t)) @ vis @ ms = full
        else vis @ ms = full" by auto
    from Suc.IH [OF v(1) p(3) this] show ?thesis .
  qed
qed (auto split: if_splits)

lemma load_limit_bounds:
  assumes "0 < n" and "n < 2 ^ 61"
  shows "0 < load_limit n \<and> int64 (load_limit n * 2)"
  using assms by (auto simp: load_limit_def Let_def int64_def)

text \<open>
  C18. An incremental timeline has no hole. Take a room whose events the stream query returns in their order,
  and a caller whose window of events, when it fits the limit, leaves nothing between the client's token
  and itself. Then what \<^verbatim>\<open>loadFilteredRecents\<close> returns is the end of the complete list of events the client
  may see since its token (or since the gap, when the room has one), however many pages it read and
  whatever the filters dropped on the way: a client is never handed a later event with an earlier one
  missing in between. And when the timeline is not marked limited it is the complete list.
\<close>

theorem timeline_has_no_hole:
  assumes "answers_db d db" and "caches_sound (rdb_groups db) (rdb_state db) cs" and "plain userID"
    and "newest_first hist" and "answers_stream d (rfu_RoomID room) hist"
    and "0 < TimelineLimit f" and "TimelineLimit f < 2 ^ 61" and "\<not> BlocksAllRoomTimeline f" and "\<not> BlocksAllRooms f"
    and "\<forall>ev \<in> set potential. te_IsState ev = rdb_isState db (te_EventID ev)"
    and "hasPotential \<and> \<not> newlyJoined \<and> int (length potential) \<le> TimelineLimit f \<longrightarrow>
           window hist (RoomKey_MaxStreamPos (tk_Room uptoTok)) (RoomKey_MaxStreamPos since) = []"
    and "gap_lookup d gaps (rfu_RoomID room) (Some since) (tk_Room now) = Inr gap"
    and "snd (loadFilteredRecents d cs room userID now uptoTok (Some since) potential hasPotential newlyJoined timeNow f gaps) = Inr (ms, mems, prev, limited)"
  shows "\<exists>older. older @ ms =
      (case gap of
         None \<Rightarrow> shown_of d db f room userID timeNow (window hist (RoomKey_MaxStreamPos (tk_Room uptoTok)) (RoomKey_MaxStreamPos since)) @
           filter (shown d db f (rfu_RoomID room) userID timeNow) potential
       | Some g \<Rightarrow> shown_of d db f room userID timeNow (window hist (RoomKey_MaxStreamPos (tk_Room now)) g)) \<and>
      (\<not> limited \<longrightarrow> older = [])"
proof -
  let ?r = "loadFilteredRecents d cs room userID now uptoTok (Some since) potential hasPotential newlyJoined timeNow f gaps"
  have run: "?r = (fst ?r, Inr (ms, mems, prev, limited))" using assms(13) by (simp add: prod_eq_iff)
  note spec = filterAndVisible_spec [OF assms(1,2,3)]
  from run show ?thesis
  proof (cases rule: recents_cases)
    case blocked
    with assms(6,8,9) show ?thesis by simp
  next
    case (whole pot)
    with assms(11,12) spec [OF assms(10), of "rfu_RoomID room" timeNow f] show ?thesis by simp
  next
    case (walked gapStream pot uptoTok' since' cs1 m0 mm0 k' l' ms1 mems1)
    let ?t = "case gap of None \<Rightarrow> since | Some g \<Rightarrow> Live g"
    have g: "gapStream = gap" using walked(1) assms(12) by simp
    then have t: "since' = Some ?t" using walked(4) by (simp split: option.splits)
    have "\<forall>ev \<in> set pot. te_IsState ev = rdb_isState db (te_EventID ev)" using walked(2) assms(10) by auto
    from spec [OF this walked(5)] have m0: "caches_sound (rdb_groups db) (rdb_state db) cs1"
      "m0 = filter (shown d db f (rfu_RoomID room) userID timeNow) pot" by simp_all
    let ?full = "shown_of d db f room userID timeNow (window hist (RoomKey_MaxStreamPos (tk_Room uptoTok')) (RoomKey_MaxStreamPos ?t)) @ m0"
    from recents_loop_no_hole [OF assms(1,3-5) _ _ m0(1) walked(6) [unfolded t], of ?full] load_limit_bounds [OF assms(6,7)]
    obtain older where o: "?full = older @ ms1" "\<not> l' \<longrightarrow> older = []" by auto
    let ?cut = "length ms1 - nat (TimelineLimit f)"
    have "(older @ take ?cut ms1) @ ms = ?full" using o(1) walked(7) by simp
    moreover have "older @ take ?cut ms1 = []" if "\<not> limited" using that walked(10) o(2) by auto
    moreover have "?full = (case gap of
         None \<Rightarrow> shown_of d db f room userID timeNow (window hist (RoomKey_MaxStreamPos (tk_Room uptoTok)) (RoomKey_MaxStreamPos since)) @
           filter (shown d db f (rfu_RoomID room) userID timeNow) potential
       | Some g \<Rightarrow> shown_of d db f room userID timeNow (window hist (RoomKey_MaxStreamPos (tk_Room now)) g))"
      using walked(2,3) unfolding m0(2) g by (cases gap) simp_all
    ultimately show ?thesis by metis
  qed
qed

text \<open>When every query answers, so do the walks and the filters.\<close>

definition all_answer :: "'e deps \<Rightarrow> bool" where
  "all_answer d \<longleftrightarrow> (\<forall>ids. snd (dp_groups d ids) = None) \<and> (\<forall>g k t. snd (dp_state d g k t) = None) \<and>
     (\<forall>r u s. isl (dp_extras d r u s) = False) \<and> (\<forall>ids. isl (dp_current d ids) = False) \<and> (\<forall>ids a b. isl (dp_relations d ids a b) = False) \<and>
     (\<forall>r b n. snd (dp_topology d r b n) = None) \<and> (\<forall>r a b n. snd (dp_stream d r a b n) = None) \<and> (\<forall>r a b. isl (dp_gap d r a b) = False)"

lemma Inr_of: "isl x = False \<Longrightarrow> \<exists>y. x = Inr y"
  by (cases x) auto

lemma None_of: "snd p = None \<Longrightarrow> \<exists>rows. p = (rows, None)"
  by (cases p) auto

lemma filterAndVisible_total:
  assumes "all_answer d"
  shows "\<exists>cs' ms mems. filterAndVisible d cs r u events now f = (cs', Inr (ms, mems))"
proof -
  have rel: "\<exists>e. applyRelationFilter d g evs = Inr e" for g evs
  proof -
    have "isl (dp_relations d (map te_EventID evs) (fl_RelatedBySenders g) (fl_RelatedByRelTypes g)) = False" using assms by (simp add: all_answer_def)
    from Inr_of [OF this] show ?thesis by (auto simp: applyRelationFilter_def)
  qed
  have cur: "\<exists>s. stateEventIDsInCurrentState d evs = Inr s" for evs
  proof -
    have "isl (dp_current d (map te_EventID (filter te_IsState evs))) = False" using assms by (simp add: all_answer_def)
    from Inr_of [OF this] show ?thesis by (auto simp: stateEventIDsInCurrentState_def Let_def)
  qed
  have vis: "\<exists>cs' ms mems. filterVisibleAlways d cs r u evs p now always = (cs', Inr (ms, mems))" for evs p always
  proof -
    have "\<exists>res. snd (ForClient (dp_gj d) (dp_groups d) (\<lambda>g k. dp_state d g k []) (dp_extras d) (dp_visit d) cs r u evs p now always) = Inr res"
      by (rule for_client_total) (use assms in \<open>simp_all add: all_answer_def Inr_of\<close>)
    then show ?thesis by (auto simp: filterVisibleAlways_def split: prod.split)
  qed
  from rel obtain e where e: "applyRelationFilter d (cl_roomTimeline f) (filterTimeline d f r events) = Inr e" by blast
  from cur obtain s where "stateEventIDsInCurrentState d e = Inr s" by blast
  with e vis show ?thesis by (cases "events = []") (simp_all add: filterAndVisible_def)
qed

lemma page_total:
  assumes "all_answer d"
  shows "\<exists>p. PaginateBackwards d r v n k = Inr p" and "\<exists>p. PaginateBackwardsStream d r v n k t = Inr p"
proof -
  have "\<exists>rows. dp_topology d r b m = (rows, None)" for b m using assms by (intro None_of) (simp add: all_answer_def)
  then show "\<exists>p. PaginateBackwards d r v n k = Inr p"
    unfolding PaginateBackwards_def Let_def by (auto split: prod.split option.split) (metis option.distinct(1) prod.inject)+
  have "\<exists>rows. dp_stream d r a b m = (rows, None)" for a b m using assms by (intro None_of) (simp add: all_answer_def)
  then show "\<exists>p. PaginateBackwardsStream d r v n k t = Inr p"
    unfolding PaginateBackwardsStream_def Let_def by (auto split: prod.split option.split) (metis option.distinct(1) prod.inject)+
qed

lemma recents_loop_total:
  assumes "all_answer d"
  shows "\<exists>cs' k' lim' ms' mems'. recents_loop d room u since now f tlim ll n cs k lim ms mems = (cs', Inr (k', lim', ms', mems'))"
proof (induction n arbitrary: cs k lim ms mems)
  case (Suc n)
  obtain loaded k1 lim1 where p: "(case since of Some t \<Rightarrow> PaginateBackwardsStream d (rfu_RoomID room) (rfu_RoomVersion room) ll k t
      | None \<Rightarrow> PaginateBackwards d (rfu_RoomID room) (rfu_RoomVersion room) ll k) = Inr (loaded, k1, lim1)"
    using page_total [OF assms] by (cases since) (auto, metis prod_cases3, metis prod_cases3)
  obtain cs1 vis mvis where "filterAndVisible d cs (rfu_RoomID room) u loaded now f = (cs1, Inr (vis, mvis))"
    using filterAndVisible_total [OF assms] by blast
  with p Suc.IH show ?case by simp
qed auto

subsection \<open>A concrete room\<close>

definition wit_row :: "string \<Rightarrow> int \<Rightarrow> TimelineEvent \<times> bool" where
  "wit_row i n = ((wit_message i ''@s'')\<lparr>te_StreamOrdering := n\<rparr>, True)"

definition wit_history :: history where
  "wit_history = [wit_row ''$c'' 3, wit_row ''$b'' 2, wit_row ''$a'' 1]"

definition wit_deps :: "string deps" where
  "wit_deps = \<lparr>dp_gj = no_gjson, dp_content = \<lambda>_. JBad, dp_groups = \<lambda>ids. (map (\<lambda>i. (i, 4)) ids, None), dp_state = no_state,
     dp_extras = \<lambda>_ _ _. Inr no_extras, dp_visit = \<lambda>m. m, dp_current = \<lambda>_. Inr {}, dp_relations = \<lambda>_ _ _. Inr {},
     dp_topology = \<lambda>_ _ n. (take (nat n) wit_history, None), dp_stream = \<lambda>_ a b n. (take (nat n) (window wit_history a b), None),
     dp_gap = \<lambda>_ _ _. Inr None\<rparr>"

definition wit_db :: room_db where
  "wit_db = \<lparr>rdb_groups = \<lambda>_. Some 4, rdb_state = \<lambda>_ _. None, rdb_current = {}, rdb_related = \<lambda>_ _. {}, rdb_extras = no_extras,
     rdb_isState = \<lambda>_. False\<rparr>"

definition wit_filter :: Collection where
  "wit_filter = wit_collection\<lparr>cl_roomTimeline := empty_filter 2\<rparr>"

definition wit_now :: "int \<Rightarrow> Token" where
  "wit_now n = (token_example 0 [])\<lparr>tk_Room := Live n\<rparr>"

definition wit_room :: RoomForUser where
  "wit_room = \<lparr>rfu_RoomID = ''!r'', rfu_RoomVersion = ''11'', rfu_Membership = ''join'', rfu_EventID = [], rfu_Sender = [], rfu_StreamOrdering = 0,
     rfu_IsPublic = False\<rparr>"

lemma wit_rows [simp]: "te_IsState (fst (wit_row i n)) = False" "so (wit_row i n) = n"
  by (simp_all add: wit_row_def wit_message_def)

lemma room_answers: "answers_db wit_deps wit_db"
proof -
  have "answers_groups (\<lambda>_. Some 4) (\<lambda>ids. (map (\<lambda>i. (i, 4)) ids, None))" by (auto simp: answers_groups_def)
  moreover have "\<forall>row \<in> set wit_history. te_IsState (fst row) = False" by (simp add: wit_history_def)
  then have "\<forall>(ev, ok) \<in> set (take n wit_history). \<not> te_IsState ev" "\<forall>(ev, ok) \<in> set (take n (window wit_history a b)). \<not> te_IsState ev" for n a b
    by (fastforce simp: window_def dest: in_set_takeD)+
  ultimately show ?thesis using no_state_answers
    by (simp add: answers_db_def wit_deps_def wit_db_def no_extras_def)
qed

lemma wit_all_answer: "all_answer wit_deps"
  by (simp add: all_answer_def wit_deps_def no_state_def)


text \<open>
  C19. A timeline holds what the client may see and no more. Every event of it passes the client's timeline
  filter and its relation constraints and is visible to the user on the state the database holds at that
  event, unless it is part of the current state, which is exempt; beside each stands the user's membership
  at that event; and there are at most as many as the filter's limit, whatever the pages held.
\<close>

theorem timeline_shows_what_is_visible:
  assumes "answers_db d db" and "caches_sound (rdb_groups db) (rdb_state db) cs" and "plain userID"
    and "\<forall>ev \<in> set potential. te_IsState ev = rdb_isState db (te_EventID ev)"
    and "snd (loadFilteredRecents d cs room userID now uptoTok since potential hasPotential newlyJoined timeNow f gaps) = Inr (ms, mems, prev, limited)"
  shows "(\<forall>ev \<in> set ms. shown d db f (rfu_RoomID room) userID timeNow ev) \<and>
    mems = map (\<lambda>ev. vd_Membership (event_verdict d db userID timeNow ev)) ms \<and> int (length ms) \<le> max 0 (TimelineLimit f)"
proof -
  let ?r = "loadFilteredRecents d cs room userID now uptoTok since potential hasPotential newlyJoined timeNow f gaps"
  have run: "?r = (fst ?r, Inr (ms, mems, prev, limited))" using assms(5) by (simp add: prod_eq_iff)
  note spec = filterAndVisible_spec [OF assms(1,2,3)]
  from run have "annotated d db f (rfu_RoomID room) userID timeNow ms mems \<and> int (length ms) \<le> max 0 (TimelineLimit f)"
  proof (cases rule: recents_cases)
    case blocked
    then show ?thesis by (simp add: annotated_def)
  next
    case (whole pot)
    from spec [OF assms(4), of "rfu_RoomID room" timeNow f] whole(1,3)
    have m: "ms = filter (shown d db f (rfu_RoomID room) userID timeNow) potential"
      "mems = map (\<lambda>ev. vd_Membership (event_verdict d db userID timeNow ev)) ms" by simp_all
    have "length ms \<le> length potential" unfolding m(1) by (rule length_filter_le)
    with whole(2) have "int (length ms) \<le> TimelineLimit f" by linarith
    moreover have "\<forall>ev \<in> set ms. shown d db f (rfu_RoomID room) userID timeNow ev" unfolding m(1) by simp
    ultimately show ?thesis using m(2) by (simp add: annotated_def)
  next
    case (walked gapStream pot uptoTok' since' cs1 m0 mm0 k' l' ms1 mems1)
    have "\<forall>ev \<in> set pot. te_IsState ev = rdb_isState db (te_EventID ev)" using walked(2) assms(4) by auto
    from spec [OF this walked(5)] have "caches_sound (rdb_groups db) (rdb_state db) cs1" "annotated d db f (rfu_RoomID room) userID timeNow m0 mm0"
      by (auto simp: annotated_def)
    from recents_loop_annotated [OF assms(1,3) this walked(6)] have a: "annotated d db f (rfu_RoomID room) userID timeNow ms1 mems1" ..
    then have "length mems1 = length ms1" by (simp add: annotated_def)
    with walked(8) have "mems = drop (length ms1 - nat (TimelineLimit f)) mems1" by simp
    with a walked(7,9) show ?thesis by (auto simp: annotated_def drop_map dest: in_set_dropD)
  qed
  then show ?thesis by (simp add: annotated_def)
qed

lemma mod_wrap: "m \<le> (a::int) \<Longrightarrow> a < 2 * m \<Longrightarrow> a mod m = a - m"
  by (metis add_diff_cancel_left' diff_ge_0_iff_ge diff_less_eq minus_mod_self2 mod_pos_pos_trivial mult_2)

text \<open>
  The size of a page. A page asks for four times the client's limit and for no fewer than twenty rows;
  from a limit of \<^verbatim>\<open>2^61\<close> on the doubling wraps, so that the query is sent a negative \<^verbatim>\<open>LIMIT\<close>, and from
  \<^verbatim>\<open>2^62\<close> on it wraps earlier and the page is the smallest again.
\<close>

theorem page_size_bounds:
  assumes "0 < n" and "int64 n"
  shows "(n < 2 ^ 61 \<longrightarrow> wrap64 (load_limit n * 2) = max 20 (n * 4)) \<and> (2 ^ 61 \<le> n \<and> n < 2 ^ 62 \<longrightarrow> wrap64 (load_limit n * 2) < 0) \<and>
    (2 ^ 62 \<le> n \<longrightarrow> wrap64 (load_limit n * 2) = 20)"
proof (intro conjI impI)
  assume "n < 2 ^ 61"
  with assms(1) show "wrap64 (load_limit n * 2) = max 20 (n * 4)" by (auto simp: load_limit_def Let_def int64_def)
next
  assume n: "2 ^ 61 \<le> n \<and> n < 2 ^ 62"
  then have "load_limit n = n * 2" by (simp add: load_limit_def Let_def int64_def)
  moreover have "(4 * n + 9223372036854775808) mod 18446744073709551616 = 4 * n + 9223372036854775808 - 18446744073709551616"
    by (rule mod_wrap) (use n in simp_all)
  ultimately show "wrap64 (load_limit n * 2) < 0" using n by (simp add: wrap64_def mult.commute [of n])
next
  assume n: "2 ^ 62 \<le> n"
  have "(2 * n + 9223372036854775808) mod 18446744073709551616 = 2 * n + 9223372036854775808 - 18446744073709551616"
    by (rule mod_wrap) (use n assms(2) in \<open>simp_all add: int64_def\<close>)
  then have "wrap64 (n * 2) < 10" using assms(2) by (simp add: wrap64_def int64_def mult.commute [of n])
  then show "wrap64 (load_limit n * 2) = 20" by (simp add: load_limit_def Let_def int64_def)
qed

theorem page_size_bounds_witness: "wrap64 (load_limit 2305843009213693952 * 2) < 0 \<and> wrap64 (load_limit 10 * 2) = 40"
  using page_size_bounds [of 2305843009213693952] page_size_bounds [of 10] by (simp add: int64_def)


lemma wit_shown:
  "shown wit_deps wit_db wit_filter ''!r'' ''@u'' 1000 ev \<longleftrightarrow> te_Sender ev \<noteq> ''@bad''" if "te_Type ev = ''m.room.message''" "\<not> te_IsState ev"
  using that by (simp add: shown_def event_verdict_def wit_deps_def wit_db_def wit_filter_def wit_collection_def exempt_def CheckRoomTimeline_def filter_Check_def
      timelineFilterEvent_def matchField_iff empty_filter_def elems_def HasRelationConstraint_def db_verdict_def judge_def timelineToVisibilityEvent_def
      vis_context_def no_extras_def no_gjson_def Check_def passesSendToClientFilter_def softFailed_def policyServerSpammy_def no_verdict_def db_state_at_def
      laxAllows_def validVisibility_def Let_def)

definition wit_recents :: "caches \<times> (string + TimelineEvent list \<times> string list \<times> Token \<times> bool)" where
  "wit_recents = loadFilteredRecents wit_deps (newCaches 0 0) wit_room ''@u'' (wit_now 3) (wit_now 3) (Some (Live 0)) [] False False 1000 wit_filter None"

lemma wit_recents_run: "\<exists>ms mems prev limited. snd wit_recents = Inr (ms, mems, prev, limited)"
proof -
  have "\<exists>cs k l ms mems. recents_loop wit_deps wit_room ''@u'' (Some (Live 0)) 1000 wit_filter 2 10 maxTimelineRepeats (newCaches 0 0) (Live 3) True [] []
      = (cs, Inr (k, l, ms, mems))" by (rule recents_loop_total [OF wit_all_answer])
  then show ?thesis
    by (auto simp: wit_recents_def loadFilteredRecents_def gap_lookup_def wit_deps_def wit_filter_def wit_collection_def TimelineLimit_def empty_filter_def
        BlocksAllRoomTimeline_def BlocksAllRooms_def FiltersAllTypes_def FiltersAllSenders_def FiltersAllRooms_def elems_def filterAndVisible_def
        load_limit_def wit_now_def int64_def Let_def)
qed

theorem timeline_has_no_hole_witness:
  "\<exists>ms mems prev limited older. snd wit_recents = Inr (ms, mems, prev, limited) \<and> map te_EventID (older @ ms) = [''$a'', ''$b'', ''$c'']"
proof -
  obtain ms mems prev limited where run: "snd wit_recents = Inr (ms, mems, prev, limited)" using wit_recents_run by blast
  have hist: "newest_first wit_history" by (simp add: newest_first_def wit_history_def int64_def)
  have rows: "answers_stream wit_deps (rfu_RoomID wit_room) wit_history" by (simp add: answers_stream_def wit_deps_def)
  have f: "0 < TimelineLimit wit_filter" "TimelineLimit wit_filter < 2 ^ 61" "\<not> BlocksAllRoomTimeline wit_filter" "\<not> BlocksAllRooms wit_filter"
    by (simp_all add: wit_filter_def wit_collection_def TimelineLimit_def empty_filter_def BlocksAllRoomTimeline_def BlocksAllRooms_def
        FiltersAllTypes_def FiltersAllSenders_def FiltersAllRooms_def elems_def)
  have gap: "gap_lookup wit_deps None (rfu_RoomID wit_room) (Some (Live 0)) (tk_Room (wit_now 3)) = Inr None" by (simp add: gap_lookup_def wit_deps_def)
  have "\<exists>older. older @ ms = (case None of
         None \<Rightarrow> shown_of wit_deps wit_db wit_filter wit_room ''@u'' 1000 (window wit_history (RoomKey_MaxStreamPos (tk_Room (wit_now 3))) (RoomKey_MaxStreamPos (Live 0))) @
           filter (shown wit_deps wit_db wit_filter (rfu_RoomID wit_room) ''@u'' 1000) []
       | Some g \<Rightarrow> shown_of wit_deps wit_db wit_filter wit_room ''@u'' 1000 (window wit_history (RoomKey_MaxStreamPos (tk_Room (wit_now 3))) g)) \<and>
      (\<not> limited \<longrightarrow> older = [])"
    by (rule timeline_has_no_hole [OF room_answers new_caches_sound _ hist rows f _ _ gap run [unfolded wit_recents_def]]) (simp_all add: plain_def)
  then obtain older where "older @ ms = shown_of wit_deps wit_db wit_filter wit_room ''@u'' 1000 wit_history"
    by (auto simp: wit_now_def window_def wit_history_def)
  then have "map te_EventID (older @ ms) = [''$a'', ''$b'', ''$c'']"
    by (simp add: shown_of_def ascending_def scan_rows_def wit_history_def wit_row_def wit_room_def wit_shown wit_message_def)
  with run show ?thesis by (intro exI conjI)
qed

theorem timeline_shows_what_is_visible_witness:
  "\<exists>ms mems prev limited. snd wit_recents = Inr (ms, mems, prev, limited) \<and> length ms \<le> 2 \<and> length mems = length ms"
proof -
  obtain ms mems prev limited where run: "snd wit_recents = Inr (ms, mems, prev, limited)" using wit_recents_run by blast
  with timeline_shows_what_is_visible [OF room_answers new_caches_sound _ _ run [unfolded wit_recents_def]]
  show ?thesis by (simp add: plain_def wit_filter_def wit_collection_def TimelineLimit_def empty_filter_def)
qed

end
