(* ===== verification/Sliding_Store.thy ===== *)
theory Sliding_Store
  imports Required_State "HOL-Library.Product_Lexorder"
begin

text \<open>
  The connection store of sliding sync, \<^verbatim>\<open>internal/slidingstore\<close>: what each connection has been told.

  The worker owns the six tables of \<^verbatim>\<open>schema.sql\<close>, so they are part of the model: a table is a map from
  its unique key to the other columns, an identity column a counter, and \<^verbatim>\<open>ON DELETE CASCADE\<close> what
  \<open>drop_connections\<close> and \<open>drop_positions\<close> do. A transaction works on a copy and is thrown away when a
  statement fails; which statements fail is an argument (\<open>up\<close>). An identity value a failed transaction
  took is given out again, where PostgreSQL would leave a gap. The encoding of a list of pairs as JSON
  is an argument too (\<open>codec\<close>).
\<close>

section \<open>The state of a connection\<close>

subsection \<open>What has been sent\<close>

text \<open>The flag is a string type in the code, and any string can be read back from its column.\<close>

definition FlagNever :: string where "FlagNever = ''never''"
definition FlagPreviously :: string where "FlagPreviously = ''previously''"
definition FlagLive :: string where "FlagLive = ''live''"

record HaveSent =
  hs_Status :: string
  hs_LastToken :: string

definition Sent_Live :: HaveSent where "Sent_Live = \<lparr>hs_Status = FlagLive, hs_LastToken = []\<rparr>"
definition Previously :: "string \<Rightarrow> HaveSent" where "Previously lastToken = \<lparr>hs_Status = FlagPreviously, hs_LastToken = lastToken\<rparr>"
definition Never :: HaveSent where "Never = \<lparr>hs_Status = FlagNever, hs_LastToken = []\<rparr>"

record RoomStatusMap =
  rsm_base :: "(string, HaveSent) gomap"
  rsm_updates :: "(string, HaveSent) gomap"

definition NewRoomStatusMap :: "(string, HaveSent) gomap \<Rightarrow> RoomStatusMap" where
  "NewRoomStatusMap base = \<lparr>rsm_base = base, rsm_updates = []\<rparr>"

definition HaveSentRoom :: "RoomStatusMap \<Rightarrow> string \<Rightarrow> HaveSent" where
  "HaveSentRoom m roomID =
     (case mget (rsm_updates m) roomID of
        Some hs \<Rightarrow> hs
      | None \<Rightarrow> (case mget (rsm_base m) roomID of Some hs \<Rightarrow> hs | None \<Rightarrow> Never))"

definition rsm_set :: "RoomStatusMap \<Rightarrow> string \<Rightarrow> HaveSent \<Rightarrow> RoomStatusMap" where
  "rsm_set m roomID hs = m\<lparr>rsm_updates := mput roomID hs (rsm_updates m)\<rparr>"

fun RecordSentRooms :: "RoomStatusMap \<Rightarrow> string list \<Rightarrow> RoomStatusMap" where
  "RecordSentRooms m [] = m"
| "RecordSentRooms m (roomID # roomIDs) =
     (if hs_Status (HaveSentRoom m roomID) = FlagLive then RecordSentRooms m roomIDs
      else RecordSentRooms (rsm_set m roomID Sent_Live) roomIDs)"

fun RecordUnsentRooms :: "RoomStatusMap \<Rightarrow> string list \<Rightarrow> string \<Rightarrow> RoomStatusMap" where
  "RecordUnsentRooms m [] fromToken = m"
| "RecordUnsentRooms m (roomID # roomIDs) fromToken =
     (if hs_Status (HaveSentRoom m roomID) \<noteq> FlagLive then RecordUnsentRooms m roomIDs fromToken
      else RecordUnsentRooms (rsm_set m roomID (Previously fromToken)) roomIDs fromToken)"

definition Updates :: "RoomStatusMap \<Rightarrow> (string, HaveSent) gomap" where
  "Updates m = rsm_updates m"

text \<open>Two loops of assignments into an empty map.\<close>

abbreviation mput_all :: "('k, 'v) gomap \<Rightarrow> ('k, 'v) gomap \<Rightarrow> ('k, 'v) gomap" where
  "mput_all kvs m \<equiv> fold (\<lambda>(k, v). mput k v) kvs m"

definition RoomStatusMap_All :: "RoomStatusMap \<Rightarrow> (string, HaveSent) gomap" where
  "RoomStatusMap_All m = mput_all (rsm_updates m) (mput_all (rsm_base m) [])"

definition RoomStatusMap_Len :: "RoomStatusMap \<Rightarrow> nat" where
  "RoomStatusMap_Len m = length (RoomStatusMap_All m)"

subsection \<open>Required state as text\<close>

record codec =
  cd_marshal :: "(string \<times> string) list \<Rightarrow> string"
  cd_unmarshal :: "string \<Rightarrow> (string \<times> string) list option"

definition state_pairs :: "required_state \<Rightarrow> (string \<times> string) list" where
  "state_pairs required = concat (map (\<lambda>(t, keys). map (Pair t) (sorted_list_of_set keys)) required)"

definition EncodeRequiredState :: "codec \<Rightarrow> required_state \<Rightarrow> string" where
  "EncodeRequiredState c required = cd_marshal c (sort (state_pairs required))"

fun decode_loop :: "(string \<times> string) list \<Rightarrow> required_state \<Rightarrow> required_state" where
  "decode_loop [] out = out"
| "decode_loop ((t, k) # ps) out = decode_loop ps (mput t (insert k (keys_of out t)) out)"

definition DecodeRequiredState :: "codec \<Rightarrow> string \<Rightarrow> required_state option" where
  "DecodeRequiredState c s = map_option (\<lambda>pairs. decode_loop pairs []) (cd_unmarshal c s)"

subsection \<open>Lazily loaded members\<close>

definition LazyMembersUpdateIntervalMS :: int where "LazyMembersUpdateIntervalMS = 60 * 60 * 1000"
definition UpdateLastUsedIntervalMS :: int where "UpdateLastUsedIntervalMS = 5 * 60 * 1000"
definition ConnectionExpiryMS :: int where "ConnectionExpiryMS = 7 * 24 * 60 * 60 * 1000"

definition ReturnedToUpdate :: "LazyMembers \<Rightarrow> int \<Rightarrow> string list" where
  "ReturnedToUpdate l nowMS =
     sort (map fst (filter (\<lambda>(u, lastSeen). case lastSeen of None \<Rightarrow> True | Some t \<Rightarrow> nowMS - t \<ge> LazyMembersUpdateIntervalMS) (lm_Returned l)))"

definition LazyMembers_HasUpdates :: "LazyMembers \<Rightarrow> int \<Rightarrow> bool" where
  "LazyMembers_HasUpdates l nowMS \<longleftrightarrow> lm_Invalidated l \<noteq> {} \<or> ReturnedToUpdate l nowMS \<noteq> []"

record PerConnectionState =
  pc_LastUsedMS :: "int option"
  pc_Rooms :: RoomStatusMap
  pc_Receipts :: RoomStatusMap
  pc_AccountData :: RoomStatusMap
  pc_RoomConfigs :: "(string, RoomSyncConfig) gomap"
  pc_roomConfigUpdates :: "(string, RoomSyncConfig) gomap"
  pc_LazyMembership :: "(string, LazyMembers) gomap"

definition empty_state :: PerConnectionState where
  "empty_state = \<lparr>pc_LastUsedMS = None, pc_Rooms = NewRoomStatusMap [], pc_Receipts = NewRoomStatusMap [], pc_AccountData = NewRoomStatusMap [],
     pc_RoomConfigs = [], pc_roomConfigUpdates = [], pc_LazyMembership = []\<rparr>"

definition SetRoomConfig :: "PerConnectionState \<Rightarrow> string \<Rightarrow> RoomSyncConfig \<Rightarrow> PerConnectionState" where
  "SetRoomConfig p roomID cfg = p\<lparr>pc_RoomConfigs := mput roomID cfg (pc_RoomConfigs p),
     pc_roomConfigUpdates := mput roomID cfg (pc_roomConfigUpdates p)\<rparr>"

definition RoomConfigUpdates :: "PerConnectionState \<Rightarrow> (string, RoomSyncConfig) gomap" where
  "RoomConfigUpdates p = pc_roomConfigUpdates p"

definition HasUpdates :: "PerConnectionState \<Rightarrow> int \<Rightarrow> bool" where
  "HasUpdates p nowMS =
     (if Updates (pc_Rooms p) \<noteq> [] \<or> Updates (pc_Receipts p) \<noteq> [] \<or> Updates (pc_AccountData p) \<noteq> [] \<or> pc_roomConfigUpdates p \<noteq> [] then True
      else list_ex (\<lambda>(roomID, lm). LazyMembers_HasUpdates lm nowMS) (pc_LazyMembership p))"

section \<open>The tables\<close>

record connection_row =
  cn_user_id :: string
  cn_effective_device_id :: string
  cn_conn_id :: string
  cn_created_ts :: int
  cn_last_used_ts :: "int option"

record position_row =
  po_connection_key :: int
  po_created_ts :: int

record required_row =
  rq_connection_key :: int
  rq_required_state :: string

record config_row =
  cf_timeline_limit :: int
  cf_required_state_id :: int

record stream_row =
  sr_room_status :: string
  sr_last_token :: "string option"

record lazy_row =
  lz_connection_position :: "int option"
  lz_last_seen_ts :: int

text \<open>The keys of \<open>db_configs\<close> are position and room, of \<open>db_streams\<close> position, room and stream, of
  \<open>db_lazy\<close> connection, room and user: the unique indexes of the schema.\<close>

record gosync =
  db_connections :: "(int, connection_row) gomap"
  db_positions :: "(int, position_row) gomap"
  db_required :: "(int, required_row) gomap"
  db_configs :: "(int \<times> string, config_row) gomap"
  db_streams :: "(int \<times> string \<times> string, stream_row) gomap"
  db_lazy :: "(int \<times> string \<times> string, lazy_row) gomap"
  db_next_key :: int
  db_next_position :: int
  db_next_required :: int

definition no_rows :: gosync where
  "no_rows = \<lparr>db_connections = [], db_positions = [], db_required = [], db_configs = [], db_streams = [], db_lazy = [],
     db_next_key = 1, db_next_position = 1, db_next_required = 1\<rparr>"

definition drop_positions :: "(int \<times> position_row \<Rightarrow> bool) \<Rightarrow> gosync \<Rightarrow> gosync" where
  "drop_positions P db =
     (let gone = fst ` set (filter P (db_positions db))
      in db\<lparr>db_positions := filter (\<lambda>row. \<not> P row) (db_positions db),
            db_configs := filter (\<lambda>((pos, room), _). pos \<notin> gone) (db_configs db),
            db_streams := filter (\<lambda>((pos, room, stream), _). pos \<notin> gone) (db_streams db),
            db_lazy := filter (\<lambda>(_, row). case lz_connection_position row of None \<Rightarrow> True | Some pos \<Rightarrow> pos \<notin> gone) (db_lazy db)\<rparr>)"

definition drop_connections :: "(int \<times> connection_row \<Rightarrow> bool) \<Rightarrow> gosync \<Rightarrow> gosync" where
  "drop_connections P db =
     (let gone = fst ` set (filter P (db_connections db));
          db = db\<lparr>db_connections := filter (\<lambda>row. \<not> P row) (db_connections db),
                   db_required := filter (\<lambda>(_, row). rq_connection_key row \<notin> gone) (db_required db),
                   db_lazy := filter (\<lambda>((key, room, user), _). key \<notin> gone) (db_lazy db)\<rparr>
      in drop_positions (\<lambda>(_, row). po_connection_key row \<in> gone) db)"

section \<open>Transactions\<close>

datatype stmt = Begin | LookUpPosition | BumpLastUsed | PrunePositions | PromoteLazyMembers | LoadRequiredState | LoadRoomConfigs
  | DropUnusedRequiredState | LoadStreams | ClearOldConnection | NewConnection | NewPosition | InsertRequiredState | CopyStreamsForward
  | CopyRoomConfigsForward | UpsertStreams | UpsertRoomConfigs | UpsertLazyMembers | RemoveLazyMembers | Commit | LoadLazyMembers | ReapConnections
  | CountRows

datatype store_error = DbError stmt | ErrUnknownPosition | BadRequiredState int | Unresolved string

type_synonym 'a tx = "gosync \<Rightarrow> store_error + 'a \<times> gosync"

definition tx_return :: "'a \<Rightarrow> 'a tx" where "tx_return v db = Inr (v, db)"

definition tx_fail :: "store_error \<Rightarrow> 'a tx" where "tx_fail e db = Inl e"

definition tx_bind :: "'a tx \<Rightarrow> ('a \<Rightarrow> 'b tx) \<Rightarrow> 'b tx" where
  "tx_bind m k db = (case m db of Inl e \<Rightarrow> Inl e | Inr (v, db') \<Rightarrow> k v db')"

text \<open>A statement that reads, and one that writes.\<close>

definition query :: "(stmt \<Rightarrow> bool) \<Rightarrow> stmt \<Rightarrow> (gosync \<Rightarrow> 'a) \<Rightarrow> 'a tx" where
  "query up s f db = (if up s then Inr (f db, db) else Inl (DbError s))"

definition exec :: "(stmt \<Rightarrow> bool) \<Rightarrow> stmt \<Rightarrow> (gosync \<Rightarrow> gosync) \<Rightarrow> unit tx" where
  "exec up s f db = (if up s then Inr ((), f db) else Inl (DbError s))"

definition transaction :: "'a tx \<Rightarrow> gosync \<Rightarrow> gosync \<times> (store_error + 'a)" where
  "transaction m db = (case m db of Inl e \<Rightarrow> (db, Inl e) | Inr (v, db') \<Rightarrow> (db', Inr v))"

text \<open>\<^verbatim>\<open>pool.Begin\<close>, the body, \<^verbatim>\<open>tx.Commit\<close>; the deferred rollback undoes everything before a failure.\<close>

definition in_tx :: "(stmt \<Rightarrow> bool) \<Rightarrow> 'a tx \<Rightarrow> 'a tx" where
  "in_tx up m = tx_bind (exec up Begin (\<lambda>db. db)) (\<lambda>_. tx_bind m (\<lambda>v. tx_bind (exec up Commit (\<lambda>db. db)) (\<lambda>_. tx_return v)))"

section \<open>Reading a position\<close>

definition owned_position :: "gosync \<Rightarrow> string \<Rightarrow> string \<Rightarrow> string \<Rightarrow> int \<Rightarrow> (int \<times> int option) option" where
  "owned_position db userID deviceID connID position =
     (case mget (db_positions db) position of
        None \<Rightarrow> None
      | Some po \<Rightarrow>
          (case mget (db_connections db) (po_connection_key po) of
             None \<Rightarrow> None
           | Some cn \<Rightarrow>
               if cn_user_id cn = userID \<and> cn_effective_device_id cn = deviceID \<and> cn_conn_id cn = connID
               then Some (po_connection_key po, cn_last_used_ts cn) else None))"

definition StreamRooms :: string where "StreamRooms = ''rooms''"
definition StreamReceipts :: string where "StreamReceipts = ''receipts''"
definition StreamAccountData :: string where "StreamAccountData = ''account_data''"

definition required_rows :: "int \<Rightarrow> gosync \<Rightarrow> (int \<times> string) list" where
  "required_rows connectionKey db =
     map (\<lambda>(i, row). (i, rq_required_state row)) (filter (\<lambda>(i, row). rq_connection_key row = connectionKey) (db_required db))"

fun decode_rows :: "codec \<Rightarrow> (int \<times> string) list \<Rightarrow> (int, required_state) gomap \<Rightarrow> (int, required_state) gomap tx" where
  "decode_rows c [] out = tx_return out"
| "decode_rows c ((i, encoded) # rows) out =
     (case DecodeRequiredState c encoded of
        None \<Rightarrow> tx_fail (BadRequiredState i)
      | Some decoded \<Rightarrow> decode_rows c rows (mput i decoded out))"

definition config_rows :: "int \<Rightarrow> gosync \<Rightarrow> (string \<times> config_row) list" where
  "config_rows position db = map (\<lambda>((pos, room), row). (room, row)) (filter (\<lambda>((pos, room), row). pos = position) (db_configs db))"

definition load_configs :: "(int, required_state) gomap \<Rightarrow> (string \<times> config_row) list \<Rightarrow> (string, RoomSyncConfig) gomap" where
  "load_configs requiredState rows =
     fold (\<lambda>(room, row). mput room \<lparr>rc_TimelineLimit = cf_timeline_limit row, rc_RequiredState = mgetz [] requiredState (cf_required_state_id row)\<rparr>) rows []"

definition stream_rows :: "int \<Rightarrow> gosync \<Rightarrow> (string \<times> string \<times> stream_row) list" where
  "stream_rows position db =
     map (\<lambda>((pos, room, stream), row). (stream, room, row)) (filter (\<lambda>((pos, room, stream), row). pos = position) (db_streams db))"

definition sent_of_row :: "stream_row \<Rightarrow> HaveSent" where
  "sent_of_row row = \<lparr>hs_Status = sr_room_status row, hs_LastToken = (case sr_last_token row of None \<Rightarrow> [] | Some t \<Rightarrow> t)\<rparr>"

definition load_streams :: "string \<Rightarrow> (string \<times> string \<times> stream_row) list \<Rightarrow> (string, HaveSent) gomap" where
  "load_streams name rows = fold (\<lambda>(stream, room, row) out. if stream = name then mput room (sent_of_row row) out else out) rows []"

definition loadState :: "codec \<Rightarrow> (stmt \<Rightarrow> bool) \<Rightarrow> int \<Rightarrow> int \<Rightarrow> PerConnectionState tx" where
  "loadState c up connectionKey position =
     tx_bind (query up LoadRequiredState (required_rows connectionKey)) (\<lambda>required.
     tx_bind (decode_rows c required []) (\<lambda>requiredState.
     tx_bind (query up LoadRoomConfigs (config_rows position)) (\<lambda>configs.
     let used = set (map (cf_required_state_id \<circ> snd) configs);
         unused = filter (\<lambda>i. i \<notin> used) (mkeys requiredState)
     in tx_bind
          (if unused \<noteq> [] then
             exec up DropUnusedRequiredState (\<lambda>db. db\<lparr>db_required :=
               filter (\<lambda>(i, row). \<not> (rq_connection_key row = connectionKey \<and> i \<in> set unused)) (db_required db)\<rparr>)
           else tx_return ()) (\<lambda>_.
        tx_bind (query up LoadStreams (stream_rows position)) (\<lambda>streams.
        tx_return \<lparr>pc_LastUsedMS = None,
          pc_Rooms = NewRoomStatusMap (load_streams StreamRooms streams),
          pc_Receipts = NewRoomStatusMap (load_streams StreamReceipts streams),
          pc_AccountData = NewRoomStatusMap (load_streams StreamAccountData streams),
          pc_RoomConfigs = load_configs requiredState configs, pc_roomConfigUpdates = [], pc_LazyMembership = []\<rparr>)))))"

definition promote_lazy :: "int \<Rightarrow> int \<Rightarrow> gosync \<Rightarrow> gosync" where
  "promote_lazy connectionKey position db = db\<lparr>db_lazy :=
     map (\<lambda>((key, room, user), row).
       ((key, room, user), if key = connectionKey \<and> lz_connection_position row = Some position then row\<lparr>lz_connection_position := None\<rparr> else row)) (db_lazy db)\<rparr>"

definition touch_connection :: "int \<Rightarrow> int \<Rightarrow> gosync \<Rightarrow> gosync" where
  "touch_connection connectionKey now db = db\<lparr>db_connections :=
     map (\<lambda>(key, row). (key, if key = connectionKey then row\<lparr>cn_last_used_ts := Some now\<rparr> else row)) (db_connections db)\<rparr>"

definition GetAndClear ::
  "codec \<Rightarrow> (stmt \<Rightarrow> bool) \<Rightarrow> int \<Rightarrow> gosync \<Rightarrow> string \<Rightarrow> string \<Rightarrow> string \<Rightarrow> int \<Rightarrow> gosync \<times> (store_error + PerConnectionState)" where
  "GetAndClear c up now db userID deviceID connID position =
     (if position = 0 then (db, Inr empty_state)
      else transaction (in_tx up (
        tx_bind (query up LookUpPosition (\<lambda>db. owned_position db userID deviceID connID position)) (\<lambda>found.
        case found of
          None \<Rightarrow> tx_fail ErrUnknownPosition
        | Some (connectionKey, lastUsed) \<Rightarrow>
            tx_bind (if (case lastUsed of None \<Rightarrow> True | Some t \<Rightarrow> now - t > UpdateLastUsedIntervalMS)
                     then exec up BumpLastUsed (touch_connection connectionKey now) else tx_return ()) (\<lambda>_.
            tx_bind (exec up PrunePositions (drop_positions (\<lambda>(pos, row). po_connection_key row = connectionKey \<and> pos \<noteq> position))) (\<lambda>_.
            tx_bind (exec up PromoteLazyMembers (promote_lazy connectionKey position)) (\<lambda>_.
            tx_bind (loadState c up connectionKey position) (\<lambda>st. tx_return (st\<lparr>pc_LastUsedMS := lastUsed\<rparr>)))))))) db)"

section \<open>Writing a position\<close>

definition new_connection :: "string \<Rightarrow> string \<Rightarrow> string \<Rightarrow> int \<Rightarrow> gosync \<Rightarrow> gosync" where
  "new_connection userID deviceID connID now db = db\<lparr>
     db_connections := (db_next_key db, \<lparr>cn_user_id = userID, cn_effective_device_id = deviceID, cn_conn_id = connID,
       cn_created_ts = now, cn_last_used_ts = Some now\<rparr>) # db_connections db,
     db_next_key := db_next_key db + 1\<rparr>"

definition connectionKey :: "(stmt \<Rightarrow> bool) \<Rightarrow> string \<Rightarrow> string \<Rightarrow> string \<Rightarrow> int \<Rightarrow> int \<Rightarrow> int tx" where
  "connectionKey up userID deviceID connID previousPosition now =
     (if previousPosition \<noteq> 0 then
        tx_bind (query up LookUpPosition (\<lambda>db. owned_position db userID deviceID connID previousPosition)) (\<lambda>found.
        case found of None \<Rightarrow> tx_fail ErrUnknownPosition | Some (key, _) \<Rightarrow> tx_return key)
      else
        tx_bind (exec up ClearOldConnection (drop_connections (\<lambda>(_, row).
          cn_user_id row = userID \<and> cn_effective_device_id row = deviceID \<and> cn_conn_id row = connID))) (\<lambda>_.
        tx_bind (query up NewConnection db_next_key) (\<lambda>key.
        tx_bind (exec up NewConnection (new_connection userID deviceID connID now)) (\<lambda>_. tx_return key))))"

definition insert_position :: "int \<Rightarrow> int \<Rightarrow> gosync \<Rightarrow> gosync" where
  "insert_position key now db = db\<lparr>
     db_positions := (db_next_position db, \<lparr>po_connection_key = key, po_created_ts = now\<rparr>) # db_positions db,
     db_next_position := db_next_position db + 1\<rparr>"

definition insert_required :: "int \<Rightarrow> string \<Rightarrow> gosync \<Rightarrow> gosync" where
  "insert_required key encoded db = db\<lparr>
     db_required := (db_next_required db, \<lparr>rq_connection_key = key, rq_required_state = encoded\<rparr>) # db_required db,
     db_next_required := db_next_required db + 1\<rparr>"

text \<open>The rooms whose encoding has a row already, and for every other encoding the rooms that need it.\<close>

fun sort_rooms_by_encoding ::
  "codec \<Rightarrow> (string, int) gomap \<Rightarrow> (string \<times> RoomSyncConfig) list \<Rightarrow> (string, int) gomap \<Rightarrow> (string, string list) gomap \<Rightarrow>
   (string, int) gomap \<times> (string, string list) gomap" where
  "sort_rooms_by_encoding c existing [] roomToStateID newRooms = (roomToStateID, newRooms)"
| "sort_rooms_by_encoding c existing ((roomID, cfg) # cfgs) roomToStateID newRooms =
     (let encoded = EncodeRequiredState c (rc_RequiredState cfg)
      in case mget existing encoded of
           Some i \<Rightarrow> sort_rooms_by_encoding c existing cfgs (mput roomID i roomToStateID) newRooms
         | None \<Rightarrow> sort_rooms_by_encoding c existing cfgs roomToStateID (mput encoded (mgetz [] newRooms encoded @ [roomID]) newRooms))"

fun insert_encodings ::
  "(stmt \<Rightarrow> bool) \<Rightarrow> int \<Rightarrow> (string, string list) gomap \<Rightarrow> string list \<Rightarrow> (string, int) gomap \<Rightarrow> (string, int) gomap tx" where
  "insert_encodings up key newRooms [] roomToStateID = tx_return roomToStateID"
| "insert_encodings up key newRooms (encoded # encodings) roomToStateID =
     tx_bind (query up InsertRequiredState db_next_required) (\<lambda>i.
     tx_bind (exec up InsertRequiredState (insert_required key encoded)) (\<lambda>_.
     insert_encodings up key newRooms encodings (fold (\<lambda>roomID. mput roomID i) (mgetz [] newRooms encoded) roomToStateID)))"

definition resolveRequiredState :: "codec \<Rightarrow> (stmt \<Rightarrow> bool) \<Rightarrow> int \<Rightarrow> int \<Rightarrow> PerConnectionState \<Rightarrow> (string, int) gomap tx" where
  "resolveRequiredState c up key previousPosition st =
     tx_bind (if previousPosition \<noteq> 0 then query up LoadRequiredState (required_rows key) else tx_return []) (\<lambda>rows.
     let existing = fold (\<lambda>(i, encoded). mput encoded i) rows []
     in case sort_rooms_by_encoding c existing (pc_RoomConfigs st) [] [] of
          (roomToStateID, newRooms) \<Rightarrow> insert_encodings up key newRooms (sort (mkeys newRooms)) roomToStateID)"

definition copy_streams :: "int \<Rightarrow> int \<Rightarrow> gosync \<Rightarrow> gosync" where
  "copy_streams position previous db = db\<lparr>db_streams :=
     map (\<lambda>((pos, key), row). ((position, key), row)) (filter (\<lambda>((pos, key), row). pos = previous) (db_streams db)) @ db_streams db\<rparr>"

definition copy_configs :: "int \<Rightarrow> int \<Rightarrow> gosync \<Rightarrow> gosync" where
  "copy_configs position previous db = db\<lparr>db_configs :=
     map (\<lambda>((pos, key), row). ((position, key), row)) (filter (\<lambda>((pos, key), row). pos = previous) (db_configs db)) @ db_configs db\<rparr>"

definition copyForward :: "(stmt \<Rightarrow> bool) \<Rightarrow> int \<Rightarrow> int \<Rightarrow> unit tx" where
  "copyForward up position previous =
     tx_bind (exec up CopyStreamsForward (copy_streams position previous)) (\<lambda>_. exec up CopyRoomConfigsForward (copy_configs position previous))"

definition row_of_sent :: "HaveSent \<Rightarrow> stream_row" where
  "row_of_sent hs = \<lparr>sr_room_status = hs_Status hs, sr_last_token = (if hs_Status hs = FlagPreviously then Some (hs_LastToken hs) else None)\<rparr>"

definition rows_to_upsert :: "PerConnectionState \<Rightarrow> ((string \<times> string) \<times> HaveSent) list" where
  "rows_to_upsert st = sort_key fst (concat (map (\<lambda>(name, m). map (\<lambda>(room, hs). ((name, room), hs)) (RoomStatusMap_All m))
     [(StreamRooms, pc_Rooms st), (StreamReceipts, pc_Receipts st), (StreamAccountData, pc_AccountData st)]))"

definition upsertStreams :: "(stmt \<Rightarrow> bool) \<Rightarrow> int \<Rightarrow> PerConnectionState \<Rightarrow> unit tx" where
  "upsertStreams up position st =
     (let rows = rows_to_upsert st
      in if rows = [] then tx_return ()
         else exec up UpsertStreams (\<lambda>db. db\<lparr>db_streams :=
           fold (\<lambda>((stream, room), hs). mput (position, room, stream) (row_of_sent hs)) rows (db_streams db)\<rparr>))"

fun configs_to_upsert :: "(string, RoomSyncConfig) gomap \<Rightarrow> (string, int) gomap \<Rightarrow> string list \<Rightarrow> store_error + (string \<times> config_row) list" where
  "configs_to_upsert cfgs roomToStateID [] = Inr []"
| "configs_to_upsert cfgs roomToStateID (roomID # roomIDs) =
     (case mget roomToStateID roomID of
        None \<Rightarrow> Inl (Unresolved roomID)
      | Some i \<Rightarrow>
          (case configs_to_upsert cfgs roomToStateID roomIDs of
             Inl e \<Rightarrow> Inl e
           | Inr rows \<Rightarrow>
               Inr ((roomID, \<lparr>cf_timeline_limit = (case mget cfgs roomID of None \<Rightarrow> 0 | Some cfg \<Rightarrow> rc_TimelineLimit cfg), cf_required_state_id = i\<rparr>) # rows)))"

definition upsertRoomConfigs :: "(stmt \<Rightarrow> bool) \<Rightarrow> int \<Rightarrow> PerConnectionState \<Rightarrow> (string, int) gomap \<Rightarrow> unit tx" where
  "upsertRoomConfigs up position st roomToStateID =
     (if pc_RoomConfigs st = [] then tx_return ()
      else (case configs_to_upsert (pc_RoomConfigs st) roomToStateID (sort (mkeys (pc_RoomConfigs st))) of
              Inl e \<Rightarrow> tx_fail e
            | Inr rows \<Rightarrow> exec up UpsertRoomConfigs (\<lambda>db. db\<lparr>db_configs := fold (\<lambda>(room, row). mput (position, room) row) rows (db_configs db)\<rparr>)))"

text \<open>The upsert of a lazy member leaves a row written against another position alone.\<close>

definition upsert_lazy :: "int \<Rightarrow> int \<Rightarrow> int \<Rightarrow> string \<times> string \<Rightarrow> gosync \<Rightarrow> gosync" where
  "upsert_lazy key position now p db =
     (case mget (db_lazy db) (key, fst p, snd p) of
        None \<Rightarrow> db\<lparr>db_lazy := ((key, fst p, snd p), \<lparr>lz_connection_position = Some position, lz_last_seen_ts = now\<rparr>) # db_lazy db\<rparr>
      | Some row \<Rightarrow>
          if lz_connection_position row = None \<or> lz_connection_position row = Some position
          then db\<lparr>db_lazy := mput (key, fst p, snd p) (row\<lparr>lz_last_seen_ts := now\<rparr>) (db_lazy db)\<rparr>
          else db)"

definition lazy_pairs :: "(LazyMembers \<Rightarrow> string list) \<Rightarrow> (string, LazyMembers) gomap \<Rightarrow> (string \<times> string) list" where
  "lazy_pairs users lazy = concat (map (\<lambda>roomID. case mget lazy roomID of None \<Rightarrow> [] | Some l \<Rightarrow> map (Pair roomID) (users l)) (sort (mkeys lazy)))"

definition persistLazyMembers :: "(stmt \<Rightarrow> bool) \<Rightarrow> int \<Rightarrow> int \<Rightarrow> PerConnectionState \<Rightarrow> int \<Rightarrow> unit tx" where
  "persistLazyMembers up key position st now =
     (let toUpsert = lazy_pairs (\<lambda>l. ReturnedToUpdate l now) (pc_LazyMembership st);
          toRemove = lazy_pairs (\<lambda>l. sortedKeys (lm_Invalidated l)) (pc_LazyMembership st)
      in tx_bind (if toUpsert \<noteq> [] then exec up UpsertLazyMembers (fold (upsert_lazy key position now) toUpsert) else tx_return ()) (\<lambda>_.
         if toRemove \<noteq> [] then exec up RemoveLazyMembers (\<lambda>db. db\<lparr>db_lazy := fold (\<lambda>(room, user). mdel (key, room, user)) toRemove (db_lazy db)\<rparr>)
         else tx_return ()))"

definition Persist ::
  "codec \<Rightarrow> (stmt \<Rightarrow> bool) \<Rightarrow> int \<Rightarrow> gosync \<Rightarrow> string \<Rightarrow> string \<Rightarrow> string \<Rightarrow> int \<Rightarrow> PerConnectionState \<Rightarrow> gosync \<times> (store_error + int)" where
  "Persist c up now db userID deviceID connID previousPosition st =
     (if \<not> HasUpdates st now then (db, Inr previousPosition)
      else transaction (in_tx up (
        tx_bind (connectionKey up userID deviceID connID previousPosition now) (\<lambda>key.
        tx_bind (query up NewPosition db_next_position) (\<lambda>position.
        tx_bind (exec up NewPosition (insert_position key now)) (\<lambda>_.
        tx_bind (resolveRequiredState c up key previousPosition st) (\<lambda>roomToStateID.
        tx_bind (if previousPosition \<noteq> 0 then copyForward up position previousPosition else tx_return ()) (\<lambda>_.
        tx_bind (upsertStreams up position st) (\<lambda>_.
        tx_bind (upsertRoomConfigs up position st roomToStateID) (\<lambda>_.
        tx_bind (persistLazyMembers up key position st now) (\<lambda>_. tx_return position)))))))))) db)"

section \<open>The other operations\<close>

definition LazyMembersSent :: "(stmt \<Rightarrow> bool) \<Rightarrow> gosync \<Rightarrow> int \<Rightarrow> string \<Rightarrow> string list \<Rightarrow> store_error + (string, int) gomap" where
  "LazyMembersSent up db key roomID userIDs =
     (if userIDs = [] then Inr []
      else if \<not> up LoadLazyMembers then Inl (DbError LoadLazyMembers)
      else Inr (fold (\<lambda>((_, _, user), row). mput user (lz_last_seen_ts row))
             (filter (\<lambda>((k, room, user), row). k = key \<and> room = roomID \<and> user \<in> set userIDs) (db_lazy db)) []))"

definition DeleteOldConnections :: "(stmt \<Rightarrow> bool) \<Rightarrow> int \<Rightarrow> gosync \<Rightarrow> gosync \<times> (store_error + int)" where
  "DeleteOldConnections up now db =
     (let old = (\<lambda>(_, row). case cn_last_used_ts row of None \<Rightarrow> False | Some t \<Rightarrow> t < now - ConnectionExpiryMS)
      in if \<not> up ReapConnections then (db, Inl (DbError ReapConnections))
         else (drop_connections old db, Inr (int (length (filter old (db_connections db))))))"

record Counts =
  ct_Connections :: int
  ct_Positions :: int
  ct_Rows :: "(string, int) gomap"

definition Count :: "(stmt \<Rightarrow> bool) \<Rightarrow> gosync \<Rightarrow> store_error + Counts" where
  "Count up db =
     (let n = (\<lambda>k. int k)
      in if \<not> up CountRows then Inl (DbError CountRows)
         else Inr \<lparr>ct_Connections = n (length (db_connections db)), ct_Positions = n (length (db_positions db)),
           ct_Rows = [(''connections'', n (length (db_connections db))), (''positions'', n (length (db_positions db))),
             (''required_state'', n (length (db_required db))), (''room_configs'', n (length (db_configs db))),
             (''streams'', n (length (db_streams db))), (''lazy_members'', n (length (db_lazy db)))]\<rparr>)"

section \<open>The constraints of the schema\<close>

text \<open>The primary keys and unique indexes, the ranges of the identity columns, the foreign keys (with the fact
  that a row and what it refers to belong to one connection), and one connection per user, device and
  connection id.\<close>

definition keys_unique :: "gosync \<Rightarrow> bool" where
  "keys_unique db \<longleftrightarrow> mwf (db_connections db) \<and> mwf (db_positions db) \<and> mwf (db_required db) \<and> mwf (db_configs db) \<and> mwf (db_streams db) \<and> mwf (db_lazy db)"

definition ids_fresh :: "gosync \<Rightarrow> bool" where
  "ids_fresh db \<longleftrightarrow> 0 < db_next_key db \<and> 0 < db_next_position db \<and> 0 < db_next_required db \<and>
     (\<forall>k \<in> fst ` set (db_connections db). 0 < k \<and> k < db_next_key db) \<and>
     (\<forall>p \<in> fst ` set (db_positions db). 0 < p \<and> p < db_next_position db) \<and>
     (\<forall>i \<in> fst ` set (db_required db). 0 < i \<and> i < db_next_required db)"

definition owner :: "gosync \<Rightarrow> int \<Rightarrow> int option" where
  "owner db position = map_option po_connection_key (mget (db_positions db) position)"

definition refs_ok :: "gosync \<Rightarrow> bool" where
  "refs_ok db \<longleftrightarrow>
     (\<forall>(p, row) \<in> set (db_positions db). po_connection_key row \<in> fst ` set (db_connections db)) \<and>
     (\<forall>(i, row) \<in> set (db_required db). rq_connection_key row \<in> fst ` set (db_connections db)) \<and>
     (\<forall>((p, room), row) \<in> set (db_configs db). \<exists>k. owner db p = Some k \<and>
        map_option rq_connection_key (mget (db_required db) (cf_required_state_id row)) = Some k) \<and>
     (\<forall>((p, room, stream), row) \<in> set (db_streams db). p \<in> fst ` set (db_positions db)) \<and>
     (\<forall>((k, room, user), row) \<in> set (db_lazy db). k \<in> fst ` set (db_connections db) \<and>
        (\<forall>p. lz_connection_position row = Some p \<longrightarrow> owner db p = Some k))"

definition same_triple :: "connection_row \<Rightarrow> connection_row \<Rightarrow> bool" where
  "same_triple a b \<longleftrightarrow> cn_user_id a = cn_user_id b \<and> cn_effective_device_id a = cn_effective_device_id b \<and> cn_conn_id a = cn_conn_id b"

definition one_each :: "gosync \<Rightarrow> bool" where
  "one_each db \<longleftrightarrow> (\<forall>(k, a) \<in> set (db_connections db). \<forall>(k', b) \<in> set (db_connections db). same_triple a b \<longrightarrow> k = k')"

definition db_ok :: "gosync \<Rightarrow> bool" where
  "db_ok db \<longleftrightarrow> keys_unique db \<and> ids_fresh db \<and> refs_ok db \<and> one_each db"

subsection \<open>Tables\<close>

lemma in_mput: "mwf m \<Longrightarrow> (x \<in> set (mput k v m)) = (x = (k, v) \<or> (x \<in> set m \<and> fst x \<noteq> k))"
  by (induction m) (auto simp: image_iff)

lemma in_mdel: "mwf m \<Longrightarrow> (x \<in> set (mdel k m)) = (x \<in> set m \<and> fst x \<noteq> k)"
  by (cases x) (auto simp: AList.delete_eq)

lemma mget_filter:
  assumes "mwf m"
  shows "mget (filter P m) k = (case mget m k of Some v \<Rightarrow> if P (k, v) then Some v else None | None \<Rightarrow> None)"
  using assms by (induction m) (auto split: option.splits simp: map_of_eq_None_iff image_iff)

lemma mget_map_values: "mget (map (\<lambda>(k, v). (k, f k v)) m) k = map_option (f k) (mget m k)"
  by (induction m) auto

lemma keys_map_values [simp]: "map fst (map (\<lambda>(k, v). (k, f k v)) m) = map fst m"
  by (induction m) auto

lemma owner_in: "owner db p = Some k \<longleftrightarrow> (\<exists>row. mget (db_positions db) p = Some row \<and> po_connection_key row = k)"
  by (auto simp: owner_def)

subsection \<open>Statements\<close>

text \<open>Rows go, with what refers to them.\<close>

lemma drop_positions_frame [simp]:
  "db_connections (drop_positions P db) = db_connections db" "db_required (drop_positions P db) = db_required db"
  "db_next_key (drop_positions P db) = db_next_key db" "db_next_position (drop_positions P db) = db_next_position db"
  "db_next_required (drop_positions P db) = db_next_required db"
  by (simp_all add: drop_positions_def Let_def)

lemma drop_positions_owner:
  assumes "mwf (db_positions db)"
  shows "owner (drop_positions P db) p = (case mget (db_positions db) p of Some row \<Rightarrow> if P (p, row) then None else Some (po_connection_key row) | None \<Rightarrow> None)"
  using assms by (auto simp: owner_def drop_positions_def Let_def mget_filter split: option.splits)

lemma drop_positions_gone:
  assumes "mwf (db_positions db)"
  shows "p \<in> fst ` set (filter P (db_positions db)) \<longleftrightarrow> (\<exists>row. mget (db_positions db) p = Some row \<and> P (p, row))"
  using assms by (force simp: image_iff mget_in_set)

lemma drop_positions_ok:
  assumes "db_ok db"
  shows "db_ok (drop_positions P db)"
proof -
  have wf: "keys_unique db" and ids: "ids_fresh db" and refs: "refs_ok db" and one: "one_each db" using assms by (simp_all add: db_ok_def)
  let ?gone = "fst ` set (filter P (db_positions db))"
  have mp: "mwf (db_positions db)" using wf by (simp add: keys_unique_def)
  have "keys_unique (drop_positions P db)" using wf by (simp add: keys_unique_def drop_positions_def Let_def mwf_filter)
  moreover have "ids_fresh (drop_positions P db)" using ids by (auto simp: ids_fresh_def drop_positions_def Let_def)
  moreover have "one_each (drop_positions P db)" using one by (simp add: one_each_def drop_positions_def Let_def)
  moreover have "refs_ok (drop_positions P db)"
  proof -
    have keep: "owner (drop_positions P db) p = owner db p" if "p \<notin> ?gone" for p
      using that [unfolded drop_positions_gone [OF mp]] unfolding drop_positions_owner [OF mp] unfolding owner_def
      by (auto split: option.split)
    have pos: "p \<in> fst ` set (db_positions (drop_positions P db)) \<longleftrightarrow> p \<in> fst ` set (db_positions db)" if "p \<notin> ?gone" for p
      using that by (force simp: drop_positions_def Let_def image_iff)
    show ?thesis unfolding refs_ok_def
    proof (intro conjI)
      show "\<forall>(p, row) \<in> set (db_positions (drop_positions P db)). po_connection_key row \<in> fst ` set (db_connections (drop_positions P db))"
        using refs by (auto simp: refs_ok_def drop_positions_def Let_def)
      show "\<forall>(i, row) \<in> set (db_required (drop_positions P db)). rq_connection_key row \<in> fst ` set (db_connections (drop_positions P db))"
        using refs by (auto simp: refs_ok_def drop_positions_def Let_def)
      show "\<forall>((p, room), row) \<in> set (db_configs (drop_positions P db)). \<exists>k. owner (drop_positions P db) p = Some k \<and>
          map_option rq_connection_key (mget (db_required (drop_positions P db)) (cf_required_state_id row)) = Some k"
        using refs keep by (fastforce simp: refs_ok_def drop_positions_def Let_def)
      show "\<forall>((p, room, stream), row) \<in> set (db_streams (drop_positions P db)). p \<in> fst ` set (db_positions (drop_positions P db))"
        using refs pos by (fastforce simp: refs_ok_def drop_positions_def Let_def)
      show "\<forall>((k, room, user), row) \<in> set (db_lazy (drop_positions P db)). k \<in> fst ` set (db_connections (drop_positions P db)) \<and>
          (\<forall>p. lz_connection_position row = Some p \<longrightarrow> owner (drop_positions P db) p = Some k)"
        using refs keep by (fastforce simp: refs_ok_def drop_positions_def Let_def)
    qed
  qed
  ultimately show ?thesis by (simp add: db_ok_def)
qed

text \<open>Removing rows that nothing refers to, and whole connections.\<close>

lemma drop_connections_ok:
  assumes "db_ok db"
  shows "db_ok (drop_connections P db)"
proof -
  let ?gone = "fst ` set (filter P (db_connections db))"
  let ?db1 = "drop_positions (\<lambda>(_, row). po_connection_key row \<in> ?gone) db"
  have ok1: "db_ok ?db1" by (rule drop_positions_ok [OF assms])
  have eq: "drop_connections P db = ?db1\<lparr>db_connections := filter (\<lambda>row. \<not> P row) (db_connections db),
      db_required := filter (\<lambda>(_, row). rq_connection_key row \<notin> ?gone) (db_required db),
      db_lazy := filter (\<lambda>((key, room, user), _). key \<notin> ?gone) (db_lazy ?db1)\<rparr>" (is "_ = ?db2")
    by (rule gosync.equality) (auto simp: drop_connections_def drop_positions_def Let_def intro!: filter_cong split: option.splits)
  have mc: "mwf (db_connections db)" and mr: "mwf (db_required db)" and mp: "mwf (db_positions db)"
    using assms by (simp_all add: db_ok_def keys_unique_def)
  have own: "owner ?db2 p = owner ?db1 p" for p by (simp add: owner_def)
  have left: "k \<notin> ?gone" if "owner ?db1 p = Some k" for p k
    using that unfolding drop_positions_owner [OF mp] by (auto split: option.splits if_splits)
  have kept: "k \<in> fst ` set (filter (\<lambda>row. \<not> P row) (db_connections db))" if "k \<in> fst ` set (db_connections db)" "k \<notin> ?gone" for k
    using that by force
  have "keys_unique ?db2" using ok1 mc mr by (simp add: db_ok_def keys_unique_def mwf_filter)
  moreover have "ids_fresh ?db2" using ok1 by (auto simp: db_ok_def ids_fresh_def)
  moreover have "one_each ?db2" using ok1 by (auto simp: db_ok_def one_each_def)
  moreover have "refs_ok ?db2" unfolding refs_ok_def
  proof (intro conjI)
    have refs: "refs_ok ?db1" using ok1 by (simp add: db_ok_def)
    have rp: "\<forall>(p, row) \<in> set (db_positions ?db1). po_connection_key row \<in> fst ` set (db_connections db)"
      and rr: "\<forall>(i, row) \<in> set (db_required db). rq_connection_key row \<in> fst ` set (db_connections db)"
      using refs unfolding refs_ok_def drop_positions_frame by blast+
    have posk: "po_connection_key row \<notin> ?gone" if "(p, row) \<in> set (db_positions ?db1)" for p row
      using that by (auto simp: drop_positions_def Let_def)
    show "\<forall>(p, row) \<in> set (db_positions ?db2). po_connection_key row \<in> fst ` set (db_connections ?db2)"
      using rp posk kept by simp blast
    show "\<forall>(i, row) \<in> set (db_required ?db2). rq_connection_key row \<in> fst ` set (db_connections ?db2)"
      using rr kept by simp blast
    show "\<forall>((p, room), row) \<in> set (db_configs ?db2). \<exists>k. owner ?db2 p = Some k \<and>
        map_option rq_connection_key (mget (db_required ?db2) (cf_required_state_id row)) = Some k"
    proof (clarify, goal_cases)
      case (1 p room row)
      then have "((p, room), row) \<in> set (db_configs ?db1)" by simp
      with refs have "\<exists>k. owner ?db1 p = Some k \<and> map_option rq_connection_key (mget (db_required db) (cf_required_state_id row)) = Some k"
        by (fastforce simp: refs_ok_def)
      then obtain k rq where k: "owner ?db1 p = Some k" "mget (db_required db) (cf_required_state_id row) = Some rq" "rq_connection_key rq = k" by auto
      then have "mget (db_required ?db2) (cf_required_state_id row) = Some rq" using left [OF k(1)] by (simp add: mget_filter [OF mr] image_iff)
      with k show ?case by (simp add: owner_def)
    qed
    show "\<forall>((p, room, stream), row) \<in> set (db_streams ?db2). p \<in> fst ` set (db_positions ?db2)"
      using refs by (simp add: refs_ok_def)
    show "\<forall>((k, room, user), row) \<in> set (db_lazy ?db2). k \<in> fst ` set (db_connections ?db2) \<and>
        (\<forall>p. lz_connection_position row = Some p \<longrightarrow> owner ?db2 p = Some k)"
    proof (clarify, goal_cases)
      case (1 k room user row)
      then have "((k, room, user), row) \<in> set (db_lazy ?db1)" and k: "k \<notin> ?gone" by simp_all
      with refs have "k \<in> fst ` set (db_connections db)" "\<forall>p. lz_connection_position row = Some p \<longrightarrow> owner ?db1 p = Some k"
        unfolding refs_ok_def drop_positions_frame by blast+
      with kept [OF _ k] show ?case by (simp add: owner_def)
    qed
  qed
  ultimately show ?thesis unfolding eq by (simp add: db_ok_def)
qed

lemma fold_upd_keys:
  assumes "\<And>x m. mwf m \<Longrightarrow> mwf (f x m)"
  shows "mwf m \<Longrightarrow> mwf (fold f xs m)"
  using assms by (induction xs arbitrary: m) auto

lemma new_connection_ok:
  assumes "db_ok db"
    and "\<forall>(k, row) \<in> set (db_connections db). \<not> (cn_user_id row = u \<and> cn_effective_device_id row = d \<and> cn_conn_id row = c)"
  shows "db_ok (new_connection u d c now db)"
proof -
  let ?db = "new_connection u d c now db"
  have own: "owner ?db p = owner db p" for p by (simp add: owner_def new_connection_def)
  have "db_next_key db \<notin> fst ` set (db_connections db)" using assms(1) by (force simp: db_ok_def ids_fresh_def)
  then have "keys_unique ?db" using assms(1) by (simp add: db_ok_def keys_unique_def new_connection_def)
  moreover have "ids_fresh ?db" using assms(1) by (fastforce simp: db_ok_def ids_fresh_def new_connection_def)
  moreover have "one_each ?db" using assms by (fastforce simp: db_ok_def one_each_def same_triple_def new_connection_def)
  moreover have "refs_ok ?db" using assms(1) unfolding refs_ok_def db_ok_def own by (fastforce simp: new_connection_def)
  ultimately show ?thesis by (simp add: db_ok_def)
qed

lemma insert_position_ok:
  assumes "db_ok db" and "key \<in> fst ` set (db_connections db)"
  shows "db_ok (insert_position key now db) \<and> owner (insert_position key now db) (db_next_position db) = Some key"
proof -
  let ?db = "insert_position key now db"
  have fresh: "db_next_position db \<notin> fst ` set (db_positions db)" using assms(1) by (force simp: db_ok_def ids_fresh_def)
  have own: "owner ?db p = Some k" if "owner db p = Some k" for p k
    using that fresh by (auto simp: owner_def insert_position_def dest: map_of_SomeD) (force dest: map_of_SomeD)
  have "keys_unique ?db" using assms(1) fresh by (simp add: db_ok_def keys_unique_def insert_position_def)
  moreover have "ids_fresh ?db" using assms(1) by (fastforce simp: db_ok_def ids_fresh_def insert_position_def)
  moreover have "one_each ?db" using assms by (simp add: db_ok_def one_each_def insert_position_def)
  moreover have "refs_ok ?db" unfolding refs_ok_def
  proof (intro conjI)
    have refs: "refs_ok db" using assms(1) by (simp add: db_ok_def)
    show "\<forall>(p, row) \<in> set (db_positions ?db). po_connection_key row \<in> fst ` set (db_connections ?db)"
      using refs assms(2) by (auto simp: refs_ok_def insert_position_def)
    show "\<forall>(i, row) \<in> set (db_required ?db). rq_connection_key row \<in> fst ` set (db_connections ?db)"
      using refs by (auto simp: refs_ok_def insert_position_def)
    show "\<forall>((p, room), row) \<in> set (db_configs ?db). \<exists>k. owner ?db p = Some k \<and>
        map_option rq_connection_key (mget (db_required ?db) (cf_required_state_id row)) = Some k"
      using refs own by (fastforce simp: refs_ok_def insert_position_def)
    show "\<forall>((p, room, stream), row) \<in> set (db_streams ?db). p \<in> fst ` set (db_positions ?db)"
      using refs by (fastforce simp: refs_ok_def insert_position_def)
    show "\<forall>((k, room, user), row) \<in> set (db_lazy ?db). k \<in> fst ` set (db_connections ?db) \<and>
        (\<forall>p. lz_connection_position row = Some p \<longrightarrow> owner ?db p = Some k)"
      using refs own by (fastforce simp: refs_ok_def insert_position_def)
  qed
  ultimately show ?thesis by (simp add: db_ok_def owner_def insert_position_def)
qed

text \<open>A statement that writes one table alone has to keep the conjuncts about that table.\<close>

lemma insert_required_ok:
  assumes "db_ok db" and "key \<in> fst ` set (db_connections db)"
  shows "db_ok (insert_required key encoded db)"
proof -
  let ?db = "insert_required key encoded db"
  have fresh: "db_next_required db \<notin> fst ` set (db_required db)" using assms(1) by (force simp: db_ok_def ids_fresh_def)
  have own: "owner ?db p = owner db p" for p by (simp add: owner_def insert_required_def)
  have req: "mget (db_required ?db) i = mget (db_required db) i" if "mget (db_required db) i = Some v" for i v
    using that fresh by (force simp: insert_required_def dest: map_of_SomeD)
  have "keys_unique ?db" using assms(1) fresh by (simp add: db_ok_def keys_unique_def insert_required_def)
  moreover have "ids_fresh ?db" using assms(1) by (fastforce simp: db_ok_def ids_fresh_def insert_required_def)
  moreover have "one_each ?db" using assms by (simp add: db_ok_def one_each_def insert_required_def)
  moreover have "refs_ok ?db" unfolding refs_ok_def own
  proof (intro conjI)
    have refs: "refs_ok db" using assms(1) by (simp add: db_ok_def)
    show "\<forall>(p, row) \<in> set (db_positions ?db). po_connection_key row \<in> fst ` set (db_connections ?db)"
      using refs by (simp add: refs_ok_def insert_required_def)
    show "\<forall>(i, row) \<in> set (db_required ?db). rq_connection_key row \<in> fst ` set (db_connections ?db)"
      using refs assms(2) by (simp add: refs_ok_def insert_required_def)
    show "\<forall>((p, room), row) \<in> set (db_configs ?db). \<exists>k. owner db p = Some k \<and>
        map_option rq_connection_key (mget (db_required ?db) (cf_required_state_id row)) = Some k"
    proof (clarify, goal_cases)
      case (1 p room row)
      then have "((p, room), row) \<in> set (db_configs db)" by (simp add: insert_required_def)
      with refs have "\<exists>k. owner db p = Some k \<and> map_option rq_connection_key (mget (db_required db) (cf_required_state_id row)) = Some k"
        unfolding refs_ok_def by blast
      with req show ?case by fastforce
    qed
    show "\<forall>((p, room, stream), row) \<in> set (db_streams ?db). p \<in> fst ` set (db_positions ?db)"
      using refs by (simp add: refs_ok_def insert_required_def)
    show "\<forall>((k, room, user), row) \<in> set (db_lazy ?db). k \<in> fst ` set (db_connections ?db) \<and>
        (\<forall>p. lz_connection_position row = Some p \<longrightarrow> owner db p = Some k)"
      using refs by (simp add: refs_ok_def insert_required_def)
  qed
  ultimately show ?thesis by (simp add: db_ok_def)
qed

lemmas one_each_iff = one_each_def [unfolded Ball_def split_paired_All case_prod_conv]

lemmas refs_ok_iff = refs_ok_def [unfolded Ball_def split_paired_All case_prod_conv]

lemma owner_frame [simp]:
  "owner (db\<lparr>db_streams := streams\<rparr>) p = owner db p" "owner (db\<lparr>db_configs := configs\<rparr>) p = owner db p"
  "owner (db\<lparr>db_lazy := lazy\<rparr>) p = owner db p" "owner (db\<lparr>db_required := required\<rparr>) p = owner db p"
  "owner (db\<lparr>db_connections := connections\<rparr>) p = owner db p"
  by (simp_all add: owner_def)

lemma set_streams_ok:
  assumes "db_ok db" and "mwf streams" and "\<forall>((p, room, stream), row) \<in> set streams. p \<in> fst ` set (db_positions db)"
  shows "db_ok (db\<lparr>db_streams := streams\<rparr>)"
proof -
  have "refs_ok (db\<lparr>db_streams := streams\<rparr>)"
    using assms(1) [unfolded db_ok_def refs_ok_iff] assms(3) [unfolded Ball_def split_paired_All case_prod_conv] unfolding refs_ok_iff by simp
  with assms(1,2) show ?thesis by (simp add: db_ok_def keys_unique_def ids_fresh_def one_each_def)
qed

lemma set_configs_ok:
  assumes "db_ok db" and "mwf configs"
    and "\<forall>((p, room), row) \<in> set configs. \<exists>k. owner db p = Some k \<and> map_option rq_connection_key (mget (db_required db) (cf_required_state_id row)) = Some k"
  shows "db_ok (db\<lparr>db_configs := configs\<rparr>)"
proof -
  have "refs_ok (db\<lparr>db_configs := configs\<rparr>)"
    using assms(1) [unfolded db_ok_def refs_ok_iff] assms(3) [unfolded Ball_def split_paired_All case_prod_conv] unfolding refs_ok_iff by simp
  with assms(1,2) show ?thesis by (simp add: db_ok_def keys_unique_def ids_fresh_def one_each_def)
qed

lemma set_lazy_ok:
  assumes "db_ok db" and "mwf lazy"
    and "\<forall>((k, room, user), row) \<in> set lazy. k \<in> fst ` set (db_connections db) \<and> (\<forall>p. lz_connection_position row = Some p \<longrightarrow> owner db p = Some k)"
  shows "db_ok (db\<lparr>db_lazy := lazy\<rparr>)"
proof -
  have "refs_ok (db\<lparr>db_lazy := lazy\<rparr>)"
    using assms(1) [unfolded db_ok_def refs_ok_iff] assms(3) [unfolded Ball_def split_paired_All case_prod_conv] unfolding refs_ok_iff by simp
  with assms(1,2) show ?thesis by (simp add: db_ok_def keys_unique_def ids_fresh_def one_each_def)
qed

lemma db_okD:
  assumes "db_ok db"
  shows "mwf (db_connections db)" "mwf (db_positions db)" "mwf (db_required db)" "mwf (db_configs db)" "mwf (db_streams db)" "mwf (db_lazy db)"
    and "\<And>p room row. ((p, room), row) \<in> set (db_configs db) \<Longrightarrow>
          \<exists>k. owner db p = Some k \<and> map_option rq_connection_key (mget (db_required db) (cf_required_state_id row)) = Some k"
    and "\<And>p room stream row. ((p, room, stream), row) \<in> set (db_streams db) \<Longrightarrow> p \<in> fst ` set (db_positions db)"
    and "\<And>k room user row. ((k, room, user), row) \<in> set (db_lazy db) \<Longrightarrow>
          k \<in> fst ` set (db_connections db) \<and> (\<forall>p. lz_connection_position row = Some p \<longrightarrow> owner db p = Some k)"
    and "\<And>p k. owner db p = Some k \<Longrightarrow> p \<in> fst ` set (db_positions db) \<and> k \<in> fst ` set (db_connections db)"
    and "\<And>p k. owner db p = Some k \<Longrightarrow> 0 < p \<and> p < db_next_position db"
proof -
  show u: "mwf (db_connections db)" "mwf (db_positions db)" "mwf (db_required db)" "mwf (db_configs db)" "mwf (db_streams db)" "mwf (db_lazy db)"
    using assms by (simp_all add: db_ok_def keys_unique_def)
  have r: "refs_ok db" using assms by (simp add: db_ok_def)
  show "\<exists>k. owner db p = Some k \<and> map_option rq_connection_key (mget (db_required db) (cf_required_state_id row)) = Some k"
    if "((p, room), row) \<in> set (db_configs db)" for p room row using r that unfolding refs_ok_def by blast
  show "p \<in> fst ` set (db_positions db)" if "((p, room, stream), row) \<in> set (db_streams db)" for p room stream row
    using r that unfolding refs_ok_def by blast
  show "k \<in> fst ` set (db_connections db) \<and> (\<forall>p. lz_connection_position row = Some p \<longrightarrow> owner db p = Some k)"
    if "((k, room, user), row) \<in> set (db_lazy db)" for k room user row using r that unfolding refs_ok_def by blast
  show o: "p \<in> fst ` set (db_positions db) \<and> k \<in> fst ` set (db_connections db)" if own: "owner db p = Some k" for p k
  proof -
    from own obtain row where "mget (db_positions db) p = Some row" "po_connection_key row = k" by (auto simp: owner_in)
    then have "(p, row) \<in> set (db_positions db)" by (simp add: map_of_SomeD)
    moreover from this r have "po_connection_key row \<in> fst ` set (db_connections db)" unfolding refs_ok_def by blast
    ultimately show ?thesis using \<open>po_connection_key row = k\<close> by force
  qed
  show "0 < p \<and> p < db_next_position db" if "owner db p = Some k" for p k
    using o [OF that] assms unfolding db_ok_def ids_fresh_def by blast
qed

lemma copy_wf:
  assumes "mwf m" and "position \<notin> fst ` fst ` set m"
  shows "mwf (map (\<lambda>((pos, key), row). ((position, key), row)) (filter (\<lambda>((pos, key), row). pos = previous) m) @ m)"
proof -
  have "distinct (map (\<lambda>((pos, key), row). (position, key)) (filter (\<lambda>((pos, key), row). pos = previous) m))"
    using assms(1) by (induction m) (auto simp: image_iff)
  with assms show ?thesis by (force simp: comp_def case_prod_unfold)
qed

lemma in_copy:
  "(((p, key), row) \<in> set (map (\<lambda>((pos, key), row). ((position, key), row)) (filter (\<lambda>((pos, key), row). pos = previous) m) @ m)) \<longleftrightarrow>
     (p = position \<and> ((previous, key), row) \<in> set m) \<or> ((p, key), row) \<in> set m"
  by (force simp: image_iff)

lemma copy_streams_ok:
  assumes "db_ok db" and "owner db position = Some key" and "position \<notin> fst ` fst ` set (db_streams db)"
  shows "db_ok (copy_streams position previous db)"
  unfolding copy_streams_def
proof (rule set_streams_ok [OF assms(1) copy_wf [OF db_okD(5) [OF assms(1)] assms(3)]])
  show "\<forall>((p, room, stream), row) \<in> set (map (\<lambda>((pos, key), row). ((position, key), row)) (filter (\<lambda>((pos, key), row). pos = previous) (db_streams db)) @ db_streams db).
      p \<in> fst ` set (db_positions db)"
    using db_okD(8,10) [OF assms(1)] assms(2) by (auto simp: image_iff)
qed

lemma copy_configs_ok:
  assumes "db_ok db" and "owner db position = owner db previous" and "position \<notin> fst ` fst ` set (db_configs db)"
  shows "db_ok (copy_configs position previous db)"
  unfolding copy_configs_def
proof (rule set_configs_ok [OF assms(1) copy_wf [OF db_okD(4) [OF assms(1)] assms(3)]])
  have "\<exists>k. owner db p = Some k \<and> map_option rq_connection_key (mget (db_required db) (cf_required_state_id row)) = Some k"
    if "((p, room), row) \<in> set (map (\<lambda>((pos, key), row). ((position, key), row)) (filter (\<lambda>((pos, key), row). pos = previous) (db_configs db)) @ db_configs db)"
    for p room row
    using that unfolding in_copy using db_okD(7) [OF assms(1)] assms(2) by metis
  then show "\<forall>((p, room), row) \<in> set (map (\<lambda>((pos, key), row). ((position, key), row)) (filter (\<lambda>((pos, key), row). pos = previous) (db_configs db)) @ db_configs db).
      \<exists>k. owner db p = Some k \<and> map_option rq_connection_key (mget (db_required db) (cf_required_state_id row)) = Some k" by blast
qed

text \<open>Upserts, one row after the other.\<close>

lemma fold_mput_rows:
  assumes "mwf m"
  shows "mwf (fold (\<lambda>x. mput (f x) (g x)) xs m) \<and>
    (\<forall>row \<in> set (fold (\<lambda>x. mput (f x) (g x)) xs m). row \<in> set m \<or> (\<exists>x \<in> set xs. row = (f x, g x)))"
  using assms
proof (induction xs arbitrary: m)
  case (Cons y ys)
  note IH = Cons.IH [OF mwf_mput [OF Cons.prems], of "f y" "g y"]
  show ?case
  proof (intro conjI ballI)
    show "mwf (fold (\<lambda>x. mput (f x) (g x)) (y # ys) m)" using IH by simp
    fix row
    assume "row \<in> set (fold (\<lambda>x. mput (f x) (g x)) (y # ys) m)"
    with IH consider "row \<in> set (mput (f y) (g y) m)" | x where "x \<in> set ys" "row = (f x, g x)" by auto
    then show "row \<in> set m \<or> (\<exists>x \<in> set (y # ys). row = (f x, g x))" by cases (use in_mput [OF Cons.prems] in auto)
  qed
qed simp

lemma upsert_streams_ok:
  assumes "db_ok db" and "owner db position = Some key"
  shows "db_ok (db\<lparr>db_streams := fold (\<lambda>((stream, room), hs). mput (position, room, stream) (row_of_sent hs)) rows (db_streams db)\<rparr>)"
proof -
  have eq: "(\<lambda>((stream, room), hs). mput (position, room, stream) (row_of_sent hs)) =
      (\<lambda>x. mput (position, snd (fst x), fst (fst x)) (row_of_sent (snd x)))" by (auto simp: fun_eq_iff)
  have p: "position \<in> fst ` set (db_positions db)" using db_okD(10) [OF assms] ..
  show ?thesis unfolding eq
  proof (rule set_streams_ok [OF assms(1)])
    note f = fold_mput_rows [OF db_okD(5) [OF assms(1)], of "\<lambda>x. (position, snd (fst x), fst (fst x))" "\<lambda>x. row_of_sent (snd x)" rows]
    show "mwf (fold (\<lambda>x. mput (position, snd (fst x), fst (fst x)) (row_of_sent (snd x))) rows (db_streams db))" using f ..
    show "\<forall>((pos, room, stream), row) \<in> set (fold (\<lambda>x. mput (position, snd (fst x), fst (fst x)) (row_of_sent (snd x))) rows (db_streams db)).
        pos \<in> fst ` set (db_positions db)"
      using f p db_okD(8) [OF assms(1)] by blast
  qed
qed

lemma upsert_configs_ok:
  assumes "db_ok db" and "owner db position = Some key"
    and "\<forall>(room, row) \<in> set rows. map_option rq_connection_key (mget (db_required db) (cf_required_state_id row)) = Some key"
  shows "db_ok (db\<lparr>db_configs := fold (\<lambda>(room, row). mput (position, room) row) rows (db_configs db)\<rparr>)"
proof -
  have eq: "(\<lambda>(room, row). mput (position, room) row) = (\<lambda>x. mput (position, fst x) (snd x))" by (auto simp: fun_eq_iff)
  note f = fold_mput_rows [OF db_okD(4) [OF assms(1)], of "\<lambda>x. (position, fst x)" snd rows]
  have "\<exists>k. owner db p = Some k \<and> map_option rq_connection_key (mget (db_required db) (cf_required_state_id row)) = Some k"
    if "((p, room), row) \<in> set (fold (\<lambda>x. mput (position, fst x) (snd x)) rows (db_configs db))" for p room row
  proof -
    from f that consider "((p, room), row) \<in> set (db_configs db)" | x where "x \<in> set rows" "p = position" "row = snd x" by fastforce
    then show ?thesis
    proof cases
      case 1
      then show ?thesis by (rule db_okD(7) [OF assms(1)])
    next
      case 2
      with assms(2,3) show ?thesis by (cases x) fastforce
    qed
  qed
  then show ?thesis unfolding eq by (intro set_configs_ok [OF assms(1)]) (use f in blast)+
qed

lemma upsert_lazy_ok:
  assumes "db_ok db" and "owner db position = Some key"
  shows "db_ok (upsert_lazy key position now p db) \<and> owner (upsert_lazy key position now p db) = owner db"
proof -
  have k: "key \<in> fst ` set (db_connections db)" using db_okD(10) [OF assms] ..
  have l: "mwf (db_lazy db)" by (rule db_okD(6) [OF assms(1)])
  show ?thesis
  proof (cases "mget (db_lazy db) (key, fst p, snd p)")
    case None
    then have "(key, fst p, snd p) \<notin> fst ` set (db_lazy db)" by (simp add: mget_None_iff)
    then have "db_ok (db\<lparr>db_lazy := ((key, fst p, snd p), \<lparr>lz_connection_position = Some position, lz_last_seen_ts = now\<rparr>) # db_lazy db\<rparr>)"
      using l k assms(2) db_okD(9) [OF assms(1)] by (intro set_lazy_ok [OF assms(1)]) (simp_all, blast)
    with None show ?thesis by (simp add: upsert_lazy_def fun_eq_iff)
  next
    case (Some row)
    then have row: "((key, fst p, snd p), row) \<in> set (db_lazy db)" by (rule map_of_SomeD)
    have "db_ok (db\<lparr>db_lazy := mput (key, fst p, snd p) (row\<lparr>lz_last_seen_ts := now\<rparr>) (db_lazy db)\<rparr>)"
    proof (intro set_lazy_ok [OF assms(1)])
      show "mwf (mput (key, fst p, snd p) (row\<lparr>lz_last_seen_ts := now\<rparr>) (db_lazy db))" using l by simp
      show "\<forall>((k, room, user), row) \<in> set (mput (key, fst p, snd p) (row\<lparr>lz_last_seen_ts := now\<rparr>) (db_lazy db)).
          k \<in> fst ` set (db_connections db) \<and> (\<forall>p. lz_connection_position row = Some p \<longrightarrow> owner db p = Some k)"
      proof (clarify, goal_cases)
        case (1 k' room user row')
        then consider "k' = key" "row' = row\<lparr>lz_last_seen_ts := now\<rparr>" | "((k', room, user), row') \<in> set (db_lazy db)" by (auto simp: in_mput [OF l])
        then show ?case by cases (use k db_okD(9) [OF assms(1)] db_okD(9) [OF assms(1) row] in \<open>simp, blast\<close>)
      qed
    qed
    with Some assms(1) show ?thesis by (simp add: upsert_lazy_def fun_eq_iff)
  qed
qed

lemma fold_upsert_lazy_ok:
  assumes "db_ok db" and "owner db position = Some key"
  shows "db_ok (fold (upsert_lazy key position now) ps db) \<and> owner (fold (upsert_lazy key position now) ps db) = owner db"
  using assms
proof (induction ps arbitrary: db)
  case (Cons p ps)
  from upsert_lazy_ok [OF Cons.prems, of now p] Cons.prems(2) show ?case using Cons.IH by simp
qed simp

lemma fold_mdel_rows: "mwf m \<Longrightarrow> mwf (fold (\<lambda>x. mdel (f x)) xs m) \<and> set (fold (\<lambda>x. mdel (f x)) xs m) \<subseteq> set m"
proof (induction xs arbitrary: m)
  case (Cons y ys)
  from Cons.IH [OF mwf_mdel [OF Cons.prems], of "f y"] in_mdel [OF Cons.prems, of _ "f y"] show ?case by auto
qed simp

lemma remove_lazy_ok:
  assumes "db_ok db"
  shows "db_ok (db\<lparr>db_lazy := fold (\<lambda>(room, user). mdel (key, room, user)) ps (db_lazy db)\<rparr>)"
proof -
  have eq: "(\<lambda>(room, user). mdel (key, room, user)) = (\<lambda>x. mdel (key, x) :: (int \<times> string \<times> string, lazy_row) gomap \<Rightarrow> _)" by (auto simp: fun_eq_iff)
  note f = fold_mdel_rows [OF db_okD(6) [OF assms], of "Pair key" ps]
  show ?thesis unfolding eq by (intro set_lazy_ok [OF assms]) (use f db_okD(9) [OF assms] in blast)+
qed

subsection \<open>Every operation keeps the constraints\<close>

lemma touch_ok:
  assumes "db_ok db"
  shows "db_ok (touch_connection key now db) \<and> owner (touch_connection key now db) = owner db"
proof -
  let ?f = "\<lambda>k row. if k = key then row\<lparr>cn_last_used_ts := Some now\<rparr> else row"
  have c: "db_connections (touch_connection key now db) = map (\<lambda>(k, row). (k, ?f k row)) (db_connections db)" by (simp add: touch_connection_def)
  have keys: "map fst (db_connections (touch_connection key now db)) = map fst (db_connections db)" unfolding c by (rule keys_map_values)
  then have ks: "fst ` set (db_connections (touch_connection key now db)) = fst ` set (db_connections db)" by (metis image_set)
  have rest: "db_positions (touch_connection key now db) = db_positions db" "db_required (touch_connection key now db) = db_required db"
    "db_configs (touch_connection key now db) = db_configs db" "db_streams (touch_connection key now db) = db_streams db"
    "db_lazy (touch_connection key now db) = db_lazy db" "db_next_key (touch_connection key now db) = db_next_key db"
    "db_next_position (touch_connection key now db) = db_next_position db" "db_next_required (touch_connection key now db) = db_next_required db"
    by (simp_all add: touch_connection_def)
  have own: "owner (touch_connection key now db) = owner db" by (simp add: touch_connection_def fun_eq_iff)
  have "keys_unique (touch_connection key now db)" using assms keys by (simp add: db_ok_def keys_unique_def rest)
  moreover have "ids_fresh (touch_connection key now db)" using assms unfolding db_ok_def ids_fresh_def ks rest by blast
  moreover have "refs_ok (touch_connection key now db)" using assms unfolding db_ok_def refs_ok_def ks rest own by blast
  moreover have "one_each (touch_connection key now db)"
    using assms unfolding db_ok_def one_each_iff c by (auto simp: same_triple_def split: if_splits)
  ultimately show ?thesis by (simp add: db_ok_def own)
qed

lemma promote_ok:
  assumes "db_ok db"
  shows "db_ok (promote_lazy key position db) \<and> owner (promote_lazy key position db) = owner db"
proof -
  let ?f = "\<lambda>k row. if fst k = key \<and> lz_connection_position row = Some position then row\<lparr>lz_connection_position := None\<rparr> else row"
  have eq: "promote_lazy key position db = db\<lparr>db_lazy := map (\<lambda>(k, row). (k, ?f k row)) (db_lazy db)\<rparr>"
    by (simp add: promote_lazy_def case_prod_unfold)
  have "db_ok (db\<lparr>db_lazy := map (\<lambda>(k, row). (k, ?f k row)) (db_lazy db)\<rparr>)"
  proof (rule set_lazy_ok [OF assms])
    show "mwf (map (\<lambda>(k, row). (k, ?f k row)) (db_lazy db))" using db_okD(6) [OF assms] by (simp only: keys_map_values)
    show "\<forall>((k, room, user), row) \<in> set (map (\<lambda>(k, row). (k, ?f k row)) (db_lazy db)).
        k \<in> fst ` set (db_connections db) \<and> (\<forall>p. lz_connection_position row = Some p \<longrightarrow> owner db p = Some k)"
      using db_okD(9) [OF assms] by (auto split: if_splits; blast)
  qed
  then show ?thesis unfolding eq by (simp add: fun_eq_iff)
qed

lemmas tx_simps = tx_bind_def query_def exec_def tx_return_def tx_fail_def

lemma decode_rows_Inr:
  "decode_rows c rows out db = Inr (m, db') \<longleftrightarrow>
     db' = db \<and> (\<forall>(i, t) \<in> set rows. DecodeRequiredState c t \<noteq> None) \<and> m = fold (\<lambda>(i, t). mput i (the (DecodeRequiredState c t))) rows out"
  by (induction rows arbitrary: out) (auto simp: tx_simps split: option.splits)

definition loaded :: "(int, required_state) gomap \<Rightarrow> int \<Rightarrow> gosync \<Rightarrow> PerConnectionState" where
  "loaded requiredState position db = \<lparr>pc_LastUsedMS = None,
     pc_Rooms = NewRoomStatusMap (load_streams StreamRooms (stream_rows position db)),
     pc_Receipts = NewRoomStatusMap (load_streams StreamReceipts (stream_rows position db)),
     pc_AccountData = NewRoomStatusMap (load_streams StreamAccountData (stream_rows position db)),
     pc_RoomConfigs = load_configs requiredState (config_rows position db), pc_roomConfigUpdates = [], pc_LazyMembership = []\<rparr>"

definition decoded :: "codec \<Rightarrow> int \<Rightarrow> gosync \<Rightarrow> (int, required_state) gomap" where
  "decoded c key db = fold (\<lambda>(i, t). mput i (the (DecodeRequiredState c t))) (required_rows key db) []"

definition drop_unused :: "int \<Rightarrow> int \<Rightarrow> gosync \<Rightarrow> gosync" where
  "drop_unused key position db = db\<lparr>db_required :=
     filter (\<lambda>(i, row). \<not> (rq_connection_key row = key \<and> i \<notin> set (map (cf_required_state_id \<circ> snd) (config_rows position db)))) (db_required db)\<rparr>"

lemma keys_fold_mput: "fst ` set (fold (\<lambda>(i, t). mput i (g t)) rows m) = fst ` set rows \<union> fst ` set m"
  by (induction rows arbitrary: m) (simp_all add: split_beta)

lemma drop_unused_streams [simp]: "stream_rows position (db\<lparr>db_required := r\<rparr>) = stream_rows position db"
  by (simp add: stream_rows_def)

lemma load_state_committed:
  assumes "loadState c up key position db = Inr (st, db')"
  shows "db' = drop_unused key position db \<and> st = loaded (decoded c key db) position db \<and>
    (\<forall>(i, t) \<in> set (required_rows key db). DecodeRequiredState c t \<noteq> None)"
proof -
  let ?used = "set (map (cf_required_state_id \<circ> snd) (config_rows position db))"
  let ?unused = "filter (\<lambda>i. i \<notin> ?used) (mkeys (decoded c key db))"
  from assms have d: "\<forall>(i, t) \<in> set (required_rows key db). DecodeRequiredState c t \<noteq> None"
    by (auto simp: loadState_def tx_simps decode_rows_Inr split: sum.splits prod.splits if_splits)
  then have run: "decode_rows c (required_rows key db) [] db = Inr (decoded c key db, db)" by (simp add: decode_rows_Inr decoded_def)
  have keys: "set (mkeys (decoded c key db)) = fst ` set (required_rows key db)" by (simp add: decoded_def keys_fold_mput)
  have "filter (\<lambda>(i, row). \<not> (rq_connection_key row = key \<and> i \<in> set ?unused)) (db_required db) = db_required (drop_unused key position db)"
    unfolding drop_unused_def keys set_filter by (auto simp: required_rows_def image_iff keys intro!: filter_cong)
  then have du: "db\<lparr>db_required := filter (\<lambda>(i, row). \<not> (rq_connection_key row = key \<and> i \<in> set ?unused)) (db_required db)\<rparr> = drop_unused key position db"
    by (simp add: drop_unused_def)
  show ?thesis
  proof (cases "?unused = []")
    case True
    then have "drop_unused key position db = db" using du by simp
    with assms run True d show ?thesis by (auto simp: loadState_def tx_simps loaded_def Let_def split: if_splits)
  next
    case False
    with assms run du d show ?thesis
      by (auto simp: loadState_def tx_simps loaded_def Let_def split: if_splits)
  qed
qed

text \<open>What a successful read did and returned.\<close>

definition read_state :: "int \<Rightarrow> int \<Rightarrow> int option \<Rightarrow> int \<Rightarrow> gosync \<Rightarrow> gosync" where
  "read_state key position lastUsed now db =
     promote_lazy key position (drop_positions (\<lambda>(pos, row). po_connection_key row = key \<and> pos \<noteq> position)
       (if (case lastUsed of None \<Rightarrow> True | Some t \<Rightarrow> now - t > UpdateLastUsedIntervalMS) then touch_connection key now db else db))"

lemma get_and_clear_committed:
  assumes "GetAndClear c up now db u d cid position = (db', Inr st)" and "position \<noteq> 0"
  obtains key lastUsed where "owned_position db u d cid position = Some (key, lastUsed)"
    "db' = drop_unused key position (read_state key position lastUsed now db)"
    "st = (loaded (decoded c key (read_state key position lastUsed now db)) position (read_state key position lastUsed now db))\<lparr>pc_LastUsedMS := lastUsed\<rparr>"
    "\<forall>(i, t) \<in> set (required_rows key (read_state key position lastUsed now db)). DecodeRequiredState c t \<noteq> None"
proof -
  from assms obtain key lastUsed where k: "owned_position db u d cid position = Some (key, lastUsed)"
    by (auto simp: GetAndClear_def transaction_def in_tx_def tx_simps split: sum.splits prod.splits option.splits if_splits)
  from assms obtain st0 where l: "loadState c up key position (read_state key position lastUsed now db) = Inr (st0, db')" "st = st0\<lparr>pc_LastUsedMS := lastUsed\<rparr>"
    by (auto simp: GetAndClear_def transaction_def in_tx_def tx_simps read_state_def k split: sum.splits prod.splits if_splits)
  from load_state_committed [OF l(1)] l(2) show thesis by (intro that [OF k]) simp_all
qed

lemma owned_owner: "owned_position db u d cid p = Some (key, l) \<Longrightarrow> owner db p = Some key"
  by (auto simp: owned_position_def owner_def split: option.splits if_splits)

text \<open>After a read the position is the only one of its connection.\<close>

definition sole :: "int \<Rightarrow> int \<Rightarrow> gosync \<Rightarrow> bool" where
  "sole key position db \<longleftrightarrow> db_ok db \<and> owner db position = Some key \<and> (\<forall>p. owner db p = Some key \<longrightarrow> p = position)"

lemma read_state_sole:
  assumes "db_ok db" and "owner db position = Some key"
  shows "sole key position (read_state key position lastUsed now db)"
proof -
  let ?db1 = "if (case lastUsed of None \<Rightarrow> True | Some t \<Rightarrow> now - t > UpdateLastUsedIntervalMS) then touch_connection key now db else db"
  have 1: "db_ok ?db1" "owner ?db1 = owner db" using touch_ok [OF assms(1), of key now] assms(1) by simp_all
  let ?db2 = "drop_positions (\<lambda>(pos, row). po_connection_key row = key \<and> pos \<noteq> position) ?db1"
  have 2: "db_ok ?db2" by (rule drop_positions_ok [OF 1(1)])
  have o: "owner ?db2 p = (if owner db p = Some key \<and> p \<noteq> position then None else owner db p)" for p
    unfolding drop_positions_owner [OF db_okD(2) [OF 1(1)]] unfolding 1(2) [symmetric] owner_def by (auto split: option.splits)
  from promote_ok [OF 2, of key position] o assms(2) show ?thesis unfolding sole_def read_state_def by (simp split: if_splits)
qed

lemma drop_unused_sole:
  assumes "sole key position db"
  shows "sole key position (drop_unused key position db)"
proof -
  let ?db = "drop_unused key position db"
  have ok: "db_ok db" and own: "owner db position = Some key" and only: "\<And>p. owner db p = Some key \<Longrightarrow> p = position"
    using assms by (auto simp: sole_def)
  have o: "owner ?db = owner db" by (simp add: drop_unused_def fun_eq_iff)
  have same: "db_positions ?db = db_positions db" "db_connections ?db = db_connections db" "db_configs ?db = db_configs db" "db_streams ?db = db_streams db"
    "db_lazy ?db = db_lazy db" "db_next_key ?db = db_next_key db" "db_next_position ?db = db_next_position db" "db_next_required ?db = db_next_required db"
    by (simp_all add: drop_unused_def)
  have sub: "set (db_required ?db) \<subseteq> set (db_required db)" by (auto simp: drop_unused_def)
  have keep: "mget (db_required ?db) (cf_required_state_id row) = mget (db_required db) (cf_required_state_id row)"
    if row: "((p, room), row) \<in> set (db_configs db)" for p room row
  proof -
    from db_okD(7) [OF ok row] obtain k rq where k: "owner db p = Some k" "mget (db_required db) (cf_required_state_id row) = Some rq" "rq_connection_key rq = k" by auto
    have "k = key \<Longrightarrow> cf_required_state_id row \<in> set (map (cf_required_state_id \<circ> snd) (config_rows position db))"
      using row only k(1) by (force simp: config_rows_def image_iff)
    with k(2,3) show ?thesis by (auto simp: drop_unused_def mget_filter [OF db_okD(3) [OF ok]])
  qed
  have "refs_ok ?db" unfolding refs_ok_def o same
  proof (intro conjI)
    have refs: "refs_ok db" using ok by (simp add: db_ok_def)
    then show "\<forall>(p, row) \<in> set (db_positions db). po_connection_key row \<in> fst ` set (db_connections db)" unfolding refs_ok_def by blast
    show "\<forall>(i, row) \<in> set (db_required ?db). rq_connection_key row \<in> fst ` set (db_connections db)" using refs sub unfolding refs_ok_def by blast
    show "\<forall>((p, room), row) \<in> set (db_configs db). \<exists>k. owner db p = Some k \<and>
        map_option rq_connection_key (mget (db_required ?db) (cf_required_state_id row)) = Some k"
    proof (clarify, goal_cases)
      case (1 p room row)
      with db_okD(7) [OF ok 1] keep [OF 1] show ?case by simp
    qed
    show "\<forall>((p, room, stream), row) \<in> set (db_streams db). p \<in> fst ` set (db_positions db)" using refs unfolding refs_ok_def by blast
    show "\<forall>((k, room, user), row) \<in> set (db_lazy db). k \<in> fst ` set (db_connections db) \<and> (\<forall>p. lz_connection_position row = Some p \<longrightarrow> owner db p = Some k)"
      using refs unfolding refs_ok_def by blast
  qed
  moreover have "keys_unique ?db"
    using ok mwf_filter [OF db_okD(3) [OF ok]] unfolding db_ok_def keys_unique_def same by (simp add: drop_unused_def)
  moreover have "ids_fresh ?db" using ok sub unfolding db_ok_def ids_fresh_def same by blast
  moreover have "one_each ?db" using ok unfolding db_ok_def one_each_def same by blast
  ultimately show ?thesis using own only unfolding sole_def db_ok_def o by blast
qed

lemma get_and_clear_ok:
  assumes "db_ok db"
  shows "db_ok (fst (GetAndClear c up now db u d cid position))"
proof -
  let ?r = "GetAndClear c up now db u d cid position"
  show ?thesis
  proof (cases "position = 0 \<or> isl (snd ?r)")
    case True
    then have "fst ?r = db" by (auto simp: GetAndClear_def transaction_def split: sum.splits prod.splits)
    with assms show ?thesis by simp
  next
    case False
    then obtain st where "?r = (fst ?r, Inr st)" "position \<noteq> 0" by (cases "snd ?r") (auto simp: prod_eq_iff)
    then obtain key lastUsed where k: "owned_position db u d cid position = Some (key, lastUsed)"
      "fst ?r = drop_unused key position (read_state key position lastUsed now db)" by (rule get_and_clear_committed) blast
    from drop_unused_sole [OF read_state_sole [OF assms owned_owner [OF k(1)]]] k(2) show ?thesis by (simp add: sole_def)
  qed
qed

subsection \<open>Required state is shared by its encoding\<close>

declare map_of_eq_Some_iff [simp del]

lemma mgetz_Nil [simp]: "mgetz z [] k = z"
  by (simp add: mgetz_def)

text \<open>A room is resolved to a row of its connection that holds its encoding.\<close>

definition resolved :: "int \<Rightarrow> (string, int) gomap \<Rightarrow> gosync \<Rightarrow> string \<Rightarrow> string \<Rightarrow> bool" where
  "resolved key roomToStateID db room encoded \<longleftrightarrow>
     (\<exists>i. mget roomToStateID room = Some i \<and> mget (db_required db) i = Some \<lparr>rq_connection_key = key, rq_required_state = encoded\<rparr>)"

definition grows :: "gosync \<Rightarrow> gosync \<Rightarrow> bool" where
  "grows db db' \<longleftrightarrow> (\<exists>r n. db' = db\<lparr>db_required := r, db_next_required := n\<rparr> \<and> (\<forall>i row. mget (db_required db) i = Some row \<longrightarrow> mget r i = Some row))"

lemma grows_refl: "grows db db"
  unfolding grows_def by (intro exI [of _ "db_required db"] exI [of _ "db_next_required db"]) simp

lemma grows_trans:
  assumes "grows a b" and "grows b c"
  shows "grows a c"
proof -
  from assms obtain r n r' n' where "c = a\<lparr>db_required := r', db_next_required := n'\<rparr>"
    "\<forall>i row. mget (db_required a) i = Some row \<longrightarrow> mget r' i = Some row" unfolding grows_def by fastforce
  then show ?thesis unfolding grows_def by blast
qed

lemma growsD:
  assumes "grows db db'"
  shows "db_connections db' = db_connections db" "db_positions db' = db_positions db" "db_configs db' = db_configs db" "db_streams db' = db_streams db"
    "db_lazy db' = db_lazy db" "owner db' = owner db" "\<And>i row. mget (db_required db) i = Some row \<Longrightarrow> mget (db_required db') i = Some row"
    "db_next_position db' = db_next_position db" "db_next_key db' = db_next_key db"
  using assms by (auto simp: grows_def owner_def fun_eq_iff)

lemma grows_insert:
  assumes "db_ok db"
  shows "grows db (insert_required key encoded db)"
proof -
  have "db_next_required db \<notin> fst ` set (db_required db)" using assms by (force simp: db_ok_def ids_fresh_def)
  then have "\<forall>i row. mget (db_required db) i = Some row \<longrightarrow> i \<noteq> db_next_required db" by (metis map_of_SomeD fst_conv image_eqI)
  then show ?thesis unfolding grows_def insert_required_def
    by (intro exI [of _ "(db_next_required db, \<lparr>rq_connection_key = key, rq_required_state = encoded\<rparr>) # db_required db"] exI [of _ "db_next_required db + 1"]) auto
qed

lemma resolved_grows: "resolved key rts db room encoded \<Longrightarrow> grows db db' \<Longrightarrow> resolved key rts db' room encoded"
  unfolding resolved_def using growsD(7) by blast

lemma mget_fold_const: "mget (fold (\<lambda>x. mput x v) xs m) k = (if k \<in> set xs then Some v else mget m k)"
  by (induction xs arbitrary: m) auto

lemma insert_encodings_spec:
  assumes "\<forall>e e' room. e \<noteq> e' \<longrightarrow> room \<in> set (mgetz [] newRooms e) \<longrightarrow> room \<notin> set (mgetz [] newRooms e')"
  shows "insert_encodings up key newRooms encs rts db = Inr (rts', db') \<Longrightarrow> db_ok db \<Longrightarrow> key \<in> fst ` set (db_connections db) \<Longrightarrow> distinct encs \<Longrightarrow>
    db_ok db' \<and> grows db db' \<and>
    (\<forall>room encoded. encoded \<in> set encs \<and> room \<in> set (mgetz [] newRooms encoded) \<or>
        resolved key rts db room encoded \<and> (\<forall>e \<in> set encs. room \<notin> set (mgetz [] newRooms e)) \<longrightarrow> resolved key rts' db' room encoded)"
proof (induction encs arbitrary: rts db)
  case Nil
  then show ?case by (auto simp: tx_simps grows_refl)
next
  case (Cons e encs)
  let ?i = "db_next_required db" and ?db1 = "insert_required key e db"
  let ?rts1 = "fold (\<lambda>roomID. mput roomID ?i) (mgetz [] newRooms e) rts"
  from Cons.prems(1) have run: "insert_encodings up key newRooms encs ?rts1 ?db1 = Inr (rts', db')" by (auto simp: tx_simps split: if_splits)
  have ok: "db_ok ?db1" and key: "key \<in> fst ` set (db_connections ?db1)"
    using insert_required_ok [OF Cons.prems(2,3)] Cons.prems(3) by (simp_all add: insert_required_def)
  have g: "grows db ?db1" by (rule grows_insert [OF Cons.prems(2)])
  from Cons.IH [OF run ok key] Cons.prems(4) have IH: "db_ok db'" "grows ?db1 db'"
    "\<And>room encoded. encoded \<in> set encs \<and> room \<in> set (mgetz [] newRooms encoded) \<or>
        resolved key ?rts1 ?db1 room encoded \<and> (\<forall>e \<in> set encs. room \<notin> set (mgetz [] newRooms e)) \<Longrightarrow> resolved key rts' db' room encoded" by auto
  have new: "resolved key rts' db' room e" if "room \<in> set (mgetz [] newRooms e)" for room
  proof (rule IH(3), rule disjI2, rule conjI)
    show "resolved key ?rts1 ?db1 room e" using that by (simp add: resolved_def mget_fold_const insert_required_def)
    show "\<forall>e' \<in> set encs. room \<notin> set (mgetz [] newRooms e')" using assms that Cons.prems(4) by (metis distinct.simps(2))
  qed
  have old: "resolved key rts' db' room encoded"
    if "resolved key rts db room encoded" "\<forall>e' \<in> set (e # encs). room \<notin> set (mgetz [] newRooms e')" for room encoded
  proof (rule IH(3), rule disjI2, rule conjI)
    from that(1) have "resolved key ?rts1 db room encoded" using that(2) by (simp add: resolved_def mget_fold_const)
    then show "resolved key ?rts1 ?db1 room encoded" by (rule resolved_grows [OF _ g])
    show "\<forall>e' \<in> set encs. room \<notin> set (mgetz [] newRooms e')" using that(2) by simp
  qed
  have "resolved key rts' db' room encoded"
    if "encoded \<in> set (e # encs) \<and> room \<in> set (mgetz [] newRooms encoded) \<or>
        resolved key rts db room encoded \<and> (\<forall>e' \<in> set (e # encs). room \<notin> set (mgetz [] newRooms e'))" for room encoded
    using that new old IH(3) by (metis set_ConsD)
  with IH(1) grows_trans [OF g IH(2)] show ?case by blast
qed

lemma sort_rooms_spec:
  assumes "mwf cfgs" and "sort_rooms_by_encoding c existing cfgs rts news = (rts', news')"
  shows "(\<forall>room. mget rts' room = (case mget cfgs room of
            Some cfg \<Rightarrow> (case mget existing (EncodeRequiredState c (rc_RequiredState cfg)) of Some i \<Rightarrow> Some i | None \<Rightarrow> mget rts room)
          | None \<Rightarrow> mget rts room)) \<and>
    (\<forall>e room. room \<in> set (mgetz [] news' e) \<longleftrightarrow> room \<in> set (mgetz [] news e) \<or>
        (mget existing e = None \<and> (\<exists>cfg. (room, cfg) \<in> set cfgs \<and> EncodeRequiredState c (rc_RequiredState cfg) = e))) \<and>
    (mwf news \<longrightarrow> mwf news') \<and> (\<forall>e. mgetz [] news' e \<noteq> [] \<longrightarrow> e \<in> fst ` set news')"
  using assms
proof (induction cfgs arbitrary: rts news)
  case Nil
  then show ?case by (auto simp: mgetz_def split: option.splits) (metis map_of_SomeD fst_conv image_eqI)
next
  case (Cons x cfgs)
  obtain room0 cfg0 where x: "x = (room0, cfg0)" by fastforce
  let ?e = "EncodeRequiredState c (rc_RequiredState cfg0)"
  have m: "mwf cfgs" "room0 \<notin> fst ` set cfgs" using Cons.prems(1) x by auto
  then have none: "mget cfgs room0 = None" by (simp add: mget_None_iff)
  show ?case
  proof (cases "mget existing ?e")
    case (Some i)
    with Cons.prems(2) x have run: "sort_rooms_by_encoding c existing cfgs (mput room0 i rts) news = (rts', news')" by (simp add: Let_def)
    from Cons.IH [OF m(1) run] none Some show ?thesis unfolding x by (auto split: option.splits)
  next
    case None
    with Cons.prems(2) x have run: "sort_rooms_by_encoding c existing cfgs rts (mput ?e (mgetz [] news ?e @ [room0]) news) = (rts', news')" by (simp add: Let_def)
    note IH = Cons.IH [OF m(1) run]
    have 1: "mget rts' room = (case mget (x # cfgs) room of
            Some cfg \<Rightarrow> (case mget existing (EncodeRequiredState c (rc_RequiredState cfg)) of Some i \<Rightarrow> Some i | None \<Rightarrow> mget rts room)
          | None \<Rightarrow> mget rts room)" for room
      using IH None none unfolding x by (cases "room = room0") auto
    have 2: "room \<in> set (mgetz [] news' e) \<longleftrightarrow> room \<in> set (mgetz [] news e) \<or>
        (mget existing e = None \<and> (\<exists>cfg. (room, cfg) \<in> set (x # cfgs) \<and> EncodeRequiredState c (rc_RequiredState cfg) = e))" for e room
      using IH None unfolding x by (cases "e = ?e") auto
    from IH have 3: "mwf news \<longrightarrow> mwf news'" "\<forall>e. mgetz [] news' e \<noteq> [] \<longrightarrow> e \<in> fst ` set news'" by auto
    from 1 2 3 show ?thesis by blast
  qed
qed

lemma mget_existing:
  assumes "mget (fold (\<lambda>(i, encoded). mput encoded i) rows m) e = Some i"
  shows "(i, e) \<in> set rows \<or> mget m e = Some i"
  using assms by (induction rows arbitrary: m) (fastforce split: if_splits)+

lemma resolve_spec:
  assumes "db_ok db" and "key \<in> fst ` set (db_connections db)" and "mwf (pc_RoomConfigs st)"
    and "resolveRequiredState c up key prev st db = Inr (rts, db')"
  shows "db_ok db' \<and> grows db db' \<and>
    (\<forall>room cfg. mget (pc_RoomConfigs st) room = Some cfg \<longrightarrow> resolved key rts db' room (EncodeRequiredState c (rc_RequiredState cfg)))"
proof -
  let ?enc = "\<lambda>cfg. EncodeRequiredState c (rc_RequiredState cfg)"
  obtain rows where rows: "rows = (if prev \<noteq> 0 then required_rows key db else [])" by simp
  let ?ex = "fold (\<lambda>(i, encoded). mput encoded i) rows []"
  obtain rts0 news where s: "sort_rooms_by_encoding c ?ex (pc_RoomConfigs st) [] [] = (rts0, news)" by fastforce
  from assms(4) s rows have run: "insert_encodings up key news (sort (mkeys news)) rts0 db = Inr (rts, db')"
    by (auto simp: resolveRequiredState_def tx_simps Let_def split: if_splits)
  note spec = sort_rooms_spec [OF assms(3) s]
  from spec have wf: "mwf news" by simp
  have mem: "room \<in> set (mgetz [] news e) \<longleftrightarrow> mget ?ex e = None \<and> (\<exists>cfg. mget (pc_RoomConfigs st) room = Some cfg \<and> ?enc cfg = e)" for room e
  proof -
    from spec have "room \<in> set (mgetz [] news e) \<longleftrightarrow> room \<in> set (mgetz [] ([] :: (string, string list) gomap) e) \<or>
        (mget ?ex e = None \<and> (\<exists>cfg. (room, cfg) \<in> set (pc_RoomConfigs st) \<and> ?enc cfg = e))" by blast
    then show ?thesis by (simp add: map_of_eq_Some_iff [OF assms(3)])
  qed
  have disj: "\<forall>e e' room. e \<noteq> e' \<longrightarrow> room \<in> set (mgetz [] news e) \<longrightarrow> room \<notin> set (mgetz [] news e')"
    unfolding mem by auto
  have d: "distinct (sort (mkeys news))" using wf by simp
  from insert_encodings_spec [OF disj run assms(1,2) d] have ins: "db_ok db'" "grows db db'"
    "\<And>room encoded. encoded \<in> set (sort (mkeys news)) \<and> room \<in> set (mgetz [] news encoded) \<or>
        resolved key rts0 db room encoded \<and> (\<forall>e \<in> set (sort (mkeys news)). room \<notin> set (mgetz [] news e)) \<Longrightarrow> resolved key rts db' room encoded"
    by blast+
  have "resolved key rts db' room (?enc cfg)" if cfg: "mget (pc_RoomConfigs st) room = Some cfg" for room cfg
  proof (cases "mget ?ex (?enc cfg)")
    case None
    then have "room \<in> set (mgetz [] news (?enc cfg))" using cfg mem by blast
    moreover from this have "?enc cfg \<in> fst ` set news" using spec by (metis list.set(1) empty_iff)
    ultimately show ?thesis using ins(3) by simp
  next
    case (Some i)
    from mget_existing [OF Some] have i: "(i, ?enc cfg) \<in> set rows" by simp
    then have "(i, ?enc cfg) \<in> set (required_rows key db)" using rows by (simp split: if_splits)
    then obtain row where "(i, row) \<in> set (db_required db)" "rq_connection_key row = key" "rq_required_state row = ?enc cfg"
      by (auto simp: required_rows_def)
    then have "mget (db_required db) i = Some \<lparr>rq_connection_key = key, rq_required_state = ?enc cfg\<rparr>"
      using mget_in_set [OF db_okD(3) [OF assms(1)]] by (cases row) auto
    moreover have "mget rts0 room = Some i" using spec cfg Some by simp
    ultimately have "resolved key rts0 db room (?enc cfg)" by (simp add: resolved_def)
    moreover have "\<forall>e \<in> set (sort (mkeys news)). room \<notin> set (mgetz [] news e)" using mem cfg Some by auto
    ultimately show ?thesis using ins(3) by blast
  qed
  with ins(1,2) show ?thesis by blast
qed

lemma configs_to_upsert_spec:
  assumes "\<And>room. room \<in> set rooms \<Longrightarrow> \<exists>i. mget rts room = Some i"
  shows "configs_to_upsert cfgs rts rooms = Inr (map (\<lambda>room. (room, \<lparr>cf_timeline_limit = (case mget cfgs room of None \<Rightarrow> 0 | Some cfg \<Rightarrow> rc_TimelineLimit cfg),
    cf_required_state_id = the (mget rts room)\<rparr>)) rooms)"
  using assms
proof (induction rooms)
  case (Cons r rooms)
  then obtain i where "mget rts r = Some i" by auto
  with Cons show ?case by simp
qed simp

text \<open>The tables after the rows of one position are upserted.\<close>

lemma upsert_out: "k \<notin> f ` set xs \<Longrightarrow> mget (fold (\<lambda>x. mput (f x) (g x)) xs m) k = mget m k"
  by (induction xs arbitrary: m) auto

lemma upsert_in: "distinct (map f xs) \<Longrightarrow> x \<in> set xs \<Longrightarrow> mget (fold (\<lambda>x. mput (f x) (g x)) xs m) (f x) = Some (g x)"
  by (induction xs arbitrary: m) (auto simp: upsert_out)

text \<open>No text is stored but an encoding.\<close>

lemma sort_rooms_keys:
  assumes "sort_rooms_by_encoding c existing cfgs rts news = (rts', news')"
  shows "fst ` set news' \<subseteq> fst ` set news \<union> range (EncodeRequiredState c)"
  using assms
proof (induction cfgs arbitrary: rts news)
  case (Cons x cfgs)
  obtain room cfg where x: "x = (room, cfg)" by fastforce
  let ?e = "EncodeRequiredState c (rc_RequiredState cfg)"
  show ?case
  proof (cases "mget existing ?e")
    case None
    with Cons.prems x Cons.IH [of rts "mput ?e (mgetz [] news ?e @ [room]) news"] show ?thesis by (simp add: Let_def insert_absorb)
  next
    case (Some i)
    with Cons.prems x Cons.IH [of "mput room i rts" news] show ?thesis by (simp add: Let_def)
  qed
qed simp

lemma insert_encodings_texts:
  assumes "insert_encodings up key newRooms encs rts db = Inr (rts', db')"
  shows "rq_required_state ` snd ` set (db_required db') \<subseteq> rq_required_state ` snd ` set (db_required db) \<union> set encs"
  using assms
proof (induction encs arbitrary: rts db)
  case (Cons e encs)
  from Cons.prems have "insert_encodings up key newRooms encs (fold (\<lambda>roomID. mput roomID (db_next_required db)) (mgetz [] newRooms e) rts)
      (insert_required key e db) = Inr (rts', db')" by (auto simp: tx_simps split: if_splits)
  from Cons.IH [OF this] show ?case by (auto simp: insert_required_def)
qed (simp add: tx_simps)

lemma resolve_texts:
  assumes "resolveRequiredState c up key prev st db = Inr (rts, db')"
  shows "rq_required_state ` snd ` set (db_required db') \<subseteq> rq_required_state ` snd ` set (db_required db) \<union> range (EncodeRequiredState c)"
proof -
  obtain rows where rows: "rows = (if prev \<noteq> 0 then required_rows key db else [])" by simp
  obtain rts0 news where s: "sort_rooms_by_encoding c (fold (\<lambda>(i, encoded). mput encoded i) rows []) (pc_RoomConfigs st) [] [] = (rts0, news)" by fastforce
  from assms s rows have "insert_encodings up key news (sort (mkeys news)) rts0 db = Inr (rts, db')"
    by (auto simp: resolveRequiredState_def tx_simps Let_def split: if_splits)
  from insert_encodings_texts [OF this] sort_rooms_keys [OF s] show ?thesis by simp blast
qed

subsection \<open>A write, phase by phase\<close>

definition is_triple :: "string \<Rightarrow> string \<Rightarrow> string \<Rightarrow> connection_row \<Rightarrow> bool" where
  "is_triple u d cid row \<longleftrightarrow> cn_user_id row = u \<and> cn_effective_device_id row = d \<and> cn_conn_id row = cid"

text \<open>The connection the position will belong to. The rows of the other connections stay.\<close>

lemma connection_phase:
  assumes "connectionKey up u d cid prev now db = Inr (key, db1)" and "db_ok db"
  shows "db_ok db1 \<and> (\<exists>row. mget (db_connections db1) key = Some row \<and> is_triple u d cid row) \<and> db_next_position db1 = db_next_position db \<and>
    set (db_required db1) \<subseteq> set (db_required db) \<and> (prev \<noteq> 0 \<longrightarrow> db1 = db \<and> owner db prev = Some key)"
proof (cases "prev = 0")
  case False
  with assms(1) obtain l where o: "owned_position db u d cid prev = Some (key, l)" "db1 = db"
    by (auto simp: connectionKey_def tx_simps split: option.splits if_splits)
  then obtain row where "mget (db_connections db) key = Some row" "is_triple u d cid row"
    by (auto simp: owned_position_def is_triple_def split: option.splits if_splits)
  with o assms(2) owned_owner [OF o(1)] show ?thesis by blast
next
  case True
  let ?P = "\<lambda>(_, row). cn_user_id row = u \<and> cn_effective_device_id row = d \<and> cn_conn_id row = cid"
  from assms(1) True have k: "key = db_next_key (drop_connections ?P db)" "db1 = new_connection u d cid now (drop_connections ?P db)"
    by (auto simp: connectionKey_def tx_simps split: if_splits)
  have "\<forall>(k, row) \<in> set (db_connections (drop_connections ?P db)). \<not> (cn_user_id row = u \<and> cn_effective_device_id row = d \<and> cn_conn_id row = cid)"
    by (auto simp: drop_connections_def Let_def)
  from new_connection_ok [OF drop_connections_ok [OF assms(2)] this] k True
  show ?thesis by (auto simp: new_connection_def is_triple_def drop_connections_def Let_def)
qed

lemma lazy_phase:
  assumes "persistLazyMembers up key position st now db = Inr (x, db')" and "db_ok db" and "owner db position = Some key"
  shows "db_ok db' \<and> (\<exists>l. db' = db\<lparr>db_lazy := l\<rparr>)"
proof -
  let ?up = "lazy_pairs (\<lambda>l. ReturnedToUpdate l now) (pc_LazyMembership st)"
  let ?rm = "lazy_pairs (\<lambda>l. sortedKeys (lm_Invalidated l)) (pc_LazyMembership st)"
  let ?db1 = "fold (upsert_lazy key position now) ?up db"
  have one: "\<exists>l. upsert_lazy key position now p db = db\<lparr>db_lazy := l\<rparr>" for p db
    by (auto simp: upsert_lazy_def split: option.splits) (metis gosync.surjective gosync.update_convs(6))
  have "\<exists>l. fold (upsert_lazy key position now) ps db = db\<lparr>db_lazy := l\<rparr>" for ps
  proof (induction ps arbitrary: db)
    case Nil
    show ?case by simp (metis gosync.surjective gosync.update_convs(6))
  next
    case (Cons p ps)
    from one [of p db] obtain l where "upsert_lazy key position now p db = db\<lparr>db_lazy := l\<rparr>" by blast
    with Cons.IH [of "db\<lparr>db_lazy := l\<rparr>"] show ?case by auto
  qed
  then obtain l where l: "?db1 = db\<lparr>db_lazy := l\<rparr>" by blast
  have ok: "db_ok ?db1" using fold_upsert_lazy_ok [OF assms(2,3)] by blast
  from assms(1) have "db' = (if ?rm \<noteq> [] then ?db1\<lparr>db_lazy := fold (\<lambda>(room, user). mdel (key, room, user)) ?rm (db_lazy ?db1)\<rparr> else ?db1)"
    by (auto simp: persistLazyMembers_def tx_simps Let_def split: if_splits)
  with ok remove_lazy_ok [OF ok, of key ?rm] l show ?thesis by auto
qed

text \<open>The maps of a state, as Go maps: no key twice.\<close>

definition state_ok :: "PerConnectionState \<Rightarrow> bool" where
  "state_ok st \<longleftrightarrow> mwf (pc_RoomConfigs st) \<and> (\<forall>m \<in> {pc_Rooms st, pc_Receipts st, pc_AccountData st}. mwf (rsm_base m) \<and> mwf (rsm_updates m))"

definition stream_map :: "PerConnectionState \<Rightarrow> string \<Rightarrow> RoomStatusMap option" where
  "stream_map st name = map_of [(StreamRooms, pc_Rooms st), (StreamReceipts, pc_Receipts st), (StreamAccountData, pc_AccountData st)] name"

lemma stream_names: "StreamRooms \<noteq> StreamReceipts" "StreamRooms \<noteq> StreamAccountData" "StreamReceipts \<noteq> StreamAccountData"
  by (simp_all add: StreamRooms_def StreamReceipts_def StreamAccountData_def)

lemma put_all: "mwf kvs \<Longrightarrow> mget (mput_all kvs m) k = (case mget kvs k of Some v \<Rightarrow> Some v | None \<Rightarrow> mget m k)"
proof -
  have eq: "(\<lambda>(k, v). mput k v) = (\<lambda>x. mput (fst x) (snd x))" by (auto simp: fun_eq_iff)
  assume m: "mwf kvs"
  show ?thesis
  proof (cases "mget kvs k")
    case None
    then have "k \<notin> fst ` set kvs" by (simp add: mget_None_iff)
    then show ?thesis unfolding eq by (simp add: upsert_out None)
  next
    case (Some v)
    from upsert_in [OF m map_of_SomeD [OF Some], of snd m] show ?thesis unfolding eq by (simp add: Some)
  qed
qed

lemma put_all_wf: "mwf m \<Longrightarrow> mwf (mput_all kvs m)"
  by (rule fold_upd_keys) auto

lemma All_lookup:
  assumes "mwf (rsm_base m)" and "mwf (rsm_updates m)"
  shows "mget (RoomStatusMap_All m) room = (case mget (rsm_updates m) room of Some hs \<Rightarrow> Some hs | None \<Rightarrow> mget (rsm_base m) room)"
    and "mwf (RoomStatusMap_All m)"
  unfolding RoomStatusMap_All_def using assms by (auto simp: put_all put_all_wf split: option.split)

lemma rows_to_upsert_spec:
  assumes "state_ok st"
  shows "distinct (map fst (rows_to_upsert st))"
    and "((name, room), hs) \<in> set (rows_to_upsert st) \<longleftrightarrow> (\<exists>m. stream_map st name = Some m \<and> mget (RoomStatusMap_All m) room = Some hs)"
proof -
  have wf: "mwf (RoomStatusMap_All m)" if "m \<in> {pc_Rooms st, pc_Receipts st, pc_AccountData st}" for m
    using assms that by (auto simp: state_ok_def intro!: All_lookup(2))
  let ?rows = "concat (map (\<lambda>(name, m). map (\<lambda>(room, hs). ((name, room), hs)) (RoomStatusMap_All m))
     [(StreamRooms, pc_Rooms st), (StreamReceipts, pc_Receipts st), (StreamAccountData, pc_AccountData st)])"
  have part: "distinct (map fst (map (\<lambda>(room, hs). ((name, room), hs)) kvs))" if "mwf kvs" for name and kvs :: "(string, HaveSent) gomap"
    using that by (induction kvs) (auto, force)
  have "distinct (map fst ?rows)" using part [OF wf, of "pc_Rooms st"] part [OF wf, of "pc_Receipts st"] part [OF wf, of "pc_AccountData st"] stream_names
    by (auto simp: case_prod_unfold comp_def)
  then show "distinct (map fst (rows_to_upsert st))"
    by (simp only: rows_to_upsert_def distinct_map distinct_sort set_sort)
  have "((name, room), hs) \<in> set ?rows \<longleftrightarrow> (\<exists>m. stream_map st name = Some m \<and> (room, hs) \<in> set (RoomStatusMap_All m))"
    using stream_names by (auto simp: stream_map_def)
  also have "\<dots> \<longleftrightarrow> (\<exists>m. stream_map st name = Some m \<and> mget (RoomStatusMap_All m) room = Some hs)"
  proof (rule ex_cong1, rule conj_cong [OF refl])
    fix m
    assume "stream_map st name = Some m"
    then have "m \<in> {pc_Rooms st, pc_Receipts st, pc_AccountData st}" by (auto simp: stream_map_def split: if_splits)
    then show "((room, hs) \<in> set (RoomStatusMap_All m)) = (mget (RoomStatusMap_All m) room = Some hs)" by (simp add: map_of_eq_Some_iff wf)
  qed
  finally show "((name, room), hs) \<in> set (rows_to_upsert st) \<longleftrightarrow> (\<exists>m. stream_map st name = Some m \<and> mget (RoomStatusMap_All m) room = Some hs)"
    by (simp add: rows_to_upsert_def)
qed

lemma streams_phase:
  assumes "upsertStreams up p st db = Inr (x, db')" and "state_ok st"
  shows "\<exists>s. db' = db\<lparr>db_streams := s\<rparr> \<and>
    (\<forall>q room name. mget s (q, room, name) =
      (if q = p then (case Option.bind (stream_map st name) (\<lambda>m. mget (RoomStatusMap_All m) room) of
                        Some hs \<Rightarrow> Some (row_of_sent hs) | None \<Rightarrow> mget (db_streams db) (q, room, name))
       else mget (db_streams db) (q, room, name)))"
proof -
  let ?rows = "rows_to_upsert st"
  let ?f = "\<lambda>x. (p, snd (fst x), fst (fst x)) :: int \<times> string \<times> string" and ?g = "\<lambda>x. row_of_sent (snd x)"
  let ?s = "fold (\<lambda>x. mput (?f x) (?g x)) ?rows (db_streams db)"
  have eq: "(\<lambda>((stream, room), hs). mput (p, room, stream) (row_of_sent hs)) = (\<lambda>x. mput (?f x) (?g x))" by (auto simp: fun_eq_iff)
  have "db' = db\<lparr>db_streams := ?s\<rparr>"
  proof (cases "?rows = []")
    case True
    with assms(1) have "db' = db" by (simp add: upsertStreams_def tx_simps)
    with True show ?thesis by simp
  next
    case False
    with assms(1) show ?thesis by (auto simp: upsertStreams_def tx_simps Let_def eq split: if_splits)
  qed
  moreover have "distinct (map ?f ?rows)"
  proof -
    have "map ?f ?rows = map (\<lambda>k. (p, snd k, fst k)) (map fst ?rows)" by simp
    moreover have "inj_on (\<lambda>k. (p, snd k, fst k)) A" for A :: "(string \<times> string) set" by (auto simp: inj_on_def)
    ultimately show ?thesis using rows_to_upsert_spec(1) [OF assms(2)] by (simp only: distinct_map)
  qed
  note into = upsert_in [OF this, of _ ?g "db_streams db"]
  have "mget ?s (q, room, name) = (if q = p then (case Option.bind (stream_map st name) (\<lambda>m. mget (RoomStatusMap_All m) room) of
        Some hs \<Rightarrow> Some (row_of_sent hs) | None \<Rightarrow> mget (db_streams db) (q, room, name)) else mget (db_streams db) (q, room, name))" for q room name
  proof (cases "q = p \<and> (\<exists>hs. ((name, room), hs) \<in> set ?rows)")
    case True
    then obtain hs where hs: "((name, room), hs) \<in> set ?rows" and q: "q = p" by blast
    then have "Option.bind (stream_map st name) (\<lambda>m. mget (RoomStatusMap_All m) room) = Some hs"
      unfolding rows_to_upsert_spec(2) [OF assms(2)] by auto
    with into [OF hs] q show ?thesis by simp
  next
    case False
    then have out: "(q, room, name) \<notin> ?f ` set ?rows" by (auto simp: image_iff)
    have "Option.bind (stream_map st name) (\<lambda>m. mget (RoomStatusMap_All m) room) = None" if "q = p"
      using False that unfolding rows_to_upsert_spec(2) [OF assms(2)] 
      by (cases "stream_map st name"; cases "mget (RoomStatusMap_All (the (stream_map st name))) room") auto
    then show ?thesis by (simp add: upsert_out [OF out])
  qed
  ultimately show ?thesis by blast
qed

lemma streams_phase_ok:
  assumes "upsertStreams up p st db = Inr (x, db')" and "db_ok db" and "owner db p = Some key"
  shows "db_ok db'"
  using assms(1) upsert_streams_ok [OF assms(2,3), of "rows_to_upsert st"] assms(2)
  by (auto simp: upsertStreams_def tx_simps Let_def split: if_splits)

lemma configs_phase:
  assumes "upsertRoomConfigs up p st rts db = Inr (x, db')" and "state_ok st"
    and "\<And>room cfg. mget (pc_RoomConfigs st) room = Some cfg \<Longrightarrow> resolved key rts db room (EncodeRequiredState c (rc_RequiredState cfg))"
    and "db_ok db" and "owner db p = Some key"
  shows "db_ok db' \<and> (\<exists>s. db' = db\<lparr>db_configs := s\<rparr> \<and>
    (\<forall>q room. case (if q = p then mget (pc_RoomConfigs st) room else None) of
       Some cfg \<Rightarrow> (\<exists>i. mget s (q, room) = Some \<lparr>cf_timeline_limit = rc_TimelineLimit cfg, cf_required_state_id = i\<rparr> \<and>
         mget (db_required db) i = Some \<lparr>rq_connection_key = key, rq_required_state = EncodeRequiredState c (rc_RequiredState cfg)\<rparr>)
     | None \<Rightarrow> mget s (q, room) = mget (db_configs db) (q, room)))"
proof (cases "pc_RoomConfigs st = []")
  case True
  with assms(1) have "db' = db" by (simp add: upsertRoomConfigs_def tx_simps)
  with True assms(4) show ?thesis by (intro conjI exI [of _ "db_configs db"]) simp_all
next
  case False
  let ?rooms = "sort (mkeys (pc_RoomConfigs st))"
  let ?row = "\<lambda>room. \<lparr>cf_timeline_limit = (case mget (pc_RoomConfigs st) room of None \<Rightarrow> 0 | Some cfg \<Rightarrow> rc_TimelineLimit cfg), cf_required_state_id = the (mget rts room)\<rparr>"
  let ?rows = "map (\<lambda>room. (room, ?row room)) ?rooms"
  have known: "\<exists>cfg. mget (pc_RoomConfigs st) room = Some cfg" if "room \<in> set ?rooms" for room
    using that by (metis image_set list.set_map map_of_eq_None_iff option.exhaust set_sort)
  have res: "\<exists>i. mget rts room = Some i" if "room \<in> set ?rooms" for room
    using known [OF that] assms(3) by (auto simp: resolved_def)
  let ?s = "fold (\<lambda>x. mput (p, fst x) (snd x)) ?rows (db_configs db)"
  have eq: "(\<lambda>(room, row). mput (p, room) row) = (\<lambda>x. mput (p, fst x) (snd x))" by (auto simp: fun_eq_iff)
  from assms(1) False configs_to_upsert_spec [of ?rooms rts "pc_RoomConfigs st", OF res]
  have db': "db' = db\<lparr>db_configs := ?s\<rparr>" by (auto simp: upsertRoomConfigs_def tx_simps eq split: if_splits)
  have row: "?row room = \<lparr>cf_timeline_limit = rc_TimelineLimit cfg, cf_required_state_id = the (mget rts room)\<rparr> \<and>
      mget (db_required db) (the (mget rts room)) = Some \<lparr>rq_connection_key = key, rq_required_state = EncodeRequiredState c (rc_RequiredState cfg)\<rparr>"
    if "mget (pc_RoomConfigs st) room = Some cfg" for room cfg
    using assms(3) [OF that] that by (auto simp: resolved_def)
  have "\<forall>(room, row) \<in> set ?rows. map_option rq_connection_key (mget (db_required db) (cf_required_state_id row)) = Some key"
  proof -
    have "map_option rq_connection_key (mget (db_required db) (cf_required_state_id (?row room))) = Some key" if "room \<in> set ?rooms" for room
    proof -
      from known [OF that] obtain cfg where "mget (pc_RoomConfigs st) room = Some cfg" ..
      from row [OF this] show ?thesis by simp
    qed
    then show ?thesis by auto
  qed
  from upsert_configs_ok [OF assms(4,5) this] have ok: "db_ok db'" unfolding db' eq .
  have d: "distinct (map (\<lambda>x. (p, fst x)) ?rows)"
  proof -
    have "map (\<lambda>x. (p, fst x)) ?rows = map (Pair p) ?rooms" by simp
    then show ?thesis using assms(2) by (simp add: distinct_map inj_on_def state_ok_def)
  qed
  have "case (if q = p then mget (pc_RoomConfigs st) room else None) of
       Some cfg \<Rightarrow> (\<exists>i. mget ?s (q, room) = Some \<lparr>cf_timeline_limit = rc_TimelineLimit cfg, cf_required_state_id = i\<rparr> \<and>
         mget (db_required db) i = Some \<lparr>rq_connection_key = key, rq_required_state = EncodeRequiredState c (rc_RequiredState cfg)\<rparr>)
     | None \<Rightarrow> mget ?s (q, room) = mget (db_configs db) (q, room)" for q room
  proof (cases "if q = p then mget (pc_RoomConfigs st) room else None")
    case None
    then have "(q, room) \<notin> (\<lambda>x. (p, fst x)) ` set ?rows" using known by (auto split: if_splits) (metis None map_of_eq_None_iff image_eqI fst_conv option.distinct(1))
    then show ?thesis unfolding None by (simp add: upsert_out)
  next
    case (Some cfg)
    then have q: "q = p" and cfg: "mget (pc_RoomConfigs st) room = Some cfg" by (auto split: if_splits)
    have "(room, ?row room) \<in> set ?rows" using map_of_SomeD [OF cfg] by (force simp: image_iff)
    from upsert_in [OF d this, of snd "db_configs db"] row [OF cfg] show ?thesis by (simp add: q cfg)
  qed
  with ok db' show ?thesis by blast
qed

lemma mget_copy:
  assumes "position \<notin> fst ` fst ` set m" and "position \<noteq> previous" and "mwf m"
  shows "mget (map (\<lambda>((pos, key), row). ((position, key), row)) (filter (\<lambda>((pos, key), row). pos = previous) m) @ m) (q, k) =
    (if q = position then mget m (previous, k) else mget m (q, k))"
proof -
  let ?m = "map (\<lambda>((pos, key), row). ((position, key), row)) (filter (\<lambda>((pos, key), row). pos = previous) m) @ m"
  have wf: "mwf ?m" by (rule copy_wf [OF assms(3,1)])
  have "mget ?m (q, k) = Some v \<longleftrightarrow> (if q = position then mget m (previous, k) else mget m (q, k)) = Some v" for v
    unfolding map_of_eq_Some_iff [OF wf] in_copy using assms(1) by (auto simp: map_of_eq_Some_iff [OF assms(3)]) force+
  then show ?thesis by (metis option.exhaust)
qed

lemma fresh_position:
  assumes "db_ok db"
  shows "db_next_position db \<notin> fst ` fst ` set (db_streams db) \<and> db_next_position db \<notin> fst ` fst ` set (db_configs db)"
proof -
  have n: "db_next_position db \<notin> fst ` set (db_positions db)" using assms by (force simp: db_ok_def ids_fresh_def)
  have 1: "fst (fst x) \<in> fst ` set (db_positions db)" if "x \<in> set (db_streams db)" for x
  proof -
    obtain a b e r where x: "x = ((a, b, e), r)" by (metis surj_pair)
    with that db_okD(8) [OF assms, of a b e r] show ?thesis by simp
  qed
  have 2: "fst (fst x) \<in> fst ` set (db_positions db)" if "x \<in> set (db_configs db)" for x
  proof -
    obtain a b r where x: "x = ((a, b), r)" by (metis surj_pair)
    with that db_okD(7) [OF assms, of a b r] db_okD(10) [OF assms] show ?thesis by auto
  qed
  have "fst ` fst ` set (db_streams db) \<subseteq> fst ` set (db_positions db)" "fst ` fst ` set (db_configs db) \<subseteq> fst ` set (db_positions db)"
    unfolding image_image image_subset_iff using 1 2 by blast+
  with n show ?thesis by blast
qed

lemma copy_phase:
  assumes "db_ok db" and "owner db p = Some key" and "p \<notin> fst ` fst ` set (db_streams db)" and "p \<notin> fst ` fst ` set (db_configs db)"
    and "prev \<noteq> 0 \<longrightarrow> owner db prev = Some key \<and> p \<noteq> prev"
  shows "db_ok (if prev \<noteq> 0 then copy_configs p prev (copy_streams p prev db) else db)" (is "db_ok ?db")
    and "owner (if prev \<noteq> 0 then copy_configs p prev (copy_streams p prev db) else db) = owner db"
    and "db_required (if prev \<noteq> 0 then copy_configs p prev (copy_streams p prev db) else db) = db_required db"
    and "db_connections (if prev \<noteq> 0 then copy_configs p prev (copy_streams p prev db) else db) = db_connections db"
    and "mget (db_streams (if prev \<noteq> 0 then copy_configs p prev (copy_streams p prev db) else db)) (p, k) = (if prev \<noteq> 0 then mget (db_streams db) (prev, k) else None)"
    and "mget (db_configs (if prev \<noteq> 0 then copy_configs p prev (copy_streams p prev db) else db)) (p, k') = (if prev \<noteq> 0 then mget (db_configs db) (prev, k') else None)"
    and "q \<noteq> p \<Longrightarrow> mget (db_streams (if prev \<noteq> 0 then copy_configs p prev (copy_streams p prev db) else db)) (q, k) = mget (db_streams db) (q, k)"
    and "q \<noteq> p \<Longrightarrow> mget (db_configs (if prev \<noteq> 0 then copy_configs p prev (copy_streams p prev db) else db)) (q, k') = mget (db_configs db) (q, k')"
proof -
  show "db_ok ?db"
  proof (cases "prev = 0")
    case False
    have "db_ok (copy_streams p prev db)" by (rule copy_streams_ok [OF assms(1-3)])
    then have "db_ok (copy_configs p prev (copy_streams p prev db))"
      by (rule copy_configs_ok) (use False assms(2,4,5) in \<open>simp_all add: copy_streams_def\<close>)
    with False show ?thesis by simp
  qed (simp add: assms(1))
  show "owner ?db = owner db" "db_required ?db = db_required db" "db_connections ?db = db_connections db"
    by (simp_all add: copy_streams_def copy_configs_def fun_eq_iff)
  have none: "mget (db_streams db) (p, k) = None" "mget (db_configs db) (p, k') = None"
    using assms(3,4) by (force simp: map_of_eq_None_iff)+
  show "mget (db_streams ?db) (p, k) = (if prev \<noteq> 0 then mget (db_streams db) (prev, k) else None)"
    using none(1) assms(5) mget_copy [OF assms(3) _ db_okD(5) [OF assms(1)], of prev p k] by (simp add: copy_streams_def copy_configs_def)
  show "mget (db_configs ?db) (p, k') = (if prev \<noteq> 0 then mget (db_configs db) (prev, k') else None)"
    using none(2) assms(5) mget_copy [OF assms(4) _ db_okD(4) [OF assms(1)], of prev p k'] by (simp add: copy_streams_def copy_configs_def)
  show "q \<noteq> p \<Longrightarrow> mget (db_streams ?db) (q, k) = mget (db_streams db) (q, k)"
    using assms(5) mget_copy [OF assms(3) _ db_okD(5) [OF assms(1)], of prev q k] by (simp add: copy_streams_def copy_configs_def)
  show "q \<noteq> p \<Longrightarrow> mget (db_configs ?db) (q, k') = mget (db_configs db) (q, k')"
    using assms(5) mget_copy [OF assms(4) _ db_okD(4) [OF assms(1)], of prev q k'] by (simp add: copy_streams_def copy_configs_def)
qed

text \<open>What a committed write left behind.\<close>

lemma persist_committed:
  assumes "Persist c up now db u d cid prev st = (db', Inr p)" and "HasUpdates st now" and "db_ok db" and "state_ok st"
  obtains key row where "db_ok db'" "owner db' p = Some key" "mget (db_connections db') key = Some row" "is_triple u d cid row" "0 < p" "p = db_next_position db"
    "prev \<noteq> 0 \<longrightarrow> owner db prev = Some key"
    "\<And>room name. mget (db_streams db') (p, room, name) =
      (case Option.bind (stream_map st name) (\<lambda>m. mget (RoomStatusMap_All m) room) of
         Some hs \<Rightarrow> Some (row_of_sent hs) | None \<Rightarrow> if prev \<noteq> 0 then mget (db_streams db) (prev, room, name) else None)"
    "\<And>room. case mget (pc_RoomConfigs st) room of
       Some cfg \<Rightarrow> (\<exists>i. mget (db_configs db') (p, room) = Some \<lparr>cf_timeline_limit = rc_TimelineLimit cfg, cf_required_state_id = i\<rparr> \<and>
         mget (db_required db') i = Some \<lparr>rq_connection_key = key, rq_required_state = EncodeRequiredState c (rc_RequiredState cfg)\<rparr>)
     | None \<Rightarrow> mget (db_configs db') (p, room) = (if prev \<noteq> 0 then mget (db_configs db) (prev, room) else None)"
    "prev \<noteq> 0 \<longrightarrow> (\<forall>i rq. mget (db_required db) i = Some rq \<longrightarrow> mget (db_required db') i = Some rq)"
    "rq_required_state ` snd ` set (db_required db') \<subseteq> rq_required_state ` snd ` set (db_required db) \<union> range (EncodeRequiredState c)"
    "prev \<noteq> 0 \<longrightarrow> (\<forall>q. q \<noteq> p \<longrightarrow> (\<forall>room name. mget (db_streams db') (q, room, name) = mget (db_streams db) (q, room, name)) \<and>
       (\<forall>room. mget (db_configs db') (q, room) = mget (db_configs db) (q, room))) \<and> (\<forall>q. q \<noteq> p \<longrightarrow> owner db' q = owner db q) \<and>
       db_connections db' = db_connections db"
proof -
  from assms(1,2) obtain key db1 where 1: "connectionKey up u d cid prev now db = Inr (key, db1)"
    by (auto simp: Persist_def transaction_def in_tx_def tx_simps split: sum.splits prod.splits if_splits)
  let ?db2 = "insert_position key now db1" and ?p = "db_next_position db1"
  from assms(1,2) 1 obtain rts db3 where 3: "resolveRequiredState c up key prev st ?db2 = Inr (rts, db3)"
    by (auto simp: Persist_def transaction_def in_tx_def tx_simps split: sum.splits prod.splits if_splits)
  let ?db4 = "if prev \<noteq> 0 then copy_configs ?p prev (copy_streams ?p prev db3) else db3"
  from assms(1,2) 1 3 obtain db5 where 5: "upsertStreams up ?p st ?db4 = Inr ((), db5)"
    by (auto simp: Persist_def transaction_def in_tx_def tx_simps copyForward_def split: sum.splits prod.splits if_splits)
  from assms(1,2) 1 3 5 obtain db6 where 6: "upsertRoomConfigs up ?p st rts db5 = Inr ((), db6)"
    by (auto simp: Persist_def transaction_def in_tx_def tx_simps copyForward_def split: sum.splits prod.splits if_splits)
  from assms(1,2) 1 3 5 6 have 7: "persistLazyMembers up key ?p st now db6 = Inr ((), db')" "p = ?p"
    by (auto simp: Persist_def transaction_def in_tx_def tx_simps copyForward_def split: sum.splits prod.splits if_splits)
  have c: "db_ok db1" "prev \<noteq> 0 \<longrightarrow> db1 = db \<and> owner db prev = Some key" "db_next_position db1 = db_next_position db"
    using connection_phase [OF 1 assms(3)] by blast+
  obtain row where row: "mget (db_connections db1) key = Some row" "is_triple u d cid row" using connection_phase [OF 1 assms(3)] by blast
  then have key1: "key \<in> fst ` set (db_connections db1)" by (metis map_of_SomeD fst_conv image_eqI)
  have 2: "db_ok ?db2" "owner ?db2 ?p = Some key" using insert_position_ok [OF c(1) key1] by simp_all
  have key2: "key \<in> fst ` set (db_connections ?db2)" using key1 by (simp add: insert_position_def)
  have r: "db_ok db3" "grows ?db2 db3"
    "\<And>room cfg. mget (pc_RoomConfigs st) room = Some cfg \<Longrightarrow> resolved key rts db3 room (EncodeRequiredState c (rc_RequiredState cfg))"
    using resolve_spec [OF 2(1) key2 _ 3] assms(4) by (auto simp: state_ok_def)
  note g = growsD [OF r(2)]
  have own3: "owner db3 ?p = Some key" using 2(2) g(6) by simp
  have same: "db_streams db3 = db_streams db1" "db_configs db3 = db_configs db1" using g(3,4) by (simp_all add: insert_position_def)
  have fresh: "?p \<notin> fst ` fst ` set (db_streams db3)" "?p \<notin> fst ` fst ` set (db_configs db3)"
    using fresh_position [OF c(1)] same by simp_all
  have prev: "owner db3 prev = Some key \<and> ?p \<noteq> prev \<and> db1 = db" if "prev \<noteq> 0"
  proof -
    from c(2) that have o: "owner db1 prev = Some key" and "db1 = db" by auto
    with db_okD(11) [OF c(1) o] have "?p \<noteq> prev" by auto
    with o \<open>db1 = db\<close> g(6) show ?thesis by (simp add: insert_position_def owner_def)
  qed
  have 4: "db_ok ?db4" "owner ?db4 = owner db3" "db_required ?db4 = db_required db3" "db_connections ?db4 = db_connections db3"
    and str4: "\<And>k. mget (db_streams ?db4) (?p, k) = (if prev \<noteq> 0 then mget (db_streams db) (prev, k) else None)"
    and cfg4: "\<And>k. mget (db_configs ?db4) (?p, k) = (if prev \<noteq> 0 then mget (db_configs db) (prev, k) else None)"
    and oth4: "\<And>q k. q \<noteq> ?p \<Longrightarrow> mget (db_streams ?db4) (q, k) = mget (db_streams db3) (q, k)" "\<And>q k. q \<noteq> ?p \<Longrightarrow> mget (db_configs ?db4) (q, k) = mget (db_configs db3) (q, k)"
    using copy_phase [OF r(1) own3 fresh, of prev] prev same by (auto split: if_splits)
  have own4: "owner ?db4 ?p = Some key" using 4(2) own3 by simp
  from streams_phase [OF 5 assms(4)] obtain s5 where s5: "db5 = ?db4\<lparr>db_streams := s5\<rparr>"
    "\<And>q room name. mget s5 (q, room, name) =
      (if q = ?p then (case Option.bind (stream_map st name) (\<lambda>m. mget (RoomStatusMap_All m) room) of
                        Some hs \<Rightarrow> Some (row_of_sent hs) | None \<Rightarrow> mget (db_streams ?db4) (q, room, name))
       else mget (db_streams ?db4) (q, room, name))" by blast
  have ok5: "db_ok db5" by (rule streams_phase_ok [OF 5 4(1) own4])
  have own5: "owner db5 ?p = Some key" using own4 s5(1) by simp
  have res5: "resolved key rts db5 room (EncodeRequiredState c (rc_RequiredState cfg))" if "mget (pc_RoomConfigs st) room = Some cfg" for room cfg
    using r(3) [OF that] 4(3) s5(1) by (simp add: resolved_def)
  from configs_phase [OF 6 assms(4) res5 ok5 own5] obtain s6 where s6: "db_ok db6" "db6 = db5\<lparr>db_configs := s6\<rparr>"
    "\<And>q room. case (if q = ?p then mget (pc_RoomConfigs st) room else None) of
       Some cfg \<Rightarrow> (\<exists>i. mget s6 (q, room) = Some \<lparr>cf_timeline_limit = rc_TimelineLimit cfg, cf_required_state_id = i\<rparr> \<and>
         mget (db_required db5) i = Some \<lparr>rq_connection_key = key, rq_required_state = EncodeRequiredState c (rc_RequiredState cfg)\<rparr>)
     | None \<Rightarrow> mget s6 (q, room) = mget (db_configs db5) (q, room)" by blast
  have own6: "owner db6 ?p = Some key" using own5 s6(2) by simp
  from lazy_phase [OF 7(1) s6(1) own6] obtain l where l: "db_ok db'" "db' = db6\<lparr>db_lazy := l\<rparr>" by blast
  have req: "db_required db' = db_required db3" "db_connections db' = db_connections db1" "db_streams db' = s5" "db_configs db' = s6"
    using l(2) s6(2) s5(1) 4(3,4) g(1) by (simp_all add: insert_position_def)
  show thesis
  proof (rule that [OF l(1)])
    show "owner db' p = Some key" using l(2) own6 7(2) by simp
    show "mget (db_connections db') key = Some row" "is_triple u d cid row" using row req(2) by simp_all
    show "0 < p" using c(1) 7(2) by (simp add: db_ok_def ids_fresh_def)
    show "p = db_next_position db" using 7(2) c(3) by simp
    show "prev \<noteq> 0 \<longrightarrow> owner db prev = Some key" using c(2) by simp
    show "mget (db_streams db') (p, room, name) =
      (case Option.bind (stream_map st name) (\<lambda>m. mget (RoomStatusMap_All m) room) of
         Some hs \<Rightarrow> Some (row_of_sent hs) | None \<Rightarrow> if prev \<noteq> 0 then mget (db_streams db) (prev, room, name) else None)" for room name
      unfolding req(3) 7(2) s5(2) str4 by simp
    show "case mget (pc_RoomConfigs st) room of
       Some cfg \<Rightarrow> (\<exists>i. mget (db_configs db') (p, room) = Some \<lparr>cf_timeline_limit = rc_TimelineLimit cfg, cf_required_state_id = i\<rparr> \<and>
         mget (db_required db') i = Some \<lparr>rq_connection_key = key, rq_required_state = EncodeRequiredState c (rc_RequiredState cfg)\<rparr>)
     | None \<Rightarrow> mget (db_configs db') (p, room) = (if prev \<noteq> 0 then mget (db_configs db) (prev, room) else None)" for room
    proof -
      have r5: "db_required db5 = db_required db3" "db_configs db5 = db_configs ?db4" using s5(1) 4(3) by simp_all
      show ?thesis using s6(3) [of ?p room] unfolding req(1,4) 7(2) r5 cfg4 by simp
    qed
    show "prev \<noteq> 0 \<longrightarrow> (\<forall>i rq. mget (db_required db) i = Some rq \<longrightarrow> mget (db_required db') i = Some rq)"
      using prev g(7) unfolding req(1) by (auto simp: insert_position_def)
    show "rq_required_state ` snd ` set (db_required db') \<subseteq> rq_required_state ` snd ` set (db_required db) \<union> range (EncodeRequiredState c)"
    proof -
      have "set (db_required db1) \<subseteq> set (db_required db)" using connection_phase [OF 1 assms(3)] by blast
      moreover have "db_required ?db2 = db_required db1" by (simp add: insert_position_def)
      ultimately have "rq_required_state ` snd ` set (db_required ?db2) \<subseteq> rq_required_state ` snd ` set (db_required db)" by (simp add: image_mono)
      with resolve_texts [OF 3] show ?thesis unfolding req(1) by blast
    qed
    show "prev \<noteq> 0 \<longrightarrow> (\<forall>q. q \<noteq> p \<longrightarrow> (\<forall>room name. mget (db_streams db') (q, room, name) = mget (db_streams db) (q, room, name)) \<and>
       (\<forall>room. mget (db_configs db') (q, room) = mget (db_configs db) (q, room))) \<and> (\<forall>q. q \<noteq> p \<longrightarrow> owner db' q = owner db q) \<and>
       db_connections db' = db_connections db"
    proof (intro impI conjI allI)
      fix q room name
      assume "prev \<noteq> 0"
      with prev have db: "db1 = db" by blast
      show "db_connections db' = db_connections db" using req(2) db by simp
      assume q: "q \<noteq> p"
      show "mget (db_streams db') (q, room, name) = mget (db_streams db) (q, room, name)"
        using q oth4(1) [of q "(room, name)"] same db unfolding req(3) 7(2) s5(2) by simp
      show "mget (db_configs db') (q, room) = mget (db_configs db) (q, room)"
        using q s6(3) [of q room] oth4(2) [of q room] same db unfolding req(4) 7(2) by (simp add: s5(1))
      have "owner db' q = owner ?db2 q" using l(2) s6(2) s5(1) 4(2) g(6) by simp
      with q db 7(2) show "owner db' q = owner db q" by (simp add: owner_def insert_position_def)
    qed
  qed
qed

subsection \<open>Reading back\<close>

text \<open>Every stored encoding can be read.\<close>

definition decodable :: "codec \<Rightarrow> gosync \<Rightarrow> bool" where
  "decodable c db \<longleftrightarrow> (\<forall>row \<in> snd ` set (db_required db). DecodeRequiredState c (rq_required_state row) \<noteq> None)"

definition lossless :: "codec \<Rightarrow> bool" where
  "lossless c \<longleftrightarrow> (\<forall>ps. cd_unmarshal c (cd_marshal c ps) = Some ps)"

lemma decodable_subset: "decodable c db \<Longrightarrow> set (db_required db') \<subseteq> set (db_required db) \<Longrightarrow> decodable c db'"
  unfolding decodable_def by blast

lemma encode_decodable: "lossless c \<Longrightarrow> DecodeRequiredState c (EncodeRequiredState c required) = Some (decode_loop (sort (state_pairs required)) [])"
  by (simp add: lossless_def DecodeRequiredState_def EncodeRequiredState_def)


lemma persist_ok:
  assumes "lossless c" and "db_ok db" and "decodable c db" and "state_ok st"
  shows "db_ok (fst (Persist c up now db u d cid prev st)) \<and> decodable c (fst (Persist c up now db u d cid prev st))"
proof -
  let ?r = "Persist c up now db u d cid prev st"
  show ?thesis
  proof (cases "\<not> HasUpdates st now \<or> isl (snd ?r)")
    case True
    then have "fst ?r = db" by (auto simp: Persist_def transaction_def split: sum.splits prod.splits)
    with assms show ?thesis by simp
  next
    case False
    then obtain p where r: "?r = (fst ?r, Inr p)" and u: "HasUpdates st now" by (cases "snd ?r") (auto simp: prod_eq_iff)
    have ok: "db_ok (fst ?r)" by (rule persist_committed [OF r u assms(2,4)])
    have texts: "rq_required_state ` snd ` set (db_required (fst ?r)) \<subseteq> rq_required_state ` snd ` set (db_required db) \<union> range (EncodeRequiredState c)"
      by (rule persist_committed [OF r u assms(2,4)])
    have "DecodeRequiredState c (rq_required_state row) \<noteq> None" if "row \<in> snd ` set (db_required (fst ?r))" for row
    proof -
      have "rq_required_state row \<in> rq_required_state ` snd ` set (db_required db) \<or> rq_required_state row \<in> range (EncodeRequiredState c)"
        using that texts by blast
      then show ?thesis
      proof
        assume "rq_required_state row \<in> rq_required_state ` snd ` set (db_required db)"
        then obtain row' where "row' \<in> snd ` set (db_required db)" "rq_required_state row = rq_required_state row'" by blast
        with assms(3) show ?thesis unfolding decodable_def by metis
      qed (use encode_decodable [OF assms(1)] in auto)
    qed
    with ok show ?thesis by (simp add: decodable_def)
  qed
qed

lemma stream_rows_lookup:
  assumes "mwf (db_streams db)"
  shows "mget (load_streams name (stream_rows p db)) room = map_option sent_of_row (mget (db_streams db) (p, room, name))"
proof -
  let ?rows = "filter (\<lambda>x. fst x = name) (stream_rows p db)"
  let ?f = "\<lambda>x. fst (snd x) :: string" and ?g = "\<lambda>x. sent_of_row (snd (snd x))"
  have "load_streams name (stream_rows p db) = fold (\<lambda>x. mput (?f x) (?g x)) ?rows []"
    unfolding load_streams_def fold_filter by (rule fold_cong) (auto simp: fun_eq_iff)
  moreover have mem: "(name, room, row) \<in> set ?rows \<longleftrightarrow> mget (db_streams db) (p, room, name) = Some row" for room row
    unfolding map_of_eq_Some_iff [OF assms] by (force simp: stream_rows_def)
  have "distinct (map ?f ?rows)"
  proof -
    have "distinct (map (\<lambda>((pos, room, stream), row). room) (filter (\<lambda>((pos, room, stream), row). pos = p \<and> stream = name) m))" if "mwf m" for m :: "(int \<times> string \<times> string, stream_row) gomap"
      using that by (induction m) (auto simp: image_iff)
    moreover have "map ?f ?rows = map (\<lambda>((pos, room, stream), row). room) (filter (\<lambda>((pos, room, stream), row). pos = p \<and> stream = name) (db_streams db))"
      by (simp add: stream_rows_def filter_map comp_def case_prod_unfold conj_commute)
    ultimately show ?thesis using assms by simp
  qed
  note into = upsert_in [OF this, of _ ?g "[]"]
  show ?thesis
  proof (cases "mget (db_streams db) (p, room, name)")
    case None
    then have "room \<notin> ?f ` set ?rows" using mem by (auto simp: image_iff)
    with calculation None show ?thesis by (simp add: upsert_out)
  next
    case (Some row)
    with mem have "(name, room, row) \<in> set ?rows" by blast
    from into [OF this] calculation Some show ?thesis by simp
  qed
qed

lemma config_rows_lookup:
  assumes "mwf (db_configs db)"
  shows "mget (load_configs rs (config_rows p db)) room =
    map_option (\<lambda>row. \<lparr>rc_TimelineLimit = cf_timeline_limit row, rc_RequiredState = mgetz [] rs (cf_required_state_id row)\<rparr>) (mget (db_configs db) (p, room))"
proof -
  let ?rows = "config_rows p db"
  let ?g = "\<lambda>x. \<lparr>rc_TimelineLimit = cf_timeline_limit (snd x), rc_RequiredState = mgetz [] rs (cf_required_state_id (snd x))\<rparr>"
  have eq: "load_configs rs ?rows = fold (\<lambda>x. mput (fst x) (?g x)) ?rows []" unfolding load_configs_def by (rule fold_cong) (auto simp: fun_eq_iff)
  have mem: "(room, row) \<in> set ?rows \<longleftrightarrow> mget (db_configs db) (p, room) = Some row" for room row
    unfolding map_of_eq_Some_iff [OF assms] by (force simp: config_rows_def)
  have "distinct (map (\<lambda>((pos, room), row). room) (filter (\<lambda>((pos, room), row). pos = p) m))" if "mwf m" for m :: "(int \<times> string, config_row) gomap"
    using that by (induction m) (auto simp: image_iff)
  from this [OF assms] have "distinct (map fst ?rows)" by (simp add: config_rows_def comp_def case_prod_unfold)
  note into = upsert_in [OF this, of _ ?g "[]"]
  show ?thesis
  proof (cases "mget (db_configs db) (p, room)")
    case None
    then have "room \<notin> fst ` set ?rows" using mem by (auto simp: image_iff)
    with None show ?thesis unfolding eq by (simp add: upsert_out)
  next
    case (Some row)
    with mem have "(room, row) \<in> set ?rows" by blast
    from into [OF this] Some show ?thesis unfolding eq by simp
  qed
qed

lemma decode_loop_keys: "keys_of (decode_loop ps out) t = keys_of out t \<union> {k. (t, k) \<in> set ps}"
  by (induction ps out rule: decode_loop.induct) auto

lemma state_pairs_keys:
  assumes "mwf required" and "\<forall>(t, ks) \<in> set required. finite ks"
  shows "{k. (t, k) \<in> set (state_pairs required)} = keys_of required t"
proof -
  have mem: "(t, k) \<in> set (state_pairs required) \<longleftrightarrow> (\<exists>ks. mget required t = Some ks \<and> k \<in> set (sorted_list_of_set ks))" for k
    unfolding map_of_eq_Some_iff [OF assms(1)] by (auto simp: state_pairs_def)
  show ?thesis
  proof (cases "mget required t")
    case None
    then show ?thesis by (simp add: mem mgetz_def)
  next
    case (Some ks)
    with assms(2) have "finite ks" by (auto dest: map_of_SomeD)
    with Some show ?thesis by (simp add: mem mgetz_def)
  qed
qed

lemma decoded_lookup:
  assumes "mwf (db_required db)" and "mget (db_required db) i = Some \<lparr>rq_connection_key = key, rq_required_state = text\<rparr>"
  shows "mgetz [] (decoded c key db) i = the (DecodeRequiredState c text)"
proof -
  let ?rows = "required_rows key db"
  have eq: "decoded c key db = fold (\<lambda>x. mput (fst x) (the (DecodeRequiredState c (snd x)))) ?rows []"
    unfolding decoded_def by (rule fold_cong) (auto simp: fun_eq_iff)
  have "distinct (map fst (filter (\<lambda>(i, row). rq_connection_key row = key) (db_required db)))" using assms(1) by (rule mwf_filter)
  then have "distinct (map fst ?rows)" by (simp add: required_rows_def comp_def case_prod_unfold)
  moreover have "(i, text) \<in> set ?rows" using map_of_SomeD [OF assms(2)] by (force simp: required_rows_def)
  ultimately have "mget (decoded c key db) i = Some (the (DecodeRequiredState c text))" unfolding eq
    using upsert_in [of fst ?rows "(i, text)" "\<lambda>x. the (DecodeRequiredState c (snd x))" "[]"] by simp
  then show ?thesis by (simp add: mgetz_def)
qed

text \<open>A read leaves the rows of the position it reads.\<close>

lemma read_state_rows:
  assumes "db_ok db" and "owner db p = Some key"
  shows "mget (db_streams (read_state key p l now db)) (p, k) = mget (db_streams db) (p, k)"
    and "mget (db_configs (read_state key p l now db)) (p, room) = mget (db_configs db) (p, room)"
    and "db_required (read_state key p l now db) = db_required db"
proof -
  let ?db1 = "if (case l of None \<Rightarrow> True | Some t \<Rightarrow> now - t > UpdateLastUsedIntervalMS) then touch_connection key now db else db"
  have t: "db_streams ?db1 = db_streams db" "db_configs ?db1 = db_configs db" "db_required ?db1 = db_required db" "db_positions ?db1 = db_positions db"
    by (simp_all add: touch_connection_def)
  have gone: "p \<notin> fst ` set (filter (\<lambda>(pos, row). po_connection_key row = key \<and> pos \<noteq> p) (db_positions db))" by auto
  show "mget (db_streams (read_state key p l now db)) (p, k) = mget (db_streams db) (p, k)"
    unfolding read_state_def promote_lazy_def drop_positions_def t Let_def using gone
    by (simp add: mget_filter [OF db_okD(5) [OF assms(1)]] case_prod_unfold split: option.split)
  show "mget (db_configs (read_state key p l now db)) (p, room) = mget (db_configs db) (p, room)"
    unfolding read_state_def promote_lazy_def drop_positions_def t Let_def using gone
    by (simp add: mget_filter [OF db_okD(4) [OF assms(1)]] case_prod_unfold split: option.split)
  show "db_required (read_state key p l now db) = db_required db" by (simp add: read_state_def promote_lazy_def t)
qed

text \<open>When every statement works and every text can be read, so does a read of one's own position.\<close>

lemma read_total:
  assumes "db_ok db" and "decodable c db" and "owned_position db u d cid p = Some (key, l)" and "p \<noteq> 0"
  shows "\<exists>db' st. GetAndClear c (\<lambda>_. True) now db u d cid p = (db', Inr st)"
proof -
  let ?db = "read_state key p l now db"
  have "\<forall>(i, t) \<in> set (required_rows key ?db). DecodeRequiredState c t \<noteq> None"
    using assms(2) read_state_rows(3) [OF assms(1) owned_owner [OF assms(3)]] unfolding decodable_def required_rows_def by (force simp: image_iff)
  then have "decode_rows c (required_rows key ?db) [] ?db = Inr (decoded c key ?db, ?db)" by (simp add: decode_rows_Inr decoded_def)
  then have "\<exists>st db'. loadState c (\<lambda>_. True) key p ?db = Inr (st, db')" by (auto simp: loadState_def tx_simps Let_def)
  with assms(3,4) show ?thesis by (auto simp: GetAndClear_def transaction_def in_tx_def tx_simps read_state_def)
qed

section \<open>Properties\<close>

text \<open>The stores the worker can be in: it opens an empty one, and every operation may fail at any statement.\<close>

inductive store_reach :: "codec \<Rightarrow> gosync \<Rightarrow> bool" for c :: codec where
  opened: "store_reach c no_rows"
| written: "store_reach c db \<Longrightarrow> state_ok st \<Longrightarrow> store_reach c (fst (Persist c up now db u d cid prev st))"
| read: "store_reach c db \<Longrightarrow> store_reach c (fst (GetAndClear c up now db u d cid position))"
| reaped: "store_reach c db \<Longrightarrow> store_reach c (fst (DeleteOldConnections up now db))"

lemma no_rows_ok: "db_ok no_rows \<and> decodable c no_rows"
  by (simp add: db_ok_def keys_unique_def ids_fresh_def refs_ok_def one_each_def decodable_def no_rows_def)

lemma read_required: "set (db_required (fst (GetAndClear c up now db u d cid position))) \<subseteq> set (db_required db)" if "db_ok db"
proof -
  let ?r = "GetAndClear c up now db u d cid position"
  show ?thesis
  proof (cases "position = 0 \<or> isl (snd ?r)")
    case True
    then have "fst ?r = db" by (auto simp: GetAndClear_def transaction_def split: sum.splits prod.splits)
    then show ?thesis by simp
  next
    case False
    then obtain st where "?r = (fst ?r, Inr st)" "position \<noteq> 0" by (cases "snd ?r") (auto simp: prod_eq_iff)
    then obtain key l where k: "owned_position db u d cid position = Some (key, l)"
      "fst ?r = drop_unused key position (read_state key position l now db)" by (rule get_and_clear_committed) blast
    then show ?thesis using read_state_rows(3) [OF that owned_owner [OF k(1)]] by (auto simp: drop_unused_def)
  qed
qed

lemma drop_connections_required: "set (db_required (drop_connections P db)) \<subseteq> set (db_required db)"
  by (auto simp: drop_connections_def Let_def)

lemma reach_ok:
  assumes "lossless c" and "store_reach c db"
  shows "db_ok db \<and> decodable c db"
  using assms(2)
proof induction
  case opened
  show ?case by (rule no_rows_ok)
next
  case (written db st up now u d cid prev)
  then show ?case using persist_ok [OF assms(1)] by blast
next
  case (read db up now u d cid position)
  then show ?case using get_and_clear_ok decodable_subset [OF _ read_required] by blast
next
  case (reaped db up now)
  then show ?case using drop_connections_ok decodable_subset [OF _ drop_connections_required] by (auto simp: DeleteOldConnections_def Let_def)
qed

text \<open>
  C22. The constraints of the schema never fire. Whatever the requests, in whatever order, and whichever
  statements fail on the way, the tables keep their unique keys and their references, a row never refers to
  another connection's row, there is one connection per user, device and connection id, and every stored
  required state can be read back.
\<close>

theorem store_constraints_hold:
  assumes "lossless c" and "store_reach c db"
  shows "keys_unique db \<and> refs_ok db \<and> one_each db \<and> decodable c db"
  using reach_ok [OF assms] by (simp add: db_ok_def)

text \<open>What a state may hold: only a \<^verbatim>\<open>previously\<close> flag has a token, and state key sets are finite.\<close>

definition plain_sent :: "HaveSent \<Rightarrow> bool" where
  "plain_sent hs \<longleftrightarrow> hs_Status hs = FlagPreviously \<or> hs_LastToken hs = []"

definition state_plain :: "PerConnectionState \<Rightarrow> bool" where
  "state_plain st \<longleftrightarrow> state_ok st \<and>
     (\<forall>m \<in> {pc_Rooms st, pc_Receipts st, pc_AccountData st}. \<forall>hs \<in> snd ` (set (rsm_base m) \<union> set (rsm_updates m)). plain_sent hs) \<and>
     (\<forall>cfg \<in> snd ` set (pc_RoomConfigs st). mwf (rc_RequiredState cfg) \<and> (\<forall>(t, ks) \<in> set (rc_RequiredState cfg). finite ks))"

definition told :: "gosync \<Rightarrow> int \<Rightarrow> string \<Rightarrow> string \<Rightarrow> HaveSent" where
  "told db position name room = (if position = 0 then Never
     else (case mget (db_streams db) (position, room, name) of Some row \<Rightarrow> sent_of_row row | None \<Rightarrow> Never))"

lemma sent_row_sent: "plain_sent hs \<Longrightarrow> sent_of_row (row_of_sent hs) = hs"
  by (cases hs) (auto simp: plain_sent_def sent_of_row_def row_of_sent_def)

lemma loaded_sent:
  assumes "mwf (db_streams db)" and "p \<noteq> 0"
  shows "HaveSentRoom (NewRoomStatusMap (load_streams name (stream_rows p db))) room = told db p name room"
  using assms by (simp add: HaveSentRoom_def NewRoomStatusMap_def stream_rows_lookup told_def split: option.split)

lemma owned_of_row:
  assumes "owner db p = Some key" and "mget (db_connections db) key = Some row"
  shows "owned_position db u d cid p = (if is_triple u d cid row then Some (key, cn_last_used_ts row) else None)"
  using assms by (auto simp: owned_position_def owner_def is_triple_def)

lemma read_own:
  assumes "db_ok db" and "decodable c db" and "owned_position db u d cid p = Some (key, l)" and "p \<noteq> 0"
  obtains db' st where "GetAndClear c (\<lambda>_. True) now db u d cid p = (db', Inr st)" "pc_LastUsedMS st = l"
    "\<And>name m room. stream_map st name = Some m \<Longrightarrow> HaveSentRoom m room = told db p name room"
    "\<And>room. mget (pc_RoomConfigs st) room =
       map_option (\<lambda>row. \<lparr>rc_TimelineLimit = cf_timeline_limit row, rc_RequiredState = mgetz [] (decoded c key db) (cf_required_state_id row)\<rparr>) (mget (db_configs db) (p, room))"
proof -
  from read_total [OF assms] obtain db' st where run: "GetAndClear c (\<lambda>_. True) now db u d cid p = (db', Inr st)" by blast
  let ?db = "read_state key p l now db"
  have st: "st = (loaded (decoded c key ?db) p ?db)\<lparr>pc_LastUsedMS := l\<rparr>"
    by (rule get_and_clear_committed [OF run assms(4)]) (use assms(3) in simp)
  note own = owned_owner [OF assms(3)]
  note rows = read_state_rows [OF assms(1) own]
  have ok: "db_ok ?db" using read_state_sole [OF assms(1) own] by (simp add: sole_def)
  have dec: "decoded c key ?db = decoded c key db" by (simp add: decoded_def required_rows_def rows(3))
  have told: "told ?db p name room = told db p name room" for name room by (simp add: told_def rows(1))
  show thesis
  proof (rule that [OF run])
    show "pc_LastUsedMS st = l" by (simp add: st)
    show "HaveSentRoom m room = told db p name room" if "stream_map st name = Some m" for name m room
      using that unfolding told [symmetric] by (auto simp: st stream_map_def loaded_def loaded_sent [OF db_okD(5) [OF ok] assms(4)] split: if_splits)
    show "mget (pc_RoomConfigs st) room =
       map_option (\<lambda>row. \<lparr>rc_TimelineLimit = cf_timeline_limit row, rc_RequiredState = mgetz [] (decoded c key db) (cf_required_state_id row)\<rparr>) (mget (db_configs db) (p, room))" for room
      by (simp add: st loaded_def config_rows_lookup [OF db_okD(4) [OF ok]] dec rows(2))
  qed
qed

lemma state_plainD:
  assumes "state_plain st"
  shows "stream_map st name = Some m \<Longrightarrow> mget (RoomStatusMap_All m) room = Some hs \<Longrightarrow> plain_sent hs"
    and "mget (pc_RoomConfigs st) room = Some cfg \<Longrightarrow> mwf (rc_RequiredState cfg) \<and> (\<forall>(t, ks) \<in> set (rc_RequiredState cfg). finite ks)"
    and "state_ok st"
proof -
  show "state_ok st" using assms by (simp add: state_plain_def)
  show "mwf (rc_RequiredState cfg) \<and> (\<forall>(t, ks) \<in> set (rc_RequiredState cfg). finite ks)" if "mget (pc_RoomConfigs st) room = Some cfg"
    using assms map_of_SomeD [OF that] unfolding state_plain_def by force
  show "plain_sent hs" if m: "stream_map st name = Some m" and hs: "mget (RoomStatusMap_All m) room = Some hs"
  proof -
    have "m \<in> {pc_Rooms st, pc_Receipts st, pc_AccountData st}" using m by (auto simp: stream_map_def split: if_splits)
    moreover from this have "mwf (rsm_base m)" "mwf (rsm_updates m)" using assms by (auto simp: state_plain_def state_ok_def)
    then have "mget (rsm_updates m) room = Some hs \<or> mget (rsm_base m) room = Some hs"
      using hs by (auto simp: All_lookup split: option.splits)
    then have "hs \<in> snd ` (set (rsm_base m) \<union> set (rsm_updates m))" by (metis UnI1 UnI2 image_eqI map_of_SomeD snd_conv)
    ultimately show ?thesis using assms unfolding state_plain_def by blast
  qed
qed

text \<open>
  C21. A state written is the state read back. After \<^verbatim>\<open>Persist\<close> has returned a position, reading that
  position gives, for each of the three streams and every room, the flag and the token the state held for
  it, or what the previous position said when the state is silent about the room; and each room
  configuration has its timeline limit and, for every event type, exactly its state keys. The encoding of
  the pairs is only assumed to be inverted by its decoding.
\<close>

theorem written_state_is_read_back:
  assumes "lossless c" and "store_reach c db" and "state_plain st" and "HasUpdates st now" and "Persist c up now db u d cid prev st = (db1, Inr p)"
  shows "\<exists>db2 st'. GetAndClear c (\<lambda>_. True) now' db1 u d cid p = (db2, Inr st') \<and>
    (\<forall>name m m' room. stream_map st name = Some m \<and> stream_map st' name = Some m' \<longrightarrow>
       HaveSentRoom m' room = (case mget (RoomStatusMap_All m) room of Some hs \<Rightarrow> hs | None \<Rightarrow> told db prev name room)) \<and>
    (\<forall>room cfg. mget (pc_RoomConfigs st) room = Some cfg \<longrightarrow>
       (\<exists>cfg'. mget (pc_RoomConfigs st') room = Some cfg' \<and> rc_TimelineLimit cfg' = rc_TimelineLimit cfg \<and>
          (\<forall>t. keys_of (rc_RequiredState cfg') t = keys_of (rc_RequiredState cfg) t)))"
proof -
  note plain = state_plainD [OF assms(3)]
  have ok: "db_ok db" using reach_ok [OF assms(1,2)] by blast
  have "store_reach c db1" using written [OF assms(2) plain(3), of up now u d cid prev] assms(5) by simp
  from reach_ok [OF assms(1) this] have ok1: "db_ok db1" "decodable c db1" by blast+
  obtain key row where k: "owner db1 p = Some key" "mget (db_connections db1) key = Some row" "is_triple u d cid row" "0 < p"
    and streams: "\<And>room name. mget (db_streams db1) (p, room, name) =
      (case Option.bind (stream_map st name) (\<lambda>m. mget (RoomStatusMap_All m) room) of
         Some hs \<Rightarrow> Some (row_of_sent hs) | None \<Rightarrow> if prev \<noteq> 0 then mget (db_streams db) (prev, room, name) else None)"
    and configs: "\<And>room. case mget (pc_RoomConfigs st) room of
       Some cfg \<Rightarrow> (\<exists>i. mget (db_configs db1) (p, room) = Some \<lparr>cf_timeline_limit = rc_TimelineLimit cfg, cf_required_state_id = i\<rparr> \<and>
         mget (db_required db1) i = Some \<lparr>rq_connection_key = key, rq_required_state = EncodeRequiredState c (rc_RequiredState cfg)\<rparr>)
     | None \<Rightarrow> mget (db_configs db1) (p, room) = (if prev \<noteq> 0 then mget (db_configs db) (prev, room) else None)"
    by (rule persist_committed [OF assms(5,4) ok plain(3)]) blast
  have own: "owned_position db1 u d cid p = Some (key, cn_last_used_ts row)" using owned_of_row [OF k(1,2)] k(3) by simp
  from k(4) have p0: "p \<noteq> 0" by simp
  obtain db2 st' where run: "GetAndClear c (\<lambda>_. True) now' db1 u d cid p = (db2, Inr st')"
    and sent: "\<And>name m room. stream_map st' name = Some m \<Longrightarrow> HaveSentRoom m room = told db1 p name room"
    and cfgs: "\<And>room. mget (pc_RoomConfigs st') room =
       map_option (\<lambda>row. \<lparr>rc_TimelineLimit = cf_timeline_limit row, rc_RequiredState = mgetz [] (decoded c key db1) (cf_required_state_id row)\<rparr>) (mget (db_configs db1) (p, room))"
    by (rule read_own [OF ok1 own p0]) blast
  have "HaveSentRoom m' room = (case mget (RoomStatusMap_All m) room of Some hs \<Rightarrow> hs | None \<Rightarrow> told db prev name room)"
    if "stream_map st name = Some m" "stream_map st' name = Some m'" for name m m' room
    unfolding sent [OF that(2)] using p0 streams [of room name] plain(1) [OF that(1), of room]
    by (auto simp: told_def that(1) sent_row_sent split: option.split)
  moreover have "\<exists>cfg'. mget (pc_RoomConfigs st') room = Some cfg' \<and> rc_TimelineLimit cfg' = rc_TimelineLimit cfg \<and>
      (\<forall>t. keys_of (rc_RequiredState cfg') t = keys_of (rc_RequiredState cfg) t)" if cfg: "mget (pc_RoomConfigs st) room = Some cfg" for room cfg
  proof -
    from configs [of room] cfg obtain i where i: "mget (db_configs db1) (p, room) = Some \<lparr>cf_timeline_limit = rc_TimelineLimit cfg, cf_required_state_id = i\<rparr>"
      "mget (db_required db1) i = Some \<lparr>rq_connection_key = key, rq_required_state = EncodeRequiredState c (rc_RequiredState cfg)\<rparr>" by auto
    have "keys_of (mgetz [] (decoded c key db1) i) t = keys_of (rc_RequiredState cfg) t" for t
      using plain(2) [OF cfg] by (simp add: decoded_lookup [OF db_okD(3) [OF ok1(1)] i(2)] encode_decodable [OF assms(1)] decode_loop_keys state_pairs_keys)
    with i(1) show ?thesis by (simp add: cfgs)
  qed
  ultimately show ?thesis using run by blast
qed

text \<open>
  A response that is lost can be asked for again. Writing a new position on top of \<open>prev\<close> does not change
  what \<open>prev\<close> says: when the client never saw the new position and sends the old one again, it gets the same
  flags, tokens and configurations as before the write.
\<close>

theorem old_position_still_reads:
  assumes "lossless c" and "store_reach c db" and "state_ok st" and "prev \<noteq> 0" and "Persist c up now db u d cid prev st = (db1, Inr p)"
    and "GetAndClear c (\<lambda>_. True) now' db u d cid prev = (db2, Inr old)"
  shows "\<exists>db3 again. GetAndClear c (\<lambda>_. True) now' db1 u d cid prev = (db3, Inr again) \<and> pc_LastUsedMS again = pc_LastUsedMS old \<and>
    (\<forall>name m m' room. stream_map old name = Some m \<and> stream_map again name = Some m' \<longrightarrow> HaveSentRoom m' room = HaveSentRoom m room) \<and>
    (\<forall>room. mget (pc_RoomConfigs again) room = mget (pc_RoomConfigs old) room)"
proof (cases "HasUpdates st now")
  case False
  with assms(5) have "db1 = db" by (simp add: Persist_def)
  with assms(6) show ?thesis by auto
next
  case True
  have ok: "db_ok db" "decodable c db" using reach_ok [OF assms(1,2)] by blast+
  have "store_reach c db1" using written [OF assms(2,3), of up now u d cid prev] assms(5) by simp
  from reach_ok [OF assms(1) this] have ok1: "db_ok db1" "decodable c db1" by blast+
  obtain key l where own: "owned_position db u d cid prev = Some (key, l)" by (rule get_and_clear_committed [OF assms(6,4)])
  have pnew: "p = db_next_position db" and req: "\<And>i rq. mget (db_required db) i = Some rq \<Longrightarrow> mget (db_required db1) i = Some rq"
    and rows: "\<And>q room name. q \<noteq> p \<Longrightarrow> mget (db_streams db1) (q, room, name) = mget (db_streams db) (q, room, name)"
      "\<And>q room. q \<noteq> p \<Longrightarrow> mget (db_configs db1) (q, room) = mget (db_configs db) (q, room)"
    and owns: "\<And>q. q \<noteq> p \<Longrightarrow> owner db1 q = owner db q" and conns: "db_connections db1 = db_connections db"
    using assms(4) by (rule_tac persist_committed [OF assms(5) True ok(1) assms(3)]; blast)+
  have "prev \<noteq> p" using owned_owner [OF own] ok(1) unfolding pnew by (auto simp: owner_in db_ok_def ids_fresh_def dest!: map_of_SomeD)
  note same = rows(1) [OF this] rows(2) [OF this] owns [OF this]
  have own1: "owned_position db1 u d cid prev = Some (key, l)"
    using own same(3) by (auto simp: owned_position_def owner_def conns split: option.splits if_splits)
  obtain db3 again where run: "GetAndClear c (\<lambda>_. True) now' db1 u d cid prev = (db3, Inr again)" "pc_LastUsedMS again = l"
    and sent: "\<And>name m room. stream_map again name = Some m \<Longrightarrow> HaveSentRoom m room = told db1 prev name room"
    and cfgs: "\<And>room. mget (pc_RoomConfigs again) room =
       map_option (\<lambda>row. \<lparr>rc_TimelineLimit = cf_timeline_limit row, rc_RequiredState = mgetz [] (decoded c key db1) (cf_required_state_id row)\<rparr>) (mget (db_configs db1) (prev, room))"
    by (rule read_own [OF ok1 own1 assms(4)]) blast
  obtain db3' old' where run': "GetAndClear c (\<lambda>_. True) now' db u d cid prev = (db3', Inr old')" "pc_LastUsedMS old' = l"
    and sent': "\<And>name m room. stream_map old' name = Some m \<Longrightarrow> HaveSentRoom m room = told db prev name room"
    and cfgs': "\<And>room. mget (pc_RoomConfigs old') room =
       map_option (\<lambda>row. \<lparr>rc_TimelineLimit = cf_timeline_limit row, rc_RequiredState = mgetz [] (decoded c key db) (cf_required_state_id row)\<rparr>) (mget (db_configs db) (prev, room))"
    by (rule read_own [OF ok own assms(4)]) blast
  have [simp]: "old' = old" using run'(1) assms(6) by simp
  have "mgetz [] (decoded c key db1) (cf_required_state_id row) = mgetz [] (decoded c key db) (cf_required_state_id row)"
    if row: "mget (db_configs db) (prev, room) = Some row" for room row
  proof -
    from db_okD(7) [OF ok(1) map_of_SomeD [OF row]] owned_owner [OF own] obtain rq where
      "mget (db_required db) (cf_required_state_id row) = Some rq" "rq_connection_key rq = key" by auto
    then have rq: "mget (db_required db) (cf_required_state_id row) = Some \<lparr>rq_connection_key = key, rq_required_state = rq_required_state rq\<rparr>" by (cases rq) simp
    show ?thesis by (simp add: decoded_lookup [OF db_okD(3) [OF ok(1)] rq] decoded_lookup [OF db_okD(3) [OF ok1(1)] req [OF rq]])
  qed
  then have "mget (pc_RoomConfigs again) room = mget (pc_RoomConfigs old) room" for room
    using cfgs' [of room] by (simp add: cfgs same(2)) (cases "mget (db_configs db) (prev, room)", simp_all)
  moreover have "told db1 prev name room = told db prev name room" for name room by (simp add: told_def same(1))
  ultimately show ?thesis using run run'(2) sent sent' by auto
qed

text \<open>
  Using a position acknowledges it. After a successful read the position is the only one left of its
  connection, no lazily sent member of the connection is pending any more, and the required states kept for
  the connection are exactly those its room configurations use.
\<close>

theorem read_acknowledges:
  assumes "lossless c" and "store_reach c db" and "p \<noteq> 0" and "GetAndClear c up now db u d cid p = (db', Inr st)"
  shows "\<exists>key. {q. owner db' q = Some key} = {p} \<and>
    (\<forall>room user row. mget (db_lazy db') (key, room, user) = Some row \<longrightarrow> lz_connection_position row = None) \<and>
    {i. map_option rq_connection_key (mget (db_required db') i) = Some key} = (cf_required_state_id \<circ> snd) ` set (config_rows p db')"
proof -
  have ok: "db_ok db" using reach_ok [OF assms(1,2)] by blast
  obtain key l where k: "owned_position db u d cid p = Some (key, l)" "db' = drop_unused key p (read_state key p l now db)"
    by (rule get_and_clear_committed [OF assms(4,3)])
  let ?r = "read_state key p l now db"
  have r: "sole key p ?r" by (rule read_state_sole [OF ok owned_owner [OF k(1)]])
  then have s: "sole key p db'" unfolding k(2) by (rule drop_unused_sole)
  then have ok': "db_ok db'" and only: "\<And>q. owner db' q = Some key \<longleftrightarrow> q = p" by (auto simp: sole_def)
  have "lz_connection_position row = None" if row: "mget (db_lazy db') (key, room, user) = Some row" for room user row
  proof (rule ccontr)
    assume "lz_connection_position row \<noteq> None"
    then obtain q where q: "lz_connection_position row = Some q" by auto
    from ok' map_of_SomeD [OF row] q have "owner db' q = Some key" unfolding db_ok_def refs_ok_iff by blast
    then have "q = p" by (simp add: only)
    moreover have "lz_connection_position row \<noteq> Some p"
      using map_of_SomeD [OF row] unfolding k(2) by (auto simp: drop_unused_def read_state_def promote_lazy_def split: if_splits)
    ultimately show False using q by simp
  qed
  moreover have "map_option rq_connection_key (mget (db_required db') i) = Some key \<longleftrightarrow> i \<in> (cf_required_state_id \<circ> snd) ` set (config_rows p db')" for i
  proof
    have cr: "config_rows p db' = config_rows p ?r" unfolding k(2) by (simp add: drop_unused_def config_rows_def)
    assume "map_option rq_connection_key (mget (db_required db') i) = Some key"
    then obtain rq where "mget (db_required db') i = Some rq" "rq_connection_key rq = key" by auto
    from map_of_SomeD [OF this(1)] this(2) show "i \<in> (cf_required_state_id \<circ> snd) ` set (config_rows p db')"
      unfolding cr unfolding k(2) by (auto simp: drop_unused_def)
  next
    assume "i \<in> (cf_required_state_id \<circ> snd) ` set (config_rows p db')"
    then obtain room row where "((p, room), row) \<in> set (db_configs db')" "i = cf_required_state_id row" by (auto simp: config_rows_def)
    with db_okD(7) [OF ok', of p room row] only [of p] show "map_option rq_connection_key (mget (db_required db') i) = Some key" by auto
  qed
  ultimately show ?thesis using only by (intro exI [of _ key]) auto
qed

text \<open>
  C23. A position is only good for the connection it was written for. Another user, another device of the same
  user, or another connection id gets an error from reading it and from writing on top of it, and the store is
  left as it was; when no statement fails the error is that the position is unknown.
\<close>

theorem position_is_private:
  assumes "lossless c" and "store_reach c db" and "state_ok st" and "HasUpdates st now" and "Persist c up now db u d cid prev st = (db1, Inr p)"
    and "(u', d', cid') \<noteq> (u, d, cid)" and "HasUpdates st' now'"
  shows "GetAndClear c (\<lambda>_. True) now' db1 u' d' cid' p = (db1, Inl ErrUnknownPosition) \<and>
    Persist c (\<lambda>_. True) now' db1 u' d' cid' p st' = (db1, Inl ErrUnknownPosition) \<and>
    (\<forall>up'. \<exists>e e'. GetAndClear c up' now' db1 u' d' cid' p = (db1, Inl e) \<and> Persist c up' now' db1 u' d' cid' p st' = (db1, Inl e'))"
proof -
  have ok: "db_ok db" using reach_ok [OF assms(1,2)] by blast
  obtain key row where k: "owner db1 p = Some key" "mget (db_connections db1) key = Some row" "is_triple u d cid row" "0 < p"
    by (rule persist_committed [OF assms(5,4) ok assms(3)]) blast
  have "\<not> is_triple u' d' cid' row" using k(3) assms(6) by (auto simp: is_triple_def)
  then have "owned_position db1 u' d' cid' p = None" using owned_of_row [OF k(1,2)] by simp
  then show ?thesis using k(4) assms(7)
    by (auto simp: GetAndClear_def Persist_def connectionKey_def transaction_def in_tx_def tx_simps)
qed

subsection \<open>The ledger of a stream\<close>

lemma have_sent_set: "HaveSentRoom (rsm_set m room hs) r = (if r = room then hs else HaveSentRoom m r)"
  by (simp add: HaveSentRoom_def rsm_set_def split: option.split)

lemma flags_differ: "FlagPreviously \<noteq> FlagLive" "FlagNever \<noteq> FlagLive" "FlagNever \<noteq> FlagPreviously"
  by (simp_all add: FlagPreviously_def FlagLive_def FlagNever_def)

lemma record_sent: "HaveSentRoom (RecordSentRooms m rooms) r =
    (if r \<in> set rooms \<and> hs_Status (HaveSentRoom m r) \<noteq> FlagLive then Sent_Live else HaveSentRoom m r)"
  by (induction m rooms rule: RecordSentRooms.induct) (auto simp: have_sent_set Sent_Live_def)

lemma record_unsent: "HaveSentRoom (RecordUnsentRooms m rooms t) r =
    (if r \<in> set rooms \<and> hs_Status (HaveSentRoom m r) = FlagLive then Previously t else HaveSentRoom m r)"
  by (induction m rooms t rule: RecordUnsentRooms.induct) (auto simp: have_sent_set Previously_def flags_differ)

text \<open>
  C24. The token from which a room resumes is the first one at which it fell behind. A live room marked unsent
  in one response, and again in any number of later ones before it is sent, keeps the token of the first; a
  room never sent stays so; and once sent it is live again.
\<close>

theorem resume_from_first_gap:
  "HaveSentRoom (fold (\<lambda>(rooms, t) m. RecordUnsentRooms m rooms t) gaps m) room =
     (if hs_Status (HaveSentRoom m room) = FlagLive
      then (case find (\<lambda>(rooms, t). room \<in> set rooms) gaps of Some (rooms, t) \<Rightarrow> Previously t | None \<Rightarrow> HaveSentRoom m room)
      else HaveSentRoom m room) \<and>
   hs_Status (HaveSentRoom (RecordSentRooms (fold (\<lambda>(rooms, t) m. RecordUnsentRooms m rooms t) gaps m) [room]) room) = FlagLive"
proof -
  have "HaveSentRoom (fold (\<lambda>(rooms, t) m. RecordUnsentRooms m rooms t) gaps m) room =
     (if hs_Status (HaveSentRoom m room) = FlagLive
      then (case find (\<lambda>(rooms, t). room \<in> set rooms) gaps of Some (rooms, t) \<Rightarrow> Previously t | None \<Rightarrow> HaveSentRoom m room)
      else HaveSentRoom m room)"
    by (induction gaps arbitrary: m) (auto simp: record_unsent Previously_def flags_differ split: option.split)
  moreover have "hs_Status (HaveSentRoom (RecordSentRooms m' [room]) room) = FlagLive" for m'
    unfolding record_sent by (simp add: Sent_Live_def)
  ultimately show ?thesis by blast
qed

subsection \<open>A concrete store\<close>

text \<open>A code for lists of pairs that can be read back: a comma before each character, a full stop at the end
  of a string, a bracket before each pair.\<close>

fun put_str :: "string \<Rightarrow> string" where
  "put_str [] = ''.''"
| "put_str (x # xs) = CHR '','' # x # put_str xs"

fun get_str :: "string \<Rightarrow> (string \<times> string) option" where
  "get_str [] = None"
| "get_str [x] = (if x = CHR ''.'' then Some ([], []) else None)"
| "get_str (x # y # ys) = (if x = CHR ''.'' then Some ([], y # ys) else map_option (\<lambda>(s, rest). (y # s, rest)) (get_str ys))"

fun put_pairs :: "(string \<times> string) list \<Rightarrow> string" where
  "put_pairs [] = '']''"
| "put_pairs ((a, b) # ps) = CHR ''['' # put_str a @ put_str b @ put_pairs ps"

fun get_pairs :: "nat \<Rightarrow> string \<Rightarrow> (string \<times> string) list option" where
  "get_pairs 0 s = None"
| "get_pairs (Suc n) [] = None"
| "get_pairs (Suc n) (x # xs) =
     (if x = CHR '']'' then Some []
      else Option.bind (get_str xs) (\<lambda>(a, r). Option.bind (get_str r) (\<lambda>(b, r'). map_option (Cons (a, b)) (get_pairs n r'))))"

definition pair_codec :: codec where
  "pair_codec = \<lparr>cd_marshal = put_pairs, cd_unmarshal = (\<lambda>s. get_pairs (length s) s)\<rparr>"

lemma get_put_str: "get_str (put_str s @ r) = Some (s, r)"
  by (induction s) (cases r, simp_all)

lemma get_put_pairs: "length ps < n \<Longrightarrow> get_pairs n (put_pairs ps) = Some ps"
  by (induction ps arbitrary: n) (auto simp: get_put_str gr0_conv_Suc dest!: less_imp_Suc_add)

lemma put_pairs_long: "length ps < length (put_pairs ps)"
  by (induction ps rule: put_pairs.induct) auto

lemma pair_codec_lossless: "lossless pair_codec"
  by (simp add: lossless_def pair_codec_def get_put_pairs put_pairs_long)

definition demo_state :: PerConnectionState where
  "demo_state = SetRoomConfig (empty_state\<lparr>pc_Rooms := RecordSentRooms (NewRoomStatusMap []) [''!a''],
     pc_Receipts := RecordUnsentRooms (RecordSentRooms (NewRoomStatusMap []) [''!a'']) [''!a''] ''s1''\<rparr>) ''!a''
     \<lparr>rc_TimelineLimit = 20, rc_RequiredState = [(''m.room.name'', {''''}), (''m.room.member'', {''@u'', ''$LAZY''})]\<rparr>"

definition demo_store :: gosync where
  "demo_store = fst (Persist pair_codec (\<lambda>_. True) 1000 no_rows ''@u'' ''D'' ''main'' 0 demo_state)"

lemma demo_state_plain: "state_plain demo_state"
  by (auto simp: state_plain_def state_ok_def demo_state_def SetRoomConfig_def empty_state_def NewRoomStatusMap_def HaveSentRoom_def rsm_set_def
      Sent_Live_def Never_def Previously_def plain_sent_def FlagLive_def FlagNever_def FlagPreviously_def)

lemma demo_state_updates: "HasUpdates demo_state now"
  by (simp add: HasUpdates_def demo_state_def SetRoomConfig_def)

lemma demo_written: "Persist pair_codec (\<lambda>_. True) 1000 no_rows ''@u'' ''D'' ''main'' 0 demo_state = (demo_store, Inr 1)"
proof -
  have "snd (Persist pair_codec (\<lambda>_. True) 1000 no_rows ''@u'' ''D'' ''main'' 0 demo_state) = Inr 1" by code_simp
  then show ?thesis by (simp add: demo_store_def prod_eq_iff)
qed

lemma demo_reach: "store_reach pair_codec demo_store"
  unfolding demo_store_def by (rule written [OF opened]) (use demo_state_plain in \<open>simp add: state_plain_def\<close>)

lemma demo_read: "\<exists>db st. GetAndClear pair_codec (\<lambda>_. True) 2000 demo_store ''@u'' ''D'' ''main'' 1 = (db, Inr st)"
proof -
  have "\<not> isl (snd (GetAndClear pair_codec (\<lambda>_. True) 2000 demo_store ''@u'' ''D'' ''main'' 1))" by code_simp
  then show ?thesis by (metis prod.collapse sum.collapse(2))
qed

definition demo_next :: gosync where
  "demo_next = fst (Persist pair_codec (\<lambda>_. True) 2000 demo_store ''@u'' ''D'' ''main'' 1 demo_state)"

lemma demo_written_again: "Persist pair_codec (\<lambda>_. True) 2000 demo_store ''@u'' ''D'' ''main'' 1 demo_state = (demo_next, Inr 2)"
proof -
  have "snd (Persist pair_codec (\<lambda>_. True) 2000 demo_store ''@u'' ''D'' ''main'' 1 demo_state) = Inr 2" by code_simp
  then show ?thesis by (simp add: demo_next_def prod_eq_iff)
qed

theorem store_constraints_hold_witness: "keys_unique demo_store \<and> refs_ok demo_store \<and> one_each demo_store \<and> decodable pair_codec demo_store"
  by (rule store_constraints_hold [OF pair_codec_lossless demo_reach])

theorem written_state_is_read_back_witness:
  "\<exists>db2 st'. GetAndClear pair_codec (\<lambda>_. True) 2000 demo_store ''@u'' ''D'' ''main'' 1 = (db2, Inr st') \<and>
    HaveSentRoom (pc_Receipts st') ''!a'' = Previously ''s1''"
proof -
  have all: "mget (RoomStatusMap_All (pc_Receipts demo_state)) ''!a'' = Some (Previously ''s1'')" by code_simp
  have names: "stream_map st StreamReceipts = Some (pc_Receipts st)" for st using stream_names by (simp add: stream_map_def)
  from written_state_is_read_back [OF pair_codec_lossless opened demo_state_plain demo_state_updates demo_written, of 2000]
  obtain db2 st' where run: "GetAndClear pair_codec (\<lambda>_. True) 2000 demo_store ''@u'' ''D'' ''main'' 1 = (db2, Inr st')"
    and kept: "\<forall>name m m' room. stream_map demo_state name = Some m \<and> stream_map st' name = Some m' \<longrightarrow>
       HaveSentRoom m' room = (case mget (RoomStatusMap_All m) room of Some hs \<Rightarrow> hs | None \<Rightarrow> told no_rows 0 name room)" by blast
  from kept [rule_format, of StreamReceipts "pc_Receipts demo_state" "pc_Receipts st'" "''!a''"] names all
  have "HaveSentRoom (pc_Receipts st') ''!a'' = Previously ''s1''" by simp
  with run show ?thesis by blast
qed

theorem old_position_still_reads_witness:
  "\<exists>db3 again. GetAndClear pair_codec (\<lambda>_. True) 2000 demo_next ''@u'' ''D'' ''main'' 1 = (db3, Inr again)"
proof -
  obtain db st where r: "GetAndClear pair_codec (\<lambda>_. True) 2000 demo_store ''@u'' ''D'' ''main'' 1 = (db, Inr st)" using demo_read by blast
  have ok: "state_ok demo_state" using demo_state_plain by (simp add: state_plain_def)
  have "(1::int) \<noteq> 0" by simp
  from old_position_still_reads [OF pair_codec_lossless demo_reach ok this demo_written_again r] show ?thesis by blast
qed

theorem read_acknowledges_witness:
  "\<exists>db st key. GetAndClear pair_codec (\<lambda>_. True) 2000 demo_next ''@u'' ''D'' ''main'' 2 = (db, Inr st) \<and> {q. owner db q = Some key} = {2}"
proof -
  have ok: "state_ok demo_state" using demo_state_plain by (simp add: state_plain_def)
  have reach: "store_reach pair_codec demo_next" unfolding demo_next_def by (rule written [OF demo_reach ok])
  have "\<not> isl (snd (GetAndClear pair_codec (\<lambda>_. True) 2000 demo_next ''@u'' ''D'' ''main'' 2))" by code_simp
  then obtain db st where r: "GetAndClear pair_codec (\<lambda>_. True) 2000 demo_next ''@u'' ''D'' ''main'' 2 = (db, Inr st)" by (metis prod.collapse sum.collapse(2))
  have "(2::int) \<noteq> 0" by simp
  from read_acknowledges [OF pair_codec_lossless reach this r] r show ?thesis by blast
qed

theorem position_is_private_witness:
  "GetAndClear pair_codec (\<lambda>_. True) 2000 demo_store ''@u'' ''E'' ''main'' 1 = (demo_store, Inl ErrUnknownPosition)"
proof -
  have ok: "state_ok demo_state" using demo_state_plain by (simp add: state_plain_def)
  have "(''@u'', ''E'', ''main'') \<noteq> (''@u'', ''D'', ''main'')" by simp
  from position_is_private [OF pair_codec_lossless opened ok demo_state_updates demo_written this demo_state_updates [of 2000]] show ?thesis by blast
qed

declare map_of_eq_Some_iff [simp]

end
