(* ===== verification/Sliding_Request.thy ===== *)
theory Sliding_Request
  imports Room_Config
begin

text \<open>
  The body of a sliding sync request, \<^verbatim>\<open>internal/slidingsync/request.go\<close>: its types, the validation and
  the defaults. Decoding the JSON into the struct is an argument, and so is the second reading of the body
  for the one key whose absence matters. A pointer field and a slice whose nil differs from the empty one
  are options; \<^verbatim>\<open>int\<close> is a 64-bit integer.
\<close>

section \<open>Types\<close>

definition MaxLists :: int where "MaxLists = 100"
definition MaxListKeyBytes :: int where "MaxListKeyBytes = 64"
definition MaxRoomSubscriptions :: int where "MaxRoomSubscriptions = 100"
definition MaxTimelineLimit :: int where "MaxTimelineLimit = 1000"

record Filters =
  fl_IsDM :: "bool option"
  fl_Spaces :: "string list"
  fl_IsEncrypted :: "bool option"
  fl_IsInvite :: "bool option"
  fl_RoomTypes :: "string option list option"
  fl_NotRoomTypes :: "string option list option"
  fl_RoomNameLike :: "string option"
  fl_Tags :: "string list"
  fl_NotTags :: "string list"

record SlidingList =
  sl_Common :: CommonRoomParameters
  sl_Ranges :: "(int \<times> int) list"
  sl_SlowGetAllRooms :: bool
  sl_Filters :: "Filters option"

record RoomSubscribe =
  sub_Common :: CommonRoomParameters

record ExtensionScope =
  es_Enabled :: bool
  es_Lists :: "string list option"
  es_Rooms :: "string list option"

record ToDeviceExtension =
  td_Enabled :: bool
  td_Limit :: int
  td_Since :: string

record E2EEExtension =
  ee_Enabled :: bool

type_synonym AccountDataExtension = ExtensionScope
type_synonym ReceiptsExtension = ExtensionScope
type_synonym TypingExtension = ExtensionScope

record ThreadSubscriptionsExtension =
  ts_Enabled :: bool
  ts_Limit :: int

record StickyEventsExtension =
  st_Enabled :: bool
  st_Limit :: int
  st_Since :: string
  st_SinceSet :: bool

record Extensions =
  ex_ToDevice :: "ToDeviceExtension option"
  ex_E2EE :: "E2EEExtension option"
  ex_AccountData :: "AccountDataExtension option"
  ex_Receipts :: "ReceiptsExtension option"
  ex_Typing :: "TypingExtension option"
  ex_ThreadSubscriptions :: "ThreadSubscriptionsExtension option"
  ex_StickyEvents :: "StickyEventsExtension option"

record Request =
  req_ConnID :: string
  req_Lists :: "(string, SlidingList) gomap"
  req_RoomSubscriptions :: "(string, RoomSubscribe) gomap"
  req_Extensions :: "Extensions option"
  req_Pos :: "string option"
  req_Timeout :: "int option"

definition empty_request :: Request where
  "empty_request = \<lparr>req_ConnID = [], req_Lists = [], req_RoomSubscriptions = [], req_Extensions = None, req_Pos = None, req_Timeout = None\<rparr>"

section \<open>Validation\<close>

datatype request_error =
    UnableToParse string | TooManyLists int | ListKeyTooLong string | TimelineLimitTooLarge string | TimelineLimitNegative string
  | NegativeRange string | TooManySubscriptions int

definition Common_validate :: "CommonRoomParameters \<Rightarrow> string \<Rightarrow> request_error option" where
  "Common_validate c what =
     (if cp_TimelineLimit c > MaxTimelineLimit then Some (TimelineLimitTooLarge what)
      else if cp_TimelineLimit c < 0 then Some (TimelineLimitNegative what)
      else None)"

fun validate_ranges :: "string \<Rightarrow> (int \<times> int) list \<Rightarrow> request_error option" where
  "validate_ranges key [] = None"
| "validate_ranges key ((a, b) # rngs) = (if a < 0 \<or> b < 0 then Some (NegativeRange key) else validate_ranges key rngs)"

fun validate_lists :: "(string, SlidingList) gomap \<Rightarrow> request_error option" where
  "validate_lists [] = None"
| "validate_lists ((key, l) # ls) =
     (if int (length key) > MaxListKeyBytes then Some (ListKeyTooLong key)
      else case Common_validate (sl_Common l) (''list '' @ key) of
        Some e \<Rightarrow> Some e
      | None \<Rightarrow> (case validate_ranges key (sl_Ranges l) of Some e \<Rightarrow> Some e | None \<Rightarrow> validate_lists ls))"

fun validate_subscriptions :: "(string, RoomSubscribe) gomap \<Rightarrow> request_error option" where
  "validate_subscriptions [] = None"
| "validate_subscriptions ((roomID, sub) # subs) =
     (case Common_validate (sub_Common sub) (''room subscription '' @ roomID) of
        Some e \<Rightarrow> Some e
      | None \<Rightarrow> validate_subscriptions subs)"

definition Request_validate :: "Request \<Rightarrow> request_error option" where
  "Request_validate r =
     (if int (length (req_Lists r)) > MaxLists then Some (TooManyLists (int (length (req_Lists r))))
      else case validate_lists (req_Lists r) of
        Some e \<Rightarrow> Some e
      | None \<Rightarrow>
          if int (length (req_RoomSubscriptions r)) > MaxRoomSubscriptions
          then Some (TooManySubscriptions (int (length (req_RoomSubscriptions r))))
          else validate_subscriptions (req_RoomSubscriptions r))"

section \<open>Defaults\<close>

text \<open>\<open>probe\<close> is what decoding the body gives for the keys of the sticky events extension, nothing when the
  body does not decode.\<close>

definition stickySinceIsPresent :: "(string \<Rightarrow> string list option) \<Rightarrow> string \<Rightarrow> bool" where
  "stickySinceIsPresent probe body = (case probe body of None \<Rightarrow> False | Some keys \<Rightarrow> ''since'' \<in> set keys)"

definition default_limit :: "int \<Rightarrow> int" where
  "default_limit n = (if n = 0 then 100 else n)"

definition default_scope :: "ExtensionScope \<Rightarrow> ExtensionScope" where
  "default_scope s = s\<lparr>es_Lists := (case es_Lists s of None \<Rightarrow> Some [Wildcard] | Some l \<Rightarrow> Some l),
     es_Rooms := (case es_Rooms s of None \<Rightarrow> Some [Wildcard] | Some l \<Rightarrow> Some l)\<rparr>"

definition applyDefaults :: "(string \<Rightarrow> string list option) \<Rightarrow> string \<Rightarrow> Request \<Rightarrow> Request" where
  "applyDefaults probe body r =
     (case req_Extensions r of
        None \<Rightarrow> r
      | Some e \<Rightarrow> r\<lparr>req_Extensions := Some (e\<lparr>
          ex_ToDevice := map_option (\<lambda>t. t\<lparr>td_Limit := default_limit (td_Limit t)\<rparr>) (ex_ToDevice e),
          ex_ThreadSubscriptions := map_option (\<lambda>t. t\<lparr>ts_Limit := default_limit (ts_Limit t)\<rparr>) (ex_ThreadSubscriptions e),
          ex_StickyEvents := map_option (\<lambda>t. t\<lparr>st_Limit := default_limit (st_Limit t), st_SinceSet := stickySinceIsPresent probe body\<rparr>) (ex_StickyEvents e),
          ex_AccountData := map_option default_scope (ex_AccountData e),
          ex_Receipts := map_option default_scope (ex_Receipts e),
          ex_Typing := map_option default_scope (ex_Typing e)\<rparr>)\<rparr>)"

section \<open>Parsing\<close>

text \<open>Whether \<^verbatim>\<open>strings.TrimSpace\<close> leaves nothing: the body is a sequence of the white space of Unicode, in UTF-8.\<close>

definition wide_space :: "nat \<Rightarrow> nat \<Rightarrow> nat \<Rightarrow> bool" where
  "wide_space a b c \<longleftrightarrow> (a, b, c) = (0xE1, 0x9A, 0x80) \<or> (a = 0xE2 \<and> b = 0x80 \<and> (0x80 \<le> c \<and> c \<le> 0x8A \<or> c = 0xA8 \<or> c = 0xA9 \<or> c = 0xAF)) \<or>
     (a, b, c) = (0xE2, 0x81, 0x9F) \<or> (a, b, c) = (0xE3, 0x80, 0x80)"

fun all_space :: "nat list \<Rightarrow> bool" where
  "all_space [] = True"
| "all_space (a # r) =
     (if (9 \<le> a \<and> a \<le> 13) \<or> a = 32 then all_space r
      else case r of
        [] \<Rightarrow> False
      | b # r2 \<Rightarrow>
          if a = 0xC2 \<and> (b = 0x85 \<or> b = 0xA0) then all_space r2
          else (case r2 of [] \<Rightarrow> False | c # r3 \<Rightarrow> wide_space a b c \<and> all_space r3))"

definition blank :: "string \<Rightarrow> bool" where
  "blank body = all_space (map of_char body)"

definition ParseRequest :: "(string \<Rightarrow> string + Request) \<Rightarrow> (string \<Rightarrow> string list option) \<Rightarrow> string \<Rightarrow> request_error + Request" where
  "ParseRequest decode probe body =
     (case (if blank body then Inr empty_request else decode body) of
        Inl e \<Rightarrow> Inl (UnableToParse e)
      | Inr req \<Rightarrow> (case Request_validate req of Some e \<Rightarrow> Inl e | None \<Rightarrow> Inr (applyDefaults probe body req)))"

section \<open>Properties\<close>

definition params_in_bounds :: "CommonRoomParameters \<Rightarrow> bool" where
  "params_in_bounds c \<longleftrightarrow> 0 \<le> cp_TimelineLimit c \<and> cp_TimelineLimit c \<le> 1000"

definition list_in_bounds :: "string \<times> SlidingList \<Rightarrow> bool" where
  "list_in_bounds kl \<longleftrightarrow> length (fst kl) \<le> 64 \<and> params_in_bounds (sl_Common (snd kl)) \<and> (\<forall>(a, b) \<in> set (sl_Ranges (snd kl)). 0 \<le> a \<and> 0 \<le> b)"

definition in_bounds :: "Request \<Rightarrow> bool" where
  "in_bounds r \<longleftrightarrow> length (req_Lists r) \<le> 100 \<and> list_all list_in_bounds (req_Lists r) \<and> length (req_RoomSubscriptions r) \<le> 100 \<and>
     list_all (\<lambda>(room, sub). params_in_bounds (sub_Common sub)) (req_RoomSubscriptions r)"

definition defaulted :: "Extensions \<Rightarrow> bool" where
  "defaulted e \<longleftrightarrow>
     (\<forall>t. ex_ToDevice e = Some t \<longrightarrow> td_Limit t \<noteq> 0) \<and> (\<forall>t. ex_ThreadSubscriptions e = Some t \<longrightarrow> ts_Limit t \<noteq> 0) \<and>
     (\<forall>t. ex_StickyEvents e = Some t \<longrightarrow> st_Limit t \<noteq> 0) \<and>
     (\<forall>s. s \<in> {ex_AccountData e, ex_Receipts e, ex_Typing e} \<longrightarrow> (\<forall>x. s = Some x \<longrightarrow> es_Lists x \<noteq> None \<and> es_Rooms x \<noteq> None))"

lemma first_error: "(case x of Some e \<Rightarrow> Some e | None \<Rightarrow> y) = None \<longleftrightarrow> x = None \<and> y = None"
  by (cases x) auto

lemma common_validate: "Common_validate c what = None \<longleftrightarrow> params_in_bounds c"
  by (auto simp: Common_validate_def params_in_bounds_def MaxTimelineLimit_def)

lemma ranges_validate: "validate_ranges key rngs = None \<longleftrightarrow> (\<forall>(a, b) \<in> set rngs. 0 \<le> a \<and> 0 \<le> b)"
  by (induction key rngs rule: validate_ranges.induct) auto

lemma lists_validate: "validate_lists ls = None \<longleftrightarrow> list_all list_in_bounds ls"
  by (induction ls rule: validate_lists.induct)
    (auto simp: list_in_bounds_def MaxListKeyBytes_def first_error common_validate ranges_validate)

lemma subscriptions_validate: "validate_subscriptions subs = None \<longleftrightarrow> list_all (\<lambda>(room, sub). params_in_bounds (sub_Common sub)) subs"
  by (induction subs rule: validate_subscriptions.induct) (auto simp: first_error common_validate)

lemma request_validate: "Request_validate r = None \<longleftrightarrow> in_bounds r"
  by (auto simp: Request_validate_def in_bounds_def MaxLists_def MaxRoomSubscriptions_def first_error lists_validate subscriptions_validate)

lemma default_limit_nonzero [simp]: "default_limit n \<noteq> 0"
  by (simp add: default_limit_def)

lemma default_scope_some [simp]: "\<exists>l. es_Lists (default_scope s) = Some l" "\<exists>l. es_Rooms (default_scope s) = Some l"
  by (simp_all add: default_scope_def split: option.split)

lemma defaults_defaulted: "req_Extensions (applyDefaults probe body r) = Some e \<Longrightarrow> defaulted e"
  by (auto simp: applyDefaults_def defaulted_def split: option.splits)

lemma defaults_keep: "in_bounds (applyDefaults probe body r) = in_bounds r" "req_Lists (applyDefaults probe body r) = req_Lists r"
  "req_RoomSubscriptions (applyDefaults probe body r) = req_RoomSubscriptions r"
  by (simp_all add: applyDefaults_def in_bounds_def split: option.split)

text \<open>
  C27. A request is accepted exactly when it is within its bounds: a blank body, or one that decodes to at most
  100 lists with keys of at most 64 bytes, at most 100 subscriptions, timeline limits between 0 and 1000 and no
  negative range. What is accepted is within the bounds, keeps its lists and subscriptions, and has every
  limit and every scope of an extension filled in.
\<close>

theorem request_accepted_iff_in_bounds:
  "((\<exists>req. ParseRequest decode probe body = Inr req) \<longleftrightarrow> blank body \<or> (\<exists>r. decode body = Inr r \<and> in_bounds r)) \<and>
   (\<forall>req. ParseRequest decode probe body = Inr req \<longrightarrow> in_bounds req \<and> (\<forall>e. req_Extensions req = Some e \<longrightarrow> defaulted e) \<and>
      (\<exists>r. (if blank body then r = empty_request else decode body = Inr r) \<and> req_Lists req = req_Lists r \<and> req_RoomSubscriptions req = req_RoomSubscriptions r))"
proof -
  have e: "in_bounds empty_request" by (simp add: in_bounds_def empty_request_def)
  have p: "ParseRequest decode probe body = (case (if blank body then Inr empty_request else decode body) of Inl e \<Rightarrow> Inl (UnableToParse e)
      | Inr r \<Rightarrow> if in_bounds r then Inr (applyDefaults probe body r) else Inl (the (Request_validate r)))"
    by (auto simp: ParseRequest_def request_validate [symmetric] split: sum.split option.split)
  show ?thesis
    unfolding p using e by (auto simp: defaults_keep defaults_defaulted split: sum.splits if_splits)
qed

theorem request_accepted_iff_in_bounds_witness:
  "\<exists>req. ParseRequest (\<lambda>_. Inr (empty_request\<lparr>req_Lists := [(''rooms'', \<lparr>sl_Common = \<lparr>cp_RequiredState = [], cp_TimelineLimit = 20\<rparr>,
     sl_Ranges = [(0, 19)], sl_SlowGetAllRooms = False, sl_Filters = None\<rparr>)]\<rparr>)) (\<lambda>_. None) ''{...}'' = Inr req \<and> in_bounds req"
proof -
  let ?r = "empty_request\<lparr>req_Lists := [(''rooms'', \<lparr>sl_Common = \<lparr>cp_RequiredState = [], cp_TimelineLimit = 20\<rparr>,
     sl_Ranges = [(0, 19)], sl_SlowGetAllRooms = False, sl_Filters = None\<rparr>)]\<rparr>"
  have "in_bounds ?r" by (simp add: in_bounds_def list_in_bounds_def params_in_bounds_def empty_request_def)
  with request_accepted_iff_in_bounds [of "\<lambda>_. Inr ?r" "\<lambda>_. None" "''{...}''"] show ?thesis by blast
qed

end
