(* ===== verification/Sliding_Queries.thy ===== *)
theory Sliding_Queries
  imports Stream_Gates Stream_Token Gjson
begin

text \<open>
  The reads of the sliding sync tables, \<^verbatim>\<open>internal/store/slidingsync.go\<close>, with the instance map of
  \<^verbatim>\<open>internal/store/filters.go\<close> and the table of room versions of \<^verbatim>\<open>internal/clientevent/roomversion.go\<close>.
  What a query returns is an argument: the rows in the order the database sends them, or an error, whichever of
  sending, scanning and closing produced it. A nullable column is an option. What the Go code does with the
  rows is modelled in full.
\<close>

type_synonym 'r answer = "string + 'r list"

section \<open>Room versions\<close>

record RoomVersion =
  rv_UpdatedRedactionRules :: bool
  rv_RoomIDsAsHashes :: bool
  rv_SpecialCaseAliasesAuth :: bool
  rv_ImplicitRoomCreator :: bool
  rv_RestrictedJoinRule :: bool
  rv_RestrictedJoinRuleFix :: bool
  rv_MSC4242StateDags :: bool
  rv_MSC3389RelationRedactions :: bool

definition no_flags :: RoomVersion where
  "no_flags = \<lparr>rv_UpdatedRedactionRules = False, rv_RoomIDsAsHashes = False, rv_SpecialCaseAliasesAuth = False, rv_ImplicitRoomCreator = False,
     rv_RestrictedJoinRule = False, rv_RestrictedJoinRuleFix = False, rv_MSC4242StateDags = False, rv_MSC3389RelationRedactions = False\<rparr>"

abbreviation "rv_aliases \<equiv> no_flags\<lparr>rv_SpecialCaseAliasesAuth := True\<rparr>"
abbreviation "rv_restricted \<equiv> no_flags\<lparr>rv_RestrictedJoinRule := True\<rparr>"
abbreviation "rv_fixed \<equiv> rv_restricted\<lparr>rv_RestrictedJoinRuleFix := True\<rparr>"
abbreviation "rv_updated \<equiv> rv_fixed\<lparr>rv_UpdatedRedactionRules := True, rv_ImplicitRoomCreator := True\<rparr>"
abbreviation "rv_hashed \<equiv> rv_updated\<lparr>rv_RoomIDsAsHashes := True\<rparr>"

definition roomVersions :: "(string, RoomVersion) gomap" where
  "roomVersions =
    [(''1'', rv_aliases), (''2'', rv_aliases), (''3'', rv_aliases), (''4'', rv_aliases), (''5'', rv_aliases),
     (''6'', no_flags), (''7'', no_flags), (''8'', rv_restricted), (''9'', rv_fixed), (''10'', rv_fixed),
     (''org.matrix.msc1767.10'', rv_fixed), (''org.matrix.msc3757.10'', rv_fixed),
     (''org.matrix.msc3389.10'', rv_fixed\<lparr>rv_MSC3389RelationRedactions := True\<rparr>),
     (''11'', rv_updated), (''org.matrix.msc3757.11'', rv_updated), (''org.matrix.hydra.11'', rv_hashed),
     (''12'', rv_hashed), (''org.matrix.msc4242.12'', rv_hashed\<lparr>rv_MSC4242StateDags := True\<rparr>)]"

definition LookupRoomVersion :: "string \<Rightarrow> RoomVersion" where
  "LookupRoomVersion i = mgetz no_flags roomVersions i"

definition IsKnownRoomVersion :: "string \<Rightarrow> bool" where
  "IsKnownRoomVersion i \<longleftrightarrow> mget roomVersions i \<noteq> None"

section \<open>Rooms of a user\<close>

record SlidingRoom =
  sm_RoomID :: string
  sm_Sender :: string
  sm_Membership :: string
  sm_EventID :: string
  sm_RoomVersion :: string
  sm_EventInstance :: string
  sm_EventStream :: int
  sm_HasKnownState :: bool
  sm_RoomType :: "string option"
  sm_IsEncrypted :: bool

definition scanSlidingRooms :: "SlidingRoom list \<Rightarrow> (string, SlidingRoom) gomap" where
  "scanSlidingRooms rows = fold (\<lambda>r out. if IsKnownRoomVersion (sm_RoomVersion r) then mput (sm_RoomID r) r out else out) rows []"

definition SlidingRoomsForUser :: "(string \<Rightarrow> SlidingRoom answer) \<Rightarrow> string \<Rightarrow> string + (string, SlidingRoom) gomap" where
  "SlidingRoomsForUser q userID = map_sum id scanSlidingRooms (q userID)"

definition SlidingSelfLeavesAfter :: "(string \<Rightarrow> int \<Rightarrow> SlidingRoom answer) \<Rightarrow> string \<Rightarrow> int \<Rightarrow> string + (string, SlidingRoom) gomap" where
  "SlidingSelfLeavesAfter q userID minStream = map_sum id scanSlidingRooms (q userID minStream)"

record SlidingJoinedRoom =
  sj_RoomID :: string
  sj_EventStream :: int
  sj_BumpStamp :: "int option"
  sj_RoomType :: "string option"
  sj_RoomName :: "string option"
  sj_IsEncrypted :: bool
  sj_Tombstone :: "string option"

definition SlidingJoinedRooms :: "(string list \<Rightarrow> SlidingJoinedRoom answer) \<Rightarrow> string list \<Rightarrow> string + (string, SlidingJoinedRoom) gomap" where
  "SlidingJoinedRooms q roomIDs =
     (if roomIDs = [] then Inr [] else map_sum id (\<lambda>rows. fold (\<lambda>r. mput (sj_RoomID r) r) rows []) (q roomIDs))"

definition SlidingSyncTablesReady :: "string + int \<times> int \<Rightarrow> string + bool \<times> string" where
  "SlidingSyncTablesReady q =
     (case q of
        Inl e \<Rightarrow> Inl e
      | Inr (pending, backfilling) \<Rightarrow>
          if backfilling > 0 then Inr (False, FormatInt backfilling @ '' sliding sync background update(s) still running in Synapse'')
          else if pending > 0 then Inr (False, FormatInt pending @ '' room(s) queued in sliding_sync_joined_rooms_to_recalculate'')
          else Inr (True, []))"

text \<open>\<^verbatim>\<open>ForEach\<close> visits the values of an object or an array, and a scalar once.\<close>

fun gj_ForEach :: "json \<Rightarrow> json list" where
  "gj_ForEach (JObj fs raw) = map snd fs"
| "gj_ForEach (JArr xs raw) = xs"
| "gj_ForEach JBad = []"
| "gj_ForEach v = [v]"

definition DirectRooms :: "(string \<Rightarrow> json) \<Rightarrow> (string \<Rightarrow> string + string option option) \<Rightarrow> string \<Rightarrow> string + string set" where
  "DirectRooms parse q userID =
     (case q userID of
        Inl e \<Rightarrow> Inl e
      | Inr None \<Rightarrow> Inr {}
      | Inr (Some None) \<Rightarrow> Inr {}
      | Inr (Some (Some content)) \<Rightarrow>
          Inr (set (map gj_String (filter gj_IsString (concat (map gj_ForEach (gj_ForEach (parse content))))))))"

definition RoomTagsForUser :: "(string \<Rightarrow> (string \<times> string) answer) \<Rightarrow> string \<Rightarrow> string + (string, string set) gomap" where
  "RoomTagsForUser q userID =
     map_sum id (\<lambda>rows. fold (\<lambda>(roomID, tag) out. mput roomID (insert tag (mgetz {} out roomID)) out) rows []) (q userID)"

definition LastEventPosBefore :: "(string list \<Rightarrow> int \<Rightarrow> (string \<times> int option) answer) \<Rightarrow> string list \<Rightarrow> int \<Rightarrow> string + (string, int) gomap" where
  "LastEventPosBefore q roomIDs maxStream =
     (if roomIDs = [] then Inr []
      else map_sum id (\<lambda>rows. fold (\<lambda>(roomID, pos) out. case pos of None \<Rightarrow> out | Some p \<Rightarrow> mput roomID p out) rows []) (q roomIDs maxStream))"

definition LastBumpEventPosBefore :: "(string \<Rightarrow> string list \<Rightarrow> int \<Rightarrow> string + int option) \<Rightarrow> string \<Rightarrow> string list \<Rightarrow> int \<Rightarrow> string + int \<times> bool" where
  "LastBumpEventPosBefore q roomID eventTypes maxStream =
     map_sum id (\<lambda>found. case found of None \<Rightarrow> (0, False) | Some pos \<Rightarrow> (pos, True)) (q roomID eventTypes maxStream)"

definition MemberCounts :: "(string \<Rightarrow> (string option \<times> int) answer) \<Rightarrow> string \<Rightarrow> string + (string, int) gomap" where
  "MemberCounts q roomID =
     map_sum id (\<lambda>rows. fold (\<lambda>(membership, n) out. case membership of None \<Rightarrow> out | Some m \<Rightarrow> mput m n out) rows []) (q roomID)"

definition PartialStateRooms :: "string answer \<Rightarrow> string + string set" where
  "PartialStateRooms q = map_sum id set q"

definition ExperimentalFeatureEnabled :: "(string \<Rightarrow> string \<Rightarrow> string + bool option) \<Rightarrow> string \<Rightarrow> string \<Rightarrow> bool \<Rightarrow> string + bool" where
  "ExperimentalFeatureEnabled q userID feature globalDefault =
     map_sum id (\<lambda>found. case found of None \<Rightarrow> globalDefault | Some enabled \<Rightarrow> enabled) (q userID feature)"

text \<open>The instance map is read once and kept.\<close>

definition InstanceIDs :: "(string \<times> int) answer \<Rightarrow> (string, int) gomap option \<Rightarrow> (string, int) gomap option \<times> (string + (string, int) gomap)" where
  "InstanceIDs q kept =
     (case kept of
        Some ids \<Rightarrow> (kept, Inr ids)
      | None \<Rightarrow>
          (case q of
             Inl e \<Rightarrow> (None, Inl e)
           | Inr rows \<Rightarrow> let out = fold (\<lambda>(name, i). mput name i) rows [] in (Some out, Inr out)))"

section \<open>Membership changes\<close>

definition inStreamRange :: "RoomKey \<Rightarrow> RoomKey \<Rightarrow> string \<Rightarrow> int \<Rightarrow> (string, int) gomap \<Rightarrow> bool" where
  "inStreamRange frm to instance pos instances =
     (let i = (case mget instances (if instance = [] then ''master'' else instance) of None \<Rightarrow> - 1 | Some i \<Rightarrow> i)
      in if pos \<le> RoomKey_StreamPosForInstance frm i then False else pos \<le> RoomKey_StreamPosForInstance to i)"

record change_row =
  cr_RoomID :: string
  cr_EventID :: "string option"
  cr_Instance :: "string option"
  cr_StreamPos :: int
  cr_Membership :: "string option"
  cr_Sender :: "string option"
  cr_PrevMembership :: "string option"
  cr_RoomVersion :: string

record SlidingMembershipChange =
  mc_RoomID :: string
  mc_Membership :: string
  mc_EventID :: string
  mc_Sender :: string
  mc_Instance :: string
  mc_StreamPos :: int
  mc_RoomVersion :: string

abbreviation or_empty :: "string option \<Rightarrow> string" where
  "or_empty x \<equiv> (case x of None \<Rightarrow> [] | Some s \<Rightarrow> s)"

definition change_of_row :: "change_row \<Rightarrow> SlidingMembershipChange" where
  "change_of_row r =
     (case cr_EventID r of
        None \<Rightarrow> \<lparr>mc_RoomID = cr_RoomID r, mc_Membership = ''leave'', mc_EventID = [], mc_Sender = [], mc_Instance = or_empty (cr_Instance r),
          mc_StreamPos = cr_StreamPos r, mc_RoomVersion = cr_RoomVersion r\<rparr>
      | Some eventID \<Rightarrow> \<lparr>mc_RoomID = cr_RoomID r, mc_Membership = or_empty (cr_Membership r), mc_EventID = eventID, mc_Sender = or_empty (cr_Sender r),
          mc_Instance = or_empty (cr_Instance r), mc_StreamPos = cr_StreamPos r, mc_RoomVersion = cr_RoomVersion r\<rparr>)"

definition change_step ::
  "RoomKey \<Rightarrow> RoomKey \<Rightarrow> string set \<Rightarrow> (string, int) gomap \<Rightarrow> change_row \<Rightarrow> (string, SlidingMembershipChange) gomap \<Rightarrow> (string, SlidingMembershipChange) gomap" where
  "change_step frm to excluded instances r out =
     (let c = change_of_row r; prev = or_empty (cr_PrevMembership r)
      in if cr_RoomID r \<in> excluded then out
         else if \<not> inStreamRange frm to (mc_Instance c) (mc_StreamPos c) instances then out
         else if cr_EventID r = None \<and> prev = ''leave'' then out
         else if cr_EventID r = None \<and> mget out (cr_RoomID r) \<noteq> None then out
         else if mc_Membership c = prev then out
         else mput (cr_RoomID r) c out)"

text \<open>The two early returns are \<open>membership_gate\<close>; the query is asked for \<^verbatim>\<open>from.Stream\<close> and
  \<^verbatim>\<open>to.MaxStreamPos()\<close>. \<open>ids\<close> is what \<^verbatim>\<open>InstanceIDs\<close> answers.\<close>

definition SlidingMembershipChanges ::
  "(string \<Rightarrow> int \<Rightarrow> int \<Rightarrow> change_row answer) \<Rightarrow> (string + (string, int) gomap) \<Rightarrow> streamCaches option \<Rightarrow> string \<Rightarrow> RoomKey \<Rightarrow> RoomKey \<Rightarrow> string set \<Rightarrow>
   streamCaches option \<times> (string + (string, SlidingMembershipChange) gomap)" where
  "SlidingMembershipChanges q ids p userID frm to excluded =
     (case membership_gate p userID (rk_Stream frm) (RoomKey_MaxStreamPos frm) (RoomKey_MaxStreamPos to) of
        (p', False) \<Rightarrow> (p', Inr [])
      | (p', True) \<Rightarrow>
          (p', case q userID (rk_Stream frm) (RoomKey_MaxStreamPos to) of
             Inl e \<Rightarrow> Inl e
           | Inr rows \<Rightarrow> (case ids of Inl e \<Rightarrow> Inl e | Inr instances \<Rightarrow> Inr (fold (change_step frm to excluded instances) rows []))))"

record delta_row =
  dr_RoomID :: string
  dr_EventID :: "string option"
  dr_Instance :: "string option"
  dr_StreamPos :: int
  dr_PrevEventID :: "string option"
  dr_PrevInstance :: "string option"
  dr_PrevStream :: "int option"
  dr_PrevMembership :: "string option"
  dr_PrevSender :: "string option"

record DeltaMembershipChange =
  dm_RoomID :: string
  dm_EventID :: string
  dm_Instance :: string
  dm_StreamPos :: int
  dm_PrevEventID :: string
  dm_PrevInstance :: string
  dm_PrevStreamPos :: int
  dm_PrevMembership :: string
  dm_PrevSender :: string

definition delta_of_row :: "delta_row \<Rightarrow> DeltaMembershipChange" where
  "delta_of_row r = \<lparr>dm_RoomID = dr_RoomID r, dm_EventID = or_empty (dr_EventID r), dm_Instance = or_empty (dr_Instance r), dm_StreamPos = dr_StreamPos r,
     dm_PrevEventID = or_empty (dr_PrevEventID r), dm_PrevInstance = or_empty (dr_PrevInstance r),
     dm_PrevStreamPos = (case dr_PrevStream r of None \<Rightarrow> 0 | Some n \<Rightarrow> n), dm_PrevMembership = or_empty (dr_PrevMembership r),
     dm_PrevSender = or_empty (dr_PrevSender r)\<rparr>"

definition CurrentStateDeltaMembershipChanges ::
  "(string \<Rightarrow> int \<Rightarrow> int \<Rightarrow> delta_row answer) \<Rightarrow> (string + (string, int) gomap) \<Rightarrow> string \<Rightarrow> RoomKey \<Rightarrow> RoomKey \<Rightarrow> string set \<Rightarrow> string + DeltaMembershipChange list" where
  "CurrentStateDeltaMembershipChanges q ids userID frm to excluded =
     (case q userID (rk_Stream frm) (RoomKey_MaxStreamPos to) of
        Inl e \<Rightarrow> Inl e
      | Inr rows \<Rightarrow>
          (case ids of
             Inl e \<Rightarrow> Inl e
           | Inr instances \<Rightarrow>
               Inr (map delta_of_row (filter (\<lambda>r. dr_RoomID r \<notin> excluded \<and> inStreamRange frm to (or_empty (dr_Instance r)) (dr_StreamPos r) instances) rows))))"

section \<open>Threads and receipts\<close>

record ThreadSubscriptionUpdate =
  tu_StreamID :: int
  tu_RoomID :: string
  tu_ThreadRoot :: string
  tu_Subscribed :: bool
  tu_Automatic :: bool

definition ThreadSubscriptionsSince ::
  "(string \<Rightarrow> int \<Rightarrow> int \<Rightarrow> int \<Rightarrow> ThreadSubscriptionUpdate answer) \<Rightarrow> string \<Rightarrow> int \<Rightarrow> int \<Rightarrow> int \<Rightarrow> ThreadSubscriptionUpdate answer" where
  "ThreadSubscriptionsSince q userID frm to limit = (if frm \<ge> to \<or> limit \<le> 0 then Inr [] else q userID frm to limit)"

record ReceiptRow =
  rr_ReceiptType :: string
  rr_UserID :: string
  rr_EventID :: string
  rr_InstanceName :: string
  rr_StreamID :: int
  rr_ThreadID :: string
  rr_Data :: string

definition group_receipts :: "(string \<times> ReceiptRow) list \<Rightarrow> (string, ReceiptRow list) gomap" where
  "group_receipts rows = fold (\<lambda>(roomID, r) out. mput roomID (mgetz [] out roomID @ [r]) out) rows []"

definition ReceiptsForEvents ::
  "(string list \<Rightarrow> string list \<Rightarrow> (string \<times> ReceiptRow) answer) \<Rightarrow> (string, string list) gomap \<Rightarrow> string + (string, ReceiptRow list) gomap" where
  "ReceiptsForEvents q roomAndEventIDs =
     (let events = concat (map snd roomAndEventIDs); wanted = set (concat (map (\<lambda>(roomID, ids). map (Pair roomID) ids) roomAndEventIDs))
      in if roomAndEventIDs = [] then Inr []
         else if events = [] then Inr []
         else map_sum id (\<lambda>rows. group_receipts (filter (\<lambda>(roomID, r). (roomID, rr_EventID r) \<in> wanted) rows)) (q (mkeys roomAndEventIDs) events))"

definition ReceiptsForUserInRooms ::
  "(string list \<Rightarrow> string \<Rightarrow> int \<Rightarrow> (string \<times> ReceiptRow) answer) \<Rightarrow> string \<Rightarrow> string list \<Rightarrow> int \<Rightarrow> string + (string, ReceiptRow list) gomap" where
  "ReceiptsForUserInRooms q userID roomIDs toMax = (if roomIDs = [] then Inr [] else map_sum id group_receipts (q roomIDs userID toMax))"

section \<open>Properties\<close>

text \<open>What the changes of one room come to: the last event that changed the membership, else the first removal
  without an event.\<close>

definition rows_of :: "RoomKey \<Rightarrow> RoomKey \<Rightarrow> string set \<Rightarrow> (string, int) gomap \<Rightarrow> string \<Rightarrow> change_row list \<Rightarrow> change_row list" where
  "rows_of frm to excluded instances room rows =
     filter (\<lambda>r. cr_RoomID r = room \<and> room \<notin> excluded \<and> inStreamRange frm to (or_empty (cr_Instance r)) (cr_StreamPos r) instances) rows"

definition event_changes :: "change_row list \<Rightarrow> change_row list" where
  "event_changes rows = filter (\<lambda>r. cr_EventID r \<noteq> None \<and> or_empty (cr_Membership r) \<noteq> or_empty (cr_PrevMembership r)) rows"

definition removals :: "change_row list \<Rightarrow> change_row list" where
  "removals rows = filter (\<lambda>r. cr_EventID r = None \<and> or_empty (cr_PrevMembership r) \<noteq> ''leave'') rows"

definition room_change :: "change_row list \<Rightarrow> SlidingMembershipChange option" where
  "room_change rows =
     (if event_changes rows \<noteq> [] then Some (change_of_row (last (event_changes rows)))
      else if removals rows \<noteq> [] then Some (change_of_row (hd (removals rows))) else None)"

lemma change_of_row_fields:
  "mc_Instance (change_of_row r) = or_empty (cr_Instance r)" "mc_StreamPos (change_of_row r) = cr_StreamPos r"
  "mc_Membership (change_of_row r) = (if cr_EventID r = None then ''leave'' else or_empty (cr_Membership r))"
  by (simp_all add: change_of_row_def split: option.split)

lemma change_fold:
  "mget (fold (change_step frm to excluded instances) rows []) room = room_change (rows_of frm to excluded instances room rows)"
proof (induction rows rule: rev_induct)
  case Nil
  show ?case by (simp add: rows_of_def room_change_def event_changes_def removals_def)
next
  case (snoc r rows)
  let ?R = "rows_of frm to excluded instances room rows"
  have none: "room_change ?R = None \<longleftrightarrow> event_changes ?R = [] \<and> removals ?R = []" by (simp add: room_change_def)
  show ?case
  proof (cases "cr_RoomID r = room \<and> room \<notin> excluded \<and> inStreamRange frm to (or_empty (cr_Instance r)) (cr_StreamPos r) instances")
    case False
    then have "rows_of frm to excluded instances room (rows @ [r]) = ?R" by (auto simp: rows_of_def)
    with False snoc show ?thesis by (auto simp: change_step_def change_of_row_fields Let_def)
  next
    case True
    then have R: "rows_of frm to excluded instances room (rows @ [r]) = ?R @ [r]" by (simp add: rows_of_def)
    have ev: "event_changes (?R @ [r]) = event_changes ?R @ (if cr_EventID r \<noteq> None \<and> or_empty (cr_Membership r) \<noteq> or_empty (cr_PrevMembership r) then [r] else [])"
      by (simp add: event_changes_def)
    have rm: "removals (?R @ [r]) = removals ?R @ (if cr_EventID r = None \<and> or_empty (cr_PrevMembership r) \<noteq> ''leave'' then [r] else [])"
      by (simp add: removals_def)
    have step: "mget (change_step frm to excluded instances r out) room =
        (if cr_EventID r = None \<and> (or_empty (cr_PrevMembership r) = ''leave'' \<or> mget out room \<noteq> None) \<or>
            cr_EventID r \<noteq> None \<and> or_empty (cr_Membership r) = or_empty (cr_PrevMembership r) then mget out room else Some (change_of_row r))" for out
      using True by (cases "cr_EventID r") (auto simp: change_step_def change_of_row_fields Let_def)
    show ?thesis unfolding R fold_append fold.simps comp_def id_def step snoc none room_change_def [of "?R @ [r]"] ev rm
      by (cases "cr_EventID r") (simp_all add: room_change_def)
  qed
qed

text \<open>
  \<^verbatim>\<open>SlidingMembershipChanges\<close> reports each room's change exactly. When the query runs, a room is reported
  exactly when one of its rows in the range, outside the excluded rooms, changes the membership; the report
  is the last event that does, or, when there is none, the first removal without an event. A profile change
  is never one, and the removal that follows a leave is not told twice.
\<close>

theorem membership_changes_exact:
  assumes "snd (membership_gate p userID (rk_Stream frm) (RoomKey_MaxStreamPos frm) (RoomKey_MaxStreamPos to))"
    and "q userID (rk_Stream frm) (RoomKey_MaxStreamPos to) = Inr rows"
  shows "\<exists>out. snd (SlidingMembershipChanges q (Inr instances) p userID frm to excluded) = Inr out \<and>
    (\<forall>room. mget out room = room_change (rows_of frm to excluded instances room rows))"
  using assms by (auto simp: SlidingMembershipChanges_def change_fold split: prod.split bool.split)

definition demo_change :: "string \<Rightarrow> int \<Rightarrow> string \<Rightarrow> string \<Rightarrow> change_row" where
  "demo_change event pos membership prev = \<lparr>cr_RoomID = ''!r'', cr_EventID = Some event, cr_Instance = Some ''w2'', cr_StreamPos = pos,
     cr_Membership = Some membership, cr_Sender = Some ''@u'', cr_PrevMembership = Some prev, cr_RoomVersion = ''10''\<rparr>"

theorem membership_changes_exact_witness:
  "\<exists>out. snd (SlidingMembershipChanges (\<lambda>_ _ _. Inr [demo_change ''$j'' 12 ''join'' ''invite'', demo_change ''$n'' 13 ''join'' ''join''])
      (Inr [(''w2'', 2)]) None ''@u'' (Live 10) (Live 20) {}) = Inr out \<and> map_option mc_EventID (mget out ''!r'') = Some ''$j''"
proof -
  let ?rows = "[demo_change ''$j'' 12 ''join'' ''invite'', demo_change ''$n'' 13 ''join'' ''join'']"
  have gate: "snd (membership_gate None ''@u'' (rk_Stream (Live 10)) (RoomKey_MaxStreamPos (Live 10)) (RoomKey_MaxStreamPos (Live 20)))" by code_simp
  have rows: "(\<lambda>(_::string) (_::int) (_::int). Inr ?rows) ''@u'' (rk_Stream (Live 10)) (RoomKey_MaxStreamPos (Live 20)) = (Inr ?rows :: change_row answer)" by simp
  have "map_option mc_EventID (room_change (rows_of (Live 10) (Live 20) {} [(''w2'', 2)] ''!r'' ?rows)) = Some ''$j''" by code_simp
  then show ?thesis using membership_changes_exact [OF gate rows, of "[(''w2'', 2)]" "{}"] by auto
qed

text \<open>
  Consecutive syncs see every row once. When a client goes from one token to the next and on to a third, a
  row in the whole range, whichever writer wrote it, known to the instance map or not, is in exactly one of
  the two.
\<close>

theorem consecutive_ranges_partition:
  assumes "roomkey_le a b" and "roomkey_le b c"
  shows "inStreamRange a c instance pos instances \<longleftrightarrow> (inStreamRange a b instance pos instances \<noteq> inStreamRange b c instance pos instances)"
proof -
  have "RoomKey_StreamPosForInstance a i \<le> RoomKey_StreamPosForInstance b i" "RoomKey_StreamPosForInstance b i \<le> RoomKey_StreamPosForInstance c i" for i
    using assms by (simp_all add: roomkey_le_def)
  then show ?thesis unfolding inStreamRange_def Let_def by (smt (verit) dual_order.trans not_le)
qed

theorem consecutive_ranges_partition_witness:
  "inStreamRange (Live 10) (Live 30) ''w2'' 15 [(''w2'', 2)] \<longleftrightarrow> (inStreamRange (Live 10) (Live 20) ''w2'' 15 [(''w2'', 2)] \<noteq> inStreamRange (Live 20) (Live 30) ''w2'' 15 [(''w2'', 2)])"
  by (rule consecutive_ranges_partition) (simp_all add: roomkey_le_def RoomKey_StreamPosForInstance_def Live_def)

definition before_slow_writer :: RoomKey where
  "before_slow_writer = \<lparr>rk_Topological = NoTopological, rk_Stream = 10, rk_Instances = [\<lparr>ip_ID = 1, ip_Pos = 20\<rparr>]\<rparr>"

definition after_slow_writer :: RoomKey where
  "after_slow_writer = \<lparr>rk_Topological = NoTopological, rk_Stream = 15, rk_Instances = [\<lparr>ip_ID = 1, ip_Pos = 20\<rparr>]\<rparr>"


lemma mgetz_group: "mgetz [] (fold (\<lambda>(roomID, r) out. mput roomID (mgetz [] out roomID @ [r]) out) rows m) room =
    mgetz [] m room @ map snd (filter (\<lambda>(roomID, r). roomID = room) rows)"
  by (induction rows arbitrary: m) auto

text \<open>The receipts of a timeline are those of its own events, in their rooms.\<close>

theorem timeline_receipts_exact:
  assumes "q (mkeys timeline) (concat (map snd timeline)) = Inr rows" and "concat (map snd timeline) \<noteq> []" and "mwf timeline"
  shows "\<exists>out. ReceiptsForEvents q timeline = Inr out \<and>
    (\<forall>room. mgetz [] out room = map snd (filter (\<lambda>(roomID, r). roomID = room \<and> rr_EventID r \<in> set (mgetz [] timeline room)) rows))"
proof -
  have wanted: "(room, e) \<in> set (concat (map (\<lambda>(roomID, ids). map (Pair roomID) ids) timeline)) \<longleftrightarrow> e \<in> set (mgetz [] timeline room)" for room e
    using assms(3) by (auto simp: mgetz_def split: option.splits dest: map_of_SomeD)
  let ?kept = "filter (\<lambda>(roomID, r). rr_EventID r \<in> set (mgetz [] timeline roomID)) rows"
  have "timeline \<noteq> []" using assms(2) by auto
  with assms(1,2) have "ReceiptsForEvents q timeline = Inr (group_receipts ?kept)" unfolding ReceiptsForEvents_def Let_def wanted by (simp del: concat_eq_Nil_conv)
  moreover have "mgetz [] (group_receipts ?kept) room = map snd (filter (\<lambda>(roomID, r). roomID = room \<and> rr_EventID r \<in> set (mgetz [] timeline room)) rows)" for room
    unfolding group_receipts_def mgetz_group filter_filter by (auto simp: mgetz_def [of _ "[]"] intro!: arg_cong [where f = "map snd"] filter_cong)
  ultimately show ?thesis by blast
qed

end
