(* ===== verification/Room_Lists.thy ===== *)
theory Room_Lists
  imports Sliding_Request Sliding_Queries Sliding_Store
begin

text \<open>
  Which rooms a sliding sync response is about: \<^verbatim>\<open>internal/slidingsync/roomlists.go\<close> and
  \<^verbatim>\<open>internal/slidingsync/rewind.go\<close>. The queries are the fields of \<open>Deps\<close>; what the store does with their rows is
  modelled in \<open>Sliding_Queries\<close>. \<open>ord\<close> is the order in which a Go map used as a set is visited. A slice
  expression that would panic is the error \<open>SliceBounds\<close>.
\<close>

section \<open>Types\<close>

record ListOp =
  op_Op :: string
  op_Range :: "int \<times> int"
  op_RoomIDs :: "string list"

record ListResult =
  lr_Count :: int
  lr_Ops :: "ListOp list"

record RoomLists =
  rl_Lists :: "(string, ListResult) gomap"
  rl_Relevant :: "(string, RoomSyncConfig) gomap"
  rl_AllRooms :: "string set"
  rl_Membership :: "(string, SlidingRoom) gomap"
  rl_DMRooms :: "string set"
  rl_NewlyJoined :: "string set"
  rl_NewlyLeft :: "string set"

text \<open>The queries of the store, the answers of \<^verbatim>\<open>IgnoredUsers\<close>, \<^verbatim>\<open>InstanceIDs\<close> and \<^verbatim>\<open>RoomInfo\<close>, what the
  configuration says, and the lower case of a string that is not ASCII.\<close>

record Deps =
  dp_rooms :: "string \<Rightarrow> SlidingRoom answer"
  dp_selfLeaves :: "string \<Rightarrow> int \<Rightarrow> SlidingRoom answer"
  dp_ignored :: "string \<Rightarrow> string + string set"
  dp_changes :: "string \<Rightarrow> int \<Rightarrow> int \<Rightarrow> change_row answer"
  dp_deltas :: "string \<Rightarrow> int \<Rightarrow> int \<Rightarrow> delta_row answer"
  dp_instances :: "string + (string, int) gomap"
  dp_roomVersion :: "string \<Rightarrow> string + string"
  dp_direct :: "string \<Rightarrow> string + string option option"
  dp_parse :: "string \<Rightarrow> json"
  dp_joined :: "string list \<Rightarrow> SlidingJoinedRoom answer"
  dp_tags :: "string \<Rightarrow> (string \<times> string) answer"
  dp_partial :: "string answer"
  dp_lastPos :: "string list \<Rightarrow> int \<Rightarrow> (string \<times> int option) answer"
  dp_ExcludedRooms :: "string set"
  dp_ServerName :: string
  dp_unicodeLower :: "string \<Rightarrow> string"

datatype lists_error = StoreError string | SpacesFilter | InList string lists_error | SliceBounds | UnknownPosition

section \<open>Rewinding to a token\<close>

datatype membershipRewind = RewindDrop | RewindTo SlidingRoom

definition snapshot_clock :: "(string, SlidingRoom) gomap \<Rightarrow> (string, int) gomap" where
  "snapshot_clock rooms = fold (\<lambda>(roomID, r) byInstance.
     let instance = (if sm_EventInstance r = [] then ''master'' else sm_EventInstance r)
     in if sm_EventStream r > mgetz 0 byInstance instance then mput instance (sm_EventStream r) byInstance else byInstance) rooms []"

definition lowest_pos :: "(string, int) gomap \<Rightarrow> int" where
  "lowest_pos byInstance = (case map snd byInstance of [] \<Rightarrow> 0 | p # ps \<Rightarrow> fold (\<lambda>pos m. if pos < m then pos else m) ps p)"

definition snapshot_key :: "(string, int) gomap \<Rightarrow> (string, int) gomap \<Rightarrow> RoomKey" where
  "snapshot_key byInstance instanceIDs =
     (let minPos = lowest_pos byInstance
      in (Live minPos)\<lparr>rk_Instances := concat (map (\<lambda>name.
           let pos = mgetz 0 byInstance name
           in if pos \<le> minPos then []
              else (case mget instanceIDs name of None \<Rightarrow> [] | Some i \<Rightarrow> [\<lparr>ip_ID = i, ip_Pos = pos\<rparr>])) (sort (mkeys byInstance)))\<rparr>)"

definition first_after :: "DeltaMembershipChange list \<Rightarrow> (string, DeltaMembershipChange) gomap" where
  "first_after changes = fold (\<lambda>c out. if mget out (dm_RoomID c) = None then mput (dm_RoomID c) c out else out) changes []"

definition no_room :: SlidingRoom where
  "no_room = \<lparr>sm_RoomID = [], sm_Sender = [], sm_Membership = [], sm_EventID = [], sm_RoomVersion = [], sm_EventInstance = [], sm_EventStream = 0,
     sm_HasKnownState = False, sm_RoomType = None, sm_IsEncrypted = False\<rparr>"

definition rewind_room :: "Deps \<Rightarrow> (string, SlidingRoom) gomap \<Rightarrow> string \<Rightarrow> DeltaMembershipChange \<Rightarrow> membershipRewind" where
  "rewind_room d rooms roomID c =
     (if dm_PrevEventID c = [] then RewindDrop
      else if dm_PrevMembership c = [] \<or> dm_PrevSender c = [] then RewindDrop
      else
        let existing = mgetz no_room rooms roomID;
            rewound = \<lparr>sm_RoomID = roomID, sm_Sender = dm_PrevSender c, sm_Membership = dm_PrevMembership c, sm_EventID = dm_PrevEventID c,
              sm_RoomVersion = sm_RoomVersion existing, sm_EventInstance = dm_PrevInstance c, sm_EventStream = dm_PrevStreamPos c,
              sm_HasKnownState = sm_HasKnownState existing, sm_RoomType = sm_RoomType existing, sm_IsEncrypted = sm_IsEncrypted existing\<rparr>
        in if mget rooms roomID = None then
             (case dp_roomVersion d roomID of Inl e \<Rightarrow> RewindDrop | Inr version \<Rightarrow> RewindTo (rewound\<lparr>sm_RoomVersion := version\<rparr>))
           else RewindTo rewound)"

definition rewindToToken :: "Deps \<Rightarrow> string \<Rightarrow> (string, SlidingRoom) gomap \<Rightarrow> Token \<Rightarrow> string + (string, membershipRewind) gomap" where
  "rewindToToken d userID rooms to =
     (if rooms = [] then Inr []
      else
        let byInstance = snapshot_clock rooms
        in case dp_instances d of
             Inl e \<Rightarrow> Inl e
           | Inr instanceIDs \<Rightarrow>
               let snapshot = snapshot_key byInstance instanceIDs
               in if RoomKey_MaxStreamPos snapshot \<le> RoomKey_MaxStreamPos (tk_Room to) then Inr []
                  else (case CurrentStateDeltaMembershipChanges (dp_deltas d) (dp_instances d) userID (tk_Room to) snapshot (dp_ExcludedRooms d) of
                          Inl e \<Rightarrow> Inl e
                        | Inr changes \<Rightarrow> Inr (map (\<lambda>(roomID, c). (roomID, rewind_room d rooms roomID c)) (first_after changes))))"

definition newlyJoinedAndLeft ::
  "Deps \<Rightarrow> streamCaches option \<Rightarrow> string \<Rightarrow> Token option \<Rightarrow> Token \<Rightarrow>
   streamCaches option \<times> (string + string set \<times> (string, SlidingMembershipChange) gomap)" where
  "newlyJoinedAndLeft d p userID frm to =
     (case frm of
        None \<Rightarrow> (p, Inr ({}, []))
      | Some f \<Rightarrow>
          (case SlidingMembershipChanges (dp_changes d) (dp_instances d) p userID (tk_Room f) (tk_Room to) (dp_ExcludedRooms d) of
             (p', Inl e) \<Rightarrow> (p', Inl e)
           | (p', Inr changes) \<Rightarrow>
               (p', Inr (fst ` set (filter (\<lambda>(roomID, c). mc_Membership c = ''join'') changes), filter (\<lambda>(roomID, c). mc_Membership c = ''leave'') changes))))"

section \<open>Filtering\<close>

definition roomTypeMatches :: "string option list \<Rightarrow> string option \<Rightarrow> bool" where
  "roomTypeMatches wanted actual = list_ex (\<lambda>w. case (w, actual) of (None, None) \<Rightarrow> True | (Some a, Some b) \<Rightarrow> a = b | _ \<Rightarrow> False) wanted"

definition anyTag :: "string set \<Rightarrow> string list \<Rightarrow> bool" where
  "anyTag have_tags wanted = list_ex (\<lambda>t. t \<in> have_tags) wanted"

text \<open>\<^verbatim>\<open>strings.ToLower\<close> maps the bytes of an ASCII string; \<^verbatim>\<open>strings.Contains\<close>.\<close>

definition ToLower :: "(string \<Rightarrow> string) \<Rightarrow> string \<Rightarrow> string" where
  "ToLower unicode s = (if list_all (\<lambda>c. (of_char c :: nat) < 128) s then map lower s else unicode s)"

definition Contains :: "string \<Rightarrow> string \<Rightarrow> bool" where
  "Contains s sub = list_ex (\<lambda>i. take (length sub) (drop i s) = sub) [0..<Suc (length s)]"

definition name_matches :: "(string \<Rightarrow> string) \<Rightarrow> (string, SlidingJoinedRoom) gomap \<Rightarrow> string \<Rightarrow> string \<Rightarrow> bool" where
  "name_matches unicode meta roomID like =
     (case mget meta roomID of
        None \<Rightarrow> False
      | Some m \<Rightarrow> (case sj_RoomName m of None \<Rightarrow> False | Some n \<Rightarrow> Contains (ToLower unicode n) (ToLower unicode like)))"

definition passes_filters ::
  "(string \<Rightarrow> string) \<Rightarrow> (string, SlidingJoinedRoom) gomap \<Rightarrow> Filters \<Rightarrow> string set \<Rightarrow> (string, string set) gomap \<Rightarrow> string \<Rightarrow> SlidingRoom \<Rightarrow> bool" where
  "passes_filters unicode meta f dmRooms tags roomID r =
     (if (case fl_IsDM f of None \<Rightarrow> False | Some b \<Rightarrow> (roomID \<in> dmRooms) \<noteq> b) then False
      else if (case fl_IsInvite f of None \<Rightarrow> False | Some b \<Rightarrow> (sm_Membership r = ''invite'') \<noteq> b) then False
      else if (case fl_IsEncrypted f of None \<Rightarrow> False | Some b \<Rightarrow> sm_IsEncrypted r \<noteq> b) then False
      else if (case fl_RoomTypes f of None \<Rightarrow> False | Some ts \<Rightarrow> \<not> roomTypeMatches ts (sm_RoomType r)) then False
      else if (case fl_NotRoomTypes f of None \<Rightarrow> False | Some ts \<Rightarrow> roomTypeMatches ts (sm_RoomType r)) then False
      else if (case fl_RoomNameLike f of None \<Rightarrow> False | Some like \<Rightarrow> \<not> name_matches unicode meta roomID like) then False
      else if fl_Tags f \<noteq> [] \<and> \<not> anyTag (mgetz {} tags roomID) (fl_Tags f) then False
      else if fl_NotTags f \<noteq> [] \<and> anyTag (mgetz {} tags roomID) (fl_NotTags f) then False
      else True)"

definition filterRooms ::
  "(string \<Rightarrow> string) \<Rightarrow> (string, SlidingRoom) gomap \<Rightarrow> (string, SlidingJoinedRoom) gomap \<Rightarrow> Filters \<Rightarrow> string set \<Rightarrow> (string, string set) gomap \<Rightarrow>
   lists_error + (string, SlidingRoom) gomap" where
  "filterRooms unicode rooms meta f dmRooms tags =
     (if fl_Spaces f \<noteq> [] then Inl SpacesFilter else Inr (filter (\<lambda>(roomID, r). passes_filters unicode meta f dmRooms tags roomID r) rooms))"

section \<open>Sorting and windows\<close>

text \<open>The position a room is ordered by, nothing when the latest event is ahead of the token.\<close>

definition sort_position :: "(string, SlidingJoinedRoom) gomap \<Rightarrow> int \<Rightarrow> string \<Rightarrow> SlidingRoom \<Rightarrow> int option" where
  "sort_position meta cap roomID r =
     (if sm_Membership r \<noteq> ''join'' then Some (sm_EventStream r)
      else case mget meta roomID of
             None \<Rightarrow> Some (sm_EventStream r)
           | Some m \<Rightarrow> if sj_EventStream m > cap then None else Some (sj_EventStream m))"

definition first_positions :: "(string, SlidingJoinedRoom) gomap \<Rightarrow> int \<Rightarrow> (string, SlidingRoom) gomap \<Rightarrow> (string, int) gomap" where
  "first_positions meta cap rooms = concat (map (\<lambda>(roomID, r). case sort_position meta cap roomID r of None \<Rightarrow> [] | Some p \<Rightarrow> [(roomID, p)]) rooms)"

definition recheck_rooms :: "(string, SlidingJoinedRoom) gomap \<Rightarrow> int \<Rightarrow> (string, SlidingRoom) gomap \<Rightarrow> string list" where
  "recheck_rooms meta cap rooms = map fst (filter (\<lambda>(roomID, r). sort_position meta cap roomID r = None) rooms)"

definition sort_ids :: "(string, int) gomap \<Rightarrow> string list" where
  "sort_ids positions = sort_key (\<lambda>i. (- mgetz 0 positions i, i)) (mkeys positions)"

definition room_positions ::
  "Deps \<Rightarrow> (string, SlidingRoom) gomap \<Rightarrow> (string, SlidingJoinedRoom) gomap \<Rightarrow> Token \<Rightarrow> lists_error + (string, int) gomap" where
  "room_positions d rooms meta now =
     (let cap = RoomKey_MaxStreamPos (tk_Room now); positions = first_positions meta cap rooms; recheck = recheck_rooms meta cap rooms
      in if recheck = [] then Inr positions
         else (case LastEventPosBefore (dp_lastPos d) recheck cap of
                 Inl e \<Rightarrow> Inl (StoreError e)
               | Inr capped \<Rightarrow> Inr (fold (\<lambda>roomID out. case mget capped roomID of None \<Rightarrow> out | Some pos \<Rightarrow> mput roomID pos out) recheck positions)))"

definition sortRooms ::
  "Deps \<Rightarrow> (string, SlidingRoom) gomap \<Rightarrow> (string, SlidingJoinedRoom) gomap \<Rightarrow> Token \<Rightarrow> int \<Rightarrow> lists_error + string list" where
  "sortRooms d rooms meta now limit =
     map_sum id (\<lambda>positions. let ids = sort_ids positions in if limit > 0 \<and> limit < int (length ids) then take (nat limit) ids else ids)
       (room_positions d rooms meta now)"

definition cut_range :: "string list \<Rightarrow> int \<times> int \<Rightarrow> lists_error + ListOp" where
  "cut_range ids rng =
     (let start = fst rng; stop = snd rng
      in if start < int (length ids) then
           (if start < 0 then Inl SliceBounds
            else Inr \<lparr>op_Op = ''SYNC'', op_Range = rng, op_RoomIDs = take (nat (wrap64 (wrap64 (stop - start) + 1))) (drop (nat start) ids)\<rparr>)
         else Inr \<lparr>op_Op = ''SYNC'', op_Range = rng, op_RoomIDs = []\<rparr>)"

fun cut_ranges :: "string list \<Rightarrow> (int \<times> int) list \<Rightarrow> lists_error + ListOp list" where
  "cut_ranges ids [] = Inr []"
| "cut_ranges ids (rng # rngs) =
     (case cut_range ids rng of
        Inl e \<Rightarrow> Inl e
      | Inr op \<Rightarrow> (case cut_ranges ids rngs of Inl e \<Rightarrow> Inl e | Inr ops \<Rightarrow> Inr (op # ops)))"

definition window_limit :: "(int \<times> int) list \<Rightarrow> int" where
  "window_limit ranges = fold (\<lambda>rng limit. if wrap64 (snd rng + 1) > limit then wrap64 (snd rng + 1) else limit) ranges 0"

definition windowRooms ::
  "Deps \<Rightarrow> SlidingList \<Rightarrow> (string, SlidingRoom) gomap \<Rightarrow> (string, SlidingJoinedRoom) gomap \<Rightarrow> Token \<Rightarrow> lists_error + ListOp list" where
  "windowRooms d l filtered meta now =
     (let whole = sl_SlowGetAllRooms l \<or> sl_Ranges l = []; ranges = (if whole then [(0, int (length filtered) - 1)] else sl_Ranges l)
      in if whole \<and> filtered = [] then Inr []
         else (case sortRooms d filtered meta now (window_limit ranges) of Inl e \<Rightarrow> Inl e | Inr ids \<Rightarrow> cut_ranges ids ranges))"

section \<open>The lists\<close>

definition membershipIsRelevant :: "string \<Rightarrow> SlidingRoom \<Rightarrow> bool" where
  "membershipIsRelevant userID r = (if sm_Membership r \<noteq> ''leave'' then True else sm_Sender r \<noteq> [] \<and> sm_Sender r \<noteq> userID)"

definition requestUsesTagFilters :: "Request \<Rightarrow> bool" where
  "requestUsesTagFilters req = list_ex (\<lambda>(key, l). case sl_Filters l of None \<Rightarrow> False | Some f \<Rightarrow> fl_Tags f \<noteq> [] \<or> fl_NotTags f \<noteq> []) (req_Lists req)"

definition addRelevant :: "(string set \<Rightarrow> string list) \<Rightarrow> string \<Rightarrow> RoomSyncConfig \<Rightarrow> (string, RoomSyncConfig) gomap \<Rightarrow> (string, RoomSyncConfig) gomap" where
  "addRelevant ord roomID cfg relevant =
     (case mget relevant roomID of
        Some existing \<Rightarrow> mput roomID (CombineRoomSyncConfig ord existing cfg) relevant
      | None \<Rightarrow> mput roomID cfg relevant)"

text \<open>The rooms of the user as of the token, with the changes since \<open>frm\<close>. An error ends the request.\<close>

definition without_ignored :: "string set \<Rightarrow> (string, SlidingRoom) gomap \<Rightarrow> (string, SlidingRoom) gomap" where
  "without_ignored ignored rooms = filter (\<lambda>(roomID, r). \<not> (sm_Membership r = ''invite'' \<and> sm_Sender r \<noteq> [] \<and> sm_Sender r \<in> ignored)) rooms"

definition apply_rewind :: "(string, membershipRewind) gomap \<Rightarrow> (string, SlidingRoom) gomap \<Rightarrow> (string, SlidingRoom) gomap" where
  "apply_rewind rewind rooms = fold (\<lambda>(roomID, change) out. case change of RewindDrop \<Rightarrow> mdel roomID out | RewindTo r \<Rightarrow> mput roomID r out) rewind rooms"

definition left_room :: "string \<Rightarrow> SlidingMembershipChange \<Rightarrow> SlidingRoom" where
  "left_room roomID c = \<lparr>sm_RoomID = roomID, sm_Sender = mc_Sender c, sm_Membership = mc_Membership c, sm_EventID = mc_EventID c,
     sm_RoomVersion = mc_RoomVersion c, sm_EventInstance = mc_Instance c, sm_EventStream = mc_StreamPos c, sm_HasKnownState = True,
     sm_RoomType = None, sm_IsEncrypted = False\<rparr>"

definition add_newly_left :: "(string, SlidingMembershipChange) gomap \<Rightarrow> (string, SlidingRoom) gomap \<Rightarrow> (string, SlidingRoom) gomap" where
  "add_newly_left newlyLeft rooms = fold (\<lambda>(roomID, c) out. if mget out roomID \<noteq> None then out else mput roomID (left_room roomID c) out) newlyLeft rooms"

definition relevant_rooms :: "string \<Rightarrow> (string, SlidingMembershipChange) gomap \<Rightarrow> (string, SlidingRoom) gomap \<Rightarrow> (string, SlidingRoom) gomap" where
  "relevant_rooms userID newlyLeft rooms = filter (\<lambda>(roomID, r). \<not> (\<not> membershipIsRelevant userID r \<and> mget newlyLeft roomID = None)) rooms"

abbreviation try_store :: "string + 'a \<Rightarrow> ('a \<Rightarrow> lists_error + 'b) \<Rightarrow> lists_error + 'b" where
  "try_store x k \<equiv> (case x of Inl e \<Rightarrow> Inl (StoreError e) | Inr v \<Rightarrow> k v)"

definition snapshot_rooms :: "Deps \<Rightarrow> string \<Rightarrow> Token \<Rightarrow> lists_error + (string, SlidingRoom) gomap" where
  "snapshot_rooms d userID now =
     try_store (SlidingRoomsForUser (dp_rooms d) userID) (\<lambda>rooms.
     try_store (SlidingSelfLeavesAfter (dp_selfLeaves d) userID (rk_Stream (tk_Room now))) (\<lambda>selfLeaves.
     try_store (dp_ignored d userID) (\<lambda>ignored.
     Inr (filter (\<lambda>(roomID, r). roomID \<notin> dp_ExcludedRooms d) (without_ignored ignored (mput_all selfLeaves rooms))))))"

definition rooms_at_token ::
  "Deps \<Rightarrow> string \<Rightarrow> Token \<Rightarrow> (string, SlidingMembershipChange) gomap \<Rightarrow> (string, SlidingRoom) gomap \<Rightarrow> lists_error + (string, SlidingRoom) gomap" where
  "rooms_at_token d userID now newlyLeft rooms =
     try_store (rewindToToken d userID rooms now) (\<lambda>rewind.
     Inr (relevant_rooms userID newlyLeft (add_newly_left newlyLeft (apply_rewind rewind rooms))))"

definition list_step ::
  "Deps \<Rightarrow> (string set \<Rightarrow> string list) \<Rightarrow> (string, SlidingRoom) gomap \<Rightarrow> (string, SlidingJoinedRoom) gomap \<Rightarrow> string set \<Rightarrow> (string, string set) gomap \<Rightarrow>
   string set \<Rightarrow> Token \<Rightarrow> string \<Rightarrow> SlidingList \<Rightarrow> RoomLists \<Rightarrow> lists_error + RoomLists" where
  "list_step d ord rooms meta dmRooms tags partial now listKey l out =
     (case (case sl_Filters l of None \<Rightarrow> Inr rooms | Some f \<Rightarrow> filterRooms (dp_unicodeLower d) rooms meta f dmRooms tags) of
        Inl e \<Rightarrow> Inl (InList listKey e)
      | Inr filtered \<Rightarrow>
          let listConfig = NewRoomSyncConfig (sl_Common l);
              shown = (if partial \<noteq> {} \<and> MustAwaitFullState ord listConfig (IsLocalUser (dp_ServerName d))
                       then filter (\<lambda>(roomID, r). roomID \<notin> partial) filtered else filtered)
          in case windowRooms d l shown meta now of
               Inl e \<Rightarrow> Inl (InList listKey e)
             | Inr ops \<Rightarrow> Inr (out\<lparr>
                 rl_AllRooms := rl_AllRooms out \<union> fst ` set filtered,
                 rl_Relevant := fold (\<lambda>roomID. addRelevant ord roomID listConfig) (concat (map op_RoomIDs ops)) (rl_Relevant out),
                 rl_Lists := mput listKey \<lparr>lr_Count = int (length shown), lr_Ops = ops\<rparr> (rl_Lists out)\<rparr>))"

fun lists_loop ::
  "Deps \<Rightarrow> (string set \<Rightarrow> string list) \<Rightarrow> (string, SlidingRoom) gomap \<Rightarrow> (string, SlidingJoinedRoom) gomap \<Rightarrow> string set \<Rightarrow> (string, string set) gomap \<Rightarrow>
   string set \<Rightarrow> Token \<Rightarrow> (string, SlidingList) gomap \<Rightarrow> RoomLists \<Rightarrow> lists_error + RoomLists" where
  "lists_loop d ord rooms meta dmRooms tags partial now [] out = Inr out"
| "lists_loop d ord rooms meta dmRooms tags partial now ((listKey, l) # ls) out =
     (case list_step d ord rooms meta dmRooms tags partial now listKey l out of
        Inl e \<Rightarrow> Inl e
      | Inr out' \<Rightarrow> lists_loop d ord rooms meta dmRooms tags partial now ls out')"

definition subscription_step ::
  "Deps \<Rightarrow> (string set \<Rightarrow> string list) \<Rightarrow> (string, SlidingRoom) gomap \<Rightarrow> string set \<Rightarrow> string \<times> RoomSubscribe \<Rightarrow> RoomLists \<Rightarrow> RoomLists" where
  "subscription_step d ord rooms partial rs out =
     (case rs of (roomID, sub) \<Rightarrow>
        let subConfig = NewRoomSyncConfig (sub_Common sub)
        in if mget rooms roomID = None then out
           else if roomID \<in> partial \<and> MustAwaitFullState ord subConfig (IsLocalUser (dp_ServerName d)) then out
           else out\<lparr>rl_AllRooms := insert roomID (rl_AllRooms out), rl_Relevant := addRelevant ord roomID subConfig (rl_Relevant out)\<rparr>)"

definition resolve_lists ::
  "Deps \<Rightarrow> (string set \<Rightarrow> string list) \<Rightarrow> string \<Rightarrow> Request \<Rightarrow> Token \<Rightarrow> (string, SlidingRoom) gomap \<Rightarrow> string set \<Rightarrow> (string, SlidingMembershipChange) gomap \<Rightarrow>
   lists_error + RoomLists" where
  "resolve_lists d ord userID req now rooms newlyJoined newlyLeft =
     try_store (DirectRooms (dp_parse d) (dp_direct d) userID) (\<lambda>dmRooms.
     try_store (SlidingJoinedRooms (dp_joined d) (mkeys rooms)) (\<lambda>meta.
     try_store (if requestUsesTagFilters req then RoomTagsForUser (dp_tags d) userID else Inr []) (\<lambda>tags.
     try_store (PartialStateRooms (dp_partial d)) (\<lambda>partial.
     let out = \<lparr>rl_Lists = [], rl_Relevant = [], rl_AllRooms = {}, rl_Membership = rooms, rl_DMRooms = dmRooms, rl_NewlyJoined = newlyJoined,
           rl_NewlyLeft = fst ` set newlyLeft\<rparr>
     in case lists_loop d ord rooms meta dmRooms tags partial now (req_Lists req) out of
          Inl e \<Rightarrow> Inl e
        | Inr out \<Rightarrow> Inr (fold (subscription_step d ord rooms partial) (req_RoomSubscriptions req) out)))))"

definition ComputeRoomLists ::
  "Deps \<Rightarrow> (string set \<Rightarrow> string list) \<Rightarrow> streamCaches option \<Rightarrow> string \<Rightarrow> Request \<Rightarrow> Token option \<Rightarrow> Token \<Rightarrow> streamCaches option \<times> (lists_error + RoomLists)" where
  "ComputeRoomLists d ord p userID req frm now =
     (case snapshot_rooms d userID now of
        Inl e \<Rightarrow> (p, Inl e)
      | Inr rooms \<Rightarrow>
          (case newlyJoinedAndLeft d p userID frm now of
             (p', Inl e) \<Rightarrow> (p', Inl (StoreError e))
           | (p', Inr (newlyJoined, newlyLeft)) \<Rightarrow>
               (p', case rooms_at_token d userID now newlyLeft rooms of
                      Inl e \<Rightarrow> Inl e
                    | Inr rooms \<Rightarrow> resolve_lists d ord userID req now rooms newlyJoined newlyLeft)))"

section \<open>Which rooms are sent\<close>

definition NumRoomsThreshold :: int where "NumRoomsThreshold = 100"
definition MinimumNotUsedAge :: int where "MinimumNotUsedAge = 60 * 60 * 1000"

definition roomsWithUpdates ::
  "streamCaches option \<Rightarrow> string list \<Rightarrow> (string, SlidingJoinedRoom) gomap \<Rightarrow> Token \<Rightarrow> streamCaches option \<times> string list" where
  "roomsWithUpdates p roomIDs meta frm =
     (case RoomsWithEventsSince p roomIDs (rk_Stream (tk_Room frm)) of
        (p', narrowed) \<Rightarrow>
          (p', if length narrowed < length roomIDs then narrowed
               else filter (\<lambda>roomID. case mget meta roomID of None \<Rightarrow> True | Some m \<Rightarrow> sj_EventStream m > rk_Stream (tk_Room frm)) roomIDs))"

definition sameRoomSyncConfig :: "RoomSyncConfig \<Rightarrow> RoomSyncConfig \<Rightarrow> bool" where
  "sameRoomSyncConfig a b =
     (if rc_TimelineLimit a \<noteq> rc_TimelineLimit b then False
      else if length (rc_RequiredState a) \<noteq> length (rc_RequiredState b) then False
      else list_all (\<lambda>(eventType, ks).
        case mget (rc_RequiredState b) eventType of None \<Rightarrow> False | Some other \<Rightarrow> card ks = card other \<and> ks \<subseteq> other) (rc_RequiredState a))"

definition must_send :: "(string set \<Rightarrow> string list) \<Rightarrow> PerConnectionState \<Rightarrow> string \<Rightarrow> RoomSyncConfig \<Rightarrow> bool" where
  "must_send ord prev roomID cfg =
     (if (case mget (pc_RoomConfigs prev) roomID of None \<Rightarrow> False | Some prevCfg \<Rightarrow> \<not> sameRoomSyncConfig (CombineRoomSyncConfig ord prevCfg cfg) prevCfg) then True
      else let status = hs_Status (HaveSentRoom (pc_Rooms prev) roomID) in status = FlagNever \<or> status = FlagPreviously)"

definition filterRoomsToSend ::
  "(string set \<Rightarrow> string list) \<Rightarrow> streamCaches option \<Rightarrow> (string, RoomSyncConfig) gomap \<Rightarrow> (string, SlidingJoinedRoom) gomap \<Rightarrow> PerConnectionState option \<Rightarrow> Token option \<Rightarrow> int \<Rightarrow>
   streamCaches option \<times> (lists_error + (string, RoomSyncConfig) gomap)" where
  "filterRoomsToSend ord p relevant meta prev frm nowMS =
     (case (frm, prev) of
        (Some f, Some pr) \<Rightarrow>
          (if relevant = [] then (p, Inr relevant)
           else
             let roomIDs = sort (mkeys relevant); should = filter (\<lambda>roomID. case mget relevant roomID of None \<Rightarrow> False | Some cfg \<Rightarrow> must_send ord pr roomID cfg) roomIDs
             in case roomsWithUpdates p roomIDs meta f of
                  (p', updated) \<Rightarrow>
                    (p', if int (length updated) > NumRoomsThreshold \<and> (case pc_LastUsedMS pr of None \<Rightarrow> False | Some t \<Rightarrow> nowMS - t > MinimumNotUsedAge)
                         then Inl UnknownPosition
                         else Inr (filter (\<lambda>(roomID, cfg). roomID \<in> set should \<union> set updated) relevant)))
      | _ \<Rightarrow> (p, Inr relevant))"

section \<open>Windows\<close>

definition slice :: "string list \<Rightarrow> int \<times> int \<Rightarrow> string list" where
  "slice ids rng = take (nat (snd rng - fst rng + 1)) (drop (nat (fst rng)) ids)"

definition window_ranges :: "SlidingList \<Rightarrow> nat \<Rightarrow> (int \<times> int) list" where
  "window_ranges l n = (if sl_SlowGetAllRooms l \<or> sl_Ranges l = [] then (if n = 0 then [] else [(0, int n - 1)]) else sl_Ranges l)"

definition fair_range :: "int \<times> int \<Rightarrow> bool" where
  "fair_range rng \<longleftrightarrow> 0 \<le> fst rng \<and> fst rng \<le> int64_max \<and> 0 \<le> snd rng \<and> snd rng < int64_max"

lemma window_limit_bound:
  assumes "\<forall>rng \<in> set ranges. fair_range rng"
  shows "\<forall>rng \<in> set ranges. snd rng + 1 \<le> window_limit ranges"
proof -
  have "\<forall>rng \<in> set ranges. snd rng + 1 \<le> fold (\<lambda>rng limit. if wrap64 (snd rng + 1) > limit then wrap64 (snd rng + 1) else limit) ranges n \<and>
      n \<le> fold (\<lambda>rng limit. if wrap64 (snd rng + 1) > limit then wrap64 (snd rng + 1) else limit) ranges n" for n
    using assms
  proof (induction ranges arbitrary: n)
    case (Cons r ranges)
    have w: "wrap64 (snd r + 1) = snd r + 1" using Cons.prems by (simp add: fair_range_def int64_def)
    have low: "m \<le> fold (\<lambda>rng limit. if wrap64 (snd rng + 1) > limit then wrap64 (snd rng + 1) else limit) ranges m" for m
      by (induction ranges arbitrary: m) (auto intro: order_trans order_less_imp_le)
    show ?case using Cons.IH [of "if wrap64 (snd r + 1) > n then wrap64 (snd r + 1) else n"] Cons.prems low [of "snd r + 1"] low [of n] w by (auto intro: order_trans)
  qed simp
  then show ?thesis unfolding window_limit_def by blast
qed

lemma cut_slice:
  assumes "fair_range rng" and "snd rng + 1 \<le> limit"
  shows "cut_range (if limit > 0 \<and> limit < int (length ids) then take (nat limit) ids else ids) rng =
    Inr \<lparr>op_Op = ''SYNC'', op_Range = rng, op_RoomIDs = slice ids rng\<rparr>"
proof -
  obtain a b where r: "rng = (a, b)" by force
  have b: "0 \<le> a" "0 \<le> b" "a \<le> int64_max" "b < int64_max" "b + 1 \<le> limit" using assms by (simp_all add: r fair_range_def)
  then have w: "wrap64 (wrap64 (b - a) + 1) = b - a + 1" by (simp add: int64_def)
  have same: "take (nat (b - a + 1)) (drop (nat a) (take (nat limit) ids)) = take (nat (b - a + 1)) (drop (nat a) ids)"
  proof (cases "b - a + 1 \<le> 0")
    case False
    then have "nat (b - a + 1) \<le> nat limit - nat a" using b by linarith
    then show ?thesis by (simp add: drop_take min_def)
  qed simp
  have far: "take (nat (b - a + 1)) (drop (nat a) ids) = []" if "limit \<le> a" using that b by simp
  show ?thesis
    using b same far by (auto simp: cut_range_def r slice_def w)
qed

lemma cut_slices:
  assumes "\<forall>rng \<in> set ranges. fair_range rng \<and> snd rng + 1 \<le> limit"
  shows "cut_ranges (if limit > 0 \<and> limit < int (length ids) then take (nat limit) ids else ids) ranges =
    Inr (map (\<lambda>rng. \<lparr>op_Op = ''SYNC'', op_Range = rng, op_RoomIDs = slice ids rng\<rparr>) ranges)"
  using assms by (induction ranges) (simp_all add: cut_slice del: if_split)

text \<open>
  A window is a slice of the whole sorted list. Each range of a list gets the rooms at its positions in the
  list of all filtered rooms, although only as many as the largest range needs are kept; no range, or the
  request for all rooms, gives every room in one operation; and a range past the end is empty, never an error.
  The end of a range must be below the largest 64-bit integer.
\<close>

theorem window_is_slice:
  assumes "\<forall>rng \<in> set (sl_Ranges l). fair_range rng" and "int (length filtered) < int64_max" and "room_positions d filtered meta now = Inr positions"
  shows "windowRooms d l filtered meta now =
    Inr (map (\<lambda>rng. \<lparr>op_Op = ''SYNC'', op_Range = rng, op_RoomIDs = slice (sort_ids positions) rng\<rparr>) (window_ranges l (length filtered)))"
proof (cases "(sl_SlowGetAllRooms l \<or> sl_Ranges l = []) \<and> filtered = []")
  case True
  then show ?thesis by (auto simp: windowRooms_def window_ranges_def)
next
  case False
  let ?ranges = "window_ranges l (length filtered)"
  have r: "(if sl_SlowGetAllRooms l \<or> sl_Ranges l = [] then [(0, int (length filtered) - 1)] else sl_Ranges l) = ?ranges"
    using False by (auto simp: window_ranges_def)
  have fair: "\<forall>rng \<in> set ?ranges. fair_range rng" using assms(1,2) False by (auto simp: window_ranges_def fair_range_def Suc_leI)
  note cut = cut_slices [of ?ranges "window_limit ?ranges" "sort_ids positions"]
  show ?thesis using False assms(3) cut fair window_limit_bound [OF fair]
    by (auto simp: windowRooms_def r sortRooms_def Let_def simp del: if_split)
qed

section \<open>Order\<close>

text \<open>The position a room is listed at.\<close>

definition listed_at :: "Deps \<Rightarrow> (string, SlidingJoinedRoom) gomap \<Rightarrow> (string, int) gomap \<Rightarrow> int \<Rightarrow> string \<Rightarrow> SlidingRoom \<Rightarrow> int option" where
  "listed_at d meta capped cap roomID r = (case sort_position meta cap roomID r of Some p \<Rightarrow> Some p | None \<Rightarrow> mget capped roomID)"

lemma first_positions_simps [simp]:
  "first_positions meta cap [] = []"
  "first_positions meta cap ((k, r) # rooms) =
     (case sort_position meta cap k r of None \<Rightarrow> first_positions meta cap rooms | Some p \<Rightarrow> (k, p) # first_positions meta cap rooms)"
  by (simp_all add: first_positions_def split: option.split)

lemma first_positions_lookup:
  assumes "mwf rooms"
  shows "mget (first_positions meta cap rooms) room = Option.bind (mget rooms room) (sort_position meta cap room)"
    and "fst ` set (first_positions meta cap rooms) \<subseteq> fst ` set rooms" and "mwf (first_positions meta cap rooms)"
proof -
  show sub: "fst ` set (first_positions meta cap m) \<subseteq> fst ` set m" for m :: "(string, SlidingRoom) gomap"
    by (force simp: first_positions_def split: option.splits)
  show "mwf (first_positions meta cap rooms)" using assms
  proof (induction rooms)
    case (Cons x rooms)
    then show ?case using sub [of rooms] by (cases x) (auto split: option.split)
  qed simp
  show "mget (first_positions meta cap rooms) room = Option.bind (mget rooms room) (sort_position meta cap room)" using assms
  proof (induction rooms)
    case (Cons x rooms)
    then have "mget (first_positions meta cap rooms) (fst x) = None" using sub [of rooms] by (auto simp: map_of_eq_None_iff simp del: map_of_eq_Some_iff)
    with Cons show ?case by (cases x) (auto simp del: map_of_eq_Some_iff split: option.split)
  qed simp
qed

lemma recheck_fold:
  "mget (fold (\<lambda>roomID out. case mget capped roomID of None \<Rightarrow> out | Some pos \<Rightarrow> mput roomID pos out) ids m) room =
    (if room \<in> set ids \<and> mget capped room \<noteq> None then mget capped room else mget m room)"
  "mwf m \<Longrightarrow> mwf (fold (\<lambda>roomID out. case mget capped roomID of None \<Rightarrow> out | Some pos \<Rightarrow> mput roomID pos out) ids m)"
  by (induction ids arbitrary: m) (auto simp del: map_of_eq_Some_iff split: option.split)

lemma room_positions_lookup:
  assumes "room_positions d rooms meta now = Inr positions" and "mwf rooms"
  obtains capped where "mwf positions"
    "\<And>room. mget positions room = Option.bind (mget rooms room) (listed_at d meta capped (RoomKey_MaxStreamPos (tk_Room now)) room)"
    "recheck_rooms meta (RoomKey_MaxStreamPos (tk_Room now)) rooms \<noteq> [] \<longrightarrow>
      LastEventPosBefore (dp_lastPos d) (recheck_rooms meta (RoomKey_MaxStreamPos (tk_Room now)) rooms) (RoomKey_MaxStreamPos (tk_Room now)) = Inr capped"
proof -
  let ?cap = "RoomKey_MaxStreamPos (tk_Room now)"
  let ?recheck = "recheck_rooms meta ?cap rooms"
  note look = first_positions_lookup [OF assms(2), of meta ?cap]
  have mem: "room \<in> set ?recheck \<longleftrightarrow> (\<exists>r. mget rooms room = Some r \<and> sort_position meta ?cap room r = None)" for room
    using assms(2) by (force simp: recheck_rooms_def)
  show thesis
  proof (cases "?recheck = []")
    case True
    with assms(1) have p: "positions = first_positions meta ?cap rooms" by (simp add: room_positions_def Let_def)
    have "mget positions room = Option.bind (mget rooms room) (listed_at d meta [] ?cap room)" for room
      using mem [of room] True unfolding p look(1) by (cases "mget rooms room") (auto simp: listed_at_def split: option.split)
    with p look(3) True show thesis by (intro that [of "[]"]) auto
  next
    case False
    with assms(1) obtain capped where c: "LastEventPosBefore (dp_lastPos d) ?recheck ?cap = Inr capped"
      "positions = fold (\<lambda>roomID out. case mget capped roomID of None \<Rightarrow> out | Some pos \<Rightarrow> mput roomID pos out) ?recheck (first_positions meta ?cap rooms)"
      by (auto simp: room_positions_def Let_def split: sum.splits)
    have "mget positions room = Option.bind (mget rooms room) (listed_at d meta capped ?cap room)" for room
      using mem [of room] unfolding c(2) recheck_fold(1) look(1)
      by (cases "mget rooms room"; cases "mget capped room") (auto simp: listed_at_def simp del: map_of_eq_Some_iff split: option.split)
    with c recheck_fold(2) [OF look(3)] show thesis by (intro that [of capped]) auto
  qed
qed

lemma sort_ids_ordered:
  assumes "mwf positions"
  shows "sorted_wrt (\<lambda>a b. mgetz 0 positions a > mgetz 0 positions b \<or> mgetz 0 positions a = mgetz 0 positions b \<and> a < b) (sort_ids positions)"
    and "set (sort_ids positions) = fst ` set positions" and "distinct (sort_ids positions)"
proof -
  show "set (sort_ids positions) = fst ` set positions" "distinct (sort_ids positions)" using assms by (simp_all add: sort_ids_def)
  let ?k = "\<lambda>i. (- mgetz 0 positions i, i)"
  have "sorted (map ?k (sort_ids positions))" by (simp add: sort_ids_def)
  moreover have "distinct (map ?k (sort_ids positions))" using assms by (simp add: sort_ids_def distinct_map inj_on_def)
  ultimately have "sorted_wrt (<) (map ?k (sort_ids positions))" by (simp add: strict_sorted_iff)
  then show "sorted_wrt (\<lambda>a b. mgetz 0 positions a > mgetz 0 positions b \<or> mgetz 0 positions a = mgetz 0 positions b \<and> a < b) (sort_ids positions)"
    unfolding sorted_wrt_map by (rule sorted_wrt_mono_rel [rotated]) auto
qed

text \<open>
  The order of a list is by what the user may see. A room the user is not joined to is placed by the user's own
  membership event; a joined one by its latest event, or, when that is ahead of the token, by the latest event at
  or below it, and left out when there is none. The list has the newest first, each room once, ties by room id, so
  it does not depend on the order of the maps.
\<close>

theorem list_order_is_visible_activity:
  assumes "mwf rooms" and "room_positions d rooms meta now = Inr positions"
  shows "\<exists>capped. (recheck_rooms meta (RoomKey_MaxStreamPos (tk_Room now)) rooms \<noteq> [] \<longrightarrow>
      LastEventPosBefore (dp_lastPos d) (recheck_rooms meta (RoomKey_MaxStreamPos (tk_Room now)) rooms) (RoomKey_MaxStreamPos (tk_Room now)) = Inr capped) \<and>
    (let pos = (\<lambda>room. Option.bind (mget rooms room) (listed_at d meta capped (RoomKey_MaxStreamPos (tk_Room now)) room)) in
     set (sort_ids positions) = {room. pos room \<noteq> None} \<and> distinct (sort_ids positions) \<and>
     sorted_wrt (\<lambda>a b. the (pos a) > the (pos b) \<or> the (pos a) = the (pos b) \<and> a < b) (sort_ids positions))"
proof -
  obtain capped where wf: "mwf positions"
    and look: "\<And>room. mget positions room = Option.bind (mget rooms room) (listed_at d meta capped (RoomKey_MaxStreamPos (tk_Room now)) room)"
    and cap: "recheck_rooms meta (RoomKey_MaxStreamPos (tk_Room now)) rooms \<noteq> [] \<longrightarrow>
      LastEventPosBefore (dp_lastPos d) (recheck_rooms meta (RoomKey_MaxStreamPos (tk_Room now)) rooms) (RoomKey_MaxStreamPos (tk_Room now)) = Inr capped"
    by (rule room_positions_lookup [OF assms(2,1)]) blast
  note ord = sort_ids_ordered [OF wf]
  have get: "mgetz 0 positions room = the (mget positions room)" if "room \<in> set (sort_ids positions)" for room
    using that ord(2) by (auto simp: mgetz_def map_of_eq_None_iff simp del: map_of_eq_Some_iff split: option.split)
  have "sorted_wrt (\<lambda>a b. the (mget positions a) > the (mget positions b) \<or> the (mget positions a) = the (mget positions b) \<and> a < b) (sort_ids positions)"
    by (rule sorted_wrt_mono_rel [OF _ ord(1)]) (auto simp: get)
  moreover have "set (sort_ids positions) = {room. mget positions room \<noteq> None}" unfolding ord(2) by (auto simp: map_of_eq_None_iff simp del: map_of_eq_Some_iff)
  ultimately show ?thesis using cap ord(3) unfolding look Let_def by blast
qed

section \<open>Who is in the lists\<close>

lemma positions_keys:
  assumes "room_positions d rooms meta now = Inr positions"
  shows "fst ` set positions \<subseteq> fst ` set rooms"
proof -
  have f: "fst ` set (first_positions meta cap m) \<subseteq> fst ` set m" for cap and m :: "(string, SlidingRoom) gomap"
    by (force simp: first_positions_def split: option.splits)
  have r: "set (recheck_rooms meta cap rooms) \<subseteq> fst ` set rooms" for cap by (auto simp: recheck_rooms_def)
  have "fst ` set (fold (\<lambda>roomID out. case mget capped roomID of None \<Rightarrow> out | Some pos \<Rightarrow> mput roomID pos out) ids m) \<subseteq> set ids \<union> fst ` set m"
    for capped :: "(string, int) gomap" and ids m
  proof (induction ids arbitrary: m)
    case (Cons a ids)
    show ?case using Cons.IH [of "case mget capped a of None \<Rightarrow> m | Some pos \<Rightarrow> mput a pos m"] by (auto split: option.splits)
  qed simp
  note u = this
  let ?cap = "RoomKey_MaxStreamPos (tk_Room now)"
  show ?thesis
  proof (cases "recheck_rooms meta ?cap rooms = []")
    case True
    with assms f [of ?cap rooms] show ?thesis by (simp add: room_positions_def Let_def)
  next
    case False
    with assms obtain capped where
      "positions = fold (\<lambda>roomID out. case mget capped roomID of None \<Rightarrow> out | Some pos \<Rightarrow> mput roomID pos out) (recheck_rooms meta ?cap rooms) (first_positions meta ?cap rooms)"
      by (auto simp: room_positions_def Let_def split: sum.splits)
    with u [of capped "recheck_rooms meta ?cap rooms" "first_positions meta ?cap rooms"] r [of ?cap] f [of ?cap rooms] show ?thesis by blast
  qed
qed

lemma cut_ranges_subset:
  assumes "cut_ranges ids ranges = Inr ops"
  shows "set (concat (map op_RoomIDs ops)) \<subseteq> set ids"
  using assms
proof (induction ids ranges arbitrary: ops rule: cut_ranges.induct)
  case (2 ids rng rngs)
  then obtain op ops' where o: "cut_range ids rng = Inr op" "cut_ranges ids rngs = Inr ops'" "ops = op # ops'" by (auto split: sum.splits)
  have "set (op_RoomIDs op) \<subseteq> set ids" using o(1) by (auto simp: cut_range_def Let_def split: if_splits dest!: in_set_takeD in_set_dropD)
  with 2(1) [OF o(1,2)] o(3) show ?case by auto
qed simp

lemma window_subset:
  assumes "windowRooms d l filtered meta now = Inr ops"
  shows "set (concat (map op_RoomIDs ops)) \<subseteq> fst ` set filtered"
proof (cases "(sl_SlowGetAllRooms l \<or> sl_Ranges l = []) \<and> filtered = []")
  case True
  with assms show ?thesis by (auto simp: windowRooms_def)
next
  case False
  with assms obtain ids ranges limit where s: "sortRooms d filtered meta now limit = Inr ids" "cut_ranges ids ranges = Inr ops"
    by (auto simp: windowRooms_def Let_def split: sum.splits)
  from s(1) obtain positions where p: "room_positions d filtered meta now = Inr positions"
    "ids = (if limit > 0 \<and> limit < int (length (sort_ids positions)) then take (nat limit) (sort_ids positions) else sort_ids positions)"
    by (cases "room_positions d filtered meta now") (simp_all add: sortRooms_def Let_def)
  have sub: "set ids \<subseteq> set (sort_ids positions)" unfolding p(2) by (simp add: set_take_subset)
  also have "set (sort_ids positions) = fst ` set positions" by (simp add: sort_ids_def)
  also have "\<dots> \<subseteq> fst ` set filtered" by (rule positions_keys [OF p(1)])
  finally show ?thesis using cut_ranges_subset [OF s(2)] by (rule order_trans [rotated])
qed

lemma add_relevant_keys: "fst ` set (addRelevant ord room cfg m) = insert room (fst ` set m)"
  by (auto simp: addRelevant_def split: option.split)

lemma fold_add_relevant_keys: "fst ` set (fold (\<lambda>room. addRelevant ord room cfg) ids m) = set ids \<union> fst ` set m"
  by (induction ids arbitrary: m) (auto simp: add_relevant_keys)

definition lists_inv :: "(string, SlidingRoom) gomap \<Rightarrow> RoomLists \<Rightarrow> bool" where
  "lists_inv rooms out \<longleftrightarrow> fst ` set (rl_Relevant out) \<subseteq> rl_AllRooms out \<and> rl_AllRooms out \<subseteq> fst ` set rooms \<and> rl_Membership out = rooms"

lemma list_step_cases:
  assumes "list_step d ord rooms meta dmRooms tags partial now key l out = Inr out'"
  obtains filtered :: "(string, SlidingRoom) gomap" and shown ops where "fst ` set filtered \<subseteq> fst ` set rooms" "fst ` set shown \<subseteq> fst ` set filtered" "windowRooms d l shown meta now = Inr ops"
    "out' = out\<lparr>rl_AllRooms := rl_AllRooms out \<union> fst ` set filtered,
       rl_Relevant := fold (\<lambda>room. addRelevant ord room (NewRoomSyncConfig (sl_Common l))) (concat (map op_RoomIDs ops)) (rl_Relevant out),
       rl_Lists := mput key \<lparr>lr_Count = int (length shown), lr_Ops = ops\<rparr> (rl_Lists out)\<rparr>"
proof -
  let ?f = "case sl_Filters l of None \<Rightarrow> Inr rooms | Some f \<Rightarrow> filterRooms (dp_unicodeLower d) rooms meta f dmRooms tags"
  from assms obtain filtered where f: "?f = Inr filtered" by (auto simp: list_step_def split: sum.splits)
  let ?shown = "if partial \<noteq> {} \<and> MustAwaitFullState ord (NewRoomSyncConfig (sl_Common l)) (IsLocalUser (dp_ServerName d)) then filter (\<lambda>(roomID, r). roomID \<notin> partial) filtered else filtered"
  from assms f obtain ops where ops: "windowRooms d l ?shown meta now = Inr ops"
    "out' = out\<lparr>rl_AllRooms := rl_AllRooms out \<union> fst ` set filtered,
       rl_Relevant := fold (\<lambda>room. addRelevant ord room (NewRoomSyncConfig (sl_Common l))) (concat (map op_RoomIDs ops)) (rl_Relevant out),
       rl_Lists := mput key \<lparr>lr_Count = int (length ?shown), lr_Ops = ops\<rparr> (rl_Lists out)\<rparr>"
    unfolding list_step_def Let_def by (auto split: sum.splits)
  have "fst ` set filtered \<subseteq> fst ` set rooms" using f by (auto simp: filterRooms_def split: option.splits if_splits)
  moreover have "fst ` set ?shown \<subseteq> fst ` set filtered" by auto
  ultimately show thesis using ops by (rule that)
qed

lemma lists_loop_inv:
  assumes "lists_loop d ord rooms meta dmRooms tags partial now ls out = Inr out'" and "lists_inv rooms out"
  shows "lists_inv rooms out' \<and> rl_NewlyLeft out' = rl_NewlyLeft out"
  using assms
proof (induction d ord rooms meta dmRooms tags partial now ls out rule: lists_loop.induct)
  case (2 d ord rooms meta dmRooms tags partial now key l ls out)
  from 2(2) obtain out1 where s: "list_step d ord rooms meta dmRooms tags partial now key l out = Inr out1"
    "lists_loop d ord rooms meta dmRooms tags partial now ls out1 = Inr out'" by (auto split: sum.splits)
  from s(1) obtain filtered :: "(string, SlidingRoom) gomap" and shown ops where o: "fst ` set filtered \<subseteq> fst ` set rooms" "fst ` set shown \<subseteq> fst ` set filtered" "windowRooms d l shown meta now = Inr ops"
    "out1 = out\<lparr>rl_AllRooms := rl_AllRooms out \<union> fst ` set filtered,
       rl_Relevant := fold (\<lambda>room. addRelevant ord room (NewRoomSyncConfig (sl_Common l))) (concat (map op_RoomIDs ops)) (rl_Relevant out),
       rl_Lists := mput key \<lparr>lr_Count = int (length shown), lr_Ops = ops\<rparr> (rl_Lists out)\<rparr>" by (rule list_step_cases)
  have "set (concat (map op_RoomIDs ops)) \<subseteq> fst ` set filtered" using window_subset [OF o(3)] o(2) by blast
  then have "lists_inv rooms out1" using 2(3) o(1) unfolding lists_inv_def o(4) by (simp add: fold_add_relevant_keys del: set_concat) blast
  with 2(1) [OF s(1) s(2)] show ?case by (simp add: o(4))
qed simp

lemma subscriptions_inv:
  "lists_inv rooms out \<Longrightarrow> lists_inv rooms (fold (subscription_step d ord rooms partial) subs out) \<and>
    rl_NewlyLeft (fold (subscription_step d ord rooms partial) subs out) = rl_NewlyLeft out"
proof (induction subs arbitrary: out)
  case (Cons s subs)
  have "lists_inv rooms (subscription_step d ord rooms partial s out) \<and> rl_NewlyLeft (subscription_step d ord rooms partial s out) = rl_NewlyLeft out"
    using Cons.prems by (cases s) (auto simp: subscription_step_def lists_inv_def add_relevant_keys map_of_eq_None_iff Let_def simp del: map_of_eq_Some_iff)
  with Cons.IH show ?case by simp
qed simp

subsection \<open>Excluded rooms\<close>

lemma excluded_change: "mget (fold (change_step frm to excluded instances) rows []) room \<noteq> None \<Longrightarrow> room \<notin> excluded"
  by (auto simp: change_fold room_change_def rows_of_def event_changes_def removals_def split: if_splits)

lemma newly_left_keys:
  assumes "newlyJoinedAndLeft d p userID frm to = (p', Inr (joined, left))"
  shows "fst ` set left \<inter> dp_ExcludedRooms d = {}"
proof (cases frm)
  case None
  with assms show ?thesis by (simp add: newlyJoinedAndLeft_def)
next
  case (Some f)
  with assms obtain changes where c: "snd (SlidingMembershipChanges (dp_changes d) (dp_instances d) p userID (tk_Room f) (tk_Room to) (dp_ExcludedRooms d)) = Inr changes"
    "left = filter (\<lambda>(roomID, c). mc_Membership c = ''leave'') changes"
    by (cases "SlidingMembershipChanges (dp_changes d) (dp_instances d) p userID (tk_Room f) (tk_Room to) (dp_ExcludedRooms d)")
      (auto simp: newlyJoinedAndLeft_def split: sum.splits)
  have "room \<notin> dp_ExcludedRooms d" if "room \<in> fst ` set changes" for room
  proof -
    from c(1) have "changes = [] \<or> (\<exists>instances rows. changes = fold (change_step (tk_Room f) (tk_Room to) (dp_ExcludedRooms d) instances) rows [])"
      by (auto simp: SlidingMembershipChanges_def split: prod.splits bool.splits sum.splits)
    then show ?thesis using excluded_change that by (metis (no_types, lifting) empty_iff image_empty list.set(1) map_of_eq_None_iff)
  qed
  then show ?thesis unfolding c(2) by auto
qed

lemma first_after_keys: "fst ` set (first_after changes) \<subseteq> dm_RoomID ` set changes"
proof -
  have "fst ` set (fold (\<lambda>c out. if mget out (dm_RoomID c) = None then mput (dm_RoomID c) c out else out) changes m) \<subseteq> dm_RoomID ` set changes \<union> fst ` set m" for m
  proof (induction changes arbitrary: m)
    case (Cons a changes)
    show ?case using Cons.IH [of "if mget m (dm_RoomID a) = None then mput (dm_RoomID a) a m else m"] by (auto split: if_splits)
  qed simp
  from this [of "[]"] show ?thesis by (simp add: first_after_def)
qed

lemma disjoint_subset: "A \<subseteq> B \<Longrightarrow> B \<inter> C = {} \<Longrightarrow> A \<inter> C = {}"
  by blast

lemma delta_changes_keys:
  "CurrentStateDeltaMembershipChanges q ids u a b excluded = Inr changes \<Longrightarrow> dm_RoomID ` set changes \<inter> excluded = {}"
  by (auto simp: CurrentStateDeltaMembershipChanges_def delta_of_row_def split: sum.splits)

lemma rewind_cases:
  assumes "rewindToToken d userID rooms to = Inr rewind"
  obtains "rewind = []" | snapshot changes where
    "CurrentStateDeltaMembershipChanges (dp_deltas d) (dp_instances d) userID (tk_Room to) snapshot (dp_ExcludedRooms d) = Inr changes"
    "rewind = map (\<lambda>(roomID, c). (roomID, rewind_room d rooms roomID c)) (first_after changes)"
proof (cases "rooms = [] \<or> isl (dp_instances d)")
  case True
  with assms show thesis by (cases "dp_instances d") (auto simp: rewindToToken_def Let_def split: if_splits intro: that(1))
next
  case False
  then obtain ids where i: "dp_instances d = Inr ids" "rooms \<noteq> []" by (cases "dp_instances d") auto
  let ?s = "snapshot_key (snapshot_clock rooms) ids"
  show thesis
  proof (cases "RoomKey_MaxStreamPos ?s \<le> RoomKey_MaxStreamPos (tk_Room to)")
    case True
    with assms i show thesis by (simp add: rewindToToken_def that(1))
  next
    case False
    with assms i obtain changes where
      "CurrentStateDeltaMembershipChanges (dp_deltas d) (dp_instances d) userID (tk_Room to) ?s (dp_ExcludedRooms d) = Inr changes"
      "rewind = map (\<lambda>(roomID, c). (roomID, rewind_room d rooms roomID c)) (first_after changes)"
      by (cases "CurrentStateDeltaMembershipChanges (dp_deltas d) (dp_instances d) userID (tk_Room to) ?s (dp_ExcludedRooms d)") (simp_all add: rewindToToken_def)
    then show thesis by (rule that(2))
  qed
qed

lemma rewind_keys:
  assumes "rewindToToken d userID rooms to = Inr rewind"
  shows "fst ` set rewind \<inter> dp_ExcludedRooms d = {}"
  using assms
proof (rule rewind_cases)
  fix snapshot changes
  assume c: "CurrentStateDeltaMembershipChanges (dp_deltas d) (dp_instances d) userID (tk_Room to) snapshot (dp_ExcludedRooms d) = Inr changes"
    "rewind = map (\<lambda>(roomID, c). (roomID, rewind_room d rooms roomID c)) (first_after changes)"
  have "fst ` set rewind = fst ` set (first_after changes)" unfolding c(2) by (force simp: image_iff)
  with first_after_keys [of changes] have "fst ` set rewind \<subseteq> dm_RoomID ` set changes" by simp
  then show ?thesis using delta_changes_keys [OF c(1)] by (rule disjoint_subset)
qed simp

lemma apply_rewind_keys: "fst ` set (apply_rewind rewind rooms) \<subseteq> fst ` set rewind \<union> fst ` set rooms"
proof (induction rewind arbitrary: rooms)
  case (Cons x rewind)
  obtain room c where x: "x = (room, c)" by force
  show ?case using Cons.IH [of "case c of RewindDrop \<Rightarrow> mdel room rooms | RewindTo r \<Rightarrow> mput room r rooms"]
    by (cases c) (auto simp: apply_rewind_def x)
qed (simp add: apply_rewind_def)

lemma add_newly_left_keys: "fst ` set (add_newly_left left rooms) \<subseteq> fst ` set left \<union> fst ` set rooms"
proof (induction left arbitrary: rooms)
  case (Cons x left)
  obtain room c where x: "x = (room, c)" by force
  show ?case using Cons.IH [of "if mget rooms room \<noteq> None then rooms else mput room (left_room room c) rooms"]
    by (auto simp: add_newly_left_def x split: if_splits)
qed (simp add: add_newly_left_def)

lemma compute_cases:
  assumes "ComputeRoomLists d ord p userID req frm now = (p', Inr out)"
  obtains rooms0 joined left rooms where "snapshot_rooms d userID now = Inr rooms0" "newlyJoinedAndLeft d p userID frm now = (p', Inr (joined, left))"
    "rooms_at_token d userID now left rooms0 = Inr rooms" "resolve_lists d ord userID req now rooms joined left = Inr out"
proof -
  from assms obtain rooms0 where 1: "snapshot_rooms d userID now = Inr rooms0" by (cases "snapshot_rooms d userID now") (simp_all add: ComputeRoomLists_def)
  obtain q r where 2: "newlyJoinedAndLeft d p userID frm now = (q, r)" by force
  with assms 1 obtain jl where 3: "r = Inr jl" "q = p'" by (cases r) (auto simp: ComputeRoomLists_def split: prod.splits)
  obtain joined left where 4: "jl = (joined, left)" by force
  with assms 1 2 3 obtain rooms where 5: "rooms_at_token d userID now left rooms0 = Inr rooms"
    by (cases "rooms_at_token d userID now left rooms0") (simp_all add: ComputeRoomLists_def)
  with assms 1 2 3 4 have "resolve_lists d ord userID req now rooms joined left = Inr out" by (simp add: ComputeRoomLists_def)
  with 1 2 3 4 5 show thesis by (intro that) auto
qed

lemma try_store_Inr: "try_store x k = Inr r \<longleftrightarrow> (\<exists>v. x = Inr v \<and> k v = Inr r)"
  by (cases x) auto

lemma resolve_cases:
  assumes "resolve_lists d ord userID req now rooms joined left = Inr out"
  obtains meta dm tags partial out1 where "SlidingJoinedRooms (dp_joined d) (mkeys rooms) = Inr meta" "PartialStateRooms (dp_partial d) = Inr partial"
    "lists_loop d ord rooms meta dm tags partial now (req_Lists req)
      \<lparr>rl_Lists = [], rl_Relevant = [], rl_AllRooms = {}, rl_Membership = rooms, rl_DMRooms = dm, rl_NewlyJoined = joined, rl_NewlyLeft = fst ` set left\<rparr> = Inr out1"
    "out = fold (subscription_step d ord rooms partial) (req_RoomSubscriptions req) out1"
proof -
  from assms obtain dm meta tags partial where q: "SlidingJoinedRooms (dp_joined d) (mkeys rooms) = Inr meta" "PartialStateRooms (dp_partial d) = Inr partial"
    and l: "(case lists_loop d ord rooms meta dm tags partial now (req_Lists req)
      \<lparr>rl_Lists = [], rl_Relevant = [], rl_AllRooms = {}, rl_Membership = rooms, rl_DMRooms = dm, rl_NewlyJoined = joined, rl_NewlyLeft = fst ` set left\<rparr> of
        Inl e \<Rightarrow> Inl e | Inr out \<Rightarrow> Inr (fold (subscription_step d ord rooms partial) (req_RoomSubscriptions req) out)) = Inr out"
    unfolding resolve_lists_def try_store_Inr Let_def by blast
  from l show thesis by (auto intro: that [OF q] split: sum.splits)
qed

text \<open>
  The lists only show rooms that are the user's to see. Every room a response describes is in the set the
  extensions are scoped to, which only has rooms with a membership; none of them is a room the configuration
  excludes, whichever table or rewind brought it up; and a room the user has left is there only when somebody
  else removed them or when they left after the client's token.
\<close>

theorem lists_show_own_rooms:
  assumes "ComputeRoomLists d ord p userID req frm now = (p', Inr out)"
  shows "fst ` set (rl_Relevant out) \<subseteq> rl_AllRooms out \<and> rl_AllRooms out \<subseteq> fst ` set (rl_Membership out) \<and>
    (\<forall>(room, r) \<in> set (rl_Membership out). room \<notin> dp_ExcludedRooms d \<and>
       (sm_Membership r = ''leave'' \<longrightarrow> room \<in> rl_NewlyLeft out \<or> sm_Sender r \<noteq> [] \<and> sm_Sender r \<noteq> userID))"
proof -
  obtain rooms0 joined left rooms where s: "snapshot_rooms d userID now = Inr rooms0" "newlyJoinedAndLeft d p userID frm now = (p', Inr (joined, left))"
    "rooms_at_token d userID now left rooms0 = Inr rooms" "resolve_lists d ord userID req now rooms joined left = Inr out"
    by (rule compute_cases [OF assms])
  obtain meta dm tags partial out1 where
    l: "lists_loop d ord rooms meta dm tags partial now (req_Lists req)
      \<lparr>rl_Lists = [], rl_Relevant = [], rl_AllRooms = {}, rl_Membership = rooms, rl_DMRooms = dm, rl_NewlyJoined = joined, rl_NewlyLeft = fst ` set left\<rparr> = Inr out1"
      "out = fold (subscription_step d ord rooms partial) (req_RoomSubscriptions req) out1"
    by (rule resolve_cases [OF s(4)]) blast
  have inv: "lists_inv rooms out" "rl_NewlyLeft out = fst ` set left"
    using lists_loop_inv [OF l(1)] subscriptions_inv [of rooms out1 d ord partial "req_RoomSubscriptions req"] unfolding l(2) by (simp_all add: lists_inv_def)
  have k0: "fst ` set rooms0 \<inter> dp_ExcludedRooms d = {}" using s(1) unfolding snapshot_rooms_def try_store_Inr by auto
  from s(3) obtain rewind where rw: "rewindToToken d userID rooms0 now = Inr rewind"
    "rooms = relevant_rooms userID left (add_newly_left left (apply_rewind rewind rooms0))" unfolding rooms_at_token_def try_store_Inr by auto
  have "fst ` set rooms \<subseteq> fst ` set left \<union> (fst ` set rewind \<union> fst ` set rooms0)"
    using add_newly_left_keys [of left "apply_rewind rewind rooms0"] apply_rewind_keys [of rewind rooms0] unfolding rw(2) by (auto simp: relevant_rooms_def)
  moreover have "(fst ` set left \<union> (fst ` set rewind \<union> fst ` set rooms0)) \<inter> dp_ExcludedRooms d = {}"
    using k0 newly_left_keys [OF s(2)] rewind_keys [OF rw(1)] by (simp add: Int_Un_distrib2)
  ultimately have "fst ` set rooms \<inter> dp_ExcludedRooms d = {}" by (rule disjoint_subset)
  then have ex: "room \<notin> dp_ExcludedRooms d" if "(room, r) \<in> set rooms" for room r using that by (metis IntI empty_iff fst_conv image_eqI)
  have left: "room \<in> fst ` set left \<or> sm_Sender r \<noteq> [] \<and> sm_Sender r \<noteq> userID" if "(room, r) \<in> set rooms" "sm_Membership r = ''leave''" for room r
    using that unfolding rw(2) by (auto simp: relevant_rooms_def membershipIsRelevant_def map_of_eq_None_iff simp del: map_of_eq_Some_iff split: if_splits)
  have m: "rl_Membership out = rooms" and sub: "fst ` set (rl_Relevant out) \<subseteq> rl_AllRooms out" "rl_AllRooms out \<subseteq> fst ` set rooms"
    using inv(1) by (simp_all add: lists_inv_def)
  have "\<forall>(room, r) \<in> set rooms. room \<notin> dp_ExcludedRooms d \<and>
      (sm_Membership r = ''leave'' \<longrightarrow> room \<in> fst ` set left \<or> sm_Sender r \<noteq> [] \<and> sm_Sender r \<noteq> userID)"
  proof (clarify, intro conjI impI)
    fix room r assume r: "(room, r) \<in> set rooms"
    show "room \<notin> dp_ExcludedRooms d" by (rule ex [OF r])
    show "room \<in> fst ` set left \<or> sm_Sender r \<noteq> [] \<and> sm_Sender r \<noteq> userID" if "sm_Membership r = ''leave''" by (rule left [OF r that])
  qed
  with sub show ?thesis unfolding m inv(2) by (intro conjI)
qed

section \<open>What a room is asked for\<close>

definition serves :: "RoomSyncConfig \<Rightarrow> CommonRoomParameters \<Rightarrow> bool" where
  "serves cfg q \<longleftrightarrow> cp_TimelineLimit q \<le> rc_TimelineLimit cfg \<and>
     (\<forall>t k. covers (rc_RequiredState (NewRoomSyncConfig q)) t k \<longrightarrow> covers (rc_RequiredState cfg) t k)"

definition served :: "(string, RoomSyncConfig) gomap \<Rightarrow> string \<Rightarrow> CommonRoomParameters \<Rightarrow> bool" where
  "served m room q \<longleftrightarrow> (\<exists>cfg. mget m room = Some cfg \<and> serves cfg q)"

definition normal_configs :: "(string, RoomSyncConfig) gomap \<Rightarrow> bool" where
  "normal_configs m \<longleftrightarrow> (\<forall>room cfg. mget m room = Some cfg \<longrightarrow> (\<exists>E. represents (rc_RequiredState cfg) E))"

lemma new_serves: "serves (NewRoomSyncConfig q) q"
  by (simp add: serves_def NewRoomSyncConfig_def)

lemma combine_serves:
  assumes "iteration_order ord" and "represents (rc_RequiredState a) E"
  shows "serves (CombineRoomSyncConfig ord a (NewRoomSyncConfig q)) q"
    and "serves a q' \<Longrightarrow> serves (CombineRoomSyncConfig ord a (NewRoomSyncConfig q)) q'"
proof -
  note r = combine_represents_params [OF assms, of q]
  have c: "covers (rc_RequiredState (CombineRoomSyncConfig ord a (NewRoomSyncConfig q))) t k \<longleftrightarrow>
      covers (rc_RequiredState a) t k \<or> covers (rc_RequiredState (NewRoomSyncConfig q)) t k" for t k
    unfolding covers_canon [OF r] covers_canon [OF assms(2)] covers_canon [OF NewRoomSyncConfig_represents] by blast
  have l: "rc_TimelineLimit (CombineRoomSyncConfig ord a (NewRoomSyncConfig q)) = max (rc_TimelineLimit a) (cp_TimelineLimit q)"
    by (simp add: CombineRoomSyncConfig_def NewRoomSyncConfig_def max_def)
  show "serves (CombineRoomSyncConfig ord a (NewRoomSyncConfig q)) q" by (simp add: serves_def c l)
  show "serves a q' \<Longrightarrow> serves (CombineRoomSyncConfig ord a (NewRoomSyncConfig q)) q'" by (auto simp: serves_def c l)
qed

lemma add_relevant_served:
  assumes "iteration_order ord" and "normal_configs m"
  shows "normal_configs (addRelevant ord room (NewRoomSyncConfig q) m)" and "served (addRelevant ord room (NewRoomSyncConfig q) m) room q"
    and "served m room' q' \<Longrightarrow> served (addRelevant ord room (NewRoomSyncConfig q) m) room' q'"
proof -
  let ?m = "addRelevant ord room (NewRoomSyncConfig q) m"
  have "normal_configs ?m \<and> served ?m room q \<and> (served m room' q' \<longrightarrow> served ?m room' q')"
  proof (cases "mget m room")
    case None
    then show ?thesis using assms(2) NewRoomSyncConfig_represents [of q] new_serves [of q] by (auto simp: addRelevant_def normal_configs_def served_def simp del: map_of_eq_Some_iff)
  next
    case (Some cfg)
    with assms(2) obtain E where E: "represents (rc_RequiredState cfg) E" by (auto simp: normal_configs_def)
    have "\<exists>E. represents (rc_RequiredState (CombineRoomSyncConfig ord cfg (NewRoomSyncConfig q))) E"
      using combine_represents_params [OF assms(1) E, of q] by blast
    with Some assms(2) combine_serves(1) [OF assms(1) E, of q] combine_serves(2) [OF assms(1) E, where q = q] show ?thesis
      by (auto simp: addRelevant_def normal_configs_def served_def simp del: map_of_eq_Some_iff)
  qed
  then show "normal_configs ?m" "served ?m room q" "served m room' q' \<Longrightarrow> served ?m room' q'" by blast+
qed

lemma fold_add_relevant_served:
  assumes "iteration_order ord" and "normal_configs m"
  shows "normal_configs (fold (\<lambda>room. addRelevant ord room (NewRoomSyncConfig q)) ids m) \<and>
    (\<forall>room q'. served m room q' \<longrightarrow> served (fold (\<lambda>room. addRelevant ord room (NewRoomSyncConfig q)) ids m) room q') \<and>
    (\<forall>room \<in> set ids. served (fold (\<lambda>room. addRelevant ord room (NewRoomSyncConfig q)) ids m) room q)"
  using assms(2)
proof (induction ids arbitrary: m)
  case (Cons room ids)
  note step = add_relevant_served [OF assms(1) Cons.prems]
  from Cons.IH [OF step(1) [of room q]] step(2) [of room q] step(3) show ?case by simp
qed simp

definition list_served :: "RoomLists \<Rightarrow> string \<Rightarrow> SlidingList \<Rightarrow> bool" where
  "list_served out key l \<longleftrightarrow> (\<exists>lr. mget (rl_Lists out) key = Some lr \<and>
     (\<forall>op \<in> set (lr_Ops lr). \<forall>room \<in> set (op_RoomIDs op). served (rl_Relevant out) room (sl_Common l)))"

lemma lists_loop_served:
  assumes "iteration_order ord" and "lists_loop d ord rooms meta dmRooms tags partial now ls out = Inr out'" and "normal_configs (rl_Relevant out)" and "mwf ls"
  shows "normal_configs (rl_Relevant out') \<and> (\<forall>room q. served (rl_Relevant out) room q \<longrightarrow> served (rl_Relevant out') room q) \<and>
    (\<forall>key. key \<notin> fst ` set ls \<longrightarrow> mget (rl_Lists out') key = mget (rl_Lists out) key) \<and> (\<forall>(key, l) \<in> set ls. list_served out' key l)"
  using assms(2-4)
proof (induction ls arbitrary: out)
  case (Cons kl ls)
  obtain key l where kl: "kl = (key, l)" by force
  from Cons.prems(1) obtain out1 where s: "list_step d ord rooms meta dmRooms tags partial now key l out = Inr out1"
    "lists_loop d ord rooms meta dmRooms tags partial now ls out1 = Inr out'" unfolding kl by (auto split: sum.splits)
  from s(1) obtain filtered :: "(string, SlidingRoom) gomap" and shown ops where "fst ` set filtered \<subseteq> fst ` set rooms" "fst ` set shown \<subseteq> fst ` set filtered"
    "windowRooms d l shown meta now = Inr ops" and o: "out1 = out\<lparr>rl_AllRooms := rl_AllRooms out \<union> fst ` set filtered,
       rl_Relevant := fold (\<lambda>room. addRelevant ord room (NewRoomSyncConfig (sl_Common l))) (concat (map op_RoomIDs ops)) (rl_Relevant out),
       rl_Lists := mput key \<lparr>lr_Count = int (length shown), lr_Ops = ops\<rparr> (rl_Lists out)\<rparr>" by (rule list_step_cases)
  note f = fold_add_relevant_served [OF assms(1) Cons.prems(2), of "sl_Common l" "concat (map op_RoomIDs ops)"]
  have n1: "normal_configs (rl_Relevant out1)" and keep1: "\<And>room q. served (rl_Relevant out) room q \<Longrightarrow> served (rl_Relevant out1) room q"
    and now1: "\<And>room. room \<in> set (concat (map op_RoomIDs ops)) \<Longrightarrow> served (rl_Relevant out1) room (sl_Common l)" using f unfolding o by (simp_all del: set_concat)
  have wf: "mwf ls" "key \<notin> fst ` set ls" using Cons.prems(3) by (simp_all add: kl)
  from Cons.IH [OF s(2) n1 wf(1)] have n: "normal_configs (rl_Relevant out')" and keep: "\<And>room q. served (rl_Relevant out1) room q \<Longrightarrow> served (rl_Relevant out') room q"
    and same: "\<And>k. k \<notin> fst ` set ls \<Longrightarrow> mget (rl_Lists out') k = mget (rl_Lists out1) k" and rest: "\<forall>(key, l) \<in> set ls. list_served out' key l" by blast+
  have "mget (rl_Lists out') key = Some \<lparr>lr_Count = int (length shown), lr_Ops = ops\<rparr>" using same [OF wf(2)] by (simp add: o)
  then have "list_served out' key l" using now1 keep by (auto simp: list_served_def)
  moreover have "mget (rl_Lists out') k = mget (rl_Lists out) k" if "k \<notin> fst ` set (kl # ls)" for k using that same [of k] by (simp add: kl o)
  ultimately show ?case using n keep keep1 rest by (auto simp: kl)
qed simp

lemma subscriptions_served:
  assumes "iteration_order ord" and "normal_configs (rl_Relevant out)"
  shows "(\<forall>room q. served (rl_Relevant out) room q \<longrightarrow> served (rl_Relevant (fold (subscription_step d ord rooms partial) subs out)) room q) \<and>
    rl_Lists (fold (subscription_step d ord rooms partial) subs out) = rl_Lists out \<and>
    (\<forall>(room, sub) \<in> set subs. mget rooms room \<noteq> None \<and> room \<notin> partial \<longrightarrow>
       served (rl_Relevant (fold (subscription_step d ord rooms partial) subs out)) room (sub_Common sub))"
  using assms(2)
proof (induction subs arbitrary: out)
  case (Cons s subs)
  obtain room sub where s: "s = (room, sub)" by force
  let ?out1 = "subscription_step d ord rooms partial s out"
  note a = add_relevant_served [OF assms(1) Cons.prems, where room = room and q = "sub_Common sub"]
  have step: "normal_configs (rl_Relevant ?out1)" "\<And>r q. served (rl_Relevant out) r q \<Longrightarrow> served (rl_Relevant ?out1) r q" "rl_Lists ?out1 = rl_Lists out"
    "mget rooms room \<noteq> None \<and> room \<notin> partial \<Longrightarrow> served (rl_Relevant ?out1) room (sub_Common sub)"
    using a Cons.prems by (auto simp: subscription_step_def s Let_def)
  from Cons.IH [OF step(1)] step(2-4) show ?case by (auto simp: s)
qed simp

text \<open>
  No list or subscription loses to another. For every room in the window of a list, and every room subscribed to
  that is not waiting for its state, the configuration the response uses has at least the timeline limit and covers
  every state entry that list or subscription asked for, whatever the other lists ask of the same room and in
  whatever order the maps are visited.
\<close>

theorem every_list_is_served:
  assumes "iteration_order ord" and "ComputeRoomLists d ord p userID req frm now = (p', Inr out)" and "mwf (req_Lists req)" and "PartialStateRooms (dp_partial d) = Inr partial"
  shows "(\<forall>(key, l) \<in> set (req_Lists req). list_served out key l) \<and>
    (\<forall>(room, sub) \<in> set (req_RoomSubscriptions req). mget (rl_Membership out) room \<noteq> None \<and> room \<notin> partial \<longrightarrow> served (rl_Relevant out) room (sub_Common sub))"
proof -
  obtain rooms0 joined left rooms where r: "resolve_lists d ord userID req now rooms joined left = Inr out" by (rule compute_cases [OF assms(2)])
  obtain meta dm tags partial' out1 where l: "PartialStateRooms (dp_partial d) = Inr partial'"
    "lists_loop d ord rooms meta dm tags partial' now (req_Lists req)
      \<lparr>rl_Lists = [], rl_Relevant = [], rl_AllRooms = {}, rl_Membership = rooms, rl_DMRooms = dm, rl_NewlyJoined = joined, rl_NewlyLeft = fst ` set left\<rparr> = Inr out1"
    "out = fold (subscription_step d ord rooms partial') (req_RoomSubscriptions req) out1" by (rule resolve_cases [OF r])
  have p: "partial' = partial" using l(1) assms(4) by simp
  have m: "rl_Membership out = rooms"
    using subscriptions_inv [of rooms out1 d ord partial' "req_RoomSubscriptions req"] lists_loop_inv [OF l(2)] unfolding l(3) by (simp add: lists_inv_def)
  have "normal_configs (rl_Relevant out1) \<and> (\<forall>(key, l) \<in> set (req_Lists req). list_served out1 key l)"
    using lists_loop_served [OF assms(1) l(2) _ assms(3)] by (simp add: normal_configs_def)
  with subscriptions_served [OF assms(1), of out1 d rooms partial "req_RoomSubscriptions req"] show ?thesis
    unfolding m unfolding l(3) p by (auto simp: list_served_def)
qed

section \<open>Which rooms need sending\<close>

text \<open>\<open>H\<close> are the events the worker knows of. The joined-rooms table has the position of the latest event of a room.\<close>

definition table_current :: "(string \<times> int) set \<Rightarrow> (string, SlidingJoinedRoom) gomap \<Rightarrow> bool" where
  "table_current H meta \<longleftrightarrow> (\<forall>room m q. mget meta room = Some m \<and> (room, q) \<in> H \<longrightarrow> q \<le> sj_EventStream m)"

definition cache_heard :: "(string \<times> int) set \<Rightarrow> streamCaches option \<Rightarrow> bool" where
  "cache_heard H p \<longleftrightarrow> (\<forall>g. p = Some g \<longrightarrow> sc_reach H (sg_events g))"

lemma rooms_since_complete:
  assumes "cache_heard H p" and "(room, q) \<in> H" and "pos < q" and "room \<in> set ids"
  shows "room \<in> set (snd (RoomsWithEventsSince p ids pos))"
proof (cases p)
  case None
  with assms(4) show ?thesis by (simp add: RoomsWithEventsSince_def)
next
  case (Some g)
  with assms(1) have "sc_reach H (sg_events g)" by (simp add: cache_heard_def)
  from events_gate.no_miss [OF this assms(2,3)] assms(4) show ?thesis unfolding Some using rooms_since_filter [of g ids pos] by auto
qed

lemma rooms_with_updates_complete:
  assumes "cache_heard H p" and "table_current H meta" and "(room, q) \<in> H" and "rk_Stream (tk_Room f) < q" and "room \<in> set ids"
  shows "room \<in> set (snd (roomsWithUpdates p ids meta f))"
proof -
  obtain p' narrowed where n: "RoomsWithEventsSince p ids (rk_Stream (tk_Room f)) = (p', narrowed)" by force
  with rooms_since_complete [OF assms(1,3,4,5)] have "room \<in> set narrowed" by simp
  moreover have "rk_Stream (tk_Room f) < sj_EventStream m" if "mget meta room = Some m" for m
    using assms(2) [unfolded table_current_def] that assms(3,4) by force
  ultimately show ?thesis using assms(5) n by (auto simp: roomsWithUpdates_def simp del: map_of_eq_Some_iff split: option.split)
qed

lemma same_config_iff:
  assumes "mwf (rc_RequiredState a)" and "mwf (rc_RequiredState b)" and "\<forall>ks \<in> snd ` (set (rc_RequiredState a) \<union> set (rc_RequiredState b)). finite ks"
  shows "sameRoomSyncConfig a b \<longleftrightarrow> rc_TimelineLimit a = rc_TimelineLimit b \<and> (\<forall>t. mget (rc_RequiredState a) t = mget (rc_RequiredState b) t)"
proof -
  let ?a = "rc_RequiredState a" and ?b = "rc_RequiredState b"
  have fin: "finite ks" if "mget ?b t = Some ks" for t ks using assms(3) map_of_SomeD [OF that] by force
  have sub: "card ks = card other \<and> ks \<subseteq> other \<longleftrightarrow> ks = other" if "mget ?b t = Some other" for t ks other
    using card_subset_eq [OF fin [OF that], of ks] by auto
  have all: "list_all (\<lambda>(t, ks). case mget ?b t of None \<Rightarrow> False | Some other \<Rightarrow> card ks = card other \<and> ks \<subseteq> other) ?a \<longleftrightarrow>
      (\<forall>t ks. mget ?a t = Some ks \<longrightarrow> mget ?b t = Some ks)"
    unfolding list_all_iff map_of_eq_Some_iff [OF assms(1)] using sub by (fastforce split: option.splits)
  have len: "length m = card (fst ` set m)" if "mwf m" for m :: required_state using distinct_card [OF that] by simp
  have dom: "fst ` set m = dom (mget m)" for m :: required_state by (simp add: dom_map_of_conv_image_fst)
  show ?thesis
  proof (intro iffI conjI allI)
    assume s: "sameRoomSyncConfig a b"
    then show "rc_TimelineLimit a = rc_TimelineLimit b" by (simp add: sameRoomSyncConfig_def split: if_splits)
    have inc: "mget ?b t = Some ks" if "mget ?a t = Some ks" for t ks using s that unfolding sameRoomSyncConfig_def all by (auto split: if_splits)
    then have "dom (mget ?a) \<subseteq> dom (mget ?b)" by force
    moreover have "card (dom (mget ?a)) = card (dom (mget ?b))" using s len assms(1,2) unfolding dom [symmetric] by (simp add: sameRoomSyncConfig_def split: if_splits)
    ultimately have "dom (mget ?a) = dom (mget ?b)" by (intro card_subset_eq) (simp_all add: finite_dom_map_of)
    then show "mget ?a t = mget ?b t" for t using inc [of t] by (metis domIff not_None_eq)
  next
    assume s: "rc_TimelineLimit a = rc_TimelineLimit b \<and> (\<forall>t. mget ?a t = mget ?b t)"
    then have "dom (mget ?a) = dom (mget ?b)" by (auto simp: dom_def)
    then have "length ?a = length ?b" using len assms(1,2) unfolding dom by metis
    with s show "sameRoomSyncConfig a b" unfolding sameRoomSyncConfig_def all by simp
  qed
qed

lemma filter_rooms_to_send_cases:
  assumes "filterRoomsToSend ord p relevant meta (Some prev) (Some f) nowMS = (p', Inr out)" and "relevant \<noteq> []"
  shows "out = filter (\<lambda>(room, cfg). room \<in> set (filter (\<lambda>room. case mget relevant room of None \<Rightarrow> False | Some cfg \<Rightarrow> must_send ord prev room cfg) (sort (mkeys relevant))) \<union>
      set (snd (roomsWithUpdates p (sort (mkeys relevant)) meta f))) relevant"
    and "\<not> (int (length (snd (roomsWithUpdates p (sort (mkeys relevant)) meta f))) > NumRoomsThreshold \<and>
      (case pc_LastUsedMS prev of None \<Rightarrow> False | Some t \<Rightarrow> nowMS - t > MinimumNotUsedAge))"
  using assms by (simp_all add: filterRoomsToSend_def Let_def split: prod.splits if_splits)


section \<open>Membership at the token\<close>

lemma first_after_lookup: "mget (first_after changes) room = find (\<lambda>c. dm_RoomID c = room) changes"
proof -
  have "mget (fold (\<lambda>c out. if mget out (dm_RoomID c) = None then mput (dm_RoomID c) c out else out) changes m) room =
      (case mget m room of Some c \<Rightarrow> Some c | None \<Rightarrow> find (\<lambda>c. dm_RoomID c = room) changes)" for m
    by (induction changes arbitrary: m) (auto simp del: map_of_eq_Some_iff split: option.split)
  from this [of "[]"] show ?thesis by (simp add: first_after_def)
qed

lemma first_after_wf: "mwf (first_after changes)"
proof -
  have "mwf m \<Longrightarrow> mwf (fold (\<lambda>c out. if mget out (dm_RoomID c) = None then mput (dm_RoomID c) c out else out) changes m)" for m
    by (induction changes arbitrary: m) auto
  from this [of "[]"] show ?thesis by (simp add: first_after_def)
qed

lemma apply_rewind_lookup:
  assumes "mwf rewind"
  shows "mget (apply_rewind rewind rooms) room =
    (case mget rewind room of None \<Rightarrow> mget rooms room | Some RewindDrop \<Rightarrow> None | Some (RewindTo r) \<Rightarrow> Some r)"
  using assms
proof (induction rewind arbitrary: rooms)
  case (Cons x rewind)
  obtain k c where x: "x = (k, c)" by force
  from Cons.prems have k: "mget rewind k = None" by (simp add: x map_of_eq_None_iff)
  have "apply_rewind (x # rewind) rooms = apply_rewind rewind (case c of RewindDrop \<Rightarrow> mdel k rooms | RewindTo r \<Rightarrow> mput k r rooms)"
    by (simp add: apply_rewind_def x)
  with Cons.IH Cons.prems k show ?case by (cases c) (auto simp: x simp del: map_of_eq_Some_iff split: option.split membershipRewind.split)
qed (simp add: apply_rewind_def)

text \<open>What a change says the membership was before it.\<close>

definition membership_before :: "Deps \<Rightarrow> (string, SlidingRoom) gomap \<Rightarrow> string \<Rightarrow> DeltaMembershipChange \<Rightarrow> string option" where
  "membership_before d rooms room c =
     (if dm_PrevEventID c = [] \<or> dm_PrevMembership c = [] \<or> dm_PrevSender c = [] \<or> mget rooms room = None \<and> isl (dp_roomVersion d room) then None
      else Some (dm_PrevMembership c))"


definition ahead_elsewhere :: RoomKey where
  "ahead_elsewhere = \<lparr>rk_Topological = NoTopological, rk_Stream = 10, rk_Instances = [\<lparr>ip_ID = 2, ip_Pos = 25\<rparr>]\<rparr>"

text \<open>
  With several writers the rewind can be skipped. The snapshot and the token are compared by their highest
  positions only. A user who joined a room at 20 through one writer is shown it for a token that has that writer
  at 10, because the token has another writer at 25: the join is after the token, and no query is made to undo it.
\<close>

theorem rewind_skipped_with_several_writers:
  "let rooms = [(''!r'', no_room\<lparr>sm_RoomID := ''!r'', sm_Membership := ''join'', sm_EventInstance := ''w1'', sm_EventStream := 20\<rparr>)] in
   20 > RoomKey_StreamPosForInstance ahead_elsewhere 1 \<and>
   rewindToToken (d\<lparr>dp_instances := Inr [(''w1'', 1), (''w2'', 2)]\<rparr>) userID rooms (to\<lparr>tk_Room := ahead_elsewhere\<rparr>) = Inr []"
  by (simp add: ahead_elsewhere_def RoomKey_StreamPosForInstance_def rewindToToken_def snapshot_clock_def snapshot_key_def lowest_pos_def
      RoomKey_MaxStreamPos_def Live_def mgetz_def)

section \<open>A concrete request\<close>

definition demo_room :: SlidingRoom where
  "demo_room = no_room\<lparr>sm_RoomID := ''!r'', sm_Sender := ''@u'', sm_Membership := ''join'', sm_EventID := ''$j'', sm_RoomVersion := ''10'',
     sm_EventInstance := ''w1'', sm_EventStream := 5, sm_HasKnownState := True\<rparr>"

definition demo_joined :: SlidingJoinedRoom where
  "demo_joined = \<lparr>sj_RoomID = ''!r'', sj_EventStream = 8, sj_BumpStamp = None, sj_RoomType = None, sj_RoomName = None, sj_IsEncrypted = False, sj_Tombstone = None\<rparr>"

definition demo_deps :: Deps where
  "demo_deps = \<lparr>dp_rooms = (\<lambda>_. Inr [demo_room]), dp_selfLeaves = (\<lambda>_ _. Inr []), dp_ignored = (\<lambda>_. Inr {}), dp_changes = (\<lambda>_ _ _. Inr []),
     dp_deltas = (\<lambda>_ _ _. Inr [\<lparr>dr_RoomID = ''!r'', dr_EventID = Some ''$j'', dr_Instance = Some ''w1'', dr_StreamPos = 5, dr_PrevEventID = Some ''$i'',
       dr_PrevInstance = Some ''w1'', dr_PrevStream = Some 2, dr_PrevMembership = Some ''invite'', dr_PrevSender = Some ''@v''\<rparr>]),
     dp_instances = Inr [(''w1'', 1)], dp_roomVersion = (\<lambda>_. Inr ''10''), dp_direct = (\<lambda>_. Inr None), dp_parse = (\<lambda>_. JNull),
     dp_joined = (\<lambda>_. Inr [demo_joined]), dp_tags = (\<lambda>_. Inr []), dp_partial = Inr [], dp_lastPos = (\<lambda>_ _. Inr []), dp_ExcludedRooms = {},
     dp_ServerName = ''s'', dp_unicodeLower = id\<rparr>"

definition demo_list :: SlidingList where
  "demo_list = \<lparr>sl_Common = \<lparr>cp_RequiredState = [(''m.room.name'', '''')], cp_TimelineLimit = 20\<rparr>, sl_Ranges = [(0, 9)], sl_SlowGetAllRooms = False, sl_Filters = None\<rparr>"

definition demo_request :: Request where
  "demo_request = empty_request\<lparr>req_Lists := [(''rooms'', demo_list)],
     req_RoomSubscriptions := [(''!r'', \<lparr>sub_Common = \<lparr>cp_RequiredState = [(''*'', ''*'')], cp_TimelineLimit = 5\<rparr>\<rparr>)]\<rparr>"

lemma demo_lists: "\<exists>p out. ComputeRoomLists demo_deps sortedKeys None ''@u'' demo_request None (token_example 10 []) = (p, Inr out) \<and> mget (rl_Relevant out) ''!r'' \<noteq> None"
proof -
  let ?c = "ComputeRoomLists demo_deps sortedKeys None ''@u'' demo_request None (token_example 10 [])"
  have "(case snd ?c of Inl e \<Rightarrow> False | Inr out \<Rightarrow> \<not> Option.is_none (mget (rl_Relevant out) ''!r''))" by code_simp
  then show ?thesis by (cases ?c; cases "snd ?c") (auto simp: Option.is_none_def)
qed

theorem window_is_slice_witness:
  "windowRooms demo_deps demo_list [(''!r'', demo_room)] [(''!r'', demo_joined)] (token_example 10 []) =
     Inr [\<lparr>op_Op = ''SYNC'', op_Range = (0, 9), op_RoomIDs = [''!r'']\<rparr>]"
proof -
  have fair: "\<forall>rng \<in> set (sl_Ranges demo_list). fair_range rng" by (simp add: demo_list_def fair_range_def)
  have len: "int (length [(''!r'', demo_room)]) < int64_max" by simp
  have pos: "room_positions demo_deps [(''!r'', demo_room)] [(''!r'', demo_joined)] (token_example 10 []) = Inr [(''!r'', 8)]" by code_simp
  have "map (\<lambda>rng. \<lparr>op_Op = ''SYNC'', op_Range = rng, op_RoomIDs = slice (sort_ids [(''!r'', 8)]) rng\<rparr>) (window_ranges demo_list 1) =
      [\<lparr>op_Op = ''SYNC'', op_Range = (0, 9), op_RoomIDs = [''!r'']\<rparr>]" by code_simp
  with window_is_slice [OF fair len pos] show ?thesis by simp
qed

theorem list_order_is_visible_activity_witness: "set (sort_ids [(''!r'', 8)]) = {''!r''} \<and> distinct (sort_ids [(''!r'', 8)])"
proof -
  have wf: "mwf [(''!r'', demo_room)]" by simp
  have pos: "room_positions demo_deps [(''!r'', demo_room)] [(''!r'', demo_joined)] (token_example 10 []) = Inr [(''!r'', 8)]" by code_simp
  have "set (sort_ids [(''!r'', 8)]) = {''!r''}" by (simp add: sort_ids_def)
  then show ?thesis using list_order_is_visible_activity [OF wf pos] by (auto simp: Let_def)
qed

theorem lists_show_own_rooms_witness:
  "\<exists>p out. ComputeRoomLists demo_deps sortedKeys None ''@u'' demo_request None (token_example 10 []) = (p, Inr out) \<and> ''!r'' \<in> rl_AllRooms out"
proof -
  obtain p out where c: "ComputeRoomLists demo_deps sortedKeys None ''@u'' demo_request None (token_example 10 []) = (p, Inr out)" "mget (rl_Relevant out) ''!r'' \<noteq> None"
    using demo_lists by blast
  from c(2) have "''!r'' \<in> fst ` set (rl_Relevant out)" by (metis map_of_eq_None_iff)
  with lists_show_own_rooms [OF c(1)] c(1) show ?thesis by blast
qed

theorem every_list_is_served_witness:
  "\<exists>p out. ComputeRoomLists demo_deps sortedKeys None ''@u'' demo_request None (token_example 10 []) = (p, Inr out) \<and> list_served out ''rooms'' demo_list"
proof -
  obtain p out where c: "ComputeRoomLists demo_deps sortedKeys None ''@u'' demo_request None (token_example 10 []) = (p, Inr out)" using demo_lists by blast
  have wf: "mwf (req_Lists demo_request)" by (simp add: demo_request_def)
  have p: "PartialStateRooms (dp_partial demo_deps) = Inr {}" by (simp add: demo_deps_def PartialStateRooms_def)
  have "(''rooms'', demo_list) \<in> set (req_Lists demo_request)" by (simp add: demo_request_def)
  with every_list_is_served [OF iteration_order_sorted c wf p] c show ?thesis by blast
qed



text \<open>
  The largest range is an empty one. A client that asks for everything with the end of the range at the largest
  64-bit integer gets no room at all, because the size of the range wraps around.
\<close>

theorem largest_range_is_empty:
  "cut_range ids (0, int64_max) = Inr \<lparr>op_Op = ''SYNC'', op_Range = (0, int64_max), op_RoomIDs = []\<rparr>"
  by (simp add: cut_range_def wrap64_def)

end
