(* ===== verification/Client_Event.thy ===== *)
theory Client_Event
  imports Sliding_Queries "HOL-Library.Sublist"
begin

text \<open>
  Client events: \<^verbatim>\<open>internal/clientevent\<close> (\<^verbatim>\<open>serialize.go\<close>, \<^verbatim>\<open>redact.go\<close>, \<^verbatim>\<open>onlyfields.go\<close>), with which a stored event is
  rendered for a client, and from \<^verbatim>\<open>internal/store\<close> and \<^verbatim>\<open>internal/eventfilter\<close> the redactions and the receipts.

  The code reads JSON with \<^verbatim>\<open>gjson\<close> and edits it with \<^verbatim>\<open>sjson\<close>, two third-party packages, and never looks at the bytes
  itself. So a JSON text is a type variable, and the calls of the two packages are the fields of \<open>jsonlib\<close>. What
  the theorems need of them is the locale \<open>json_editor\<close>: a path of plain keys, separated by dots and with a
  backslash before a dot of a key, names one place of a document, and setting or deleting it leaves the
  other places alone.

  The theorems say what a client cannot see: the content of a redacted event, the transaction id of another
  session, the private receipt of another user.
\<close>

section \<open>The JSON packages\<close>

text \<open>\<open>jl_Get\<close> is \<^verbatim>\<open>GetBytes\<close> (\<open>None\<close> where \<^verbatim>\<open>Exists\<close> is false), \<open>jl_Fields\<close> what \<^verbatim>\<open>ForEach\<close> visits, \<open>jl_Set\<close> and \<open>jl_Delete\<close> are
  \<^verbatim>\<open>SetRawBytes\<close> and \<^verbatim>\<open>DeleteBytes\<close> with both of their results; the last five fields are how \<^verbatim>\<open>SetBytes\<close> encodes a value.\<close>

record 'd jsonlib =
  jl_Get :: "'d \<Rightarrow> string \<Rightarrow> 'd option"
  jl_Fields :: "'d \<Rightarrow> (string \<times> 'd) list"
  jl_IsObject :: "'d \<Rightarrow> bool"
  jl_IsString :: "'d \<Rightarrow> bool"
  jl_IsNumber :: "'d \<Rightarrow> bool"
  jl_IsNull :: "'d \<Rightarrow> bool"
  jl_String :: "'d \<Rightarrow> string"
  jl_Int :: "'d \<Rightarrow> int"
  jl_Bool :: "'d \<Rightarrow> bool"
  jl_Set :: "'d \<Rightarrow> string \<Rightarrow> 'd \<Rightarrow> 'd \<times> string option"
  jl_Delete :: "'d \<Rightarrow> string \<Rightarrow> 'd \<times> string option"
  jl_empty :: 'd
  jl_text :: "string \<Rightarrow> 'd"
  jl_number :: "int \<Rightarrow> 'd"
  jl_true :: 'd
  jl_value :: "'d \<Rightarrow> 'd"

text \<open>A lookup in a result that may not exist.\<close>

definition get_opt :: "'d jsonlib \<Rightarrow> 'd option \<Rightarrow> string \<Rightarrow> 'd option" where
  "get_opt j v p = (case v of None \<Rightarrow> None | Some d \<Rightarrow> jl_Get j d p)"

definition string_of :: "'d jsonlib \<Rightarrow> 'd option \<Rightarrow> string" where
  "string_of j v = (case v of None \<Rightarrow> [] | Some d \<Rightarrow> jl_String j d)"

definition is_object :: "'d jsonlib \<Rightarrow> 'd option \<Rightarrow> bool" where
  "is_object j v = (case v of None \<Rightarrow> False | Some d \<Rightarrow> jl_IsObject j d)"

definition fields_of :: "'d jsonlib \<Rightarrow> 'd option \<Rightarrow> (string \<times> 'd) list" where
  "fields_of j v = (case v of None \<Rightarrow> [] | Some d \<Rightarrow> jl_Fields j d)"

text \<open>A call whose error is returned, and one whose error is ignored.\<close>

definition checked :: "'d \<times> string option \<Rightarrow> string + 'd" where
  "checked r = (case snd r of Some e \<Rightarrow> Inl e | None \<Rightarrow> Inr (fst r))"

definition then_do :: "string + 'a \<Rightarrow> ('a \<Rightarrow> string + 'b) \<Rightarrow> string + 'b" where
  "then_do r f = (case r of Inl e \<Rightarrow> Inl e | Inr x \<Rightarrow> f x)"

section \<open>Redaction\<close>

definition escapeKey :: "string \<Rightarrow> string" where
  "escapeKey key = concat (map (\<lambda>c. if c \<in> {CHR ''.'', CHR ''*'', CHR ''?'', CHR 0x5C} then [CHR 0x5C, c] else [c]) key)"

text \<open>The top-level fields that survive.\<close>

definition allowed_keys :: "RoomVersion \<Rightarrow> string \<Rightarrow> string set" where
  "allowed_keys rv eventType =
     (let allowed = {''event_id'', ''sender'', ''room_id'', ''hashes'', ''signatures'', ''content'', ''type'', ''state_key'',
            ''depth'', ''prev_events'', ''origin_server_ts''};
          allowed = (if \<not> rv_UpdatedRedactionRules rv then allowed \<union> {''prev_state'', ''membership'', ''origin''} else allowed);
          allowed = (if rv_MSC4242StateDags rv then insert ''prev_state_events'' allowed else insert ''auth_events'' allowed)
      in if eventType = ''m.room.create'' \<and> rv_RoomIDsAsHashes rv then allowed - {''room_id''} else allowed)"

definition keep :: "'d jsonlib \<Rightarrow> 'd option \<Rightarrow> string \<Rightarrow> 'd \<Rightarrow> 'd" where
  "keep j content field newContent =
     (case get_opt j content field of
        None \<Rightarrow> newContent
      | Some v \<Rightarrow> (case jl_Set j newContent (escapeKey field) v of (nxt, None) \<Rightarrow> nxt | (_, Some err) \<Rightarrow> newContent))"

definition keep_third_party_invite :: "'d jsonlib \<Rightarrow> 'd option \<Rightarrow> 'd \<Rightarrow> 'd" where
  "keep_third_party_invite j content newContent =
     (let tpi = get_opt j content ''third_party_invite''
      in if is_object j tpi then
           (let inner = (case get_opt j tpi ''signed'' of None \<Rightarrow> jl_empty j | Some sig \<Rightarrow> fst (jl_Set j (jl_empty j) ''signed'' sig))
            in fst (jl_Set j newContent ''third_party_invite'' inner))
         else newContent)"

text \<open>The content fields kept for a type, in the order the code keeps them; for a create event they are the fields it has.\<close>

definition kept_fields :: "'d jsonlib \<Rightarrow> RoomVersion \<Rightarrow> string \<Rightarrow> 'd option \<Rightarrow> string list" where
  "kept_fields j rv eventType content =
     (if eventType = ''m.room.member'' then
        [''membership''] @ (if rv_RestrictedJoinRuleFix rv then [''join_authorised_via_users_server''] else [])
      else if eventType = ''m.room.create'' then
        (if rv_UpdatedRedactionRules rv then map fst (fields_of j content) else []) @ (if \<not> rv_ImplicitRoomCreator rv then [''creator''] else [])
      else if eventType = ''m.room.join_rules'' then [''join_rule''] @ (if rv_RestrictedJoinRule rv then [''allow''] else [])
      else if eventType = ''m.room.power_levels'' then
        [''users'', ''users_default'', ''events'', ''events_default'', ''state_default'', ''ban'', ''kick'', ''redact''] @
        (if rv_UpdatedRedactionRules rv then [''invite''] else [])
      else if eventType = ''m.room.aliases'' then (if rv_SpecialCaseAliasesAuth rv then [''aliases''] else [])
      else if eventType = ''m.room.history_visibility'' then [''history_visibility'']
      else if eventType = ''m.room.redaction'' then (if rv_UpdatedRedactionRules rv then [''redacts''] else [])
      else [])"

definition redact_content :: "'d jsonlib \<Rightarrow> RoomVersion \<Rightarrow> string \<Rightarrow> 'd option \<Rightarrow> 'd" where
  "redact_content j rv eventType content =
     (let newContent = fold (keep j content) (kept_fields j rv eventType content) (jl_empty j)
      in if eventType = ''m.room.member'' \<and> rv_UpdatedRedactionRules rv then keep_third_party_invite j content newContent
         else newContent)"

fun copy_allowed :: "'d jsonlib \<Rightarrow> string set \<Rightarrow> (string \<times> 'd) list \<Rightarrow> 'd \<Rightarrow> string + 'd" where
  "copy_allowed j allowed [] out = Inr out"
| "copy_allowed j allowed ((k, v) # flds) out =
     (if k \<notin> allowed then copy_allowed j allowed flds out
      else then_do (checked (jl_Set j out (escapeKey k) v)) (copy_allowed j allowed flds))"

text \<open>Copies the named fields of an object onto another, ignoring errors.\<close>

definition copy_fields :: "'d jsonlib \<Rightarrow> 'd option \<Rightarrow> string list \<Rightarrow> 'd \<Rightarrow> 'd" where
  "copy_fields j v flds out =
     fold (\<lambda>f out. case get_opt j v f of None \<Rightarrow> out | Some x \<Rightarrow> fst (jl_Set j out f x)) flds out"

definition keep_relation :: "'d jsonlib \<Rightarrow> 'd option \<Rightarrow> 'd \<Rightarrow> 'd" where
  "keep_relation j content newContent =
     (let rel = get_opt j content (''m'' @ [CHR 0x5C] @ ''.relates_to'')
      in if is_object j rel \<and> list_ex (\<lambda>f. get_opt j rel f \<noteq> None) [''rel_type'', ''event_id''] then
           fst (jl_Set j newContent (''m'' @ [CHR 0x5C] @ ''.relates_to'') (copy_fields j rel [''rel_type'', ''event_id''] (jl_empty j)))
         else newContent)"

definition redact_unsigned :: "'d jsonlib \<Rightarrow> 'd \<Rightarrow> 'd" where
  "redact_unsigned j event =
     (let unsigned = jl_Get j event ''unsigned''
      in if is_object j unsigned then copy_fields j unsigned [''age_ts'', ''replaces_state''] (jl_empty j) else jl_empty j)"

definition Redact :: "'d jsonlib \<Rightarrow> 'd \<Rightarrow> RoomVersion \<Rightarrow> string + 'd" where
  "Redact j event rv =
     (let eventType = string_of j (jl_Get j event ''type'');
          content = jl_Get j event ''content'';
          newContent = redact_content j rv eventType content
      in then_do (copy_allowed j (allowed_keys rv eventType) (jl_Fields j event) (jl_empty j)) (\<lambda>out.
         let newContent = (if rv_MSC3389RelationRedactions rv then keep_relation j content newContent else newContent)
         in then_do (checked (jl_Set j out ''content'' newContent)) (\<lambda>out.
            checked (jl_Set j out ''unsigned'' (redact_unsigned j event)))))"

section \<open>Selected fields\<close>

text \<open>The code goes by runes; the characters it looks for are ASCII, so going by bytes splits at the same places.\<close>

fun split_field :: "string \<Rightarrow> bool \<Rightarrow> string \<Rightarrow> string list \<Rightarrow> string list" where
  "split_field [] escaped cur parts = parts @ [if escaped then cur @ [CHR 0x5C] else cur]"
| "split_field (r # rs) escaped cur parts =
     (if escaped then split_field rs False (cur @ (if r \<noteq> CHR ''.'' \<and> r \<noteq> CHR 0x5C then [CHR 0x5C] else []) @ [r]) parts
      else if r = CHR 0x5C then split_field rs True cur parts
      else if r = CHR ''.'' then split_field rs False [] (parts @ [cur])
      else split_field rs False (cur @ [r]) parts)"

definition splitField :: "string \<Rightarrow> string list" where
  "splitField field = split_field field False [] []"

definition escapePath :: "string \<Rightarrow> string" where
  "escapePath part = concat (map (\<lambda>c. if c \<in> {CHR ''.'', CHR ''*'', CHR ''?'', CHR ''#''} then [CHR 0x5C, c] else [c]) part)"

definition sjsonPath :: "string list \<Rightarrow> string" where
  "sjsonPath parts = join_with CHR ''.'' (map escapePath parts)"

fun field_lookup :: "'d jsonlib \<Rightarrow> 'd \<Rightarrow> string list \<Rightarrow> 'd option" where
  "field_lookup j cur [] = None"
| "field_lookup j cur (part # parts) =
     (if \<not> jl_IsObject j cur then None
      else (case jl_Get j cur (escapePath part) of
              None \<Rightarrow> None
            | Some nxt \<Rightarrow> if parts = [] then Some nxt else field_lookup j nxt parts))"

fun only_fields :: "'d jsonlib \<Rightarrow> 'd \<Rightarrow> string list \<Rightarrow> 'd \<Rightarrow> string + 'd" where
  "only_fields j event [] out = Inr out"
| "only_fields j event (field # flds) out =
     (let parts = splitField field
      in if parts = [] then only_fields j event flds out
         else (case field_lookup j event parts of
                 None \<Rightarrow> only_fields j event flds out
               | Some v \<Rightarrow> then_do (checked (jl_Set j out (sjsonPath parts) v)) (only_fields j event flds)))"

definition OnlyFields :: "'d jsonlib \<Rightarrow> 'd \<Rightarrow> string list \<Rightarrow> string + 'd" where
  "OnlyFields j event flds = only_fields j event flds (jl_empty j)"

section \<open>Serialisation\<close>

datatype Format = FormatV1 | FormatV2 | FormatV2NoRoomID | FormatRaw

record Requester =
  rq_UserID :: string
  rq_DeviceID :: string
  rq_TokenID :: int
  rq_IsGuest :: bool
  rq_AppServiceID :: string

record SerializeConfig =
  cf_Format :: Format
  cf_Requester :: Requester
  cf_IncludeStrippedRoomState :: bool
  cf_MSC4354Enabled :: bool
  cf_IncludeAdminMetadata :: bool
  cf_EventFields :: "string list"

text \<open>Empty metadata and an empty redaction event are \<open>None\<close>.\<close>

record 'd Stored =
  sd_EventID :: string
  sd_RoomID :: string
  sd_Type :: string
  sd_JSON :: 'd
  sd_InternalMetadata :: "'d option"
  sd_RoomVersion :: string
  sd_Membership :: string
  sd_RedactedBy :: string
  sd_RedactedBecause :: "'d option"

definition v2DropKeys :: "string list" where
  "v2DropKeys = [''auth_events'', ''prev_events'', ''hashes'', ''signatures'', ''depth'', ''origin'', ''prev_state'']"

definition v1CopyKeys :: "string list" where
  "v1CopyKeys = [''age'', ''redacted_because'', ''replaces_state'', ''prev_content'', ''invite_room_state'', ''knock_room_state'']"

definition persistedUnsignedFields :: "string list" where
  "persistedUnsignedFields = [''age_ts'', ''replaces_state'', ''invite_room_state'', ''knock_room_state'', ''prev_content'', ''prev_sender'']"

definition stickyMaxDurationMS :: int where "stickyMaxDurationMS = 60 * 60 * 1000"

definition sticky_ttl :: "'d jsonlib \<Rightarrow> 'd \<Rightarrow> int \<Rightarrow> int option" where
  "sticky_ttl j out nowMS =
     (let sticky = jl_Get j out ''msc4354_sticky'' in
      if \<not> is_object j sticky then None
      else (case get_opt j sticky ''duration_ms'' of
              None \<Rightarrow> None
            | Some duration \<Rightarrow>
                if \<not> jl_IsNumber j duration \<or> jl_Int j duration < 0 then None
                else
                  let ms = (if jl_Int j duration > stickyMaxDurationMS then stickyMaxDurationMS else jl_Int j duration);
                      originTS = (case jl_Get j out ''origin_server_ts'' of None \<Rightarrow> 0 | Some t \<Rightarrow> jl_Int j t);
                      originTS = (if originTS > nowMS then nowMS else originTS);
                      expiresAt = wrap64 (originTS + ms)
                  in if expiresAt \<le> nowMS then None else Some (wrap64 (expiresAt - nowMS))))"

definition applyStickyTTL :: "'d jsonlib \<Rightarrow> 'd \<Rightarrow> int \<Rightarrow> string + 'd" where
  "applyStickyTTL j out nowMS =
     (case sticky_ttl j out nowMS of
        None \<Rightarrow> Inr out
      | Some ttl \<Rightarrow> checked (jl_Set j out ''unsigned.msc4354_sticky_duration_ttl_ms'' (jl_number j ttl)))"

definition filterUnsigned :: "'d jsonlib \<Rightarrow> 'd \<Rightarrow> 'd" where
  "filterUnsigned j stored =
     (case jl_Get j stored ''unsigned'' of
        None \<Rightarrow> jl_empty j
      | Some uns \<Rightarrow> fold (\<lambda>key out.
          case jl_Get j uns key of
            None \<Rightarrow> out
          | Some v \<Rightarrow> (case jl_Set j out key v of (nxt, None) \<Rightarrow> nxt | (_, Some err) \<Rightarrow> out)) persistedUnsignedFields (jl_empty j))"

definition apply_age :: "'d jsonlib \<Rightarrow> int \<Rightarrow> 'd \<Rightarrow> string + 'd" where
  "apply_age j nowMS out =
     (case jl_Get j out ''unsigned.age_ts'' of
        None \<Rightarrow> Inr out
      | Some ageTS \<Rightarrow>
          if \<not> jl_IsNumber j ageTS then Inr out
          else then_do (checked (jl_Set j out ''unsigned.age'' (jl_number j (wrap64 (nowMS - jl_Int j ageTS))))) (\<lambda>out.
                 checked (jl_Delete j out ''unsigned.age_ts'')))"

text \<open>Whether the session of the request is the one that sent the event.\<close>

definition same_session :: "'d jsonlib \<Rightarrow> 'd \<Rightarrow> Requester \<Rightarrow> bool" where
  "same_session j meta req =
     (case jl_Get j meta ''device_id'' of
        Some eventDevice \<Rightarrow> jl_String j eventDevice = rq_DeviceID req \<and> rq_DeviceID req \<noteq> []
      | None \<Rightarrow>
          (case jl_Get j meta ''token_id'' of None \<Rightarrow> False | Some eventToken \<Rightarrow> rq_TokenID req \<noteq> 0 \<and> jl_Int j eventToken = rq_TokenID req)
          \<or> rq_IsGuest req \<or> rq_AppServiceID req \<noteq> [])"

definition applyTransactionID :: "'d jsonlib \<Rightarrow> 'd \<Rightarrow> 'd Stored \<Rightarrow> Requester \<Rightarrow> string + 'd" where
  "applyTransactionID j out ev req =
     (case sd_InternalMetadata ev of
        None \<Rightarrow> Inr out
      | Some meta \<Rightarrow>
          if rq_UserID req = [] then Inr out
          else if string_of j (jl_Get j out ''sender'') \<noteq> rq_UserID req then Inr out
          else
            then_do (case jl_Get j meta ''txn_id'' of
                       None \<Rightarrow> Inr out
                     | Some txnID \<Rightarrow>
                         if jl_IsString j txnID \<and> same_session j meta req
                         then checked (jl_Set j out ''unsigned.transaction_id'' (jl_text j (jl_String j txnID))) else Inr out) (\<lambda>out.
            case jl_Get j meta ''delay_id'' of
              None \<Rightarrow> Inr out
            | Some delayID \<Rightarrow>
                if jl_IsString j delayID
                then checked (jl_Set j out (''unsigned.org'' @ [CHR 0x5C] @ ''.matrix'' @ [CHR 0x5C] @ ''.msc4140'' @ [CHR 0x5C] @ ''.delay_id'') (jl_text j (jl_String j delayID)))
                else Inr out))"

fun delete_all :: "'d jsonlib \<Rightarrow> string list \<Rightarrow> 'd \<Rightarrow> string + 'd" where
  "delete_all j [] out = Inr out"
| "delete_all j (key # ks) out = then_do (checked (jl_Delete j out key)) (delete_all j ks)"

fun copy_unsigned :: "'d jsonlib \<Rightarrow> string list \<Rightarrow> 'd \<Rightarrow> string + 'd" where
  "copy_unsigned j [] out = Inr out"
| "copy_unsigned j (key # ks) out =
     (case jl_Get j out (''unsigned.'' @ key) of
        None \<Rightarrow> copy_unsigned j ks out
      | Some v \<Rightarrow> then_do (checked (jl_Set j out key v)) (copy_unsigned j ks))"

definition applyFormat :: "'d jsonlib \<Rightarrow> 'd \<Rightarrow> Format \<Rightarrow> string + 'd" where
  "applyFormat j out format =
     (if format = FormatRaw then Inr out
      else then_do (delete_all j v2DropKeys out) (\<lambda>out.
        case format of
          FormatV2NoRoomID \<Rightarrow> checked (jl_Delete j out ''room_id'')
        | FormatV1 \<Rightarrow>
            then_do (case jl_Get j out ''sender'' of
                       None \<Rightarrow> Inr out
                     | Some sender \<Rightarrow> if jl_IsNull j sender then Inr out else checked (jl_Set j out ''user_id'' (jl_value j sender))) (\<lambda>out.
            copy_unsigned j v1CopyKeys out)
        | _ \<Rightarrow> Inr out))"

definition mirrorRedacts :: "'d jsonlib \<Rightarrow> 'd \<Rightarrow> RoomVersion \<Rightarrow> string + 'd" where
  "mirrorRedacts j out rv =
     (let (frm, to) = (if rv_UpdatedRedactionRules rv then (''content.redacts'', ''redacts'') else (''redacts'', ''content.redacts''))
      in case jl_Get j out frm of
           None \<Rightarrow> Inr out
         | Some v \<Rightarrow> if jl_IsNull j v then Inr out else checked (jl_Set j out to v))"

definition apply_redacted_by :: "'d jsonlib \<Rightarrow> 'd Stored \<Rightarrow> 'd \<Rightarrow> string + 'd" where
  "apply_redacted_by j ev out =
     (if sd_RedactedBy ev = [] then Inr out
      else then_do (checked (jl_Set j out ''unsigned.redacted_by'' (jl_text j (sd_RedactedBy ev)))) (\<lambda>out.
        case sd_RedactedBecause ev of
          None \<Rightarrow> Inr out
        | Some because \<Rightarrow> checked (jl_Set j out ''unsigned.redacted_because'' because)))"

definition admin_metadata :: "'d jsonlib \<Rightarrow> 'd Stored \<Rightarrow> 'd \<Rightarrow> string + 'd" where
  "admin_metadata j ev out =
     (let flag = (\<lambda>name. case get_opt j (sd_InternalMetadata ev) name of None \<Rightarrow> False | Some v \<Rightarrow> jl_Bool j v);
          synapse = ''unsigned.io'' @ [CHR 0x5C] @ ''.element'' @ [CHR 0x5C] @ ''.synapse'' @ [CHR 0x5C]
      in then_do (if flag ''soft_failed'' then checked (jl_Set j out (synapse @ ''.soft_failed'') (jl_true j)) else Inr out) (\<lambda>out.
         if flag ''policy_server_spammy'' then checked (jl_Set j out (synapse @ ''.policy_server_spammy'') (jl_true j)) else Inr out))"

definition Serialize :: "'d jsonlib \<Rightarrow> 'd Stored \<Rightarrow> int \<Rightarrow> SerializeConfig \<Rightarrow> string + 'd" where
  "Serialize j ev nowMS cfg =
     (let rv = LookupRoomVersion (sd_RoomVersion ev) in
      then_do (if sd_RedactedBy ev \<noteq> [] then Redact j (sd_JSON ev) rv else Inr (sd_JSON ev)) (\<lambda>out.
      then_do (checked (jl_Set j out ''event_id'' (jl_text j (sd_EventID ev)))) (\<lambda>out.
      then_do (checked (jl_Set j out ''unsigned'' (filterUnsigned j (sd_JSON ev)))) (\<lambda>out.
      then_do (apply_age j nowMS out) (\<lambda>out.
      then_do (applyTransactionID j out ev (cf_Requester cfg)) (\<lambda>out.
      then_do (if \<not> cf_IncludeStrippedRoomState cfg then delete_all j [''unsigned.invite_room_state'', ''unsigned.knock_room_state''] out else Inr out) (\<lambda>out.
      then_do (apply_redacted_by j ev out) (\<lambda>out.
      then_do (applyFormat j out (cf_Format cfg)) (\<lambda>out.
      then_do (if sd_Type ev = ''m.room.create'' \<and> rv_RoomIDsAsHashes rv then checked (jl_Set j out ''room_id'' (jl_text j (sd_RoomID ev))) else Inr out) (\<lambda>out.
      then_do (if sd_Type ev = ''m.room.redaction'' then mirrorRedacts j out rv else Inr out) (\<lambda>out.
      then_do (if cf_IncludeAdminMetadata cfg then admin_metadata j ev out else Inr out) (\<lambda>out.
      then_do (if cf_MSC4354Enabled cfg then applyStickyTTL j out nowMS else Inr out) (\<lambda>out.
      then_do (if sd_Membership ev \<noteq> [] then checked (jl_Set j out ''unsigned.membership'' (jl_text j (sd_Membership ev))) else Inr out) (\<lambda>out.
      if cf_EventFields cfg \<noteq> [] then OnlyFields j out (cf_EventFields cfg) else Inr out))))))))))))))"

section \<open>Redactions of a page\<close>

record 'd clientEventSource =
  cs_EventID :: string
  cs_RoomID :: string
  cs_Type :: string
  cs_JSON :: 'd
  cs_InternalMetadata :: "'d option"

record 'd Redaction =
  rx_EventID :: string
  rx_Event :: "'d clientEventSource"

text \<open>A row of the query, oldest redaction first.\<close>

record 'd redaction_row =
  ro_redacts :: string
  ro_redactionSender :: string
  ro_targetSender :: string
  ro_targetRoom :: string
  ro_recheck :: string
  ro_event :: "'d clientEventSource"

definition domainOf :: "string \<Rightarrow> string" where
  "domainOf userID = (case cut_on CHR '':'' userID of Some (_, rest) \<Rightarrow> rest | None \<Rightarrow> [])"

definition redaction_counts :: "'d redaction_row \<Rightarrow> bool" where
  "redaction_counts r \<longleftrightarrow> cs_RoomID (ro_event r) = ro_targetRoom r \<and>
     \<not> (ro_recheck r = ''true'' \<and> domainOf (ro_redactionSender r) \<noteq> domainOf (ro_targetSender r))"

definition Redactions :: "(string list \<Rightarrow> 'd redaction_row answer) \<Rightarrow> string list \<Rightarrow> string + (string, 'd Redaction) gomap" where
  "Redactions q eventIDs =
     (if eventIDs = [] then Inr []
      else (case q eventIDs of
              Inl e \<Rightarrow> Inl e
            | Inr rows \<Rightarrow> Inr (fold (\<lambda>r out.
                if \<not> redaction_counts r \<or> mget out (ro_redacts r) \<noteq> None then out
                else mput (ro_redacts r) \<lparr>rx_EventID = cs_EventID (ro_event r), rx_Event = ro_event r\<rparr> out) rows [])))"

definition AttachRedaction :: "'d jsonlib \<Rightarrow> (string, 'd Redaction) gomap \<Rightarrow> int \<Rightarrow> SerializeConfig \<Rightarrow> 'd Stored \<Rightarrow> string + 'd Stored" where
  "AttachRedaction j redactions timeNow cfg stored =
     (case mget redactions (sd_EventID stored) of
        None \<Rightarrow> Inr stored
      | Some r \<Rightarrow>
          let e = rx_Event r in
          then_do (Serialize j \<lparr>sd_EventID = cs_EventID e, sd_RoomID = cs_RoomID e, sd_Type = cs_Type e, sd_JSON = cs_JSON e,
             sd_InternalMetadata = cs_InternalMetadata e, sd_RoomVersion = sd_RoomVersion stored, sd_Membership = [], sd_RedactedBy = [],
             sd_RedactedBecause = None\<rparr> timeNow cfg) (\<lambda>because.
          Inr (stored\<lparr>sd_RedactedBy := cs_EventID e, sd_RedactedBecause := Some because\<rparr>)))"

section \<open>Receipts\<close>

text \<open>The receipts by event, type and user; \<open>set_thread\<close> is \<^verbatim>\<open>sjson.SetBytes\<close> with the key \<^verbatim>\<open>thread_id\<close>.\<close>

type_synonym receipt_content = "(string, (string, (string, string) gomap) gomap) gomap"

definition visible_receipts :: "ReceiptRow list \<Rightarrow> string \<Rightarrow> ReceiptRow list" where
  "visible_receipts rows userID = filter (\<lambda>row. \<not> (rr_ReceiptType row = ''m.read.private'' \<and> rr_UserID row \<noteq> userID)) rows"

definition unthreaded_receipts :: "ReceiptRow list \<Rightarrow> bool \<Rightarrow> (string \<times> string) set" where
  "unthreaded_receipts visible withThreads =
     (if withThreads then (\<lambda>row. (rr_UserID row, rr_EventID row)) ` {row \<in> set visible. rr_ThreadID row = []} else {})"

definition put_receipt :: "ReceiptRow \<Rightarrow> string \<Rightarrow> receipt_content \<Rightarrow> receipt_content" where
  "put_receipt row data content =
     (let byType = mgetz [] content (rr_EventID row); byUser = mgetz [] byType (rr_ReceiptType row)
      in mput (rr_EventID row) (mput (rr_ReceiptType row) (mput (rr_UserID row) data byUser) byType) content)"

fun receipt_loop :: "(string \<Rightarrow> string \<Rightarrow> string + string) \<Rightarrow> bool \<Rightarrow> (string \<times> string) set \<Rightarrow> ReceiptRow list \<Rightarrow> receipt_content \<Rightarrow> string + receipt_content" where
  "receipt_loop set_thread withThreads unthreaded [] content = Inr content"
| "receipt_loop set_thread withThreads unthreaded (row # rows) content =
     (if withThreads \<and> rr_ThreadID row \<noteq> [] then
        (if (rr_UserID row, rr_EventID row) \<in> unthreaded then receipt_loop set_thread withThreads unthreaded rows content
         else then_do (set_thread (rr_Data row) (rr_ThreadID row)) (\<lambda>data. receipt_loop set_thread withThreads unthreaded rows (put_receipt row data content)))
      else receipt_loop set_thread withThreads unthreaded rows (put_receipt row (rr_Data row) content))"

definition ReceiptEvent :: "(string \<Rightarrow> string \<Rightarrow> string + string) \<Rightarrow> ReceiptRow list \<Rightarrow> string \<Rightarrow> bool \<Rightarrow> string + receipt_content option" where
  "ReceiptEvent set_thread rows userID withThreads =
     (let visible = visible_receipts rows userID
      in then_do (receipt_loop set_thread withThreads (unthreaded_receipts visible withThreads) visible []) (\<lambda>content.
         Inr (if content = [] then None else Some content)))"

section \<open>What the JSON packages promise\<close>

text \<open>The keys of a path, and the paths whose keys are plain: no wildcard, no modifier, no array index.\<close>

fun path_split :: "string \<Rightarrow> string \<Rightarrow> string list" where
  "path_split [] cur = [cur]"
| "path_split [c] cur = (if c = CHR ''.'' then [cur, []] else [cur @ [c]])"
| "path_split (c # d # cs) cur =
     (if c = CHR 0x5C then path_split cs (cur @ [d]) else if c = CHR ''.'' then cur # path_split (d # cs) [] else path_split (d # cs) (cur @ [c]))"

definition path_keys :: "string \<Rightarrow> string list" where
  "path_keys p = path_split p []"

definition special_chars :: string where
  "special_chars = ''*?|#@!{[:'' @ [CHR 0x5C]"

definition literal_key :: "string \<Rightarrow> bool" where
  "literal_key k \<longleftrightarrow> k \<noteq> [] \<and> list_all (\<lambda>c. c \<notin> set special_chars) k \<and> hd k \<notin> set ''-0123456789''"

definition literal :: "string \<Rightarrow> bool" where
  "literal p \<longleftrightarrow> list_all literal_key (path_keys p)"

text \<open>The value at a place of a document, going down through the fields of its objects.\<close>

fun at :: "'d jsonlib \<Rightarrow> 'd \<Rightarrow> string list \<Rightarrow> 'd option" where
  "at j d [] = Some d"
| "at j d (k # ks) = (case map_of (jl_Fields j d) k of None \<Rightarrow> None | Some v \<Rightarrow> at j v ks)"

lemma at_append: "at j d (ks @ ls) = Option.bind (at j d ks) (\<lambda>v. at j v ls)"
  by (induction ks arbitrary: d) (auto split: option.split)

definition apart :: "string list set \<Rightarrow> string list \<Rightarrow> bool" where
  "apart T ks \<longleftrightarrow> (\<forall>p \<in> T. \<not> prefix p ks \<and> \<not> prefix ks p)"

lemma apart_simps [simp]: "apart {} ks" "apart (insert p T) ks \<longleftrightarrow> \<not> prefix p ks \<and> \<not> prefix ks p \<and> apart T ks"
    "apart (S \<union> T) ks \<longleftrightarrow> apart S ks \<and> apart T ks"
  by (auto simp: apart_def)

text \<open>\<open>ok\<close> holds of the valid JSON texts in which no object has a key twice.\<close>

locale json_editor =
  fixes j :: "'d jsonlib" and ok :: "'d \<Rightarrow> bool"
  assumes ok_empty: "ok (jl_empty j)" and object_empty: "jl_IsObject j (jl_empty j)" and fields_empty: "jl_Fields j (jl_empty j) = []"
    and ok_text: "ok (jl_text j s)" and text_string: "jl_String j (jl_text j s) = s" and ok_number: "ok (jl_number j n)" and ok_true: "ok (jl_true j)"
    and ok_value: "ok d \<Longrightarrow> ok (jl_value j d)"
    and ok_field: "ok d \<Longrightarrow> (k, v) \<in> set (jl_Fields j d) \<Longrightarrow> ok v"
    and distinct_fields: "ok d \<Longrightarrow> jl_IsObject j d \<Longrightarrow> distinct (map fst (jl_Fields j d))"
    and get: "ok d \<Longrightarrow> literal p \<Longrightarrow> jl_Get j d p = at j d (path_keys p)"
    and set_ok: "ok d \<Longrightarrow> jl_IsObject j d \<Longrightarrow> ok v \<Longrightarrow> literal p \<Longrightarrow> jl_Set j d p v = (d', e) \<Longrightarrow> e = None \<and> ok d' \<and> jl_IsObject j d'"
    and set_there: "ok d \<Longrightarrow> jl_IsObject j d \<Longrightarrow> ok v \<Longrightarrow> literal p \<Longrightarrow> jl_Set j d p v = (d', e) \<Longrightarrow> at j d' (path_keys p @ ks) = at j v ks"
    and set_elsewhere: "ok d \<Longrightarrow> jl_IsObject j d \<Longrightarrow> ok v \<Longrightarrow> literal p \<Longrightarrow> jl_Set j d p v = (d', e) \<Longrightarrow> apart {path_keys p} ks \<Longrightarrow> at j d' ks = at j d ks"
    and delete_ok: "ok d \<Longrightarrow> jl_IsObject j d \<Longrightarrow> literal p \<Longrightarrow> jl_Delete j d p = (d', e) \<Longrightarrow> e = None \<and> ok d' \<and> jl_IsObject j d'"
    and delete_there: "ok d \<Longrightarrow> jl_IsObject j d \<Longrightarrow> literal p \<Longrightarrow> jl_Delete j d p = (d', e) \<Longrightarrow> at j d' (path_keys p @ ks) = None"
    and delete_elsewhere: "ok d \<Longrightarrow> jl_IsObject j d \<Longrightarrow> literal p \<Longrightarrow> jl_Delete j d p = (d', e) \<Longrightarrow> apart {path_keys p} ks \<Longrightarrow> at j d' ks = at j d ks"

text \<open>The paths of the code are plain.\<close>

named_theorems paths

lemma path_literals [paths]:
  "literal ''type''" "literal ''content''" "literal ''unsigned''" "literal ''event_id''" "literal ''sender''" "literal ''room_id''" "literal ''user_id''"
  "literal ''redacts''" "literal ''content.redacts''" "literal ''unsigned.age_ts''" "literal ''unsigned.age''" "literal ''unsigned.transaction_id''"
  "literal ''unsigned.redacted_by''" "literal ''unsigned.redacted_because''" "literal ''unsigned.membership''"
  "literal ''unsigned.invite_room_state''" "literal ''unsigned.knock_room_state''"
  "literal ''unsigned.msc4354_sticky_duration_ttl_ms''" "literal ''third_party_invite''" "literal ''signed''"
  "literal (''m'' @ [CHR 0x5C] @ ''.relates_to'')"
  "literal (''unsigned.org'' @ [CHR 0x5C] @ ''.matrix'' @ [CHR 0x5C] @ ''.msc4140'' @ [CHR 0x5C] @ ''.delay_id'')"
  "literal ((''unsigned.io'' @ [CHR 0x5C] @ ''.element'' @ [CHR 0x5C] @ ''.synapse'' @ [CHR 0x5C]) @ ''.soft_failed'')"
  "literal ((''unsigned.io'' @ [CHR 0x5C] @ ''.element'' @ [CHR 0x5C] @ ''.synapse'' @ [CHR 0x5C]) @ ''.policy_server_spammy'')"
  by (simp_all add: literal_def literal_key_def path_keys_def special_chars_def)

lemma path_key_values [paths]:
  "path_keys ''type'' = [''type'']" "path_keys ''content'' = [''content'']" "path_keys ''unsigned'' = [''unsigned'']" "path_keys ''event_id'' = [''event_id'']"
  "path_keys ''sender'' = [''sender'']" "path_keys ''room_id'' = [''room_id'']" "path_keys ''user_id'' = [''user_id'']"
  "path_keys ''redacts'' = [''redacts'']" "path_keys ''content.redacts'' = [''content'', ''redacts'']" "path_keys ''unsigned.age_ts'' = [''unsigned'', ''age_ts'']"
  "path_keys ''unsigned.age'' = [''unsigned'', ''age'']" "path_keys ''unsigned.transaction_id'' = [''unsigned'', ''transaction_id'']"
  "path_keys ''unsigned.redacted_by'' = [''unsigned'', ''redacted_by'']" "path_keys ''unsigned.redacted_because'' = [''unsigned'', ''redacted_because'']"
  "path_keys ''unsigned.membership'' = [''unsigned'', ''membership'']"
  "path_keys ''unsigned.invite_room_state'' = [''unsigned'', ''invite_room_state'']" "path_keys ''unsigned.knock_room_state'' = [''unsigned'', ''knock_room_state'']"
  "path_keys ''unsigned.msc4354_sticky_duration_ttl_ms'' = [''unsigned'', ''msc4354_sticky_duration_ttl_ms'']"
  "path_keys ''third_party_invite'' = [''third_party_invite'']" "path_keys ''signed'' = [''signed'']"
  "path_keys (''m'' @ [CHR 0x5C] @ ''.relates_to'') = [''m.relates_to'']"
  "path_keys (''unsigned.org'' @ [CHR 0x5C] @ ''.matrix'' @ [CHR 0x5C] @ ''.msc4140'' @ [CHR 0x5C] @ ''.delay_id'') = [''unsigned'', ''org.matrix.msc4140.delay_id'']"
  "path_keys ((''unsigned.io'' @ [CHR 0x5C] @ ''.element'' @ [CHR 0x5C] @ ''.synapse'' @ [CHR 0x5C]) @ ''.soft_failed'') = [''unsigned'', ''io.element.synapse.soft_failed'']"
  "path_keys ((''unsigned.io'' @ [CHR 0x5C] @ ''.element'' @ [CHR 0x5C] @ ''.synapse'' @ [CHR 0x5C]) @ ''.policy_server_spammy'') = [''unsigned'', ''io.element.synapse.policy_server_spammy'']"
  by (simp_all add: path_keys_def)

text \<open>A key without a dot is a path of one key.\<close>

definition simple_key :: "string \<Rightarrow> bool" where
  "simple_key k \<longleftrightarrow> k \<noteq> [] \<and> list_all (\<lambda>c. c \<notin> set (CHR ''.'' # special_chars)) k \<and> hd k \<notin> set ''-0123456789''"

lemma path_split_plain: "list_all (\<lambda>c. c \<noteq> CHR ''.'' \<and> c \<noteq> CHR 0x5C) k \<Longrightarrow> path_split (k @ p) cur = (case p of [] \<Rightarrow> [cur @ k] | _ \<Rightarrow> path_split p (cur @ k))"
proof (induction k arbitrary: cur)
  case (Cons c k)
  have "path_split (c # k @ p) cur = path_split (k @ p) (cur @ [c])"
    using Cons.prems by (cases "k @ p") simp_all
  with Cons show ?case by (simp split: list.split)
qed (simp split: list.split)

lemma simple_key: "simple_key k \<Longrightarrow> literal k \<and> path_keys k = [k] \<and> escapeKey k = k"
proof -
  assume k: "simple_key k"
  then have "list_all (\<lambda>c. c \<noteq> CHR ''.'' \<and> c \<noteq> CHR 0x5C) k" by (auto simp: simple_key_def special_chars_def list_all_iff)
  then have "path_keys k = [k]" using path_split_plain [of k "[]" "[]"] by (simp add: path_keys_def)
  moreover have "escapeKey k = concat (map (\<lambda>c. [c]) k)"
    unfolding escapeKey_def by (rule arg_cong [where f = concat], rule map_cong) (use k in \<open>auto simp: simple_key_def special_chars_def list_all_iff\<close>)
  ultimately show ?thesis using k by (simp add: literal_def literal_key_def simple_key_def list_all_iff)
qed

lemma unsigned_key: "simple_key k \<Longrightarrow> literal (''unsigned.'' @ k) \<and> path_keys (''unsigned.'' @ k) = [''unsigned'', k]"
proof -
  assume k: "simple_key k"
  then obtain c cs where "k = c # cs" by (cases k) (simp_all add: simple_key_def)
  then have "path_keys (''unsigned.'' @ k) = ''unsigned'' # path_keys k" by (simp add: path_keys_def)
  moreover have "literal_key ''unsigned''" by (simp add: literal_key_def special_chars_def)
  moreover have "literal_key k" using k by (simp add: literal_key_def simple_key_def list_all_iff)
  ultimately show ?thesis using simple_key [OF k] by (simp add: literal_def)
qed

lemma simple_keys:
  "list_all simple_key v2DropKeys" "list_all simple_key v1CopyKeys" "list_all simple_key persistedUnsignedFields"
  by (simp_all add: v2DropKeys_def v1CopyKeys_def persistedUnsignedFields_def simple_key_def special_chars_def)

section \<open>What an edit touches\<close>

text \<open>\<open>edits T d d'\<close>: \<open>d'\<close> is a document that differs from \<open>d\<close> only at or below the places in \<open>T\<close>.\<close>

definition good :: "'d jsonlib \<Rightarrow> ('d \<Rightarrow> bool) \<Rightarrow> 'd \<Rightarrow> bool" where
  "good j ok d \<longleftrightarrow> ok d \<and> jl_IsObject j d"

definition edits :: "'d jsonlib \<Rightarrow> ('d \<Rightarrow> bool) \<Rightarrow> string list set \<Rightarrow> 'd \<Rightarrow> 'd \<Rightarrow> bool" where
  "edits j ok T d d' \<longleftrightarrow> (good j ok d \<longrightarrow> good j ok d' \<and> (\<forall>ks. apart T ks \<longrightarrow> at j d' ks = at j d ks))"

lemma edits_refl [simp, intro]: "edits j ok T d d"
  by (simp add: edits_def)

lemma apart_mono: "apart T ks \<Longrightarrow> S \<subseteq> T \<Longrightarrow> apart S ks"
  by (auto simp: apart_def)

lemma edits_trans: "edits j ok S d e \<Longrightarrow> edits j ok T e f \<Longrightarrow> edits j ok (S \<union> T) d f"
  by (simp add: edits_def)

lemma edits_more: "edits j ok S d e \<Longrightarrow> S \<subseteq> T \<Longrightarrow> edits j ok T d e"
  by (auto simp: edits_def intro: apart_mono)

lemma edits_seq: "edits j ok T d e \<Longrightarrow> edits j ok T e f \<Longrightarrow> edits j ok T d f"
  by (simp add: edits_def)

lemma editsD: "edits j ok T d d' \<Longrightarrow> good j ok d \<Longrightarrow> good j ok d'"
    "edits j ok T d d' \<Longrightarrow> good j ok d \<Longrightarrow> apart T ks \<Longrightarrow> at j d' ks = at j d ks"
  by (simp_all add: edits_def)

lemma then_do_Inr: "then_do r f = Inr y \<longleftrightarrow> (\<exists>x. r = Inr x \<and> f x = Inr y)"
  by (simp add: then_do_def split: sum.split)

lemma then_do_ret: "then_do r Inr = r"
  by (simp add: then_do_def split: sum.split)

lemma checked_Inr: "checked r = Inr x \<longleftrightarrow> r = (x, None)"
  by (cases r) (auto simp: checked_def split: option.split)

context json_editor
begin

lemma at_ok: "ok d \<Longrightarrow> at j d ks = Some v \<Longrightarrow> ok v"
proof (induction ks arbitrary: d)
  case (Cons k ks)
  then obtain w where "map_of (jl_Fields j d) k = Some w" "at j w ks = Some v" by (auto split: option.splits)
  then show ?case using Cons.IH ok_field [OF Cons.prems(1)] map_of_SomeD by fast
qed simp

lemma get_ok: "ok d \<Longrightarrow> literal p \<Longrightarrow> jl_Get j d p = Some v \<Longrightarrow> ok v"
  using at_ok get by metis

lemma set_edits: "jl_Set j d p v = (d', e) \<Longrightarrow> ok v \<Longrightarrow> literal p \<Longrightarrow> path_keys p = ks \<Longrightarrow> ks \<in> T \<Longrightarrow> edits j ok T d d'"
  unfolding edits_def good_def using set_ok set_elsewhere [of d v p d' e]
  by (metis apart_mono empty_subsetI insert_subset)

lemma delete_edits: "jl_Delete j d p = (d', e) \<Longrightarrow> literal p \<Longrightarrow> path_keys p = ks \<Longrightarrow> ks \<in> T \<Longrightarrow> edits j ok T d d'"
  unfolding edits_def good_def using delete_ok delete_elsewhere [of d p d' e]
  by (metis apart_mono empty_subsetI insert_subset)

lemma good_empty: "good j ok (jl_empty j)"
  by (simp add: good_def ok_empty object_empty)

lemma at_empty: "at j (jl_empty j) (k # ks) = None"
  by (simp add: fields_empty)

lemma set_one: "jl_Set j d p v = (d', e) \<Longrightarrow> good j ok d \<Longrightarrow> ok v \<Longrightarrow> literal p \<Longrightarrow> path_keys p = [k] \<Longrightarrow>
    e = None \<and> good j ok d' \<and> at j d' (k' # ks) = (if k' = k then at j v ks else at j d (k' # ks))"
  using set_ok [of d v p d' e] set_there [of d v p d' e ks] set_elsewhere [of d v p d' e "k' # ks"] by (auto simp: good_def)

end

section \<open>What redaction leaves\<close>

text \<open>The content keys that survive the redaction of an event, by room version and type.\<close>

definition survives :: "RoomVersion \<Rightarrow> string \<Rightarrow> string \<Rightarrow> bool" where
  "survives rv t k \<longleftrightarrow>
     (t = ''m.room.member'' \<and> (k = ''membership'' \<or> (k = ''join_authorised_via_users_server'' \<and> rv_RestrictedJoinRuleFix rv))) \<or>
     (t = ''m.room.join_rules'' \<and> (k = ''join_rule'' \<or> (k = ''allow'' \<and> rv_RestrictedJoinRule rv))) \<or>
     (t = ''m.room.power_levels'' \<and> (k \<in> {''users'', ''users_default'', ''events'', ''events_default'', ''state_default'', ''ban'', ''kick'', ''redact''} \<or>
        (k = ''invite'' \<and> rv_UpdatedRedactionRules rv))) \<or>
     (t = ''m.room.aliases'' \<and> rv_SpecialCaseAliasesAuth rv \<and> k = ''aliases'') \<or>
     (t = ''m.room.history_visibility'' \<and> k = ''history_visibility'') \<or>
     (t = ''m.room.redaction'' \<and> rv_UpdatedRedactionRules rv \<and> k = ''redacts'')"

text \<open>Of two keys only a part of the value survives.\<close>

definition survives_in_part :: "RoomVersion \<Rightarrow> string \<Rightarrow> string \<Rightarrow> bool" where
  "survives_in_part rv t k \<longleftrightarrow>
     (t = ''m.room.member'' \<and> rv_UpdatedRedactionRules rv \<and> k = ''third_party_invite'') \<or> (rv_MSC3389RelationRedactions rv \<and> k = ''m.relates_to'')"

lemma content_keys:
  "list_all simple_key [''membership'', ''join_authorised_via_users_server'', ''creator'', ''join_rule'', ''allow'', ''users'', ''users_default'', ''events'', ''events_default'',
     ''state_default'', ''ban'', ''kick'', ''redact'', ''invite'', ''aliases'', ''history_visibility'', ''redacts'']"
  by (simp add: simple_key_def special_chars_def)

lemma event_keys:
  "list_all simple_key [''event_id'', ''sender'', ''room_id'', ''hashes'', ''signatures'', ''content'', ''type'', ''state_key'', ''depth'', ''prev_events'', ''origin_server_ts'',
     ''prev_state'', ''membership'', ''origin'', ''prev_state_events'', ''auth_events'', ''age_ts'', ''replaces_state'', ''rel_type'']"
  by (simp add: simple_key_def special_chars_def)

lemma kept_plain: "t \<noteq> ''m.room.create'' \<Longrightarrow> list_all simple_key (kept_fields j rv t content)"
  using content_keys by (simp add: kept_fields_def)

lemma kept_survive:
  assumes "t \<noteq> ''m.room.create''" and "k \<in> set (kept_fields j rv t content)"
  shows "survives rv t k"
  using assms by (simp add: kept_fields_def survives_def split: if_split_asm)

lemma allowed_shape:
  "(let a = A; a = (if b then a \<union> B else a); a = (if c then insert x a else insert y a) in if d then a - R else a) \<subseteq> A \<union> B \<union> {x, y}"
  by (auto simp: Let_def)

lemma allowed_plain: "k \<in> allowed_keys rv t \<Longrightarrow> simple_key k"
proof -
  let ?base = "{''event_id'', ''sender'', ''room_id'', ''hashes'', ''signatures'', ''content'', ''type'', ''state_key'', ''depth'', ''prev_events'', ''origin_server_ts''}"
  have "\<forall>k \<in> ?base. simple_key k" and "\<forall>k \<in> {''prev_state'', ''membership'', ''origin''}. simple_key k"
    and "\<forall>k \<in> {''prev_state_events'', ''auth_events''}. simple_key k" using event_keys by simp_all
  moreover have "allowed_keys rv t \<subseteq> ?base \<union> {''prev_state'', ''membership'', ''origin''} \<union> {''prev_state_events'', ''auth_events''}"
    unfolding allowed_keys_def by (rule allowed_shape)
  ultimately show "k \<in> allowed_keys rv t \<Longrightarrow> simple_key k" by (meson UnE subsetD)
qed

definition at_opt :: "'d jsonlib \<Rightarrow> 'd option \<Rightarrow> string list \<Rightarrow> 'd option" where
  "at_opt j v ks = Option.bind v (\<lambda>d. at j d ks)"

definition part_of :: "'d jsonlib \<Rightarrow> ('d \<Rightarrow> bool) \<Rightarrow> (string \<Rightarrow> bool) \<Rightarrow> 'd option \<Rightarrow> 'd \<Rightarrow> bool" where
  "part_of j ok F content d \<longleftrightarrow> good j ok d \<and> (\<forall>k ks. at j d (k # ks) \<noteq> None \<longrightarrow> F k \<and> at j d (k # ks) = at_opt j content (k # ks))"

text \<open>The same, but for the keys in \<open>G\<close>.\<close>

definition part_but :: "'d jsonlib \<Rightarrow> ('d \<Rightarrow> bool) \<Rightarrow> (string \<Rightarrow> bool) \<Rightarrow> (string \<Rightarrow> bool) \<Rightarrow> 'd option \<Rightarrow> 'd \<Rightarrow> bool" where
  "part_but j ok F G content d \<longleftrightarrow> good j ok d \<and> (\<forall>k ks. at j d (k # ks) \<noteq> None \<longrightarrow> G k \<or> (F k \<and> at j d (k # ks) = at_opt j content (k # ks)))"

definition all_ok :: "('d \<Rightarrow> bool) \<Rightarrow> 'd option \<Rightarrow> bool" where
  "all_ok ok v \<longleftrightarrow> (\<forall>d. v = Some d \<longrightarrow> ok d)"

context json_editor
begin

lemma get_opt_at: "all_ok ok v \<Longrightarrow> literal p \<Longrightarrow> get_opt j v p = at_opt j v (path_keys p)"
  by (cases v) (simp_all add: get_opt_def at_opt_def all_ok_def get)

lemma at_opt_ok: "all_ok ok v \<Longrightarrow> at_opt j v ks = Some d \<Longrightarrow> ok d"
  by (cases v) (auto simp: at_opt_def all_ok_def intro: at_ok)

lemma at_opt_Cons: "at_opt j v [k] = Some d \<Longrightarrow> at_opt j v (k # ks) = at j d ks"
  by (cases v) (auto simp: at_opt_def split: option.splits)

lemma keep_part:
  assumes "all_ok ok content" and "simple_key f" and "F f" and "part_of j ok F content d"
  shows "part_of j ok F content (keep j content f d)"
proof (cases "get_opt j content f")
  case (Some v)
  then have at: "at_opt j content [f] = Some v" using get_opt_at [OF assms(1), of f] assms(2) by (simp add: simple_key)
  obtain d' e where set: "jl_Set j d f v = (d', e)" by (cases "jl_Set j d f v")
  note one = set_one [OF set _ at_opt_ok [OF assms(1) at]]
  have "e = None" "good j ok d'" "at j d' (k # ks) = (if k = f then at j v ks else at j d (k # ks))" for k ks
    using one [of f k ks] assms(2,4) by (simp_all add: simple_key part_of_def)
  then show ?thesis
    using assms(2-4) Some set at_opt_Cons [OF at] by (auto simp: part_of_def keep_def simple_key simp del: at.simps)
qed (use assms in \<open>simp add: keep_def\<close>)

lemma keeps_part:
  assumes "all_ok ok content"
  shows "list_all simple_key fs \<Longrightarrow> \<forall>f \<in> set fs. F f \<Longrightarrow> part_of j ok F content d \<Longrightarrow> part_of j ok F content (fold (keep j content) fs d)"
  by (induction fs arbitrary: d) (simp_all add: keep_part [OF assms])

lemma empty_part: "part_of j ok F content (jl_empty j)"
  by (simp add: part_of_def good_empty at_empty del: at.simps)

text \<open>Setting one more key to something else.\<close>

lemma part_but_part: "part_of j ok F content d \<Longrightarrow> part_but j ok F G content d"
  by (auto simp: part_of_def part_but_def)

lemma part_but_set:
  assumes "part_but j ok F G content d" and "ok v" and "literal p" and "path_keys p = [k]" and "G k"
  shows "part_but j ok F G content (fst (jl_Set j d p v))"
proof -
  obtain d' e where set: "jl_Set j d p v = (d', e)" by (cases "jl_Set j d p v")
  have "good j ok d'" and "at j d' (k' # ks) = (if k' = k then at j v ks else at j d (k' # ks))" for k' ks
    using set_one [OF set _ assms(2-4), of k' ks] assms(1) by (simp_all add: part_but_def)
  then show ?thesis using assms(1,5) set by (auto simp: part_but_def simp del: at.simps)
qed

lemma copy_fields_good: "all_ok ok v \<Longrightarrow> list_all simple_key fs \<Longrightarrow> good j ok d \<Longrightarrow> good j ok (copy_fields j v fs d)"
proof (induction fs arbitrary: d)
  case (Cons f fs)
  have "good j ok (case get_opt j v f of None \<Rightarrow> d | Some x \<Rightarrow> fst (jl_Set j d f x))"
  proof (cases "get_opt j v f")
    case (Some x)
    then have "ok x" using Cons.prems get_opt_at [of v f] at_opt_ok [of v] by (simp add: simple_key)
    then show ?thesis using Some Cons.prems set_ok [of d x f] by (cases "jl_Set j d f x") (simp add: good_def simple_key)
  qed (simp add: Cons.prems)
  then show ?case using Cons by (simp add: copy_fields_def)
qed (simp add: copy_fields_def)

end

context json_editor
begin

lemma copy_allowed_at:
  assumes "\<And>k. k \<in> A \<Longrightarrow> simple_key k"
  shows "copy_allowed j A fs d = Inr d' \<Longrightarrow> distinct (map fst fs) \<Longrightarrow> \<forall>(k, v) \<in> set fs. ok v \<Longrightarrow> good j ok d \<Longrightarrow>
    good j ok d' \<and> at j d' (k # ks) = (case map_of fs k of Some v \<Rightarrow> if k \<in> A then at j v ks else at j d (k # ks) | None \<Rightarrow> at j d (k # ks))"
proof (induction fs arbitrary: d)
  case (Cons f fs)
  obtain k' v' where f: "f = (k', v')" by (cases f)
  show ?case
  proof (cases "k' \<in> A")
    case False
    with Cons f show ?thesis by (auto split: option.split simp del: at.simps)
  next
    case True
    then have key: "literal k'" "path_keys k' = [k']" "escapeKey k' = k'" using simple_key [OF assms [OF True]] by blast+
    from Cons.prems(1) f True key obtain e where set: "jl_Set j d k' v' = (e, None)" and rest: "copy_allowed j A fs e = Inr d'"
      by (auto simp: then_do_Inr checked_Inr)
    have "ok v'" using Cons.prems(3) f by simp
    note one = set_one [OF set Cons.prems(4) this key(1,2), of k ks]
    have "good j ok d' \<and> at j d' (k # ks) = (case map_of fs k of Some v \<Rightarrow> if k \<in> A then at j v ks else at j e (k # ks) | None \<Rightarrow> at j e (k # ks))"
      by (rule Cons.IH [OF rest]) (use Cons.prems f one in auto)
    moreover have "map_of fs k' = None" using Cons.prems(2) f by (simp add: map_of_eq_None_iff)
    ultimately show ?thesis using one f True by (auto split: option.split simp del: at.simps)
  qed
qed simp

lemma keep_relation_part:
  assumes "all_ok ok content" and "part_but j ok F G content d" and "G ''m.relates_to''"
  shows "part_but j ok F G content (keep_relation j content d)"
proof -
  let ?p = "''m'' @ [CHR 0x5C] @ ''.relates_to''"
  let ?rel = "get_opt j content ?p"
  have rel: "all_ok ok ?rel" using at_opt_ok [OF assms(1)] get_opt_at [OF assms(1)] paths(21) by (auto simp: all_ok_def)
  have "list_all simple_key [''rel_type'', ''event_id'']" using event_keys by simp
  then have "good j ok (copy_fields j ?rel [''rel_type'', ''event_id''] (jl_empty j))" by (rule copy_fields_good [OF rel _ good_empty])
  then have "part_but j ok F G content (fst (jl_Set j d ?p (copy_fields j ?rel [''rel_type'', ''event_id''] (jl_empty j))))"
    by (intro part_but_set [OF assms(2)]) (use paths assms(3) in \<open>auto simp: good_def\<close>)
  then show ?thesis unfolding keep_relation_def Let_def using assms(2) by (simp del: append.simps)
qed

lemma third_party_part:
  assumes "all_ok ok content" and "part_but j ok F G content d" and "G ''third_party_invite''"
  shows "part_but j ok F G content (keep_third_party_invite j content d)"
proof -
  let ?tpi = "get_opt j content ''third_party_invite''"
  have tpi: "all_ok ok ?tpi" using at_opt_ok [OF assms(1)] get_opt_at [OF assms(1)] paths(19) by (auto simp: all_ok_def)
  have "ok (case get_opt j ?tpi ''signed'' of None \<Rightarrow> jl_empty j | Some sig \<Rightarrow> fst (jl_Set j (jl_empty j) ''signed'' sig))"
  proof (cases "get_opt j ?tpi ''signed''")
    case (Some sig)
    then have "ok sig" using at_opt_ok [OF tpi] get_opt_at [OF tpi] paths(20) by auto
    then show ?thesis using Some set_ok [OF ok_empty object_empty _ paths(20), of sig] by (cases "jl_Set j (jl_empty j) ''signed'' sig") simp
  qed (simp add: ok_empty)
  then have "part_but j ok F G content (fst (jl_Set j d ''third_party_invite''
      (case get_opt j ?tpi ''signed'' of None \<Rightarrow> jl_empty j | Some sig \<Rightarrow> fst (jl_Set j (jl_empty j) ''signed'' sig))))"
    by (rule part_but_set [OF assms(2)]) (use paths assms(3) in auto)
  then show ?thesis unfolding keep_third_party_invite_def Let_def using assms(2) by simp
qed

lemma redact_content_part:
  assumes "all_ok ok content" and "t \<noteq> ''m.room.create''"
  shows "part_but j ok (survives rv t) (survives_in_part rv t) content (redact_content j rv t content)"
proof -
  have "part_of j ok (survives rv t) content (fold (keep j content) (kept_fields j rv t content) (jl_empty j))"
    by (rule keeps_part [OF assms(1) kept_plain [OF assms(2)] _ empty_part]) (use kept_survive [OF assms(2)] in blast)
  then have "part_but j ok (survives rv t) (survives_in_part rv t) content (fold (keep j content) (kept_fields j rv t content) (jl_empty j))"
    by (rule part_but_part)
  then show ?thesis unfolding redact_content_def Let_def
    using third_party_part [OF assms(1), of "survives rv t" "survives_in_part rv t"] by (cases "t = ''m.room.member''"; cases "rv_UpdatedRedactionRules rv") (simp_all add: survives_in_part_def)
qed

lemma redact_at:
  assumes "Redact j event rv = Inr out" and "good j ok event" and "string_of j (jl_Get j event ''type'') = t" and "t \<noteq> ''m.room.create''"
  shows "good j ok out"
    and "at j out (''content'' # k # ks) \<noteq> None \<Longrightarrow>
      survives_in_part rv t k \<or> (survives rv t k \<and> at j out (''content'' # k # ks) = at j event (''content'' # k # ks))"
    and "k \<notin> {''content'', ''unsigned''} \<Longrightarrow> at j out (k # ks) = (if k \<in> allowed_keys rv t then at j event (k # ks) else None)"
proof -
  let ?c = "jl_Get j event ''content''"
  let ?nc = "redact_content j rv t ?c"
  let ?nc' = "if rv_MSC3389RelationRedactions rv then keep_relation j ?c ?nc else ?nc"
  let ?u = "redact_unsigned j event"
  have ev: "ok event" "jl_IsObject j event" using assms(2) by (simp_all add: good_def)
  obtain o1 o2 where o1: "copy_allowed j (allowed_keys rv t) (jl_Fields j event) (jl_empty j) = Inr o1"
    and o2: "jl_Set j o1 ''content'' ?nc' = (o2, None)" and o3: "jl_Set j o2 ''unsigned'' ?u = (out, None)"
    using assms(1,3) by (auto simp: Redact_def Let_def then_do_Inr checked_Inr)
  have c: "all_ok ok ?c" using get_ok [OF ev(1)] paths(2) by (auto simp: all_ok_def)
  have ceq: "?c = at j event [''content'']" using get [OF ev(1)] paths by simp
  have nc: "part_but j ok (survives rv t) (survives_in_part rv t) ?c ?nc'"
    using redact_content_part [OF c assms(4)] keep_relation_part [OF c] by (auto simp: survives_in_part_def)
  have "all_ok ok (jl_Get j event ''unsigned'')" using get_ok [OF ev(1)] paths(3) by (auto simp: all_ok_def)
  moreover have "list_all simple_key [''age_ts'', ''replaces_state'']" using event_keys by simp
  ultimately have u: "ok ?u" using copy_fields_good [OF _ _ good_empty] ok_empty unfolding redact_unsigned_def Let_def by (auto simp: good_def)
  have fs: "\<forall>(k, v) \<in> set (jl_Fields j event). ok v" using ok_field [OF ev(1)] by blast
  note one = copy_allowed_at [OF allowed_plain [where rv = rv and t = t] o1 distinct_fields [OF ev] fs good_empty]
  have okc: "ok ?nc'" using nc by (simp add: part_but_def good_def)
  note two = set_one [OF o2 _ okc paths(2)] and three = set_one [OF o3 _ u paths(3)]
  have g1: "good j ok o1" using one by blast
  have g2: "good j ok o2" using two g1 paths by blast
  show "good j ok out" using three g2 paths by blast
  have final: "at j out (k # ks) = (if k = ''unsigned'' then at j ?u ks else if k = ''content'' then at j ?nc' ks else at j o1 (k # ks))" for k ks
    using two [OF g1, of "''content''" k ks] three [OF g2, of "''unsigned''" k ks] paths by (auto simp del: at.simps)
  show "at j out (''content'' # k # ks) \<noteq> None \<Longrightarrow>
      survives_in_part rv t k \<or> (survives rv t k \<and> at j out (''content'' # k # ks) = at j event (''content'' # k # ks))"
  proof -
    assume "at j out (''content'' # k # ks) \<noteq> None"
    then have "at j ?nc' (k # ks) \<noteq> None" using final [of "''content''" "k # ks"] by (simp del: at.simps)
    then have "survives_in_part rv t k \<or> (survives rv t k \<and> at j ?nc' (k # ks) = at_opt j ?c (k # ks))" using nc unfolding part_but_def by blast
    moreover have "at_opt j ?c (k # ks) = at j event (''content'' # k # ks)"
      using at_append [of j event "[''content'']" "k # ks"] ceq by (simp add: at_opt_def del: at.simps)
    ultimately show ?thesis using final [of "''content''" "k # ks"] by (simp del: at.simps)
  qed
  show "k \<notin> {''content'', ''unsigned''} \<Longrightarrow> at j out (k # ks) = (if k \<in> allowed_keys rv t then at j event (k # ks) else None)"
    using final [of k ks] one [of k ks] by (auto simp: fields_empty split: option.split)
qed

end

section \<open>The steps of the serialiser\<close>

definition top_keys :: "string list set" where
  "top_keys = (\<lambda>k. [k]) ` set (v2DropKeys @ v1CopyKeys @ [''room_id'', ''user_id''])"

definition unsigned_extras :: "string list set" where
  "unsigned_extras = {[''unsigned'', ''invite_room_state''], [''unsigned'', ''knock_room_state''], [''unsigned'', ''redacted_by''], [''unsigned'', ''redacted_because'']}"

definition unsigned_late :: "string list set" where
  "unsigned_late = {[''unsigned'', ''io.element.synapse.soft_failed''], [''unsigned'', ''io.element.synapse.policy_server_spammy''],
     [''unsigned'', ''msc4354_sticky_duration_ttl_ms''], [''unsigned'', ''membership'']}"

context json_editor
begin

lemma apply_age_edits:
  assumes "apply_age j nowMS d = Inr d'"
  shows "edits j ok {[''unsigned'', ''age''], [''unsigned'', ''age_ts'']} d d'"
proof (cases "jl_Get j d ''unsigned.age_ts''")
  case (Some ts)
  show ?thesis
  proof (cases "jl_IsNumber j ts")
    case True
    then obtain e where "jl_Set j d ''unsigned.age'' (jl_number j (wrap64 (nowMS - jl_Int j ts))) = (e, None)" and "jl_Delete j e ''unsigned.age_ts'' = (d', None)"
      using assms Some by (auto simp: apply_age_def then_do_Inr checked_Inr)
    then show ?thesis by (intro edits_seq [OF set_edits [OF _ ok_number _ refl] delete_edits [OF _ _ refl]]) (auto simp: paths)
  qed (use assms Some in \<open>simp add: apply_age_def\<close>)
qed (use assms in \<open>simp add: apply_age_def\<close>)

lemma transaction_edits:
  assumes "applyTransactionID j d ev req = Inr d'"
  shows "edits j ok {[''unsigned'', ''transaction_id''], [''unsigned'', ''org.matrix.msc4140.delay_id'']} d d'"
proof -
  let ?T = "{[''unsigned'', ''transaction_id''], [''unsigned'', ''org.matrix.msc4140.delay_id'']}"
  have one: "edits j ok ?T d e" if "jl_Set j d ''unsigned.transaction_id'' (jl_text j s) = (e, r)" for d e s r
    by (rule set_edits [OF that ok_text _ refl]) (simp_all add: paths)
  have two: "edits j ok ?T d e" if "jl_Set j d (''unsigned.org'' @ [CHR 0x5C] @ ''.matrix'' @ [CHR 0x5C] @ ''.msc4140'' @ [CHR 0x5C] @ ''.delay_id'') (jl_text j s) = (e, r)" for d e s r
    by (rule set_edits [OF that ok_text paths(22) paths(46)]) simp
  from assms show ?thesis unfolding applyTransactionID_def
    by (auto simp: then_do_Inr checked_Inr simp del: append.simps split: option.splits if_splits intro: one two edits_seq [OF one two])
qed

lemma delete_all_edits: "delete_all j ks d = Inr d' \<Longrightarrow> list_all literal ks \<Longrightarrow> path_keys ` set ks \<subseteq> T \<Longrightarrow> edits j ok T d d'"
proof (induction ks arbitrary: d)
  case (Cons k ks)
  then obtain e where "jl_Delete j d k = (e, None)" and "delete_all j ks e = Inr d'" by (auto simp: then_do_Inr checked_Inr)
  then show ?case by (intro edits_seq [OF delete_edits [OF _ _ refl] Cons.IH]) (use Cons.prems in auto)
qed simp

lemma redacted_by_edits:
  assumes "apply_redacted_by j ev d = Inr d'" and "all_ok ok (sd_RedactedBecause ev)"
  shows "edits j ok unsigned_extras d d'"
proof -
  have one: "edits j ok unsigned_extras d e" if "jl_Set j d ''unsigned.redacted_by'' (jl_text j s) = (e, r)" for d e s r
    by (rule set_edits [OF that ok_text _ refl]) (simp_all add: paths unsigned_extras_def)
  have two: "edits j ok unsigned_extras d e" if "jl_Set j d ''unsigned.redacted_because'' v = (e, r)" "ok v" for d e v r
    by (rule set_edits [OF that _ refl]) (simp_all add: paths unsigned_extras_def)
  from assms show ?thesis unfolding apply_redacted_by_def all_ok_def
    by (auto simp: then_do_Inr checked_Inr split: option.splits if_splits intro: one two edits_seq [OF one two])
qed

lemma copy_unsigned_edits:
  "copy_unsigned j ks d = Inr d' \<Longrightarrow> list_all simple_key ks \<Longrightarrow> (\<lambda>k. [k]) ` set ks \<subseteq> T \<Longrightarrow> edits j ok T d d'"
proof (induction ks arbitrary: d)
  case (Cons k ks)
  note rest = Cons.IH [where d = d] and key = simple_key [of k] unsigned_key [of k]
  show ?case
  proof (cases "jl_Get j d (''unsigned.'' @ k)")
    case (Some v)
    then obtain e where set: "jl_Set j d k v = (e, None)" and e: "copy_unsigned j ks e = Inr d'" using Cons.prems(1) by (auto simp: then_do_Inr checked_Inr)
    have "edits j ok T e d'" by (rule Cons.IH [OF e]) (use Cons.prems in auto)
    moreover have "edits j ok T d e" if "good j ok d"
      by (rule set_edits [OF set get_ok _ refl]) (use that Some key Cons.prems in \<open>auto simp: good_def simp del: append.simps\<close>)
    ultimately show ?thesis by (auto simp: edits_def)
  qed (use Cons rest in \<open>auto simp del: append.simps\<close>)
qed simp

lemma format_edits: "applyFormat j d format = Inr d' \<Longrightarrow> edits j ok top_keys d d'"
proof -
  have drop: "edits j ok top_keys d e" if "delete_all j v2DropKeys d = Inr e" for d e
    by (rule delete_all_edits [OF that]) (use simple_keys(1) simple_key in \<open>fastforce simp: top_keys_def list_all_iff\<close>)+
  have room: "edits j ok top_keys d e" if "jl_Delete j d ''room_id'' = (e, r)" for d e r
    by (rule delete_edits [OF that _ refl]) (simp_all add: paths top_keys_def)
  have user: "edits j ok top_keys d e" if "jl_Set j d ''user_id'' (jl_value j v) = (e, r)" "jl_Get j d ''sender'' = Some v" for d e v r
  proof -
    have "edits j ok top_keys d e" if "good j ok d"
      by (rule set_edits [OF \<open>jl_Set j d ''user_id'' (jl_value j v) = (e, r)\<close> ok_value [OF get_ok] _ refl])
        (use that \<open>jl_Get j d ''sender'' = Some v\<close> in \<open>auto simp: paths top_keys_def good_def\<close>)
    then show ?thesis by (auto simp: edits_def)
  qed
  have copy: "edits j ok top_keys d e" if "copy_unsigned j v1CopyKeys d = Inr e" for d e
    by (rule copy_unsigned_edits [OF that simple_keys(2)]) (auto simp: top_keys_def)
  show "edits j ok top_keys d d'" if fmt: "applyFormat j d format = Inr d'"
  proof (cases "format = FormatRaw")
    case False
    then obtain e where e: "delete_all j v2DropKeys d = Inr e" using fmt by (auto simp: applyFormat_def then_do_Inr)
    have "edits j ok top_keys e d'"
    proof (cases format)
      case FormatV1
      let ?user = "case jl_Get j e ''sender'' of None \<Rightarrow> Inr e | Some sender \<Rightarrow> if jl_IsNull j sender then Inr e else checked (jl_Set j e ''user_id'' (jl_value j sender))"
      from fmt e FormatV1 obtain m where m: "?user = Inr m" and c: "copy_unsigned j v1CopyKeys m = Inr d'" by (simp add: applyFormat_def then_do_Inr) blast
      have "edits j ok top_keys e m"
      proof (cases "jl_Get j e ''sender''")
        case (Some v)
        then show ?thesis using m user [OF _ Some] by (cases "jl_IsNull j v") (simp_all add: checked_Inr)
      qed (use m in simp)
      then show ?thesis by (rule edits_seq [OF _ copy [OF c]])
    next
      case FormatV2NoRoomID
      then show ?thesis using fmt e room by (auto simp: applyFormat_def then_do_def checked_Inr)
    qed (use fmt e False in \<open>simp_all add: applyFormat_def then_do_def\<close>)
    then show ?thesis by (rule edits_seq [OF drop [OF e]])
  qed (use fmt in \<open>simp add: applyFormat_def\<close>)
qed

lemma admin_edits: "admin_metadata j ev d = Inr d' \<Longrightarrow> edits j ok unsigned_late d d'"
proof -
  let ?s = "''unsigned.io'' @ [CHR 0x5C] @ ''.element'' @ [CHR 0x5C] @ ''.synapse'' @ [CHR 0x5C]"
  have one: "edits j ok unsigned_late d e" if "jl_Set j d (?s @ ''.soft_failed'') (jl_true j) = (e, r)" for d e r
    by (rule set_edits [OF that ok_true paths(23) paths(47)]) (simp add: unsigned_late_def)
  have two: "edits j ok unsigned_late d e" if "jl_Set j d (?s @ ''.policy_server_spammy'') (jl_true j) = (e, r)" for d e r
    by (rule set_edits [OF that ok_true paths(24) paths(48)]) (simp add: unsigned_late_def)
  show "admin_metadata j ev d = Inr d' \<Longrightarrow> edits j ok unsigned_late d d'"
    unfolding admin_metadata_def Let_def
    by (auto simp: then_do_Inr checked_Inr simp del: append.simps append_assoc split: option.splits if_splits intro: one two edits_seq [OF one two])
qed

lemma sticky_edits: "applyStickyTTL j d nowMS = Inr d' \<Longrightarrow> edits j ok unsigned_late d d'"
  unfolding applyStickyTTL_def
  by (auto simp: checked_Inr paths unsigned_late_def split: option.splits intro: set_edits [OF _ ok_number _ refl])

end

context json_editor
begin

lemma filter_unsigned_fold:
  assumes "jl_Get j stored ''unsigned'' = Some u"
  shows "filterUnsigned j stored = fold (keep j (Some u)) persistedUnsignedFields (jl_empty j)"
proof -
  have "(case jl_Get j u key of None \<Rightarrow> out | Some v \<Rightarrow> (case jl_Set j out key v of (nxt, None) \<Rightarrow> nxt | (_, Some err) \<Rightarrow> out)) = keep j (Some u) key out"
    if "key \<in> set persistedUnsignedFields" for key out
    using simple_key [of key] simple_keys(3) that by (auto simp: keep_def get_opt_def list_all_iff split: option.split)
  then show ?thesis
    unfolding filterUnsigned_def assms option.case by (intro fold_cong refl) blast
qed

lemma filter_unsigned_part:
  assumes "ok stored"
  shows "part_of j ok (\<lambda>k. k \<in> set persistedUnsignedFields) (jl_Get j stored ''unsigned'') (filterUnsigned j stored)"
proof (cases "jl_Get j stored ''unsigned''")
  case (Some u)
  have "ok u" using get_ok [OF assms] Some paths(3) by blast
  moreover note filter_unsigned_fold [OF Some]
  ultimately show ?thesis using keeps_part [OF _ simple_keys(3) _ empty_part, of "Some u" "\<lambda>k. k \<in> set persistedUnsignedFields"]
    by (simp add: Some all_ok_def)
qed (simp add: filterUnsigned_def empty_part)

text \<open>An event goes through the redaction, the new \<^verbatim>\<open>event_id\<close> and \<^verbatim>\<open>unsigned\<close>, the age, the transaction id, and then edits that are
  named by where they happen, with the copy of \<^verbatim>\<open>redacts\<close> between them.\<close>

lemma serialize_chain:
  assumes "Serialize j ev nowMS cfg = Inr out" and "cf_EventFields cfg = []" and "all_ok ok (sd_RedactedBecause ev)"
  obtains r a b c d e f where
    "(if sd_RedactedBy ev \<noteq> [] then Redact j (sd_JSON ev) (LookupRoomVersion (sd_RoomVersion ev)) else Inr (sd_JSON ev)) = Inr r"
    "jl_Set j r ''event_id'' (jl_text j (sd_EventID ev)) = (a, None)"
    "jl_Set j a ''unsigned'' (filterUnsigned j (sd_JSON ev)) = (b, None)"
    "apply_age j nowMS b = Inr c" "applyTransactionID j c ev (cf_Requester cfg) = Inr d"
    "edits j ok (unsigned_extras \<union> top_keys) d e"
    "(if sd_Type ev = ''m.room.redaction'' then mirrorRedacts j e (LookupRoomVersion (sd_RoomVersion ev)) else Inr e) = Inr f"
    "edits j ok unsigned_late f out"
proof -
  let ?rv = "LookupRoomVersion (sd_RoomVersion ev)"
  from assms(1) obtain r a b c d d1 d2 d3 e f f1 f2 where steps:
    "(if sd_RedactedBy ev \<noteq> [] then Redact j (sd_JSON ev) ?rv else Inr (sd_JSON ev)) = Inr r"
    "checked (jl_Set j r ''event_id'' (jl_text j (sd_EventID ev))) = Inr a"
    "checked (jl_Set j a ''unsigned'' (filterUnsigned j (sd_JSON ev))) = Inr b"
    "apply_age j nowMS b = Inr c" "applyTransactionID j c ev (cf_Requester cfg) = Inr d"
    and s1: "(if \<not> cf_IncludeStrippedRoomState cfg then delete_all j [''unsigned.invite_room_state'', ''unsigned.knock_room_state''] d else Inr d) = Inr d1"
    and s2: "apply_redacted_by j ev d1 = Inr d2" and s3: "applyFormat j d2 (cf_Format cfg) = Inr d3"
    and s4: "(if sd_Type ev = ''m.room.create'' \<and> rv_RoomIDsAsHashes ?rv then checked (jl_Set j d3 ''room_id'' (jl_text j (sd_RoomID ev))) else Inr d3) = Inr e"
    and mirror: "(if sd_Type ev = ''m.room.redaction'' then mirrorRedacts j e ?rv else Inr e) = Inr f"
    and s5: "(if cf_IncludeAdminMetadata cfg then admin_metadata j ev f else Inr f) = Inr f1"
    and s6: "(if cf_MSC4354Enabled cfg then applyStickyTTL j f1 nowMS else Inr f1) = Inr f2"
    and s7: "(if sd_Membership ev \<noteq> [] then checked (jl_Set j f2 ''unsigned.membership'' (jl_text j (sd_Membership ev))) else Inr f2) = Inr out"
    by (simp only: Serialize_def Let_def assms(2) simp_thms if_False then_do_ret then_do_Inr) (elim exE conjE, rule that)
  have e1: "edits j ok unsigned_extras d d1"
    using s1 delete_all_edits [of "[''unsigned.invite_room_state'', ''unsigned.knock_room_state'']" d d1 unsigned_extras]
    by (auto simp: paths unsigned_extras_def split: if_splits)
  have e2: "edits j ok unsigned_extras d1 d2" by (rule redacted_by_edits [OF s2 assms(3)])
  have e3: "edits j ok top_keys d2 d3" by (rule format_edits [OF s3])
  have "edits j ok top_keys d3 e'" if "jl_Set j d3 ''room_id'' (jl_text j s) = (e', x)" for e' s x
    by (rule set_edits [OF that ok_text _ refl]) (simp_all add: paths top_keys_def)
  then have e4: "edits j ok top_keys d3 e" using s4 by (auto simp: checked_Inr split: if_splits)
  have "edits j ok unsigned_late f2 e'" if "jl_Set j f2 ''unsigned.membership'' (jl_text j s) = (e', x)" for e' s x
    by (rule set_edits [OF that ok_text _ refl]) (simp_all add: paths unsigned_late_def)
  then have e7: "edits j ok unsigned_late f2 out" using s7 by (auto simp: checked_Inr split: if_splits)
  have e5: "edits j ok unsigned_late f f1" using s5 admin_edits by (auto split: if_splits)
  have e6: "edits j ok unsigned_late f1 f2" using s6 sticky_edits by (auto split: if_splits)
  show thesis
    by (rule that [OF steps(1) steps(2,3) [unfolded checked_Inr] steps(4,5) edits_trans [OF edits_seq [OF e1 e2] edits_seq [OF e3 e4]] mirror edits_seq [OF edits_seq [OF e5 e6] e7]])
qed

end

lemma apart_tops [simp]:
  "apart unsigned_extras (''content'' # ks)" "apart top_keys (''content'' # ks)" "apart unsigned_late (''content'' # ks)"
  "apart unsigned_extras (''redacts'' # ks)" "apart top_keys (''redacts'' # ks)" "apart unsigned_late (''redacts'' # ks)"
  "apart unsigned_extras (''sender'' # ks)" "apart top_keys (''sender'' # ks)" "apart unsigned_late (''sender'' # ks)"
  by (simp_all add: unsigned_extras_def unsigned_late_def top_keys_def v2DropKeys_def v1CopyKeys_def)

lemma apart_unsigned [simp]:
  "apart unsigned_extras [''unsigned'', ''transaction_id'']" "apart top_keys [''unsigned'', ''transaction_id'']" "apart unsigned_late [''unsigned'', ''transaction_id'']"
  "apart unsigned_extras (''unsigned'' # ''prev_content'' # ks)" "apart top_keys (''unsigned'' # ''prev_content'' # ks)" "apart unsigned_late (''unsigned'' # ''prev_content'' # ks)"
  by (simp_all add: unsigned_extras_def unsigned_late_def top_keys_def v2DropKeys_def v1CopyKeys_def)

context json_editor
begin

text \<open>Up to the transaction id, everything outside \<^verbatim>\<open>unsigned\<close> is as the redaction left it.\<close>

lemma head_frame:
  assumes "jl_Set j r ''event_id'' (jl_text j s) = (a, None)" and "jl_Set j a ''unsigned'' (filterUnsigned j stored) = (b, None)"
    and "apply_age j nowMS b = Inr c" and "good j ok r" and "ok stored"
  shows "good j ok b" and "good j ok c" and "k \<notin> {''event_id'', ''unsigned''} \<Longrightarrow> at j c (k # ks) = at j r (k # ks)"
    and "k \<notin> {''age'', ''age_ts''} \<Longrightarrow> at j c (''unsigned'' # k # ks) = at j (filterUnsigned j stored) (k # ks)"
proof -
  note a = set_one [OF assms(1,4) ok_text paths(4,28)]
  have fu: "ok (filterUnsigned j stored)" using filter_unsigned_part [OF assms(5)] by (simp add: part_of_def good_def)
  have ga: "good j ok a" using a by blast
  note b = set_one [OF assms(2) ga fu paths(3,27)]
  show gb: "good j ok b" using b by blast
  note c = editsD [OF apply_age_edits [OF assms(3)] gb]
  show "good j ok c" by (rule c(1))
  show "at j c (k # ks) = at j r (k # ks)" if "k \<notin> {''event_id'', ''unsigned''}"
  proof -
    have "at j c (k # ks) = at j b (k # ks)" by (rule c(2)) (use that in auto)
    then show ?thesis using a [of k ks] b [of k ks] that by (simp del: at.simps)
  qed
  show "at j c (''unsigned'' # k # ks) = at j (filterUnsigned j stored) (k # ks)" if "k \<notin> {''age'', ''age_ts''}"
  proof -
    have "at j c (''unsigned'' # k # ks) = at j b (''unsigned'' # k # ks)" by (rule c(2)) (use that in auto)
    then show ?thesis using b [of "''unsigned''" "k # ks"] by (simp del: at.simps)
  qed
qed

lemma mirror_frame:
  assumes "mirrorRedacts j e rv = Inr f" and "good j ok e"
  shows "good j ok f" and "apart {[''redacts''], [''content'', ''redacts'']} ks \<Longrightarrow> at j f ks = at j e ks"
    and "at j e [''redacts''] = None \<or> rv_UpdatedRedactionRules rv \<Longrightarrow> at j f (''content'' # ks) = at j e (''content'' # ks)"
proof -
  let ?frm = "if rv_UpdatedRedactionRules rv then ''content.redacts'' else ''redacts''" and ?to = "if rv_UpdatedRedactionRules rv then ''redacts'' else ''content.redacts''"
  have e: "ok e" using assms(2) by (simp add: good_def)
  have lit: "literal ?frm" "literal ?to" using paths by simp_all
  show "good j ok f" and "apart {[''redacts''], [''content'', ''redacts'']} ks \<Longrightarrow> at j f ks = at j e ks"
    and "at j e [''redacts''] = None \<or> rv_UpdatedRedactionRules rv \<Longrightarrow> at j f (''content'' # ks) = at j e (''content'' # ks)"
  proof (atomize (full), cases "jl_Get j e ?frm")
    case None
    then have "f = e" using assms(1) by (auto simp: mirrorRedacts_def Let_def split: if_splits)
    then show "good j ok f \<and> (apart {[''redacts''], [''content'', ''redacts'']} ks \<longrightarrow> at j f ks = at j e ks) \<and>
        (at j e [''redacts''] = None \<or> rv_UpdatedRedactionRules rv \<longrightarrow> at j f (''content'' # ks) = at j e (''content'' # ks))" using assms(2) by simp
  next
    case (Some v)
    have v: "ok v" using get_ok [OF e lit(1) Some] .
    have got: "at j e [''redacts''] = Some v" if "\<not> rv_UpdatedRedactionRules rv" using Some get [OF e] that paths by (simp del: at.simps)
    have "f = e \<or> jl_Set j e ?to v = (f, None)" using assms(1) Some by (auto simp: mirrorRedacts_def Let_def checked_Inr split: if_splits)
    then have "edits j ok {path_keys ?to} e f" using set_edits [OF _ v lit(2) refl, of e f None "{path_keys ?to}"] by auto
    then show "good j ok f \<and> (apart {[''redacts''], [''content'', ''redacts'']} ks \<longrightarrow> at j f ks = at j e ks) \<and>
        (at j e [''redacts''] = None \<or> rv_UpdatedRedactionRules rv \<longrightarrow> at j f (''content'' # ks) = at j e (''content'' # ks))"
      using assms(2) got by (auto simp: edits_def paths simp del: at.simps split: if_splits)
  qed
qed

end

context json_editor
begin

lemma redacted_content:
  assumes "Serialize j ev nowMS cfg = Inr out" and "cf_EventFields cfg = []" and "all_ok ok (sd_RedactedBecause ev)" and "good j ok (sd_JSON ev)"
    and "sd_RedactedBy ev \<noteq> []" and "string_of j (jl_Get j (sd_JSON ev) ''type'') = t" and "t \<noteq> ''m.room.create''"
    and "rv = LookupRoomVersion (sd_RoomVersion ev)" and "at j out (''content'' # k # ks) \<noteq> None"
  shows "survives_in_part rv t k \<or> (survives rv t k \<and> at j out (''content'' # k # ks) = at j (sd_JSON ev) (''content'' # k # ks))"
proof (rule serialize_chain [OF assms(1-3)])
  fix r a b c d e f
  assume r: "(if sd_RedactedBy ev \<noteq> [] then Redact j (sd_JSON ev) (LookupRoomVersion (sd_RoomVersion ev)) else Inr (sd_JSON ev)) = Inr r"
    and ab: "jl_Set j r ''event_id'' (jl_text j (sd_EventID ev)) = (a, None)" "jl_Set j a ''unsigned'' (filterUnsigned j (sd_JSON ev)) = (b, None)"
      "apply_age j nowMS b = Inr c"
    and d: "applyTransactionID j c ev (cf_Requester cfg) = Inr d" and e: "edits j ok (unsigned_extras \<union> top_keys) d e"
    and f: "(if sd_Type ev = ''m.room.redaction'' then mirrorRedacts j e (LookupRoomVersion (sd_RoomVersion ev)) else Inr e) = Inr f"
    and out: "edits j ok unsigned_late f out"
  have "Redact j (sd_JSON ev) rv = Inr r" using r assms(5,8) by simp
  note r = redact_at [OF this assms(4,6,7)]
  note c = head_frame [OF ab r(1)]
  have js: "ok (sd_JSON ev)" using assms(4) by (simp add: good_def)
  note d' = editsD [OF transaction_edits [OF d] c(2) [OF js]]
  note e' = editsD [OF e d'(1)]
  have upto: "at j e (''content'' # l) = at j r (''content'' # l)" "at j e (''redacts'' # l) = at j r (''redacts'' # l)" for l
    using e'(2) [of "''content'' # l"] d'(2) [of "''content'' # l"] c(3) [OF js, of "''content''" l]
      e'(2) [of "''redacts'' # l"] d'(2) [of "''redacts'' # l"] c(3) [OF js, of "''redacts''" l] by (simp_all del: at.simps)
  have "''redacts'' \<notin> allowed_keys rv t" by (simp add: allowed_keys_def Let_def)
  then have "at j e [''redacts''] = None" using upto(2) [of "[]"] r(3) [of "''redacts''" "[]"] by (simp del: at.simps)
  then have "good j ok f" and "at j f (''content'' # k # ks) = at j e (''content'' # k # ks)"
    using f mirror_frame [OF _ e'(1), of rv f] assms(8) e'(1) by (auto simp del: at.simps split: if_splits)
  then have "at j out (''content'' # k # ks) = at j r (''content'' # k # ks)"
    using editsD(2) [OF out, of "''content'' # k # ks"] upto(1) [of "k # ks"] by (simp del: at.simps)
  then show ?thesis using r(2) [of k ks] assms(9) by (simp del: at.simps)
qed

lemma transaction_reveals:
  assumes "applyTransactionID j c ev req = Inr d" and "good j ok c" and "at j c [''unsigned'', ''transaction_id''] = None"
    and "at j d [''unsigned'', ''transaction_id''] \<noteq> None"
  obtains meta where "sd_InternalMetadata ev = Some meta" and "string_of j (jl_Get j c ''sender'') = rq_UserID req" and "same_session j meta req"
proof -
  have ne: "d \<noteq> c" using assms(3,4) by auto
  then obtain meta where meta: "sd_InternalMetadata ev = Some meta" and sender: "string_of j (jl_Get j c ''sender'') = rq_UserID req"
    using assms(1) by (auto simp: applyTransactionID_def split: option.splits if_splits)
  have "same_session j meta req"
  proof (rule ccontr)
    assume no: "\<not> same_session j meta req"
    let ?p = "''unsigned.org'' @ [CHR 0x5C] @ ''.matrix'' @ [CHR 0x5C] @ ''.msc4140'' @ [CHR 0x5C] @ ''.delay_id''"
    have "(case jl_Get j meta ''delay_id'' of None \<Rightarrow> Inr c | Some delayID \<Rightarrow>
        if jl_IsString j delayID then checked (jl_Set j c ?p (jl_text j (jl_String j delayID))) else Inr c) = Inr d"
      using assms(1) ne no meta by (auto simp: applyTransactionID_def then_do_def simp del: append.simps split: option.splits if_splits)
    then obtain s where "jl_Set j c ?p (jl_text j s) = (d, None)"
      using ne by (auto simp: checked_Inr simp del: append.simps split: option.splits if_splits)
    from set_edits [OF this ok_text paths(22) paths(46), of "{[''unsigned'', ''org.matrix.msc4140.delay_id'']}"]
    have "at j d [''unsigned'', ''transaction_id''] = at j c [''unsigned'', ''transaction_id'']"
      using assms(2) by (simp add: edits_def del: at.simps)
    with assms(3,4) show False by simp
  qed
  then show thesis by (rule that [OF meta sender])
qed

lemma redacted_or_not:
  assumes "(if sd_RedactedBy ev \<noteq> [] then Redact j (sd_JSON ev) (LookupRoomVersion (sd_RoomVersion ev)) else Inr (sd_JSON ev)) = Inr r"
    and "good j ok (sd_JSON ev)" and "sd_RedactedBy ev = [] \<or> string_of j (jl_Get j (sd_JSON ev) ''type'') \<noteq> ''m.room.create''"
  shows "good j ok r" and "at j r [''sender''] = at j (sd_JSON ev) [''sender'']"
proof -
  have "good j ok r \<and> at j r [''sender''] = at j (sd_JSON ev) [''sender'']"
  proof (cases "sd_RedactedBy ev = []")
    case False
    then have "Redact j (sd_JSON ev) (LookupRoomVersion (sd_RoomVersion ev)) = Inr r" using assms(1) by simp
    note red = redact_at [OF this assms(2) refl]
    show ?thesis using red(1) red(3) [of "''sender''" "[]"] assms(3) False by (auto simp: allowed_keys_def Let_def simp del: at.simps)
  qed (use assms in simp)
  then show "good j ok r" and "at j r [''sender''] = at j (sd_JSON ev) [''sender'']" by blast+
qed

lemma own_session:
  assumes "Serialize j ev nowMS cfg = Inr out" and "cf_EventFields cfg = []" and "all_ok ok (sd_RedactedBecause ev)" and "good j ok (sd_JSON ev)"
    and "sd_RedactedBy ev = [] \<or> string_of j (jl_Get j (sd_JSON ev) ''type'') \<noteq> ''m.room.create''"
    and "at j out [''unsigned'', ''transaction_id''] \<noteq> None"
  obtains meta where "sd_InternalMetadata ev = Some meta" and "string_of j (at j (sd_JSON ev) [''sender'']) = rq_UserID (cf_Requester cfg)"
    and "same_session j meta (cf_Requester cfg)"
proof (rule serialize_chain [OF assms(1-3)])
  fix r a b c d e f
  assume r: "(if sd_RedactedBy ev \<noteq> [] then Redact j (sd_JSON ev) (LookupRoomVersion (sd_RoomVersion ev)) else Inr (sd_JSON ev)) = Inr r"
    and ab: "jl_Set j r ''event_id'' (jl_text j (sd_EventID ev)) = (a, None)" "jl_Set j a ''unsigned'' (filterUnsigned j (sd_JSON ev)) = (b, None)"
      "apply_age j nowMS b = Inr c"
    and d: "applyTransactionID j c ev (cf_Requester cfg) = Inr d" and e: "edits j ok (unsigned_extras \<union> top_keys) d e"
    and f: "(if sd_Type ev = ''m.room.redaction'' then mirrorRedacts j e (LookupRoomVersion (sd_RoomVersion ev)) else Inr e) = Inr f"
    and out: "edits j ok unsigned_late f out"
  have js: "ok (sd_JSON ev)" using assms(4) by (simp add: good_def)
  note r' = redacted_or_not [OF r assms(4,5)]
  note c = head_frame [OF ab r'(1) js]
  have none: "at j c [''unsigned'', ''transaction_id''] = None"
  proof -
    have "''transaction_id'' \<notin> set persistedUnsignedFields" by (simp add: persistedUnsignedFields_def)
    then have "at j (filterUnsigned j (sd_JSON ev)) [''transaction_id''] = None" using filter_unsigned_part [OF js] unfolding part_of_def by blast
    then show ?thesis using c(4) [of "''transaction_id''" "[]"] by (simp del: at.simps)
  qed
  have gd: "good j ok d" by (rule editsD(1) [OF transaction_edits [OF d] c(2)])
  note e' = editsD [OF e gd]
  have "good j ok f \<and> at j f [''unsigned'', ''transaction_id''] = at j e [''unsigned'', ''transaction_id'']"
    using f e'(1) mirror_frame(1,2) [OF _ e'(1)] by (auto simp del: at.simps split: if_splits)
  then have "at j out [''unsigned'', ''transaction_id''] = at j d [''unsigned'', ''transaction_id'']"
    using editsD(2) [OF out] e'(2) by (simp del: at.simps)
  with assms(6) have "at j d [''unsigned'', ''transaction_id''] \<noteq> None" by simp
  from transaction_reveals [OF d c(2) none this] obtain meta where meta: "sd_InternalMetadata ev = Some meta"
    and sender: "string_of j (jl_Get j c ''sender'') = rq_UserID (cf_Requester cfg)" and same: "same_session j meta (cf_Requester cfg)" by metis
  have "jl_Get j c ''sender'' = at j (sd_JSON ev) [''sender'']"
    using get [of c "''sender''"] c(2) c(3) [of "''sender''" "[]"] r'(2) paths by (simp add: good_def del: at.simps)
  then show thesis using that [OF meta _ same] sender by simp
qed

end

context json_editor
begin

lemma keep_at:
  assumes "all_ok ok content" and "simple_key f" and "good j ok d"
  shows "good j ok (keep j content f d)"
    and "at j (keep j content f d) (k # ks) = (if k = f \<and> at_opt j content [f] \<noteq> None then at_opt j content (k # ks) else at j d (k # ks))"
proof -
  have get: "get_opt j content f = at_opt j content [f]" using get_opt_at [OF assms(1), of f] simple_key [OF assms(2)] by simp
  have "good j ok (keep j content f d) \<and>
    at j (keep j content f d) (k # ks) = (if k = f \<and> at_opt j content [f] \<noteq> None then at_opt j content (k # ks) else at j d (k # ks))"
  proof (cases "at_opt j content [f]")
    case (Some v)
    obtain d' e where set: "jl_Set j d f v = (d', e)" by (cases "jl_Set j d f v")
    have "e = None \<and> good j ok d' \<and> at j d' (k # ks) = (if k = f then at j v ks else at j d (k # ks))"
      using set_one [OF set assms(3) at_opt_ok [OF assms(1) Some]] simple_key [OF assms(2)] by blast
    then show ?thesis using Some get set simple_key [OF assms(2)] at_opt_Cons [OF Some] by (auto simp: keep_def simp del: at.simps)
  qed (use get assms(3) in \<open>simp add: keep_def\<close>)
  then show "good j ok (keep j content f d)"
    and "at j (keep j content f d) (k # ks) = (if k = f \<and> at_opt j content [f] \<noteq> None then at_opt j content (k # ks) else at j d (k # ks))" by blast+
qed

lemma keeps_at:
  assumes "all_ok ok content"
  shows "list_all simple_key fs \<Longrightarrow> good j ok d \<Longrightarrow> at j (fold (keep j content) fs d) (k # ks) =
    (if k \<in> set fs \<and> at_opt j content [k] \<noteq> None then at_opt j content (k # ks) else at j d (k # ks))"
  by (induction fs arbitrary: d) (auto simp: keep_at [OF assms] simp del: at.simps)

lemma filter_unsigned_at:
  assumes "ok stored" and "k \<in> set persistedUnsignedFields"
  shows "at j (filterUnsigned j stored) (k # ks) = at j stored (''unsigned'' # k # ks)"
proof (cases "jl_Get j stored ''unsigned''")
  case None
  then have "at j stored [''unsigned''] = None" using get [OF assms(1)] paths by (simp del: at.simps)
  then show ?thesis using None at_append [of j stored "[''unsigned'']" "k # ks"] by (simp add: filterUnsigned_def at_empty del: at.simps)
next
  case (Some u)
  have u: "all_ok ok (Some u)" using get_ok [OF assms(1)] Some paths(3) by (auto simp: all_ok_def)
  have at: "at j stored [''unsigned''] = Some u" using get [OF assms(1)] paths Some by (simp del: at.simps)
  note filter_unsigned_fold [OF Some]
  moreover have "at j stored (''unsigned'' # k # ks) = at_opt j (Some u) (k # ks)"
    using at_append [of j stored "[''unsigned'']" "k # ks"] at by (simp add: at_opt_def del: at.simps)
  moreover have "at_opt j (Some u) [k] = None \<Longrightarrow> at_opt j (Some u) (k # ks) = None" by (auto simp: at_opt_def split: option.splits)
  ultimately show ?thesis using keeps_at [OF u simple_keys(3) good_empty, of k ks] assms(2) by (simp add: at_empty del: at.simps)
qed

lemma prev_content_stays:
  assumes "Serialize j ev nowMS cfg = Inr out" and "cf_EventFields cfg = []" and "all_ok ok (sd_RedactedBecause ev)" and "good j ok (sd_JSON ev)"
    and "sd_RedactedBy ev = [] \<or> string_of j (jl_Get j (sd_JSON ev) ''type'') \<noteq> ''m.room.create''"
  shows "at j out (''unsigned'' # ''prev_content'' # ks) = at j (sd_JSON ev) (''unsigned'' # ''prev_content'' # ks)"
proof (rule serialize_chain [OF assms(1-3)])
  fix r a b c d e f
  assume r: "(if sd_RedactedBy ev \<noteq> [] then Redact j (sd_JSON ev) (LookupRoomVersion (sd_RoomVersion ev)) else Inr (sd_JSON ev)) = Inr r"
    and ab: "jl_Set j r ''event_id'' (jl_text j (sd_EventID ev)) = (a, None)" "jl_Set j a ''unsigned'' (filterUnsigned j (sd_JSON ev)) = (b, None)"
      "apply_age j nowMS b = Inr c"
    and d: "applyTransactionID j c ev (cf_Requester cfg) = Inr d" and e: "edits j ok (unsigned_extras \<union> top_keys) d e"
    and f: "(if sd_Type ev = ''m.room.redaction'' then mirrorRedacts j e (LookupRoomVersion (sd_RoomVersion ev)) else Inr e) = Inr f"
    and out: "edits j ok unsigned_late f out"
  let ?p = "''unsigned'' # ''prev_content'' # ks"
  have js: "ok (sd_JSON ev)" using assms(4) by (simp add: good_def)
  note c = head_frame [OF ab redacted_or_not(1) [OF r assms(4,5)] js]
  note d' = editsD [OF transaction_edits [OF d] c(2)]
  note e' = editsD [OF e d'(1)]
  have f': "good j ok f \<and> at j f ?p = at j e ?p"
    using f e'(1) mirror_frame(1,2) [OF _ e'(1)] by (auto simp del: at.simps split: if_splits)
  have "at j out ?p = at j c ?p" using editsD(2) [OF out, of ?p] f' e'(2) [of ?p] d'(2) [of ?p] by (simp del: at.simps)
  also have "\<dots> = at j (sd_JSON ev) ?p"
    using c(4) [of "''prev_content''" ks] filter_unsigned_at [OF js, of "''prev_content''" ks] by (simp add: persistedUnsignedFields_def del: at.simps)
  finally show ?thesis .
qed

end

section \<open>Documents as trees\<close>

text \<open>The laws hold for the packages' operations on trees.\<close>

datatype tree = TObj "(string \<times> tree) list" | TText string | TNum int | TBool bool | TNull

fun t_fields :: "tree \<Rightarrow> (string \<times> tree) list" where
  "t_fields (TObj fs) = fs"
| "t_fields _ = []"

fun t_isObj :: "tree \<Rightarrow> bool" where
  "t_isObj (TObj fs) = True"
| "t_isObj _ = False"

inductive t_ok :: "tree \<Rightarrow> bool" where
  t_ok_obj: "distinct (map fst fs) \<Longrightarrow> \<forall>kv \<in> set fs. t_ok (snd kv) \<Longrightarrow> t_ok (TObj fs)"
| t_ok_text: "t_ok (TText s)" | t_ok_num: "t_ok (TNum n)" | t_ok_bool: "t_ok (TBool b)" | t_ok_null: "t_ok TNull"

inductive_simps t_ok_simps [simp]: "t_ok (TObj fs)" "t_ok (TText s)" "t_ok (TNum n)" "t_ok (TBool b)" "t_ok TNull"

fun t_get :: "tree \<Rightarrow> string list \<Rightarrow> tree option" where
  "t_get d [] = Some d"
| "t_get d (k # ks) = (case map_of (t_fields d) k of None \<Rightarrow> None | Some v \<Rightarrow> t_get v ks)"

fun t_put :: "tree \<Rightarrow> string list \<Rightarrow> tree \<Rightarrow> tree" where
  "t_put d [] v = v"
| "t_put d (k # ks) v = TObj (mput k (t_put (case map_of (t_fields d) k of None \<Rightarrow> TObj [] | Some x \<Rightarrow> x) ks v) (t_fields d))"

fun t_del :: "tree \<Rightarrow> string list \<Rightarrow> tree" where
  "t_del d [] = d"
| "t_del d [k] = (if t_isObj d then TObj (mdel k (t_fields d)) else d)"
| "t_del d (k # ks) = (case map_of (t_fields d) k of None \<Rightarrow> d | Some x \<Rightarrow> TObj (mput k (t_del x ks) (t_fields d)))"

definition tree_lib :: "tree jsonlib" where
  "tree_lib = \<lparr>jl_Get = (\<lambda>d p. t_get d (path_keys p)), jl_Fields = t_fields, jl_IsObject = t_isObj,
     jl_IsString = (\<lambda>d. case d of TText s \<Rightarrow> True | _ \<Rightarrow> False), jl_IsNumber = (\<lambda>d. case d of TNum n \<Rightarrow> True | _ \<Rightarrow> False),
     jl_IsNull = (\<lambda>d. d = TNull), jl_String = (\<lambda>d. case d of TText s \<Rightarrow> s | _ \<Rightarrow> []), jl_Int = (\<lambda>d. case d of TNum n \<Rightarrow> n | _ \<Rightarrow> 0),
     jl_Bool = (\<lambda>d. case d of TBool b \<Rightarrow> b | _ \<Rightarrow> False), jl_Set = (\<lambda>d p v. (t_put d (path_keys p) v, None)),
     jl_Delete = (\<lambda>d p. (t_del d (path_keys p), None)), jl_empty = TObj [], jl_text = TText, jl_number = TNum, jl_true = TBool True, jl_value = (\<lambda>d. d)\<rparr>"

lemma tree_lib_sel [simp]:
  "jl_Get tree_lib d p = t_get d (path_keys p)" "jl_Fields tree_lib = t_fields" "jl_IsObject tree_lib = t_isObj"
  "jl_Set tree_lib d p v = (t_put d (path_keys p) v, None)" "jl_Delete tree_lib d p = (t_del d (path_keys p), None)"
  "jl_empty tree_lib = TObj []" "jl_text tree_lib = TText" "jl_number tree_lib = TNum" "jl_true tree_lib = TBool True" "jl_value tree_lib d = d"
  "jl_String tree_lib (TText s) = s"
  by (simp_all add: tree_lib_def)

lemma path_split_ne: "path_split p cur \<noteq> []"
  by (induction p cur rule: path_split.induct) auto

lemma path_keys_ne: "path_keys p \<noteq> []"
  by (simp add: path_keys_def path_split_ne)

lemma t_at: "at tree_lib d ks = t_get d ks"
  by (induction ks arbitrary: d) (simp_all split: option.split)

lemma t_get_append: "t_get d (ks @ ls) = Option.bind (t_get d ks) (\<lambda>v. t_get v ls)"
  using at_append [of tree_lib d ks ls] by (simp add: t_at)

lemma t_ok_sub: "t_ok d \<Longrightarrow> map_of (t_fields d) k = Some v \<Longrightarrow> t_ok v"
  by (cases d) (auto dest: map_of_SomeD)

lemma t_ok_fields: "t_ok d \<Longrightarrow> (k, v) \<in> set (t_fields d) \<Longrightarrow> t_ok v"
  by (cases d) auto

lemma t_fields_distinct: "t_ok d \<Longrightarrow> distinct (map fst (t_fields d))"
  by (cases d) auto

lemma t_in_mput: "(k', x) \<in> set (mput k v m) \<Longrightarrow> (k' = k \<and> x = v) \<or> (k', x) \<in> set m"
  by (induction m) (auto split: if_splits)

lemma t_ok_mput: "t_ok d \<Longrightarrow> t_ok v \<Longrightarrow> t_ok (TObj (mput k v (t_fields d)))"
  using t_fields_distinct [of d] t_ok_fields [of d] by (auto simp: distinct_update dest!: t_in_mput)

lemma t_put_ok: "t_ok d \<Longrightarrow> t_ok v \<Longrightarrow> t_ok (t_put d ks v)"
proof (induction ks arbitrary: d)
  case (Cons k ks)
  have "t_ok (case map_of (t_fields d) k of None \<Rightarrow> TObj [] | Some x \<Rightarrow> x)" using t_ok_sub [OF Cons.prems(1)] by (simp split: option.split)
  then show ?case unfolding t_put.simps by (intro t_ok_mput Cons)
qed simp

lemma t_put_there: "t_get (t_put d ks v) (ks @ ls) = t_get v ls"
  by (induction ks arbitrary: d) simp_all

lemma t_put_elsewhere: "\<not> prefix ks ls \<Longrightarrow> \<not> prefix ls ks \<Longrightarrow> t_get (t_put d ks v) ls = t_get d ls"
proof (induction ks arbitrary: d ls)
  case (Cons k ks)
  then obtain l ls' where ls: "ls = l # ls'" by (cases ls) auto
  show ?case
  proof (cases "l = k")
    case True
    then have "\<not> prefix ks ls'" "\<not> prefix ls' ks" using Cons.prems ls by auto
    then have "t_get (t_put x ks v) ls' = t_get x ls'" for x by (rule Cons.IH)
    moreover have "ls' \<noteq> []" using \<open>\<not> prefix ls' ks\<close> by auto
    then have "t_get (TObj []) ls' = None" by (cases ls') simp_all
    ultimately show ?thesis by (simp add: ls True split: option.split)
  qed (simp add: ls)
qed simp

lemma t_ok_mdel: "t_ok d \<Longrightarrow> t_ok (TObj (mdel k (t_fields d)))"
  using t_fields_distinct [of d] t_ok_fields [of d] by (auto simp: AList.delete_eq mwf_filter)

lemma t_del_ok: "t_ok d \<Longrightarrow> t_ok (t_del d ks)"
proof (induction d ks rule: t_del.induct)
  case (2 d k)
  then show ?case using t_ok_mdel by simp
next
  case (3 d k k' ks)
  show ?case
  proof (cases "map_of (t_fields d) k")
    case (Some x)
    then show ?thesis using t_ok_mput [OF 3(2) 3(1) [OF Some t_ok_sub [OF 3(2) Some]]] by simp
  qed (use 3 in simp)
qed simp

lemma t_del_isObj: "t_isObj d \<Longrightarrow> t_isObj (t_del d ks)"
  by (induction d ks rule: t_del.induct) (simp_all split: option.split)

lemma t_get_mdel: "map_of (mdel k fs) l = (if l = k then None else map_of fs l)"
  by (simp add: delete_conv')

lemma t_del_there: "ks \<noteq> [] \<Longrightarrow> t_get (t_del d ks) (ks @ ls) = None"
proof (induction d ks rule: t_del.induct)
  case (2 d k)
  then show ?case by (cases d) (simp_all add: t_get_mdel)
next
  case (3 d k k' ks)
  show ?case
  proof (cases "map_of (t_fields d) k")
    case (Some x)
    then show ?thesis using 3(1) [OF Some] by simp
  qed simp
qed simp

lemma t_del_elsewhere: "\<not> prefix ks ls \<Longrightarrow> \<not> prefix ls ks \<Longrightarrow> t_get (t_del d ks) ls = t_get d ls"
proof (induction d ks arbitrary: ls rule: t_del.induct)
  case (2 d k)
  then show ?case by (cases ls; cases d) (auto simp: t_get_mdel)
next
  case (3 d k k' ks)
  then obtain l ls' where ls: "ls = l # ls'" by (cases ls) auto
  show ?case
  proof (cases "map_of (t_fields d) k")
    case (Some x)
    have "t_get (t_del x (k' # ks)) ls' = t_get x ls'" if "l = k"
      by (rule 3(1) [OF Some]) (use 3(2,3) ls that in auto)
    then show ?thesis using Some ls by simp
  qed simp
qed simp

interpretation trees: json_editor tree_lib t_ok
proof unfold_locales
  show "at tree_lib d' (path_keys p @ ks) = None" if "jl_Delete tree_lib d p = (d', e)" for d p d' e ks
    using that t_del_there [OF path_keys_ne] by (auto simp: t_at)
  show "e = None \<and> t_ok d' \<and> jl_IsObject tree_lib d'" if "jl_Set tree_lib d p v = (d', e)" "t_ok d" "t_ok v" for d p v d' e
  proof -
    have "t_ok d'" "t_isObj d'" using that t_put_ok [of d v "path_keys p"] path_keys_ne [of p] by (simp, cases "path_keys p") auto
    then show ?thesis using that by simp
  qed
  show "distinct (map fst (jl_Fields tree_lib d))" if "t_ok d" for d using t_fields_distinct [OF that] by simp
  show "t_ok v" if "t_ok d" "(k, v) \<in> set (jl_Fields tree_lib d)" for d k v using t_ok_fields that by simp
qed (auto simp: t_at t_put_there t_put_elsewhere t_del_elsewhere t_del_ok t_del_isObj)

section \<open>What a client cannot see\<close>

text \<open>An event of room version 10, and one with a transaction id, as trees.\<close>

definition demo_event :: "tree Stored" where
  "demo_event = \<lparr>sd_EventID = ''$e'', sd_RoomID = ''!r'', sd_Type = ''m.room.member'',
     sd_JSON = TObj [(''type'', TText ''m.room.member''), (''sender'', TText ''@a''),
       (''content'', TObj [(''membership'', TText ''join''), (''displayname'', TText ''secret'')]),
       (''unsigned'', TObj [(''prev_content'', TObj [(''displayname'', TText ''older secret'')])])],
     sd_InternalMetadata = Some (TObj [(''txn_id'', TText ''t1''), (''device_id'', TText ''D'')]), sd_RoomVersion = ''10'', sd_Membership = [],
     sd_RedactedBy = [], sd_RedactedBecause = None\<rparr>"

definition demo_config :: SerializeConfig where
  "demo_config = \<lparr>cf_Format = FormatV2, cf_Requester = \<lparr>rq_UserID = ''@a'', rq_DeviceID = ''D'', rq_TokenID = 0, rq_IsGuest = False, rq_AppServiceID = []\<rparr>,
     cf_IncludeStrippedRoomState = True, cf_MSC4354Enabled = False, cf_IncludeAdminMetadata = False, cf_EventFields = []\<rparr>"

definition demo_redacted :: "tree Stored" where
  "demo_redacted = demo_event\<lparr>sd_RedactedBy := ''$x''\<rparr>"

lemma demo_serialized:
  "(case Serialize tree_lib demo_event 0 demo_config of Inl e \<Rightarrow> False | Inr out \<Rightarrow> t_get out [''unsigned'', ''transaction_id''] = Some (TText ''t1''))"
  "(case Serialize tree_lib demo_redacted 0 demo_config of Inl e \<Rightarrow> False | Inr out \<Rightarrow> t_get out [''content'', ''membership''] = Some (TText ''join''))"
  by code_simp+

lemma demo_good: "good tree_lib t_ok (sd_JSON demo_event)" "sd_JSON demo_redacted = sd_JSON demo_event"
    "sd_RedactedBecause demo_event = None" "sd_RedactedBecause demo_redacted = None"
  by (simp_all add: good_def demo_event_def demo_redacted_def)







section \<open>Which receipts and redactions count\<close>

definition receipt_at :: "receipt_content \<Rightarrow> string \<Rightarrow> string \<Rightarrow> string \<Rightarrow> string option" where
  "receipt_at content e t u = mget (mgetz [] (mgetz [] content e) t) u"

definition names_receipt :: "ReceiptRow \<Rightarrow> string \<Rightarrow> string \<Rightarrow> string \<Rightarrow> bool" where
  "names_receipt row e t u \<longleftrightarrow> rr_EventID row = e \<and> rr_ReceiptType row = t \<and> rr_UserID row = u"

lemma receipt_at_put: "receipt_at (put_receipt row data content) e t u = (if names_receipt row e t u then Some data else receipt_at content e t u)"
  by (auto simp: receipt_at_def put_receipt_def names_receipt_def Let_def)

lemma receipt_loop_at:
  "receipt_loop set_thread wt un rows content = Inr out \<Longrightarrow>
    receipt_at out e t u \<noteq> None \<longleftrightarrow> receipt_at content e t u \<noteq> None \<or>
      (\<exists>row \<in> set rows. names_receipt row e t u \<and> \<not> (wt \<and> rr_ThreadID row \<noteq> [] \<and> (u, e) \<in> un))"
proof (induction rows arbitrary: content)
  case (Cons row rows)
  consider (skip) "wt \<and> rr_ThreadID row \<noteq> [] \<and> (rr_UserID row, rr_EventID row) \<in> un"
    | (put) data where "\<not> (wt \<and> rr_ThreadID row \<noteq> [] \<and> (rr_UserID row, rr_EventID row) \<in> un)"
        "receipt_loop set_thread wt un rows (put_receipt row data content) = Inr out"
    using Cons.prems by (auto simp: then_do_Inr split: if_splits)
  then show ?case
  proof cases
    case skip
    then show ?thesis using Cons by (auto simp: names_receipt_def)
  next
    case put
    then show ?thesis using Cons.IH [OF put(2)] by (auto simp: receipt_at_put names_receipt_def)
  qed
qed simp

text \<open>
  C32. The receipts of a room that a user is sent are exactly those of the rows that are not another user's private receipt and, where
  threads are rendered, not a threaded receipt beside an unthreaded one of the same user on the same event.
\<close>

theorem receipts_shown_exactly:
  assumes "ReceiptEvent set_thread rows userID withThreads = Inr content"
  shows "(case content of None \<Rightarrow> False | Some c \<Rightarrow> receipt_at c e t u \<noteq> None) \<longleftrightarrow>
    (\<exists>row \<in> set rows. names_receipt row e t u \<and> (t = ''m.read.private'' \<longrightarrow> u = userID) \<and>
       \<not> (withThreads \<and> rr_ThreadID row \<noteq> [] \<and>
          (\<exists>other \<in> set rows. rr_UserID other = u \<and> rr_EventID other = e \<and> rr_ThreadID other = [] \<and>
             (rr_ReceiptType other = ''m.read.private'' \<longrightarrow> u = userID))))"
proof -
  let ?v = "visible_receipts rows userID"
  obtain c where c: "receipt_loop set_thread withThreads (unthreaded_receipts ?v withThreads) ?v [] = Inr c" and content: "content = (if c = [] then None else Some c)"
    using assms by (auto simp: ReceiptEvent_def Let_def then_do_Inr)
  have "(case content of None \<Rightarrow> False | Some c \<Rightarrow> receipt_at c e t u \<noteq> None) \<longleftrightarrow> receipt_at c e t u \<noteq> None"
    using content by (auto simp: receipt_at_def mgetz_def)
  also have "\<dots> \<longleftrightarrow> (\<exists>row \<in> set ?v. names_receipt row e t u \<and> \<not> (withThreads \<and> rr_ThreadID row \<noteq> [] \<and> (u, e) \<in> unthreaded_receipts ?v withThreads))"
    using receipt_loop_at [OF c, of e t u] by (simp add: receipt_at_def mgetz_def)
  also have "\<dots> \<longleftrightarrow> (\<exists>row \<in> set rows. names_receipt row e t u \<and> (t = ''m.read.private'' \<longrightarrow> u = userID) \<and>
       \<not> (withThreads \<and> rr_ThreadID row \<noteq> [] \<and>
          (\<exists>other \<in> set rows. rr_UserID other = u \<and> rr_EventID other = e \<and> rr_ThreadID other = [] \<and>
             (rr_ReceiptType other = ''m.read.private'' \<longrightarrow> u = userID))))"
  proof -
    have un: "(u, e) \<in> unthreaded_receipts ?v withThreads \<longleftrightarrow> withThreads \<and> (\<exists>other \<in> set rows. rr_UserID other = u \<and> rr_EventID other = e \<and>
        rr_ThreadID other = [] \<and> (rr_ReceiptType other = ''m.read.private'' \<longrightarrow> u = userID))"
      by (auto simp: visible_receipts_def unthreaded_receipts_def image_iff)
    have vis: "row \<in> set ?v \<and> names_receipt row e t u \<longleftrightarrow> row \<in> set rows \<and> names_receipt row e t u \<and> (t = ''m.read.private'' \<longrightarrow> u = userID)" for row
      by (auto simp: visible_receipts_def names_receipt_def)
    have "(\<exists>row \<in> set ?v. names_receipt row e t u \<and> Q row) \<longleftrightarrow> (\<exists>row \<in> set rows. names_receipt row e t u \<and> (t = ''m.read.private'' \<longrightarrow> u = userID) \<and> Q row)" for Q
      using vis by blast
    note rows = this [of "\<lambda>row. \<not> (withThreads \<and> rr_ThreadID row \<noteq> [] \<and> (u, e) \<in> unthreaded_receipts ?v withThreads)"]
    have "withThreads \<and> rr_ThreadID row \<noteq> [] \<and> (u, e) \<in> unthreaded_receipts ?v withThreads \<longleftrightarrow> withThreads \<and> rr_ThreadID row \<noteq> [] \<and>
        (\<exists>other \<in> set rows. rr_UserID other = u \<and> rr_EventID other = e \<and> rr_ThreadID other = [] \<and> (rr_ReceiptType other = ''m.read.private'' \<longrightarrow> u = userID))" for row
      unfolding un by blast
    then show ?thesis unfolding rows by (intro bex_cong refl) blast
  qed
  finally show ?thesis .
qed

text \<open>The redaction of an event is the first of its rows that counts.\<close>

lemma redactions_first:
  assumes "q eventIDs = Inr rows" and "eventIDs \<noteq> []" and "Redactions q eventIDs = Inr out"
  shows "mget out e = map_option (\<lambda>r. \<lparr>rx_EventID = cs_EventID (ro_event r), rx_Event = ro_event r\<rparr>) (List.find (\<lambda>r. ro_redacts r = e \<and> redaction_counts r) rows)"
proof -
  let ?mk = "\<lambda>r. \<lparr>rx_EventID = cs_EventID (ro_event r), rx_Event = ro_event r\<rparr>"
  let ?step = "\<lambda>r out. if \<not> redaction_counts r \<or> mget out (ro_redacts r) \<noteq> None then out else mput (ro_redacts r) (?mk r) out"
  have "mget (fold ?step rows out) e = (case mget out e of Some x \<Rightarrow> Some x | None \<Rightarrow> map_option ?mk (List.find (\<lambda>r. ro_redacts r = e \<and> redaction_counts r) rows))" for out
  proof (induction rows arbitrary: out)
    case (Cons r rows)
    then show ?case by (cases "mget out e") auto
  qed (simp split: option.split)
  from this [of "[]"] show ?thesis using assms by (auto simp: Redactions_def)
qed

text \<open>The parts of a field path are read back from their escaped form.\<close>

definition escape_part :: "string \<Rightarrow> string" where
  "escape_part p = concat (map (\<lambda>c. if c \<in> {CHR ''.'', CHR 0x5C} then [CHR 0x5C, c] else [c]) p)"

lemma split_escaped: "split_field (escape_part p @ rest) False cur parts = split_field rest False (cur @ p) parts"
  by (induction p arbitrary: cur) (auto simp: escape_part_def)

lemma split_join_escaped: "ps \<noteq> [] \<Longrightarrow> split_field (join_with CHR ''.'' (map escape_part ps)) False [] parts = parts @ ps"
proof (induction ps arbitrary: parts)
  case (Cons p ps)
  show ?case
  proof (cases ps)
    case Nil
    then show ?thesis using split_escaped [of p "[]" "[]" parts] by simp
  next
    case (Cons q qs)
    then have "split_field (join_with CHR ''.'' (map escape_part (p # ps))) False [] parts =
        split_field (escape_part p @ CHR ''.'' # join_with CHR ''.'' (map escape_part ps)) False [] parts" by simp
    also have "\<dots> = split_field (join_with CHR ''.'' (map escape_part ps)) False [] (parts @ [p])" by (simp add: split_escaped)
    finally show ?thesis using Cons.IH [of "parts @ [p]"] Cons by simp
  qed
qed simp

lemma split_field_roundtrip: "ps \<noteq> [] \<Longrightarrow> splitField (join_with CHR ''.'' (map escape_part ps)) = ps"
  using split_join_escaped [of ps "[]"] by (simp add: splitField_def)

text \<open>The time a sticky event has left is positive and at most an hour, whatever the event claims.\<close>

lemma sticky_ttl_bounds:
  assumes "sticky_ttl j out nowMS = Some ttl" and "\<bar>nowMS\<bar> < 2 ^ 62" and "\<And>v. - (2 ^ 62) \<le> jl_Int j v"
  shows "0 < ttl \<and> ttl \<le> stickyMaxDurationMS"
proof -
  obtain d where d: "jl_Int j d \<ge> 0"
    and ttl: "ttl = wrap64 (wrap64 (min (case jl_Get j out ''origin_server_ts'' of None \<Rightarrow> 0 | Some t \<Rightarrow> jl_Int j t) nowMS + min (jl_Int j d) stickyMaxDurationMS) - nowMS)"
    and later: "nowMS < wrap64 (min (case jl_Get j out ''origin_server_ts'' of None \<Rightarrow> 0 | Some t \<Rightarrow> jl_Int j t) nowMS + min (jl_Int j d) stickyMaxDurationMS)"
    using assms(1) by (auto simp: sticky_ttl_def Let_def min_def not_less not_le split: option.splits if_splits)
  let ?o = "min (case jl_Get j out ''origin_server_ts'' of None \<Rightarrow> 0 | Some t \<Rightarrow> jl_Int j t) nowMS" and ?m = "min (jl_Int j d) stickyMaxDurationMS"
  have o: "- (2 ^ 62) \<le> ?o" "?o \<le> nowMS" using assms(2,3) by (auto split: option.split)
  have m: "0 \<le> ?m" "?m \<le> stickyMaxDurationMS" using d by (auto simp: stickyMaxDurationMS_def)
  have w: "wrap64 (?o + ?m) = ?o + ?m" using o m assms(2) by (intro wrap64_id) (auto simp: int64_def stickyMaxDurationMS_def)
  then have "wrap64 (?o + ?m - nowMS) = ?o + ?m - nowMS" using o m later assms(2) by (intro wrap64_id) (auto simp: int64_def stickyMaxDurationMS_def)
  then have "ttl = ?o + ?m - nowMS" using ttl w by (simp only:)
  then show ?thesis using later [unfolded w] o m by linarith
qed

definition demo_receipt :: "string \<Rightarrow> string \<Rightarrow> ReceiptRow" where
  "demo_receipt t u = \<lparr>rr_ReceiptType = t, rr_UserID = u, rr_EventID = ''$e'', rr_InstanceName = [], rr_StreamID = 1, rr_ThreadID = [], rr_Data = ''{}''\<rparr>"

theorem receipts_shown_exactly_witness:
  "\<exists>c. ReceiptEvent (\<lambda>data thread. Inr data) [demo_receipt ''m.read'' ''@b'', demo_receipt ''m.read.private'' ''@b''] ''@a'' True = Inr (Some c) \<and>
     receipt_at c ''$e'' ''m.read'' ''@b'' \<noteq> None \<and> receipt_at c ''$e'' ''m.read.private'' ''@b'' = None"
proof -
  let ?rows = "[demo_receipt ''m.read'' ''@b'', demo_receipt ''m.read.private'' ''@b'']"
  obtain c where c: "ReceiptEvent (\<lambda>data thread. Inr data) ?rows ''@a'' True = Inr (Some c)"
    by (simp add: ReceiptEvent_def visible_receipts_def unthreaded_receipts_def demo_receipt_def then_do_def put_receipt_def Let_def)
  show ?thesis using c receipts_shown_exactly [OF c, of "''$e''" "''m.read''" "''@b''"] receipts_shown_exactly [OF c, of "''$e''" "''m.read.private''" "''@b''"]
    by (simp add: demo_receipt_def names_receipt_def)
qed

end
