(* ===== verification/Room_Data.thy ===== *)
theory Room_Data
  imports Client_Event Timeline Room_Lists
begin

text \<open>
  One room of a sliding sync response: \<^verbatim>\<open>internal/slidingsync/roomdata.go\<close>, what of \<^verbatim>\<open>requiredstateresolve.go\<close> fetches and renders the
  required state, the bundled aggregations of \<^verbatim>\<open>internal/eventfilter/aggregations.go\<close>, and the reads of the store these use.

  The queries are the fields of \<open>RoomStore\<close>: rows where the code turns rows into values, values where the store's own caches stand
  between (\<^verbatim>\<open>ForClient\<close>, the state at a position, the summary of a room). That those answer as the database would,
  whatever they were asked before, is shown in \<open>Visibility\<close>, \<open>State_Caches\<close> and \<open>Derived_Caches\<close>; here it makes the rooms of a response,
  which the code builds in parallel, independent of each other. A JSON text is a string.
\<close>

section \<open>Types\<close>

definition BumpEventTypes :: "string list" where
  "BumpEventTypes = [''m.room.create'', ''m.room.message'', ''m.room.encrypted'', ''m.sticker'', ''m.call.invite'', ''m.poll.start'', ''m.beacon_info'']"

record Hero =
  he_UserID :: string
  he_DisplayName :: "string option"
  he_AvatarURL :: "string option"

record RoomResult =
  rr_Name :: "string option"
  rr_Avatar :: "string option"
  rr_Heroes :: "Hero list"
  rr_IsDM :: bool
  rr_Initial :: bool
  rr_RequiredState :: "string list"
  rr_Timeline :: "string list"
  rr_StrippedState :: "string list"
  rr_PrevBatch :: "string option"
  rr_Limited :: "bool option"
  rr_NumLive :: "int option"
  rr_UnstableExpandedTimeline :: bool
  rr_BumpStamp :: "int option"
  rr_JoinedCount :: "int option"
  rr_InvitedCount :: "int option"
  rr_NotificationCount :: int
  rr_HighlightCount :: int

definition new_result :: "bool \<Rightarrow> RoomResult" where
  "new_result isDM = \<lparr>rr_Name = None, rr_Avatar = None, rr_Heroes = [], rr_IsDM = isDM, rr_Initial = False, rr_RequiredState = [], rr_Timeline = [],
     rr_StrippedState = [], rr_PrevBatch = None, rr_Limited = None, rr_NumLive = None, rr_UnstableExpandedTimeline = False, rr_BumpStamp = None,
     rr_JoinedCount = None, rr_InvitedCount = None, rr_NotificationCount = 0, rr_HighlightCount = 0\<rparr>"

record RoomDataRequest =
  rdr_UserID :: string
  rdr_RoomID :: string
  rdr_Config :: RoomSyncConfig
  rdr_Room :: SlidingRoom
  rdr_Meta :: "SlidingJoinedRoom option"
  rdr_From :: "Token option"
  rdr_To :: Token
  rdr_Previous :: PerConnectionState
  rdr_NewlyJoined :: bool
  rdr_NewlyLeft :: bool
  rdr_IsDM :: bool
  rdr_NowMS :: int
  rdr_DeviceID :: string
  rdr_TokenID :: int
  rdr_PreviouslyReturnedLazy :: "string set"
  rdr_LazyMemberLastSeen :: "(string, int) gomap"

abbreviation room_membership :: "RoomDataRequest \<Rightarrow> string" where
  "room_membership req \<equiv> SlidingRoom.sm_Membership (rdr_Room req)"

abbreviation invited_or_knocking :: "RoomDataRequest \<Rightarrow> bool" where
  "invited_or_knocking req \<equiv> room_membership req = ''invite'' \<or> room_membership req = ''knock''"

record StateEvent =
  sv_Stored :: "string Stored"
  sv_StateKey :: string
  sv_Sender :: string

record ThreadSummary =
  th_Count :: int
  th_LatestEventID :: string

record threadAggregation =
  ta_count :: int
  ta_latestEventID :: string
  ta_participated :: bool

record Aggregation =
  ag_thread :: "threadAggregation option"
  ag_replaceID :: string
  ag_references :: "string list"

text \<open>What \<^verbatim>\<open>unsigned.m.relations\<close> is set to.\<close>

record relations =
  rel_references :: "string list"
  rel_replace :: "string option"
  rel_thread :: "(string \<times> int \<times> bool) option"

record RoomStore =
  qs_json :: "string jsonlib"
  qs_isArray :: "string \<Rightarrow> bool"
  qs_marshal :: "(string \<times> string) list \<Rightarrow> string"
  qs_setRelations :: "string \<Rightarrow> relations \<Rightarrow> string + string"
  qs_pages :: "string deps"
  qs_visible :: "string \<Rightarrow> string \<Rightarrow> TimelineEvent list \<Rightarrow> bool \<Rightarrow> int \<Rightarrow> string set \<Rightarrow> string + Result"
  qs_extras :: "string \<Rightarrow> string \<Rightarrow> string + VisibilityExtras"
  qs_redactions :: "string list \<Rightarrow> string redaction_row answer"
  qs_relationTypes :: "string list \<Rightarrow> string + (string, string) gomap"
  qs_threads :: "string list \<Rightarrow> string + (string, ThreadSummary) gomap"
  qs_participated :: "string list \<Rightarrow> string \<Rightarrow> string + string set"
  qs_repliesBySender :: "string list \<Rightarrow> string set \<Rightarrow> string + (string, int) gomap"
  qs_edits :: "string list \<Rightarrow> string + (string, string) gomap"
  qs_references :: "string list \<Rightarrow> string set \<Rightarrow> string + (string, string list) gomap"
  qs_events :: "string list \<Rightarrow> StateEvent answer"
  qs_eventJSON :: "string \<Rightarrow> string + string option"
  qs_deltas :: "string \<Rightarrow> int \<Rightarrow> int \<Rightarrow> (state_key \<times> string option) answer"
  qs_stateIDs :: "string \<Rightarrow> RoomKey \<Rightarrow> string + (state_key, string) gomap"
  qs_stateWild :: "string \<Rightarrow> RoomKey \<Rightarrow> state_key list \<Rightarrow> string list \<Rightarrow> string + (state_key, string) gomap"
  qs_stateAt :: "string \<Rightarrow> RoomKey \<Rightarrow> state_key list \<Rightarrow> string + (state_key, string) gomap"
  qs_summary :: "string \<Rightarrow> string + MemberSummary"
  qs_counts :: "string \<Rightarrow> (string option \<times> int) answer"
  qs_lastBump :: "string \<Rightarrow> string list \<Rightarrow> int \<Rightarrow> string + int option"
  qs_MSC4354Enabled :: bool

section \<open>Reads of the store\<close>

definition EventsByID :: "(string list \<Rightarrow> StateEvent answer) \<Rightarrow> string list \<Rightarrow> string \<Rightarrow> string + (string, StateEvent) gomap" where
  "EventsByID q eventIDs roomVersion =
     (if eventIDs = [] then Inr []
      else map_sum id (\<lambda>rows. fold (\<lambda>ev out. mput (sd_EventID (sv_Stored ev)) (ev\<lparr>sv_Stored := (sv_Stored ev)\<lparr>sd_RoomVersion := roomVersion\<rparr>\<rparr>) out) rows []) (q eventIDs))"

definition CurrentStateDeltas :: "(string \<Rightarrow> int \<Rightarrow> int \<Rightarrow> (state_key \<times> string option) answer) \<Rightarrow> string \<Rightarrow> int \<Rightarrow> int \<Rightarrow> string + (state_key, string) gomap" where
  "CurrentStateDeltas q roomID since now =
     map_sum id (\<lambda>rows. fold (\<lambda>(k, eventID) out. case eventID of None \<Rightarrow> out | Some e \<Rightarrow> mput k e out) rows []) (q roomID since now)"

text \<open>The stripped state, \<open>None\<close> for none, and the membership event.\<close>

definition InviteOrKnockStrippedState :: "RoomStore \<Rightarrow> string \<Rightarrow> string + string option \<times> string option" where
  "InviteOrKnockStrippedState d eventID =
     map_sum id (\<lambda>found. case found of
         None \<Rightarrow> (None, None)
       | Some raw \<Rightarrow>
           let membership = string_of (qs_json d) (jl_Get (qs_json d) raw ''content.membership'');
               key = (if membership = ''knock'' then ''unsigned.knock_room_state'' else ''unsigned.invite_room_state'')
           in (case jl_Get (qs_json d) raw key of Some v \<Rightarrow> if qs_isArray d v then Some v else None | None \<Rightarrow> None, Some raw))
       (qs_eventJSON d eventID)"

definition Heroes :: "MemberSummary \<Rightarrow> string \<Rightarrow> string list" where
  "Heroes ms me =
     (let others = filter (\<lambda>m. SummaryMember.sm_UserID m \<noteq> me) (ms_Members ms);
          with_membership = (\<lambda>P. map SummaryMember.sm_UserID (filter (\<lambda>m. P (SummaryMember.sm_Membership m)) others));
          joined = with_membership (\<lambda>m. m = ''join''); invited = with_membership (\<lambda>m. m = ''invite'');
          gone = with_membership (\<lambda>m. m = ''leave'' \<or> m = ''ban'')
      in if joined \<noteq> [] \<or> invited \<noteq> [] then take 5 (joined @ invited) else take 5 gone)"

section \<open>Bundled aggregations\<close>

definition no_aggregation :: Aggregation where
  "no_aggregation = \<lparr>ag_thread = None, ag_replaceID = [], ag_references = []\<rparr>"

text \<open>The threads of a page: those with replies left once the ignored users' are taken off.\<close>

definition thread_bundles ::
  "string \<Rightarrow> TimelineEvent list \<Rightarrow> string set \<Rightarrow> (string, int) gomap \<Rightarrow> (string, ThreadSummary) gomap \<Rightarrow> (string, Aggregation) gomap \<times> string list" where
  "thread_bundles userID messages participated ignoredCounts summaries =
     (let sender_of = map_of (map (\<lambda>ev. (te_EventID ev, te_Sender ev)) (rev messages)) in
      fold (\<lambda>(eid, summary) (out, extra).
        let cnt = th_Count summary - mgetz 0 ignoredCounts eid
        in if cnt \<le> 0 then (out, extra)
           else (mput eid ((mgetz no_aggregation out eid)\<lparr>ag_thread := Some \<lparr>ta_count = cnt, ta_latestEventID = th_LatestEventID summary,
                   ta_participated = (case sender_of eid of None \<Rightarrow> [] | Some u \<Rightarrow> u) = userID \<or> eid \<in> participated\<rparr>\<rparr>) out, extra @ [th_LatestEventID summary])) summaries ([], []))"

definition BundleAggregations :: "RoomStore \<Rightarrow> string \<Rightarrow> TimelineEvent list \<Rightarrow> string set \<Rightarrow> string + (string, Aggregation) gomap \<times> string list" where
  "BundleAggregations d userID messages ignored =
     (let candidates = map te_EventID (filter (\<lambda>ev. \<not> te_IsState ev) messages) in
      if candidates = [] then Inr ([], [])
      else then_do (qs_relationTypes d candidates) (\<lambda>relTypes.
        let bundled = filter (\<lambda>eid. mgetz [] relTypes eid \<notin> {''m.replace'', ''m.annotation''}) candidates;
            threadRoots = filter (\<lambda>eid. mgetz [] relTypes eid = []) candidates
        in if bundled = [] then Inr ([], [])
           else then_do (qs_threads d threadRoots) (\<lambda>summaries.
             then_do (if summaries = [] then Inr ([], [])
                      else then_do (qs_participated d (mkeys summaries) userID) (\<lambda>participated.
                           then_do (if ignored = {} then Inr [] else qs_repliesBySender d (mkeys summaries) ignored) (\<lambda>ignoredCounts.
                           Inr (thread_bundles userID messages participated ignoredCounts summaries)))) (\<lambda>(out, extra).
             then_do (qs_edits d (bundled @ extra)) (\<lambda>edits.
             let out = fold (\<lambda>(eid, edit) out. mput eid ((mgetz no_aggregation out eid)\<lparr>ag_replaceID := edit\<rparr>) out) edits out
             in then_do (qs_references d (bundled @ extra) ignored) (\<lambda>refs.
                let out = fold (\<lambda>(eid, ids) out. mput eid ((mgetz no_aggregation out eid)\<lparr>ag_references := ids\<rparr>) out) refs out
                in Inr (if out = [] then ([], []) else (out, extra))))))))"

text \<open>One level: the events a bundle contains, and for the latest reply of a thread whatever \<open>nested\<close> adds to it.\<close>

definition attach_level ::
  "RoomStore \<Rightarrow> (string \<Rightarrow> string \<Rightarrow> string + string) \<Rightarrow> (string, StateEvent) gomap \<Rightarrow> int \<Rightarrow> SerializeConfig \<Rightarrow> string \<Rightarrow> Aggregation \<Rightarrow> string + string" where
  "attach_level d nested events timeNow cfg body agg =
     then_do (case mget events (ag_replaceID agg) of
                None \<Rightarrow> Inr None
              | Some ev \<Rightarrow> if ag_replaceID agg = [] then Inr None
                           else then_do (Serialize (qs_json d) (sv_Stored ev) timeNow cfg) (\<lambda>s. Inr (Some s))) (\<lambda>replace.
     then_do (case ag_thread agg of
                None \<Rightarrow> Inr None
              | Some th \<Rightarrow>
                  (case mget events (ta_latestEventID th) of
                     None \<Rightarrow> Inr None
                   | Some ev \<Rightarrow>
                       then_do (Serialize (qs_json d) (sv_Stored ev) timeNow cfg) (\<lambda>s.
                       then_do (nested (ta_latestEventID th) s) (\<lambda>s. Inr (Some (s, ta_count th, ta_participated th)))))) (\<lambda>thread.
     if ag_references agg = [] \<and> replace = None \<and> thread = None then Inr body
     else qs_setRelations d body \<lparr>rel_references = ag_references agg, rel_replace = replace, rel_thread = thread\<rparr>))"

definition AttachAggregations ::
  "RoomStore \<Rightarrow> (string, Aggregation) gomap \<Rightarrow> (string, StateEvent) gomap \<Rightarrow> int \<Rightarrow> SerializeConfig \<Rightarrow> string \<Rightarrow> Aggregation \<Rightarrow> string + string" where
  "AttachAggregations d extra events timeNow cfg body agg =
     attach_level d (\<lambda>eid s. case mget extra eid of None \<Rightarrow> Inr s | Some inner \<Rightarrow> attach_level d (\<lambda>_. Inr) events timeNow cfg s inner) events timeNow cfg body agg"

section \<open>The timeline\<close>

definition EventConfigAdmin :: "RoomStore \<Rightarrow> string \<Rightarrow> string \<Rightarrow> int \<Rightarrow> bool \<Rightarrow> SerializeConfig" where
  "EventConfigAdmin d userID deviceID tokenID adminMetadata =
     \<lparr>cf_Format = FormatV2NoRoomID, cf_Requester = \<lparr>rq_UserID = userID, rq_DeviceID = deviceID, rq_TokenID = tokenID, rq_IsGuest = False, rq_AppServiceID = []\<rparr>,
      cf_IncludeStrippedRoomState = False, cf_MSC4354Enabled = qs_MSC4354Enabled d, cf_IncludeAdminMetadata = adminMetadata, cf_EventFields = []\<rparr>"

definition EventConfig :: "RoomStore \<Rightarrow> string \<Rightarrow> string \<Rightarrow> int \<Rightarrow> SerializeConfig" where
  "EventConfig d userID deviceID tokenID = EventConfigAdmin d userID deviceID tokenID False"

definition stored_of :: "TimelineEvent \<Rightarrow> string \<Rightarrow> string Stored" where
  "stored_of e membership = \<lparr>sd_EventID = te_EventID e, sd_RoomID = te_RoomID e, sd_Type = te_Type e, sd_JSON = te_JSON e,
     sd_InternalMetadata = (if te_InternalMetadata e = [] then None else Some (te_InternalMetadata e)), sd_RoomVersion = te_RoomVersion e,
     sd_Membership = membership, sd_RedactedBy = [], sd_RedactedBecause = None\<rparr>"

text \<open>One event of the timeline, and the loop over them with the memberships beside.\<close>

definition render_event ::
  "RoomStore \<Rightarrow> (string, string Redaction) gomap \<Rightarrow> (string, Aggregation) gomap \<Rightarrow> (string, StateEvent) gomap \<Rightarrow> int \<Rightarrow> SerializeConfig \<Rightarrow> TimelineEvent \<Rightarrow> string \<Rightarrow> string + string" where
  "render_event d redactions aggs nested nowMS cfg e membership =
     then_do (AttachRedaction (qs_json d) redactions nowMS cfg (stored_of e membership)) (\<lambda>stored.
     then_do (Serialize (qs_json d) stored nowMS cfg) (\<lambda>body.
     case mget aggs (te_EventID e) of None \<Rightarrow> Inr body | Some agg \<Rightarrow> AttachAggregations d aggs nested nowMS cfg body agg))"

fun render_events :: "(TimelineEvent \<Rightarrow> string \<Rightarrow> string + string) \<Rightarrow> TimelineEvent list \<Rightarrow> string list \<Rightarrow> string + string list" where
  "render_events render [] memberships = Inr []"
| "render_events render (e # events) memberships =
     then_do (render e (case memberships of [] \<Rightarrow> [] | m # _ \<Rightarrow> m)) (\<lambda>body.
     then_do (render_events render events (case memberships of [] \<Rightarrow> [] | _ # ms \<Rightarrow> ms)) (\<lambda>rest. Inr (body # rest)))"

record timelineResult =
  tl_raw :: "string list"
  tl_events :: "TimelineEvent list"

definition no_timeline :: timelineResult where "no_timeline = \<lparr>tl_raw = [], tl_events = []\<rparr>"

text \<open>Where the timeline ends, and the page it starts from.\<close>

definition to_bound :: "RoomDataRequest \<Rightarrow> RoomKey" where
  "to_bound req = (if room_membership req = ''leave'' \<or> room_membership req = ''ban'' then Live (sm_EventStream (rdr_Room req)) else tk_Room (rdr_To req))"

definition room_page :: "RoomStore \<Rightarrow> RoomDataRequest \<Rightarrow> RoomKey option \<Rightarrow> string + TimelineEvent list \<times> RoomKey \<times> bool" where
  "room_page d req timelineFrom =
     (let version = sm_RoomVersion (rdr_Room req); limit = rc_TimelineLimit (rdr_Config req)
      in case timelineFrom of
           None \<Rightarrow> PaginateBackwards (qs_pages d) (rdr_RoomID req) version limit (to_bound req)
         | Some f \<Rightarrow> PaginateBackwardsStream (qs_pages d) (rdr_RoomID req) version limit (to_bound req) f)"

definition bundles_for :: "RoomStore \<Rightarrow> RoomDataRequest \<Rightarrow> TimelineEvent list \<Rightarrow> string + (string, Aggregation) gomap \<times> (string, StateEvent) gomap" where
  "bundles_for d req events =
     then_do (qs_extras d (rdr_RoomID req) (rdr_UserID req)) (\<lambda>vis.
     then_do (BundleAggregations d (rdr_UserID req) events (vx_IgnoredSenders vis)) (\<lambda>(aggs, nestedIDs).
     if aggs = [] then Inr (aggs, [])
     else then_do (EventsByID (qs_events d) (nestedIDs @ filter (\<lambda>r. r \<noteq> []) (map (\<lambda>(eid, a). ag_replaceID a) aggs)) (sm_RoomVersion (rdr_Room req))) (\<lambda>nested.
          Inr (aggs, nested))))"

definition num_live :: "Token \<Rightarrow> TimelineEvent list \<Rightarrow> int" where
  "num_live frm events = int (length (takeWhile (\<lambda>e. te_StreamOrdering e > RoomKey_MaxStreamPos (tk_Room frm)) (rev events)))"

definition buildTimeline ::
  "RoomStore \<Rightarrow> RoomDataRequest \<Rightarrow> RoomKey option \<Rightarrow> bool \<Rightarrow> string + timelineResult \<times> bool option \<times> string option \<times> int option" where
  "buildTimeline d req fromBound ignoreTimelineBound =
     (if rc_TimelineLimit (rdr_Config req) \<le> 0 \<or> invited_or_knocking req then Inr (no_timeline, None, None, None)
      else then_do (room_page d req (if ignoreTimelineBound then None else fromBound)) (\<lambda>(events, newKey, limited).
        then_do (qs_visible d (rdr_RoomID req) (rdr_UserID req) events (room_membership req \<noteq> ''join'') (rdr_NowMS req) {}) (\<lambda>filtered.
        let events = rs_Events filtered;
            cfg = EventConfigAdmin d (rdr_UserID req) (rdr_DeviceID req) (rdr_TokenID req) (rs_AdminMetadata filtered)
        in then_do (Redactions (qs_redactions d) (map te_EventID events)) (\<lambda>redactions.
           then_do (if limited then bundles_for d req events else Inr ([], [])) (\<lambda>(aggs, nested).
           then_do (render_events (render_event d redactions aggs nested (rdr_NowMS req) cfg) events (rs_Memberships filtered)) (\<lambda>raw.
           Inr (\<lparr>tl_raw = raw, tl_events = events\<rparr>, Some limited, Some (Token_String (WithRoomKey (rdr_To req) newKey)),
                map_option (\<lambda>frm. num_live frm events) (rdr_From req))))))))"

section \<open>Name, heroes and counts\<close>

text \<open>A string in the content of a state event of the room, nothing when it is absent or empty.\<close>

definition state_text :: "RoomStore \<Rightarrow> RoomDataRequest \<Rightarrow> string \<Rightarrow> string \<Rightarrow> string + string option" where
  "state_text d req eventType path =
     then_do (qs_stateAt d (rdr_RoomID req) (tk_Room (rdr_To req)) [(eventType, [])]) (\<lambda>ids.
     case mget ids (eventType, []) of
       None \<Rightarrow> Inr None
     | Some eventID \<Rightarrow>
         then_do (EventsByID (qs_events d) [eventID] (sm_RoomVersion (rdr_Room req))) (\<lambda>events.
         case mget events eventID of
           None \<Rightarrow> Inr None
         | Some ev \<Rightarrow> (let s = string_of (qs_json d) (jl_Get (qs_json d) (sd_JSON (sv_Stored ev)) path) in Inr (if s = [] then None else Some s))))"

definition apply_summary :: "RoomStore \<Rightarrow> RoomDataRequest \<Rightarrow> bool \<Rightarrow> bool \<Rightarrow> RoomResult \<Rightarrow> string + MemberSummary option \<times> RoomResult" where
  "apply_summary d req initial membershipChanged res =
     (if rr_Name res = None \<and> (initial \<or> membershipChanged) then
        then_do (if room_membership req \<noteq> ''join'' then Inr \<lparr>ms_Counts = [], ms_Members = []\<rparr> else qs_summary d (rdr_RoomID req)) (\<lambda>summary.
        Inr (Some summary, res\<lparr>rr_Heroes := rr_Heroes res @
          map (\<lambda>u. \<lparr>he_UserID = u, he_DisplayName = None, he_AvatarURL = None\<rparr>) (Heroes summary (rdr_UserID req))\<rparr>))
      else Inr (None, res))"

definition apply_counts :: "RoomStore \<Rightarrow> RoomDataRequest \<Rightarrow> bool \<Rightarrow> bool \<Rightarrow> MemberSummary option \<Rightarrow> RoomResult \<Rightarrow> string + RoomResult" where
  "apply_counts d req initial membershipChanged summary res =
     (if (initial \<or> membershipChanged) \<and> room_membership req = ''join'' then
        then_do (case summary of Some s \<Rightarrow> Inr (ms_Counts s) | None \<Rightarrow> MemberCounts (qs_counts d) (rdr_RoomID req)) (\<lambda>counts.
        Inr (res\<lparr>rr_JoinedCount := Some (mgetz 0 counts ''join''), rr_InvitedCount := Some (mgetz 0 counts ''invite'')\<rparr>))
      else Inr res)"

definition applyRoomMetadata :: "RoomStore \<Rightarrow> RoomDataRequest \<Rightarrow> bool \<Rightarrow> bool \<Rightarrow> bool \<Rightarrow> bool \<Rightarrow> RoomResult \<Rightarrow> string + RoomResult" where
  "applyRoomMetadata d req initial nameChanged avatarChanged membershipChanged res =
     then_do (if initial \<or> nameChanged then state_text d req ''m.room.name'' ''content.name'' else Inr None) (\<lambda>name.
     then_do (if initial \<or> avatarChanged then state_text d req ''m.room.avatar'' ''content.url'' else Inr None) (\<lambda>url.
     let res = res\<lparr>rr_Name := (if name = None then rr_Name res else name), rr_Avatar := (if url = None then rr_Avatar res else url)\<rparr>
     in then_do (apply_summary d req initial membershipChanged res) (\<lambda>(summary, res). apply_counts d req initial membershipChanged summary res)))"

section \<open>The bump stamp\<close>

definition last_bump :: "TimelineEvent list \<Rightarrow> int option" where
  "last_bump events = map_option te_StreamOrdering (List.find (\<lambda>e. te_Type e \<in> set BumpEventTypes \<and> te_StreamOrdering e > 0) (rev events))"

definition bumpStamp :: "RoomStore \<Rightarrow> RoomDataRequest \<Rightarrow> timelineResult \<Rightarrow> bool \<Rightarrow> string + int option" where
  "bumpStamp d req timeline checkOutside =
     (case last_bump (tl_events timeline) of
        Some pos \<Rightarrow> Inr (Some pos)
      | None \<Rightarrow>
          if \<not> checkOutside then Inr None
          else
            let ask = then_do (LastBumpEventPosBefore (qs_lastBump d) (rdr_RoomID req) BumpEventTypes (RoomKey_MaxStreamPos (tk_Room (rdr_To req)))) (\<lambda>(pos, found).
                  Inr (if \<not> found \<or> pos \<le> 0 then None else Some pos))
            in case rdr_Meta req of
                 None \<Rightarrow> ask
               | Some m \<Rightarrow>
                   (case sj_BumpStamp m of
                      None \<Rightarrow> Inr None
                    | Some stamp \<Rightarrow> if stamp < rk_Stream (tk_Room (rdr_To req)) then Inr (if stamp > 0 then Some stamp else None) else ask))"

definition applyBumpStamp :: "RoomStore \<Rightarrow> RoomDataRequest \<Rightarrow> timelineResult \<Rightarrow> bool \<Rightarrow> bool option \<Rightarrow> RoomResult \<Rightarrow> string + RoomResult" where
  "applyBumpStamp d req timeline initial limited res =
     (let alwaysReturn = (room_membership req \<noteq> ''join'' \<or> limited = None \<or> limited = Some True \<or> initial) in
      then_do (if room_membership req = ''join'' then bumpStamp d req timeline alwaysReturn else Inr None) (\<lambda>stamp.
      let stamp = (if stamp = None \<and> alwaysReturn then Some (sm_EventStream (rdr_Room req)) else stamp);
          stamp = (case stamp of Some s \<Rightarrow> if s < 0 then Some 0 else Some s | None \<Rightarrow> None)
      in Inr (res\<lparr>rr_BumpStamp := stamp\<rparr>)))"

section \<open>The required state\<close>

definition configFor :: "PerConnectionState \<Rightarrow> string \<Rightarrow> RoomSyncConfig option" where
  "configFor st roomID = mget (pc_RoomConfigs st) roomID"

definition recordRoomConfig :: "RoomDataRequest \<Rightarrow> required_state \<Rightarrow> PerConnectionState \<Rightarrow> PerConnectionState" where
  "recordRoomConfig req required new = SetRoomConfig new (rdr_RoomID req) \<lparr>rc_TimelineLimit = rc_TimelineLimit (rdr_Config req), rc_RequiredState = required\<rparr>"

definition record_lazy :: "RoomDataRequest \<Rightarrow> requiredStatePlan \<Rightarrow> RequiredStateChanges \<Rightarrow> PerConnectionState \<Rightarrow> PerConnectionState" where
  "record_lazy req plan changes new =
     (case recordLazyMembership (rdr_LazyMemberLastSeen req) plan changes of
        None \<Rightarrow> new
      | Some entry \<Rightarrow> new\<lparr>pc_LazyMembership := mput (rdr_RoomID req) entry (pc_LazyMembership new)\<rparr>)"

definition no_changes :: RequiredStateChanges where
  "no_changes = \<lparr>rs_Changed = None, rs_Added = NoState, rs_ExtraLazyMembers = {}, rs_InvalidatedLazyMembers = {}\<rparr>"

definition fetchFilter :: "RoomStore \<Rightarrow> RoomDataRequest \<Rightarrow> StateFilter \<Rightarrow> string + (state_key, string) gomap" where
  "fetchFilter d req f =
     (if sf_IsAll f then qs_stateIDs d (rdr_RoomID req) (tk_Room (rdr_To req))
      else qs_stateWild d (rdr_RoomID req) (tk_Room (rdr_To req))
        (concat (map (\<lambda>e. case tk_StateKey e of None \<Rightarrow> [] | Some k \<Rightarrow> [(tk_Type e, k)]) (Entries f)))
        (map tk_Type (filter (\<lambda>e. tk_StateKey e = None) (Entries f))))"

definition fillHeroProfilesFrom :: "RoomStore \<Rightarrow> (state_key, string) gomap \<Rightarrow> (string, StateEvent) gomap \<Rightarrow> RoomResult \<Rightarrow> RoomResult" where
  "fillHeroProfilesFrom d stateIDs events res =
     (let j = qs_json d;
          text_at = (\<lambda>ev path. case jl_Get j (sd_JSON (sv_Stored ev)) path of None \<Rightarrow> None | Some v \<Rightarrow> if jl_IsString j v then Some (jl_String j v) else None)
      in res\<lparr>rr_Heroes := map (\<lambda>h.
           case mget stateIDs (memberEventType, he_UserID h) of
             None \<Rightarrow> h
           | Some i \<Rightarrow>
               (case mget events i of
                  None \<Rightarrow> h
                | Some ev \<Rightarrow>
                    let name = text_at ev ''content.displayname''; url = text_at ev ''content.avatar_url''
                    in h\<lparr>he_DisplayName := (if name = None then he_DisplayName h else name), he_AvatarURL := (if url = None then he_AvatarURL h else url)\<rparr>)) (rr_Heroes res)\<rparr>)"

definition fillHeroProfiles :: "RoomStore \<Rightarrow> RoomDataRequest \<Rightarrow> (state_key, string) gomap \<Rightarrow> RoomResult \<Rightarrow> RoomResult" where
  "fillHeroProfiles d req stateIDs res =
     (let ids = concat (map (\<lambda>h. case mget stateIDs (memberEventType, he_UserID h) of None \<Rightarrow> [] | Some i \<Rightarrow> [i]) (rr_Heroes res))
      in if ids = [] then res
         else (case EventsByID (qs_events d) ids (sm_RoomVersion (rdr_Room req)) of Inl err \<Rightarrow> res | Inr events \<Rightarrow> fillHeroProfilesFrom d stateIDs events res))"

fun render_state ::
  "RoomStore \<Rightarrow> (string, string Redaction) gomap \<Rightarrow> (string, StateEvent) gomap \<Rightarrow> int \<Rightarrow> SerializeConfig \<Rightarrow> string list \<Rightarrow> string + string list" where
  "render_state d redactions events nowMS cfg [] = Inr []"
| "render_state d redactions events nowMS cfg (i # ids) =
     (case mget events i of
        None \<Rightarrow> render_state d redactions events nowMS cfg ids
      | Some ev \<Rightarrow>
          then_do (AttachRedaction (qs_json d) redactions nowMS cfg (sv_Stored ev)) (\<lambda>stored.
          then_do (Serialize (qs_json d) stored nowMS cfg) (\<lambda>body.
          then_do (render_state d redactions events nowMS cfg ids) (\<lambda>rest. Inr (body # rest)))))"

definition ordered_keys :: "requiredStatePlan \<Rightarrow> (state_key, string) gomap \<Rightarrow> state_key list" where
  "ordered_keys plan stateIDs = sort (filter (plan_wants plan) (mkeys stateIDs))"

definition serialiseState :: "RoomStore \<Rightarrow> RoomDataRequest \<Rightarrow> requiredStatePlan \<Rightarrow> (state_key, string) gomap \<Rightarrow> RoomResult \<Rightarrow> string + RoomResult" where
  "serialiseState d req plan stateIDs res =
     (if plan_isEmpty plan \<or> stateIDs = [] then Inr (fillHeroProfiles d req stateIDs res)
      else
        let wanted = sort (map snd stateIDs)
        in then_do (EventsByID (qs_events d) wanted (sm_RoomVersion (rdr_Room req))) (\<lambda>events.
           then_do (Redactions (qs_redactions d) wanted) (\<lambda>redactions.
           then_do (render_state d redactions events (rdr_NowMS req) (EventConfig d (rdr_UserID req) (rdr_DeviceID req) (rdr_TokenID req))
                      (map (\<lambda>k. mgetz [] stateIDs k) (ordered_keys plan stateIDs))) (\<lambda>bodies.
           Inr (fillHeroProfilesFrom d stateIDs events (res\<lparr>rr_RequiredState := rr_RequiredState res @ bodies\<rparr>))))))"

definition hero_keys :: "RoomResult \<Rightarrow> state_key list" where
  "hero_keys res = map (\<lambda>h. (memberEventType, he_UserID h)) (rr_Heroes res)"

text \<open>The state a room is sent from scratch, and what the connection is told of it.\<close>

definition initial_state :: "RoomStore \<Rightarrow> RoomDataRequest \<Rightarrow> requiredStatePlan \<Rightarrow> RoomResult \<Rightarrow> string + (state_key, string) gomap" where
  "initial_state d req plan res =
     (if pl_all plan then qs_stateIDs d (rdr_RoomID req) (tk_Room (rdr_To req))
      else qs_stateWild d (rdr_RoomID req) (tk_Room (rdr_To req)) (pl_keys plan @ hero_keys res) (pl_wildcardTypes plan))"

text \<open>The state of a room the client already has: what changed, and what is newly asked for.\<close>

definition updated_state ::
  "RoomStore \<Rightarrow> RoomDataRequest \<Rightarrow> requiredStatePlan \<Rightarrow> (state_key, string) gomap \<Rightarrow> PerConnectionState \<Rightarrow> string + (state_key, string) gomap \<times> PerConnectionState" where
  "updated_state d req plan deltas new =
     (case configFor (rdr_Previous req) (rdr_RoomID req) of
        None \<Rightarrow> Inr (deltas, recordRoomConfig req (rc_RequiredState (rdr_Config req)) new)
      | Some prevCfg \<Rightarrow>
          let changes = ComputeRequiredStateChanges (rdr_UserID req) (rc_RequiredState prevCfg) (rc_RequiredState (rdr_Config req))
                (rdr_PreviouslyReturnedLazy req) (pl_lazyUserIDs plan) (set (mkeys deltas))
          in then_do (if sf_IsEmpty (rs_Added changes) then Inr deltas
                      else then_do (fetchFilter d req (rs_Added changes)) (\<lambda>added. Inr (fold (\<lambda>(k, v). mput k v) added deltas))) (\<lambda>stateIDs.
             Inr (stateIDs, record_lazy req plan changes (recordRoomConfig req (recorded_config (rdr_Config req) changes) new))))"

definition resolve_required_state ::
  "RoomStore \<Rightarrow> RoomDataRequest \<Rightarrow> timelineResult \<Rightarrow> (state_key, string) gomap \<Rightarrow> bool \<Rightarrow> bool \<Rightarrow> RoomResult \<Rightarrow> PerConnectionState \<Rightarrow>
   string + RoomResult \<times> PerConnectionState" where
  "resolve_required_state d req timeline deltas initial limited res new =
     (if invited_or_knocking req then Inr (res, recordRoomConfig req (rc_RequiredState (rdr_Config req)) new)
      else
        let plan = planRequiredState (rdr_UserID req) (rdr_Config req) (tl_events timeline) (set (mkeys deltas)) limited initial
        in then_do (if initial then
                      then_do (initial_state d req plan res) (\<lambda>stateIDs.
                      Inr (stateIDs, record_lazy req plan no_changes (recordRoomConfig req (rc_RequiredState (rdr_Config req)) new)))
                    else
                      then_do (updated_state d req plan deltas new) (\<lambda>(stateIDs, new).
                      if hero_keys res = [] then Inr (stateIDs, new)
                      else then_do (qs_stateAt d (rdr_RoomID req) (tk_Room (rdr_To req)) (hero_keys res)) (\<lambda>heroState.
                           Inr (fold (\<lambda>(k, v) m. if mget m k = None then mput k v m else m) heroState stateIDs, new)))) (\<lambda>(stateIDs, new).
           then_do (serialiseState d req plan stateIDs res) (\<lambda>res. Inr (res, new))))"

section \<open>A room\<close>

definition strip_fields :: "string list" where "strip_fields = [''type'', ''state_key'', ''content'', ''sender'']"

definition stripEvent :: "RoomStore \<Rightarrow> string \<Rightarrow> string" where
  "stripEvent d raw = qs_marshal d (concat (map (\<lambda>f. case jl_Get (qs_json d) raw f of None \<Rightarrow> [] | Some v \<Rightarrow> [(f, v)]) strip_fields))"

text \<open>Where the timeline starts, whether the room is sent from scratch, and whether the start is ignored for the timeline.\<close>

definition room_bounds :: "RoomDataRequest \<Rightarrow> token_error + RoomKey option \<times> bool \<times> bool" where
  "room_bounds req =
     (let stateReset = (SlidingRoom.sm_EventID (rdr_Room req) = [] \<and> room_membership req \<noteq> [])
      in case rdr_From req of
           None \<Rightarrow> Inr (None, True, False)
         | Some frm \<Rightarrow>
             if rdr_NewlyJoined req \<or> stateReset then Inr (None, True, False)
             else
               let status = HaveSentRoom (pc_Rooms (rdr_Previous req)) (rdr_RoomID req);
                   expand = (case configFor (rdr_Previous req) (rdr_RoomID req) of None \<Rightarrow> False
                             | Some prevConfig \<Rightarrow> rc_TimelineLimit prevConfig < rc_TimelineLimit (rdr_Config req))
               in if hs_Status status = FlagLive then Inr (Some (tk_Room frm), False, expand)
                  else if hs_Status status = FlagPreviously then
                    (case ParseRoomKey (hs_LastToken status) of Inl e \<Rightarrow> Inl e | Inr k \<Rightarrow> Inr (Some k, False, expand))
                  else Inr (None, True, expand))"

definition stripped_state :: "RoomStore \<Rightarrow> RoomDataRequest \<Rightarrow> string + string list" where
  "stripped_state d req =
     (if invited_or_knocking req then
        then_do (InviteOrKnockStrippedState d (SlidingRoom.sm_EventID (rdr_Room req))) (\<lambda>(stripped, memberEvent).
        Inr ((case stripped of None \<Rightarrow> [] | Some s \<Rightarrow> map snd (jl_Fields (qs_json d) s)) @ (case memberEvent of None \<Rightarrow> [] | Some e \<Rightarrow> [stripEvent d e])))
      else Inr [])"

definition room_deltas :: "RoomStore \<Rightarrow> RoomDataRequest \<Rightarrow> RoomKey option \<Rightarrow> bool \<Rightarrow> string + (state_key, string) gomap" where
  "room_deltas d req fromBound initial =
     (case fromBound of
        None \<Rightarrow> Inr []
      | Some b \<Rightarrow>
          if initial then Inr []
          else
            let own = (if rdr_NewlyLeft req \<and> SlidingRoom.sm_EventID (rdr_Room req) \<noteq> [] then [((memberEventType, rdr_UserID req), SlidingRoom.sm_EventID (rdr_Room req))] else [])
            in then_do (CurrentStateDeltas (qs_deltas d) (rdr_RoomID req) (RoomKey_MaxStreamPos b) (RoomKey_MaxStreamPos (tk_Room (rdr_To req)))) (\<lambda>got.
               Inr (fold (\<lambda>(k, v). mput k v) got own)))"

datatype room_error = BadToken token_error | RoomStoreError string

definition with_store :: "string + 'a \<Rightarrow> ('a \<Rightarrow> room_error + 'b) \<Rightarrow> room_error + 'b" where
  "with_store r f = (case r of Inl e \<Rightarrow> Inl (RoomStoreError e) | Inr x \<Rightarrow> f x)"

definition GetRoomData :: "RoomStore \<Rightarrow> RoomDataRequest \<Rightarrow> room_error + RoomResult \<times> PerConnectionState" where
  "GetRoomData d req =
     (case room_bounds req of
        Inl e \<Rightarrow> Inl (BadToken e)
      | Inr (fromBound, initial, ignoreTimelineBound) \<Rightarrow>
          with_store (buildTimeline d req fromBound ignoreTimelineBound) (\<lambda>(timeline, limited, prevBatch, numLive).
          with_store (stripped_state d req) (\<lambda>stripped.
          with_store (room_deltas d req fromBound initial) (\<lambda>deltas.
          let res = (new_result (rdr_IsDM req))\<lparr>rr_Initial := initial, rr_Timeline := tl_raw timeline, rr_Limited := limited, rr_PrevBatch := prevBatch,
                rr_NumLive := numLive, rr_UnstableExpandedTimeline := ignoreTimelineBound, rr_StrippedState := stripped\<rparr>;
              changed = (\<lambda>t. list_ex (\<lambda>(k, v). k = (t, [])) deltas)
          in with_store (applyRoomMetadata d req initial (changed ''m.room.name'') (changed ''m.room.avatar'') (list_ex (\<lambda>((t, k), v). t = memberEventType) deltas) res) (\<lambda>res.
             with_store (applyBumpStamp d req timeline initial limited res) (\<lambda>res.
             with_store (resolve_required_state d req timeline deltas initial (limited = Some True) res empty_state) Inr))))))"

section \<open>A concrete room\<close>

text \<open>A library that finds no field, and a room of three messages whose state is its name.\<close>

definition blank_lib :: "string jsonlib" where
  "blank_lib = \<lparr>jl_Get = \<lambda>_ _. None, jl_Fields = \<lambda>_. [], jl_IsObject = \<lambda>_. False, jl_IsString = \<lambda>_. False, jl_IsNumber = \<lambda>_. False, jl_IsNull = \<lambda>_. False,
     jl_String = id, jl_Int = \<lambda>_. 0, jl_Bool = \<lambda>_. False, jl_Set = \<lambda>d _ _. (d, None), jl_Delete = \<lambda>d _. (d, None), jl_empty = [], jl_text = id,
     jl_number = \<lambda>_. [], jl_true = [], jl_value = id\<rparr>"

definition small_room :: RoomStore where
  "small_room = \<lparr>qs_json = blank_lib, qs_isArray = \<lambda>_. False, qs_marshal = \<lambda>_. [], qs_setRelations = \<lambda>s _. Inr s, qs_pages = wit_deps,
     qs_visible = \<lambda>_ _ evs _ _ _. Inr \<lparr>rs_Events = evs, rs_Memberships = [], rs_Pruned = [], rs_AdminMetadata = False\<rparr>, qs_extras = \<lambda>_ _. Inr no_extras,
     qs_redactions = \<lambda>_. Inr [], qs_relationTypes = \<lambda>_. Inr [], qs_threads = \<lambda>_. Inr [], qs_participated = \<lambda>_ _. Inr {}, qs_repliesBySender = \<lambda>_ _. Inr [],
     qs_edits = \<lambda>_. Inr [], qs_references = \<lambda>_ _. Inr [],
     qs_events = \<lambda>_. Inr [\<lparr>sv_Stored = \<lparr>sd_EventID = ''$n'', sd_RoomID = ''!r'', sd_Type = ''m.room.name'', sd_JSON = ''name'', sd_InternalMetadata = None,
        sd_RoomVersion = ''11'', sd_Membership = [], sd_RedactedBy = [], sd_RedactedBecause = None\<rparr>, sv_StateKey = [], sv_Sender = ''@s''\<rparr>],
     qs_eventJSON = \<lambda>_. Inr None, qs_deltas = \<lambda>_ _ _. Inr [], qs_stateIDs = \<lambda>_ _. Inr [((''m.room.name'', []), ''$n'')],
     qs_stateWild = \<lambda>_ _ ks ts. Inr (if (''m.room.name'', []) \<in> set ks \<or> ''m.room.name'' \<in> set ts then [((''m.room.name'', []), ''$n'')] else []),
     qs_stateAt = \<lambda>_ _ _. Inr [], qs_summary = \<lambda>_. Inr \<lparr>ms_Counts = [], ms_Members = []\<rparr>, qs_counts = \<lambda>_. Inr [], qs_lastBump = \<lambda>_ _ _. Inr None, qs_MSC4354Enabled = False\<rparr>"

definition small_request :: RoomDataRequest where
  "small_request = \<lparr>rdr_UserID = ''@u'', rdr_RoomID = ''!r'', rdr_Config = \<lparr>rc_TimelineLimit = 5, rc_RequiredState = [(''m.room.name'', {[]})]\<rparr>,
     rdr_Room = \<lparr>sm_RoomID = ''!r'', sm_Sender = ''@u'', sm_Membership = ''join'', sm_EventID = ''$j'', sm_RoomVersion = ''11'', sm_EventInstance = ''m'', sm_EventStream = 0,
        sm_HasKnownState = True, sm_RoomType = None, sm_IsEncrypted = False\<rparr>,
     rdr_Meta = None, rdr_From = Some (wit_now 0), rdr_To = wit_now 3,
     rdr_Previous = empty_state\<lparr>pc_Rooms := NewRoomStatusMap [(''!r'', \<lparr>hs_Status = FlagLive, hs_LastToken = []\<rparr>)]\<rparr>,
     rdr_NewlyJoined = False, rdr_NewlyLeft = False, rdr_IsDM = False, rdr_NowMS = 1000, rdr_DeviceID = ''D'', rdr_TokenID = 1, rdr_PreviouslyReturnedLazy = {},
     rdr_LazyMemberLastSeen = []\<rparr>"

section \<open>The timeline of a room goes on where the client is\<close>

lemma with_store_Inr: "with_store r f = Inr y \<longleftrightarrow> (\<exists>x. r = Inr x \<and> f x = Inr y)"
  by (simp add: with_store_def split: sum.split)

text \<open>\<open>lets room user peeking now\<close> is what the visibility filter lets through.\<close>

definition visible_by :: "RoomStore \<Rightarrow> (string \<Rightarrow> string \<Rightarrow> bool \<Rightarrow> int \<Rightarrow> TimelineEvent \<Rightarrow> bool) \<Rightarrow> bool" where
  "visible_by d lets \<longleftrightarrow> (\<forall>r u evs p now res. qs_visible d r u evs p now {} = Inr res \<longrightarrow> rs_Events res = filter (lets r u p now) evs)"

lemma for_client_visible:
  assumes "caches_sound G F cs" and "answers_groups G gq" and "answers_state F sq" and "\<And>u. plain u" and "\<And>m. set (visit m) = set m" and "\<And>r u s. extras r u s = Inr (ex r u)"
    and "qs_visible d = (\<lambda>r u evs p now always. snd (ForClient gj gq (\<lambda>g k. sq g k []) extras visit cs r u evs p now always))"
  shows "visible_by d (\<lambda>r u p now ev. let v = db_verdict gj G F (vis_context u p now (ex r u)) {} ev in vd_Visible v \<and> \<not> vd_Pruned v)"
  unfolding visible_by_def
proof (intro allI impI)
  fix r u evs p now res
  assume "qs_visible d r u evs p now {} = Inr res"
  then obtain cs' where run: "ForClient gj gq (\<lambda>g k. sq g k []) extras visit cs r u evs p now {} = (cs', Inr res)"
    using assms(7) by (metis prod.collapse)
  show "rs_Events res = filter (\<lambda>ev. let v = db_verdict gj G F (vis_context u p now (ex r u)) {} ev in vd_Visible v \<and> \<not> vd_Pruned v) evs"
  proof (cases "evs = []")
    case False
    then show ?thesis using for_client_spec [OF assms(1-4,5) run] assms(6) by (simp add: db_filter_def Let_def)
  qed (use run in \<open>auto simp: ForClient_def\<close>)
qed

definition rendered :: "RoomStore \<Rightarrow> RoomDataRequest \<Rightarrow> TimelineEvent \<Rightarrow> string \<Rightarrow> bool" where
  "rendered d req e body \<longleftrightarrow> (\<exists>redactions aggs nested admin membership.
     render_event d redactions aggs nested (rdr_NowMS req) (EventConfigAdmin d (rdr_UserID req) (rdr_DeviceID req) (rdr_TokenID req) admin) e membership = Inr body)"

lemma render_events_all: "render_events render evs ms = Inr out \<Longrightarrow> list_all2 (\<lambda>e body. \<exists>m. render e m = Inr body) evs out"
  by (induction evs arbitrary: ms out) (auto simp: then_do_Inr)

lemma timeline_cases:
  assumes "buildTimeline d req b ign = Inr (tim, limited, pb, nl)" and "0 < rc_TimelineLimit (rdr_Config req)" and "\<not> invited_or_knocking req"
  obtains events newKey lim filtered where "room_page d req (if ign then None else b) = Inr (events, newKey, lim)"
    and "qs_visible d (rdr_RoomID req) (rdr_UserID req) events (room_membership req \<noteq> ''join'') (rdr_NowMS req) {} = Inr filtered"
    and "tl_events tim = rs_Events filtered" and "limited = Some lim" and "pb = Some (Token_String (WithRoomKey (rdr_To req) newKey))"
    and "nl = map_option (\<lambda>frm. num_live frm (rs_Events filtered)) (rdr_From req)"
    and "list_all2 (rendered d req) (rs_Events filtered) (tl_raw tim)"
proof -
  from assms obtain events newKey lim where page: "room_page d req (if ign then None else b) = Inr (events, newKey, lim)"
    and rest: "then_do (qs_visible d (rdr_RoomID req) (rdr_UserID req) events (room_membership req \<noteq> ''join'') (rdr_NowMS req) {}) (\<lambda>filtered.
        let events = rs_Events filtered;
            cfg = EventConfigAdmin d (rdr_UserID req) (rdr_DeviceID req) (rdr_TokenID req) (rs_AdminMetadata filtered)
        in then_do (Redactions (qs_redactions d) (map te_EventID events)) (\<lambda>redactions.
           then_do (if lim then bundles_for d req events else Inr ([], [])) (\<lambda>(aggs, nested).
           then_do (render_events (render_event d redactions aggs nested (rdr_NowMS req) cfg) events (rs_Memberships filtered)) (\<lambda>raw.
           Inr (\<lparr>tl_raw = raw, tl_events = events\<rparr>, Some lim, Some (Token_String (WithRoomKey (rdr_To req) newKey)),
                map_option (\<lambda>frm. num_live frm events) (rdr_From req)))))) = Inr (tim, limited, pb, nl)"
    unfolding buildTimeline_def by (auto simp: then_do_Inr)
  from rest obtain filtered redactions aggs nested raw where vis: "qs_visible d (rdr_RoomID req) (rdr_UserID req) events (room_membership req \<noteq> ''join'') (rdr_NowMS req) {} = Inr filtered"
    and raw: "render_events (render_event d redactions aggs nested (rdr_NowMS req)
        (EventConfigAdmin d (rdr_UserID req) (rdr_DeviceID req) (rdr_TokenID req) (rs_AdminMetadata filtered))) (rs_Events filtered) (rs_Memberships filtered) = Inr raw"
    and out: "(tim, limited, pb, nl) = (\<lparr>tl_raw = raw, tl_events = rs_Events filtered\<rparr>, Some lim, Some (Token_String (WithRoomKey (rdr_To req) newKey)),
                map_option (\<lambda>frm. num_live frm (rs_Events filtered)) (rdr_From req))"
    by (auto simp: then_do_Inr Let_def)
  have "list_all2 (rendered d req) (rs_Events filtered) raw"
    by (rule list_all2_mono [OF render_events_all [OF raw]]) (unfold rendered_def, blast)
  then show thesis using that [OF page vis] out by simp
qed

text \<open>What the later steps leave alone.\<close>

definition same_timeline :: "RoomResult \<Rightarrow> RoomResult \<Rightarrow> bool" where
  "same_timeline r r' \<longleftrightarrow> rr_Timeline r' = rr_Timeline r \<and> rr_Limited r' = rr_Limited r \<and> rr_PrevBatch r' = rr_PrevBatch r \<and> rr_NumLive r' = rr_NumLive r \<and>
     rr_Initial r' = rr_Initial r \<and> rr_UnstableExpandedTimeline r' = rr_UnstableExpandedTimeline r"

lemma same_timeline_refl [simp]: "same_timeline r r"
  by (simp add: same_timeline_def)

lemma same_timeline_trans: "same_timeline a b \<Longrightarrow> same_timeline b c \<Longrightarrow> same_timeline a c"
  by (simp add: same_timeline_def)

lemma same_timeline_upd [simp]:
  "same_timeline r (r\<lparr>rr_Heroes := x\<rparr>)" "same_timeline r (r\<lparr>rr_JoinedCount := y, rr_InvitedCount := z\<rparr>)" "same_timeline r (r\<lparr>rr_BumpStamp := b\<rparr>)"
  "same_timeline r (r\<lparr>rr_Name := n, rr_Avatar := a\<rparr>)" "same_timeline r (r\<lparr>rr_RequiredState := s\<rparr>)"
  by (simp_all add: same_timeline_def)

lemma summary_timeline: "apply_summary d req i m r = Inr (s, r') \<Longrightarrow> same_timeline r r'"
  by (auto simp: apply_summary_def then_do_Inr split: if_split_asm)

lemma counts_timeline: "apply_counts d req i m s r = Inr r' \<Longrightarrow> same_timeline r r'"
  by (auto simp: apply_counts_def then_do_Inr split: if_split_asm)

lemma metadata_timeline:
  assumes "applyRoomMetadata d req i n a m r = Inr r'"
  shows "same_timeline r r'"
proof -
  from assms obtain name url s r1 where r1: "apply_summary d req i m (r\<lparr>rr_Name := (if name = None then rr_Name r else name), rr_Avatar := (if url = None then rr_Avatar r else url)\<rparr>) = Inr (s, r1)"
    and r': "apply_counts d req i m s r1 = Inr r'"
    unfolding applyRoomMetadata_def then_do_Inr Let_def by (elim exE conjE) (auto split: prod.splits)
  show ?thesis by (rule same_timeline_trans [OF same_timeline_upd(4) same_timeline_trans [OF summary_timeline [OF r1] counts_timeline [OF r']]])
qed

lemma bump_timeline: "applyBumpStamp d req tim i l r = Inr r' \<Longrightarrow> same_timeline r r'"
  unfolding applyBumpStamp_def Let_def then_do_Inr by (elim exE conjE) (simp only: sum.inject, elim subst, rule same_timeline_upd(3))

lemma heroes_timeline: "same_timeline r (fillHeroProfilesFrom d s e r)" "same_timeline r (fillHeroProfiles d req s r)"
  by (simp_all add: fillHeroProfiles_def fillHeroProfilesFrom_def Let_def same_timeline_def split: sum.split)

lemma state_timeline: "serialiseState d req p s r = Inr r' \<Longrightarrow> same_timeline r r'"
  using same_timeline_trans [OF same_timeline_upd(5) heroes_timeline(1)] heroes_timeline(2)
  by (auto simp: serialiseState_def then_do_Inr Let_def split: if_split_asm)

lemma required_timeline: "resolve_required_state d req tim de i l r n = Inr (r', n') \<Longrightarrow> same_timeline r r'"
  by (auto simp: resolve_required_state_def then_do_Inr Let_def split: if_splits intro: state_timeline)

lemma room_data_timeline:
  assumes "GetRoomData d req = Inr (res, new)" and "room_bounds req = Inr (b, initial, ign)"
  obtains tim where "buildTimeline d req b ign = Inr (tim, rr_Limited res, rr_PrevBatch res, rr_NumLive res)" and "rr_Timeline res = tl_raw tim"
    and "rr_Initial res = initial" and "rr_UnstableExpandedTimeline res = ign"
proof -
  let ?r0 = "\<lambda>tim limited pb nl stripped. (new_result (rdr_IsDM req))\<lparr>rr_Initial := initial, rr_Timeline := tl_raw tim, rr_Limited := limited, rr_PrevBatch := pb,
    rr_NumLive := nl, rr_UnstableExpandedTimeline := ign, rr_StrippedState := stripped\<rparr>"
  from assms obtain tim limited pb nl stripped r1 r2 deltas n a m where built: "buildTimeline d req b ign = Inr (tim, limited, pb, nl)"
    and r1: "applyRoomMetadata d req initial n a m (?r0 tim limited pb nl stripped) = Inr r1" and r2: "applyBumpStamp d req tim initial limited r1 = Inr r2"
    and r3: "resolve_required_state d req tim deltas initial (limited = Some True) r2 empty_state = Inr (res, new)"
    unfolding GetRoomData_def by (auto simp: with_store_Inr Let_def)
  have "same_timeline (?r0 tim limited pb nl stripped) res"
    by (rule same_timeline_trans [OF metadata_timeline [OF r1] same_timeline_trans [OF bump_timeline [OF r2] required_timeline [OF r3]]])
  then show thesis using that [of tim] built by (simp add: same_timeline_def)
qed

lemma bounds_from_status:
  assumes "room_bounds req = Inr (Some b, initial, ign)"
  shows "(\<exists>frm. rdr_From req = Some frm \<and> b = tk_Room frm \<and> hs_Status (HaveSentRoom (pc_Rooms (rdr_Previous req)) (rdr_RoomID req)) = FlagLive) \<or>
    (hs_Status (HaveSentRoom (pc_Rooms (rdr_Previous req)) (rdr_RoomID req)) = FlagPreviously \<and>
     ParseRoomKey (hs_LastToken (HaveSentRoom (pc_Rooms (rdr_Previous req)) (rdr_RoomID req))) = Inr b)"
  using assms by (auto simp: room_bounds_def Let_def split: option.splits if_split_asm sum.splits)

text \<open>
  C33. The timeline of a room the client has goes on where the client is: after the position of its last response if the room was
  in it, and otherwise after the token kept when the room was first left out. The timeline is the rendered visible events of the
  newest part of that gap; when it is not marked as limited that is all of the gap, and when it is, the \<^verbatim>\<open>prev_batch\<close> names
  the place where the rest begins.
\<close>

theorem room_timeline_catches_up:
  assumes "newest_first hist" and "answers_stream (qs_pages d) (rdr_RoomID req) hist" and "visible_by d lets"
    and "0 < rc_TimelineLimit (rdr_Config req)" and "int64 (rc_TimelineLimit (rdr_Config req) * 2)" and "\<not> invited_or_knocking req"
    and "room_bounds req = Inr (Some b, False, False)" and "GetRoomData d req = Inr (res, new)"
  shows "((\<exists>frm. rdr_From req = Some frm \<and> b = tk_Room frm \<and> hs_Status (HaveSentRoom (pc_Rooms (rdr_Previous req)) (rdr_RoomID req)) = FlagLive) \<or>
      (hs_Status (HaveSentRoom (pc_Rooms (rdr_Previous req)) (rdr_RoomID req)) = FlagPreviously \<and>
       ParseRoomKey (hs_LastToken (HaveSentRoom (pc_Rooms (rdr_Previous req)) (rdr_RoomID req))) = Inr b)) \<and>
    (\<exists>w1 w2 k further. window hist (RoomKey_MaxStreamPos (to_bound req)) (RoomKey_MaxStreamPos b) = w1 @ w2 \<and>
       list_all2 (rendered d req) (filter (lets (rdr_RoomID req) (rdr_UserID req) (room_membership req \<noteq> ''join'') (rdr_NowMS req))
         (ascending (scan_rows (rdr_RoomID req) (sm_RoomVersion (rdr_Room req)) w1))) (rr_Timeline res) \<and>
       rr_Limited res = Some further \<and> rr_PrevBatch res = Some (Token_String (WithRoomKey (rdr_To req) k)) \<and>
       (if further then window hist (RoomKey_MaxStreamPos k) (RoomKey_MaxStreamPos b) = w2 else w2 = []))"
proof -
  obtain tim where built: "buildTimeline d req (Some b) False = Inr (tim, rr_Limited res, rr_PrevBatch res, rr_NumLive res)" and raw: "rr_Timeline res = tl_raw tim"
    by (rule room_data_timeline [OF assms(8,7)])
  obtain events k lim filtered where page: "room_page d req (Some b) = Inr (events, k, lim)"
    and vis: "qs_visible d (rdr_RoomID req) (rdr_UserID req) events (room_membership req \<noteq> ''join'') (rdr_NowMS req) {} = Inr filtered"
    and lim: "rr_Limited res = Some lim" and pb: "rr_PrevBatch res = Some (Token_String (WithRoomKey (rdr_To req) k))"
    and all: "list_all2 (rendered d req) (rs_Events filtered) (tl_raw tim)"
    by (rule timeline_cases [OF built assms(4,6)]) simp
  from page have "PaginateBackwardsStream (qs_pages d) (rdr_RoomID req) (sm_RoomVersion (rdr_Room req)) (rc_TimelineLimit (rdr_Config req)) (to_bound req) b = Inr (events, k, lim)"
    by (simp add: room_page_def Let_def)
  from stream_page [OF assms(1,2,4,5) this] obtain w1 w2 where w: "window hist (RoomKey_MaxStreamPos (to_bound req)) (RoomKey_MaxStreamPos b) = w1 @ w2"
    and ev: "events = ascending (scan_rows (rdr_RoomID req) (sm_RoomVersion (rdr_Room req)) w1)"
    and rest: "lim \<longrightarrow> window hist (RoomKey_MaxStreamPos k) (RoomKey_MaxStreamPos b) = w2" "\<not> lim \<longrightarrow> w2 = []" by blast
  have "rs_Events filtered = filter (lets (rdr_RoomID req) (rdr_UserID req) (room_membership req \<noteq> ''join'') (rdr_NowMS req)) events"
    using assms(3) vis unfolding visible_by_def by blast
  then show ?thesis using bounds_from_status [OF assms(7)] w ev rest lim pb all raw by (intro conjI exI [of _ w1] exI [of _ w2] exI [of _ k] exI [of _ lim]) simp_all
qed

section \<open>The state a room is sent from scratch\<close>

text \<open>The state of the room at the token, as the three reads of it answer.\<close>

definition answers_room_state :: "RoomStore \<Rightarrow> string \<Rightarrow> RoomKey \<Rightarrow> (state_key \<Rightarrow> string option) \<Rightarrow> bool" where
  "answers_room_state d room at_key S \<longleftrightarrow>
     (\<forall>m. qs_stateIDs d room at_key = Inr m \<longrightarrow> mwf m \<and> mget m = S) \<and>
     (\<forall>ks ts m. qs_stateWild d room at_key ks ts = Inr m \<longrightarrow> mwf m \<and> mget m = (\<lambda>k. if k \<in> set ks \<or> fst k \<in> set ts then S k else None))"

lemma ordered_keys_spec:
  assumes "mwf m"
  shows "sorted (ordered_keys p m)" and "distinct (ordered_keys p m)" and "set (ordered_keys p m) = {k. plan_wants p k \<and> mget m k \<noteq> None}"
proof -
  show "sorted (ordered_keys p m)" by (simp add: ordered_keys_def)
  show "distinct (ordered_keys p m)" using assms by (simp add: ordered_keys_def)
  show "set (ordered_keys p m) = {k. plan_wants p k \<and> mget m k \<noteq> None}" by (auto simp: ordered_keys_def map_of_eq_None_iff image_iff)
qed

lemma wants_fetched: "plan_wants p k \<Longrightarrow> pl_all p \<or> k \<in> set (pl_keys p) \<or> fst k \<in> set (pl_wildcardTypes p)"
  by (auto simp: plan_wants_def list_ex_iff split: if_split_asm)


lemma small_bounds: "room_bounds small_request = Inr (Some (Live 0), False, False)"
  by (simp add: room_bounds_def small_request_def wit_now_def HaveSentRoom_def NewRoomStatusMap_def configFor_def empty_state_def)

definition small_events :: "TimelineEvent list" where
  "small_events = map (\<lambda>(i, n). (wit_message i ''@s'')\<lparr>te_StreamOrdering := n\<rparr>) [(''$a'', 1), (''$b'', 2), (''$c'', 3)]"

lemma small_page: "room_page small_room small_request (Some (Live 0)) = Inr (small_events, Live 0, False)"
  by (simp add: room_page_def to_bound_def small_request_def small_room_def wit_now_def PaginateBackwardsStream_def wit_deps_def wit_history_def wit_row_def window_def
      wrap64_def trim_page_def scan_rows_def ascending_def small_events_def wit_message_def Let_def)

lemma blank_sel [simp]: "jl_Get blank_lib d p = None" "jl_Set blank_lib d p v = (d, None)" "jl_Delete blank_lib d p = (d, None)"
  by (simp_all add: blank_lib_def)

lemma blank_serialize:
  assumes "sd_RedactedBy ev = []" and "sd_InternalMetadata ev = None" and "cf_Format cfg = FormatV2NoRoomID" and "sd_Type ev \<noteq> ''m.room.redaction''"
    and "\<not> cf_IncludeAdminMetadata cfg" and "\<not> cf_MSC4354Enabled cfg" and "cf_EventFields cfg = []"
  shows "Serialize blank_lib ev now cfg = Inr (sd_JSON ev)"
  using assms by (simp add: Serialize_def then_do_def checked_def apply_age_def applyTransactionID_def apply_redacted_by_def applyFormat_def v2DropKeys_def Let_def)

lemma small_timeline: "\<exists>raw k. buildTimeline small_room small_request (Some (Live 0)) False = Inr (\<lparr>tl_raw = raw, tl_events = small_events\<rparr>, Some False, k, Some 3)"
proof -
  have r: "rdr_Config small_request = \<lparr>rc_TimelineLimit = 5, rc_RequiredState = [(''m.room.name'', {[]})]\<rparr>" "room_membership small_request = ''join''" "rdr_From small_request = Some (wit_now 0)"
    by (simp_all add: small_request_def)
  have q: "qs_json small_room = blank_lib" "qs_redactions small_room = (\<lambda>_. Inr [])" "qs_MSC4354Enabled small_room = False"
    "qs_visible small_room = (\<lambda>_ _ evs _ _ _. Inr \<lparr>rs_Events = evs, rs_Memberships = [], rs_Pruned = [], rs_AdminMetadata = False\<rparr>)"
    by (simp_all add: small_room_def)
  show ?thesis unfolding buildTimeline_def
    by (simp add: r q small_page then_do_def Redactions_def small_events_def render_event_def stored_of_def AttachRedaction_def blank_serialize wit_message_def
        EventConfigAdmin_def num_live_def wit_now_def Let_def)
qed

lemma small_runs: "\<exists>res new. GetRoomData small_room small_request = Inr (res, new)"
proof -
  obtain raw k where tim: "buildTimeline small_room small_request (Some (Live 0)) False = Inr (\<lparr>tl_raw = raw, tl_events = small_events\<rparr>, Some False, k, Some 3)"
    using small_timeline by blast
  have r: "room_membership small_request = ''join''" "rdr_NewlyLeft small_request = False" "configFor (rdr_Previous small_request) (rdr_RoomID small_request) = None"
    by (simp_all add: small_request_def configFor_def empty_state_def)
  let ?res = "(new_result (rdr_IsDM small_request))\<lparr>rr_Initial := False, rr_Timeline := raw, rr_Limited := Some False, rr_PrevBatch := k, rr_NumLive := Some 3,
    rr_UnstableExpandedTimeline := False, rr_StrippedState := []\<rparr>"
  let ?tim = "\<lparr>tl_raw = raw, tl_events = small_events\<rparr>"
  let ?stamp = "case last_bump small_events of None \<Rightarrow> None | Some s \<Rightarrow> if s < 0 then Some 0 else Some s"
  have stripped: "stripped_state small_room small_request = Inr []" by (simp add: stripped_state_def r)
  have deltas: "room_deltas small_room small_request (Some (Live 0)) False = Inr []" by (simp add: room_deltas_def r CurrentStateDeltas_def small_room_def then_do_def)
  have metadata: "applyRoomMetadata small_room small_request False False False False ?res = Inr ?res"
    by (simp add: applyRoomMetadata_def apply_summary_def apply_counts_def then_do_def Let_def)
  have bump: "applyBumpStamp small_room small_request ?tim False (Some False) ?res = Inr (?res\<lparr>rr_BumpStamp := ?stamp\<rparr>)"
    by (simp add: applyBumpStamp_def bumpStamp_def r then_do_def split: option.split)
  have "\<exists>n. resolve_required_state small_room small_request ?tim [] False False (?res\<lparr>rr_BumpStamp := ?stamp\<rparr>) empty_state = Inr (?res\<lparr>rr_BumpStamp := ?stamp\<rparr>, n)"
    by (simp add: resolve_required_state_def updated_state_def hero_keys_def serialiseState_def fillHeroProfiles_def r then_do_def Let_def new_result_def)
  then obtain n where "resolve_required_state small_room small_request ?tim [] False False (?res\<lparr>rr_BumpStamp := ?stamp\<rparr>) empty_state = Inr (?res\<lparr>rr_BumpStamp := ?stamp\<rparr>, n)" ..
  then have "GetRoomData small_room small_request = Inr (?res\<lparr>rr_BumpStamp := ?stamp\<rparr>, n)"
    unfolding GetRoomData_def small_bounds with_store_def sum.case prod.case tim stripped deltas Let_def list.pred_inject(1) list_ex_iff
    by (simp add: metadata bump)
  then show ?thesis by blast
qed

lemma distinct_set_one: "distinct xs \<Longrightarrow> set xs = {x} \<Longrightarrow> xs = [x]"
  by (cases xs) (auto simp: subset_singleton_iff)

theorem room_timeline_catches_up_witness:
  "\<exists>res new. GetRoomData small_room small_request = Inr (res, new) \<and> length (rr_Timeline res) = 3"
proof -
  obtain res new where run: "GetRoomData small_room small_request = Inr (res, new)" using small_runs by blast
  have hist: "newest_first wit_history" by (simp add: newest_first_def wit_history_def int64_def)
  have rows: "answers_stream (qs_pages small_room) (rdr_RoomID small_request) wit_history" by (simp add: answers_stream_def wit_deps_def small_room_def)
  have vis: "visible_by small_room (\<lambda>_ _ _ _ _. True)" by (auto simp: visible_by_def small_room_def)
  have lim: "0 < rc_TimelineLimit (rdr_Config small_request)" "int64 (rc_TimelineLimit (rdr_Config small_request) * 2)" "\<not> invited_or_knocking small_request"
    by (simp_all add: small_request_def int64_def)
  obtain w1 w2 k further where w: "window wit_history (RoomKey_MaxStreamPos (to_bound small_request)) (RoomKey_MaxStreamPos (Live 0)) = w1 @ w2"
    and all: "list_all2 (rendered small_room small_request) (ascending (scan_rows (rdr_RoomID small_request) (sm_RoomVersion (rdr_Room small_request)) w1)) (rr_Timeline res)"
    and rest: "if further then window wit_history (RoomKey_MaxStreamPos k) (RoomKey_MaxStreamPos (Live 0)) = w2 else w2 = []" "rr_Limited res = Some further"
    using room_timeline_catches_up [OF hist rows vis lim small_bounds run] by auto
  obtain raw pb where "buildTimeline small_room small_request (Some (Live 0)) False = Inr (\<lparr>tl_raw = raw, tl_events = small_events\<rparr>, Some False, pb, Some 3)"
    using small_timeline by blast
  with room_data_timeline [OF run small_bounds] have "rr_Limited res = Some False" by (metis Inr_inject Pair_inject)
  with rest w have "w1 = wit_history" by (simp add: to_bound_def small_request_def wit_now_def window_def wit_history_def)
  with all have "length (rr_Timeline res) = 3" by (auto simp: ascending_def scan_rows_def wit_history_def wit_row_def wit_message_def dest: list_all2_lengthD)
  with run show ?thesis by blast
qed


end
