(* ===== verification/Device_Inbox.thy ===== *)
theory Device_Inbox
  imports Lru Sliding_Request Sliding_Queries
begin

text \<open>
  Messages to devices: \<^verbatim>\<open>internal/deviceinbox/deviceinbox.go\<close>, \<^verbatim>\<open>internal/store/todevice.go\<close>, \<^verbatim>\<open>internal/handlers/todevice.go\<close>
  and the \<^verbatim>\<open>to_device\<close> extension of \<^verbatim>\<open>internal/slidingsync/extensions.go\<close>. The table \<^verbatim>\<open>device_inbox\<close> is part of the state, since
  the worker deletes from it; \<open>up n\<close> says whether the \<open>n\<close>th statement of a call succeeds.

  A message is deleted once the client's token says that it has been received. The locale \<open>acked_inbox\<close> is what a client relies on, and
  shows that following the tokens gives every message once, in order, whatever fails or gets lost; both endpoints are instances.
\<close>

section \<open>Deleting\<close>

record inbox_row =
  ib_user_id :: string
  ib_device_id :: string
  ib_stream_id :: int
  ib_message_json :: string

definition deleteBatch :: nat where "deleteBatch = 1000"

record Deleter =
  dl_inbox :: "inbox_row list"
  dl_lastDeleted :: "(string \<times> string, int) cache option"

definition in_window :: "string \<Rightarrow> string \<Rightarrow> int \<Rightarrow> int \<Rightarrow> inbox_row \<Rightarrow> bool" where
  "in_window userID deviceID frm upTo r \<longleftrightarrow> ib_user_id r = userID \<and> ib_device_id r = deviceID \<and> frm < ib_stream_id r \<and> ib_stream_id r \<le> upTo"

text \<open>The remaining rows, and the position to go on from (0 for none) with the number of rows deleted.\<close>

definition deleteBetween :: "(nat \<Rightarrow> bool) \<Rightarrow> nat \<Rightarrow> inbox_row list \<Rightarrow> string \<Rightarrow> string \<Rightarrow> int \<Rightarrow> int \<Rightarrow> inbox_row list \<times> (string + int \<times> nat)" where
  "deleteBetween up n rows userID deviceID frm upTo =
     (if \<not> up n then (rows, Inl ''deviceinbox: find batch'')
      else
        let batch = take deleteBatch (sort (map ib_stream_id (filter (in_window userID deviceID frm upTo) rows)))
        in if batch = [] then (rows, Inr (0, 0))
           else
             let maxStreamID = last batch
             in if \<not> up (Suc n) then (rows, Inl ''deviceinbox: delete'')
                else
                  let gone = length (filter (in_window userID deviceID frm maxStreamID) rows)
                  in (filter (\<lambda>r. \<not> in_window userID deviceID frm maxStreamID r) rows, Inr (if gone < deleteBatch then 0 else maxStreamID, gone)))"

lemma deleteBetween_less:
  "deleteBetween up n rows userID deviceID frm upTo = (rows', Inr (nxt, k)) \<Longrightarrow> nxt \<noteq> 0 \<Longrightarrow> length rows' < length rows"
proof -
  assume *: "deleteBetween up n rows userID deviceID frm upTo = (rows', Inr (nxt, k))" "nxt \<noteq> 0"
  then obtain m where rows': "rows' = filter (\<lambda>r. \<not> in_window userID deviceID frm m r) rows" and "\<not> length (filter (in_window userID deviceID frm m) rows) < deleteBatch"
    by (auto simp: deleteBetween_def Let_def split: if_split_asm)
  with sum_length_filter_compl [of "in_window userID deviceID frm m" rows] show "length rows' < length rows" by (simp add: deleteBatch_def)
qed

function delete_loop :: "(nat \<Rightarrow> bool) \<Rightarrow> nat \<Rightarrow> inbox_row list \<Rightarrow> string \<Rightarrow> string \<Rightarrow> int \<Rightarrow> int \<Rightarrow> nat \<Rightarrow> inbox_row list \<times> nat \<times> string option" where
  "delete_loop up n rows userID deviceID frm upTo count =
     (case deleteBetween up n rows userID deviceID frm upTo of
        (rows', Inl e) \<Rightarrow> (rows', count, Some e)
      | (rows', Inr (nxt, deleted)) \<Rightarrow>
          if nxt = 0 then (rows', count + deleted, None)
          else delete_loop up (Suc (Suc n)) rows' userID deviceID nxt upTo (count + deleted))"
  by pat_completeness auto
termination
  by (relation "measure (\<lambda>(up, n, rows, u, d, f, t, c). length rows)") (auto dest: deleteBetween_less [OF sym])

declare delete_loop.simps [simp del]

definition DeleteUpTo :: "(nat \<Rightarrow> bool) \<Rightarrow> Deleter \<Rightarrow> string \<Rightarrow> string \<Rightarrow> int \<Rightarrow> Deleter \<times> nat \<times> string option" where
  "DeleteUpTo up dl userID deviceID upTo =
     (if userID = [] \<or> deviceID = [] \<or> upTo \<le> 0 then (dl, 0, None)
      else
        let k = (userID, deviceID)
        in case lru_Get (dl_lastDeleted dl) k of (cache, found) \<Rightarrow>
             if (case found of None \<Rightarrow> False | Some pos \<Rightarrow> pos \<ge> upTo) then (dl\<lparr>dl_lastDeleted := cache\<rparr>, 0, None)
             else
               (case delete_loop up 0 (dl_inbox dl) userID deviceID 0 upTo 0 of
                  (rows, count, Some e) \<Rightarrow> (\<lparr>dl_inbox = rows, dl_lastDeleted = cache\<rparr>, count, Some e)
                | (rows, count, None) \<Rightarrow>
                    (case lru_Get cache k of (cache, found) \<Rightarrow>
                       (\<lparr>dl_inbox = rows, dl_lastDeleted = (if (case found of None \<Rightarrow> True | Some pos \<Rightarrow> upTo > pos) then lru_Add cache k upTo else cache)\<rparr>, count, None))))"

section \<open>Serving\<close>

definition MessagesForDevice :: "bool \<Rightarrow> inbox_row list \<Rightarrow> string \<Rightarrow> string \<Rightarrow> int \<Rightarrow> int \<Rightarrow> int \<Rightarrow> string + string list \<times> int" where
  "MessagesForDevice up rows userID deviceID frm upTo limit =
     (if deviceID = [] \<or> frm \<ge> upTo \<or> limit \<le> 0 then Inr ([], upTo)
      else if \<not> up then Inl ''store: to-device messages''
      else
        let found = take (nat limit) (sort_key ib_stream_id (filter (in_window userID deviceID frm upTo) rows))
        in Inr (map ib_message_json found, if int (length found) = limit then ib_stream_id (last found) else upTo))"

definition ToDeviceLimit :: int where "ToDeviceLimit = 100"

text \<open>\<^verbatim>\<open>/sync\<close>: the messages, and the position of the token. \<open>inbox\<close> is whether a deleting role is configured.\<close>

definition toDeviceEvents :: "bool \<Rightarrow> bool \<Rightarrow> inbox_row list \<Rightarrow> string \<Rightarrow> string \<Rightarrow> int \<Rightarrow> int \<Rightarrow> string + string list \<times> int" where
  "toDeviceEvents up inbox rows userID deviceID frm now =
     (if \<not> inbox \<or> deviceID = [] \<or> frm = now then Inr ([], now) else MessagesForDevice up rows userID deviceID frm now ToDeviceLimit)"

definition deleteAcknowledgedToDevice :: "(nat \<Rightarrow> bool) \<Rightarrow> bool \<Rightarrow> Deleter \<Rightarrow> string \<Rightarrow> string \<Rightarrow> int \<Rightarrow> Deleter" where
  "deleteAcknowledgedToDevice up inbox dl userID deviceID since =
     (if \<not> inbox \<or> deviceID = [] then dl else fst (DeleteUpTo up dl userID deviceID since))"

text \<open>Sliding sync.\<close>

record toDeviceJSON =
  tj_NextBatch :: string
  tj_Events :: "string list"

definition toDeviceExtension :: "(nat \<Rightarrow> bool) \<Rightarrow> bool \<Rightarrow> bool \<Rightarrow> Deleter \<Rightarrow> string \<Rightarrow> string \<Rightarrow> int \<Rightarrow> ToDeviceExtension \<Rightarrow> Deleter \<times> (string + toDeviceJSON)" where
  "toDeviceExtension up readUp inbox dl userID deviceID now req =
     (if deviceID = [] \<or> \<not> inbox then (dl, Inr \<lparr>tj_NextBatch = FormatInt now, tj_Events = []\<rparr>)
      else
        let limit = (if td_Limit req \<le> 0 \<or> td_Limit req > 100 then 100 else td_Limit req);
            serve = (\<lambda>dl since.
              (dl, map_sum id (\<lambda>(messages, nxt). \<lparr>tj_NextBatch = FormatInt nxt, tj_Events = messages\<rparr>)
                (MessagesForDevice readUp (dl_inbox dl) userID deviceID since now limit)))
        in if td_Since req = [] then serve dl 0
           else
             (case ParseInt (td_Since req) of
                None \<Rightarrow> (dl, Inl ''strconv.ParseInt'')
              | Some since \<Rightarrow>
                  if now < since then (dl, Inr \<lparr>tj_NextBatch = td_Since req, tj_Events = []\<rparr>)
                  else
                    (case DeleteUpTo up dl userID deviceID since of
                       (dl, _, Some e) \<Rightarrow> (dl, Inl e)
                     | (dl, _, None) \<Rightarrow> serve dl since)))"

definition toDeviceIsNews :: "toDeviceJSON \<Rightarrow> bool" where
  "toDeviceIsNews v \<longleftrightarrow> tj_Events v \<noteq> []"

section \<open>What is deleted\<close>

abbreviation kept :: "string \<Rightarrow> string \<Rightarrow> int \<Rightarrow> int \<Rightarrow> inbox_row list \<Rightarrow> inbox_row list" where
  "kept u d a b \<equiv> filter (\<lambda>r. \<not> in_window u d a b r)"

lemma kept_kept: "a \<le> m \<Longrightarrow> m \<le> b \<Longrightarrow> kept u d m b (kept u d a m rows) = kept u d a b rows"
  by (auto simp: in_window_def intro!: filter_cong)

lemma sorted_le_last: "sorted xs \<Longrightarrow> x \<in> set xs \<Longrightarrow> x \<le> last (xs :: int list)"
  by (induction xs) auto

lemma deleteBetween_spec:
  assumes "deleteBetween up n rows u d frm upTo = (rows', Inr (nxt, k))" and "0 \<le> frm" and that: "frm \<le> upTo"
  shows "\<exists>m. frm \<le> m \<and> m \<le> upTo \<and> rows' = kept u d frm m rows \<and> (if nxt = 0 then kept u d frm m rows = kept u d frm upTo rows else nxt = m)"
proof (cases "map ib_stream_id (filter (in_window u d frm upTo) rows) = []")
  case True
  then have "kept u d frm upTo rows = rows" "rows' = rows" "nxt = 0" using assms
    by (auto simp: filter_empty_conv deleteBetween_def split: if_split_asm)
  with that show ?thesis by auto
next
  case False
  define ids where "ids = sort (map ib_stream_id (filter (in_window u d frm upTo) rows))"
  define m where "m = last (take deleteBatch ids)"
  have ids: "ids \<noteq> []" using False unfolding ids_def by (metis length_0_conv length_sort)
  from assms(1) have rows': "rows' = kept u d frm m rows" and nxt: "nxt = (if length (filter (in_window u d frm m) rows) < deleteBatch then 0 else m)"
    using ids by (auto simp: deleteBetween_def Let_def ids_def [symmetric] m_def deleteBatch_def split: if_split_asm)
  have "m \<in> set (take deleteBatch ids)" unfolding m_def using ids by (intro last_in_set) (simp add: deleteBatch_def)
  then have "m \<in> set ids" by (rule in_set_takeD)
  then have m: "frm < m" "m \<le> upTo" by (auto simp: ids_def in_window_def)
  have "kept u d frm m rows = kept u d frm upTo rows" if z: "nxt = 0"
  proof -
    have small: "length (filter (in_window u d frm m) rows) < deleteBatch" using z nxt m(1) assms(2) by (simp split: if_split_asm)
    have le: "\<forall>i \<in> set (take deleteBatch ids). i \<le> m"
      unfolding m_def by (intro ballI sorted_le_last) (simp_all add: ids_def sorted_wrt_take)
    have "length (take deleteBatch ids) \<le> length (filter (\<lambda>i. i \<le> m) ids)"
      using le by (metis append_take_drop_id filter_True filter_append length_append le_add1)
    also have "\<dots> = length (filter (\<lambda>i. i \<le> m) (map ib_stream_id (filter (in_window u d frm upTo) rows)))"
      unfolding ids_def by (metis length_sort filter_sort)
    also have "\<dots> = length (filter (in_window u d frm m) rows)"
      using m by (simp add: filter_map o_def) (metis (no_types, lifting) filter_filter filter_cong in_window_def order_trans)
    finally have "length ids < deleteBatch" using small by (simp add: deleteBatch_def split: if_split_asm)
    then have all: "\<forall>i \<in> set ids. i \<le> m" using le by simp
    show ?thesis using all m by (intro filter_cong refl) (auto simp: ids_def in_window_def)
  qed
  with rows' nxt m show ?thesis by (intro exI [of _ m]) (auto split: if_split_asm)
qed

lemma delete_loop_spec:
  assumes "delete_loop up n rows u d frm upTo c = (rows', c', err)" and "0 \<le> frm" and "frm \<le> upTo"
  shows "\<exists>m. frm \<le> m \<and> m \<le> upTo \<and> rows' = kept u d frm m rows \<and> (err = None \<longrightarrow> rows' = kept u d frm upTo rows)"
  using assms
proof (induction up n rows u d frm upTo c rule: delete_loop.induct)
  case (1 up n rows u d frm upTo c)
  obtain rows1 r where b: "deleteBetween up n rows u d frm upTo = (rows1, r)" by fastforce
  show ?case
  proof (cases r)
    case (Inl e)
    with b have "rows1 = rows" by (auto simp: deleteBetween_def Let_def split: if_split_asm)
    with Inl b "1.prems" have "rows' = rows" "err = Some e" by (auto simp: delete_loop.simps)
    moreover have "kept u d frm frm rows = rows" by (auto simp: in_window_def)
    ultimately show ?thesis using "1.prems"(3) by auto
  next
    case (Inr r')
    then obtain nxt k where r: "r = Inr (nxt, k)" by (cases r') auto
    obtain m where m: "frm \<le> m" "m \<le> upTo" "rows1 = kept u d frm m rows" "if nxt = 0 then kept u d frm m rows = kept u d frm upTo rows else nxt = m"
      using deleteBetween_spec [OF b [unfolded r] "1.prems"(2,3)] by blast
    show ?thesis
    proof (cases "nxt = 0")
      case True
      with b r "1.prems"(1) have "rows' = rows1" "err = None" by (auto simp: delete_loop.simps)
      with m True show ?thesis by auto
    next
      case False
      with m have nxt: "nxt = m" by simp
      from False b r "1.prems"(1) have rest: "delete_loop up (Suc (Suc n)) rows1 u d nxt upTo (c + k) = (rows', c', err)" by (simp add: delete_loop.simps [of up n])
      from "1.IH" [OF b [symmetric] r refl False rest] m(1,2) nxt "1.prems"(2) obtain m' where m': "m \<le> m'" "m' \<le> upTo" "rows' = kept u d m m' rows1"
        "err = None \<longrightarrow> rows' = kept u d m upTo rows1" by auto
      then show ?thesis unfolding m(3) using kept_kept [OF m(1) m'(1)] kept_kept [OF m(1,2)] m(1) by (intro exI [of _ m']) auto
    qed
  qed
qed

text \<open>A position in the cache is one below which nothing is left.\<close>

definition cleared :: "Deleter \<Rightarrow> bool" where
  "cleared dl \<longleftrightarrow> lru_ok (dl_lastDeleted dl) \<and>
     (\<forall>u d p. lru_lookup (dl_lastDeleted dl) (u, d) = Some p \<longrightarrow> filter (in_window u d 0 p) (dl_inbox dl) = [])"

lemma lookup_after_get:
  assumes "lru_ok p" and "lru_Get p k = (p', v)"
  shows "lru_ok p'" and "v = lru_lookup p k" and "lru_lookup p' k' = Some x \<Longrightarrow> lru_lookup p k' = Some x"
proof -
  have p': "p' = lru_step (OpGet k) p" using assms(2) by simp
  show "lru_ok p'" unfolding p' by (rule lru.inv_step [OF assms(1)])
  show "v = lru_lookup p k" using assms(2) by (simp add: lru_lookup_def)
  show "lru_lookup p k' = Some x" if "lru_lookup p' k' = Some x" using lru.lookup_step [OF assms(1), of "OpGet k" k' x] that p' by simp
qed

lemma delete_up_to_cases:
  assumes "cleared dl" and "u \<noteq> []" and "d \<noteq> []" and "0 < upTo" and "DeleteUpTo up dl u d upTo = (dl', c, err)"
  shows "cleared dl'" and "\<exists>m. 0 \<le> m \<and> m \<le> upTo \<and> dl_inbox dl' = kept u d 0 m (dl_inbox dl) \<and> (err = None \<longrightarrow> dl_inbox dl' = kept u d 0 upTo (dl_inbox dl))"
proof -
  let ?rows = "dl_inbox dl"
  obtain cache found where get: "lru_Get (dl_lastDeleted dl) (u, d) = (cache, found)" by force
  note ok = assms(1) [unfolded cleared_def]
  note g = lookup_after_get [OF ok [THEN conjunct1] get]
  have fewer: "filter (in_window u' d' 0 p) (kept u d 0 m ?rows) = []" if "lru_lookup cache (u', d') = Some p" for u' d' p m
    using ok g(3) [OF that] by (auto simp: filter_empty_conv)
  show "cleared dl'" "\<exists>m. 0 \<le> m \<and> m \<le> upTo \<and> dl_inbox dl' = kept u d 0 m ?rows \<and> (err = None \<longrightarrow> dl_inbox dl' = kept u d 0 upTo ?rows)"
  proof (atomize (full), cases "case found of None \<Rightarrow> False | Some pos \<Rightarrow> pos \<ge> upTo")
    case True
    then obtain pos where pos: "found = Some pos" "upTo \<le> pos" by (cases found) auto
    with assms(2-5) get True have dl': "dl' = dl\<lparr>dl_lastDeleted := cache\<rparr>" by (simp add: DeleteUpTo_def)
    have "filter (in_window u d 0 pos) ?rows = []" using ok g(2) pos(1) by simp
    then have none: "kept u d 0 upTo ?rows = ?rows" "kept u d 0 0 ?rows = ?rows" using pos(2) by (auto simp: filter_empty_conv in_window_def intro!: filter_True)
    have "cleared dl'" using ok g by (auto simp: cleared_def dl')
    with none dl' assms(4) show "cleared dl' \<and> (\<exists>m. 0 \<le> m \<and> m \<le> upTo \<and> dl_inbox dl' = kept u d 0 m ?rows \<and> (err = None \<longrightarrow> dl_inbox dl' = kept u d 0 upTo ?rows))"
      by (auto intro!: exI [of _ 0])
  next
    case False
    obtain rows' c' err' where loop: "delete_loop up 0 ?rows u d 0 upTo 0 = (rows', c', err')" by (metis prod_cases3)
    obtain m where m: "0 \<le> m" "m \<le> upTo" "rows' = kept u d 0 m ?rows" "err' = None \<longrightarrow> rows' = kept u d 0 upTo ?rows"
      using delete_loop_spec [OF loop] assms(4) by auto
    show "cleared dl' \<and> (\<exists>m. 0 \<le> m \<and> m \<le> upTo \<and> dl_inbox dl' = kept u d 0 m ?rows \<and> (err = None \<longrightarrow> dl_inbox dl' = kept u d 0 upTo ?rows))"
    proof (cases err')
      case (Some e)
      with assms(2-5) get False loop have dl': "dl' = \<lparr>dl_inbox = rows', dl_lastDeleted = cache\<rparr>" "err = err'"
        by (auto simp: DeleteUpTo_def Let_def split: option.splits)
      have "cleared dl'" using g(1) fewer m(3) by (simp add: cleared_def dl')
      with m dl' show ?thesis by auto
    next
      case None
      obtain cache2 found2 where get2: "lru_Get cache (u, d) = (cache2, found2)" by force
      note g2 = lookup_after_get [OF g(1) get2]
      define put where "put \<longleftrightarrow> (case found2 of None \<Rightarrow> True | Some pos \<Rightarrow> upTo > pos)"
      have dl': "dl' = \<lparr>dl_inbox = rows', dl_lastDeleted = (if put then lru_Add cache2 (u, d) upTo else cache2)\<rparr>" "err = None"
        using assms(2-5) get False loop None get2 unfolding put_def by (auto simp: DeleteUpTo_def Let_def split: option.splits)
      have rows': "rows' = kept u d 0 upTo ?rows" using m(4) None by simp
      have ok2: "lru_ok (dl_lastDeleted dl')" using lru.inv_step [OF g2(1), of "OpAdd (u, d) upTo"] g2(1) dl' by simp
      have "filter (in_window u' d' 0 p) rows' = []" if looked: "lru_lookup (dl_lastDeleted dl') (u', d') = Some p" for u' d' p
      proof (cases "(u', d') = (u, d) \<and> p = upTo")
        case True
        then show ?thesis unfolding rows' by (simp add: filter_empty_conv)
      next
        case False
        then have "lru_lookup cache (u', d') = Some p"
          using lru.lookup_step [OF g2(1), of "OpAdd (u, d) upTo" "(u', d')" p] looked g2(3) dl' by (auto split: if_split_asm)
        then show ?thesis unfolding rows' by (rule fewer)
      qed
      with ok2 have "cleared dl'" using dl' by (simp add: cleared_def)
      with m dl' rows' show ?thesis by auto
    qed
  qed
qed

text \<open>
  C36. Only what is acknowledged is deleted, and all of it. \<^verbatim>\<open>DeleteUpTo\<close> takes the messages of the device up to the position out of
  the inbox and touches nothing else, whether it skips the deletion because of its cache, goes through it in batches,
  or stops half-way because the database fails; and the cache never claims a position below which something is left.
\<close>

theorem delete_up_to_exact:
  assumes "cleared dl" and "userID \<noteq> []" and "deviceID \<noteq> []" and "0 < upTo" and "DeleteUpTo up dl userID deviceID upTo = (dl', n, err)"
  shows "cleared dl' \<and> set (dl_inbox dl') \<subseteq> set (dl_inbox dl) \<and>
    (\<forall>r. \<not> in_window userID deviceID 0 upTo r \<longrightarrow> (r \<in> set (dl_inbox dl') \<longleftrightarrow> r \<in> set (dl_inbox dl))) \<and>
    (err = None \<longrightarrow> (\<forall>r \<in> set (dl_inbox dl'). \<not> in_window userID deviceID 0 upTo r))"
proof -
  from delete_up_to_cases(2) [OF assms] obtain m where "m \<le> upTo" "dl_inbox dl' = kept userID deviceID 0 m (dl_inbox dl)"
    "err = None \<longrightarrow> dl_inbox dl' = kept userID deviceID 0 upTo (dl_inbox dl)" by blast
  with delete_up_to_cases(1) [OF assms] show ?thesis by (auto simp: in_window_def)
qed

section \<open>Following the tokens\<close>

text \<open>
  A client that asks again and again. Each round brings the messages that have arrived, the position the response is bounded by, what
  goes wrong on the way (\<open>'f\<close>), and whether the response reaches the client; one that does not get a response repeats its token.
\<close>

fun client_run ::
  "('f \<Rightarrow> 's \<Rightarrow> int \<Rightarrow> int \<Rightarrow> 's \<times> (string list \<times> int) option) \<Rightarrow> ((int \<times> string) list \<Rightarrow> 's \<Rightarrow> 's) \<Rightarrow> ((int \<times> string) list \<times> int \<times> 'f \<times> bool) list \<Rightarrow> 's \<Rightarrow> int \<Rightarrow>
   's \<times> string list \<times> int" where
  "client_run poll arrive [] s since = (s, [], since)"
| "client_run poll arrive ((new, now, f, received) # rounds) s since =
     (case poll f (arrive new s) since now of
        (s', None) \<Rightarrow> client_run poll arrive rounds s' since
      | (s', Some (ms, nxt)) \<Rightarrow>
          if received then (case client_run poll arrive rounds s' nxt of (s'', ms', since') \<Rightarrow> (s'', ms @ ms', since'))
          else client_run poll arrive rounds s' since)"

text \<open>The stream grows: what arrives is newer than everything before and than every position already given out.\<close>

fun growing :: "int \<Rightarrow> int \<Rightarrow> ((int \<times> string) list \<times> int \<times> 'f \<times> bool) list \<Rightarrow> bool" where
  "growing high before [] \<longleftrightarrow> True"
| "growing high before ((new, now, f, received) # rounds) \<longleftrightarrow>
     sorted_wrt (<) (map fst new) \<and> list_all (\<lambda>x. high < fst x) new \<and> before \<le> now \<and> int64 now \<and> growing (fold max (map fst new) (max high now)) now rounds"

abbreviation between :: "int \<Rightarrow> int \<Rightarrow> (int \<times> 'm) list \<Rightarrow> (int \<times> 'm) list" where
  "between a b \<equiv> filter (\<lambda>x. a < fst x \<and> fst x \<le> b)"

lemma between_split:
  assumes "sorted_wrt (<) (map fst xs)" and "a \<le> b" and "b \<le> c"
  shows "between a b xs @ between b c xs = between a c xs"
  using assms
proof (induction xs)
  case (Cons x xs)
  have "between a b xs = []" if "b < fst x" using Cons.prems that by (fastforce simp: filter_empty_conv)
  with Cons show ?case by auto
qed simp

lemma fold_max_start: "t \<le> fold max xs (t :: int)"
  by (induction xs arbitrary: t) (auto intro: order_trans [OF max.cobounded2])

lemma fold_max_ge: "x \<in> set xs \<Longrightarrow> x \<le> fold max xs (t :: int)"
  by (induction xs arbitrary: t) (auto intro: order_trans [OF max.cobounded1 fold_max_start])

lemma growing_above: "growing high before rounds \<Longrightarrow> x \<in> set (concat (map fst rounds)) \<Longrightarrow> high < fst x"
proof (induction rounds arbitrary: high before)
  case (Cons r rounds)
  obtain new now f received where r: "r = (new, now, f, received)" by (cases r) auto
  show ?case
  proof (cases "x \<in> set new")
    case False
    then have "fold max (map fst new) (max high now) < fst x" using Cons r by auto
    then show ?thesis using fold_max_start [of "max high now" "map fst new"] by simp
  qed (use Cons.prems r in \<open>auto simp: list_all_iff\<close>)
qed simp

lemma growing_sorted: "growing high before rounds \<Longrightarrow> sorted_wrt (<) (map fst (concat (map fst rounds)))"
proof (induction rounds arbitrary: high before)
  case (Cons r rounds)
  obtain new now f received where r: "r = (new, now, f, received)" by (cases r) auto
  from Cons.prems r have g: "growing (fold max (map fst new) (max high now)) now rounds" by simp
  have "fst x < fst y" if "x \<in> set new" "y \<in> set (concat (map fst rounds))" for x y
    using fold_max_ge [of "fst x" "map fst new" "max high now"] growing_above [OF g that(2)] that(1) by force
  then have "\<forall>x \<in> set (map fst new). \<forall>y \<in> set (map fst (concat (map fst rounds))). x < y" unfolding set_map by blast
  then show ?case using Cons.IH [OF g] Cons.prems r by (simp add: sorted_wrt_append)
qed simp

locale acked_inbox =
  fixes poll :: "'f \<Rightarrow> 's \<Rightarrow> int \<Rightarrow> int \<Rightarrow> 's \<times> (string list \<times> int) option"
    and arrive :: "(int \<times> string) list \<Rightarrow> 's \<Rightarrow> 's"
    and pending :: "'s \<Rightarrow> (int \<times> string) list"
    and acked :: "'s \<Rightarrow> int"
    and good :: "'s \<Rightarrow> bool"
  assumes pending_sorted: "good s \<Longrightarrow> sorted_wrt (<) (map fst (pending s))"
    and arrives: "good s \<Longrightarrow> sorted_wrt (<) (map fst new) \<Longrightarrow> (\<forall>y \<in> set new. acked s < fst y \<and> (\<forall>x \<in> set (pending s). fst x < fst y)) \<Longrightarrow>
      good (arrive new s) \<and> pending (arrive new s) = pending s @ new \<and> acked (arrive new s) = acked s"
    and keeps: "good s \<Longrightarrow> 0 \<le> since \<Longrightarrow> int64 since \<Longrightarrow> poll f s since now = (s', r) \<Longrightarrow>
      good s' \<and> filter (\<lambda>x. since < fst x) (pending s') = filter (\<lambda>x. since < fst x) (pending s) \<and> set (pending s') \<subseteq> set (pending s) \<and> acked s' \<le> max (acked s) since"
    and gives: "good s \<Longrightarrow> 0 \<le> since \<Longrightarrow> since \<le> now \<Longrightarrow> int64 now \<Longrightarrow> poll f s since now = (s', Some (ms, nxt)) \<Longrightarrow>
      since \<le> nxt \<and> nxt \<le> now \<and> ms = map snd (between since nxt (pending s))"
begin

lemma run_exact:
  assumes "good s" and "0 \<le> since" and "since \<le> before" and "before \<le> high" and "acked s \<le> high" and "\<forall>x \<in> set (pending s). fst x \<le> high"
    and "growing high before rounds" and "client_run poll arrive rounds s since = (s', ms, since')"
  shows "since \<le> since' \<and> ms = map snd (between since since' (pending s @ concat (map fst rounds)))"
  using assms
proof (induction rounds arbitrary: s since before high ms)
  case Nil
  then show ?case by (auto simp: filter_empty_conv)
next
  case (Cons r rounds)
  obtain new now f received where r: "r = (new, now, f, received)" by (cases r) auto
  let ?rest = "concat (map fst rounds)" and ?high = "fold max (map fst new) (max high now)"
  have g: "growing ?high now rounds" and new: "sorted_wrt (<) (map fst new)" "\<forall>y \<in> set new. high < fst y" and now: "before \<le> now" "int64 now"
    using Cons.prems(7) r by (auto simp: list_all_iff)
  have high: "high \<le> ?high" "now \<le> ?high" "\<forall>y \<in> set new. fst y \<le> ?high" using fold_max_start [of "max high now" "map fst new"] fold_max_ge [of _ "map fst new" "max high now"] by auto
  have "\<forall>y \<in> set new. acked s < fst y \<and> (\<forall>x \<in> set (pending s). fst x < fst y)" using new(2) Cons.prems(5,6) by force
  from arrives [OF Cons.prems(1) new(1) this] have a: "good (arrive new s)" "pending (arrive new s) = pending s @ new" "acked (arrive new s) = acked s" by auto
  obtain s1 res where p: "poll f (arrive new s) since now = (s1, res)" by force
  have "int64 since" using Cons.prems(2,3) now by (auto simp: int64_def)
  note k = keeps [OF a(1) Cons.prems(2) this p]
  have old: "\<forall>x \<in> set (pending s). fst x \<le> ?high" using Cons.prems(6) high(1) by force
  have prems: "good s1" "acked s1 \<le> ?high" "\<forall>x \<in> set (pending s1). fst x \<le> ?high" using k a(2,3) Cons.prems(3-5) high old by auto
  have log: "sorted_wrt (<) (map fst ((pending s @ new) @ ?rest))"
  proof -
    have "fst x < fst y" if "x \<in> set (pending s @ new)" "y \<in> set ?rest" for x y
      using that(1) old high(3) growing_above [OF g that(2)] by (metis Un_iff order_le_less_trans set_append)
    then have "\<forall>x \<in> set (map fst (pending s @ new)). \<forall>y \<in> set (map fst ?rest). x < y" unfolding set_map by blast
    with pending_sorted [OF a(1)] growing_sorted [OF g] show ?thesis unfolding a(2) map_append [of fst "pending s @ new"] sorted_wrt_append by blast
  qed
  have later: "between b c (pending s1 @ ?rest) = between b c ((pending s @ new) @ ?rest)" if "since \<le> b" for b c
  proof -
    have above: "between b c xs = between b c (filter (\<lambda>x. since < fst x) xs)" for xs :: "(int \<times> string) list" using that by (auto intro!: filter_cong)
    have "between b c (pending s1) = between b c (pending s @ new)"
      unfolding above [of "pending s1"] above [of "pending s @ new"] using k a(2) by (simp only:)
    then show ?thesis by (simp only: filter_append)
  qed
  show ?case
  proof (cases "res = None \<or> \<not> received")
    case True
    then have "client_run poll arrive rounds s1 since = (s', ms, since')" using Cons.prems(8) p r by (cases res) auto
    from Cons.IH [OF prems(1) Cons.prems(2) order_trans [OF Cons.prems(3) now(1)] high(2) prems(2,3) g this] later [of since since'] show ?thesis by (simp add: r)
  next
    case False
    then obtain ms1 nxt ms2 where res: "res = Some (ms1, nxt)" and run: "client_run poll arrive rounds s1 nxt = (s', ms2, since')" and ms: "ms = ms1 @ ms2"
      using Cons.prems(8) p r by (auto split: prod.splits)
    from gives [OF a(1) Cons.prems(2) order_trans [OF Cons.prems(3) now(1)] now(2) p [unfolded res]] have nxt: "since \<le> nxt" "nxt \<le> now"
      and ms1: "ms1 = map snd (between since nxt (pending s @ new))" unfolding a(2) by auto
    from Cons.IH [OF prems(1) order_trans [OF Cons.prems(2) nxt(1)] nxt(2) high(2) prems(2,3) g run] later [OF nxt(1), of since']
    have since': "nxt \<le> since'" and ms2: "ms2 = map snd (between nxt since' ((pending s @ new) @ ?rest))" by simp_all
    have "between since nxt ?rest = []" using growing_above [OF g] high(2) nxt(2) by (fastforce simp: filter_empty_conv)
    then have "ms1 = map snd (between since nxt ((pending s @ new) @ ?rest))" unfolding ms1 by simp
    with between_split [OF log nxt(1) since'] ms ms2 since' nxt(1) show ?thesis by (simp add: r flip: map_append)
  qed
qed

end

section \<open>The two endpoints\<close>

abbreviation is_for :: "string \<Rightarrow> string \<Rightarrow> inbox_row \<Rightarrow> bool" where
  "is_for u d r \<equiv> ib_user_id r = u \<and> ib_device_id r = d"

definition pair_of :: "inbox_row \<Rightarrow> int \<times> string" where
  "pair_of r = (ib_stream_id r, ib_message_json r)"

definition pending_for :: "string \<Rightarrow> string \<Rightarrow> Deleter \<Rightarrow> (int \<times> string) list" where
  "pending_for u d dl = map pair_of (sort_key ib_stream_id (filter (is_for u d) (dl_inbox dl)))"

definition acked_for :: "string \<Rightarrow> string \<Rightarrow> Deleter \<Rightarrow> int" where
  "acked_for u d dl = (case lru_lookup (dl_lastDeleted dl) (u, d) of None \<Rightarrow> 0 | Some p \<Rightarrow> p)"

definition arrive_for :: "string \<Rightarrow> string \<Rightarrow> (int \<times> string) list \<Rightarrow> Deleter \<Rightarrow> Deleter" where
  "arrive_for u d new dl = dl\<lparr>dl_inbox := dl_inbox dl @ map (\<lambda>(i, m). \<lparr>ib_user_id = u, ib_device_id = d, ib_stream_id = i, ib_message_json = m\<rparr>) new\<rparr>"

definition inbox_good :: "string \<Rightarrow> string \<Rightarrow> Deleter \<Rightarrow> bool" where
  "inbox_good u d dl \<longleftrightarrow> u \<noteq> [] \<and> d \<noteq> [] \<and> cleared dl \<and> sorted_wrt (<) (map fst (pending_for u d dl))"

text \<open>One request of each endpoint, with the faults it meets and, for sliding sync, the limit asked for.\<close>

definition sync_poll :: "string \<Rightarrow> string \<Rightarrow> (nat \<Rightarrow> bool) \<times> bool \<Rightarrow> Deleter \<Rightarrow> int \<Rightarrow> int \<Rightarrow> Deleter \<times> (string list \<times> int) option" where
  "sync_poll u d f dl since now =
     (let dl' = deleteAcknowledgedToDevice (fst f) True dl u d since
      in (dl', case toDeviceEvents (snd f) True (dl_inbox dl') u d since now of Inl e \<Rightarrow> None | Inr r \<Rightarrow> Some r))"

definition sliding_poll :: "string \<Rightarrow> string \<Rightarrow> (nat \<Rightarrow> bool) \<times> bool \<times> int \<Rightarrow> Deleter \<Rightarrow> int \<Rightarrow> int \<Rightarrow> Deleter \<times> (string list \<times> int) option" where
  "sliding_poll u d f dl since now =
     (case toDeviceExtension (fst f) (fst (snd f)) True dl u d now \<lparr>td_Enabled = True, td_Limit = snd (snd f), td_Since = FormatInt since\<rparr> of
        (dl', Inl e) \<Rightarrow> (dl', None)
      | (dl', Inr v) \<Rightarrow> (dl', map_option (\<lambda>n. (tj_Events v, n)) (ParseInt (tj_NextBatch v))))"

lemma pending_between:
  "between a b (pending_for u d dl) = map pair_of (sort_key ib_stream_id (filter (in_window u d a b) (dl_inbox dl)))"
proof -
  have "filter (\<lambda>r. a < ib_stream_id r \<and> ib_stream_id r \<le> b) (filter (is_for u d) (dl_inbox dl)) = filter (in_window u d a b) (dl_inbox dl)"
    by (auto simp: in_window_def intro!: filter_cong)
  then show ?thesis by (simp add: pending_for_def filter_map o_def pair_of_def filter_sort)
qed

lemma pending_kept:
  assumes "0 \<le> m" and "m \<le> since" and "dl_inbox dl' = kept u d 0 m (dl_inbox dl)"
  shows "filter (\<lambda>x. since < fst x) (pending_for u d dl') = filter (\<lambda>x. since < fst x) (pending_for u d dl)"
    and "set (pending_for u d dl') \<subseteq> set (pending_for u d dl)"
    and "sorted_wrt (<) (map fst (pending_for u d dl)) \<Longrightarrow> sorted_wrt (<) (map fst (pending_for u d dl'))"
proof -
  have f: "filter (is_for u d) (kept u d 0 m rows) = filter (\<lambda>r. \<not> in_window u d 0 m r) (filter (is_for u d) rows)" for rows by (auto intro!: filter_cong)
  then have p: "pending_for u d dl' = map pair_of (filter (\<lambda>r. \<not> in_window u d 0 m r) (sort_key ib_stream_id (filter (is_for u d) (dl_inbox dl))))"
    by (simp only: pending_for_def assms(3) f filter_sort)
  show "filter (\<lambda>x. since < fst x) (pending_for u d dl') = filter (\<lambda>x. since < fst x) (pending_for u d dl)"
  proof -
    have "filter (\<lambda>r. since < ib_stream_id r) (filter (\<lambda>r. \<not> in_window u d 0 m r) xs) = filter (\<lambda>r. since < ib_stream_id r) xs" for xs
      using assms(2) by (auto simp: in_window_def intro!: filter_cong)
    then show ?thesis unfolding p unfolding pending_for_def by (simp only: filter_map o_def pair_of_def fst_conv)
  qed
  show "set (pending_for u d dl') \<subseteq> set (pending_for u d dl)" unfolding p unfolding pending_for_def by auto
  show "sorted_wrt (<) (map fst (pending_for u d dl'))" if "sorted_wrt (<) (map fst (pending_for u d dl))"
    using that unfolding p unfolding pending_for_def by (simp add: sorted_wrt_map sorted_wrt_filter)
qed

text \<open>A page of a strictly growing list: the elements up to its last one.\<close>

lemma take_up_to:
  assumes "sorted_wrt (<) (map k xs)" and "0 < n" and "n \<le> length xs"
  shows "take n xs = filter (\<lambda>x. k x \<le> (k (last (take n xs)) :: int)) xs"
proof -
  have ne: "take n xs \<noteq> []" using assms(2,3) by auto
  have "sorted_wrt (<) (map k (take n xs @ drop n xs))" using assms(1) by simp
  then have le: "k x < k y" if "x \<in> set (take n xs)" "y \<in> set (drop n xs)" for x y using that unfolding map_append sorted_wrt_append by auto
  have "k x \<le> k (last (take n xs))" if "x \<in> set (take n xs)" for x
  proof -
    have "sorted (map k (take n xs))" using assms(1) by (metis sorted_wrt_take strict_sorted_imp_sorted take_map)
    from sorted_le_last [OF this] that ne show ?thesis by (auto simp: last_map)
  qed
  moreover have "\<not> k y \<le> k (last (take n xs))" if "y \<in> set (drop n xs)" for y using le [OF last_in_set [OF ne] that] by simp
  ultimately have "filter (\<lambda>x. k x \<le> k (last (take n xs))) (take n xs) @ filter (\<lambda>x. k x \<le> k (last (take n xs))) (drop n xs) = take n xs"
    by (simp add: filter_empty_conv)
  then show ?thesis by (metis append_take_drop_id filter_append)
qed

lemma messages_between:
  assumes "MessagesForDevice up (dl_inbox dl) u d since now limit = Inr (ms, nxt)" and "d \<noteq> []" and "0 < limit" and "since \<le> now"
    and "sorted_wrt (<) (map fst (pending_for u d dl))"
  shows "since \<le> nxt \<and> nxt \<le> now \<and> ms = map snd (between since nxt (pending_for u d dl))"
proof (cases "since = now")
  case True
  with assms(1,2) show ?thesis by (auto simp: MessagesForDevice_def filter_empty_conv)
next
  case False
  define W where "W = sort_key ib_stream_id (filter (in_window u d since now) (dl_inbox dl))"
  have W: "between since now (pending_for u d dl) = map pair_of W" by (simp add: W_def pending_between)
  have sorted: "sorted_wrt (<) (map ib_stream_id W)"
    using sorted_wrt_filter [of "\<lambda>x y. fst x < fst y" "pending_for u d dl" "\<lambda>x. since < fst x \<and> fst x \<le> now"] assms(5) unfolding sorted_wrt_map W by (simp add: pair_of_def)
  have elems: "since < ib_stream_id r \<and> ib_stream_id r \<le> now" if "r \<in> set W" for r using that by (auto simp: W_def in_window_def)
  from assms(1) False assms(2-4) have ms: "ms = map ib_message_json (take (nat limit) W)"
    and nxt: "nxt = (if int (length (take (nat limit) W)) = limit then ib_stream_id (last (take (nat limit) W)) else now)"
    by (auto simp: MessagesForDevice_def W_def Let_def split: if_split_asm)
  have snd: "map snd (map pair_of xs) = map ib_message_json xs" for xs by (simp add: pair_of_def)
  show ?thesis
  proof (cases "nat limit \<le> length W")
    case True
    let ?T = "take (nat limit) W"
    have "?T \<noteq> []" using True assms(3) by auto
    from last_in_set [OF this] have last: "since < ib_stream_id (last ?T) \<and> ib_stream_id (last ?T) \<le> now" by (intro elems) (rule in_set_takeD)
    have n: "nxt = ib_stream_id (last ?T)" using True assms(3) by (simp add: nxt)
    have "between since nxt (pending_for u d dl) = filter (\<lambda>x. fst x \<le> nxt) (between since now (pending_for u d dl))" using n last by (auto intro!: filter_cong)
    also have "\<dots> = map pair_of (filter (\<lambda>r. ib_stream_id r \<le> nxt) W)" unfolding W by (simp add: filter_map o_def pair_of_def)
    also have "filter (\<lambda>r. ib_stream_id r \<le> nxt) W = ?T" unfolding n using take_up_to [OF sorted _ True] assms(3) by simp
    finally show ?thesis using ms n last snd by simp
  next
    case False
    then have "nxt = now" "take (nat limit) W = W" using nxt by auto
    then show ?thesis using ms W snd assms(4) by simp
  qed
qed

lemma delete_up_to_cache:
  assumes "lru_ok (dl_lastDeleted dl)" and "DeleteUpTo up dl u d upTo = (dl', n, err)" and "lru_lookup (dl_lastDeleted dl') k = Some p"
  shows "p = upTo \<or> lru_lookup (dl_lastDeleted dl) k = Some p"
proof -
  obtain c1 f1 where g1: "lru_Get (dl_lastDeleted dl) (u, d) = (c1, f1)" by force
  obtain c2 f2 where g2: "lru_Get c1 (u, d) = (c2, f2)" by force
  note l1 = lookup_after_get [OF assms(1) g1]
  note l2 = lookup_after_get [OF l1(1) g2]
  have add: "p = upTo \<or> lru_lookup c2 k = Some p" if "lru_lookup (lru_Add c2 (u, d) upTo) k = Some p"
    using lru.lookup_step [OF l2(1), of "OpAdd (u, d) upTo" k p] that by (auto split: if_split_asm)
  have "dl_lastDeleted dl' \<in> {dl_lastDeleted dl, c1, c2, lru_Add c2 (u, d) upTo}"
    using assms(2) g1 g2 unfolding DeleteUpTo_def Let_def by (auto split: if_split_asm prod.splits option.splits)
  with assms(3) l1(3) [of k p] l2(3) [of k p] add show ?thesis by auto
qed

lemma delete_step:
  assumes "inbox_good u d dl" and "0 \<le> since" and "DeleteUpTo up dl u d since = (dl', n, err)"
  shows "inbox_good u d dl' \<and> filter (\<lambda>x. since < fst x) (pending_for u d dl') = filter (\<lambda>x. since < fst x) (pending_for u d dl) \<and>
    set (pending_for u d dl') \<subseteq> set (pending_for u d dl) \<and> acked_for u d dl' \<le> max (acked_for u d dl) since"
proof (cases "since = 0")
  case True
  then have "dl' = dl" using assms(3) by (auto simp: DeleteUpTo_def)
  then show ?thesis using assms(1) by auto
next
  case False
  with assms(1,2) have dl: "cleared dl" "u \<noteq> []" "d \<noteq> []" "0 < since" "sorted_wrt (<) (map fst (pending_for u d dl))" by (auto simp: inbox_good_def)
  note cases = delete_up_to_cases [OF dl(1-4) assms(3)]
  from cases(2) obtain m where m: "0 \<le> m" "m \<le> since" "dl_inbox dl' = kept u d 0 m (dl_inbox dl)" by blast
  have "lru_ok (dl_lastDeleted dl)" using dl(1) by (simp add: cleared_def)
  from delete_up_to_cache [OF this assms(3), of "(u, d)"] assms(2) have "acked_for u d dl' \<le> max (acked_for u d dl) since"
    by (cases "lru_lookup (dl_lastDeleted dl') (u, d)") (auto simp: acked_for_def)
  with cases(1) dl pending_kept [OF m] show ?thesis by (auto simp: inbox_good_def)
qed

lemma insort_append: "\<forall>y \<in> set ys. k x \<le> k y \<Longrightarrow> insort_key k x (xs @ ys) = insort_key k x xs @ ys"
  by (induction xs) (auto intro: insort_is_Cons)

lemma sort_key_sorted: "sorted (map k xs) \<Longrightarrow> sort_key k xs = xs"
  by (induction xs) (auto simp: insort_is_Cons)

lemma sort_key_append:
  assumes "sorted (map k ys)" and "\<forall>x \<in> set xs. \<forall>y \<in> set ys. k x \<le> k y"
  shows "sort_key k (xs @ ys) = sort_key k xs @ ys"
  using assms(2) by (induction xs) (simp_all add: insort_append sort_key_sorted assms(1))

lemma arrive_good:
  assumes "inbox_good u d dl" and "sorted_wrt (<) (map fst new)" and "\<forall>y \<in> set new. acked_for u d dl < fst y \<and> (\<forall>x \<in> set (pending_for u d dl). fst x < fst y)"
  shows "inbox_good u d (arrive_for u d new dl) \<and> pending_for u d (arrive_for u d new dl) = pending_for u d dl @ new \<and> acked_for u d (arrive_for u d new dl) = acked_for u d dl"
proof -
  let ?row = "\<lambda>(i, m). \<lparr>ib_user_id = u, ib_device_id = d, ib_stream_id = i, ib_message_json = m\<rparr>" and ?old = "sort_key ib_stream_id (filter (is_for u d) (dl_inbox dl))"
  have rows: "filter (is_for u d) (map ?row new) = map ?row new" "map pair_of (map ?row new) = new" "map ib_stream_id (map ?row new) = map fst new"
    by (induction new) (auto simp: pair_of_def)
  have "fst x < fst y" if "x \<in> set (map pair_of ?old)" "y \<in> set new" for x y using assms(3) that unfolding pending_for_def by blast
  then have "\<forall>x \<in> set (map ib_stream_id ?old). \<forall>y \<in> set (map fst new). x < y" by (fastforce simp: pair_of_def)
  moreover have "sorted (map ib_stream_id ?old)" "sorted (map fst new)" using assms(2) strict_sorted_imp_sorted by auto
  ultimately have "sorted (map ib_stream_id (?old @ map ?row new))" unfolding map_append rows(3) sorted_append by (auto intro: less_imp_le)
  then have "sort_key ib_stream_id (filter (is_for u d) (dl_inbox dl) @ map ?row new) = ?old @ map ?row new"
    by (intro sort_key_append) (auto simp: sorted_append)
  moreover have "dl_inbox (arrive_for u d new dl) = dl_inbox dl @ map ?row new" by (simp add: arrive_for_def)
  ultimately have p: "pending_for u d (arrive_for u d new dl) = pending_for u d dl @ new"
    unfolding pending_for_def by (simp only: filter_append rows(1) map_append rows(2))
  have below: "filter (in_window u' d' 0 p) (map ?row new) = []" if "lru_lookup (dl_lastDeleted dl) (u', d') = Some p" for u' d' p
    using assms(3) that by (force simp: filter_empty_conv in_window_def acked_for_def)
  have sorted: "sorted_wrt (<) (map fst (pending_for u d dl @ new))"
    using assms by (fastforce simp: inbox_good_def sorted_wrt_append)
  show ?thesis using assms(1) p below sorted by (auto simp: inbox_good_def cleared_def arrive_for_def acked_for_def)
qed

interpretation sync: acked_inbox "sync_poll u d" "arrive_for u d" "pending_for u d" "acked_for u d" "inbox_good u d" for u d
proof
  show "sorted_wrt (<) (map fst (pending_for u d s))" if "inbox_good u d s" for s using that by (simp add: inbox_good_def)
  show "inbox_good u d (arrive_for u d new s) \<and> pending_for u d (arrive_for u d new s) = pending_for u d s @ new \<and> acked_for u d (arrive_for u d new s) = acked_for u d s"
    if "inbox_good u d s" "sorted_wrt (<) (map fst new)" "\<forall>y \<in> set new. acked_for u d s < fst y \<and> (\<forall>x \<in> set (pending_for u d s). fst x < fst y)" for s new
    by (rule arrive_good [OF that])
  have dl: "deleteAcknowledgedToDevice (fst f) True s u d since = fst (DeleteUpTo (fst f) s u d since)" if "inbox_good u d s" for f :: "(nat \<Rightarrow> bool) \<times> bool" and s since
    using that by (simp add: deleteAcknowledgedToDevice_def inbox_good_def)
  show kept: "inbox_good u d s' \<and> filter (\<lambda>x. since < fst x) (pending_for u d s') = filter (\<lambda>x. since < fst x) (pending_for u d s) \<and>
      set (pending_for u d s') \<subseteq> set (pending_for u d s) \<and> acked_for u d s' \<le> max (acked_for u d s) since"
    if run: "inbox_good u d s" "0 \<le> since" "int64 since" "sync_poll u d f s since now = (s', r)" for s since f now s' r
  proof -
    obtain n err where "DeleteUpTo (fst f) s u d since = (s', n, err)" using run(4) dl [OF run(1)] by (cases "DeleteUpTo (fst f) s u d since") (simp add: sync_poll_def Let_def)
    then show ?thesis by (rule delete_step [OF run(1,2)])
  qed
  show "since \<le> nxt \<and> nxt \<le> now \<and> ms = map snd (between since nxt (pending_for u d s))"
    if "inbox_good u d s" "0 \<le> since" "since \<le> now" "int64 now" "sync_poll u d f s since now = (s', Some (ms, nxt))" for s since now f s' ms nxt
  proof -
    have "int64 since" using that(2-4) by (simp add: int64_def)
    note k = kept [OF that(1,2) this that(5)]
    have same: "between since nxt (pending_for u d s') = between since nxt (pending_for u d s)"
      using k filter_filter [of "\<lambda>x. fst x \<le> nxt" "\<lambda>x. since < fst x"] by metis
    have ev: "toDeviceEvents (snd f) True (dl_inbox s') u d since now = Inr (ms, nxt)" using that(5) by (auto simp: sync_poll_def Let_def split: sum.splits)
    have good: "d \<noteq> []" "sorted_wrt (<) (map fst (pending_for u d s'))" using k by (auto simp: inbox_good_def)
    show ?thesis
    proof (cases "since = now")
      case True
      then show ?thesis using ev by (auto simp: toDeviceEvents_def filter_empty_conv)
    next
      case False
      then have "MessagesForDevice (snd f) (dl_inbox s') u d since now ToDeviceLimit = Inr (ms, nxt)" using ev good(1) by (simp add: toDeviceEvents_def)
      from messages_between [OF this good(1) _ that(3) good(2)] same show ?thesis by (simp add: ToDeviceLimit_def)
    qed
  qed
qed

lemma sliding_poll_spec:
  assumes "inbox_good u d s" and "int64 since" and "since \<le> now" and "sliding_poll u d f s since now = (s', r)"
  obtains n err where "DeleteUpTo (fst f) s u d since = (s', n, err)"
    and "\<And>ms nxt. r = Some (ms, nxt) \<Longrightarrow> \<exists>limit nxt'. 0 < limit \<and> MessagesForDevice (fst (snd f)) (dl_inbox s') u d since now limit = Inr (ms, nxt') \<and> ParseInt (FormatInt nxt') = Some nxt"
proof -
  obtain dl n err where del: "DeleteUpTo (fst f) s u d since = (dl, n, err)" by (metis prod_cases3)
  let ?limit = "if snd (snd f) \<le> 0 \<or> 100 < snd (snd f) then 100 else snd (snd f)"
  have ne: "d \<noteq> []" "FormatInt since \<noteq> []" "ParseInt (FormatInt since) = Some since" "\<not> now < since" using assms(1-3) by (simp_all add: inbox_good_def ParseInt_FormatInt)
  have "s' = dl \<and> (\<forall>ms nxt. r = Some (ms, nxt) \<longrightarrow>
      (\<exists>nxt'. MessagesForDevice (fst (snd f)) (dl_inbox s') u d since now ?limit = Inr (ms, nxt') \<and> ParseInt (FormatInt nxt') = Some nxt))"
    using assms(4) ne del unfolding sliding_poll_def toDeviceExtension_def Let_def
    by (cases err; cases "MessagesForDevice (fst (snd f)) (dl_inbox dl) u d since now ?limit") auto
  moreover have "0 < ?limit" by auto
  ultimately show thesis using that [of n err] del by blast
qed

lemma sliding_future:
  assumes "inbox_good u d s" and "int64 since" and "now < since" and "sliding_poll u d f s since now = (s', r)"
  shows "s' = s"
  using assms by (auto simp: sliding_poll_def toDeviceExtension_def Let_def inbox_good_def ParseInt_FormatInt)

interpretation sliding: acked_inbox "sliding_poll u d" "arrive_for u d" "pending_for u d" "acked_for u d" "inbox_good u d" for u d
proof
  show "sorted_wrt (<) (map fst (pending_for u d s))" if "inbox_good u d s" for s by (rule sync.pending_sorted [OF that])
  show "inbox_good u d (arrive_for u d new s) \<and> pending_for u d (arrive_for u d new s) = pending_for u d s @ new \<and> acked_for u d (arrive_for u d new s) = acked_for u d s"
    if "inbox_good u d s" "sorted_wrt (<) (map fst new)" "\<forall>y \<in> set new. acked_for u d s < fst y \<and> (\<forall>x \<in> set (pending_for u d s). fst x < fst y)" for s new
    by (rule arrive_good [OF that])
  show kept: "inbox_good u d s' \<and> filter (\<lambda>x. since < fst x) (pending_for u d s') = filter (\<lambda>x. since < fst x) (pending_for u d s) \<and>
      set (pending_for u d s') \<subseteq> set (pending_for u d s) \<and> acked_for u d s' \<le> max (acked_for u d s) since"
    if run: "inbox_good u d s" "0 \<le> since" "int64 since" "sliding_poll u d f s since now = (s', r)" for s since f now s' r
  proof (cases "since \<le> now")
    case True
    then obtain n err where "DeleteUpTo (fst f) s u d since = (s', n, err)" by (rule sliding_poll_spec [OF run(1,3) _ run(4)])
    then show ?thesis by (rule delete_step [OF run(1,2)])
  next
    case False
    then show ?thesis using sliding_future [OF run(1,3) _ run(4)] run(1) by simp
  qed
  show "since \<le> nxt \<and> nxt \<le> now \<and> ms = map snd (between since nxt (pending_for u d s))"
    if run: "inbox_good u d s" "0 \<le> since" "since \<le> now" "int64 now" "sliding_poll u d f s since now = (s', Some (ms, nxt))" for s since now f s' ms nxt
  proof -
    have i: "int64 since" using run(2-4) by (simp add: int64_def)
    note k = kept [OF run(1,2) i run(5)]
    have same: "between since b (pending_for u d s') = between since b (pending_for u d s)" for b
      using k filter_filter [of "\<lambda>x. fst x \<le> b" "\<lambda>x. since < fst x"] by metis
    obtain limit nxt' where m: "0 < limit" "MessagesForDevice (fst (snd f)) (dl_inbox s') u d since now limit = Inr (ms, nxt')" and parse: "ParseInt (FormatInt nxt') = Some nxt"
      using sliding_poll_spec [OF run(1) i run(3,5)] by metis
    have good: "d \<noteq> []" "sorted_wrt (<) (map fst (pending_for u d s'))" using k by (auto simp: inbox_good_def)
    from messages_between [OF m(2) good(1) m(1) run(3) good(2)] have b: "since \<le> nxt'" "nxt' \<le> now" "ms = map snd (between since nxt' (pending_for u d s'))" by auto
    then have "nxt = nxt'" using parse i run(4) ParseInt_FormatInt [of nxt'] by (simp add: int64_def)
    with b same show ?thesis by simp
  qed
qed

text \<open>
  C35. Messages to a device arrive once each and in order. Whatever a client of \<^verbatim>\<open>/sync\<close> or of sliding sync has received after a number of
  requests, each with the token of the last response it got, is exactly the messages up to that token, in the order of the stream:
  also when requests fail at any statement, when responses get lost, when a page is cut off by its limit, and while new messages arrive.
\<close>

theorem to_device_exactly_once:
  assumes "inbox_good u d dl" and "acked_for u d dl \<le> high" and "\<forall>x \<in> set (pending_for u d dl). fst x \<le> high" and "0 \<le> since" and "since \<le> high"
    and "growing high since rounds" and "growing high since rounds'"
    and "client_run (sync_poll u d) (arrive_for u d) rounds dl since = (dl1, got1, since1)"
    and "client_run (sliding_poll u d) (arrive_for u d) rounds' dl since = (dl2, got2, since2)"
  shows "got1 = map snd (between since since1 (pending_for u d dl @ concat (map fst rounds))) \<and>
    got2 = map snd (between since since2 (pending_for u d dl @ concat (map fst rounds')))"
  using sync.run_exact [OF assms(1,4) order_refl assms(5,2,3,6,8)] sliding.run_exact [OF assms(1,4) order_refl assms(5,2,3,7,9)] by simp_all

definition small_inbox :: Deleter where
  "small_inbox = \<lparr>dl_inbox = [\<lparr>ib_user_id = ''@u'', ib_device_id = ''D'', ib_stream_id = 1, ib_message_json = ''a''\<rparr>,
     \<lparr>ib_user_id = ''@u'', ib_device_id = ''D'', ib_stream_id = 2, ib_message_json = ''b''\<rparr>], dl_lastDeleted = Some (lru_New 10)\<rparr>"

lemma small_inbox_good:
  "pending_for ''@u'' ''D'' small_inbox = [(1, ''a''), (2, ''b'')]" "acked_for ''@u'' ''D'' small_inbox = 0" "cleared small_inbox" "inbox_good ''@u'' ''D'' small_inbox"
proof -
  show p: "pending_for ''@u'' ''D'' small_inbox = [(1, ''a''), (2, ''b'')]" by (simp add: pending_for_def small_inbox_def pair_of_def)
  have look: "lru_lookup (dl_lastDeleted small_inbox) k = None" for k by (simp add: small_inbox_def lru_lookup_def lru_Get_def lru_New_def)
  then show "acked_for ''@u'' ''D'' small_inbox = 0" by (simp add: acked_for_def)
  have "lru_ok (dl_lastDeleted small_inbox)" by (simp add: small_inbox_def lru_ok_def lru_New_def lru_inv_def lru_abs_def)
  with look show c: "cleared small_inbox" by (simp add: cleared_def)
  show "inbox_good ''@u'' ''D'' small_inbox" using p c by (simp add: inbox_good_def)
qed

theorem delete_up_to_exact_witness:
  "\<exists>dl' n err. DeleteUpTo (\<lambda>_. True) small_inbox ''@u'' ''D'' 1 = (dl', n, err) \<and> cleared dl' \<and>
     \<lparr>ib_user_id = ''@u'', ib_device_id = ''D'', ib_stream_id = 2, ib_message_json = ''b''\<rparr> \<in> set (dl_inbox dl')"
proof -
  obtain dl' n err where run: "DeleteUpTo (\<lambda>_. True) small_inbox ''@u'' ''D'' 1 = (dl', n, err)" by (metis prod_cases3)
  show ?thesis using delete_up_to_exact [OF small_inbox_good(3) _ _ _ run] run by (intro exI [of _ dl'] exI [of _ n] exI [of _ err]) (auto simp: in_window_def small_inbox_def)
qed

theorem to_device_exactly_once_witness:
  "\<exists>dl1 got1 s1 dl2 got2 s2.
     client_run (sync_poll ''@u'' ''D'') (arrive_for ''@u'' ''D'') [([], 2, (\<lambda>_. False, True), False), ([(3, ''c'')], 3, (\<lambda>_. True, True), True)] small_inbox 0 = (dl1, got1, s1) \<and>
     client_run (sliding_poll ''@u'' ''D'') (arrive_for ''@u'' ''D'') [([], 2, (\<lambda>_. True, True, 1), True), ([(3, ''c'')], 3, (\<lambda>_. True, True, 1), True)] small_inbox 0 = (dl2, got2, s2) \<and>
     got1 = map snd (between 0 s1 [(1, ''a''), (2, ''b''), (3, ''c'')]) \<and> got2 = map snd (between 0 s2 [(1, ''a''), (2, ''b''), (3, ''c'')])"
proof -
  let ?r1 = "[([], 2, (\<lambda>_. False, True), False), ([(3, ''c'')], 3, (\<lambda>_. True, True), True)] :: ((int \<times> string) list \<times> int \<times> ((nat \<Rightarrow> bool) \<times> bool) \<times> bool) list"
  let ?r2 = "[([], 2, (\<lambda>_. True, True, 1), True), ([(3, ''c'')], 3, (\<lambda>_. True, True, 1), True)] :: ((int \<times> string) list \<times> int \<times> ((nat \<Rightarrow> bool) \<times> bool \<times> int) \<times> bool) list"
  obtain dl1 got1 s1 where run1: "client_run (sync_poll ''@u'' ''D'') (arrive_for ''@u'' ''D'') ?r1 small_inbox 0 = (dl1, got1, s1)" by (metis prod_cases3)
  obtain dl2 got2 s2 where run2: "client_run (sliding_poll ''@u'' ''D'') (arrive_for ''@u'' ''D'') ?r2 small_inbox 0 = (dl2, got2, s2)" by (metis prod_cases3)
  have g: "growing 2 0 ?r1" "growing 2 0 ?r2" by (simp_all add: int64_def)
  have "got1 = map snd (between 0 s1 (pending_for ''@u'' ''D'' small_inbox @ concat (map fst ?r1))) \<and> got2 = map snd (between 0 s2 (pending_for ''@u'' ''D'' small_inbox @ concat (map fst ?r2)))"
    by (rule to_device_exactly_once [OF small_inbox_good(4) _ _ _ _ g run1 run2]) (simp_all add: small_inbox_good(1,2))
  with run1 run2 show ?thesis by (intro exI [of _ dl1] exI [of _ got1] exI [of _ s1] exI [of _ dl2] exI [of _ got2] exI [of _ s2]) (simp add: small_inbox_good(1))
qed

end
