(* ===== verification/Tracked_Stream.thy ===== *)
theory Tracked_Stream
  imports Sliding_Store
begin

text \<open>
  What a sliding sync connection is told of a stream, over many requests. Rooms, account data and receipts are tracked in the same way: for
  each room the connection keeps whether everything up to the last response has been sent (\<^verbatim>\<open>live\<close>), whether something was withheld
  from a position on (\<^verbatim>\<open>previously\<close>), or whether the room has never been sent. The locale \<open>tracked_stream\<close> is the contract of
  one request; from it follows that over any chain of requests nothing is lost.
\<close>

text \<open>A chain of requests: each starts from the token and from the statuses the one before left.\<close>

fun chained ::
  "('i \<Rightarrow> (string \<Rightarrow> HaveSent) \<Rightarrow> (string \<Rightarrow> HaveSent) \<Rightarrow> bool) \<Rightarrow> ('i \<Rightarrow> 'p option) \<Rightarrow> ('i \<Rightarrow> 'p) \<Rightarrow> 'i list \<Rightarrow> (string \<Rightarrow> HaveSent) \<Rightarrow> 'p option \<Rightarrow> (string \<Rightarrow> HaveSent) \<Rightarrow> bool" where
  "chained serves frm now [] s f s' \<longleftrightarrow> s' = s"
| "chained serves frm now (i # is) s f s' \<longleftrightarrow> frm i = f \<and> (\<exists>s1. serves i s s1 \<and> chained serves frm now is s1 (Some (now i)) s')"

locale tracked_stream =
  fixes serves :: "'i \<Rightarrow> (string \<Rightarrow> HaveSent) \<Rightarrow> (string \<Rightarrow> HaveSent) \<Rightarrow> bool"
    and frm :: "'i \<Rightarrow> 'p option"
    and now :: "'i \<Rightarrow> 'p"
    and range_of :: "'i \<Rightarrow> string set"
    and after :: "'p \<Rightarrow> int"
    and tok :: "'p \<Rightarrow> string"
    and pos_of :: "string \<Rightarrow> int option"
    and changed :: "string \<Rightarrow> int \<Rightarrow> bool"
    and sends :: "'i \<Rightarrow> string \<Rightarrow> int \<Rightarrow> bool"
  assumes resumes: "serves i s s' \<Longrightarrow> frm i = Some f \<Longrightarrow> pos_of (tok f) = Some (after f)"
    and in_range: "serves i s s' \<Longrightarrow> r \<in> range_of i \<Longrightarrow> hs_Status (s' r) = FlagLive"
    and marks: "serves i s s' \<Longrightarrow> r \<notin> range_of i \<Longrightarrow> frm i = Some f \<Longrightarrow> hs_Status (s r) = FlagLive \<Longrightarrow> changed r q \<Longrightarrow> after f < q \<Longrightarrow> q \<le> after (now i) \<Longrightarrow>
      s' r = Previously (tok f)"
    and keeps: "serves i s s' \<Longrightarrow> r \<notin> range_of i \<Longrightarrow> s' r = s r \<or> (\<exists>f. frm i = Some f \<and> hs_Status (s r) = FlagLive \<and> s' r = Previously (tok f))"
    and covers: "serves i s s' \<Longrightarrow> r \<in> range_of i \<Longrightarrow> changed r q \<Longrightarrow> q \<le> after (now i) \<Longrightarrow>
      (\<forall>f. frm i = Some f \<and> hs_Status (s r) = FlagLive \<longrightarrow> after f < q) \<Longrightarrow>
      (\<forall>p. hs_Status (s r) = FlagPreviously \<and> pos_of (hs_LastToken (s r)) = Some p \<longrightarrow> p < q) \<Longrightarrow> sends i r q"
begin

text \<open>What the status of a room promises has been sent (\<open>D\<close>).\<close>

definition promise :: "(string \<Rightarrow> int \<Rightarrow> bool) \<Rightarrow> (string \<Rightarrow> HaveSent) \<Rightarrow> 'p option \<Rightarrow> bool" where
  "promise D s f \<longleftrightarrow> (\<forall>r q. changed r q \<longrightarrow>
     (hs_Status (s r) = FlagLive \<longrightarrow> (\<exists>g. f = Some g \<and> (q \<le> after g \<longrightarrow> D r q))) \<and>
     (hs_Status (s r) = FlagPreviously \<longrightarrow> (\<forall>p. pos_of (hs_LastToken (s r)) = Some p \<longrightarrow> q \<le> p \<longrightarrow> D r q)))"

lemma promise_step:
  assumes "promise D s f" and "serves i s s1" and "frm i = f" and "\<And>r q. D r q \<or> sends i r q \<Longrightarrow> D' r q"
  shows "promise D' s1 (Some (now i))"
  unfolding promise_def
proof (intro allI impI conjI)
  fix r q
  assume q: "changed r q"
  note old = assms(1) [unfolded promise_def, rule_format, OF q]
  have sent: "D' r q" if "r \<in> range_of i" "q \<le> after (now i)"
  proof (rule ccontr)
    assume "\<not> D' r q"
    then have "\<not> D r q" "\<not> sends i r q" using assms(4) by blast+
    then have "\<forall>g. frm i = Some g \<and> hs_Status (s r) = FlagLive \<longrightarrow> after g < q" "\<forall>p. hs_Status (s r) = FlagPreviously \<and> pos_of (hs_LastToken (s r)) = Some p \<longrightarrow> p < q"
      using old assms(3) by force+
    with covers [OF assms(2) that(1) q that(2)] \<open>\<not> sends i r q\<close> show False by blast
  qed
  show "\<exists>g. Some (now i) = Some g \<and> (q \<le> after g \<longrightarrow> D' r q)" if live: "hs_Status (s1 r) = FlagLive"
  proof (cases "r \<in> range_of i")
    case False
    have "\<not> (\<exists>g. s1 r = Previously (tok g))" using live by (auto simp: Previously_def flags_differ)
    with keeps [OF assms(2) False] have same: "s1 r = s r" by blast
    with live old obtain g where g: "f = Some g" "q \<le> after g \<longrightarrow> D r q" by auto
    have "\<not> (after g < q \<and> q \<le> after (now i))"
      using marks [OF assms(2) False _ _ q, of g] assms(3) g(1) live same \<open>\<not> (\<exists>g. s1 r = Previously (tok g))\<close> by metis
    with g(2) assms(4) show ?thesis by auto
  qed (use sent in auto)
  show "D' r q" if prev: "hs_Status (s1 r) = FlagPreviously" and p: "pos_of (hs_LastToken (s1 r)) = Some p" "q \<le> p" for p
  proof -
    have out: "r \<notin> range_of i" using in_range [OF assms(2), of r] prev by (auto simp: flags_differ)
    from keeps [OF assms(2) out] show ?thesis
    proof
      assume "s1 r = s r"
      with old prev p assms(4) show ?thesis by simp
    next
      assume "\<exists>g. frm i = Some g \<and> hs_Status (s r) = FlagLive \<and> s1 r = Previously (tok g)"
      then obtain g where g: "frm i = Some g" "hs_Status (s r) = FlagLive" "s1 r = Previously (tok g)" by blast
      with resumes [OF assms(2) g(1)] p have "q \<le> after g" by (simp add: Previously_def)
      with old g assms(3,4) show ?thesis by auto
    qed
  qed
qed

lemma chain_promise:
  assumes "chained serves frm now is s f s'" and "promise D s f" and "is \<noteq> []"
  shows "promise (\<lambda>r q. D r q \<or> (\<exists>i \<in> set is. sends i r q)) s' (Some (now (last is)))"
  using assms
proof (induction "is" arbitrary: s f D)
  case (Cons i "is")
  then obtain s1 where i: "frm i = f" "serves i s s1" and rest: "chained serves frm now is s1 (Some (now i)) s'" by auto
  have step: "promise (\<lambda>r q. D r q \<or> sends i r q) s1 (Some (now i))" by (rule promise_step [OF Cons.prems(2) i(2,1)]) simp
  show ?case
  proof (cases "is = []")
    case True
    with step rest show ?thesis by simp
  next
    case False
    from Cons.IH [OF rest step this] False show ?thesis by (simp add: disj_assoc)
  qed
qed simp

text \<open>Over a chain of requests that starts with nothing sent, a room in the range of the last one has been sent every change up to its token.\<close>

lemma nothing_lost:
  assumes "chained serves frm now is (\<lambda>_. Never) None s'" and "is \<noteq> []" and "r \<in> range_of (last is)" and "changed r q" and "q \<le> after (now (last is))"
  shows "\<exists>i \<in> set is. sends i r q"
proof -
  have "promise (\<lambda>_ _. False) (\<lambda>_. Never) None" by (simp add: promise_def Never_def flags_differ)
  from chain_promise [OF assms(1) this assms(2)] have p: "promise (\<lambda>r q. \<exists>i \<in> set is. sends i r q) s' (Some (now (last is)))" by simp
  have "chained serves frm now is s f s' \<Longrightarrow> is \<noteq> [] \<Longrightarrow> \<exists>s0. serves (last is) s0 s'" for s f
    by (induction "is" arbitrary: s f) auto
  from this [OF assms(1,2)] obtain s0 where "serves (last is) s0 s'" ..
  from in_range [OF this assms(3)] p assms(4,5) show ?thesis unfolding promise_def by blast
qed

end

end
