(* ===== verification/Extension_Data.thy ===== *)
theory Extension_Data
  imports Room_Data Device_Inbox Replication Tracked_Stream
begin

text \<open>
  The sections of a sliding sync response that are not rooms: \<^verbatim>\<open>internal/slidingsync/extensions.go\<close>, with the reads of the store they use
  (\<^verbatim>\<open>memberdeltas.go\<close>, \<^verbatim>\<open>incremental.go\<close>, \<^verbatim>\<open>usersync.go\<close>, \<^verbatim>\<open>sticky.go\<close>, \<^verbatim>\<open>sync.go\<close>). The queries are the fields of \<open>ExtStore\<close>; the answers
  a request remembers (\<^verbatim>\<open>memo\<close>) are those of the query. A section is what is encoded, not its JSON text.

  Account data and receipts are tracked for each connection: a room out of range whose data changes is marked, and sent from that place
  when it is in range again.
\<close>

section \<open>Types\<close>

record MemberDelta =
  md_RoomID :: string
  md_UserID :: string
  md_Membership :: string
  md_PrevMembership :: string
  md_HasEvent :: bool

record AccountDataEntry =
  ad_Type :: string
  ad_Content :: string

record DeviceKeyCounts =
  dk_OneTimeKeys :: "(string, int) gomap"
  dk_UnusedFallbackKeyTypes :: "string list"

text \<open>\<open>xs_entry\<close> and \<open>xs_tagged\<close> encode an entry and the tags of a room; \<open>xs_pushRules\<close> is the rendered event of \<^verbatim>\<open>pushRulesEvent\<close>.\<close>

record ExtStore =
  xs_room :: RoomStore
  xs_joined :: "string \<Rightarrow> RoomForUser answer"
  xs_selfDeltas :: "string \<Rightarrow> int \<Rightarrow> int \<Rightarrow> MemberDelta answer"
  xs_roomDeltas :: "string list \<Rightarrow> int \<Rightarrow> int \<Rightarrow> MemberDelta answer"
  xs_maxPruned :: "string + int option"
  xs_sharing :: "string \<Rightarrow> string answer"
  xs_deviceStream :: "string list \<Rightarrow> int \<Rightarrow> int \<Rightarrow> string answer"
  xs_changedInRooms :: "string list \<Rightarrow> int \<Rightarrow> int \<Rightarrow> string answer"
  xs_ownChanges :: "string \<Rightarrow> int \<Rightarrow> int \<Rightarrow> string + int"
  xs_signatures :: "string \<Rightarrow> int \<Rightarrow> int \<Rightarrow> string answer"
  xs_userList :: "string \<Rightarrow> string list option"
  xs_members :: "string list \<Rightarrow> string answer"
  xs_joinedToAny :: "string list \<Rightarrow> string list \<Rightarrow> string answer"
  xs_oneTimeKeys :: "string \<Rightarrow> string \<Rightarrow> (string \<times> int) answer"
  xs_fallbackKeys :: "string \<Rightarrow> string \<Rightarrow> string answer"
  xs_global :: "string \<Rightarrow> bool \<Rightarrow> AccountDataEntry answer"
  xs_globalSince :: "string \<Rightarrow> int \<Rightarrow> int \<Rightarrow> bool \<Rightarrow> AccountDataEntry answer"
  xs_roomSince :: "string \<Rightarrow> int \<Rightarrow> int \<Rightarrow> bool \<Rightarrow> (string \<times> AccountDataEntry) answer"
  xs_roomTags :: "string \<Rightarrow> (string \<times> string \<times> string) answer"
  xs_allRooms :: "string \<Rightarrow> bool \<Rightarrow> (string \<times> AccountDataEntry) answer"
  xs_tagged :: "(string, string) gomap \<Rightarrow> string + string"
  xs_entry :: "AccountDataEntry \<Rightarrow> string + string"
  xs_pushRules :: "string \<Rightarrow> string + string"
  xs_receiptsSince :: "string list \<Rightarrow> int \<Rightarrow> int \<Rightarrow> (string \<times> ReceiptRow) answer"
  xs_receiptsForEvents :: "string list \<Rightarrow> string list \<Rightarrow> (string \<times> ReceiptRow) answer"
  xs_ownReceipts :: "string list \<Rightarrow> string \<Rightarrow> int \<Rightarrow> (string \<times> ReceiptRow) answer"
  xs_setThread :: "string \<Rightarrow> string \<Rightarrow> string + string"
  xs_threads :: "string \<Rightarrow> int \<Rightarrow> int \<Rightarrow> int \<Rightarrow> ThreadSubscriptionUpdate answer"
  xs_sticky :: "int \<Rightarrow> int \<Rightarrow> int \<Rightarrow> string list \<Rightarrow> int \<Rightarrow> (int \<times> string \<times> string) answer"
  xs_ExcludedRooms :: "string set"
  xs_MSC3391Enabled :: bool
  xs_MSC4308Enabled :: bool

record extensionInputs =
  xi_UserID :: string
  xi_DeviceID :: string
  xi_From :: "Token option"
  xi_Now :: Token
  xi_NowMS :: int
  xi_Lists :: "(string, ListResult) gomap"
  xi_Subscribed :: "string set"
  xi_AllRooms :: "string set"
  xi_Rooms :: "(string, RoomResult) gomap"
  xi_Membership :: "(string, SlidingRoom) gomap"
  xi_Previous :: PerConnectionState
  xi_New :: PerConnectionState

section \<open>Reads of the store\<close>

definition group_rows :: "('k \<times> 'v) list \<Rightarrow> ('k, 'v list) gomap" where
  "group_rows rows = fold (\<lambda>(k, v) out. mput k (mgetz [] out k @ [v]) out) rows []"

definition MemberDeltasInRooms :: "ExtStore \<Rightarrow> string list \<Rightarrow> int \<Rightarrow> int \<Rightarrow> MemberDelta answer" where
  "MemberDeltasInRooms x roomIDs since now = (if roomIDs = [] \<or> since \<ge> now then Inr [] else xs_roomDeltas x roomIDs since now)"

definition SelfMemberDeltas :: "ExtStore \<Rightarrow> string \<Rightarrow> int \<Rightarrow> int \<Rightarrow> MemberDelta answer" where
  "SelfMemberDeltas x userID since now =
     (if since \<ge> now then Inr []
      else map_sum id (\<lambda>rows. map (\<lambda>d. if \<not> md_HasEvent d \<or> md_Membership d = [] then d\<lparr>md_Membership := ''leave''\<rparr> else d)
             (filter (\<lambda>d. \<not> (\<not> md_HasEvent d \<and> md_PrevMembership d = ''leave'')) rows)) (xs_selfDeltas x userID since now))"

definition UsersJoinedToAny :: "ExtStore \<Rightarrow> string list \<Rightarrow> string list \<Rightarrow> string + string set" where
  "UsersJoinedToAny x userIDs roomIDs = (if userIDs = [] \<or> roomIDs = [] then Inr {} else map_sum id set (xs_joinedToAny x userIDs roomIDs))"

definition UsersSharingAnyRoom :: "ExtStore \<Rightarrow> string \<Rightarrow> string + string set" where
  "UsersSharingAnyRoom x userID = map_sum id set (xs_sharing x userID)"

definition JoinedMembersOf :: "ExtStore \<Rightarrow> string list \<Rightarrow> string answer" where
  "JoinedMembersOf x roomIDs = (if roomIDs = [] then Inr [] else xs_members x roomIDs)"

text \<open>The users are a set: the code returns the keys of a map in the order they come. \<open>ord\<close> is that order for the tracked users.\<close>

definition DeviceListChanges :: "ExtStore \<Rightarrow> (string set \<Rightarrow> string list) \<Rightarrow> string \<Rightarrow> string list \<Rightarrow> int \<Rightarrow> int \<Rightarrow> string + string set" where
  "DeviceListChanges x ord userID roomIDs since now =
     then_do (if roomIDs = [] then Inr False else map_sum id (\<lambda>m. (case m of None \<Rightarrow> 0 | Some n \<Rightarrow> n) > since) (xs_maxPruned x)) (\<lambda>pruned.
     then_do (if pruned then then_do (UsersSharingAnyRoom x userID) (\<lambda>sharing. xs_deviceStream x (ord sharing @ [userID]) since now)
              else if roomIDs \<noteq> [] then xs_changedInRooms x roomIDs since now else Inr []) (\<lambda>changed.
     then_do (xs_ownChanges x userID since now) (\<lambda>own.
     then_do (xs_signatures x userID since now) (\<lambda>raws.
     Inr (set changed \<union> (if own > 0 then {userID} else {}) \<union> set (concat (map (\<lambda>raw. case xs_userList x raw of None \<Rightarrow> [] | Some us \<Rightarrow> us) raws)))))))"

definition ext_DeviceKeyCounts :: "ExtStore \<Rightarrow> string \<Rightarrow> string \<Rightarrow> string + DeviceKeyCounts" where
  "ext_DeviceKeyCounts x userID deviceID =
     (let none = \<lparr>dk_OneTimeKeys = [(''signed_curve25519'', 0)], dk_UnusedFallbackKeyTypes = []\<rparr> in
      if deviceID = [] then Inr none
      else then_do (xs_oneTimeKeys x userID deviceID) (\<lambda>rows.
           then_do (xs_fallbackKeys x userID deviceID) (\<lambda>algs.
           Inr \<lparr>dk_OneTimeKeys = fold (\<lambda>(alg, n). mput alg n) rows (dk_OneTimeKeys none), dk_UnusedFallbackKeyTypes = algs\<rparr>)))"

definition RoomAccountDataSince :: "ExtStore \<Rightarrow> string \<Rightarrow> int \<Rightarrow> int \<Rightarrow> string + (string, AccountDataEntry list) gomap" where
  "RoomAccountDataSince x userID since now = map_sum id group_rows (xs_roomSince x userID since now (xs_MSC3391Enabled x))"

text \<open>A loop whose body may fail.\<close>

fun fold_do :: "('a \<Rightarrow> 's \<Rightarrow> string + 's) \<Rightarrow> 'a list \<Rightarrow> 's \<Rightarrow> string + 's" where
  "fold_do f [] s = Inr s"
| "fold_do f (y # ys) s = then_do (f y s) (fold_do f ys)"

definition tags_by_room :: "(string \<times> string \<times> string) list \<Rightarrow> (string, (string, string) gomap) gomap" where
  "tags_by_room rows = fold (\<lambda>(roomID, tag, content) out. mput roomID (mput tag content (mgetz [] out roomID)) out) rows []"

definition add_tags :: "ExtStore \<Rightarrow> string \<times> (string, string) gomap \<Rightarrow> (string, AccountDataEntry list) gomap \<Rightarrow> string + (string, AccountDataEntry list) gomap" where
  "add_tags x t byRoom = then_do (xs_tagged x (snd t)) (\<lambda>body.
     Inr (mput (fst t) (mgetz [] byRoom (fst t) @ [\<lparr>ad_Type = ''m.tag'', ad_Content = body\<rparr>]) byRoom))"

definition AllRoomAccountData :: "ExtStore \<Rightarrow> string \<Rightarrow> string + (string, AccountDataEntry list) gomap" where
  "AllRoomAccountData x userID =
     then_do (xs_roomTags x userID) (\<lambda>tagRows.
     let tagsByRoom = tags_by_room tagRows
     in then_do (fold_do (add_tags x) tagsByRoom []) (\<lambda>byRoom.
        then_do (xs_allRooms x userID (xs_MSC3391Enabled x)) (\<lambda>rows.
        Inr (fold (\<lambda>(roomID, e) byRoom. if ad_Type e = ''m.tag'' \<and> mget tagsByRoom roomID \<noteq> None then byRoom
                     else mput roomID (mgetz [] byRoom roomID @ [e]) byRoom) rows byRoom))))"

definition ReceiptsSince :: "ExtStore \<Rightarrow> string list \<Rightarrow> int \<Rightarrow> int \<Rightarrow> string + (string, ReceiptRow list) gomap" where
  "ReceiptsSince x roomIDs since now = (if roomIDs = [] then Inr [] else map_sum id group_receipts (xs_receiptsSince x roomIDs since now))"

definition StickyEvents :: "ExtStore \<Rightarrow> string list \<Rightarrow> int \<Rightarrow> int \<Rightarrow> int \<Rightarrow> int \<Rightarrow> string + int \<times> (string, string list) gomap" where
  "StickyEvents x roomIDs frm upTo nowMS limit =
     (if roomIDs = [] \<or> frm \<ge> upTo \<or> limit \<le> 0 then Inr (upTo, [])
      else map_sum id (\<lambda>rows. if rows = [] then (upTo, []) else (fst (last rows), group_rows (map snd rows))) (xs_sticky x nowMS frm upTo roomIDs limit))"

section \<open>Which rooms an extension is about\<close>

fun scope_rooms :: "string set \<Rightarrow> string list \<Rightarrow> string set" where
  "scope_rooms subscribed [] = {}"
| "scope_rooms subscribed (roomID # rest) =
     (if roomID = Wildcard then subscribed else (if roomID \<in> subscribed then {roomID} else {}) \<union> scope_rooms subscribed rest)"

definition list_rooms :: "ListResult \<Rightarrow> string set" where
  "list_rooms l = set (concat (map op_RoomIDs (lr_Ops l)))"

fun scope_lists :: "(string, ListResult) gomap \<Rightarrow> string list \<Rightarrow> string set" where
  "scope_lists found [] = {}"
| "scope_lists found (key # rest) =
     (if key = Wildcard then (\<Union>(k, l) \<in> set found. list_rooms l)
      else (case mget found key of None \<Rightarrow> {} | Some l \<Rightarrow> list_rooms l) \<union> scope_lists found rest)"

definition relevantRooms :: "extensionInputs \<Rightarrow> ExtensionScope \<Rightarrow> string set" where
  "relevantRooms inp scope =
     scope_rooms (xi_Subscribed inp) (case es_Rooms scope of None \<Rightarrow> [] | Some rs \<Rightarrow> rs) \<union>
     scope_lists (xi_Lists inp) (case es_Lists scope of None \<Rightarrow> [] | Some ls \<Rightarrow> ls)"

text \<open>The split of the rooms by what the connection has been told: sent from scratch, from a position, or from the last response.\<close>

fun split_rooms :: "(string \<Rightarrow> bool) \<Rightarrow> RoomStatusMap \<Rightarrow> string list \<Rightarrow> string list \<times> (string, int) gomap \<times> string list" where
  "split_rooms scratch prev [] = ([], [], [])"
| "split_rooms scratch prev (roomID # rest) =
     (case split_rooms scratch prev rest of (initial, previously, live) \<Rightarrow>
        let status = HaveSentRoom prev roomID
        in if scratch roomID then (roomID # initial, previously, live)
           else if hs_Status status = FlagLive then (initial, previously, roomID # live)
           else if hs_Status status = FlagPreviously then
             (case ParseInt (hs_LastToken status) of None \<Rightarrow> (roomID # initial, previously, live) | Some pos \<Rightarrow> (initial, (roomID, pos) # previously, live))
           else (roomID # initial, previously, live))"

section \<open>Encryption\<close>

record deviceListsJSON =
  dj_Changed :: "string list"
  dj_Left :: "string list"

record e2eeJSON =
  ej_DeviceOneTimeKeysCount :: "(string, int) gomap"
  ej_DeviceUnusedFallbackKeys :: "string list"
  ej_DeviceLists :: "deviceListsJSON option"

text \<open>The caller's own joins and leaves, and everybody else's; each a pair of who came and who went.\<close>

definition self_step :: "string set \<Rightarrow> MemberDelta \<Rightarrow> string set \<times> string set \<Rightarrow> string set \<times> string set" where
  "self_step excluded c s =
     (case s of (joined, left) \<Rightarrow>
        if md_RoomID c \<in> excluded then s
        else if md_Membership c = ''join'' then
          (if md_PrevMembership c \<noteq> ''join'' then (insert (md_RoomID c) joined, left - {md_RoomID c}) else s)
        else if md_PrevMembership c = ''join'' then (joined - {md_RoomID c}, insert (md_RoomID c) left)
        else s)"

definition present :: "string \<Rightarrow> bool" where
  "present m \<longleftrightarrow> m = ''join'' \<or> m = ''invite'' \<or> m = ''knock''"

definition other_step :: "MemberDelta \<Rightarrow> string set \<times> string set \<Rightarrow> string set \<times> string set" where
  "other_step c s =
     (case s of (new, left) \<Rightarrow>
        let membership = (if \<not> md_HasEvent c then [] else md_Membership c)
        in if present membership then
             (if \<not> present (md_PrevMembership c) then (insert (md_UserID c) new, left - {md_UserID c}) else s)
           else if present (md_PrevMembership c) then (new - {md_UserID c}, insert (md_UserID c) left)
           else s)"

definition deviceListUpdates :: "ExtStore \<Rightarrow> (string set \<Rightarrow> string list) \<Rightarrow> string \<Rightarrow> Token \<Rightarrow> Token \<Rightarrow> string + deviceListsJSON" where
  "deviceListUpdates x ord userID frm now =
     then_do (xs_joined x userID) (\<lambda>joined.
     let joinedIDs = sort (map rfu_RoomID joined); roomFrom = RoomKey_MaxStreamPos (tk_Room frm); roomTo = RoomKey_MaxStreamPos (tk_Room now)
     in then_do (SelfMemberDeltas x userID roomFrom roomTo) (\<lambda>self.
        case fold (self_step (xs_ExcludedRooms x)) self ({}, {}) of (newlyJoined, newlyLeft) \<Rightarrow>
        then_do (MemberDeltasInRooms x joinedIDs roomFrom roomTo) (\<lambda>deltas.
        case fold other_step deltas ({}, {}) of (newUsers, leftUsers) \<Rightarrow>
        then_do (DeviceListChanges x ord userID joinedIDs (mw_Stream (tk_DeviceList frm)) (MultiWriter_MaxStreamPos (tk_DeviceList now))) (\<lambda>changed.
        then_do (if newlyJoined = {} then Inr [] else JoinedMembersOf x (sortedKeys newlyJoined)) (\<lambda>members.
        then_do (if newlyLeft = {} then Inr [] else JoinedMembersOf x (sortedKeys newlyLeft)) (\<lambda>gone.
        let leftUsers = leftUsers \<union> set gone
        in then_do (if leftUsers = {} then Inr {} else UsersJoinedToAny x (sortedKeys leftUsers) joinedIDs) (\<lambda>sharing.
           Inr \<lparr>dj_Changed = sortedKeys (changed \<union> newUsers \<union> set members), dj_Left = sortedKeys (leftUsers - sharing)\<rparr>)))))))"

definition e2eeExtension :: "ExtStore \<Rightarrow> (string set \<Rightarrow> string list) \<Rightarrow> extensionInputs \<Rightarrow> string + e2eeJSON" where
  "e2eeExtension x ord inp =
     then_do (if xi_DeviceID inp = [] then Inr \<lparr>dk_OneTimeKeys = [], dk_UnusedFallbackKeyTypes = []\<rparr> else ext_DeviceKeyCounts x (xi_UserID inp) (xi_DeviceID inp)) (\<lambda>counts.
     then_do (case xi_From inp of None \<Rightarrow> Inr None | Some frm \<Rightarrow> map_sum id Some (deviceListUpdates x ord (xi_UserID inp) frm (xi_Now inp))) (\<lambda>updates.
     Inr \<lparr>ej_DeviceOneTimeKeysCount = dk_OneTimeKeys counts, ej_DeviceUnusedFallbackKeys = dk_UnusedFallbackKeyTypes counts, ej_DeviceLists = updates\<rparr>))"

definition e2eeIsNews :: "e2eeJSON \<Rightarrow> bool" where
  "e2eeIsNews v \<longleftrightarrow> (case ej_DeviceLists v of None \<Rightarrow> False | Some l \<Rightarrow> dj_Changed l \<noteq> [] \<or> dj_Left l \<noteq> [])"

section \<open>Typing\<close>

text \<open>The typists of each room reported; \<open>None\<close> for a worker without replication.\<close>

definition typingExtension :: "Subscriber option \<Rightarrow> extensionInputs \<Rightarrow> ExtensionScope \<Rightarrow> (string, string list) gomap" where
  "typingExtension replication inp scope =
     (case replication of
        None \<Rightarrow> []
      | Some s \<Rightarrow>
          fold (\<lambda>roomID out. if roomID \<in> relevantRooms inp scope then mput roomID (TypingIn s roomID) out else out)
            (TypingChangedSince s (case xi_From inp of None \<Rightarrow> 0 | Some frm \<Rightarrow> tk_Typing frm)) [])"

definition typingIsNews :: "(string, string list) gomap \<Rightarrow> bool" where
  "typingIsNews v \<longleftrightarrow> v \<noteq> []"

section \<open>Account data\<close>

record accountDataJSON =
  aj_Global :: "string list"
  aj_Rooms :: "(string, string list) gomap"

fun add_entries :: "ExtStore \<Rightarrow> AccountDataEntry list \<Rightarrow> string set \<Rightarrow> string list \<Rightarrow> string + string list" where
  "add_entries x [] seen out = Inr out"
| "add_entries x (e # es) seen out =
     (if ad_Type e \<in> seen then add_entries x es seen out
      else then_do (xs_entry x e) (\<lambda>body. add_entries x es (insert (ad_Type e) seen) (out @ [body])))"

definition addRoomAccountData :: "ExtStore \<Rightarrow> string \<Rightarrow> AccountDataEntry list \<Rightarrow> (string, string list) gomap \<Rightarrow> string + (string, string list) gomap" where
  "addRoomAccountData x roomID entries rooms =
     (let existing = mgetz [] rooms roomID; j = qs_json (xs_room x)
      in map_sum id (\<lambda>bodies. mput roomID bodies rooms) (add_entries x entries (set (map (\<lambda>b. string_of j (jl_Get j b ''type'')) existing)) existing))"

definition add_known :: "ExtStore \<Rightarrow> (string, AccountDataEntry list) gomap \<Rightarrow> string \<Rightarrow> (string, string list) gomap \<Rightarrow> string + (string, string list) gomap" where
  "add_known x changed roomID rooms = (case mget changed roomID of None \<Rightarrow> Inr rooms | Some es \<Rightarrow> if es = [] then Inr rooms else addRoomAccountData x roomID es rooms)"

definition global_account_data :: "ExtStore \<Rightarrow> extensionInputs \<Rightarrow> string + string list" where
  "global_account_data x inp =
     then_do (case xi_From inp of
                None \<Rightarrow> xs_global x (xi_UserID inp) (xs_MSC3391Enabled x)
              | Some frm \<Rightarrow> xs_globalSince x (xi_UserID inp) (tk_AccountData frm) (tk_AccountData (xi_Now inp)) (xs_MSC3391Enabled x)) (\<lambda>entries.
     then_do (fold_do (\<lambda>e out. map_sum id (\<lambda>body. out @ [body]) (xs_entry x e)) entries []) (\<lambda>bodies.
     if (case xi_From inp of None \<Rightarrow> True | Some frm \<Rightarrow> tk_PushRules frm < tk_PushRules (xi_Now inp))
     then map_sum id (\<lambda>rules. bodies @ [rules]) (xs_pushRules x (xi_UserID inp)) else Inr bodies))"

text \<open>What is sent, and what the connection is told.\<close>

definition accountDataExtension :: "ExtStore \<Rightarrow> extensionInputs \<Rightarrow> ExtensionScope \<Rightarrow> string + accountDataJSON \<times> RoomStatusMap" where
  "accountDataExtension x inp scope =
     then_do (global_account_data x inp) (\<lambda>global.
     let relevant = relevantRooms inp scope; new = pc_AccountData (xi_New inp)
     in if relevant = {} then Inr (\<lparr>aj_Global = global, aj_Rooms = []\<rparr>, new)
        else (case split_rooms (\<lambda>_. xi_From inp = None) (pc_AccountData (xi_Previous inp)) (sortedKeys relevant) of (initial, previously, live) \<Rightarrow>
          then_do (case xi_From inp of None \<Rightarrow> Inr [] | Some frm \<Rightarrow> RoomAccountDataSince x (xi_UserID inp) (tk_AccountData frm) (tk_AccountData (xi_Now inp))) (\<lambda>changed.
          then_do (if xi_From inp = None then Inr [] else fold_do (add_known x changed) live []) (\<lambda>rooms.
          then_do (fold_do (\<lambda>(roomID, pos) rooms. then_do (RoomAccountDataSince x (xi_UserID inp) pos (tk_AccountData (xi_Now inp))) (\<lambda>entries.
                     add_known x entries roomID rooms)) previously rooms) (\<lambda>rooms.
          then_do (if initial = [] then Inr rooms
                   else then_do (AllRoomAccountData x (xi_UserID inp)) (\<lambda>everything.
                        fold_do (\<lambda>roomID rooms. add_known x everything roomID (mput roomID [] rooms)) initial rooms)) (\<lambda>rooms.
          let new = RecordSentRooms new (sort (initial @ sortedKeys (set (mkeys previously))));
              new = (case xi_From inp of
                       None \<Rightarrow> new
                     | Some frm \<Rightarrow> RecordUnsentRooms new (sort (filter (\<lambda>roomID. roomID \<notin> relevant) (mkeys changed))) (FormatInt (tk_AccountData frm)))
          in Inr (\<lparr>aj_Global = global, aj_Rooms = rooms\<rparr>, new)))))))"

definition accountDataIsNews :: "accountDataJSON \<Rightarrow> bool" where
  "accountDataIsNews v \<longleftrightarrow> aj_Global v \<noteq> [] \<or> aj_Rooms v \<noteq> []"

section \<open>Receipts\<close>

definition append_rows :: "(string, ReceiptRow list) gomap \<Rightarrow> (string, ReceiptRow list) gomap \<Rightarrow> (string, ReceiptRow list) gomap" where
  "append_rows rows byRoom = fold (\<lambda>(roomID, r) out. mput roomID (mgetz [] out roomID @ r) out) rows byRoom"

definition timeline_ids :: "ExtStore \<Rightarrow> RoomResult \<Rightarrow> string list" where
  "timeline_ids x room = (let j = qs_json (xs_room x) in map (\<lambda>ev. string_of j (jl_Get j ev ''event_id'')) (rr_Timeline room))"

text \<open>The receipts of the rooms sent from scratch: those on events of the timeline, and the user's own.\<close>

definition initial_receipts :: "ExtStore \<Rightarrow> extensionInputs \<Rightarrow> string list \<Rightarrow> (string, ReceiptRow list) gomap \<Rightarrow> string + (string, ReceiptRow list) gomap" where
  "initial_receipts x inp initial byRoom =
     (if initial = [] then Inr byRoom
      else
        let byEvent = filter (\<lambda>(roomID, ids). ids \<noteq> []) (map (\<lambda>roomID. (roomID, case mget (xi_Rooms inp) roomID of None \<Rightarrow> []
              | Some room \<Rightarrow> filter (\<lambda>i. i \<noteq> []) (timeline_ids x room))) initial)
        in then_do (ReceiptsForEvents (xs_receiptsForEvents x) byEvent) (\<lambda>rows.
           then_do (ReceiptsForUserInRooms (xs_ownReceipts x) (xi_UserID inp) initial (MultiWriter_MaxStreamPos (tk_Receipt (xi_Now inp)))) (\<lambda>mine.
           Inr (append_rows mine (append_rows rows byRoom)))))"

definition receipt_sections :: "ExtStore \<Rightarrow> string \<Rightarrow> (string, ReceiptRow list) gomap \<Rightarrow> string + (string, receipt_content) gomap" where
  "receipt_sections x userID byRoom =
     fold_do (\<lambda>roomID out. map_sum id (\<lambda>body. case body of None \<Rightarrow> out | Some c \<Rightarrow> mput roomID c out)
       (ReceiptEvent (xs_setThread x) (mgetz [] byRoom roomID) userID True)) (sortedKeys (set (mkeys byRoom))) []"

definition receiptsExtension :: "ExtStore \<Rightarrow> extensionInputs \<Rightarrow> ExtensionScope \<Rightarrow> string + (string, receipt_content) gomap \<times> RoomStatusMap" where
  "receiptsExtension x inp scope =
     (let relevant = relevantRooms inp scope; prev = pc_Receipts (xi_Previous inp); nowMax = MultiWriter_MaxStreamPos (tk_Receipt (xi_Now inp));
          scratch = (\<lambda>roomID. xi_From inp = None \<or> (case mget (xi_Rooms inp) roomID of None \<Rightarrow> False | Some room \<Rightarrow> rr_Initial room \<or> rr_UnstableExpandedTimeline room))
      in case split_rooms scratch prev (sortedKeys relevant) of (initial, previously, live) \<Rightarrow>
        then_do (case xi_From inp of None \<Rightarrow> Inr [] | Some frm \<Rightarrow> ReceiptsSince x live (mw_Stream (tk_Receipt frm)) nowMax) (\<lambda>rows.
        then_do (fold_do (\<lambda>(roomID, pos) byRoom. map_sum id (\<lambda>rows. append_rows rows byRoom) (ReceiptsSince x [roomID] pos nowMax)) previously (append_rows rows [])) (\<lambda>byRoom.
        then_do (initial_receipts x inp initial byRoom) (\<lambda>byRoom.
        then_do (receipt_sections x (xi_UserID inp) byRoom) (\<lambda>out.
        let new = RecordSentRooms (pc_Receipts (xi_New inp)) (sort (initial @ sortedKeys (set (mkeys previously))))
        in case xi_From inp of
             None \<Rightarrow> Inr (out, new)
           | Some frm \<Rightarrow>
               let candidates = sort (map fst (filter (\<lambda>(roomID, status). hs_Status status = FlagLive \<and> roomID \<notin> relevant) (RoomStatusMap_All prev)))
               in if candidates = [] then Inr (out, new)
                  else then_do (ReceiptsSince x candidates (mw_Stream (tk_Receipt frm)) nowMax) (\<lambda>rows.
                       Inr (out, RecordUnsentRooms new (sort (mkeys rows)) (FormatInt (mw_Stream (tk_Receipt frm))))))))))"

definition receiptsIsNews :: "(string, receipt_content) gomap \<Rightarrow> bool" where
  "receiptsIsNews v \<longleftrightarrow> v \<noteq> []"

section \<open>Thread subscriptions\<close>

record threadSubscriptionsJSON =
  tsj_Subscribed :: "(string, (string, bool \<times> int) gomap) gomap"
  tsj_Unsubscribed :: "(string, (string, int) gomap) gomap"
  tsj_PrevBatch :: "string option"

definition thread_update :: "ThreadSubscriptionUpdate \<Rightarrow> threadSubscriptionsJSON \<Rightarrow> threadSubscriptionsJSON" where
  "thread_update u out =
     (if tu_Subscribed u
      then out\<lparr>tsj_Subscribed := mput (tu_RoomID u) (mput (tu_ThreadRoot u) (tu_Automatic u, tu_StreamID u) (mgetz [] (tsj_Subscribed out) (tu_RoomID u))) (tsj_Subscribed out)\<rparr>
      else out\<lparr>tsj_Unsubscribed := mput (tu_RoomID u) (mput (tu_ThreadRoot u) (tu_StreamID u) (mgetz [] (tsj_Unsubscribed out) (tu_RoomID u))) (tsj_Unsubscribed out)\<rparr>)"

definition threadSubscriptionsExtension :: "ExtStore \<Rightarrow> extensionInputs \<Rightarrow> ThreadSubscriptionsExtension \<Rightarrow> string + threadSubscriptionsJSON option" where
  "threadSubscriptionsExtension x inp req =
     (let frm = (case xi_From inp of None \<Rightarrow> 0 | Some t \<Rightarrow> tk_ThreadSubscriptions t); limit = (if ts_Limit req \<le> 0 then 100 else ts_Limit req)
      in map_sum id (\<lambda>updates. case updates of
             [] \<Rightarrow> None
           | first # _ \<Rightarrow>
               let out = fold thread_update updates \<lparr>tsj_Subscribed = [], tsj_Unsubscribed = [], tsj_PrevBatch = None\<rparr>
               in Some (if int (length updates) = limit then out\<lparr>tsj_PrevBatch := Some (''ts'' @ FormatInt (wrap64 (tu_StreamID first - 1)))\<rparr> else out))
         (ThreadSubscriptionsSince (xs_threads x) (xi_UserID inp) frm (tk_ThreadSubscriptions (xi_Now inp)) limit))"

definition threadSubscriptionsIsNews :: "threadSubscriptionsJSON \<Rightarrow> bool" where
  "threadSubscriptionsIsNews v \<longleftrightarrow> tsj_Subscribed v \<noteq> [] \<or> tsj_Unsubscribed v \<noteq> [] \<or> tsj_PrevBatch v \<noteq> None"

section \<open>Sticky events\<close>

definition stickyMaxEventsInSync :: int where "stickyMaxEventsInSync = 100"
definition stickyTokenPrefix :: string where "stickyTokenPrefix = ''sticky_''"

record stickyEventsJSON =
  sj_NextBatch :: string
  sj_Rooms :: "(string, string list) gomap"

definition sticky_since :: "StickyEventsExtension \<Rightarrow> string + int" where
  "sticky_since req =
     (if st_SinceSet req \<and> st_Since req \<noteq> [] then
        (if take (length stickyTokenPrefix) (st_Since req) \<noteq> stickyTokenPrefix then Inl ''sticky events since token: prefix''
         else (case ParseInt (drop (length stickyTokenPrefix) (st_Since req)) of None \<Rightarrow> Inl ''sticky events since token: number'' | Some n \<Rightarrow> Inr n))
      else Inr 0)"

definition sticky_timeline_event :: "StateEvent \<Rightarrow> TimelineEvent" where
  "sticky_timeline_event ev = (let s = sv_Stored ev in
     \<lparr>te_EventID = sd_EventID s, te_RoomID = sd_RoomID s, te_Type = sd_Type s, te_JSON = sd_JSON s,
      te_InternalMetadata = (case sd_InternalMetadata s of None \<Rightarrow> [] | Some m \<Rightarrow> m), te_RoomVersion = sd_RoomVersion s, te_Sender = sv_Sender ev,
      te_StreamOrdering = 0, te_TopologicalOrder = 0, te_InstanceName = [], te_StateKey = sv_StateKey ev, te_IsState = False\<rparr>)"

definition sticky_room :: "ExtStore \<Rightarrow> extensionInputs \<Rightarrow> string \<Rightarrow> string list \<Rightarrow> string + string list" where
  "sticky_room x inp roomID found =
     (let d = xs_room x;
          inTimeline = (case mget (xi_Rooms inp) roomID of None \<Rightarrow> {} | Some room \<Rightarrow> set (timeline_ids x room));
          ids = filter (\<lambda>i. i \<notin> inTimeline) found
      in if ids = [] then Inr []
         else then_do (EventsByID (qs_events d) ids (case mget (xi_Membership inp) roomID of None \<Rightarrow> [] | Some r \<Rightarrow> sm_RoomVersion r)) (\<lambda>events.
              let known = filter (\<lambda>i. mget events i \<noteq> None) ids;
                  loaded = map (\<lambda>i. sticky_timeline_event (the (mget events i))) known
              in then_do (qs_visible d roomID (xi_UserID inp) loaded False (xi_NowMS inp) (set known)) (\<lambda>filtered.
                 then_do (Redactions (qs_redactions d) ids) (\<lambda>redactions.
                 render_events (render_event d redactions [] [] (xi_NowMS inp) (EventConfigAdmin d (xi_UserID inp) (xi_DeviceID inp) 0 (rs_AdminMetadata filtered)))
                   (rs_Events filtered) (rs_Memberships filtered)))))"

definition stickyEventsExtension :: "ExtStore \<Rightarrow> extensionInputs \<Rightarrow> StickyEventsExtension \<Rightarrow> string + stickyEventsJSON option" where
  "stickyEventsExtension x inp req =
     then_do (sticky_since req) (\<lambda>frm.
     let limit = (if st_Limit req \<le> 0 \<or> st_Limit req > stickyMaxEventsInSync then stickyMaxEventsInSync else st_Limit req)
     in then_do (StickyEvents x (sortedKeys (xi_AllRooms inp)) frm (tk_StickyEvents (xi_Now inp)) (xi_NowMS inp) limit) (\<lambda>(upTo, byRoom).
        let nextBatch = stickyTokenPrefix @ FormatInt upTo
        in if byRoom = [] then Inr None
           else if concat (map snd byRoom) = [] then Inr (Some \<lparr>sj_NextBatch = nextBatch, sj_Rooms = []\<rparr>)
           else then_do (fold_do (\<lambda>roomID out. map_sum id (\<lambda>events. mput roomID events out) (sticky_room x inp roomID (mgetz [] byRoom roomID)))
                  (sortedKeys (set (mkeys byRoom))) []) (\<lambda>rooms.
                Inr (Some \<lparr>sj_NextBatch = nextBatch, sj_Rooms = rooms\<rparr>))))"

definition stickyEventsIsNews :: "stickyEventsJSON \<Rightarrow> bool" where
  "stickyEventsIsNews v \<longleftrightarrow> sj_Rooms v \<noteq> []"

section \<open>The section\<close>

record extensions =
  xo_ToDevice :: "toDeviceJSON option"
  xo_E2EE :: "e2eeJSON option"
  xo_AccountData :: "accountDataJSON option"
  xo_Receipts :: "(string, receipt_content) gomap option"
  xo_Typing :: "(string, string list) gomap option"
  xo_ThreadSubscriptions :: "threadSubscriptionsJSON option"
  xo_StickyEvents :: "stickyEventsJSON option"

definition no_extensions :: extensions where
  "no_extensions = \<lparr>xo_ToDevice = None, xo_E2EE = None, xo_AccountData = None, xo_Receipts = None, xo_Typing = None, xo_ThreadSubscriptions = None, xo_StickyEvents = None\<rparr>"

definition when_enabled :: "('r \<Rightarrow> bool) \<Rightarrow> 'r option \<Rightarrow> 'r option" where
  "when_enabled enabled r = (case r of None \<Rightarrow> None | Some e \<Rightarrow> if enabled e then Some e else None)"

text \<open>The sections after \<^verbatim>\<open>to_device\<close>, whether they are news, and what the connection is told.\<close>

definition room_extensions :: "ExtStore \<Rightarrow> (string set \<Rightarrow> string list) \<Rightarrow> Subscriber option \<Rightarrow> extensionInputs \<Rightarrow> Extensions \<Rightarrow> string + extensions \<times> bool \<times> PerConnectionState" where
  "room_extensions x ord replication inp ext =
     (let new = xi_New inp in
      then_do (case when_enabled ee_Enabled (ex_E2EE ext) of None \<Rightarrow> Inr None | Some _ \<Rightarrow> map_sum id Some (e2eeExtension x ord inp)) (\<lambda>e2ee.
      then_do (case when_enabled es_Enabled (ex_AccountData ext) of None \<Rightarrow> Inr (None, pc_AccountData new)
               | Some scope \<Rightarrow> map_sum id (\<lambda>(v, st). (Some v, st)) (accountDataExtension x inp scope)) (\<lambda>(account, accountState).
      then_do (case when_enabled es_Enabled (ex_Receipts ext) of None \<Rightarrow> Inr (None, pc_Receipts new)
               | Some scope \<Rightarrow> map_sum id (\<lambda>(v, st). (Some v, st)) (receiptsExtension x inp scope)) (\<lambda>(receipts, receiptState).
      let typing = map_option (typingExtension replication inp) (when_enabled es_Enabled (ex_Typing ext))
      in then_do (case when_enabled (\<lambda>r. ts_Enabled r \<and> xs_MSC4308Enabled x) (ex_ThreadSubscriptions ext) of None \<Rightarrow> Inr None
                  | Some req \<Rightarrow> threadSubscriptionsExtension x inp req) (\<lambda>threads.
         then_do (case when_enabled (\<lambda>r. st_Enabled r \<and> qs_MSC4354Enabled (xs_room x)) (ex_StickyEvents ext) of None \<Rightarrow> Inr None
                  | Some req \<Rightarrow> stickyEventsExtension x inp req) (\<lambda>sticky.
         Inr (no_extensions\<lparr>xo_E2EE := e2ee, xo_AccountData := account, xo_Receipts := receipts, xo_Typing := typing, xo_ThreadSubscriptions := threads, xo_StickyEvents := sticky\<rparr>,
              (case e2ee of None \<Rightarrow> False | Some v \<Rightarrow> e2eeIsNews v) \<or> (case account of None \<Rightarrow> False | Some v \<Rightarrow> accountDataIsNews v) \<or>
              (case receipts of None \<Rightarrow> False | Some v \<Rightarrow> receiptsIsNews v) \<or> (case typing of None \<Rightarrow> False | Some v \<Rightarrow> typingIsNews v) \<or>
              (case threads of None \<Rightarrow> False | Some v \<Rightarrow> threadSubscriptionsIsNews v) \<or> (case sticky of None \<Rightarrow> False | Some v \<Rightarrow> stickyEventsIsNews v),
              new\<lparr>pc_AccountData := accountState, pc_Receipts := receiptState\<rparr>)))))))"

definition buildExtensions ::
  "ExtStore \<Rightarrow> (string set \<Rightarrow> string list) \<Rightarrow> (nat \<Rightarrow> bool) \<Rightarrow> bool \<Rightarrow> bool \<Rightarrow> Subscriber option \<Rightarrow> Deleter \<Rightarrow> extensionInputs \<Rightarrow> Extensions option \<Rightarrow>
   Deleter \<times> (string + extensions \<times> bool \<times> PerConnectionState)" where
  "buildExtensions x ord up readUp inbox replication dl inp ext =
     (case ext of
        None \<Rightarrow> (dl, Inr (no_extensions, False, xi_New inp))
      | Some ext \<Rightarrow>
          (case (case when_enabled td_Enabled (ex_ToDevice ext) of None \<Rightarrow> (dl, Inr None)
                 | Some req \<Rightarrow> (case toDeviceExtension up readUp inbox dl (xi_UserID inp) (xi_DeviceID inp) (tk_ToDevice (xi_Now inp)) req of (dl, r) \<Rightarrow> (dl, map_sum id Some r))) of
             (dl, Inl e) \<Rightarrow> (dl, Inl e)
           | (dl, Inr toDevice) \<Rightarrow>
               (dl, map_sum id (\<lambda>(out, news, new). (out\<lparr>xo_ToDevice := toDevice\<rparr>, (case toDevice of None \<Rightarrow> False | Some v \<Rightarrow> toDeviceIsNews v) \<or> news, new))
                      (room_extensions x ord replication inp ext))))"

section \<open>Loops over maps\<close>

lemma group_fold:
  "mgetz [] (fold (\<lambda>(k, v) out. mput k (mgetz [] out k @ [v]) out) rows m) k = mgetz [] m k @ map snd (filter (\<lambda>(k', v). k' = k) rows)"
  by (induction rows arbitrary: m) (auto simp: mgetz_def split: option.split)

lemma group_rows_lookup: "mgetz [] (group_rows rows) k = map snd (filter (\<lambda>(k', v). k' = k) rows)"
  using group_fold [of rows "[]" k] by (simp add: group_rows_def mgetz_def)

lemma group_rows_keys: "set (mkeys (group_rows rows)) = fst ` set rows"
proof -
  have "mget (fold (\<lambda>(k, v) out. mput k (mgetz [] out k @ [v]) out) rows m) k \<noteq> None \<longleftrightarrow> mget m k \<noteq> None \<or> k \<in> fst ` set rows" for m :: "('a, 'b list) gomap" and k
    by (induction rows arbitrary: m) auto
  from this [of "[]"] have "mget (group_rows rows) k \<noteq> None \<longleftrightarrow> k \<in> fst ` set rows" for k by (simp add: group_rows_def)
  then show ?thesis by (auto simp: map_of_eq_None_iff)
qed

text \<open>A loop that touches one key in each round: a key it does not meet is left alone, and one it meets is touched once.\<close>

lemma fold_do_frame:
  assumes "fold_do f ys s = Inr s'" and "\<And>y s s'. y \<in> set ys \<Longrightarrow> f y s = Inr s' \<Longrightarrow> mget s' r = mget s r"
  shows "mget s' r = mget s r"
  using assms
proof (induction ys arbitrary: s)
  case (Cons y ys)
  then obtain s1 where "f y s = Inr s1" "fold_do f ys s1 = Inr s'" by (auto simp: then_do_Inr)
  with Cons.IH [of s1] Cons.prems(2) show ?case by (metis list.set_intros)
qed simp

lemma fold_do_hit:
  assumes "fold_do f ys s = Inr s'" and "y \<in> set ys" and "distinct (map key ys)" and "\<And>z s s'. z \<in> set ys \<Longrightarrow> f z s = Inr s' \<Longrightarrow> key z \<noteq> key y \<Longrightarrow> mget s' (key y) = mget s (key y)"
  obtains s1 s2 where "f y s1 = Inr s2" and "mget s1 (key y) = mget s (key y)" and "mget s' (key y) = mget s2 (key y)"
proof -
  have "\<exists>s1 s2. f y s1 = Inr s2 \<and> mget s1 (key y) = mget s (key y) \<and> mget s' (key y) = mget s2 (key y)"
    using assms
  proof (induction ys arbitrary: s)
    case (Cons z ys)
    then obtain s0 where z: "f z s = Inr s0" and rest: "fold_do f ys s0 = Inr s'" by (auto simp: then_do_Inr)
    show ?case
    proof (cases "y = z")
      case True
      have "mget s' (key y) = mget s0 (key y)"
      proof (rule fold_do_frame [OF rest])
        show "mget t' (key y) = mget t (key y)" if "x \<in> set ys" "f x t = Inr t'" for x t t'
          using Cons.prems(3,4) that True by (metis distinct.simps(2) image_eqI list.set_intros(2) list.set_map list.simps(9))
      qed
      with z True show ?thesis by auto
    next
      case False
      with Cons.prems have y: "y \<in> set ys" "key z \<noteq> key y" by auto
      have "mget s0 (key y) = mget s (key y)" using Cons.prems(4) [of z] z y(2) by simp
      moreover have "\<exists>s1 s2. f y s1 = Inr s2 \<and> mget s1 (key y) = mget s0 (key y) \<and> mget s' (key y) = mget s2 (key y)"
        using Cons.prems by (intro Cons.IH [OF rest y(1)]) auto
      ultimately show ?thesis by simp
    qed
  qed simp
  then show thesis using that by blast
qed

section \<open>Account data over many requests\<close>

text \<open>The table of room account data, one row for each room and type, as the queries answer.\<close>

definition account_table :: "ExtStore \<Rightarrow> string \<Rightarrow> (string \<times> int \<times> AccountDataEntry) list \<Rightarrow> bool" where
  "account_table x userID T \<longleftrightarrow> distinct (map (\<lambda>(r, q, e). (r, ad_Type e)) T) \<and> (\<forall>(r, q, e) \<in> set T. ad_Type e \<noteq> ''m.tag'') \<and>
     (\<forall>a b m rows. xs_roomSince x userID a b m = Inr rows \<longrightarrow> rows = map (\<lambda>(r, q, e). (r, e)) (filter (\<lambda>(r, q, e). a < q \<and> q \<le> b) T)) \<and>
     (\<forall>m rows. xs_allRooms x userID m = Inr rows \<longrightarrow> rows = map (\<lambda>(r, q, e). (r, e)) T)"

definition account_serves ::
  "ExtStore \<Rightarrow> string \<Rightarrow> (string \<times> int \<times> AccountDataEntry) list \<Rightarrow> extensionInputs \<times> ExtensionScope \<Rightarrow> (string \<Rightarrow> HaveSent) \<Rightarrow> (string \<Rightarrow> HaveSent) \<Rightarrow> bool" where
  "account_serves x userID T i s s' \<longleftrightarrow> (case i of (inp, scope) \<Rightarrow>
     account_table x userID T \<and> xi_UserID inp = userID \<and> (\<forall>f. xi_From inp = Some f \<longrightarrow> int64 (tk_AccountData f)) \<and>
     finite (relevantRooms inp scope) \<and> relevantRooms inp scope \<noteq> {} \<and>
     HaveSentRoom (pc_AccountData (xi_Previous inp)) = s \<and> HaveSentRoom (pc_AccountData (xi_New inp)) = s \<and>
     (\<exists>out st. accountDataExtension x inp scope = Inr (out, st) \<and> s' = HaveSentRoom st))"

definition account_sends :: "ExtStore \<Rightarrow> (string \<times> int \<times> AccountDataEntry) list \<Rightarrow> extensionInputs \<times> ExtensionScope \<Rightarrow> string \<Rightarrow> int \<Rightarrow> bool" where
  "account_sends x T i r q \<longleftrightarrow> (\<exists>out st. accountDataExtension x (fst i) (snd i) = Inr (out, st) \<and>
     (\<forall>e. (r, q, e) \<in> set T \<longrightarrow> (\<exists>body \<in> set (mgetz [] (aj_Rooms out) r). xs_entry x e = Inr body)))"

lemma split_rooms_all:
  "split_rooms scratch prev rooms = (initial, previously, live) \<Longrightarrow> set initial \<union> set (mkeys previously) \<union> set live = set rooms \<and>
    (r \<in> set initial \<longrightarrow> scratch r \<or> hs_Status (HaveSentRoom prev r) \<noteq> FlagLive) \<and>
    (r \<in> set live \<longrightarrow> \<not> scratch r \<and> hs_Status (HaveSentRoom prev r) = FlagLive) \<and>
    ((r, p) \<in> set previously \<longrightarrow> \<not> scratch r \<and> hs_Status (HaveSentRoom prev r) = FlagPreviously \<and> ParseInt (hs_LastToken (HaveSentRoom prev r)) = Some p) \<and>
    (distinct rooms \<longrightarrow> distinct (initial @ mkeys previously @ live))"
proof (induction rooms arbitrary: initial previously live)
  case (Cons a rooms)
  obtain i pr l where rest: "split_rooms scratch prev rooms = (i, pr, l)" by (metis prod_cases3)
  note IH = Cons.IH [OF rest]
  from Cons.prems rest consider "scratch a \<or> hs_Status (HaveSentRoom prev a) \<noteq> FlagLive" "initial = a # i" "previously = pr" "live = l" | "\<not> scratch a" "hs_Status (HaveSentRoom prev a) = FlagLive" "initial = i" "previously = pr" "live = a # l"
    | pos where "\<not> scratch a" "hs_Status (HaveSentRoom prev a) = FlagPreviously" "ParseInt (hs_LastToken (HaveSentRoom prev a)) = Some pos" "initial = i" "previously = (a, pos) # pr" "live = l"
    by (auto simp: Let_def split: if_split_asm option.splits)
  then show ?case using IH by cases auto
qed simp

lemma split_rooms_spec:
  assumes "split_rooms scratch prev rooms = (initial, previously, live)"
  shows "set initial \<union> set (mkeys previously) \<union> set live = set rooms"
    and "r \<in> set live \<Longrightarrow> \<not> scratch r \<and> hs_Status (HaveSentRoom prev r) = FlagLive"
    and "(r, p) \<in> set previously \<Longrightarrow> \<not> scratch r \<and> hs_Status (HaveSentRoom prev r) = FlagPreviously \<and> ParseInt (hs_LastToken (HaveSentRoom prev r)) = Some p"
    and "distinct rooms \<Longrightarrow> distinct (initial @ mkeys previously @ live)"
    and "r \<in> set initial \<Longrightarrow> scratch r \<or> hs_Status (HaveSentRoom prev r) \<noteq> FlagLive"
  using split_rooms_all [OF assms] by blast+

lemma add_entries_in:
  "add_entries x es seen out = Inr out' \<Longrightarrow> set out \<subseteq> set out' \<and> (distinct (map ad_Type es) \<longrightarrow> (\<forall>e \<in> set es. ad_Type e \<notin> seen \<longrightarrow> (\<exists>b \<in> set out'. xs_entry x e = Inr b)))"
proof (induction es arbitrary: seen out)
  case (Cons e es)
  show ?case
  proof (cases "ad_Type e \<in> seen")
    case True
    with Cons show ?thesis by auto
  next
    case False
    with Cons.prems obtain body where b: "xs_entry x e = Inr body" and rest: "add_entries x es (insert (ad_Type e) seen) (out @ [body]) = Inr out'" by (auto simp: then_do_Inr)
    from Cons.IH [OF rest] b show ?thesis by (auto simp: image_iff)
  qed
qed simp

lemma map_sum_Inr: "map_sum id f r = Inr y \<longleftrightarrow> (\<exists>z. r = Inr z \<and> y = f z)"
  by (cases r) auto

lemma add_known_frame: "add_known x changed r rooms = Inr rooms' \<Longrightarrow> r' \<noteq> r \<Longrightarrow> mget rooms' r' = mget rooms r'"
  by (auto simp: add_known_def addRoomAccountData_def Let_def map_sum_Inr split: option.splits if_split_asm)

lemma add_known_hit:
  assumes "add_known x changed r rooms = Inr rooms'" and "mgetz [] rooms r = []" and "distinct (map ad_Type (mgetz [] changed r))" and "e \<in> set (mgetz [] changed r)"
  shows "\<exists>b \<in> set (mgetz [] rooms' r). xs_entry x e = Inr b"
proof -
  obtain es where es: "mget changed r = Some es" "es \<noteq> []" using assms(4) by (cases "mget changed r") (fastforce simp: mgetz_def)+
  with assms(1,2) obtain bodies where add: "add_entries x es {} [] = Inr bodies" and out: "rooms' = mput r bodies rooms"
    by (auto simp: add_known_def addRoomAccountData_def Let_def map_sum_Inr)
  from add_entries_in [OF add] assms(3,4) es(1) out show ?thesis by (auto simp: mgetz_def)
qed

definition account_entries :: "string \<Rightarrow> (string \<times> int \<times> AccountDataEntry) list \<Rightarrow> AccountDataEntry list" where
  "account_entries r T = map (\<lambda>(r', q, e). e) (filter (\<lambda>(r', q, e). r' = r) T)"

lemma entries_types:
  assumes "distinct (map (\<lambda>(r, q, e). (r, ad_Type e)) T)"
  shows "distinct (map ad_Type (account_entries r (filter P T)))"
proof -
  have "distinct (map (\<lambda>(r, q, e). (r, ad_Type e)) (filter (\<lambda>(r', q, e). r' = r) (filter P T)))" by (intro distinct_map_filter assms)
  moreover have "map (\<lambda>(r, q, e). (r, ad_Type e)) (filter (\<lambda>(r', q, e). r' = r) xs) = map (Pair r) (map ad_Type (account_entries r xs))" for xs
    by (induction xs) (auto simp: account_entries_def)
  ultimately have "distinct (map (Pair r) (map ad_Type (account_entries r (filter P T))))" by metis
  then show ?thesis unfolding distinct_map by blast
qed

lemma entries_types_all: "distinct (map (\<lambda>(r, q, e). (r, ad_Type e)) T) \<Longrightarrow> distinct (map ad_Type (account_entries r T))"
  using entries_types [of T r "\<lambda>_. True"] by simp

lemma since_entries:
  assumes "account_table x u T" and "RoomAccountDataSince x u a b = Inr ch"
  shows "mgetz [] ch r = account_entries r (filter (\<lambda>(r, q, e). a < q \<and> q \<le> b) T)" and "set (mkeys ch) = {r. \<exists>q e. (r, q, e) \<in> set T \<and> a < q \<and> q \<le> b}"
proof -
  obtain rows where rows: "xs_roomSince x u a b (xs_MSC3391Enabled x) = Inr rows" and ch: "ch = group_rows rows" using assms(2) by (auto simp: RoomAccountDataSince_def map_sum_Inr)
  have rows: "rows = map (\<lambda>(r, q, e). (r, e)) (filter (\<lambda>(r, q, e). a < q \<and> q \<le> b) T)" using assms(1) rows unfolding account_table_def by blast
  show "mgetz [] ch r = account_entries r (filter (\<lambda>(r, q, e). a < q \<and> q \<le> b) T)"
    unfolding ch group_rows_lookup rows by (induction T) (auto simp: account_entries_def)
  show "set (mkeys ch) = {r. \<exists>q e. (r, q, e) \<in> set T \<and> a < q \<and> q \<le> b}" unfolding ch group_rows_keys rows by force
qed

lemma all_entries:
  assumes "account_table x u T" and "AllRoomAccountData x u = Inr found"
  shows "\<exists>tags. mgetz [] found r = tags @ account_entries r T \<and> (\<forall>t \<in> set tags. ad_Type t = ''m.tag'') \<and> length tags \<le> 1"
proof -
  obtain tagRows byRoom rows where b: "fold_do (add_tags x) (tags_by_room tagRows) [] = Inr byRoom"
    and q: "xs_allRooms x u (xs_MSC3391Enabled x) = Inr rows"
    and out: "found = fold (\<lambda>(roomID, e) byRoom. if ad_Type e = ''m.tag'' \<and> mget (tags_by_room tagRows) roomID \<noteq> None then byRoom
                     else mput roomID (mgetz [] byRoom roomID @ [e]) byRoom) rows byRoom"
    using assms(2) by (auto simp: AllRoomAccountData_def then_do_Inr Let_def)
  have rows: "rows = map (\<lambda>(r, q, e). (r, e)) T" and untagged: "\<forall>(r, e) \<in> set rows. ad_Type e \<noteq> ''m.tag''"
    using assms(1) q unfolding account_table_def by (blast, fastforce)
  have "found = fold (\<lambda>(k, v) out. mput k (mgetz [] out k @ [v]) out) rows byRoom"
    unfolding out using untagged by (intro fold_cong refl) auto
  then have "mgetz [] found r = mgetz [] byRoom r @ map snd (filter (\<lambda>(k', v). k' = r) rows)" by (simp only: group_fold)
  moreover have "map snd (filter (\<lambda>(k', v). k' = r) rows) = account_entries r T" unfolding rows by (induction T) (auto simp: account_entries_def)
  ultimately have f: "mgetz [] found r = mgetz [] byRoom r @ account_entries r T" by simp
  have "mwf m \<Longrightarrow> mwf (fold (\<lambda>(roomID, tag, content) out. mput roomID (mput tag content (mgetz [] out roomID)) out) tagRows m)" for m :: "(string, (string, string) gomap) gomap"
    by (induction tagRows arbitrary: m) auto
  from this [of "[]"] have wf: "distinct (map fst (tags_by_room tagRows))" by (simp add: tags_by_room_def)
  have frame: "mget s' k = mget s k" if "add_tags x z s = Inr s'" "fst z \<noteq> k" for z s s' k using that by (auto simp: add_tags_def then_do_Inr)
  show ?thesis
  proof (cases "r \<in> set (mkeys (tags_by_room tagRows))")
    case True
    then obtain tags where t: "(r, tags) \<in> set (tags_by_room tagRows)" by auto
    obtain s1 s2 where "add_tags x (r, tags) s1 = Inr s2" "mget s1 (fst (r, tags)) = mget [] (fst (r, tags))" "mget byRoom (fst (r, tags)) = mget s2 (fst (r, tags))"
      by (rule fold_do_hit [OF b t wf frame])
    then show ?thesis using f by (auto simp: add_tags_def then_do_Inr mgetz_def)
  next
    case False
    have "mget byRoom r = mget [] r"
    proof (rule fold_do_frame [OF b])
      show "mget t' r = mget t r" if "z \<in> set (tags_by_room tagRows)" "add_tags x z t = Inr t'" for z t t'
        using that(1) False by (intro frame [OF that(2)]) auto
    qed
    then show ?thesis using f by (simp add: mgetz_def)
  qed
qed

text \<open>The steps of \<^verbatim>\<open>accountDataExtension\<close>.\<close>

lemma account_steps:
  assumes "accountDataExtension x inp scope = Inr (out, st)" and "relevantRooms inp scope \<noteq> {}" and "finite (relevantRooms inp scope)"
  obtains initial previously live changed rooms1 rooms2 where
    "split_rooms (\<lambda>_. xi_From inp = None) (pc_AccountData (xi_Previous inp)) (sortedKeys (relevantRooms inp scope)) = (initial, previously, live)"
    and "(case xi_From inp of None \<Rightarrow> Inr [] | Some f \<Rightarrow> RoomAccountDataSince x (xi_UserID inp) (tk_AccountData f) (tk_AccountData (xi_Now inp))) = Inr changed"
    and "(if xi_From inp = None then Inr [] else fold_do (add_known x changed) live []) = Inr rooms1"
    and "fold_do (\<lambda>(roomID, pos) rooms. then_do (RoomAccountDataSince x (xi_UserID inp) pos (tk_AccountData (xi_Now inp))) (\<lambda>entries. add_known x entries roomID rooms)) previously rooms1 = Inr rooms2"
    and "(if initial = [] then Inr rooms2 else then_do (AllRoomAccountData x (xi_UserID inp)) (\<lambda>everything.
            fold_do (\<lambda>roomID rooms. add_known x everything roomID (mput roomID [] rooms)) initial rooms2)) = Inr (aj_Rooms out)"
    and "st = (case xi_From inp of None \<Rightarrow> RecordSentRooms (pc_AccountData (xi_New inp)) (sort (initial @ sortedKeys (set (mkeys previously))))
       | Some f \<Rightarrow> RecordUnsentRooms (RecordSentRooms (pc_AccountData (xi_New inp)) (sort (initial @ sortedKeys (set (mkeys previously)))))
           (sort (filter (\<lambda>r. r \<notin> relevantRooms inp scope) (mkeys changed))) (FormatInt (tk_AccountData f)))"
proof -
  obtain initial previously live where split: "split_rooms (\<lambda>_. xi_From inp = None) (pc_AccountData (xi_Previous inp)) (sortedKeys (relevantRooms inp scope)) = (initial, previously, live)"
    by (metis prod_cases3)
  let ?new = "RecordSentRooms (pc_AccountData (xi_New inp)) (sort (initial @ sortedKeys (set (mkeys previously))))"
  obtain global changed rooms1 rooms2 rooms3 where
    steps: "(case xi_From inp of None \<Rightarrow> Inr [] | Some f \<Rightarrow> RoomAccountDataSince x (xi_UserID inp) (tk_AccountData f) (tk_AccountData (xi_Now inp))) = Inr changed"
      "(if xi_From inp = None then Inr [] else fold_do (add_known x changed) live []) = Inr rooms1"
      "fold_do (\<lambda>(roomID, pos) rooms. then_do (RoomAccountDataSince x (xi_UserID inp) pos (tk_AccountData (xi_Now inp))) (\<lambda>entries. add_known x entries roomID rooms)) previously rooms1 = Inr rooms2"
      "(if initial = [] then Inr rooms2 else then_do (AllRoomAccountData x (xi_UserID inp)) (\<lambda>everything.
            fold_do (\<lambda>roomID rooms. add_known x everything roomID (mput roomID [] rooms)) initial rooms2)) = Inr rooms3"
    and last: "Inr (\<lparr>aj_Global = global, aj_Rooms = rooms3\<rparr>, case xi_From inp of None \<Rightarrow> ?new
       | Some f \<Rightarrow> RecordUnsentRooms ?new (sort (filter (\<lambda>r. r \<notin> relevantRooms inp scope) (mkeys changed))) (FormatInt (tk_AccountData f))) = (Inr (out, st) :: string + accountDataJSON \<times> RoomStatusMap)"
    using assms(1) unfolding accountDataExtension_def Let_def split prod.case if_not_P [OF assms(2)] then_do_Inr by (elim exE conjE) (rule that; assumption)
  from last have "aj_Rooms out = rooms3" by auto
  with steps last show thesis by (intro that [OF split steps(1-3)]) simp_all
qed

lemma account_entries_mem: "(r, q, e) \<in> set T \<Longrightarrow> P (r, q, e) \<Longrightarrow> e \<in> set (account_entries r (filter P T))"
  by (force simp: account_entries_def)

text \<open>Each room in range is filled once, from everything, from a position, or from the last response.\<close>

lemma account_room:
  assumes run: "accountDataExtension x inp scope = Inr (out, st)" and rel: "r \<in> relevantRooms inp scope" "finite (relevantRooms inp scope)"
  obtains (all) found t1 t2 where "xi_From inp = None \<or> hs_Status (HaveSentRoom (pc_AccountData (xi_Previous inp)) r) \<noteq> FlagLive" and "AllRoomAccountData x (xi_UserID inp) = Inr found"
      and "add_known x found r t1 = Inr t2" and "mgetz [] t1 r = []" and "mgetz [] (aj_Rooms out) r = mgetz [] t2 r"
    | (since) pos found t1 t2 where "hs_Status (HaveSentRoom (pc_AccountData (xi_Previous inp)) r) = FlagPreviously"
      and "ParseInt (hs_LastToken (HaveSentRoom (pc_AccountData (xi_Previous inp)) r)) = Some pos"
      and "RoomAccountDataSince x (xi_UserID inp) pos (tk_AccountData (xi_Now inp)) = Inr found"
      and "add_known x found r t1 = Inr t2" and "mgetz [] t1 r = []" and "mgetz [] (aj_Rooms out) r = mgetz [] t2 r"
    | (live) f found t1 t2 where "xi_From inp = Some f" and "hs_Status (HaveSentRoom (pc_AccountData (xi_Previous inp)) r) = FlagLive"
      and "RoomAccountDataSince x (xi_UserID inp) (tk_AccountData f) (tk_AccountData (xi_Now inp)) = Inr found"
      and "add_known x found r t1 = Inr t2" and "mgetz [] t1 r = []" and "mgetz [] (aj_Rooms out) r = mgetz [] t2 r"
proof -
  have "relevantRooms inp scope \<noteq> {}" using rel(1) by blast
  then obtain initial previously live' changed rooms1 rooms2 where
    split: "split_rooms (\<lambda>_. xi_From inp = None) (pc_AccountData (xi_Previous inp)) (sortedKeys (relevantRooms inp scope)) = (initial, previously, live')"
    and ch: "(case xi_From inp of None \<Rightarrow> Inr [] | Some f \<Rightarrow> RoomAccountDataSince x (xi_UserID inp) (tk_AccountData f) (tk_AccountData (xi_Now inp))) = Inr changed"
    and s1: "(if xi_From inp = None then Inr [] else fold_do (add_known x changed) live' []) = Inr rooms1"
    and s2: "fold_do (\<lambda>(roomID, pos) rooms. then_do (RoomAccountDataSince x (xi_UserID inp) pos (tk_AccountData (xi_Now inp))) (\<lambda>entries. add_known x entries roomID rooms)) previously rooms1 = Inr rooms2"
    and s3: "(if initial = [] then Inr rooms2 else then_do (AllRoomAccountData x (xi_UserID inp)) (\<lambda>everything.
            fold_do (\<lambda>roomID rooms. add_known x everything roomID (mput roomID [] rooms)) initial rooms2)) = Inr (aj_Rooms out)"
    by (rule account_steps [OF run _ rel(2)])
  note sp = split_rooms_spec [OF split]
  have dist: "distinct (initial @ mkeys previously @ live')" by (rule sp(4)) simp
  let ?f = "\<lambda>(roomID, pos) rooms. then_do (RoomAccountDataSince x (xi_UserID inp) pos (tk_AccountData (xi_Now inp))) (\<lambda>entries. add_known x entries roomID rooms)"
  have fr2: "mget s' k = mget s k" if "?f z s = Inr s'" "fst z \<noteq> k" for z s s' k
    using that add_known_frame [of x _ "fst z" s s' k] by (cases z) (auto simp: then_do_Inr)
  have fr3: "mget s' k = mget s k" if "add_known x found z (mput z [] s) = Inr s'" "z \<noteq> k" for found z s s' k
    using add_known_frame [OF that(1), of k] that(2) by simp
  have fr1: "mget s' k = mget s k" if "add_known x found z s = Inr s'" "z \<noteq> k" for found z s s' k using add_known_frame [OF that(1)] that(2) by simp
  have out2: "mget (aj_Rooms out) r = mget rooms2 r" if no: "r \<notin> set initial"
  proof (cases "initial = []")
    case False
    with s3 obtain found where "fold_do (\<lambda>roomID rooms. add_known x found roomID (mput roomID [] rooms)) initial rooms2 = Inr (aj_Rooms out)" by (auto simp: then_do_Inr)
    then show ?thesis by (rule fold_do_frame) (metis fr3 no)
  qed (use s3 in simp)
  have out1: "mget rooms2 r = mget rooms1 r" if no: "r \<notin> set (mkeys previously)"
  proof (rule fold_do_frame [OF s2])
    show "mget t' r = mget t r" if "z \<in> set previously" "?f z t = Inr t'" for z t t' using that(1) no by (intro fr2 [OF that(2)]) auto
  qed
  have "r \<in> set initial \<or> r \<in> set (mkeys previously) \<or> r \<in> set live'" using sp(1) rel by auto
  then consider (i) "r \<in> set initial" | (p) "r \<in> set (mkeys previously)" "r \<notin> set initial" "r \<notin> set live'" | (l) "r \<in> set live'" "r \<notin> set initial" "r \<notin> set (mkeys previously)"
    using dist by auto
  then show thesis
  proof cases
    case i
    then obtain found where all: "AllRoomAccountData x (xi_UserID inp) = Inr found"
      and fold: "fold_do (\<lambda>roomID rooms. add_known x found roomID (mput roomID [] rooms)) initial rooms2 = Inr (aj_Rooms out)"
      using s3 by (auto simp: then_do_Inr split: if_split_asm)
    have d: "distinct (map (\<lambda>y. y) initial)" using dist by simp
    obtain t1 t2 where hit: "add_known x found r (mput r [] t1) = Inr t2" "mget (aj_Rooms out) r = mget t2 r"
      by (rule fold_do_hit [OF fold i d]) (use fr3 in blast)+
    show thesis by (rule that(1) [OF sp(5) [OF i] all hit(1)]) (simp_all add: mgetz_def hit(2))
  next
    case p
    then obtain pos where pos: "(r, pos) \<in> set previously" by auto
    have d: "distinct (map fst previously)" using dist by simp
    obtain t1 t2 where hit: "?f (r, pos) t1 = Inr t2" "mget t1 (fst (r, pos)) = mget rooms1 (fst (r, pos))" "mget rooms2 (fst (r, pos)) = mget t2 (fst (r, pos))"
      by (rule fold_do_hit [OF s2 pos d]) (use fr2 in blast)+
    have none: "mget rooms1 r = mget [] r"
    proof (cases "xi_From inp = None")
      case False
      with s1 have "fold_do (add_known x changed) live' [] = Inr rooms1" by simp
      then show ?thesis by (rule fold_do_frame) (metis add_known_frame p(3))
    qed (use s1 in simp)
    obtain found where f: "RoomAccountDataSince x (xi_UserID inp) pos (tk_AccountData (xi_Now inp)) = Inr found" "add_known x found r t1 = Inr t2"
      using hit(1) by (auto simp: then_do_Inr)
    note st = sp(3) [OF pos]
    show thesis by (rule that(2) [OF _ _ f]) (use st hit(2,3) none out2 [OF p(2)] in \<open>simp_all add: mgetz_def\<close>)
  next
    case l
    note st = sp(2) [OF l(1)]
    then obtain f where from_f: "xi_From inp = Some f" by blast
    have fold: "fold_do (add_known x changed) live' [] = Inr rooms1" using s1 from_f by simp
    have d: "distinct (map (\<lambda>y. y) live')" using dist by simp
    obtain t1 t2 where hit: "add_known x changed r t1 = Inr t2" "mget t1 r = mget [] r" "mget rooms1 r = mget t2 r"
      by (rule fold_do_hit [OF fold l(1) d]) (use fr1 in blast)+
    have chg: "RoomAccountDataSince x (xi_UserID inp) (tk_AccountData f) (tk_AccountData (xi_Now inp)) = Inr changed" using ch from_f by simp
    show thesis by (rule that(3) [OF from_f _ chg hit(1)]) (use st hit(2,3) out2 [OF l(2)] out1 [OF l(3)] in \<open>simp_all add: mgetz_def\<close>)
  qed
qed

text \<open>Everything of a room is its rows with at most one entry for the tags.\<close>

lemma all_entries_types:
  assumes "account_table x u T" and "AllRoomAccountData x u = Inr found"
  shows "distinct (map ad_Type (mgetz [] found r))" and "set (account_entries r T) \<subseteq> set (mgetz [] found r)"
proof -
  obtain tags where tags: "mgetz [] found r = tags @ account_entries r T" "\<forall>t \<in> set tags. ad_Type t = ''m.tag''" "length tags \<le> 1" using all_entries [OF assms, of r] by blast
  have "distinct (map ad_Type tags)" using tags(3) by (cases tags) auto
  moreover have "ad_Type e' \<noteq> ''m.tag''" if "e' \<in> set (account_entries r T)" for e' using that assms(1) unfolding account_table_def account_entries_def by fastforce
  then have "ad_Type ` set tags \<inter> ad_Type ` set (account_entries r T) = {}" using tags(2) by force
  moreover have "distinct (map ad_Type (account_entries r T))" using assms(1) by (intro entries_types_all) (simp add: account_table_def)
  ultimately show "distinct (map ad_Type (mgetz [] found r))" using tags(1) by simp
  show "set (account_entries r T) \<subseteq> set (mgetz [] found r)" using tags(1) by simp
qed

lemma account_covers:
  assumes table: "account_table x (xi_UserID inp) T" and run: "accountDataExtension x inp scope = Inr (out, st)"
    and rel: "r \<in> relevantRooms inp scope" "finite (relevantRooms inp scope)" and row: "(r, q, e) \<in> set T" "q \<le> tk_AccountData (xi_Now inp)"
    and live: "\<And>f. xi_From inp = Some f \<Longrightarrow> hs_Status (HaveSentRoom (pc_AccountData (xi_Previous inp)) r) = FlagLive \<Longrightarrow> tk_AccountData f < q"
    and prev: "\<And>p. hs_Status (HaveSentRoom (pc_AccountData (xi_Previous inp)) r) = FlagPreviously \<Longrightarrow> ParseInt (hs_LastToken (HaveSentRoom (pc_AccountData (xi_Previous inp)) r)) = Some p \<Longrightarrow> p < q"
  shows "\<exists>b \<in> set (mgetz [] (aj_Rooms out) r). xs_entry x e = Inr b"
proof -
  have types: "distinct (map (\<lambda>(r, q, e). (r, ad_Type e)) T)" using table by (simp add: account_table_def)
  have hit: ?thesis if "e \<in> set (mgetz [] found r)" "distinct (map ad_Type (mgetz [] found r))" "add_known x found r t1 = Inr t2" "mgetz [] t1 r = []" "mgetz [] (aj_Rooms out) r = mgetz [] t2 r" for found t1 t2
    using add_known_hit [OF that(3,4,2,1)] that(5) by simp
  show ?thesis
  proof (rule account_room [OF run rel])
    fix found t1 t2
    assume a: "AllRoomAccountData x (xi_UserID inp) = Inr found" "add_known x found r t1 = Inr t2" "mgetz [] t1 r = []" "mgetz [] (aj_Rooms out) r = mgetz [] t2 r"
    have "e \<in> set (account_entries r T)" using account_entries_mem [OF row(1), of "\<lambda>_. True"] by simp
    with all_entries_types [OF table a(1), of r] show ?thesis by (intro hit [OF _ _ a(2-4)]) auto
  next
    fix pos found t1 t2
    assume s: "hs_Status (HaveSentRoom (pc_AccountData (xi_Previous inp)) r) = FlagPreviously" "ParseInt (hs_LastToken (HaveSentRoom (pc_AccountData (xi_Previous inp)) r)) = Some pos"
      and a: "RoomAccountDataSince x (xi_UserID inp) pos (tk_AccountData (xi_Now inp)) = Inr found" "add_known x found r t1 = Inr t2" "mgetz [] t1 r = []" "mgetz [] (aj_Rooms out) r = mgetz [] t2 r"
    have "e \<in> set (mgetz [] found r)" unfolding since_entries(1) [OF table a(1)] using row prev [OF s] by (intro account_entries_mem) auto
    then show ?thesis using since_entries(1) [OF table a(1), of r] entries_types [OF types] by (intro hit [OF _ _ a(2-4)]) simp_all
  next
    fix f found t1 t2
    assume s: "xi_From inp = Some f" "hs_Status (HaveSentRoom (pc_AccountData (xi_Previous inp)) r) = FlagLive"
      and a: "RoomAccountDataSince x (xi_UserID inp) (tk_AccountData f) (tk_AccountData (xi_Now inp)) = Inr found" "add_known x found r t1 = Inr t2" "mgetz [] t1 r = []" "mgetz [] (aj_Rooms out) r = mgetz [] t2 r"
    have "e \<in> set (mgetz [] found r)" unfolding since_entries(1) [OF table a(1)] using row live [OF s] by (intro account_entries_mem) auto
    then show ?thesis using since_entries(1) [OF table a(1), of r] entries_types [OF types] by (intro hit [OF _ _ a(2-4)]) simp_all
  qed
qed

lemma account_status:
  assumes "account_serves x u T (inp, scope) s s'"
  obtains initial previously live changed where
    "split_rooms (\<lambda>_. xi_From inp = None) (pc_AccountData (xi_Previous inp)) (sortedKeys (relevantRooms inp scope)) = (initial, previously, live)"
    and "(case xi_From inp of None \<Rightarrow> Inr [] | Some f \<Rightarrow> RoomAccountDataSince x u (tk_AccountData f) (tk_AccountData (xi_Now inp))) = Inr changed"
    and "\<forall>r. s' r = (if r \<in> set initial \<union> set (mkeys previously) \<and> hs_Status (s r) \<noteq> FlagLive then Sent_Live
       else if r \<notin> relevantRooms inp scope \<and> r \<in> set (mkeys changed) \<and> hs_Status (s r) = FlagLive \<and> xi_From inp \<noteq> None then Previously (FormatInt (tk_AccountData (the (xi_From inp)))) else s r)"
proof -
  have a: "finite (relevantRooms inp scope)" "relevantRooms inp scope \<noteq> {}" "HaveSentRoom (pc_AccountData (xi_New inp)) = s" "xi_UserID inp = u"
    and "\<exists>out st. accountDataExtension x inp scope = Inr (out, st) \<and> s' = HaveSentRoom st" using assms by (auto simp: account_serves_def)
  then obtain out st where run: "accountDataExtension x inp scope = Inr (out, st)" and s': "s' = HaveSentRoom st" by blast
  obtain initial previously live changed rooms1 rooms2 where
    split: "split_rooms (\<lambda>_. xi_From inp = None) (pc_AccountData (xi_Previous inp)) (sortedKeys (relevantRooms inp scope)) = (initial, previously, live)"
    and ch: "(case xi_From inp of None \<Rightarrow> Inr [] | Some f \<Rightarrow> RoomAccountDataSince x (xi_UserID inp) (tk_AccountData f) (tk_AccountData (xi_Now inp))) = Inr changed"
    and st: "st = (case xi_From inp of None \<Rightarrow> RecordSentRooms (pc_AccountData (xi_New inp)) (sort (initial @ sortedKeys (set (mkeys previously))))
       | Some f \<Rightarrow> RecordUnsentRooms (RecordSentRooms (pc_AccountData (xi_New inp)) (sort (initial @ sortedKeys (set (mkeys previously)))))
           (sort (filter (\<lambda>r. r \<notin> relevantRooms inp scope) (mkeys changed))) (FormatInt (tk_AccountData f)))"
    by (rule account_steps [OF run a(2,1)])
  have sub: "set initial \<union> set (mkeys previously) \<subseteq> relevantRooms inp scope" using split_rooms_spec(1) [OF split] a(1) by auto
  have s: "HaveSentRoom (pc_AccountData (xi_New inp)) r = s r" for r using a(3) by simp
  have stat: "s' r = (if r \<in> set initial \<union> set (mkeys previously) \<and> hs_Status (s r) \<noteq> FlagLive then Sent_Live
       else if r \<notin> relevantRooms inp scope \<and> r \<in> set (mkeys changed) \<and> hs_Status (s r) = FlagLive \<and> xi_From inp \<noteq> None then Previously (FormatInt (tk_AccountData (the (xi_From inp)))) else s r)" for r
    using sub unfolding s' st by (cases "xi_From inp") (auto simp: record_sent record_unsent s Sent_Live_def)
  show thesis by (rule that [OF split ch [unfolded a(4)] allI [OF stat]])
qed

interpretation account: tracked_stream "account_serves x u T" "xi_From \<circ> fst" "xi_Now \<circ> fst" "\<lambda>i. relevantRooms (fst i) (snd i)" tk_AccountData "FormatInt \<circ> tk_AccountData" ParseInt
  "\<lambda>r q. \<exists>e. (r, q, e) \<in> set T" "account_sends x T" for x u T
proof
  fix i s s' f
  assume "account_serves x u T i s s'" "(xi_From \<circ> fst) i = Some f"
  then have "int64 (tk_AccountData f)" by (cases i) (simp add: account_serves_def)
  then show "ParseInt ((FormatInt \<circ> tk_AccountData) f) = Some (tk_AccountData f)" by (simp add: ParseInt_FormatInt)
next
  fix i s s' r
  assume run: "account_serves x u T i s s'" and r: "r \<in> relevantRooms (fst i) (snd i)"
  obtain inp scope where i: "i = (inp, scope)" by force
  have prev: "HaveSentRoom (pc_AccountData (xi_Previous inp)) = s" "finite (relevantRooms inp scope)" using run by (simp_all add: account_serves_def i)
  obtain initial previously live changed where
    split: "split_rooms (\<lambda>_. xi_From inp = None) (pc_AccountData (xi_Previous inp)) (sortedKeys (relevantRooms inp scope)) = (initial, previously, live)"
    and c: "(case xi_From inp of None \<Rightarrow> Inr [] | Some f \<Rightarrow> RoomAccountDataSince x u (tk_AccountData f) (tk_AccountData (xi_Now inp))) = Inr changed"
    and stat: "\<forall>r. s' r = (if r \<in> set initial \<union> set (mkeys previously) \<and> hs_Status (s r) \<noteq> FlagLive then Sent_Live
       else if r \<notin> relevantRooms inp scope \<and> r \<in> set (mkeys changed) \<and> hs_Status (s r) = FlagLive \<and> xi_From inp \<noteq> None then Previously (FormatInt (tk_AccountData (the (xi_From inp)))) else s r)"
    by (rule account_status [OF run [unfolded i]])
  note st = stat [rule_format]
  have "r \<in> set initial \<union> set (mkeys previously) \<or> hs_Status (s r) = FlagLive" using split_rooms_spec(1,2) [OF split] prev r i by auto
  then show "hs_Status (s' r) = FlagLive" using r by (auto simp: st i Sent_Live_def)
next
  fix i s s' r f q
  assume run: "account_serves x u T i s s'" and r: "r \<notin> relevantRooms (fst i) (snd i)" and f: "(xi_From \<circ> fst) i = Some f" and live: "hs_Status (s r) = FlagLive"
    and ch: "\<exists>e. (r, q, e) \<in> set T" "tk_AccountData f < q" "q \<le> tk_AccountData ((xi_Now \<circ> fst) i)"
  obtain inp scope where i: "i = (inp, scope)" by force
  have table: "account_table x u T" using run by (simp add: account_serves_def i)
  obtain initial previously l changed where
    split: "split_rooms (\<lambda>_. xi_From inp = None) (pc_AccountData (xi_Previous inp)) (sortedKeys (relevantRooms inp scope)) = (initial, previously, l)"
    and c: "(case xi_From inp of None \<Rightarrow> Inr [] | Some f \<Rightarrow> RoomAccountDataSince x u (tk_AccountData f) (tk_AccountData (xi_Now inp))) = Inr changed"
    and stat: "\<forall>r. s' r = (if r \<in> set initial \<union> set (mkeys previously) \<and> hs_Status (s r) \<noteq> FlagLive then Sent_Live
       else if r \<notin> relevantRooms inp scope \<and> r \<in> set (mkeys changed) \<and> hs_Status (s r) = FlagLive \<and> xi_From inp \<noteq> None then Previously (FormatInt (tk_AccountData (the (xi_From inp)))) else s r)"
    by (rule account_status [OF run [unfolded i]])
  note st = stat [rule_format]
  have "RoomAccountDataSince x u (tk_AccountData f) (tk_AccountData (xi_Now inp)) = Inr changed" using c f i by simp
  from since_entries(2) [OF table this] ch i have "r \<in> set (mkeys changed)" by auto
  then show "s' r = Previously ((FormatInt \<circ> tk_AccountData) f)" using r live f i by (simp add: st)
next
  fix i s s' r
  assume run: "account_serves x u T i s s'" and r: "r \<notin> relevantRooms (fst i) (snd i)"
  obtain inp scope where i: "i = (inp, scope)" by force
  have fin: "finite (relevantRooms inp scope)" using run by (simp add: account_serves_def i)
  obtain initial previously live changed where
    split: "split_rooms (\<lambda>_. xi_From inp = None) (pc_AccountData (xi_Previous inp)) (sortedKeys (relevantRooms inp scope)) = (initial, previously, live)"
    and c: "(case xi_From inp of None \<Rightarrow> Inr [] | Some f \<Rightarrow> RoomAccountDataSince x u (tk_AccountData f) (tk_AccountData (xi_Now inp))) = Inr changed"
    and stat: "\<forall>r. s' r = (if r \<in> set initial \<union> set (mkeys previously) \<and> hs_Status (s r) \<noteq> FlagLive then Sent_Live
       else if r \<notin> relevantRooms inp scope \<and> r \<in> set (mkeys changed) \<and> hs_Status (s r) = FlagLive \<and> xi_From inp \<noteq> None then Previously (FormatInt (tk_AccountData (the (xi_From inp)))) else s r)"
    by (rule account_status [OF run [unfolded i]])
  note st = stat [rule_format]
  have "r \<notin> set initial \<union> set (mkeys previously)" using split_rooms_spec(1) [OF split] fin r i by auto
  then show "s' r = s r \<or> (\<exists>f. (xi_From \<circ> fst) i = Some f \<and> hs_Status (s r) = FlagLive \<and> s' r = Previously ((FormatInt \<circ> tk_AccountData) f))"
    unfolding st by (auto simp: i)
next
  fix i s s' r q
  assume run: "account_serves x u T i s s'" and r: "r \<in> relevantRooms (fst i) (snd i)" and q: "q \<le> tk_AccountData ((xi_Now \<circ> fst) i)"
    and live: "\<forall>f. (xi_From \<circ> fst) i = Some f \<and> hs_Status (s r) = FlagLive \<longrightarrow> tk_AccountData f < q"
    and prev: "\<forall>p. hs_Status (s r) = FlagPreviously \<and> ParseInt (hs_LastToken (s r)) = Some p \<longrightarrow> p < q"
  obtain inp scope where i: "i = (inp, scope)" by force
  obtain out st where e: "accountDataExtension x inp scope = Inr (out, st)" and st: "HaveSentRoom (pc_AccountData (xi_Previous inp)) = s"
    and table: "account_table x (xi_UserID inp) T" and fin: "finite (relevantRooms inp scope)" using run by (auto simp: account_serves_def i)
  have "\<exists>b \<in> set (mgetz [] (aj_Rooms out) r). xs_entry x e' = Inr b" if "(r, q, e') \<in> set T" for e'
    using live prev q r i st by (intro account_covers [OF table e _ fin that]) auto
  with e show "account_sends x T i r q" by (auto simp: account_sends_def i)
qed


text \<open>Bodies of a room come from what was found for it.\<close>

lemma add_entries_from: "add_entries x es seen out = Inr out' \<Longrightarrow> b \<in> set out' \<Longrightarrow> b \<in> set out \<or> (\<exists>e \<in> set es. xs_entry x e = Inr b)"
proof (induction es arbitrary: seen out)
  case (Cons e es)
  show ?case
  proof (cases "ad_Type e \<in> seen")
    case False
    with Cons.prems obtain body where body: "xs_entry x e = Inr body" and rest: "add_entries x es (insert (ad_Type e) seen) (out @ [body]) = Inr out'" by (auto simp: then_do_Inr)
    from Cons.IH [OF rest Cons.prems(2)] body show ?thesis by auto
  qed (use Cons in auto)
qed simp

lemma add_known_from:
  assumes "add_known x found r rooms = Inr rooms'" and "mgetz [] rooms r = []" and "b \<in> set (mgetz [] rooms' r)"
  shows "\<exists>e \<in> set (mgetz [] found r). xs_entry x e = Inr b"
proof -
  obtain es bodies where "mget found r = Some es" "add_entries x es {} [] = Inr bodies" "rooms' = mput r bodies rooms"
    using assms by (auto simp: add_known_def addRoomAccountData_def Let_def map_sum_Inr split: option.splits if_split_asm)
  with assms(3) add_entries_from [of x es "{}" "[]" bodies b] show ?thesis by (auto simp: mgetz_def)
qed

text \<open>
  C39. A change of account data is lost when it falls on a request with no room in range. Such a request sends nothing for rooms and leaves
  every room as it was (extensions.go returns before it looks at what changed), while the token goes on. A room that was up to date stays up to
  date: the next request with the room in range sends only what is newer than the token of the request before, and so nothing of the changes in between.
\<close>

theorem account_change_lost_without_rooms:
  assumes "account_table x userID T" and "relevantRooms inp scope = {}" and "accountDataExtension x inp scope = Inr (out, st)"
    and "accountDataExtension x inp' scope' = Inr (out', st')" and "xi_UserID inp' = userID" and "xi_From inp' = Some (xi_Now inp)" and "pc_AccountData (xi_Previous inp') = st"
    and "room \<in> relevantRooms inp' scope'" and "finite (relevantRooms inp' scope')" and "hs_Status (HaveSentRoom (pc_AccountData (xi_New inp)) room) = FlagLive"
  shows "aj_Rooms out = [] \<and> (\<forall>body \<in> set (mgetz [] (aj_Rooms out') room). \<exists>q e. (room, q, e) \<in> set T \<and> tk_AccountData (xi_Now inp) < q \<and> xs_entry x e = Inr body)"
proof -
  have out: "aj_Rooms out = []" and live: "hs_Status (HaveSentRoom (pc_AccountData (xi_Previous inp')) room) = FlagLive"
    using assms(2,3,7,10) by (auto simp: accountDataExtension_def Let_def then_do_Inr)
  have "\<exists>q e. (room, q, e) \<in> set T \<and> tk_AccountData (xi_Now inp) < q \<and> xs_entry x e = Inr body" if body: "body \<in> set (mgetz [] (aj_Rooms out') room)" for body
  proof (rule account_room [OF assms(4,8,9)])
    fix f found t1 t2
    assume a: "xi_From inp' = Some f" "RoomAccountDataSince x (xi_UserID inp') (tk_AccountData f) (tk_AccountData (xi_Now inp')) = Inr found"
      "add_known x found room t1 = Inr t2" "mgetz [] t1 room = []" "mgetz [] (aj_Rooms out') room = mgetz [] t2 room"
    from add_known_from [OF a(3,4)] body a(5) obtain e where e: "e \<in> set (mgetz [] found room)" "xs_entry x e = Inr body" by auto
    have "mgetz [] found room = account_entries room (filter (\<lambda>(r, q, e). tk_AccountData f < q \<and> q \<le> tk_AccountData (xi_Now inp')) T)"
      using a(2) assms(5) by (intro since_entries(1) [OF assms(1)]) simp
    with e a(1) assms(6) show ?thesis by (auto simp: account_entries_def)
  qed (use live assms(6) in \<open>auto simp: FlagLive_def FlagPreviously_def\<close>)
  with out show ?thesis by blast
qed

section \<open>A concrete store\<close>

definition small_table :: "(string \<times> int \<times> AccountDataEntry) list" where
  "small_table = [(''!a'', 5, \<lparr>ad_Type = ''read'', ad_Content = ''one''\<rparr>), (''!b'', 6, \<lparr>ad_Type = ''read'', ad_Content = ''two''\<rparr>)]"

definition small_ext :: ExtStore where
  "small_ext = \<lparr>xs_room = small_room, xs_joined = \<lambda>_. Inr [], xs_selfDeltas = \<lambda>_ _ _. Inr [], xs_roomDeltas = \<lambda>_ _ _. Inr [], xs_maxPruned = Inr None, xs_sharing = \<lambda>_. Inr [],
     xs_deviceStream = \<lambda>_ _ _. Inr [], xs_changedInRooms = \<lambda>_ _ _. Inr [], xs_ownChanges = \<lambda>_ _ _. Inr 0, xs_signatures = \<lambda>_ _ _. Inr [], xs_userList = \<lambda>_. None,
     xs_members = \<lambda>_. Inr [], xs_joinedToAny = \<lambda>_ _. Inr [], xs_oneTimeKeys = \<lambda>_ _. Inr [], xs_fallbackKeys = \<lambda>_ _. Inr [], xs_global = \<lambda>_ _. Inr [],
     xs_globalSince = \<lambda>_ _ _ _. Inr [], xs_roomSince = \<lambda>_ a b _. Inr (map (\<lambda>(r, q, e). (r, e)) (filter (\<lambda>(r, q, e). a < q \<and> q \<le> b) small_table)),
     xs_roomTags = \<lambda>_. Inr [], xs_allRooms = \<lambda>_ _. Inr (map (\<lambda>(r, q, e). (r, e)) small_table), xs_tagged = \<lambda>_. Inr [], xs_entry = \<lambda>e. Inr (ad_Content e),
     xs_pushRules = \<lambda>_. Inr ''rules'', xs_receiptsSince = \<lambda>_ _ _. Inr [], xs_receiptsForEvents = \<lambda>_ _. Inr [], xs_ownReceipts = \<lambda>_ _ _. Inr [],
     xs_setThread = \<lambda>_ s. Inr s, xs_threads = \<lambda>_ _ _ _. Inr [], xs_sticky = \<lambda>_ _ _ _ _. Inr [], xs_ExcludedRooms = {}, xs_MSC3391Enabled = False, xs_MSC4308Enabled = False\<rparr>"

definition small_scope :: ExtensionScope where
  "small_scope = \<lparr>es_Enabled = True, es_Lists = None, es_Rooms = Some [Wildcard]\<rparr>"

definition small_input :: "int option \<Rightarrow> int \<Rightarrow> string set \<Rightarrow> RoomStatusMap \<Rightarrow> extensionInputs" where
  "small_input frm now rooms m = \<lparr>xi_UserID = ''@u'', xi_DeviceID = ''D'', xi_From = map_option (\<lambda>n. token_example n []) frm, xi_Now = token_example now [], xi_NowMS = 0,
     xi_Lists = [], xi_Subscribed = rooms, xi_AllRooms = rooms, xi_Rooms = [], xi_Membership = [], xi_Previous = empty_state\<lparr>pc_AccountData := m\<rparr>, xi_New = empty_state\<lparr>pc_AccountData := m\<rparr>\<rparr>"

text \<open>Room \<open>!a\<close> at token 4, room \<open>!b\<close> at 7, when \<open>!a\<close> changes unseen, and \<open>!a\<close> again at 8.\<close>

definition first_map :: RoomStatusMap where "first_map = RecordSentRooms (NewRoomStatusMap []) [''!a'']"
definition second_map :: RoomStatusMap where "second_map = RecordUnsentRooms (RecordSentRooms first_map [''!b'']) [''!a''] (FormatInt 4)"
definition third_map :: RoomStatusMap where "third_map = RecordSentRooms second_map [''!a'']"

lemma small_table_ok: "account_table small_ext ''@u'' small_table"
  by (simp add: account_table_def small_ext_def small_table_def)

lemmas small_defs = small_ext_def small_scope_def small_input_def token_example_def

lemma small_relevant: "relevantRooms (small_input frm now rooms m) small_scope = rooms"
  by (simp add: relevantRooms_def small_defs)

lemma small_simps [simp]: "xi_From (small_input frm now rooms m) = map_option (\<lambda>n. token_example n []) frm" "xi_UserID (small_input frm now rooms m) = ''@u''"
  "xi_Now (small_input frm now rooms m) = token_example now []" "pc_AccountData (xi_Previous (small_input frm now rooms m)) = m" "pc_AccountData (xi_New (small_input frm now rooms m)) = m"
  "tk_AccountData (token_example n []) = n"
  by (simp_all add: small_input_def token_example_def)

lemma small_global: "\<exists>g. global_account_data small_ext (small_input frm now rooms m) = Inr g"
  by (cases frm) (simp_all add: global_account_data_def small_ext_def then_do_def)

lemma small_since: "RoomAccountDataSince small_ext ''@u'' a b = Inr (group_rows (map (\<lambda>(r, q, e). (r, e)) (filter (\<lambda>(r, q, e). a < q \<and> q \<le> b) small_table)))"
  by (simp add: RoomAccountDataSince_def small_ext_def)

lemma small_all: "AllRoomAccountData small_ext ''@u'' = Inr (group_rows (map (\<lambda>(r, q, e). (r, e)) small_table))"
  by (simp add: AllRoomAccountData_def small_ext_def small_table_def tags_by_room_def group_rows_def then_do_def Let_def mgetz_def)

lemmas small_run = then_do_def accountDataExtension_def Let_def small_relevant small_since small_all small_table_def group_rows_def add_known_def addRoomAccountData_def mgetz_def sortedKeys_def

lemma small_entry: "xs_entry small_ext e = Inr (ad_Content e)" "qs_json (xs_room small_ext) = blank_lib" by (simp_all add: small_ext_def small_room_def)

lemma small_maps: "HaveSentRoom (NewRoomStatusMap []) r = Never" "hs_Status Never = FlagNever" "hs_Status Sent_Live = FlagLive"
  by (simp_all add: HaveSentRoom_def NewRoomStatusMap_def Never_def Sent_Live_def)

lemma small_first:
  obtains out where "accountDataExtension small_ext (small_input None 4 {''!a''} (NewRoomStatusMap [])) small_scope = Inr (out, first_map)"
  using small_global [of None 4 "{''!a''}" "NewRoomStatusMap []"] that by (auto simp: small_run first_map_def small_entry)

lemma small_second:
  obtains out where "accountDataExtension small_ext (small_input (Some 4) 7 {''!b''} first_map) small_scope = Inr (out, second_map)"
proof -
  have "HaveSentRoom first_map ''!b'' = Never" by (simp add: first_map_def have_sent_set small_maps flags_differ)
  with small_global [of "Some 4" 7 "{''!b''}" first_map] that show thesis
    by (auto simp: small_run second_map_def small_entry Never_def flags_differ)
qed

lemma small_third:
  obtains out where "accountDataExtension small_ext (small_input (Some 7) 8 {''!a''} second_map) small_scope = Inr (out, third_map)" and "mget (aj_Rooms out) ''!a'' = Some [''one'']"
proof -
  have "HaveSentRoom second_map ''!a'' = Previously (FormatInt 4)" by (simp add: first_map_def second_map_def have_sent_set small_maps flags_differ)
  moreover have "ParseInt (FormatInt 4) = Some 4" by (simp add: ParseInt_FormatInt int64_def)
  ultimately show thesis using small_global [of "Some 7" 8 "{''!a''}" second_map] that
    by (auto simp: small_run third_map_def small_entry Previously_def flags_differ)
qed

text \<open>The same with no room in range at 7: the change of \<open>!a\<close> does not come at 8.\<close>

lemma small_none:
  obtains out where "accountDataExtension small_ext (small_input (Some 4) 7 {} first_map) small_scope = Inr (out, first_map)"
  using small_global [of "Some 4" 7 "{}" first_map] that by (auto simp: small_run)

lemma small_after:
  obtains out where "accountDataExtension small_ext (small_input (Some 7) 8 {''!a''} first_map) small_scope = Inr (out, first_map)"
proof -
  have "HaveSentRoom first_map ''!a'' = Sent_Live" by (simp add: first_map_def have_sent_set small_maps flags_differ)
  with small_global [of "Some 7" 8 "{''!a''}" first_map] that show thesis by (auto simp: small_run small_maps)
qed

definition small_chain :: "(extensionInputs \<times> ExtensionScope) list" where
  "small_chain = [(small_input None 4 {''!a''} (NewRoomStatusMap []), small_scope), (small_input (Some 4) 7 {''!b''} first_map, small_scope), (small_input (Some 7) 8 {''!a''} second_map, small_scope)]"

lemma small_chained: "chained (account_serves small_ext ''@u'' small_table) (xi_From \<circ> fst) (xi_Now \<circ> fst) small_chain (\<lambda>_. Never) None (HaveSentRoom third_map)"
proof -
  have serves: "account_serves small_ext ''@u'' small_table (small_input f n {r} m, small_scope) (HaveSentRoom m) (HaveSentRoom m')"
    if "accountDataExtension small_ext (small_input f n {r} m) small_scope = Inr (out, m')" "case f of None \<Rightarrow> True | Some k \<Rightarrow> int64 k" for f n r m m' out
    using that small_table_ok by (cases f) (auto simp: account_serves_def small_relevant)
  have new: "(\<lambda>_. Never) = HaveSentRoom (NewRoomStatusMap [])" by (simp add: fun_eq_iff small_maps)
  have a: "account_serves small_ext ''@u'' small_table (small_input None 4 {''!a''} (NewRoomStatusMap []), small_scope) (HaveSentRoom (NewRoomStatusMap [])) (HaveSentRoom first_map)"
    by (rule small_first) (rule serves; simp)
  have b: "account_serves small_ext ''@u'' small_table (small_input (Some 4) 7 {''!b''} first_map, small_scope) (HaveSentRoom first_map) (HaveSentRoom second_map)"
    by (rule small_second) (rule serves; simp add: int64_def)
  have c: "account_serves small_ext ''@u'' small_table (small_input (Some 7) 8 {''!a''} second_map, small_scope) (HaveSentRoom second_map) (HaveSentRoom third_map)"
    by (rule small_third) (rule serves; simp add: int64_def)
  show ?thesis unfolding small_chain_def new using a b c by auto
qed


theorem account_change_lost_without_rooms_witness:
  "\<exists>out out'. accountDataExtension small_ext (small_input (Some 4) 7 {} first_map) small_scope = Inr (out, first_map) \<and>
     accountDataExtension small_ext (small_input (Some 7) 8 {''!a''} first_map) small_scope = Inr (out', first_map) \<and>
     (''!a'', 5, \<lparr>ad_Type = ''read'', ad_Content = ''one''\<rparr>) \<in> set small_table \<and> aj_Rooms out = [] \<and> mgetz [] (aj_Rooms out') ''!a'' = []"
proof -
  obtain out where a: "accountDataExtension small_ext (small_input (Some 4) 7 {} first_map) small_scope = Inr (out, first_map)" by (rule small_none)
  obtain out' where b: "accountDataExtension small_ext (small_input (Some 7) 8 {''!a''} first_map) small_scope = Inr (out', first_map)" by (rule small_after)
  have "HaveSentRoom first_map ''!a'' = Sent_Live" by (simp add: first_map_def have_sent_set small_maps flags_differ)
  then have "aj_Rooms out = [] \<and> (\<forall>body \<in> set (mgetz [] (aj_Rooms out') ''!a''). \<exists>q e. (''!a'', q, e) \<in> set small_table \<and>
      tk_AccountData (xi_Now (small_input (Some 4) 7 {} first_map)) < q \<and> xs_entry small_ext e = Inr body)"
    by (intro account_change_lost_without_rooms [OF small_table_ok _ a b]) (simp_all add: small_relevant small_maps)
  then have "aj_Rooms out = []" "set (mgetz [] (aj_Rooms out') ''!a'') = {}" by (auto simp: small_table_def)
  with a b show ?thesis by (auto simp: small_table_def)
qed

section \<open>Who came and who went\<close>

text \<open>The times the membership of a user (or of the caller, in a room) went in or out; the last one decides.\<close>

definition crossings :: "('d \<Rightarrow> 'k) \<Rightarrow> ('d \<Rightarrow> bool) \<Rightarrow> ('d \<Rightarrow> bool) \<Rightarrow> 'd list \<Rightarrow> 'k \<Rightarrow> bool list" where
  "crossings key before after deltas k = map after (filter (\<lambda>c. key c = k \<and> before c \<noteq> after c) deltas)"

definition came :: "bool list \<Rightarrow> bool" where "came cs \<longleftrightarrow> cs \<noteq> [] \<and> last cs"
definition went :: "bool list \<Rightarrow> bool" where "went cs \<longleftrightarrow> cs \<noteq> [] \<and> \<not> last cs"

definition member_after :: "MemberDelta \<Rightarrow> bool" where "member_after c \<longleftrightarrow> md_HasEvent c \<and> present (md_Membership c)"
definition member_before :: "MemberDelta \<Rightarrow> bool" where "member_before c \<longleftrightarrow> present (md_PrevMembership c)"

abbreviation user_crossings :: "MemberDelta list \<Rightarrow> string \<Rightarrow> bool list" where
  "user_crossings \<equiv> crossings md_UserID member_before member_after"

abbreviation own_crossings :: "MemberDelta list \<Rightarrow> string \<Rightarrow> bool list" where
  "own_crossings \<equiv> crossings md_RoomID (\<lambda>c. md_PrevMembership c = ''join'') (\<lambda>c. md_Membership c = ''join'')"

lemma crossings_snoc [simp]:
  "crossings key before after [] k = []"
  "crossings key before after (cs @ [c]) k = crossings key before after cs k @ (if key c = k \<and> before c \<noteq> after c then [after c] else [])"
  by (simp_all add: crossings_def)

lemma came_went_snoc [simp]: "\<not> came []" "\<not> went []" "came (cs @ [b]) \<longleftrightarrow> b" "went (cs @ [b]) \<longleftrightarrow> \<not> b"
  by (simp_all add: came_def went_def)

lemma present_empty: "\<not> present []" by (simp add: present_def)

lemma other_step_fold: "fold other_step deltas ({}, {}) = ({u. came (user_crossings deltas u)}, {u. went (user_crossings deltas u)})"
proof (induction deltas rule: rev_induct)
  case (snoc c deltas)
  then show ?case by (auto simp: other_step_def Let_def member_after_def member_before_def present_empty)
qed simp

lemma self_step_fold: "fold (self_step excluded) deltas ({}, {}) =
  ({r. r \<notin> excluded \<and> came (own_crossings deltas r)}, {r. r \<notin> excluded \<and> went (own_crossings deltas r)})"
proof (induction deltas rule: rev_induct)
  case (snoc c deltas)
  then show ?case by (auto simp: self_step_def)
qed simp

lemma crossings_finite: "finite {k. came (crossings key before after deltas k)}" "finite {k. went (crossings key before after deltas k)}"
proof -
  have "crossings key before after deltas k = []" if "k \<notin> key ` set deltas" for k using that by (auto simp: crossings_def filter_empty_conv)
  then have "{k. came (crossings key before after deltas k)} \<subseteq> key ` set deltas" "{k. went (crossings key before after deltas k)} \<subseteq> key ` set deltas"
    by (force simp: came_def, force simp: went_def)
  then show "finite {k. came (crossings key before after deltas k)}" "finite {k. went (crossings key before after deltas k)}" by (auto intro: finite_subset)
qed

lemma device_changes_finite: "DeviceListChanges x ord userID roomIDs since now = Inr changed \<Longrightarrow> finite changed"
  unfolding DeviceListChanges_def then_do_Inr sum.inject by (elim exE conjE) (drule sym, simp del: set_concat set_map)

lemma members_of_none: "JoinedMembersOf x (sortedKeys s) = Inr ms \<Longrightarrow> s = {} \<Longrightarrow> ms = []"
  by (simp add: JoinedMembersOf_def sortedKeys_def)

text \<open>
  C40. The device lists of a response are decided by the last crossing. When the store answers which of some users are joined to some of the
  rooms, the users reported as changed are those whose devices changed, those whose last crossing into or out of the rooms of the caller
  was an arrival, and the members of the rooms whose last crossing by the caller was a join; the users reported as left are those whose last crossing was a
  departure, or who are in a room the caller left, and who are joined to no room of the caller. Both lists are sorted and have no duplicates. The crossings of a
  user are those of all rooms together, so that a user who comes into one room and then into and out of another is in neither list.
\<close>

theorem device_lists_by_last_crossing:
  assumes "deviceListUpdates x ord userID frm now = Inr out" and "xs_joined x userID = Inr rooms"
    and "SelfMemberDeltas x userID (RoomKey_MaxStreamPos (tk_Room frm)) (RoomKey_MaxStreamPos (tk_Room now)) = Inr self"
    and "MemberDeltasInRooms x (sort (map rfu_RoomID rooms)) (RoomKey_MaxStreamPos (tk_Room frm)) (RoomKey_MaxStreamPos (tk_Room now)) = Inr deltas"
    and "DeviceListChanges x ord userID (sort (map rfu_RoomID rooms)) (mw_Stream (tk_DeviceList frm)) (MultiWriter_MaxStreamPos (tk_DeviceList now)) = Inr changed"
    and "JoinedMembersOf x (sortedKeys {r. r \<notin> xs_ExcludedRooms x \<and> came (own_crossings self r)}) = Inr met"
    and "JoinedMembersOf x (sortedKeys {r. r \<notin> xs_ExcludedRooms x \<and> went (own_crossings self r)}) = Inr parted"
    and "\<And>users ids found. xs_joinedToAny x users ids = Inr found \<Longrightarrow> set found = {u \<in> set users. \<exists>r \<in> set ids. member r u}"
  shows "sorted (dj_Changed out) \<and> distinct (dj_Changed out) \<and> sorted (dj_Left out) \<and> distinct (dj_Left out) \<and>
    set (dj_Changed out) = changed \<union> {u. came (user_crossings deltas u)} \<union> set met \<and>
    set (dj_Left out) = {u. (went (user_crossings deltas u) \<or> u \<in> set parted) \<and> \<not> (\<exists>room \<in> set rooms. member (rfu_RoomID room) u)}"
proof -
  let ?ids = "sort (map rfu_RoomID rooms)" and ?left = "{u. went (user_crossings deltas u)} \<union> set parted"
  obtain members gone sharing where m: "(if {r. r \<notin> xs_ExcludedRooms x \<and> came (own_crossings self r)} = {} then Inr [] else JoinedMembersOf x (sortedKeys {r. r \<notin> xs_ExcludedRooms x \<and> came (own_crossings self r)})) = Inr members"
    and g: "(if {r. r \<notin> xs_ExcludedRooms x \<and> went (own_crossings self r)} = {} then Inr [] else JoinedMembersOf x (sortedKeys {r. r \<notin> xs_ExcludedRooms x \<and> went (own_crossings self r)})) = Inr gone"
    and s: "(if {u. went (user_crossings deltas u)} \<union> set gone = {} then Inr {} else UsersJoinedToAny x (sortedKeys ({u. went (user_crossings deltas u)} \<union> set gone)) ?ids) = Inr sharing"
    and o: "out = \<lparr>dj_Changed = sortedKeys (changed \<union> {u. came (user_crossings deltas u)} \<union> set members), dj_Left = sortedKeys ({u. went (user_crossings deltas u)} \<union> set gone - sharing)\<rparr>"
    using assms(1) unfolding deviceListUpdates_def assms(2) then_do_def sum.case Let_def assms(3-5) self_step_fold other_step_fold prod.case
    by (auto split: sum.splits)
  have eq: "members = met" "gone = parted" using m g assms(6,7) members_of_none [OF assms(6)] members_of_none [OF assms(7)] by (auto split: if_split_asm)
  have fin: "finite ?left" "finite (changed \<union> {u. came (user_crossings deltas u)} \<union> set met)" using crossings_finite device_changes_finite [OF assms(5)] by auto
  have sh: "?left \<inter> sharing = {u \<in> ?left. \<exists>room \<in> set rooms. member (rfu_RoomID room) u}"
  proof (cases "?left = {} \<or> rooms = []")
    case True
    with s eq show ?thesis by (auto simp: UsersJoinedToAny_def split: if_split_asm)
  next
    case False
    have "set ?ids = rfu_RoomID ` set rooms" by simp
    then have ne: "sortedKeys ?left \<noteq> []" "?ids \<noteq> []" using set_sortedKeys [OF fin(1)] False by fastforce+
    from False have some: "?left \<noteq> {}" by simp
    from s [unfolded eq if_not_P [OF some]] ne obtain found where f: "xs_joinedToAny x (sortedKeys ?left) ?ids = Inr found" and "sharing = set found"
      by (auto simp: UsersJoinedToAny_def map_sum_Inr)
    with assms(8) [OF f] have "sharing = {u \<in> ?left. \<exists>r \<in> set ?ids. member r u}" using set_sortedKeys [OF fin(1)] by simp
    then show ?thesis by auto
  qed
  have "?left - sharing = ?left - ?left \<inter> sharing" by blast
  then have left: "?left - sharing = {u. (went (user_crossings deltas u) \<or> u \<in> set parted) \<and> \<not> (\<exists>room \<in> set rooms. member (rfu_RoomID room) u)}" unfolding sh by blast
  then have "finite {u. (went (user_crossings deltas u) \<or> u \<in> set parted) \<and> \<not> (\<exists>room \<in> set rooms. member (rfu_RoomID room) u)}" using fin(1) by (metis finite_Diff)
  with fin(2) show ?thesis unfolding o eq left by (simp add: sortedKeys_def)
qed

text \<open>User \<open>@v\<close> comes into \<open>!b\<close>, and then into and out of \<open>!a\<close>: the caller, in both rooms, is not told to track the devices of \<open>@v\<close>.\<close>

definition hidden_deltas :: "MemberDelta list" where
  "hidden_deltas =
     [\<lparr>md_RoomID = ''!b'', md_UserID = ''@v'', md_Membership = ''join'', md_PrevMembership = [], md_HasEvent = True\<rparr>,
      \<lparr>md_RoomID = ''!a'', md_UserID = ''@v'', md_Membership = ''join'', md_PrevMembership = [], md_HasEvent = True\<rparr>,
      \<lparr>md_RoomID = ''!a'', md_UserID = ''@v'', md_Membership = ''leave'', md_PrevMembership = ''join'', md_HasEvent = True\<rparr>]"

definition hidden_room :: "string \<Rightarrow> RoomForUser" where
  "hidden_room r = \<lparr>rfu_RoomID = r, rfu_RoomVersion = ''11'', rfu_Membership = ''join'', rfu_EventID = ''$j'', rfu_Sender = ''@u'', rfu_StreamOrdering = 1, rfu_IsPublic = False\<rparr>"

definition hidden_ext :: ExtStore where
  "hidden_ext = small_ext\<lparr>xs_joined := \<lambda>_. Inr [hidden_room ''!a'', hidden_room ''!b''], xs_roomDeltas := \<lambda>_ _ _. Inr hidden_deltas,
     xs_joinedToAny := \<lambda>us ids. Inr (filter (\<lambda>u. u = ''@v'' \<and> ''!b'' \<in> set ids) us)\<rparr>"

lemma hidden_run:
  "xs_joined hidden_ext ''@u'' = Inr [hidden_room ''!a'', hidden_room ''!b'']" "SelfMemberDeltas hidden_ext ''@u'' 1 2 = Inr []"
  "MemberDeltasInRooms hidden_ext ids 1 2 = Inr (if ids = [] then [] else hidden_deltas)" "DeviceListChanges hidden_ext ord ''@u'' ids a b = Inr {}"
  "JoinedMembersOf hidden_ext (sortedKeys {}) = Inr []" "UsersJoinedToAny hidden_ext us ids = Inr {u \<in> set us. u = ''@v'' \<and> ''!b'' \<in> set ids}" "xs_ExcludedRooms hidden_ext = {}"
  "xs_joinedToAny hidden_ext us ids = Inr (filter (\<lambda>u. u = ''@v'' \<and> ''!b'' \<in> set ids) us)"
  by (auto simp: hidden_ext_def small_ext_def SelfMemberDeltas_def MemberDeltasInRooms_def DeviceListChanges_def then_do_def JoinedMembersOf_def UsersJoinedToAny_def UsersSharingAnyRoom_def sortedKeys_def)

lemma hidden_at: "RoomKey_MaxStreamPos (tk_Room (token_example n [])) = n"
  by (simp add: token_example_def RoomKey_MaxStreamPos_def)

lemma hidden_out: "\<exists>out. deviceListUpdates hidden_ext sortedKeys ''@u'' (token_example 1 []) (token_example 2 []) = Inr out"
  by (simp add: deviceListUpdates_def hidden_run hidden_at then_do_def Let_def self_step_fold other_step_fold if_distrib cong: if_cong)

theorem device_lists_by_last_crossing_witness:
  "\<exists>out. deviceListUpdates hidden_ext sortedKeys ''@u'' (token_example 1 []) (token_example 2 []) = Inr out \<and> dj_Changed out = [] \<and> dj_Left out = [] \<and>
     UsersJoinedToAny hidden_ext [''@v''] [''!a'', ''!b''] = Inr {''@v''}"
proof -
  obtain out where out: "deviceListUpdates hidden_ext sortedKeys ''@u'' (token_example 1 []) (token_example 2 []) = Inr out" using hidden_out by blast
  have own: "own_crossings [] r = []" for r by simp
  have user: "user_crossings hidden_deltas u = (if u = ''@v'' then [True, True, False] else [])" for u
    by (simp add: crossings_def hidden_deltas_def member_before_def member_after_def present_def)
  have ids: "sort (map rfu_RoomID [hidden_room ''!a'', hidden_room ''!b'']) \<noteq> []" by simp
  have "set (dj_Changed out) = {} \<union> {u. came (user_crossings hidden_deltas u)} \<union> set [] \<and>
    set (dj_Left out) = {u. (went (user_crossings hidden_deltas u) \<or> u \<in> set []) \<and> \<not> (\<exists>room \<in> set [hidden_room ''!a'', hidden_room ''!b'']. rfu_RoomID room = ''!b'' \<and> u = ''@v'')}"
    using device_lists_by_last_crossing [OF out, of "[hidden_room ''!a'', hidden_room ''!b'']" "[]" hidden_deltas "{}" "[]" "[]" "\<lambda>r u. r = ''!b'' \<and> u = ''@v''"] ids
    by (simp add: hidden_run hidden_at del: set_sort)
  then have "set (dj_Changed out) = {}" "set (dj_Left out) = {}" by (auto simp: user came_def went_def hidden_room_def)
  with out hidden_run show ?thesis by auto
qed

section \<open>Tags\<close>

lemma split_no_initial:
  assumes "split_rooms (\<lambda>_. xi_From inp = None) prev rooms = (initial, previously, live)" and "xi_From inp \<noteq> None"
    and "\<And>r. r \<in> set rooms \<Longrightarrow> hs_Status (HaveSentRoom prev r) = FlagLive \<or> hs_Status (HaveSentRoom prev r) = FlagPreviously \<and> ParseInt (hs_LastToken (HaveSentRoom prev r)) \<noteq> None"
  shows "initial = []"
  using assms
proof (induction rooms arbitrary: initial previously live)
  case (Cons a rooms)
  obtain i pr l where rest: "split_rooms (\<lambda>_. xi_From inp = None) prev rooms = (i, pr, l)" by (metis prod_cases3)
  have "i = []" by (rule Cons.IH [OF rest Cons.prems(2)]) (use Cons.prems(3) in auto)
  with Cons.prems(1,2) Cons.prems(3) [of a] rest show ?case by (auto simp: Let_def flags_differ split: if_split_asm option.splits)
qed simp

lemma add_entries_tags: "add_entries (x\<lparr>xs_roomTags := t\<rparr>) es seen out = add_entries x es seen out"
  by (induction es arbitrary: seen out) simp_all

lemma tags_unused: "RoomAccountDataSince (x\<lparr>xs_roomTags := t\<rparr>) = RoomAccountDataSince x" "add_known (x\<lparr>xs_roomTags := t\<rparr>) = add_known x"
  "global_account_data (x\<lparr>xs_roomTags := t\<rparr>) = global_account_data x"
  by (simp_all add: fun_eq_iff RoomAccountDataSince_def add_known_def addRoomAccountData_def add_entries_tags global_account_data_def Let_def cong del: option.case_cong_weak if_weak_cong)

text \<open>
  C38. A change of the tags of a room never reaches a client of sliding sync that has the room. When every room in range has been sent, live or
  from a position that can be read, the account data section is the same whatever the tags are: the changes are read from the account data of rooms only,
  which does not hold the tags, and the tags are read only for a room sent from scratch.
\<close>

theorem tag_changes_never_sent:
  assumes "xi_From inp \<noteq> None" and "finite (relevantRooms inp scope)"
    and "\<And>r. r \<in> relevantRooms inp scope \<Longrightarrow> hs_Status (HaveSentRoom (pc_AccountData (xi_Previous inp)) r) = FlagLive \<or>
      hs_Status (HaveSentRoom (pc_AccountData (xi_Previous inp)) r) = FlagPreviously \<and> ParseInt (hs_LastToken (HaveSentRoom (pc_AccountData (xi_Previous inp)) r)) \<noteq> None"
  shows "accountDataExtension (x\<lparr>xs_roomTags := tags\<rparr>) inp scope = accountDataExtension x inp scope"
proof -
  obtain initial previously live where split: "split_rooms (\<lambda>_. xi_From inp = None) (pc_AccountData (xi_Previous inp)) (sortedKeys (relevantRooms inp scope)) = (initial, previously, live)"
    by (metis prod_cases3)
  have "initial = []" by (rule split_no_initial [OF split assms(1)]) (use assms(2,3) in auto)
  note split = split [unfolded this]
  show ?thesis unfolding accountDataExtension_def tags_unused Let_def split prod.case simp_thms if_True by (rule TrueI)
qed

theorem tag_changes_never_sent_witness:
  "accountDataExtension (small_ext\<lparr>xs_roomTags := \<lambda>_. Inr [(''!a'', ''m.favourite'', ''{}'')]\<rparr>) (small_input (Some 4) 7 {''!a''} first_map) small_scope =
   accountDataExtension small_ext (small_input (Some 4) 7 {''!a''} first_map) small_scope \<and>
   AllRoomAccountData (small_ext\<lparr>xs_roomTags := \<lambda>_. Inr [(''!a'', ''m.favourite'', ''{}'')]\<rparr>) ''@u'' \<noteq> AllRoomAccountData small_ext ''@u''"
proof
  have "HaveSentRoom first_map ''!a'' = Sent_Live" by (simp add: first_map_def have_sent_set small_maps flags_differ)
  then show "accountDataExtension (small_ext\<lparr>xs_roomTags := \<lambda>_. Inr [(''!a'', ''m.favourite'', ''{}'')]\<rparr>) (small_input (Some 4) 7 {''!a''} first_map) small_scope =
    accountDataExtension small_ext (small_input (Some 4) 7 {''!a''} first_map) small_scope"
    by (intro tag_changes_never_sent) (simp_all add: small_relevant small_maps)
  show "AllRoomAccountData (small_ext\<lparr>xs_roomTags := \<lambda>_. Inr [(''!a'', ''m.favourite'', ''{}'')]\<rparr>) ''@u'' \<noteq> AllRoomAccountData small_ext ''@u''"
    by (simp add: AllRoomAccountData_def small_ext_def small_table_def tags_by_room_def add_tags_def then_do_def Let_def mgetz_def)
qed

end
