(* ===== verification/Spec2Isabelle.thy ===== *)
theory Spec2Isabelle
  imports Go_Prelude Lru Stream_Token Stream_Cache Room_Config Required_State Replication Notifier State_Caches Stream_Gates Derived_Caches Worker
    Gjson Visibility Sync_Filter Timeline Sliding_Store Sliding_Request Sliding_Queries Room_Lists Client_Event Room_Data Device_Inbox Tracked_Stream Extension_Data
begin

text \<open>
  A verification library for \<^verbatim>\<open>synapse-gosync-worker\<close>, a Go worker that answers \<^verbatim>\<open>/sync\<close>, \<^verbatim>\<open>/events\<close>,
  \<^verbatim>\<open>/initialSync\<close> and sliding sync for a Synapse homeserver. The worker reads Synapse's PostgreSQL
  database, follows its replication stream over Redis, and writes only the connections of sliding sync
  and deletions from the inbox of devices.

  \<^bold>\<open>The program.\<close> Replication tells the worker how far each stream has come. A received batch feeds the
  stream-change caches, drops entries of the derived caches, moves the positions and wakes the requests
  that wait. A request mints a token from the positions replication has reported, reads the database
  up to that token, and answers with the token, which the client sends back. The caches save queries:
  a wrong answer of one of them is an event that a client never receives. So most of the library is
  about two questions: does a response bounded by a token contain everything up to it, and does a
  cache say what the database would have said.

  \<^bold>\<open>The theories\<close>, in the order of their imports:

  \<^item> \<open>Go_Prelude\<close>: Go maps as association lists, the functions of \<^verbatim>\<open>strconv\<close> and \<^verbatim>\<open>strings\<close> that the
    sources call, and the collections of simplification rules.
  \<^item> \<open>Lru\<close> (\<^verbatim>\<open>internal/lru\<close>): the doubly linked list and the map, with the pointers as element identities.
    It refines a list in order of use; the locale \<open>sound_cache\<close> states what a user of a cache relies on.
  \<^item> \<open>Stream_Token\<close> (\<^verbatim>\<open>internal/streamtoken\<close>, \<^verbatim>\<open>slidingsync/pos.go\<close>): parsing, printing and joining of
    tokens. Printing and parsing are inverse, and advancing a token is a least upper bound (locale
    \<open>clock_join\<close>, for both kinds of clock).
  \<^item> \<open>Stream_Cache\<close> (\<^verbatim>\<open>internal/streamcache\<close>, \<^verbatim>\<open>store/cachedict.go\<close>): against the set of all changes that
    ever happened, the cache never denies one. The locale \<open>change_gate\<close> is that contract.
  \<^item> \<open>Room_Config\<close>, \<open>Required_State\<close> (\<^verbatim>\<open>slidingsync/roomconfig.go\<close>, \<^verbatim>\<open>statefilter.go\<close>, \<^verbatim>\<open>partialstate.go\<close>,
    \<^verbatim>\<open>requiredstate.go\<close>, \<^verbatim>\<open>requiredstateresolve.go\<close>): the state a client asks for, its normal form, and the
    difference between what it has been sent and what it asks for now.
  \<^item> \<open>Replication\<close>, \<open>Notifier\<close>: the subscriber as a state machine whose steps return the calls they
    make, and the registry of waiting requests. Positions never decrease, and a wake-up is not lost.
  \<^item> \<open>State_Caches\<close>, \<open>Stream_Gates\<close>, \<open>Derived_Caches\<close> (\<^verbatim>\<open>internal/store\<close>, \<^verbatim>\<open>cmd/gosync-worker\<close>): the
    caches in front of the queries, with how they are fed, seeded, disarmed and invalidated.
  \<^item> \<open>Worker\<close>: the subscriber's calls performed on the models of the callees, and the token minted from
    the positions. Here are the theorems that span components: what a gated query answers is what the
    ungated query would, and a token covers only events that the caches have heard of.
  \<^item> \<open>Gjson\<close>, \<open>Visibility\<close>, \<open>Sync_Filter\<close>, \<open>Timeline\<close>: which events a user may see
    (\<^verbatim>\<open>internal/visibility\<close>, \<^verbatim>\<open>internal/eventfilter/eventfilter.go\<close>), which a filter lets through
    (\<^verbatim>\<open>internal/filter\<close>), and the loop that pages a room back until its timeline is full
    (\<^verbatim>\<open>handlers/filterapply.go\<close> and the walks of \<^verbatim>\<open>store/sync.go\<close>).
  \<^item> \<open>Sliding_Store\<close> (\<^verbatim>\<open>internal/slidingstore\<close>): the six tables of a sliding sync connection with their keys
    and cascades, and each operation as a transaction that may fail at any statement. What is written
    is read back, and no failure leaves the tables inconsistent.
  \<^item> \<open>Sliding_Request\<close>, \<open>Sliding_Queries\<close>, \<open>Room_Lists\<close> (\<^verbatim>\<open>slidingsync/request.go\<close>,
    \<^verbatim>\<open>store/slidingsync.go\<close>, \<^verbatim>\<open>slidingsync/roomlists.go\<close>, \<^verbatim>\<open>rewind.go\<close>): which requests are accepted, the rooms of
    a user as of a token, their order, the windows of a list, and which rooms a response may leave out.
  \<^item> \<open>Client_Event\<close> (\<^verbatim>\<open>internal/clientevent\<close>, \<^verbatim>\<open>store/redactions.go\<close>, \<^verbatim>\<open>eventfilter/redaction.go\<close>, \<^verbatim>\<open>receipts.go\<close>): a
    stored event as one client gets it. The locale \<open>json_editor\<close> states what is relied on of the JSON packages, and is
    interpreted on a tree of values. What a redaction removes is gone; a transaction id goes to its sender only.
  \<^item> \<open>Room_Data\<close> (\<^verbatim>\<open>slidingsync/roomdata.go\<close>, \<^verbatim>\<open>requiredstateresolve.go\<close>, \<^verbatim>\<open>eventfilter/aggregations.go\<close>): one room of a
    sliding sync response. Its timeline goes on where the client is, and its state is what was asked for.
  \<^item> \<open>Device_Inbox\<close> (\<^verbatim>\<open>internal/deviceinbox\<close>, \<^verbatim>\<open>store/todevice.go\<close>, \<^verbatim>\<open>handlers/todevice.go\<close>, the \<^verbatim>\<open>to_device\<close> extension): messages to
    devices, deleted once acknowledged. The locale \<open>acked_inbox\<close>, interpreted for both endpoints, gives exactly-once delivery.
  \<^item> \<open>Tracked_Stream\<close>, \<open>Extension_Data\<close> (\<^verbatim>\<open>slidingsync/extensions.go\<close> and the reads of the store it uses): the other extensions. The locale
    \<open>tracked_stream\<close> is the contract of a stream that is tracked for each connection; from it follows that over any chain of requests nothing
    is lost. It is interpreted for account data. Who is reported in the device lists is decided by the last crossing of each user.

  \<^bold>\<open>Conventions.\<close> A Go struct is a record with the fields of the struct under a short prefix; a nil pointer,
  map or slice that the code tells from an empty one is \<open>None\<close>; an error is the left side of a sum. A
  map is an association list whose order stands for the order of \<^verbatim>\<open>range\<close>, or a set where it is only asked
  for membership; where the order of a set can matter it is the argument \<open>ord\<close>. A method that holds
  the lock of its object is one step. A query of PostgreSQL is an argument of the definition
  that sends it: a function from its parameters to rows or an error; the tables of \<open>Sliding_Store\<close>,
  which belong to the worker, and the inbox of \<open>Device_Inbox\<close>, which it deletes from, are part of the model. The third-party JSON reader,
  the JSON encoding and the lower-casing of Unicode are functions that are arguments too, with what is needed of them
  as hypotheses of the theorem. Logging and metrics are left out. A size computed from a number
  of the client is a 64-bit integer.

  \<^bold>\<open>Loops.\<close> All definitions are total. The one loop bounded by a constant is that of \<^verbatim>\<open>loadFilteredRecents\<close>, whose
  bound of five repetitions (\<open>maxTimelineRepeats\<close>) is the code's own; the subscriber's run is a
  recursion over the events the connection delivers. No other fuel is used.

  \<^bold>\<open>Not modelled.\<close> The text of the SQL and the remaining queries of \<^verbatim>\<open>internal/store\<close>, which hand rows on
  as they come; the request handlers (\<^verbatim>\<open>internal/handlers\<close>) beyond the timeline, which put the pieces
  together into JSON; push rules and presence; the HTTP server, authentication, metrics,
  configuration and the comparison tool \<^verbatim>\<open>cmd/syncdiff\<close>, which is not part of the worker.
\<close>

end
